(* ===== verification/Tl_Prelude.thy ===== *)
theory Tl_Prelude
  imports Main "HOL-Library.Monad_Syntax"
begin

text \<open>
  Shared vocabulary of the development: the C++ effects the components use, and the generic
  facts their proofs share.

  Results. An operation that can hit a failed \<^verbatim>\<open>assert\<close>/\<^verbatim>\<open>GGML_ASSERT\<close>, an access outside a
  vector or bitset, or another undefined behaviour returns an \<open>option\<close>: \<open>None\<close> is that event.
  \<open>check b\<close> is the assertion statement, \<open>vget\<close>/\<open>vset\<close> the indexing of a vector, and \<open>foldM\<close> the
  counted or range-based \<^verbatim>\<open>for\<close> loop whose body may fail.

  Integers. A 32-bit signed value (\<^verbatim>\<open>llama_pos\<close>, \<^verbatim>\<open>llama_seq_id\<close>, \<^verbatim>\<open>int32_t\<close>) is an \<open>int\<close>; the
  additions that may leave the 32-bit range check it with \<open>i32_ok\<close>. A 32-bit unsigned counter is
  a \<open>nat\<close>, reduced by \<open>u32\<close> where the code's expression can wrap, a \<^verbatim>\<open>size_t\<close> one reduced by \<open>u64\<close>.
\<close>

named_theorems opt_elims \<open>inversion of successful computations\<close>

type_synonym llama_pos = int
type_synonym llama_seq_id = int
type_synonym llama_token = int

definition i32_max :: int where
  "i32_max = 2147483647"

definition i32_ok :: "int \<Rightarrow> bool" where
  "i32_ok x \<longleftrightarrow> - 2147483648 \<le> x \<and> x \<le> i32_max"

definition u32 :: "nat \<Rightarrow> nat" where
  "u32 n = n mod 2 ^ 32"

lemma u32_small [simp]: "n < 4294967296 \<Longrightarrow> u32 n = n"
  by (simp add: u32_def)

definition u64 :: "nat \<Rightarrow> nat" where
  "u64 n = n mod 2 ^ 64"

definition u64_sub :: "nat \<Rightarrow> nat \<Rightarrow> nat" where
  "u64_sub a b = u64 (a + 2 ^ 64 - u64 b)"

lemma u64_small [simp]: "n < 18446744073709551616 \<Longrightarrow> u64 n = n"
  by (simp add: u64_def)

lemma u64_sub_le [simp]: "b \<le> a \<Longrightarrow> a < 18446744073709551616 \<Longrightarrow> u64_sub a b = a - b"
  using mod_add_self2 [of "a - b" "2 ^ 64"] by (simp add: u64_sub_def u64_def)

text \<open>Integer division and remainder of C++ round towards zero.\<close>

definition cdiv :: "int \<Rightarrow> int \<Rightarrow> int" where
  "cdiv a b = sgn a * sgn b * (\<bar>a\<bar> div \<bar>b\<bar>)"

lemma cdiv_nonneg [simp]: "0 \<le> a \<Longrightarrow> 0 < b \<Longrightarrow> cdiv a b = a div b"
  by (cases "a = 0") (auto simp: cdiv_def)

section \<open>Failing computations\<close>

definition check :: "bool \<Rightarrow> unit option" where
  "check b = (if b then Some () else None)"

definition vget :: "'a list \<Rightarrow> nat \<Rightarrow> 'a option" where
  "vget xs i = (if i < length xs then Some (xs ! i) else None)"

definition vset :: "'a list \<Rightarrow> nat \<Rightarrow> 'a \<Rightarrow> 'a list option" where
  "vset xs i v = (if i < length xs then Some (xs[i := v]) else None)"

fun foldM :: "('a \<Rightarrow> 's \<Rightarrow> 's option) \<Rightarrow> 'a list \<Rightarrow> 's \<Rightarrow> 's option" where
  "foldM f [] s = Some s"
| "foldM f (x # xs) s = Option.bind (f x s) (foldM f xs)"

lemma check_simps [simp]:
  "check True = Some ()" "check False = None"
  by (simp_all add: check_def)

lemma check_Some_iff [simp]: "check b = Some u \<longleftrightarrow> b"
  by (simp add: check_def)

lemma check_bind_Some_iff [simp]:
  "Option.bind (check b) f = Some y \<longleftrightarrow> b \<and> f () = Some y"
  by (simp add: check_def)

lemma bind_SomeD [opt_elims]:
  "Option.bind m f = Some y \<Longrightarrow> \<exists>x. m = Some x \<and> f x = Some y"
  by (cases m) auto

lemma vget_Some_iff [simp]: "vget xs i = Some x \<longleftrightarrow> i < length xs \<and> xs ! i = x"
  by (auto simp: vget_def)

lemma vset_Some_iff [simp]: "vset xs i v = Some ys \<longleftrightarrow> i < length xs \<and> ys = xs[i := v]"
  by (auto simp: vset_def)

subsection \<open>Loops\<close>

lemma foldM_append: "foldM f (xs @ ys) s = Option.bind (foldM f xs s) (foldM f ys)"
  by (induction xs arbitrary: s) (auto split: bind_split)

lemma foldM_cong [fundef_cong]:
  "\<lbrakk>xs = ys; s = t; \<And>x u. x \<in> set ys \<Longrightarrow> f x u = g x u\<rbrakk> \<Longrightarrow> foldM f xs s = foldM g ys t"
proof (induction xs arbitrary: ys s t)
  case (Cons a xs)
  then show ?case by (cases ys) (auto split: bind_split)
qed auto

text \<open>The two rules for a loop with an invariant: what a finished run keeps, and that it finishes.\<close>

lemma foldM_invariant:
  assumes "foldM f xs s = Some t" and "I s"
    and "\<And>x u v. x \<in> set xs \<Longrightarrow> I u \<Longrightarrow> f x u = Some v \<Longrightarrow> I v"
  shows "I t"
  using assms
proof (induction xs arbitrary: s)
  case (Cons x xs)
  from Cons.prems(1) obtain u where u: "f x s = Some u" "foldM f xs u = Some t"
    by (auto dest: bind_SomeD)
  show ?case
    by (rule Cons.IH [OF u(2)]) (use Cons.prems u in auto)
qed simp

lemma foldM_total:
  assumes "I s"
    and "\<And>x u. x \<in> set xs \<Longrightarrow> I u \<Longrightarrow> \<exists>v. f x u = Some v \<and> I v"
  shows "\<exists>t. foldM f xs s = Some t \<and> I t"
  using assms
proof (induction xs arbitrary: s)
  case (Cons x xs)
  then obtain v where "f x s = Some v" "I v" by force
  moreover from Cons.IH [OF this(2)] Cons.prems(2) obtain t where "foldM f xs v = Some t" "I t"
    by auto
  ultimately show ?case by auto
qed simp

text \<open>A counted loop, with an invariant that may speak of the index reached.\<close>

lemma foldM_upt_total:
  assumes "a \<le> b" and "I a s"
    and "\<And>k u. a \<le> k \<Longrightarrow> k < b \<Longrightarrow> I k u \<Longrightarrow> \<exists>v. f k u = Some v \<and> I (Suc k) v"
  shows "\<exists>t. foldM f [a..<b] s = Some t \<and> I b t"
  using assms
proof (induction "b - a" arbitrary: a s)
  case 0
  then show ?case by simp
next
  case (Suc n)
  then have "a < b" by simp
  with Suc.prems obtain v where v: "f a s = Some v" "I (Suc a) v" by blast
  have "\<exists>t. foldM f [Suc a..<b] v = Some t \<and> I b t"
    by (rule Suc.hyps(1)) (use Suc.prems Suc.hyps(2) v \<open>a < b\<close> in auto)
  with v(1) \<open>a < b\<close> show ?case by (auto simp: upt_conv_Cons)
qed

section \<open>Lists\<close>

lemma nth_list_update_if: "i < length xs \<Longrightarrow> xs[j := v] ! i = (if i = j then v else xs ! i)"
  by (cases "i = j") auto

lemma list_eq_nthI: "length xs = length ys \<Longrightarrow> (\<And>i. i < length xs \<Longrightarrow> xs ! i = ys ! i) \<Longrightarrow> xs = ys"
  by (rule nth_equalityI) auto

lemma all_lt_2: "(\<forall>i < (2 :: nat). P i) \<longleftrightarrow> P 0 \<and> P 1"
  by (auto simp: less_2_cases_iff)

end
