(* ===== verification/Ord_Map.thy ===== *)
theory Ord_Map
  imports Tl_Prelude
begin

text \<open>
  \<^verbatim>\<open>std::map\<close> as an association list kept in increasing key order, so that \<^verbatim>\<open>begin()\<close> is the head,
  \<^verbatim>\<open>rbegin()\<close> the last entry and a traversal visits the keys in order; and the occurrence counters
  \<^verbatim>\<open>std::map<llama_pos, int>\<close> that the KV cells keep per sequence, with the interface
  (locale \<open>pos_counter\<close>) under which the cells use them.
\<close>

type_synonym ('k, 'v) omap = "('k \<times> 'v) list"

fun om_set :: "'k::linorder \<Rightarrow> 'v \<Rightarrow> ('k, 'v) omap \<Rightarrow> ('k, 'v) omap" where
  "om_set k v [] = [(k, v)]"
| "om_set k v ((l, w) # m) =
     (if k < l then (k, v) # (l, w) # m
      else if k = l then (k, v) # m
      else (l, w) # om_set k v m)"

fun om_erase :: "'k::linorder \<Rightarrow> ('k, 'v) omap \<Rightarrow> ('k, 'v) omap" where
  "om_erase k [] = []"
| "om_erase k ((l, w) # m) = (if k = l then m else (l, w) # om_erase k m)"

abbreviation om_find :: "('k, 'v) omap \<Rightarrow> 'k \<Rightarrow> 'v option" where
  "om_find \<equiv> map_of"

definition om_wf :: "('k::linorder, 'v) omap \<Rightarrow> bool" where
  "om_wf m \<longleftrightarrow> sorted_wrt (<) (map fst m)"

lemma om_wf_Nil [simp]: "om_wf []"
  by (simp add: om_wf_def)

lemma om_wf_Cons [simp]: "om_wf ((k, v) # m) \<longleftrightarrow> (\<forall>l \<in> fst ` set m. k < l) \<and> om_wf m"
  by (auto simp: om_wf_def)

lemma om_set_keys [simp]: "fst ` set (om_set k v m) = insert k (fst ` set m)"
  by (induction k v m rule: om_set.induct) (auto simp: image_iff)

lemma om_set_elem: "x \<in> set (om_set k v m) \<Longrightarrow> x = (k, v) \<or> x \<in> set m"
  by (induction k v m rule: om_set.induct) (auto split: if_splits)

lemma om_wf_set [simp]: "om_wf m \<Longrightarrow> om_wf (om_set k v m)"
  by (induction k v m rule: om_set.induct) (force dest: om_set_elem)+

lemma om_find_set [simp]: "om_wf m \<Longrightarrow> om_find (om_set k v m) = (om_find m)(k \<mapsto> v)"
  by (induction k v m rule: om_set.induct) (auto simp: fun_eq_iff)

lemma om_find_below: "\<forall>l \<in> fst ` set m. k < l \<Longrightarrow> om_find m (k::'k::linorder) = None"
  by (auto simp: map_of_eq_None_iff)

lemma om_erase_subset: "set (om_erase k m) \<subseteq> set m"
  by (induction k m rule: om_erase.induct) auto

lemma om_wf_erase [simp]: "om_wf m \<Longrightarrow> om_wf (om_erase k m)"
  by (induction k m rule: om_erase.induct) (use om_erase_subset in fastforce)+

lemma om_find_erase [simp]: "om_wf m \<Longrightarrow> om_find (om_erase k m) = (om_find m)(k := None)"
  by (induction k m rule: om_erase.induct) (auto simp: fun_eq_iff om_find_below)

text \<open>The representation is canonical: equal lookups, equal maps.\<close>

lemma om_eqI: "om_wf m \<Longrightarrow> om_wf m' \<Longrightarrow> om_find m = om_find m' \<Longrightarrow> m = m'"
proof (induction m arbitrary: m')
  case Nil
  then show ?case by (metis map_of_eq_empty_iff map_of.simps(1))
next
  case (Cons a m)
  obtain k v where a: "a = (k, v)" by fastforce
  from Cons.prems(3) a have "m' \<noteq> []" by (auto simp: fun_eq_iff split: if_splits)
  then obtain l w r where m': "m' = (l, w) # r" by (metis neq_Nil_conv surj_pair)
  have kl: "k = l"
  proof (rule ccontr)
    assume "k \<noteq> l"
    have "om_find m' k = Some v" "om_find ((k, v) # m) l = Some w"
      using Cons.prems(3) a m' by (metis fun_upd_same map_of.simps(2) fst_conv snd_conv)+
    then have "k \<in> fst ` set r" "l \<in> fst ` set m"
      using \<open>k \<noteq> l\<close> m' by (force dest!: map_of_SomeD)+
    with Cons.prems(1,2) a m' show False by (auto dest: less_asym)
  qed
  have "om_find m k = None" "om_find r k = None"
    using Cons.prems(1,2) a m' kl by (auto intro!: om_find_below)
  moreover have "om_find (a # m) x = om_find m' x" for x
    by (rule fun_cong [OF Cons.prems(3)])
  ultimately have "om_find m = om_find r" "v = w"
    unfolding a m' kl by (auto simp: fun_eq_iff) (metis option.inject)+
  then show ?case using Cons a m' kl by auto
qed

lemma om_find_mem_iff: "om_wf m \<Longrightarrow> om_find m k = Some v \<longleftrightarrow> (k, v) \<in> set m"
  by (metis om_wf_def map_of_SomeD map_of_is_SomeI strict_sorted_iff strict_sorted_simps distinct_map)

lemma om_dom: "dom (om_find m) = fst ` set m"
  by (simp add: dom_map_of_conv_image_fst)

lemma om_hd_least: "om_wf m \<Longrightarrow> m \<noteq> [] \<Longrightarrow> fst (hd m) = Min (dom (om_find m))"
  unfolding om_dom by (cases m) (force intro!: Min_insert2 [symmetric] less_imp_le)+

lemma om_last_greatest: "om_wf m \<Longrightarrow> m \<noteq> [] \<Longrightarrow> fst (last m) = Max (dom (om_find m))"
  unfolding om_dom
proof (induction m)
  case (Cons a m)
  show ?case
  proof (cases "m = []")
    case False
    then have "hd m \<in> set m" by simp
    moreover from this Cons.prems(1) have "fst a < fst (hd m)" by (cases a) simp
    ultimately obtain b where b: "b \<in> set m" "fst a < fst b" by blast
    then have "fst a \<le> Max (fst ` set m)"
      by (meson List.finite_set Max_ge finite_imageI imageI less_imp_le order_trans)
    with Cons False show ?thesis by (cases a) (auto simp: max_absorb2)
  qed simp
qed simp

section \<open>Occurrence counters\<close>

text \<open>
  \<^verbatim>\<open>seq_pos[s]\<close>: how many cells hold each position. \<open>ctr_inc\<close> is \<^verbatim>\<open>m[p]++\<close> (a missing key is
  first value-initialised to 0); \<open>ctr_dec\<close> asserts that the key is there and erases it when its
  count reaches zero; the extremes are read off the two ends.
\<close>

type_synonym counter = "(llama_pos, int) omap"

definition ctr_inc :: "llama_pos \<Rightarrow> counter \<Rightarrow> counter" where
  "ctr_inc p m = om_set p ((case om_find m p of None \<Rightarrow> 0 | Some c \<Rightarrow> c) + 1) m"

definition ctr_dec :: "llama_pos \<Rightarrow> counter \<Rightarrow> counter option" where
  "ctr_dec p m =
     (case om_find m p of
        None \<Rightarrow> None
      | Some c \<Rightarrow> Some (if c - 1 = 0 then om_erase p m else om_set p (c - 1) m))"

definition ctr_min :: "counter \<Rightarrow> llama_pos option" where
  "ctr_min m = (if m = [] then Some (- 1)
     else do { check (snd (hd m) > 0); Some (fst (hd m)) })"

definition ctr_max :: "counter \<Rightarrow> llama_pos option" where
  "ctr_max m = (if m = [] then Some (- 1)
     else do { check (snd (last m) > 0); Some (fst (last m)) })"

definition ctr_count :: "counter \<Rightarrow> llama_pos \<Rightarrow> nat" where
  "ctr_count m p = (case om_find m p of None \<Rightarrow> 0 | Some c \<Rightarrow> nat c)"

definition ctr_wf :: "counter \<Rightarrow> bool" where
  "ctr_wf m \<longleftrightarrow> om_wf m \<and> (\<forall>x \<in> set m. 0 < snd x)"

text \<open>What the cells rely on, for any representation of the counters.\<close>

locale pos_counter =
  fixes wf :: "'m \<Rightarrow> bool"
    and count :: "'m \<Rightarrow> llama_pos \<Rightarrow> nat"
    and empty :: 'm
    and inc :: "llama_pos \<Rightarrow> 'm \<Rightarrow> 'm"
    and dec :: "llama_pos \<Rightarrow> 'm \<Rightarrow> 'm option"
    and pmin :: "'m \<Rightarrow> llama_pos option"
    and pmax :: "'m \<Rightarrow> llama_pos option"
  assumes wf_empty: "wf empty"
    and count_empty: "count empty p = 0"
    and wf_inc: "wf m \<Longrightarrow> wf (inc p m)"
    and count_inc: "wf m \<Longrightarrow> count (inc p m) = (count m)(p := count m p + 1)"
    and dec_defined: "wf m \<Longrightarrow> (\<exists>m'. dec p m = Some m') \<longleftrightarrow> 0 < count m p"
    and wf_dec: "wf m \<Longrightarrow> dec p m = Some m' \<Longrightarrow> wf m'"
    and count_dec: "wf m \<Longrightarrow> dec p m = Some m' \<Longrightarrow> count m' = (count m)(p := count m p - 1)"
    and ext: "wf m \<Longrightarrow> wf m' \<Longrightarrow> count m = count m' \<Longrightarrow> m = m'"
    and finite_count: "wf m \<Longrightarrow> finite {p. 0 < count m p}"
    and pmin_empty: "wf m \<Longrightarrow> (\<forall>p. count m p = 0) \<Longrightarrow> pmin m = Some (- 1)"
    and pmin_least: "wf m \<Longrightarrow> 0 < count m p \<Longrightarrow> pmin m = Some (Min {q. 0 < count m q})"
    and pmax_empty: "wf m \<Longrightarrow> (\<forall>p. count m p = 0) \<Longrightarrow> pmax m = Some (- 1)"
    and pmax_greatest: "wf m \<Longrightarrow> 0 < count m p \<Longrightarrow> pmax m = Some (Max {q. 0 < count m q})"
begin

lemma dec_inc: "wf m \<Longrightarrow> dec p (inc p m) = Some m"
proof -
  assume wf: "wf m"
  then obtain m' where m': "dec p (inc p m) = Some m'"
    using dec_defined [OF wf_inc [OF wf], of p p] count_inc [OF wf, of p] by auto
  have "count m' = count m"
    using count_dec [OF wf_inc [OF wf] m'] count_inc [OF wf, of p] by simp
  then show ?thesis
    using m' ext wf_dec [OF wf_inc [OF wf] m'] wf by blast
qed

lemma inc_dec: "wf m \<Longrightarrow> dec p m = Some m' \<Longrightarrow> inc p m' = m"
  using dec_defined [of m p]
  by (intro ext) (auto simp: wf_inc wf_dec count_inc [OF wf_dec] count_dec)

lemma inc_commute: "wf m \<Longrightarrow> inc p (inc q m) = inc q (inc p m)"
  by (rule ext) (auto simp: wf_inc count_inc fun_eq_iff)

lemma pmin_le: "wf m \<Longrightarrow> 0 < count m p \<Longrightarrow> pmin m = Some q \<Longrightarrow> q \<le> p \<and> 0 < count m q"
  using Min_in [of "{q. 0 < count m q}"] finite_count [of m]
  by (auto simp: pmin_least)

lemma pmax_ge: "wf m \<Longrightarrow> 0 < count m p \<Longrightarrow> pmax m = Some q \<Longrightarrow> p \<le> q \<and> 0 < count m q"
  using Max_in [of "{q. 0 < count m q}"] finite_count [of m]
  by (auto simp: pmax_greatest)

lemma pmin_defined: "wf m \<Longrightarrow> \<exists>q. pmin m = Some q"
  by (cases "\<exists>p. 0 < count m p") (auto simp: pmin_empty dest: pmin_least)

lemma pmax_defined: "wf m \<Longrightarrow> \<exists>q. pmax m = Some q"
  by (cases "\<exists>p. 0 < count m p") (auto simp: pmax_empty dest: pmax_greatest)

end

lemma ctr_wf_Some: "ctr_wf m \<Longrightarrow> om_find m p = Some c \<Longrightarrow> 0 < c"
  by (force simp: ctr_wf_def dest: map_of_SomeD)

lemma ctr_wf_om: "ctr_wf m \<Longrightarrow> om_wf m"
  by (simp add: ctr_wf_def)

lemma ctr_wf_erase: "ctr_wf m \<Longrightarrow> ctr_wf (om_erase p m)"
  using om_erase_subset by (fastforce simp: ctr_wf_def)

lemma ctr_wf_set: "ctr_wf m \<Longrightarrow> 0 < c \<Longrightarrow> ctr_wf (om_set p c m)"
  by (auto simp: ctr_wf_def dest: om_set_elem)

lemma ctr_support: "ctr_wf m \<Longrightarrow> {p. 0 < ctr_count m p} = dom (om_find m)"
  by (auto simp: ctr_count_def dest: ctr_wf_Some split: option.splits)

lemma ctr_ext:
  assumes "ctr_wf m" "ctr_wf m'" "ctr_count m = ctr_count m'"
  shows "m = m'"
proof (rule om_eqI)
  show "om_find m = om_find m'"
  proof
    fix p
    from assms(3) have "ctr_count m p = ctr_count m' p" by simp
    then show "om_find m p = om_find m' p"
      using ctr_wf_Some [OF assms(1), of p] ctr_wf_Some [OF assms(2), of p]
      by (auto simp: ctr_count_def split: option.splits)
  qed
qed (use assms in \<open>simp_all add: ctr_wf_om\<close>)

lemma ctr_empty_iff: "ctr_wf m \<Longrightarrow> (\<forall>p. ctr_count m p = 0) \<longleftrightarrow> m = []"
  using ctr_ext [of m "[]"] by (auto simp: ctr_wf_def ctr_count_def fun_eq_iff)

interpretation ctr: pos_counter ctr_wf ctr_count "[]" ctr_inc ctr_dec ctr_min ctr_max
proof (unfold_locales, goal_cases)
  case (3 m p)
  then show ?case
    by (auto simp: ctr_inc_def intro!: ctr_wf_set dest: ctr_wf_Some split: option.splits)
next
  case (4 m p)
  then show ?case
    by (auto simp: ctr_inc_def ctr_count_def fun_eq_iff ctr_wf_om nat_add_distrib
        dest: ctr_wf_Some split: option.splits)
next
  case (5 m p)
  then show ?case by (auto simp: ctr_dec_def ctr_count_def dest: ctr_wf_Some split: option.splits)
next
  case (6 m p m')
  then show ?case
    using ctr_wf_Some [of m p]
    by (force simp: ctr_dec_def split: option.splits if_splits intro: ctr_wf_erase ctr_wf_set)
next
  case (7 m p m')
  then show ?case
    using ctr_wf_Some [of m p]
    by (auto simp: ctr_dec_def ctr_count_def fun_eq_iff ctr_wf_om split: option.splits if_splits)
next
  case (8 m m')
  then show ?case by (rule ctr_ext)
next
  case (9 m)
  then show ?case by (simp add: ctr_support finite_dom_map_of)
next
  case (10 m)
  then show ?case by (simp add: ctr_empty_iff ctr_min_def)
next
  case (11 m p)
  then have "m \<noteq> []" using ctr_empty_iff by force
  with 11 show ?case
    by (simp add: ctr_min_def ctr_support om_hd_least ctr_wf_om) (simp add: ctr_wf_def)
next
  case (12 m)
  then show ?case by (simp add: ctr_empty_iff ctr_max_def)
next
  case (13 m p)
  then have "m \<noteq> []" using ctr_empty_iff by force
  with 13 show ?case
    by (simp add: ctr_max_def ctr_support om_last_greatest ctr_wf_om) (simp add: ctr_wf_def)
qed (simp_all add: ctr_wf_def ctr_count_def)

end
