(* ===== verification/Kv_Cells.thy ===== *)
theory Kv_Cells
  imports Ord_Map
begin

text \<open>
  \<^verbatim>\<open>llama_kv_cells\<close> (src/llama-kv-cells.h): the metadata of the cells of one KV stream, where a
  cell may belong to several sequences at once, with the derived indices \<open>kc_used\<close> (the occupied
  cells) and \<open>kc_seq_pos\<close> (per sequence, how many cells hold each position).
  \<open>cells_inv\<close> says that the indices agree with the cells; every operation keeps it, and no
  operation called within its contract fails an assertion. \<open>cell_at\<close> is the abstract view of a
  cell, and each operation has a lemma that gives its effect on that view.
\<close>

section \<open>State\<close>

definition LLAMA_MAX_SEQ :: nat where
  "LLAMA_MAX_SEQ = 256"

record kv_cell_ext =
  ext_x :: llama_pos
  ext_y :: llama_pos

definition is_2d_gt :: "kv_cell_ext \<Rightarrow> llama_pos \<Rightarrow> llama_pos \<Rightarrow> bool" where
  "is_2d_gt e ox oy \<longleftrightarrow> ext_y e > oy \<or> (ext_y e = oy \<and> ext_x e > ox)"

definition ext_reset :: kv_cell_ext where
  "ext_reset = \<lparr>ext_x = 0, ext_y = 0\<rparr>"

text \<open>\<^verbatim>\<open>std::bitset<LLAMA_MAX_SEQ>\<close> is the set of its one bits; its accesses throw out of range.\<close>

type_synonym seq_set_t = "llama_seq_id set"

definition seq_id_ok :: "llama_seq_id \<Rightarrow> bool" where
  "seq_id_ok s \<longleftrightarrow> 0 \<le> s \<and> s < int LLAMA_MAX_SEQ"

definition bs_test :: "seq_set_t \<Rightarrow> llama_seq_id \<Rightarrow> bool option" where
  "bs_test b s = (if seq_id_ok s then Some (s \<in> b) else None)"

definition all_seqs :: "llama_seq_id list" where
  "all_seqs = map int [0..<LLAMA_MAX_SEQ]"

record kv_cells =
  kc_has_shift :: bool
  kc_used :: "nat set"
  kc_pos :: "llama_pos list"
  kc_ext :: "kv_cell_ext list"
  kc_shift :: "llama_pos list"
  kc_seq :: "seq_set_t list"
  kc_seq_pos :: "llama_seq_id \<Rightarrow> counter"

definition kc_size :: "kv_cells \<Rightarrow> nat" where
  "kc_size c = length (kc_pos c)"

definition kc_reset :: "kv_cells \<Rightarrow> kv_cells" where
  "kc_reset c =
     (let n = kc_size c in
      c\<lparr>kc_pos := replicate n (- 1), kc_ext := replicate n ext_reset,
        kc_shift := replicate n 0, kc_seq := replicate n {},
        kc_has_shift := False, kc_used := {}, kc_seq_pos := (\<lambda>_. [])\<rparr>)"

definition kc_reset_shift :: "kv_cells \<Rightarrow> kv_cells" where
  "kc_reset_shift c = c\<lparr>kc_has_shift := False, kc_shift := replicate (length (kc_shift c)) 0\<rparr>"

text \<open>A default-constructed object, and \<^verbatim>\<open>resize\<close>, which resets every cell.\<close>

definition kc_new :: kv_cells where
  "kc_new = \<lparr>kc_has_shift = False, kc_used = {}, kc_pos = [], kc_ext = [], kc_shift = [],
     kc_seq = [], kc_seq_pos = (\<lambda>_. [])\<rparr>"

definition kc_resize :: "nat \<Rightarrow> kv_cells \<Rightarrow> kv_cells" where
  "kc_resize n c = kc_reset (c\<lparr>kc_pos := replicate n (- 1)\<rparr>)"

section \<open>Queries\<close>

definition kc_is_empty :: "kv_cells \<Rightarrow> nat \<Rightarrow> bool option" where
  "kc_is_empty c i = do {
     check (i < kc_size c);
     check ((kc_pos c ! i < 0 \<and> kc_pos c ! i = - 1) \<or> kc_pos c ! i \<ge> 0);
     Some (kc_pos c ! i = - 1) }"

definition kc_get_used :: "kv_cells \<Rightarrow> nat" where
  "kc_get_used c = card (kc_used c)"

definition kc_used_min :: "kv_cells \<Rightarrow> nat" where
  "kc_used_min c = (if kc_used c = {} then 0 else Min (kc_used c))"

definition kc_used_max_p1 :: "kv_cells \<Rightarrow> nat" where
  "kc_used_max_p1 c = (if kc_used c = {} then 0 else Max (kc_used c) + 1)"

definition kc_seq_count :: "kv_cells \<Rightarrow> nat \<Rightarrow> nat option" where
  "kc_seq_count c i = do {
     check (i < kc_size c);
     check (kc_pos c ! i \<noteq> - 1);
     Some (card (kc_seq c ! i)) }"

definition kc_seq_has :: "kv_cells \<Rightarrow> nat \<Rightarrow> llama_seq_id \<Rightarrow> bool option" where
  "kc_seq_has c i s = do {
     check (i < kc_size c);
     check (0 \<le> s);
     bs_test (kc_seq c ! i) s }"

definition kc_seq_get :: "kv_cells \<Rightarrow> nat \<Rightarrow> llama_seq_id option" where
  "kc_seq_get c i = do {
     b \<leftarrow> vget (kc_seq c) i;
     check (card b = 1);
     Some (case List.find (\<lambda>s. s \<in> b) all_seqs of Some s \<Rightarrow> s | None \<Rightarrow> - 1) }"

definition kc_seq_pos_min :: "kv_cells \<Rightarrow> llama_seq_id \<Rightarrow> llama_pos option" where
  "kc_seq_pos_min c s = do {
     check (0 \<le> s); check (s < int LLAMA_MAX_SEQ);
     ctr_min (kc_seq_pos c s) }"

definition kc_seq_pos_max :: "kv_cells \<Rightarrow> llama_seq_id \<Rightarrow> llama_pos option" where
  "kc_seq_pos_max c s = do {
     check (0 \<le> s); check (s < int LLAMA_MAX_SEQ);
     ctr_max (kc_seq_pos c s) }"

definition kc_pos_get :: "kv_cells \<Rightarrow> nat \<Rightarrow> llama_pos option" where
  "kc_pos_get c i = do {
     check (i < kc_size c);
     check (kc_pos c ! i \<noteq> - 1);
     Some (kc_pos c ! i) }"

definition kc_ext_get :: "kv_cells \<Rightarrow> nat \<Rightarrow> kv_cell_ext option" where
  "kc_ext_get c i = do {
     check (i < kc_size c);
     check (kc_pos c ! i \<noteq> - 1);
     Some (kc_ext c ! i) }"

definition kc_get_shift :: "kv_cells \<Rightarrow> nat \<Rightarrow> llama_pos option" where
  "kc_get_shift c i = do {
     check (i < kc_size c);
     check (kc_pos c ! i \<noteq> - 1);
     Some (kc_shift c ! i) }"

definition kc_pos_in :: "kv_cells \<Rightarrow> nat \<Rightarrow> llama_pos \<Rightarrow> llama_pos \<Rightarrow> bool option" where
  "kc_pos_in c i p0 p1 = do {
     check (i < kc_size c);
     Some (kc_pos c ! i \<ge> p0 \<and> kc_pos c ! i < p1) }"

section \<open>Maintenance of the position index\<close>

definition kc_seq_pos_dec :: "llama_seq_id \<Rightarrow> llama_pos \<Rightarrow> kv_cells \<Rightarrow> kv_cells option" where
  "kc_seq_pos_dec s p c = do {
     m \<leftarrow> ctr_dec p (kc_seq_pos c s);
     Some (c\<lparr>kc_seq_pos := (kc_seq_pos c)(s := m)\<rparr>) }"

definition kc_seq_pos_inc :: "llama_seq_id \<Rightarrow> llama_pos \<Rightarrow> kv_cells \<Rightarrow> kv_cells" where
  "kc_seq_pos_inc s p c = c\<lparr>kc_seq_pos := (kc_seq_pos c)(s := ctr_inc p (kc_seq_pos c s))\<rparr>"

definition kc_seq_pos_rm :: "nat \<Rightarrow> kv_cells \<Rightarrow> kv_cells option" where
  "kc_seq_pos_rm i c = foldM (\<lambda>s c. do {
       t \<leftarrow> bs_test (kc_seq c ! i) s;
       if t then kc_seq_pos_dec s (kc_pos c ! i) c else Some c }) all_seqs c"

definition kc_seq_pos_add :: "nat \<Rightarrow> kv_cells \<Rightarrow> kv_cells option" where
  "kc_seq_pos_add i c = foldM (\<lambda>s c. do {
       t \<leftarrow> bs_test (kc_seq c ! i) s;
       Some (if t then kc_seq_pos_inc s (kc_pos c ! i) c else c) }) all_seqs c"

section \<open>Updates\<close>

definition kc_rm :: "nat \<Rightarrow> kv_cells \<Rightarrow> kv_cells option" where
  "kc_rm i c = do {
     check (i < kc_size c);
     check (kc_pos c ! i \<noteq> - 1);
     c \<leftarrow> kc_seq_pos_rm i c;
     Some (c\<lparr>kc_seq := (kc_seq c)[i := {}], kc_pos := (kc_pos c)[i := - 1],
            kc_ext := (kc_ext c)[i := ext_reset], kc_shift := (kc_shift c)[i := 0],
            kc_used := kc_used c - {i}\<rparr>) }"

definition kc_seq_rm :: "nat \<Rightarrow> llama_seq_id \<Rightarrow> kv_cells \<Rightarrow> (bool \<times> kv_cells) option" where
  "kc_seq_rm i s c = do {
     check (i < kc_size c);
     t \<leftarrow> bs_test (kc_seq c ! i) s;
     check t;
     check (kc_pos c ! i \<noteq> - 1);
     check (0 \<le> s);
     let c = c\<lparr>kc_seq := (kc_seq c)[i := kc_seq c ! i - {s}]\<rparr>;
     c \<leftarrow> kc_seq_pos_dec s (kc_pos c ! i) c;
     Some (if kc_seq c ! i = {}
           then (True, c\<lparr>kc_pos := (kc_pos c)[i := - 1], kc_ext := (kc_ext c)[i := ext_reset],
                         kc_shift := (kc_shift c)[i := 0], kc_used := kc_used c - {i}\<rparr>)
           else (False, c)) }"

definition kc_seq_keep :: "nat \<Rightarrow> llama_seq_id \<Rightarrow> kv_cells \<Rightarrow> (bool \<times> kv_cells) option" where
  "kc_seq_keep i s c = do {
     check (i < kc_size c);
     t \<leftarrow> bs_test (kc_seq c ! i) s;
     if t then do {
       c \<leftarrow> kc_seq_pos_rm i c;
       let c = c\<lparr>kc_seq := (kc_seq c)[i := {s}]\<rparr>;
       Some (False, kc_seq_pos_inc s (kc_pos c ! i) c) }
     else if kc_seq c ! i \<noteq> {} then do {
       c \<leftarrow> kc_seq_pos_rm i c;
       Some (True, c\<lparr>kc_seq := (kc_seq c)[i := {}], kc_pos := (kc_pos c)[i := - 1],
                     kc_ext := (kc_ext c)[i := ext_reset], kc_shift := (kc_shift c)[i := 0],
                     kc_used := kc_used c - {i}\<rparr>) }
     else do {
       check (kc_pos c ! i = - 1);
       Some (False, c) } }"

definition kc_seq_add :: "nat \<Rightarrow> llama_seq_id \<Rightarrow> kv_cells \<Rightarrow> kv_cells option" where
  "kc_seq_add i s c = do {
     check (i < kc_size c);
     check (kc_pos c ! i \<noteq> - 1);
     t \<leftarrow> bs_test (kc_seq c ! i) s;
     check (\<not> t);
     let c = c\<lparr>kc_seq := (kc_seq c)[i := insert s (kc_seq c ! i)]\<rparr>;
     Some (kc_seq_pos_inc s (kc_pos c ! i) c) }"

definition kc_pos_set :: "nat \<Rightarrow> llama_pos \<Rightarrow> kv_cells \<Rightarrow> kv_cells option" where
  "kc_pos_set i p c = do {
     check (i < kc_size c);
     check (kc_pos c ! i = - 1);
     check (kc_seq c ! i = {});
     Some (c\<lparr>kc_pos := (kc_pos c)[i := p], kc_used := insert i (kc_used c)\<rparr>) }"

definition kc_ext_set :: "nat \<Rightarrow> kv_cell_ext \<Rightarrow> kv_cells \<Rightarrow> kv_cells option" where
  "kc_ext_set i e c = do {
     check (i < length (kc_ext c));
     Some (c\<lparr>kc_ext := (kc_ext c)[i := e]\<rparr>) }"

definition kc_pos_add :: "nat \<Rightarrow> llama_pos \<Rightarrow> kv_cells \<Rightarrow> (bool \<times> kv_cells) option" where
  "kc_pos_add i d c = do {
     check (i < kc_size c);
     check (kc_pos c ! i \<noteq> - 1);
     c \<leftarrow> kc_seq_pos_rm i c;
     check (i32_ok (kc_pos c ! i + d)); check (i32_ok (kc_shift c ! i + d));
     let c = c\<lparr>kc_pos := (kc_pos c)[i := kc_pos c ! i + d],
               kc_shift := (kc_shift c)[i := kc_shift c ! i + d], kc_has_shift := True\<rparr>;
     if kc_pos c ! i < 0
     then Some (True, c\<lparr>kc_seq := (kc_seq c)[i := {}], kc_pos := (kc_pos c)[i := - 1],
                        kc_shift := (kc_shift c)[i := 0], kc_used := kc_used c - {i}\<rparr>)
     else do {
       c \<leftarrow> kc_seq_pos_add i c;
       Some (False, c) } }"

definition kc_pos_div :: "nat \<Rightarrow> int \<Rightarrow> kv_cells \<Rightarrow> kv_cells option" where
  "kc_pos_div i d c = do {
     check (i < kc_size c);
     check (kc_pos c ! i \<noteq> - 1);
     let p_old = kc_pos c ! i;
     c \<leftarrow> kc_seq_pos_rm i c;
     check (d \<noteq> 0);
     let c = c\<lparr>kc_pos := (kc_pos c)[i := cdiv (kc_pos c ! i) d]\<rparr>;
     check (i32_ok (kc_shift c ! i + (p_old - kc_pos c ! i)));
     let c = c\<lparr>kc_shift := (kc_shift c)[i := kc_shift c ! i + (p_old - kc_pos c ! i)]\<rparr>;
     c \<leftarrow> kc_seq_pos_add i c;
     Some (c\<lparr>kc_has_shift := True\<rparr>) }"

section \<open>Saving and restoring cells\<close>

text \<open>
  Both overloads of \<^verbatim>\<open>cp\<close> and \<^verbatim>\<open>set\<close> run the same body over an index list: \<open>[i ..< i + n]\<close> for
  the contiguous one. The copy fills only the per-cell vectors of the result.
\<close>

definition kc_cp_cell :: "kv_cells \<Rightarrow> nat \<times> nat \<Rightarrow> kv_cells \<Rightarrow> kv_cells option" where
  "kc_cp_cell c ji res = (case ji of (j, idx) \<Rightarrow> do {
     check (idx < kc_size c);
     let res = res\<lparr>kc_pos := (kc_pos res)[j := kc_pos c ! idx],
                   kc_ext := (kc_ext res)[j := kc_ext c ! idx],
                   kc_seq := (kc_seq res)[j := kc_seq c ! idx]\<rparr>;
     check (kc_shift c ! idx = 0);
     Some res })"

definition kc_cp :: "nat list \<Rightarrow> kv_cells \<Rightarrow> kv_cells option" where
  "kc_cp idxs c =
     foldM (kc_cp_cell c) (zip [0..<length idxs] idxs) (kc_resize (length idxs) kc_new)"

definition kc_cp_range :: "nat \<Rightarrow> nat \<Rightarrow> kv_cells \<Rightarrow> kv_cells option" where
  "kc_cp_range i n c = do { check (i + n \<le> kc_size c); kc_cp [i..<i + n] c }"

definition kc_set_cell :: "kv_cells \<Rightarrow> nat \<times> nat \<Rightarrow> kv_cells \<Rightarrow> kv_cells option" where
  "kc_set_cell oth ji c = (case ji of (j, idx) \<Rightarrow> do {
     check (idx < kc_size c);
     let c = (if kc_pos c ! idx = - 1 \<and> kc_pos oth ! j \<noteq> - 1
              then c\<lparr>kc_used := insert idx (kc_used c)\<rparr> else c);
     let c = (if kc_pos c ! idx \<noteq> - 1 \<and> kc_pos oth ! j = - 1
              then c\<lparr>kc_used := kc_used c - {idx}\<rparr> else c);
     c \<leftarrow> (if kc_pos c ! idx \<noteq> - 1 then kc_seq_pos_rm idx c else Some c);
     let c = c\<lparr>kc_pos := (kc_pos c)[idx := kc_pos oth ! j],
               kc_ext := (kc_ext c)[idx := kc_ext oth ! j],
               kc_seq := (kc_seq c)[idx := kc_seq oth ! j]\<rparr>;
     c \<leftarrow> (if kc_pos c ! idx \<noteq> - 1 then kc_seq_pos_add idx c else Some c);
     check (kc_shift c ! idx = 0);
     Some c })"

definition kc_set :: "nat list \<Rightarrow> kv_cells \<Rightarrow> kv_cells \<Rightarrow> kv_cells option" where
  "kc_set idxs oth c = do {
     check (length idxs = kc_size oth);
     foldM (kc_set_cell oth) (zip [0..<kc_size oth] idxs) c }"

definition kc_set_range :: "nat \<Rightarrow> kv_cells \<Rightarrow> kv_cells \<Rightarrow> kv_cells option" where
  "kc_set_range i oth c = do {
     check (i + kc_size oth \<le> kc_size c);
     kc_set [i..<i + kc_size oth] oth c }"

end
