(* ===== verification/Kv_Cells_Inv.thy ===== *)
theory Kv_Cells_Inv
  imports Kv_Cells
begin

text \<open>
  The invariant of \<open>kv_cells\<close> and the effect of every operation on the abstract view of the
  cells. The view is a list of independent cells; the invariant says that the two indices are
  determined by it. Each operation, called within its contract, succeeds, keeps the invariant and
  changes the view at one cell only.
\<close>

section \<open>View and invariant\<close>

datatype kv_cell = Cell (c_pos: llama_pos) (c_ext: kv_cell_ext) (c_shift: llama_pos) (c_seq: seq_set_t)

definition cell_at :: "kv_cells \<Rightarrow> nat \<Rightarrow> kv_cell" where
  "cell_at c i = Cell (kc_pos c ! i) (kc_ext c ! i) (kc_shift c ! i) (kc_seq c ! i)"

definition kc_view :: "kv_cells \<Rightarrow> kv_cell list" where
  "kc_view c = map (cell_at c) [0..<kc_size c]"

definition empty_cell :: kv_cell where
  "empty_cell = Cell (- 1) ext_reset 0 {}"

definition lens_ok :: "kv_cells \<Rightarrow> bool" where
  "lens_ok c \<longleftrightarrow> length (kc_ext c) = kc_size c \<and> length (kc_shift c) = kc_size c
     \<and> length (kc_seq c) = kc_size c"

definition cell_ok :: "kv_cell \<Rightarrow> bool" where
  "cell_ok x \<longleftrightarrow> - 1 \<le> c_pos x \<and> c_seq x \<subseteq> Collect seq_id_ok
     \<and> (c_pos x = - 1 \<longrightarrow> c_seq x = {} \<and> c_shift x = 0)"

text \<open>The cells that hold position \<open>p\<close> for sequence \<open>s\<close>.\<close>

definition occ :: "kv_cell list \<Rightarrow> llama_seq_id \<Rightarrow> llama_pos \<Rightarrow> nat set" where
  "occ v s p = {i. i < length v \<and> s \<in> c_seq (v ! i) \<and> c_pos (v ! i) = p}"

definition sp_ok :: "kv_cell list \<Rightarrow> (llama_seq_id \<Rightarrow> counter) \<Rightarrow> bool" where
  "sp_ok v f \<longleftrightarrow> (\<forall>s. if seq_id_ok s then ctr_wf (f s) \<and> (\<forall>p. ctr_count (f s) p = card (occ v s p))
                        else f s = [])"

definition used_of :: "kv_cell list \<Rightarrow> nat set" where
  "used_of v = {i. i < length v \<and> c_pos (v ! i) \<noteq> - 1}"

definition cells_inv :: "kv_cells \<Rightarrow> bool" where
  "cells_inv c \<longleftrightarrow> lens_ok c \<and> (\<forall>x \<in> set (kc_view c). cell_ok x)
     \<and> kc_used c = used_of (kc_view c) \<and> sp_ok (kc_view c) (kc_seq_pos c)"

lemma length_view [simp]: "length (kc_view c) = kc_size c"
  by (simp add: kc_view_def)

lemma nth_view [simp]: "i < kc_size c \<Longrightarrow> kc_view c ! i = cell_at c i"
  by (simp add: kc_view_def)

lemma cell_at_sel [simp]:
  "c_pos (cell_at c i) = kc_pos c ! i" "c_ext (cell_at c i) = kc_ext c ! i"
  "c_shift (cell_at c i) = kc_shift c ! i" "c_seq (cell_at c i) = kc_seq c ! i"
  by (simp_all add: cell_at_def)

lemma empty_cell_sel [simp]:
  "c_pos empty_cell = - 1" "c_ext empty_cell = ext_reset" "c_shift empty_cell = 0"
  "c_seq empty_cell = {}" "cell_ok empty_cell"
  by (simp_all add: empty_cell_def cell_ok_def)

lemma view_eqI:
  assumes "length v = kc_size c" "\<And>i. i < kc_size c \<Longrightarrow> cell_at c i = v ! i"
  shows "kc_view c = v"
  using assms by (intro nth_equalityI) auto

lemma view_update:
  assumes "lens_ok c" "i < kc_size c" "kc_pos d = (kc_pos c)[i := p]" "kc_ext d = (kc_ext c)[i := e]"
    "kc_shift d = (kc_shift c)[i := h]" "kc_seq d = (kc_seq c)[i := S]"
  shows "kc_view d = (kc_view c)[i := Cell p e h S]"
proof (rule view_eqI)
  have size: "kc_size d = kc_size c" using assms by (simp add: kc_size_def)
  then show "length ((kc_view c)[i := Cell p e h S]) = kc_size d" by simp
  fix j
  assume "j < kc_size d"
  then show "cell_at d j = (kc_view c)[i := Cell p e h S] ! j"
    using assms size by (cases "j = i") (auto simp: cell_at_def lens_ok_def kc_size_def)
qed

lemma cells_invD:
  assumes "cells_inv c" "i < kc_size c"
  shows "- 1 \<le> kc_pos c ! i" "kc_seq c ! i \<subseteq> Collect seq_id_ok"
    "kc_pos c ! i = - 1 \<Longrightarrow> kc_seq c ! i = {}" "kc_pos c ! i = - 1 \<Longrightarrow> kc_shift c ! i = 0"
  using assms by (auto simp: cells_inv_def cell_ok_def kc_view_def)

lemma cells_inv_lens: "cells_inv c \<Longrightarrow> lens_ok c"
  by (simp add: cells_inv_def)

text \<open>The view and the shift flag determine the whole state.\<close>

lemma sp_ok_unique: "sp_ok v f \<Longrightarrow> sp_ok v g \<Longrightarrow> f = g"
proof
  fix s
  assume "sp_ok v f" "sp_ok v g"
  then show "f s = g s"
    by (cases "seq_id_ok s") (auto simp: sp_ok_def intro!: ctr_ext)
qed

lemma cells_eqI:
  assumes "cells_inv c" "cells_inv d" "kc_view c = kc_view d" "kc_has_shift c = kc_has_shift d"
  shows "c = d"
proof (rule kv_cells.equality)
  have size: "kc_size c = kc_size d" using assms(3) length_view by metis
  have at: "cell_at c i = cell_at d i" if "i < kc_size c" for i
    using that assms(3) size nth_view by metis
  show "kc_pos c = kc_pos d" "kc_ext c = kc_ext d" "kc_shift c = kc_shift d" "kc_seq c = kc_seq d"
    using assms(1,2) size at
    by (auto simp: cells_inv_def lens_ok_def cell_at_def kc_size_def intro!: nth_equalityI)
  show "kc_seq_pos c = kc_seq_pos d" "kc_used c = kc_used d"
    using assms by (auto simp: cells_inv_def intro: sp_ok_unique)
qed (use assms in simp_all)

section \<open>The occurrence index\<close>

lemma finite_occ [simp]: "finite (occ v s p)"
  by (simp add: occ_def)

lemma occ_update:
  "i < length v \<Longrightarrow> occ (v[i := x]) s p =
     (if s \<in> c_seq x \<and> c_pos x = p then insert i (occ v s p - {i}) else occ v s p - {i})"
  by (auto simp: occ_def nth_list_update split: if_splits)

lemma occ_mem: "i \<in> occ v s p \<longleftrightarrow> i < length v \<and> s \<in> c_seq (v ! i) \<and> c_pos (v ! i) = p"
  by (simp add: occ_def)

lemma sp_okD:
  assumes "sp_ok v f" "seq_id_ok s"
  shows "ctr_wf (f s)" "ctr_count (f s) p = card (occ v s p)"
  using assms by (auto simp: sp_ok_def)

text \<open>A counter changed for one sequence: the cell loses or gains that sequence.\<close>

lemma sp_ok_dec:
  assumes "sp_ok v f" "i < length v" "seq_id_ok s" "s \<in> c_seq (v ! i)"
    and x: "c_pos x = c_pos (v ! i)" "c_seq x = c_seq (v ! i) - {s}"
  shows "\<exists>m. ctr_dec (c_pos (v ! i)) (f s) = Some m \<and> sp_ok (v[i := x]) (f(s := m))"
proof -
  let ?p = "c_pos (v ! i)"
  have i: "i \<in> occ v s ?p" using assms by (simp add: occ_mem)
  then have "0 < ctr_count (f s) ?p" using sp_okD [OF assms(1,3)] card_gt_0_iff by force
  then obtain m where m: "ctr_dec ?p (f s) = Some m"
    using ctr.dec_defined sp_okD(1) [OF assms(1,3)] by blast
  have "ctr_wf m" "ctr_count m = (ctr_count (f s))(?p := ctr_count (f s) ?p - 1)"
    using m ctr.wf_dec ctr.count_dec sp_okD(1) [OF assms(1,3)] by blast+
  moreover have "card (occ (v[i := x]) s q) = (if q = ?p then card (occ v s q) - 1 else card (occ v s q))" for q
    using i assms(2) by (auto simp: occ_update x occ_mem)
  moreover have "card (occ (v[i := x]) t q) = card (occ v t q)" if "t \<noteq> s" for t q
    using that assms(2) by (auto simp: occ_update x occ_mem insert_absorb)
  ultimately have "sp_ok (v[i := x]) (f(s := m))"
    using assms(1,3) sp_okD(2) [OF assms(1,3)] by (auto simp: sp_ok_def)
  with m show ?thesis by blast
qed

lemma sp_ok_inc:
  assumes "sp_ok v f" "i < length v" "seq_id_ok s" "s \<notin> c_seq (v ! i)"
    and x: "c_pos x = c_pos (v ! i)" "c_seq x = insert s (c_seq (v ! i))"
  shows "sp_ok (v[i := x]) (f(s := ctr_inc (c_pos x) (f s)))"
proof -
  let ?p = "c_pos (v ! i)"
  have wf: "ctr_wf (f s)" using sp_okD(1) [OF assms(1,3)] .
  have "card (occ (v[i := x]) s q) = (if q = ?p then card (occ v s q) + 1 else card (occ v s q))" for q
    using assms(2,4) by (auto simp: occ_update x occ_mem)
  moreover have "card (occ (v[i := x]) t q) = card (occ v t q)" if "t \<noteq> s" for t q
    using that assms(2) by (auto simp: occ_update x occ_mem insert_absorb)
  ultimately show ?thesis
    using assms(1,3) sp_okD(2) [OF assms(1,3)] ctr.wf_inc [OF wf] ctr.count_inc [OF wf]
    by (auto simp: sp_ok_def x)
qed

lemma sp_ok_cong:
  assumes "sp_ok v f" "i < length v" "c_seq x = c_seq (v ! i)"
    "c_pos x = c_pos (v ! i) \<or> c_seq x = {}"
  shows "sp_ok (v[i := x]) f"
proof -
  have "occ (v[i := x]) s p = occ v s p" for s p
    using assms(2-4) by (auto simp: occ_update occ_mem)
  then show ?thesis using assms(1) by (simp add: sp_ok_def)
qed

subsection \<open>The two loops over the sequence ids\<close>

lemma set_all_seqs [simp]: "set all_seqs = Collect seq_id_ok"
proof -
  have "x \<in> int ` {0..<LLAMA_MAX_SEQ}" if "0 \<le> x" "x < int LLAMA_MAX_SEQ" for x
    using that by (intro image_eqI [of _ _ "nat x"]) auto
  then show ?thesis by (auto simp: all_seqs_def seq_id_ok_def)
qed

lemma distinct_all_seqs [simp]: "distinct all_seqs"
  by (simp add: all_seqs_def distinct_map)

lemma all_seqs_ok: "s \<in> set ss \<Longrightarrow> set ss \<subseteq> Collect seq_id_ok \<Longrightarrow> bs_test b s = Some (s \<in> b)"
  by (auto simp: bs_test_def)

definition set_seq :: "kv_cell \<Rightarrow> seq_set_t \<Rightarrow> kv_cell" where
  "set_seq x S = Cell (c_pos x) (c_ext x) (c_shift x) S"

lemma set_seq_sel [simp]:
  "c_pos (set_seq x S) = c_pos x" "c_ext (set_seq x S) = c_ext x"
  "c_shift (set_seq x S) = c_shift x" "c_seq (set_seq x S) = S" "set_seq (set_seq x S) T = set_seq x T"
  "set_seq x (c_seq x) = x"
  by (simp_all add: set_seq_def)

lemma seq_pos_rm_loop:
  fixes c i
  defines "body \<equiv> \<lambda>s d. do {
     t \<leftarrow> bs_test (kc_seq d ! i) s;
     if t then kc_seq_pos_dec s (kc_pos d ! i) d else Some d }"
  assumes "sp_ok (v[i := set_seq x S]) f" "i < length v" "distinct ss" "set ss \<subseteq> Collect seq_id_ok"
    and "S \<inter> set ss = kc_seq c ! i \<inter> set ss" "kc_pos c ! i = c_pos x"
  shows "\<exists>g. foldM body ss (c\<lparr>kc_seq_pos := f\<rparr>) = Some (c\<lparr>kc_seq_pos := g\<rparr>)
     \<and> sp_ok (v[i := set_seq x (S - set ss)]) g"
  using assms(2,4-6)
proof (induction ss arbitrary: f S)
  case (Cons s ss)
  have ok: "seq_id_ok s" using Cons.prems(3) by simp
  show ?case
  proof (cases "s \<in> kc_seq c ! i")
    case True
    with Cons.prems(4) have "s \<in> S" by auto
    then obtain m where m: "ctr_dec (c_pos x) (f s) = Some m"
      "sp_ok (v[i := set_seq x (S - {s})]) (f(s := m))"
      using sp_ok_dec [OF Cons.prems(1) _ ok, of i "set_seq x (S - {s})"] assms(3) by auto
    have step: "body s (c\<lparr>kc_seq_pos := f\<rparr>) = Some (c\<lparr>kc_seq_pos := f(s := m)\<rparr>)"
      using m(1) True ok assms(7) by (simp add: body_def bs_test_def kc_seq_pos_dec_def)
    have "(S - {s}) \<inter> set ss = kc_seq c ! i \<inter> set ss" using Cons.prems(2,4) by auto
    from Cons.IH [OF m(2) _ _ this] Cons.prems(2,3) step
    obtain g where "foldM body ss (c\<lparr>kc_seq_pos := f(s := m)\<rparr>) = Some (c\<lparr>kc_seq_pos := g\<rparr>)"
      "sp_ok (v[i := set_seq x (S - {s} - set ss)]) g" by (auto simp: fun_upd_def)
    with step show ?thesis by (auto simp: Diff_insert2 [of S s "set ss"] simp del: fun_upd_apply)
  next
    case False
    have step: "body s (c\<lparr>kc_seq_pos := f\<rparr>) = Some (c\<lparr>kc_seq_pos := f\<rparr>)"
      using False ok by (simp add: body_def bs_test_def)
    from False Cons.prems(4) have "s \<notin> S" "S \<inter> set ss = kc_seq c ! i \<inter> set ss" by auto
    with Cons.IH [OF Cons.prems(1)] Cons.prems(2,3) step show ?thesis by simp
  qed
qed auto

lemma seq_pos_add_loop:
  fixes c i
  defines "body \<equiv> \<lambda>s d. do {
     t \<leftarrow> bs_test (kc_seq d ! i) s;
     Some (if t then kc_seq_pos_inc s (kc_pos d ! i) d else d) }"
  assumes "sp_ok (v[i := set_seq x S]) f" "i < length v" "distinct ss" "set ss \<subseteq> Collect seq_id_ok"
    and "S \<inter> set ss = {}" "kc_pos c ! i = c_pos x"
  shows "\<exists>g. foldM body ss (c\<lparr>kc_seq_pos := f\<rparr>) = Some (c\<lparr>kc_seq_pos := g\<rparr>)
     \<and> sp_ok (v[i := set_seq x (S \<union> kc_seq c ! i \<inter> set ss)]) g"
  using assms(2,4-6)
proof (induction ss arbitrary: f S)
  case (Cons s ss)
  have ok: "seq_id_ok s" using Cons.prems(3) by simp
  show ?case
  proof (cases "s \<in> kc_seq c ! i")
    case True
    have m: "sp_ok (v[i := set_seq x (insert s S)]) (f(s := ctr_inc (c_pos x) (f s)))"
      using sp_ok_inc [OF Cons.prems(1) _ ok, of i "set_seq x (insert s S)"] assms(3) Cons.prems(4)
      by auto
    have step: "body s (c\<lparr>kc_seq_pos := f\<rparr>) = Some (c\<lparr>kc_seq_pos := f(s := ctr_inc (c_pos x) (f s))\<rparr>)"
      using True ok assms(7) by (simp add: body_def bs_test_def kc_seq_pos_inc_def)
    have "insert s S \<inter> set ss = {}" using Cons.prems(2,4) by auto
    from Cons.IH [OF m _ _ this] Cons.prems(2,3)
    obtain g where "foldM body ss (c\<lparr>kc_seq_pos := f(s := ctr_inc (c_pos x) (f s))\<rparr>) = Some (c\<lparr>kc_seq_pos := g\<rparr>)"
      "sp_ok (v[i := set_seq x (insert s S \<union> kc_seq c ! i \<inter> set ss)]) g" by (auto simp: fun_upd_def)
    with step True show ?thesis by (auto simp del: fun_upd_apply)
  next
    case False
    have step: "body s (c\<lparr>kc_seq_pos := f\<rparr>) = Some (c\<lparr>kc_seq_pos := f\<rparr>)"
      using False ok by (simp add: body_def bs_test_def)
    with Cons.IH [OF Cons.prems(1)] Cons.prems(2-4) False show ?thesis by simp
  qed
qed auto

lemma seq_pos_rm_spec:
  assumes "sp_ok v (kc_seq_pos c)" "i < length v" "kc_pos c ! i = c_pos (v ! i)" "kc_seq c ! i = c_seq (v ! i)"
    "kc_seq c ! i \<subseteq> Collect seq_id_ok"
  shows "\<exists>g. kc_seq_pos_rm i c = Some (c\<lparr>kc_seq_pos := g\<rparr>) \<and> sp_ok (v[i := set_seq (v ! i) {}]) g"
proof -
  have "c_seq (v ! i) - Collect seq_id_ok = {}" using assms(4,5) by auto
  with seq_pos_rm_loop [of v i "v ! i" "c_seq (v ! i)" "kc_seq_pos c" all_seqs c] assms
  show ?thesis unfolding kc_seq_pos_rm_def by simp
qed

lemma seq_pos_add_spec:
  assumes "sp_ok v (kc_seq_pos c)" "i < length v" "kc_pos c ! i = c_pos x" "c_seq (v ! i) = {}"
    "c_seq x = kc_seq c ! i" "kc_seq c ! i \<subseteq> Collect seq_id_ok"
  shows "\<exists>g. kc_seq_pos_add i c = Some (c\<lparr>kc_seq_pos := g\<rparr>) \<and> sp_ok (v[i := x]) g"
proof -
  have "sp_ok (v[i := set_seq x {}]) (kc_seq_pos c)"
    by (rule sp_ok_cong) (use assms in auto)
  from seq_pos_add_loop [OF this assms(2), of all_seqs c] assms(3)
  obtain g where "kc_seq_pos_add i c = Some (c\<lparr>kc_seq_pos := g\<rparr>)"
    "sp_ok (v[i := set_seq x (kc_seq c ! i \<inter> Collect seq_id_ok)]) g"
    unfolding kc_seq_pos_add_def by auto
  moreover have "set_seq x (kc_seq c ! i \<inter> Collect seq_id_ok) = x"
    using assms(5,6) by (metis inf.absorb1 set_seq_sel(6))
  ultimately show ?thesis by auto
qed

end
