(* ===== verification/Kv_Cells_Ops.thy ===== *)
theory Kv_Cells_Ops
  imports Kv_Cells_Inv
begin

text \<open>
  The operations of \<open>kv_cells\<close> against the view. \<open>effect\<close> is the common shape of the results: the
  invariant holds after the operation and the view differs at one cell. The \<open>x_\<dots>\<close> functions are
  the abstract operations on one cell that the code's operations implement.
\<close>

section \<open>Operations on one cell\<close>

definition x_seq_rm :: "llama_seq_id \<Rightarrow> kv_cell \<Rightarrow> kv_cell" where
  "x_seq_rm s x = (if c_seq x - {s} = {} then empty_cell else set_seq x (c_seq x - {s}))"

definition x_seq_keep :: "llama_seq_id \<Rightarrow> kv_cell \<Rightarrow> kv_cell" where
  "x_seq_keep s x = (if s \<in> c_seq x then set_seq x {s} else if c_seq x = {} then x else empty_cell)"

definition x_pos_add :: "llama_pos \<Rightarrow> kv_cell \<Rightarrow> kv_cell" where
  "x_pos_add d x =
     (if c_pos x + d < 0 then Cell (- 1) (c_ext x) 0 {}
      else Cell (c_pos x + d) (c_ext x) (c_shift x + d) (c_seq x))"

definition x_pos_div :: "int \<Rightarrow> kv_cell \<Rightarrow> kv_cell" where
  "x_pos_div d x =
     Cell (c_pos x div d) (c_ext x) (c_shift x + (c_pos x - c_pos x div d)) (c_seq x)"

definition x_pos_set :: "llama_pos \<Rightarrow> kv_cell \<Rightarrow> kv_cell" where
  "x_pos_set p x = Cell p (c_ext x) (c_shift x) (c_seq x)"

definition x_ext_set :: "kv_cell_ext \<Rightarrow> kv_cell \<Rightarrow> kv_cell" where
  "x_ext_set e x = Cell (c_pos x) e (c_shift x) (c_seq x)"

definition effect :: "kv_cells \<Rightarrow> nat \<Rightarrow> kv_cell \<Rightarrow> bool \<Rightarrow> kv_cells \<Rightarrow> bool" where
  "effect c i x hs d \<longleftrightarrow>
     cells_inv d \<and> kc_view d = (kc_view c)[i := x] \<and> kc_has_shift d = hs"

lemma effectD:
  assumes "effect c i x hs d"
  shows "cells_inv d" "kc_view d = (kc_view c)[i := x]" "kc_has_shift d = hs" "kc_size d = kc_size c"
proof -
  show "cells_inv d" "kc_view d = (kc_view c)[i := x]" "kc_has_shift d = hs"
    using assms by (auto simp: effect_def)
  then show "kc_size d = kc_size c" by (metis length_list_update length_view)
qed

lemma effect_nth: "effect c i x hs d \<Longrightarrow> j < kc_size c \<Longrightarrow>
    cell_at d j = (if j = i then x else cell_at c j)"
  using effectD [of c i x hs d] by (metis length_view nth_list_update_if nth_view)

lemma used_of_update:
  "i < length v \<Longrightarrow> used_of (v[i := x]) =
     (if c_pos x = - 1 then used_of v - {i} else insert i (used_of v))"
  by (auto simp: used_of_def nth_list_update split: if_splits)

lemma effectI:
  assumes "cells_inv c" "i < kc_size c"
    and "kc_pos d = (kc_pos c)[i := p]" "kc_ext d = (kc_ext c)[i := e]"
    "kc_shift d = (kc_shift c)[i := h]" "kc_seq d = (kc_seq c)[i := S]"
    and "kc_used d = (if p = - 1 then kc_used c - {i} else insert i (kc_used c))"
    and "sp_ok ((kc_view c)[i := Cell p e h S]) (kc_seq_pos d)" "cell_ok (Cell p e h S)"
  shows "effect c i (Cell p e h S) (kc_has_shift d) d"
proof -
  have view: "kc_view d = (kc_view c)[i := Cell p e h S]"
    by (rule view_update) (use assms in \<open>simp_all add: cells_inv_lens\<close>)
  have "set (kc_view d) \<subseteq> insert (Cell p e h S) (set (kc_view c))"
    unfolding view by (rule set_update_subset_insert)
  then have "\<forall>x \<in> set (kc_view d). cell_ok x"
    using assms(1,9) by (auto simp: cells_inv_def)
  moreover have "lens_ok d"
    using cells_inv_lens [OF assms(1)] assms(3-6) by (simp add: lens_ok_def kc_size_def)
  ultimately show ?thesis
    using assms(1,2,7,8) view
    by (simp add: effect_def cells_inv_def used_of_update)
qed

lemma list_update_nth: "xs[i := xs ! i] = xs"
  by simp

section \<open>The operations\<close>

lemma cells_inv_sp: "cells_inv c \<Longrightarrow> sp_ok (kc_view c) (kc_seq_pos c)"
  by (simp add: cells_inv_def)

lemma cells_inv_used: "cells_inv c \<Longrightarrow> i < kc_size c \<Longrightarrow> i \<in> kc_used c \<longleftrightarrow> kc_pos c ! i \<noteq> - 1"
  by (simp add: cells_inv_def used_of_def)

lemma cell_rm_index:
  assumes "cells_inv c" "i < kc_size c"
  shows "\<exists>g. kc_seq_pos_rm i c = Some (c\<lparr>kc_seq_pos := g\<rparr>)
    \<and> (\<forall>x. c_seq x = {} \<longrightarrow> sp_ok ((kc_view c)[i := x]) g)"
proof -
  obtain g where g: "kc_seq_pos_rm i c = Some (c\<lparr>kc_seq_pos := g\<rparr>)"
    "sp_ok ((kc_view c)[i := set_seq (cell_at c i) {}]) g"
    using seq_pos_rm_spec [OF cells_inv_sp [OF assms(1)], of i] assms cells_invD(2) [OF assms]
    by auto
  have "sp_ok ((kc_view c)[i := x]) g" if "c_seq x = {}" for x
    using sp_ok_cong [OF g(2), of i x] assms(2) that by auto
  with g(1) show ?thesis by blast
qed

lemma kc_rm_spec:
  assumes "cells_inv c" "i < kc_size c" "kc_pos c ! i \<noteq> - 1"
  shows "\<exists>d. kc_rm i c = Some d \<and> effect c i empty_cell (kc_has_shift c) d"
proof -
  obtain g where g: "kc_seq_pos_rm i c = Some (c\<lparr>kc_seq_pos := g\<rparr>)"
    "sp_ok ((kc_view c)[i := empty_cell]) g"
    using cell_rm_index [OF assms(1,2)] by auto
  let ?d = "c\<lparr>kc_seq_pos := g, kc_seq := (kc_seq c)[i := {}], kc_pos := (kc_pos c)[i := - 1],
    kc_ext := (kc_ext c)[i := ext_reset], kc_shift := (kc_shift c)[i := 0], kc_used := kc_used c - {i}\<rparr>"
  have "effect c i empty_cell (kc_has_shift ?d) ?d"
    unfolding empty_cell_def by (rule effectI) (use assms g in \<open>simp_all add: empty_cell_def cell_ok_def\<close>)
  then show ?thesis using assms g(1) by (simp add: kc_rm_def)
qed

lemma kc_seq_rm_spec:
  assumes "cells_inv c" "i < kc_size c" "s \<in> kc_seq c ! i"
  shows "\<exists>d. kc_seq_rm i s c = Some (kc_seq c ! i - {s} = {}, d)
    \<and> effect c i (x_seq_rm s (cell_at c i)) (kc_has_shift c) d"
proof -
  let ?S = "kc_seq c ! i - {s}" and ?x = "cell_at c i"
  have s: "seq_id_ok s" "kc_pos c ! i \<noteq> - 1" using cells_invD [OF assms(1,2)] assms(3) by auto
  obtain m where m: "ctr_dec (kc_pos c ! i) (kc_seq_pos c s) = Some m"
    "sp_ok ((kc_view c)[i := set_seq ?x ?S]) ((kc_seq_pos c)(s := m))"
    using sp_ok_dec [OF cells_inv_sp [OF assms(1)] _ s(1), of i "set_seq ?x ?S"] assms by auto
  let ?c1 = "c\<lparr>kc_seq := (kc_seq c)[i := ?S], kc_seq_pos := (kc_seq_pos c)(s := m)\<rparr>"
  have dec: "kc_seq_pos_dec s (kc_pos c ! i) (c\<lparr>kc_seq := (kc_seq c)[i := ?S]\<rparr>) = Some ?c1"
    using m(1) by (simp add: kc_seq_pos_dec_def)
  have len: "i < length (kc_seq c)"
    using cells_inv_lens [OF assms(1)] assms(2) by (simp add: lens_ok_def)
  have run: "kc_seq_rm i s c = Some (if ?S = {}
     then (True, ?c1\<lparr>kc_pos := (kc_pos c)[i := - 1], kc_ext := (kc_ext c)[i := ext_reset],
                     kc_shift := (kc_shift c)[i := 0], kc_used := kc_used c - {i}\<rparr>)
     else (False, ?c1))"
    using assms s dec len by (simp add: kc_seq_rm_def bs_test_def seq_id_ok_def Let_def)
  show ?thesis
  proof (cases "?S = {}")
    case True
    let ?d = "?c1\<lparr>kc_pos := (kc_pos c)[i := - 1], kc_ext := (kc_ext c)[i := ext_reset],
       kc_shift := (kc_shift c)[i := 0], kc_used := kc_used c - {i}\<rparr>"
    have "sp_ok ((kc_view c)[i := set_seq ?x ?S, i := empty_cell]) ((kc_seq_pos c)(s := m))"
      by (rule sp_ok_cong [OF m(2)]) (use True assms in auto)
    then have "effect c i empty_cell (kc_has_shift ?d) ?d"
      unfolding empty_cell_def
      by (intro effectI) (use assms in \<open>simp_all only: True, simp_all add: empty_cell_def cell_ok_def del: fun_upd_apply\<close>)
    then show ?thesis using run True by (simp add: x_seq_rm_def)
  next
    case False
    have "effect c i (Cell (kc_pos c ! i) (kc_ext c ! i) (kc_shift c ! i) ?S) (kc_has_shift ?c1) ?c1"
    proof (rule effectI)
      show "kc_used ?c1 = (if kc_pos c ! i = - 1 then kc_used c - {i} else insert i (kc_used c))"
        using cells_inv_used [OF assms(1,2)] s(2) by auto
      show "cell_ok (Cell (kc_pos c ! i) (kc_ext c ! i) (kc_shift c ! i) ?S)"
        using cells_invD [OF assms(1,2)] s(2) by (auto simp: cell_ok_def)
    qed (use assms m(2) in \<open>simp_all add: set_seq_def del: fun_upd_apply\<close>)
    then show ?thesis using run False by (simp add: x_seq_rm_def set_seq_def)
  qed
qed

lemma kc_seq_add_spec:
  assumes "cells_inv c" "i < kc_size c" "kc_pos c ! i \<noteq> - 1" "seq_id_ok s" "s \<notin> kc_seq c ! i"
  shows "\<exists>d. kc_seq_add i s c = Some d
    \<and> effect c i (set_seq (cell_at c i) (insert s (kc_seq c ! i))) (kc_has_shift c) d"
proof -
  let ?S = "insert s (kc_seq c ! i)" and ?x = "cell_at c i"
  let ?d = "kc_seq_pos_inc s (kc_pos c ! i) (c\<lparr>kc_seq := (kc_seq c)[i := ?S]\<rparr>)"
  have sp: "sp_ok ((kc_view c)[i := set_seq ?x ?S]) ((kc_seq_pos c)(s := ctr_inc (kc_pos c ! i) (kc_seq_pos c s)))"
    using sp_ok_inc [OF cells_inv_sp [OF assms(1)] _ assms(4), of i "set_seq ?x ?S"] assms by auto
  have "effect c i (Cell (kc_pos c ! i) (kc_ext c ! i) (kc_shift c ! i) ?S) (kc_has_shift ?d) ?d"
  proof (rule effectI)
    show "kc_used ?d = (if kc_pos c ! i = - 1 then kc_used c - {i} else insert i (kc_used c))"
      using cells_inv_used [OF assms(1,2)] assms(3) by (auto simp: kc_seq_pos_inc_def)
    show "cell_ok (Cell (kc_pos c ! i) (kc_ext c ! i) (kc_shift c ! i) ?S)"
      using cells_invD [OF assms(1,2)] assms by (auto simp: cell_ok_def)
  qed (use assms sp in \<open>simp_all add: set_seq_def kc_seq_pos_inc_def del: fun_upd_apply\<close>)
  moreover have "kc_seq_add i s c = Some ?d"
    using assms by (simp add: kc_seq_add_def bs_test_def Let_def)
  ultimately show ?thesis by (simp add: set_seq_def kc_seq_pos_inc_def)
qed

lemma kc_pos_set_spec:
  assumes "cells_inv c" "i < kc_size c" "kc_pos c ! i = - 1" "0 \<le> p"
  shows "\<exists>d. kc_pos_set i p c = Some d \<and> effect c i (x_pos_set p (cell_at c i)) (kc_has_shift c) d"
proof -
  have S: "kc_seq c ! i = {}" using cells_invD(3) [OF assms(1,2,3)] .
  let ?d = "c\<lparr>kc_pos := (kc_pos c)[i := p], kc_used := insert i (kc_used c)\<rparr>"
  have "effect c i (Cell p (kc_ext c ! i) (kc_shift c ! i) (kc_seq c ! i)) (kc_has_shift ?d) ?d"
  proof (rule effectI)
    show "sp_ok ((kc_view c)[i := Cell p (kc_ext c ! i) (kc_shift c ! i) (kc_seq c ! i)]) (kc_seq_pos ?d)"
      using sp_ok_cong [OF cells_inv_sp [OF assms(1)]] assms(2) S by simp
    show "kc_seq ?d = (kc_seq c)[i := kc_seq c ! i]" by simp
  qed (use assms S in \<open>simp_all add: cell_ok_def\<close>)
  then show ?thesis using assms S by (simp add: kc_pos_set_def x_pos_set_def)
qed

lemma kc_ext_set_spec:
  assumes "cells_inv c" "i < kc_size c"
  shows "\<exists>d. kc_ext_set i e c = Some d \<and> effect c i (x_ext_set e (cell_at c i)) (kc_has_shift c) d"
proof -
  let ?d = "c\<lparr>kc_ext := (kc_ext c)[i := e]\<rparr>"
  have "effect c i (Cell (kc_pos c ! i) e (kc_shift c ! i) (kc_seq c ! i)) (kc_has_shift ?d) ?d"
    by (rule effectI) (use assms cells_invD [OF assms] cells_inv_sp [OF assms(1)] cells_inv_used [OF assms] in
      \<open>auto simp: cell_ok_def intro!: sp_ok_cong\<close>)
  then show ?thesis using assms cells_inv_lens [OF assms(1)]
    by (simp add: kc_ext_set_def x_ext_set_def lens_ok_def)
qed

lemma kc_seq_keep_spec:
  assumes "cells_inv c" "i < kc_size c" "seq_id_ok s" "kc_seq c ! i = {} \<Longrightarrow> kc_pos c ! i = - 1"
  shows "\<exists>d. kc_seq_keep i s c = Some (kc_seq c ! i \<noteq> {} \<and> s \<notin> kc_seq c ! i, d)
    \<and> effect c i (x_seq_keep s (cell_at c i)) (kc_has_shift c) d"
proof -
  have len: "i < length (kc_seq c)"
    using cells_inv_lens [OF assms(1)] assms(2) by (simp add: lens_ok_def)
  obtain g where g: "kc_seq_pos_rm i c = Some (c\<lparr>kc_seq_pos := g\<rparr>)"
    "\<And>x. c_seq x = {} \<Longrightarrow> sp_ok ((kc_view c)[i := x]) g"
    using cell_rm_index [OF assms(1,2)] by blast
  consider (has) "s \<in> kc_seq c ! i" | (none) "kc_seq c ! i = {}" | (other) "s \<notin> kc_seq c ! i" "kc_seq c ! i \<noteq> {}"
    by blast
  then show ?thesis
  proof cases
    case has
    have pos: "kc_pos c ! i \<noteq> - 1" using cells_invD(3) [OF assms(1,2)] has by auto
    let ?d = "c\<lparr>kc_seq := (kc_seq c)[i := {s}], kc_seq_pos := g(s := ctr_inc (kc_pos c ! i) (g s))\<rparr>"
    have "sp_ok ((kc_view c)[i := set_seq (cell_at c i) {}, i := set_seq (cell_at c i) {s}])
       (g(s := ctr_inc (kc_pos c ! i) (g s)))"
      using sp_ok_inc [OF g(2) [of "set_seq (cell_at c i) {}"] _ assms(3), of i "set_seq (cell_at c i) {s}"]
        assms(2) by simp
    then have "effect c i (Cell (kc_pos c ! i) (kc_ext c ! i) (kc_shift c ! i) {s}) (kc_has_shift ?d) ?d"
      using assms pos cells_inv_used [OF assms(1,2)] cells_invD [OF assms(1,2)]
      by (intro effectI) (auto simp: set_seq_def cell_ok_def simp del: fun_upd_apply)
    moreover have "kc_seq_keep i s c = Some (False, ?d)"
      using assms has g(1) by (simp add: kc_seq_keep_def bs_test_def kc_seq_pos_inc_def Let_def)
    ultimately show ?thesis using has by (simp add: x_seq_keep_def set_seq_def)
  next
    case none
    then have "effect c i (cell_at c i) (kc_has_shift c) c"
      using assms by (simp add: effect_def flip: nth_view)
    then show ?thesis using none assms
      by (auto simp: kc_seq_keep_def bs_test_def x_seq_keep_def)
  next
    case other
    let ?d = "c\<lparr>kc_seq_pos := g, kc_seq := (kc_seq c)[i := {}], kc_pos := (kc_pos c)[i := - 1],
      kc_ext := (kc_ext c)[i := ext_reset], kc_shift := (kc_shift c)[i := 0], kc_used := kc_used c - {i}\<rparr>"
    have "effect c i empty_cell (kc_has_shift ?d) ?d"
      unfolding empty_cell_def using assms g(2) [of empty_cell]
      by (intro effectI) (simp_all add: empty_cell_def cell_ok_def)
    then show ?thesis using assms other g(1)
      by (simp add: kc_seq_keep_def bs_test_def x_seq_keep_def)
  qed
qed

lemma kc_pos_add_spec:
  assumes "cells_inv c" "i < kc_size c" "kc_pos c ! i \<noteq> - 1"
    "i32_ok (kc_pos c ! i + d)" "i32_ok (kc_shift c ! i + d)"
  shows "\<exists>c'. kc_pos_add i d c = Some (kc_pos c ! i + d < 0, c')
    \<and> effect c i (x_pos_add d (cell_at c i)) True c'"
proof -
  have len: "i < length (kc_shift c)" "i < length (kc_pos c)"
    using cells_inv_lens [OF assms(1)] assms(2) by (simp_all add: lens_ok_def kc_size_def)
  obtain g where g: "kc_seq_pos_rm i c = Some (c\<lparr>kc_seq_pos := g\<rparr>)"
    "\<And>x. c_seq x = {} \<Longrightarrow> sp_ok ((kc_view c)[i := x]) g"
    using cell_rm_index [OF assms(1,2)] by blast
  let ?c1 = "c\<lparr>kc_seq_pos := g, kc_pos := (kc_pos c)[i := kc_pos c ! i + d],
    kc_shift := (kc_shift c)[i := kc_shift c ! i + d], kc_has_shift := True\<rparr>"
  show ?thesis
  proof (cases "kc_pos c ! i + d < 0")
    case True
    let ?d = "?c1\<lparr>kc_seq := (kc_seq c)[i := {}], kc_pos := (kc_pos c)[i := - 1],
      kc_shift := (kc_shift c)[i := 0], kc_used := kc_used c - {i}\<rparr>"
    have "effect c i (Cell (- 1) (kc_ext c ! i) 0 {}) (kc_has_shift ?d) ?d"
      using assms g(2) by (intro effectI) (simp_all add: cell_ok_def)
    then show ?thesis using assms g(1) True len
      by (simp add: kc_pos_add_def x_pos_add_def Let_def)
  next
    case False
    let ?x = "Cell (kc_pos c ! i + d) (kc_ext c ! i) (kc_shift c ! i + d) (kc_seq c ! i)"
    obtain g' where g': "kc_seq_pos_add i ?c1 = Some (?c1\<lparr>kc_seq_pos := g'\<rparr>)"
      "sp_ok ((kc_view c)[i := set_seq ?x {}, i := ?x]) g'"
      using seq_pos_add_spec [of "(kc_view c)[i := set_seq ?x {}]" ?c1 i ?x] g(2)
        assms(2) len cells_invD(2) [OF assms(1,2)] by auto
    have "effect c i ?x (kc_has_shift (?c1\<lparr>kc_seq_pos := g'\<rparr>)) (?c1\<lparr>kc_seq_pos := g'\<rparr>)"
      using assms g'(2) False cells_inv_used [OF assms(1,2)] cells_invD [OF assms(1,2)]
      by (intro effectI) (auto simp: cell_ok_def)
    then show ?thesis using assms g(1) g'(1) False len
      by (simp add: kc_pos_add_def x_pos_add_def Let_def)
  qed
qed

lemma kc_pos_div_spec:
  assumes "cells_inv c" "i < kc_size c" "kc_pos c ! i \<noteq> - 1" "0 < d"
    "i32_ok (kc_shift c ! i + (kc_pos c ! i - kc_pos c ! i div d))"
  shows "\<exists>c'. kc_pos_div i d c = Some c' \<and> effect c i (x_pos_div d (cell_at c i)) True c'"
proof -
  have len: "i < length (kc_shift c)" "i < length (kc_pos c)"
    using cells_inv_lens [OF assms(1)] assms(2) by (simp_all add: lens_ok_def kc_size_def)
  have p: "0 \<le> kc_pos c ! i" using cells_invD(1) [OF assms(1,2)] assms(3) by simp
  obtain g where g: "kc_seq_pos_rm i c = Some (c\<lparr>kc_seq_pos := g\<rparr>)"
    "\<And>x. c_seq x = {} \<Longrightarrow> sp_ok ((kc_view c)[i := x]) g"
    using cell_rm_index [OF assms(1,2)] by blast
  let ?q = "kc_pos c ! i div d"
  let ?h = "kc_shift c ! i + (kc_pos c ! i - ?q)"
  let ?x = "Cell ?q (kc_ext c ! i) ?h (kc_seq c ! i)"
  let ?c1 = "c\<lparr>kc_seq_pos := g, kc_pos := (kc_pos c)[i := ?q], kc_shift := (kc_shift c)[i := ?h]\<rparr>"
  obtain g' where g': "kc_seq_pos_add i ?c1 = Some (?c1\<lparr>kc_seq_pos := g'\<rparr>)"
    "sp_ok ((kc_view c)[i := set_seq ?x {}, i := ?x]) g'"
    using seq_pos_add_spec [of "(kc_view c)[i := set_seq ?x {}]" ?c1 i ?x] g(2)
      assms(2) len cells_invD(2) [OF assms(1,2)] by auto
  let ?d = "?c1\<lparr>kc_seq_pos := g', kc_has_shift := True\<rparr>"
  have "0 \<le> ?q" using p assms(4) by (simp add: pos_imp_zdiv_nonneg_iff)
  then have "effect c i ?x (kc_has_shift ?d) ?d"
    using assms g'(2) cells_inv_used [OF assms(1,2)] cells_invD [OF assms(1,2)]
    by (intro effectI) (auto simp: cell_ok_def)
  then show ?thesis using assms g(1) g'(1) len p
    by (simp add: kc_pos_div_def x_pos_div_def Let_def)
qed

section \<open>Fresh cells, saving and restoring\<close>

lemma kc_reset_inv: "cells_inv (kc_reset c)" "kc_view (kc_reset c) = replicate (kc_size c) empty_cell"
  "\<not> kc_has_shift (kc_reset c)" "kc_size (kc_reset c) = kc_size c"
proof -
  show size: "kc_size (kc_reset c) = kc_size c"
    by (simp add: kc_reset_def kc_size_def Let_def)
  show view: "kc_view (kc_reset c) = replicate (kc_size c) empty_cell"
    by (rule view_eqI) (auto simp: size, simp add: kc_reset_def kc_size_def Let_def cell_at_def empty_cell_def)
  show "\<not> kc_has_shift (kc_reset c)" by (simp add: kc_reset_def Let_def)
  have "occ (replicate (kc_size c) empty_cell) s p = {}" for s p
    by (auto simp: occ_def)
  then show "cells_inv (kc_reset c)"
    unfolding cells_inv_def view
    by (auto simp: lens_ok_def kc_reset_def kc_size_def Let_def used_of_def sp_ok_def ctr.wf_empty ctr.count_empty)
qed

lemma kc_resize_inv: "cells_inv (kc_resize n c)" "kc_view (kc_resize n c) = replicate n empty_cell"
  "\<not> kc_has_shift (kc_resize n c)" "kc_size (kc_resize n c) = n"
  using kc_reset_inv [of "c\<lparr>kc_pos := replicate n (- 1)\<rparr>"]
  by (simp_all add: kc_resize_def kc_size_def)

lemma kc_cp_loop:
  assumes "\<forall>ji \<in> set xs. snd ji < kc_size c \<and> kc_shift c ! snd ji = 0"
  shows "\<exists>r. foldM (kc_cp_cell c) xs res = Some r
     \<and> kc_pos r = fold (\<lambda>(j, i) l. l[j := kc_pos c ! i]) xs (kc_pos res)
     \<and> kc_ext r = fold (\<lambda>(j, i) l. l[j := kc_ext c ! i]) xs (kc_ext res)
     \<and> kc_seq r = fold (\<lambda>(j, i) l. l[j := kc_seq c ! i]) xs (kc_seq res)"
  using assms
proof (induction xs arbitrary: res)
  case (Cons ji xs)
  obtain j i where ji: "ji = (j, i)" by fastforce
  let ?r = "res\<lparr>kc_pos := (kc_pos res)[j := kc_pos c ! i], kc_ext := (kc_ext res)[j := kc_ext c ! i],
    kc_seq := (kc_seq res)[j := kc_seq c ! i]\<rparr>"
  have "kc_cp_cell c ji res = Some ?r" using Cons.prems by (simp add: kc_cp_cell_def ji)
  with Cons.IH [of ?r] Cons.prems show ?case by (simp add: ji)
qed simp

lemma fold_fill_prefix:
  "fold (\<lambda>(j, i) l. l[j := f i]) (zip [k..<k + length idxs] idxs) (xs @ replicate (length idxs) z)
     = xs @ map f idxs" if "length xs = k"
  using that
proof (induction idxs arbitrary: k xs)
  case (Cons a idxs)
  have "[k..<k + length (a # idxs)] = k # [Suc k..<Suc k + length idxs]"
    by (subst upt_conv_Cons) simp_all
  with Cons.IH [of "xs @ [f a]" "Suc k"] Cons.prems show ?case
    by (simp add: list_update_append)
qed simp

lemma fold_fill: "fold (\<lambda>(j, i) l. l[j := f i]) (zip [0..<length idxs] idxs) (replicate (length idxs) z)
    = map f idxs"
  using fold_fill_prefix [of "[]" 0 f idxs z] by simp

lemma kc_cp_spec:
  assumes "\<forall>i \<in> set idxs. i < kc_size c \<and> kc_shift c ! i = 0"
  shows "\<exists>r. kc_cp idxs c = Some r \<and> kc_pos r = map (\<lambda>i. kc_pos c ! i) idxs
     \<and> kc_ext r = map (\<lambda>i. kc_ext c ! i) idxs \<and> kc_seq r = map (\<lambda>i. kc_seq c ! i) idxs"
proof -
  let ?e = "kc_resize (length idxs) kc_new"
  have e: "kc_pos ?e = replicate (length idxs) (- 1)" "kc_ext ?e = replicate (length idxs) ext_reset"
    "kc_seq ?e = replicate (length idxs) {}"
    by (simp_all add: kc_resize_def kc_reset_def kc_size_def Let_def)
  have "\<forall>ji \<in> set (zip [0..<length idxs] idxs). snd ji < kc_size c \<and> kc_shift c ! snd ji = 0"
    using assms by (auto dest: set_zip_rightD)
  from kc_cp_loop [OF this, of ?e] show ?thesis
    by (simp add: kc_cp_def e fold_fill)
qed

lemma kc_set_cell_spec:
  assumes "cells_inv c" "idx < kc_size c" "kc_shift c ! idx = 0"
    and x: "cell_ok (Cell (kc_pos oth ! j) (kc_ext oth ! j) 0 (kc_seq oth ! j))" (is "cell_ok ?x")
  shows "\<exists>d. kc_set_cell oth (j, idx) c = Some d \<and> effect c idx ?x (kc_has_shift c) d"
proof -
  let ?p = "kc_pos oth ! j" and ?S = "kc_seq oth ! j"
  let ?U = "if ?p = - 1 then kc_used c - {idx} else insert idx (kc_used c)"
  have used: "idx \<in> kc_used c \<longleftrightarrow> kc_pos c ! idx \<noteq> - 1" using cells_inv_used [OF assms(1,2)] .
  have len: "idx < length (kc_pos c)" "idx < length (kc_seq c)" "idx < length (kc_shift c)"
    using cells_inv_lens [OF assms(1)] assms(2) by (simp_all add: lens_ok_def kc_size_def)
  \<comment> \<open>the cell leaves the index, if it was in it\<close>
  obtain g where g: "(if kc_pos c ! idx \<noteq> - 1 then kc_seq_pos_rm idx (c\<lparr>kc_used := ?U\<rparr>) else Some (c\<lparr>kc_used := ?U\<rparr>))
      = Some (c\<lparr>kc_used := ?U, kc_seq_pos := g\<rparr>)"
    "\<And>y. c_seq y = {} \<Longrightarrow> sp_ok ((kc_view c)[idx := y]) g"
  proof (cases "kc_pos c ! idx = - 1")
    case True
    then have "kc_seq c ! idx = {}" using cells_invD(3) [OF assms(1,2)] by simp
    then have "sp_ok ((kc_view c)[idx := y]) (kc_seq_pos c)" if "c_seq y = {}" for y
      using that assms(2) by (intro sp_ok_cong cells_inv_sp [OF assms(1)]) auto
    with that [of "kc_seq_pos c"] True show ?thesis by auto
  next
    case False
    obtain g where g: "kc_seq_pos_rm idx (c\<lparr>kc_used := ?U\<rparr>) = Some (c\<lparr>kc_used := ?U, kc_seq_pos := g\<rparr>)"
      "sp_ok ((kc_view c)[idx := set_seq (cell_at c idx) {}]) g"
      using seq_pos_rm_spec [of "kc_view c" "c\<lparr>kc_used := ?U\<rparr>" idx] cells_inv_sp [OF assms(1)]
        assms(2) cells_invD(2) [OF assms(1,2)] by auto
    have "sp_ok ((kc_view c)[idx := y]) g" if "c_seq y = {}" for y
      using sp_ok_cong [OF g(2), of idx y] assms(2) that by auto
    with that g(1) False show ?thesis by auto
  qed
  let ?c1 = "c\<lparr>kc_used := ?U, kc_seq_pos := g, kc_pos := (kc_pos c)[idx := ?p],
    kc_ext := (kc_ext c)[idx := kc_ext oth ! j], kc_seq := (kc_seq c)[idx := ?S]\<rparr>"
  \<comment> \<open>and enters it with its new position and sequences\<close>
  obtain g' where g': "(if ?p \<noteq> - 1 then kc_seq_pos_add idx ?c1 else Some ?c1) = Some (?c1\<lparr>kc_seq_pos := g'\<rparr>)"
    "sp_ok ((kc_view c)[idx := ?x]) g'"
  proof (cases "?p = - 1")
    case True
    with x have "?S = {}" by (simp add: cell_ok_def)
    with that [of g] g(2) [of ?x] True show ?thesis by simp
  next
    case False
    have "?S \<subseteq> Collect seq_id_ok" using x by (simp add: cell_ok_def)
    with seq_pos_add_spec [of "(kc_view c)[idx := set_seq ?x {}]" ?c1 idx ?x] g(2) len assms(2) False that
    show ?thesis by auto
  qed
  let ?d = "?c1\<lparr>kc_seq_pos := g'\<rparr>"
  have "effect c idx ?x (kc_has_shift ?d) ?d"
  proof (rule effectI)
    show "kc_shift ?d = (kc_shift c)[idx := 0]"
      using list_update_id [of "kc_shift c" idx] assms(3) by simp
  qed (use assms g' x in simp_all)
  moreover have "kc_set_cell oth (j, idx) c = Some ?d"
    using g(1) g'(1) assms(2,3) len used
    by (auto simp: kc_set_cell_def Let_def insert_absorb split: if_splits)
  ultimately show ?thesis by simp
qed

lemma kc_set_loop:
  assumes "cells_inv c"
    and r: "\<forall>(j, i) \<in> set xs. i < kc_size c \<and> kc_shift c ! i = 0 \<and> kc_pos r ! j = kc_pos c ! i
      \<and> kc_ext r ! j = kc_ext c ! i \<and> kc_seq r ! j = kc_seq c ! i"
    and "cells_inv u" "kc_size u = kc_size c" "kc_has_shift u = kc_has_shift c"
    and "\<forall>i \<in> snd ` set xs. kc_shift u ! i = 0"
    and "\<forall>i < kc_size c. i \<notin> snd ` set xs \<longrightarrow> cell_at u i = cell_at c i"
  shows "foldM (kc_set_cell r) xs u = Some c"
  using assms(2-)
proof (induction xs arbitrary: u)
  case Nil
  then have "kc_view u = kc_view c" by (intro view_eqI) auto
  with Nil assms(1) show ?case by (auto intro: cells_eqI)
next
  case (Cons ji xs)
  obtain j i where ji: "ji = (j, i)" by fastforce
  have i: "i < kc_size c" "kc_shift c ! i = 0" "kc_shift u ! i = 0"
    and x: "Cell (kc_pos r ! j) (kc_ext r ! j) 0 (kc_seq r ! j) = cell_at c i"
    using Cons.prems(1,5) by (auto simp: ji cell_at_def)
  have "cell_ok (cell_at c i)" using assms(1) i(1) by (auto simp: cells_inv_def kc_view_def)
  then obtain d where d: "kc_set_cell r (j, i) u = Some d" "effect u i (cell_at c i) (kc_has_shift u) d"
    using kc_set_cell_spec [OF Cons.prems(2), of i r j] Cons.prems(3) i x by auto
  have at: "cell_at d k = (if k = i then cell_at c i else cell_at u k)" if "k < kc_size c" for k
    using effect_nth [OF d(2)] that Cons.prems(3) by simp
  have "foldM (kc_set_cell r) xs d = Some c"
  proof (rule Cons.IH)
    show "cells_inv d" "kc_size d = kc_size c" "kc_has_shift d = kc_has_shift c"
      using effectD [OF d(2)] Cons.prems(3,4) by simp_all
    show "\<forall>k \<in> snd ` set xs. kc_shift d ! k = 0"
    proof
      fix k assume k: "k \<in> snd ` set xs"
      then have "k < kc_size c" "kc_shift u ! k = 0" using Cons.prems(1,5) by auto
      then show "kc_shift d ! k = 0" using arg_cong [OF at [of k], of c_shift] i(2) by (auto split: if_splits)
    qed
    show "\<forall>k < kc_size c. k \<notin> snd ` set xs \<longrightarrow> cell_at d k = cell_at c k"
      using at Cons.prems(6) by (auto simp: ji)
  qed (use Cons.prems(1) in auto)
  with d(1) show ?case by (simp add: ji)
qed

text \<open>Restoring saved cells undoes any change that was confined to them.\<close>

lemma kc_restore:
  assumes "cells_inv c" "cells_inv u" "kc_size u = kc_size c" "kc_has_shift u = kc_has_shift c"
    and "\<forall>i \<in> set idxs. i < kc_size c \<and> kc_shift c ! i = 0 \<and> kc_shift u ! i = 0"
    and "\<forall>i < kc_size c. i \<notin> set idxs \<longrightarrow> cell_at u i = cell_at c i"
    and "kc_cp idxs c = Some r"
  shows "kc_set idxs r u = Some c"
proof -
  let ?xs = "zip [0..<length idxs] idxs"
  have r: "kc_pos r = map (\<lambda>i. kc_pos c ! i) idxs" "kc_ext r = map (\<lambda>i. kc_ext c ! i) idxs"
    "kc_seq r = map (\<lambda>i. kc_seq c ! i) idxs" "kc_size r = length idxs"
    using kc_cp_spec [of idxs c] assms(5,7) by (auto simp: kc_size_def)
  have snd: "snd ` set ?xs = set idxs"
    by (metis length_upt minus_nat.diff_0 map_snd_zip set_map)
  have xs: "i \<in> set idxs \<and> j < length idxs \<and> idxs ! j = i" if "(j, i) \<in> set ?xs" for j i
    using that by (auto simp: set_zip)
  have "foldM (kc_set_cell r) ?xs u = Some c"
    by (rule kc_set_loop) (use assms xs r snd in \<open>auto dest!: xs\<close>)
  then show ?thesis by (simp add: kc_set_def r)
qed

end
