(* ===== verification/Kv_Cells_Query.thy ===== *)
theory Kv_Cells_Query
  imports Kv_Cells_Ops
begin

text \<open>
  What the queries of \<open>kv_cells\<close> return under the invariant: the extreme positions of a sequence,
  the extent of the used cells, the owner of a cell; and the indices recomputed from scratch.
\<close>

definition seq_positions :: "kv_cell list \<Rightarrow> llama_seq_id \<Rightarrow> llama_pos set" where
  "seq_positions v s = {c_pos x |x. x \<in> set v \<and> s \<in> c_seq x}"

lemma finite_seq_positions [simp]: "finite (seq_positions v s)"
  by (simp add: seq_positions_def)

lemma seq_positions_support:
  assumes "sp_ok v f" "seq_id_ok s"
  shows "{p. 0 < ctr_count (f s) p} = seq_positions v s"
  using sp_okD(2) [OF assms]
  by (auto simp: seq_positions_def card_gt_0_iff occ_def in_set_conv_nth)

lemma kc_seq_pos_min_spec:
  assumes "cells_inv c" "seq_id_ok s"
  shows "kc_seq_pos_min c s = Some (if seq_positions (kc_view c) s = {} then - 1
     else Min (seq_positions (kc_view c) s))"
proof -
  note sp = cells_inv_sp [OF assms(1)]
  note wf = sp_okD(1) [OF sp assms(2)]
  note supp = seq_positions_support [OF sp assms(2)]
  show ?thesis
  proof (cases "seq_positions (kc_view c) s = {}")
    case True
    then show ?thesis using assms(2) ctr.pmin_empty [OF wf] supp
      by (auto simp: kc_seq_pos_min_def seq_id_ok_def)
  next
    case False
    then obtain p where "0 < ctr_count (kc_seq_pos c s) p" using supp by auto
    then show ?thesis using assms(2) ctr.pmin_least [OF wf] supp False
      by (auto simp: kc_seq_pos_min_def seq_id_ok_def)
  qed
qed

lemma kc_seq_pos_max_spec:
  assumes "cells_inv c" "seq_id_ok s"
  shows "kc_seq_pos_max c s = Some (if seq_positions (kc_view c) s = {} then - 1
     else Max (seq_positions (kc_view c) s))"
proof -
  note sp = cells_inv_sp [OF assms(1)]
  note wf = sp_okD(1) [OF sp assms(2)]
  note supp = seq_positions_support [OF sp assms(2)]
  show ?thesis
  proof (cases "seq_positions (kc_view c) s = {}")
    case True
    then show ?thesis using assms(2) ctr.pmax_empty [OF wf] supp
      by (auto simp: kc_seq_pos_max_def seq_id_ok_def)
  next
    case False
    then obtain p where "0 < ctr_count (kc_seq_pos c s) p" using supp by auto
    then show ?thesis using assms(2) ctr.pmax_greatest [OF wf] supp False
      by (auto simp: kc_seq_pos_max_def seq_id_ok_def)
  qed
qed

lemma kc_is_empty_spec:
  "cells_inv c \<Longrightarrow> i < kc_size c \<Longrightarrow> kc_is_empty c i = Some (kc_pos c ! i = - 1)"
  using cells_invD(1) [of c i] by (auto simp: kc_is_empty_def check_def)

lemma kc_seq_get_spec:
  assumes "cells_inv c" "i < kc_size c" "kc_seq c ! i = {s}"
  shows "kc_seq_get c i = Some s"
proof -
  have s: "seq_id_ok s" using cells_invD(2) [OF assms(1,2)] assms(3) by auto
  have "List.find (\<lambda>t. t \<in> {s}) all_seqs = Some s"
  proof (cases "List.find (\<lambda>t. t \<in> {s}) all_seqs")
    case None
    then show ?thesis using s by (auto simp: find_None_iff)
  next
    case (Some t)
    then show ?thesis by (auto simp: find_Some_iff)
  qed
  then show ?thesis
    using assms cells_inv_lens [OF assms(1)]
    by (simp add: kc_seq_get_def vget_def lens_ok_def)
qed

text \<open>The used-cell extent: every occupied cell lies below \<open>kc_used_max_p1\<close>, and the bound is tight.\<close>

lemma finite_used [simp]: "cells_inv c \<Longrightarrow> finite (kc_used c)"
  by (simp add: cells_inv_def used_of_def)

lemma kc_used_max_p1_bound:
  assumes "cells_inv c" "i < kc_size c" "kc_pos c ! i \<noteq> - 1"
  shows "i < kc_used_max_p1 c"
proof -
  have "i \<in> kc_used c" using assms cells_inv_used by blast
  then show ?thesis using assms(1) by (auto simp: kc_used_max_p1_def less_Suc_eq_le)
qed

lemma kc_used_max_p1_le: "cells_inv c \<Longrightarrow> kc_used_max_p1 c \<le> kc_size c"
  by (auto simp: kc_used_max_p1_def cells_inv_def used_of_def Suc_le_eq)

lemma kc_get_used_le: "cells_inv c \<Longrightarrow> kc_get_used c \<le> kc_size c"
  by (auto simp: kc_get_used_def cells_inv_def used_of_def intro: order_trans [OF card_mono [of "{0..<kc_size c}"]])

section \<open>Recomputing the indices\<close>

text \<open>The counters of a sequence, computed from the cells alone.\<close>

definition recount :: "kv_cell list \<Rightarrow> llama_seq_id \<Rightarrow> counter" where
  "recount v s = fold (\<lambda>x m. if s \<in> c_seq x then ctr_inc (c_pos x) m else m) v []"

lemma recount_snoc: "recount (v @ [x]) s =
    (if s \<in> c_seq x then ctr_inc (c_pos x) (recount v s) else recount v s)"
  by (simp add: recount_def)

lemma occ_snoc: "occ (v @ [x]) s p =
    (if s \<in> c_seq x \<and> c_pos x = p then insert (length v) (occ v s p) else occ v s p)"
  by (auto simp: occ_def nth_append less_Suc_eq split: if_splits)

lemma length_notin_occ [simp]: "length v \<notin> occ v s p"
  by (simp add: occ_def)

lemma recount_spec: "ctr_wf (recount v s) \<and> ctr_count (recount v s) p = card (occ v s p)"
proof (induction v arbitrary: p rule: rev_induct)
  case Nil
  then show ?case by (simp add: recount_def ctr.wf_empty ctr.count_empty occ_def)
next
  case (snoc x v)
  then have "ctr_wf (recount v s)" "\<And>p. ctr_count (recount v s) p = card (occ v s p)" by blast+
  then show ?case
    by (auto simp: recount_snoc occ_snoc ctr.wf_inc ctr.count_inc)
qed

lemma seq_pos_recount:
  assumes "cells_inv c" "seq_id_ok s"
  shows "kc_seq_pos c s = recount (kc_view c) s"
proof (rule ctr_ext)
  note sp = sp_okD [OF cells_inv_sp [OF assms(1)] assms(2)]
  show "ctr_wf (kc_seq_pos c s)" by (rule sp(1))
  show "ctr_wf (recount (kc_view c) s)" using recount_spec by blast
  show "ctr_count (kc_seq_pos c s) = ctr_count (recount (kc_view c) s)"
    using sp(2) recount_spec by (intro HOL.ext) metis
qed

end
