(* ===== verification/Block_Pool.thy ===== *)
theory Block_Pool
  imports Ord_Map
begin

text \<open>
  \<^verbatim>\<open>llama_block_pool\<close> (src/llama-block-pool.h, src/llama-block-pool.cpp): the pool of fixed-size
  blocks of the paged KV cache. A block is free or referenced by entries of the block tables of
  the sequences; \<open>pool_inv\<close> says that the reference counts are those numbers of entries and that
  the free set is the unreferenced blocks. A block id is an \<open>int\<close> with \<^verbatim>\<open>-1\<close> for "none", as in
  the code; \<^verbatim>\<open>std::set<int32_t>\<close> is a finite set whose \<^verbatim>\<open>begin()\<close> is its minimum.
\<close>

section \<open>State\<close>

record block_info =
  bi_ref_count :: int
  bi_is_free :: bool
  bi_seq_id :: int
  bi_logical_block :: int

definition free_info :: block_info where
  "free_info = \<lparr>bi_ref_count = 0, bi_is_free = True, bi_seq_id = - 1, bi_logical_block = - 1\<rparr>"

record block_table_entry =
  bt_map :: "int list"
  bt_seq_id :: llama_seq_id
  bt_n_tokens :: nat

definition empty_entry :: block_table_entry where
  "empty_entry = \<lparr>bt_map = [], bt_seq_id = - 1, bt_n_tokens = 0\<rparr>"

record block_pool =
  bp_block_size :: nat
  bp_num_blocks :: nat
  bp_n_layer :: nat
  bp_n_head :: nat
  bp_head_dim :: nat
  bp_k_pool :: "nat option list"
  bp_v_pool :: "nat option list"
  bp_blocks :: "block_info list"
  bp_free :: "int set"
  bp_tables :: "(llama_seq_id, block_table_entry) omap"

section \<open>Operations\<close>

text \<open>
  \<open>new_tensor ne0 ne1\<close> stands for \<^verbatim>\<open>ggml_new_tensor_2d\<close>: the size in bytes of the tensor, or \<open>None\<close>
  for a null pointer, which the final loop of \<^verbatim>\<open>init\<close> asserts against.
\<close>

record pool_hparams =
  ph_n_layer :: nat
  ph_n_head :: nat
  ph_head_dim :: nat
  ph_n_embd_k_gqa :: nat
  ph_n_embd_v_gqa :: nat

definition bp_init :: "(nat \<Rightarrow> nat \<Rightarrow> nat option) \<Rightarrow> pool_hparams \<Rightarrow> nat \<Rightarrow> nat
    \<Rightarrow> block_pool \<Rightarrow> (bool \<times> block_pool) option" where
  "bp_init new_tensor hp n_blocks block_sz p =
     (let p = p\<lparr>bp_num_blocks := n_blocks, bp_block_size := block_sz, bp_n_layer := ph_n_layer hp,
                bp_n_head := ph_n_head hp, bp_head_dim := ph_head_dim hp,
                bp_blocks := replicate n_blocks free_info,
                bp_free := int ` {0..<n_blocks},
                bp_k_pool := map (\<lambda>il. new_tensor (ph_n_embd_k_gqa hp) (block_sz * n_blocks)) [0..<ph_n_layer hp],
                bp_v_pool := map (\<lambda>il. new_tensor (ph_n_embd_v_gqa hp) (block_sz * n_blocks)) [0..<ph_n_layer hp]\<rparr>
      in do { check (\<forall>t \<in> set (bp_k_pool p). t \<noteq> None);
              check (\<forall>t \<in> set (bp_v_pool p). t \<noteq> None);
              Some (True, p) })"

definition bp_allocate_block :: "llama_seq_id \<Rightarrow> int \<Rightarrow> block_pool \<Rightarrow> (int \<times> block_pool) option" where
  "bp_allocate_block seq_id logical_block p =
     (if bp_free p = {} then Some (- 1, p)
      else let block_id = Min (bp_free p);
               p = p\<lparr>bp_free := bp_free p - {block_id}\<rparr> in do {
        check (0 \<le> block_id \<and> nat block_id < length (bp_blocks p));
        Some (block_id, p\<lparr>bp_blocks := (bp_blocks p)[nat block_id :=
          \<lparr>bi_ref_count = 1, bi_is_free = False, bi_seq_id = seq_id, bi_logical_block = logical_block\<rparr>]\<rparr>) })"

definition bp_free_block :: "int \<Rightarrow> block_pool \<Rightarrow> block_pool option" where
  "bp_free_block block_id p =
     (if block_id < 0 \<or> block_id \<ge> int (bp_num_blocks p) then Some p
      else do {
        b \<leftarrow> vget (bp_blocks p) (nat block_id);
        let b = b\<lparr>bi_ref_count := bi_ref_count b - 1\<rparr>;
        Some (if bi_ref_count b \<le> 0
              then p\<lparr>bp_blocks := (bp_blocks p)[nat block_id :=
                       b\<lparr>bi_is_free := True, bi_seq_id := - 1, bi_logical_block := - 1\<rparr>],
                     bp_free := insert block_id (bp_free p)\<rparr>
              else p\<lparr>bp_blocks := (bp_blocks p)[nat block_id := b]\<rparr>) })"

definition bp_get_physical_block :: "block_pool \<Rightarrow> llama_seq_id \<Rightarrow> int \<Rightarrow> int" where
  "bp_get_physical_block p seq_id logical_block =
     (case om_find (bp_tables p) seq_id of
        None \<Rightarrow> - 1
      | Some t \<Rightarrow> if logical_block < 0 \<or> logical_block \<ge> int (length (bt_map t)) then - 1
                  else bt_map t ! nat logical_block)"

text \<open>\<^verbatim>\<open>v.resize(n, -1)\<close> on a shorter vector.\<close>

definition grow :: "nat \<Rightarrow> int list \<Rightarrow> int list" where
  "grow n xs = xs @ replicate (n - length xs) (- 1)"

definition bp_add_block_to_sequence :: "llama_seq_id \<Rightarrow> int \<Rightarrow> block_pool \<Rightarrow> (int \<times> block_pool) option" where
  "bp_add_block_to_sequence seq_id logical_block p = (
     let t = (case om_find (bp_tables p) seq_id of Some t \<Rightarrow> t | None \<Rightarrow> empty_entry);
         t = t\<lparr>bt_seq_id := seq_id\<rparr>;
         t = (if logical_block \<ge> int (length (bt_map t))
              then t\<lparr>bt_map := grow (nat (logical_block + 1)) (bt_map t)\<rparr> else t);
         p = p\<lparr>bp_tables := om_set seq_id t (bp_tables p)\<rparr>
     in do {
       (physical_block, p) \<leftarrow> bp_allocate_block seq_id logical_block p;
       if physical_block < 0 then Some (- 1, p)
       else do {
         check (0 \<le> logical_block \<and> nat logical_block < length (bt_map t));
         let t = t\<lparr>bt_map := (bt_map t)[nat logical_block := physical_block]\<rparr>;
         Some (physical_block, p\<lparr>bp_tables := om_set seq_id t (bp_tables p)\<rparr>) } })"

definition bp_remove_sequence :: "llama_seq_id \<Rightarrow> block_pool \<Rightarrow> block_pool option" where
  "bp_remove_sequence seq_id p =
     (case om_find (bp_tables p) seq_id of
        None \<Rightarrow> Some p
      | Some t \<Rightarrow> do {
          p \<leftarrow> foldM bp_free_block (bt_map t) p;
          Some (p\<lparr>bp_tables := om_erase seq_id (bp_tables p)\<rparr>) })"

definition bp_n_free_blocks :: "block_pool \<Rightarrow> nat" where
  "bp_n_free_blocks p = card (bp_free p)"

definition bp_n_blocks_for_sequence :: "block_pool \<Rightarrow> llama_seq_id \<Rightarrow> nat" where
  "bp_n_blocks_for_sequence p seq_id =
     (case om_find (bp_tables p) seq_id of None \<Rightarrow> 0 | Some t \<Rightarrow> length (bt_map t))"

definition bp_memory_size :: "block_pool \<Rightarrow> nat" where
  "bp_memory_size p =
     sum_list (map (\<lambda>t. case t of Some n \<Rightarrow> n | None \<Rightarrow> 0) (bp_k_pool p))
     + sum_list (map (\<lambda>t. case t of Some n \<Rightarrow> n | None \<Rightarrow> 0) (bp_v_pool p))"

definition bp_defragment :: "block_pool \<Rightarrow> block_pool" where
  "bp_defragment p =
     (let empty_seqs = map fst (filter (\<lambda>(s, t). bt_map t = []) (bp_tables p))
      in p\<lparr>bp_tables := fold om_erase empty_seqs (bp_tables p)\<rparr>)"

section \<open>Invariant\<close>

text \<open>The number of block-table entries that refer to a block.\<close>

definition refs :: "(llama_seq_id, block_table_entry) omap \<Rightarrow> int \<Rightarrow> nat" where
  "refs ts b = sum_list (map (\<lambda>(s, t). count_list (bt_map t) b) ts)"

definition id_ok :: "block_pool \<Rightarrow> int \<Rightarrow> bool" where
  "id_ok p b \<longleftrightarrow> 0 \<le> b \<and> b < int (bp_num_blocks p)"

text \<open>
  The blocks agree with reference counts \<open>rc\<close>; \<open>pool_inv\<close> takes the counts of the tables.
\<close>

definition blocks_agree :: "(int \<Rightarrow> nat) \<Rightarrow> block_pool \<Rightarrow> bool" where
  "blocks_agree rc p \<longleftrightarrow>
     length (bp_blocks p) = bp_num_blocks p
     \<and> bp_free p = {b. id_ok p b \<and> rc b = 0}
     \<and> (\<forall>b. id_ok p b \<longrightarrow> bi_ref_count (bp_blocks p ! nat b) = int (rc b)
           \<and> (bi_is_free (bp_blocks p ! nat b) \<longleftrightarrow> rc b = 0))"

definition tables_ok :: "block_pool \<Rightarrow> bool" where
  "tables_ok p \<longleftrightarrow> om_wf (bp_tables p)
     \<and> (\<forall>(s, t) \<in> set (bp_tables p). bt_seq_id t = s \<and> (\<forall>b \<in> set (bt_map t). b = - 1 \<or> id_ok p b))"

definition pool_inv :: "block_pool \<Rightarrow> bool" where
  "pool_inv p \<longleftrightarrow> tables_ok p \<and> blocks_agree (refs (bp_tables p)) p"

lemma refs_Nil [simp]: "refs [] b = 0"
  by (simp add: refs_def)

lemma refs_Cons [simp]: "refs ((s, t) # ts) b = count_list (bt_map t) b + refs ts b"
  by (simp add: refs_def)

definition entry_refs :: "block_table_entry option \<Rightarrow> int \<Rightarrow> nat" where
  "entry_refs e b = (case e of None \<Rightarrow> 0 | Some t \<Rightarrow> count_list (bt_map t) b)"

lemma entry_refs_simps [simp]:
  "entry_refs None b = 0" "entry_refs (Some t) b = count_list (bt_map t) b"
  by (simp_all add: entry_refs_def)

lemma refs_set:
  "om_wf ts \<Longrightarrow> refs (om_set s t ts) b + entry_refs (om_find ts s) b = refs ts b + count_list (bt_map t) b"
proof (induction s t ts rule: om_set.induct)
  case (2 k v l w m)
  have "om_find m k = None" if "k < l"
    using that "2.prems" by (intro om_find_below) (auto intro: less_trans)
  with "2" show ?case by auto
qed simp

lemma refs_erase:
  "om_wf ts \<Longrightarrow> refs (om_erase s ts) b + entry_refs (om_find ts s) b = refs ts b"
  by (induction s ts rule: om_erase.induct) auto

lemma count_le_refs: "om_wf ts \<Longrightarrow> om_find ts s = Some t \<Longrightarrow> count_list (bt_map t) b \<le> refs ts b"
  using refs_erase [of ts s b] by simp

lemma tables_ok_find:
  assumes "tables_ok p" "om_find (bp_tables p) s = Some t"
  shows "bt_seq_id t = s" "\<And>b. b \<in> set (bt_map t) \<Longrightarrow> b = - 1 \<or> id_ok p b"
  using assms om_find_mem_iff [of "bp_tables p" s t] by (auto simp: tables_ok_def)

lemma finite_ids [simp]: "finite {b. id_ok p b \<and> P b}"
  by (rule finite_subset [of _ "{0..<int (bp_num_blocks p)}"]) (auto simp: id_ok_def)

section \<open>Single blocks\<close>

lemma Min_free:
  assumes "blocks_agree rc p" "bp_free p \<noteq> {}"
  shows "Min (bp_free p) \<in> bp_free p" "id_ok p (Min (bp_free p))" "rc (Min (bp_free p)) = 0"
proof -
  have "finite (bp_free p)" using assms(1) by (simp add: blocks_agree_def)
  then show in_free: "Min (bp_free p) \<in> bp_free p" using assms(2) by (rule Min_in)
  then show "id_ok p (Min (bp_free p))" "rc (Min (bp_free p)) = 0"
    using assms(1) by (auto simp: blocks_agree_def)
qed

lemma id_ok_nat_inj: "id_ok p b \<Longrightarrow> id_ok p c \<Longrightarrow> nat b = nat c \<longleftrightarrow> b = c"
  by (auto simp: id_ok_def)

lemma allocate_block_agree:
  assumes "blocks_agree rc p" "bp_free p \<noteq> {}"
  defines "b \<equiv> Min (bp_free p)"
  shows "\<exists>q. bp_allocate_block s l p = Some (b, q) \<and> blocks_agree (rc(b := 1)) q
    \<and> bp_num_blocks q = bp_num_blocks p \<and> bp_tables q = bp_tables p \<and> bp_block_size q = bp_block_size p
    \<and> bp_free q = bp_free p - {b}"
proof -
  have b: "b \<in> bp_free p" "id_ok p b" "rc b = 0"
    using Min_free [OF assms(1,2)] by (simp_all add: b_def)
  let ?q = "p\<lparr>bp_free := bp_free p - {b}, bp_blocks := (bp_blocks p)[nat b :=
    \<lparr>bi_ref_count = 1, bi_is_free = False, bi_seq_id = s, bi_logical_block = l\<rparr>]\<rparr>"
  have len: "nat b < length (bp_blocks p)"
    using assms(1) b(2) by (auto simp: blocks_agree_def id_ok_def)
  then have "bp_allocate_block s l p = Some (b, ?q)"
    using assms(2) b(2) by (simp add: bp_allocate_block_def Let_def b_def id_ok_def)
  moreover have "blocks_agree (rc(b := 1)) ?q"
    using assms(1) len b(2) id_ok_nat_inj [of p]
    by (auto simp: blocks_agree_def id_ok_def nth_list_update)
  ultimately show ?thesis by simp
qed

lemma free_block_agree:
  assumes "blocks_agree rc p" "id_ok p b" "0 < rc b"
  shows "\<exists>q. bp_free_block b p = Some q \<and> blocks_agree (rc(b := rc b - 1)) q
    \<and> bp_num_blocks q = bp_num_blocks p \<and> bp_tables q = bp_tables p \<and> bp_block_size q = bp_block_size p"
proof -
  have len: "nat b < length (bp_blocks p)" and rc: "bi_ref_count (bp_blocks p ! nat b) = int (rc b)"
    using assms by (auto simp: blocks_agree_def id_ok_def)
  let ?b = "(bp_blocks p ! nat b)\<lparr>bi_ref_count := bi_ref_count (bp_blocks p ! nat b) - 1\<rparr>"
  let ?q = "if rc b = 1
     then p\<lparr>bp_blocks := (bp_blocks p)[nat b := ?b\<lparr>bi_is_free := True, bi_seq_id := - 1, bi_logical_block := - 1\<rparr>],
            bp_free := insert b (bp_free p)\<rparr>
     else p\<lparr>bp_blocks := (bp_blocks p)[nat b := ?b]\<rparr>"
  have "bp_free_block b p = Some ?q"
    using assms(2,3) len rc by (auto simp: bp_free_block_def id_ok_def vget_def Let_def)
  moreover have "blocks_agree (rc(b := rc b - 1)) ?q"
    using assms len id_ok_nat_inj [of p]
    by (auto simp: blocks_agree_def id_ok_def nth_list_update)
  ultimately show ?thesis by auto
qed

lemma free_block_none: "bp_free_block (- 1) p = Some p"
  by (simp add: bp_free_block_def)

lemma blocks_agree_cong:
  "blocks_agree rc p \<Longrightarrow> (\<And>b. id_ok p b \<Longrightarrow> rc b = rc' b) \<Longrightarrow> blocks_agree rc' p"
  by (auto simp: blocks_agree_def)

lemma free_blocks_agree:
  assumes "blocks_agree rc p" "\<forall>b \<in> set bs. b = - 1 \<or> id_ok p b"
    "\<And>b. id_ok p b \<Longrightarrow> count_list bs b \<le> rc b"
  shows "\<exists>q. foldM bp_free_block bs p = Some q \<and> blocks_agree (\<lambda>b. rc b - count_list bs b) q
    \<and> bp_num_blocks q = bp_num_blocks p \<and> bp_tables q = bp_tables p \<and> bp_block_size q = bp_block_size p"
  using assms
proof (induction bs arbitrary: rc p)
  case (Cons b bs)
  show ?case
  proof (cases "b = - 1")
    case True
    have "count_list bs c \<le> rc c" if "id_ok p c" for c
      using Cons.prems(3) [OF that] True that by (auto simp: id_ok_def split: if_splits)
    then obtain q where q: "foldM bp_free_block bs p = Some q" "blocks_agree (\<lambda>b. rc b - count_list bs b) q"
      "bp_num_blocks q = bp_num_blocks p" "bp_tables q = bp_tables p" "bp_block_size q = bp_block_size p"
      using Cons.IH [OF Cons.prems(1)] Cons.prems(2) by auto
    have "blocks_agree (\<lambda>c. rc c - count_list (b # bs) c) q"
      by (rule blocks_agree_cong [OF q(2)]) (auto simp: True id_ok_def)
    with q True show ?thesis by (simp add: free_block_none)
  next
    case False
    then have b: "id_ok p b" "0 < rc b"
      using Cons.prems(2) Cons.prems(3) [of b] by auto
    obtain p1 where p1: "bp_free_block b p = Some p1" "blocks_agree (rc(b := rc b - 1)) p1"
      "bp_num_blocks p1 = bp_num_blocks p" "bp_tables p1 = bp_tables p" "bp_block_size p1 = bp_block_size p"
      using free_block_agree [OF Cons.prems(1) b] by auto
    have "count_list bs c \<le> (rc(b := rc b - 1)) c" if "id_ok p1 c" for c
      using Cons.prems(3) [of c] that p1(3) by (auto simp: id_ok_def split: if_splits)
    from Cons.IH [OF p1(2) _ this] Cons.prems(2) p1(3) obtain q where q: "foldM bp_free_block bs p1 = Some q"
      "blocks_agree (\<lambda>c. (rc(b := rc b - 1)) c - count_list bs c) q"
      "bp_num_blocks q = bp_num_blocks p1" "bp_tables q = bp_tables p1" "bp_block_size q = bp_block_size p1"
      by (auto simp: id_ok_def)
    have "blocks_agree (\<lambda>c. rc c - count_list (b # bs) c) q"
      by (rule blocks_agree_cong [OF q(2)]) auto
    with q p1 show ?thesis by simp
  qed
qed simp

section \<open>Sequences\<close>

lemma pool_invD: "pool_inv p \<Longrightarrow> om_wf (bp_tables p)" "pool_inv p \<Longrightarrow> tables_ok p"
  "pool_inv p \<Longrightarrow> blocks_agree (refs (bp_tables p)) p"
  by (simp_all add: pool_inv_def tables_ok_def)

lemma count_grow: "b \<noteq> - 1 \<Longrightarrow> count_list (grow n xs) b = count_list xs b"
  by (simp add: grow_def)

lemma set_grow: "set (grow n xs) \<subseteq> insert (- 1) (set xs)"
  by (auto simp: grow_def)

lemma length_grow [simp]: "length (grow n xs) = max n (length xs)"
  by (simp add: grow_def)

lemma count_list_update:
  "i < length xs \<Longrightarrow> count_list (xs[i := v]) b + (if xs ! i = b then 1 else 0)
     = count_list xs b + (if v = b then 1 else 0)"
proof (induction xs arbitrary: i)
  case (Cons a xs)
  then show ?case
  proof (cases i)
    case (Suc j)
    with Cons.IH [of j] Cons.prems show ?thesis by auto
  qed auto
qed simp

lemma tables_ok_set:
  assumes "tables_ok p" "bt_seq_id t = s" "\<And>b. b \<in> set (bt_map t) \<Longrightarrow> b = - 1 \<or> id_ok p b"
    "bp_tables q = om_set s t (bp_tables p)" "bp_num_blocks q = bp_num_blocks p"
  shows "tables_ok q"
  using assms by (auto simp: tables_ok_def id_ok_def dest!: om_set_elem)

lemma tables_ok_erase:
  assumes "tables_ok p" "bp_tables q = om_erase s (bp_tables p)" "bp_num_blocks q = bp_num_blocks p"
  shows "tables_ok q"
  using assms om_erase_subset [of s "bp_tables p"] by (auto simp: tables_ok_def id_ok_def) blast+

text \<open>A change of one table that keeps its references keeps the pool.\<close>

lemma pool_inv_retable:
  assumes "pool_inv p" "bt_seq_id t = s" "\<And>b. b \<in> set (bt_map t) \<Longrightarrow> b = - 1 \<or> id_ok p b"
    and "\<And>b. id_ok p b \<Longrightarrow> count_list (bt_map t) b = entry_refs (om_find (bp_tables p) s) b"
  shows "pool_inv (p\<lparr>bp_tables := om_set s t (bp_tables p)\<rparr>)"
proof -
  let ?q = "p\<lparr>bp_tables := om_set s t (bp_tables p)\<rparr>"
  have "refs (om_set s t (bp_tables p)) b = refs (bp_tables p) b" if "id_ok p b" for b
    using refs_set [OF pool_invD(1) [OF assms(1)], of s t b] assms(4) [OF that] by simp
  then have "blocks_agree (refs (bp_tables ?q)) ?q"
    using pool_invD(3) [OF assms(1)] by (auto simp: blocks_agree_def id_ok_def)
  moreover have "tables_ok ?q"
    by (rule tables_ok_set [OF pool_invD(2) [OF assms(1)] assms(2)]) (use assms(3) in auto)
  ultimately show ?thesis by (simp add: pool_inv_def)
qed

text \<open>Mapping a fresh block at an unmapped place of a table.\<close>

lemma pool_inv_map_block:
  assumes "pool_inv p" "bp_free p \<noteq> {}" "om_find (bp_tables p) s = Some t"
    "i < length (bt_map t)" "bt_map t ! i = - 1"
  defines "b \<equiv> Min (bp_free p)"
  shows "\<exists>q. bp_allocate_block s l p = Some (b, q)
     \<and> pool_inv (q\<lparr>bp_tables := om_set s (t\<lparr>bt_map := (bt_map t)[i := b]\<rparr>) (bp_tables q)\<rparr>)
     \<and> bp_tables q = bp_tables p \<and> bp_num_blocks q = bp_num_blocks p \<and> bp_block_size q = bp_block_size p
     \<and> bp_free q = bp_free p - {b}"
proof -
  note ag = pool_invD(3) [OF assms(1)] and wf = pool_invD(1) [OF assms(1)]
  have b: "id_ok p b" "refs (bp_tables p) b = 0"
    using Min_free [OF ag assms(2)] by (simp_all add: b_def)
  obtain q where q: "bp_allocate_block s l p = Some (b, q)" "blocks_agree ((refs (bp_tables p))(b := 1)) q"
    "bp_num_blocks q = bp_num_blocks p" "bp_tables q = bp_tables p" "bp_block_size q = bp_block_size p"
    "bp_free q = bp_free p - {b}"
    using allocate_block_agree [OF ag assms(2), of s l] by (auto simp: b_def)
  let ?t = "t\<lparr>bt_map := (bt_map t)[i := b]\<rparr>"
  let ?r = "q\<lparr>bp_tables := om_set s ?t (bp_tables q)\<rparr>"
  have "refs (bp_tables ?r) c = ((refs (bp_tables p))(b := 1)) c" if "id_ok p c" for c
    using refs_set [OF wf, of s ?t c] count_list_update [OF assms(4), of b c] assms(3,5) b that q(4)
      count_le_refs [OF wf assms(3), of c]
    by (auto simp: id_ok_def split: if_splits)
  then have "blocks_agree (refs (bp_tables ?r)) ?r"
    using q(2,3) by (auto simp: blocks_agree_def id_ok_def)
  moreover have "tables_ok ?r"
  proof (rule tables_ok_set [OF pool_invD(2) [OF assms(1)]])
    show "bt_seq_id ?t = s" using tables_ok_find(1) [OF pool_invD(2) [OF assms(1)] assms(3)] by simp
    show "c = - 1 \<or> id_ok p c" if "c \<in> set (bt_map ?t)" for c
      using that set_update_subset_insert [of "bt_map t" i b] b(1)
        tables_ok_find(2) [OF pool_invD(2) [OF assms(1)] assms(3), of c] by auto
  qed (use q in simp_all)
  ultimately show ?thesis using q by (auto simp: pool_inv_def)
qed

lemma bp_remove_sequence_inv:
  assumes "pool_inv p"
  shows "\<exists>q. bp_remove_sequence s p = Some q \<and> pool_inv q \<and> bp_tables q = om_erase s (bp_tables p)
    \<and> bp_num_blocks q = bp_num_blocks p \<and> bp_block_size q = bp_block_size p"
proof (cases "om_find (bp_tables p) s")
  case None
  then have "om_erase s (bp_tables p) = bp_tables p"
    using pool_invD(1) [OF assms] by (intro om_eqI) (auto simp: fun_eq_iff)
  with None assms show ?thesis by (simp add: bp_remove_sequence_def)
next
  case (Some t)
  note wf = pool_invD(1) [OF assms]
  obtain q where q: "foldM bp_free_block (bt_map t) p = Some q"
    "blocks_agree (\<lambda>b. refs (bp_tables p) b - count_list (bt_map t) b) q"
    "bp_num_blocks q = bp_num_blocks p" "bp_tables q = bp_tables p" "bp_block_size q = bp_block_size p"
    using free_blocks_agree [OF pool_invD(3) [OF assms], of "bt_map t"]
      tables_ok_find(2) [OF pool_invD(2) [OF assms] Some] count_le_refs [OF wf Some] by blast
  let ?r = "q\<lparr>bp_tables := om_erase s (bp_tables q)\<rparr>"
  have "refs (bp_tables p) b - count_list (bt_map t) b = refs (bp_tables ?r) b" for b
    using refs_erase [OF wf, of s b] Some q(4) by simp
  then have "blocks_agree (refs (bp_tables ?r)) ?r"
    using q(2) by (auto simp: blocks_agree_def id_ok_def)
  moreover have "tables_ok ?r"
    by (rule tables_ok_erase [OF pool_invD(2) [OF assms]]) (use q in simp_all)
  ultimately show ?thesis using Some q by (auto simp: bp_remove_sequence_def pool_inv_def)
qed

lemma pool_inv_free_iff: "pool_inv p \<Longrightarrow> b \<in> bp_free p \<longleftrightarrow> id_ok p b \<and> refs (bp_tables p) b = 0"
  by (simp add: pool_inv_def blocks_agree_def)

text \<open>The entry that \<open>add_block_to_sequence\<close> prepares before it allocates.\<close>

definition prepared_entry :: "block_pool \<Rightarrow> llama_seq_id \<Rightarrow> int \<Rightarrow> block_table_entry" where
  "prepared_entry p s l =
     (let t = (case om_find (bp_tables p) s of Some t \<Rightarrow> t | None \<Rightarrow> empty_entry)
      in t\<lparr>bt_seq_id := s, bt_map := grow (nat (l + 1)) (bt_map t)\<rparr>)"

lemma prepared_entry_inv:
  assumes "pool_inv p"
  shows "pool_inv (p\<lparr>bp_tables := om_set s (prepared_entry p s l) (bp_tables p)\<rparr>)"
proof (rule pool_inv_retable [OF assms])
  show "bt_seq_id (prepared_entry p s l) = s" by (simp add: prepared_entry_def Let_def)
  show "b = - 1 \<or> id_ok p b" if "b \<in> set (bt_map (prepared_entry p s l))" for b
    using that set_grow tables_ok_find(2) [OF pool_invD(2) [OF assms]]
    by (fastforce simp: prepared_entry_def Let_def empty_entry_def split: option.splits)
  show "count_list (bt_map (prepared_entry p s l)) b = entry_refs (om_find (bp_tables p) s) b"
    if "id_ok p b" for b
    using that by (auto simp: prepared_entry_def Let_def count_grow id_ok_def empty_entry_def split: option.splits)
qed

lemma add_block_unfold:
  assumes "0 \<le> l"
  shows "bp_add_block_to_sequence s l p =
    (let t = prepared_entry p s l; p1 = p\<lparr>bp_tables := om_set s t (bp_tables p)\<rparr> in do {
       (b, q) \<leftarrow> bp_allocate_block s l p1;
       if b < 0 then Some (- 1, q)
       else do { check (nat l < length (bt_map t));
         Some (b, q\<lparr>bp_tables := om_set s (t\<lparr>bt_map := (bt_map t)[nat l := b]\<rparr>) (bp_tables q)\<rparr>) } })"
proof -
  have prep: "(if l \<ge> int (length (bt_map t)) then t\<lparr>bt_map := grow (nat (l + 1)) (bt_map t)\<rparr> else t)
      = t\<lparr>bt_map := grow (nat (l + 1)) (bt_map t)\<rparr>" for t
    using assms by (auto simp: grow_def)
  show ?thesis
    using assms unfolding bp_add_block_to_sequence_def prep
    by (cases "om_find (bp_tables p) s") (simp_all add: Let_def prepared_entry_def cong: if_cong)
qed

lemma get_physical_prepared:
  assumes "pool_inv p" "0 \<le> l"
  shows "bp_get_physical_block p s l =
    (if nat l < length (bt_map (prepared_entry p s l)) then bt_map (prepared_entry p s l) ! nat l else - 1)"
  using assms(2)
  by (auto simp: bp_get_physical_block_def prepared_entry_def Let_def grow_def nth_append empty_entry_def
      split: option.splits)

section \<open>Properties\<close>

text \<open>(src/llama-block-pool.cpp, \<open>add_block_to_sequence\<close>) On a consistent pool with a free
  block, mapping an unmapped logical block takes the lowest free block: the call returns it, the
  sequence's table then maps the logical block to it, no other logical block of any sequence
  changes its mapping, the block was referenced by no table before, and the pool stays consistent
  (reference counts equal table entries, the free set is the unreferenced blocks).\<close>

theorem add_block_to_sequence_maps:
  assumes "pool_inv p" "bp_free p \<noteq> {}" "0 \<le> l" "bp_get_physical_block p s l = - 1"
  shows "\<exists>q. bp_add_block_to_sequence s l p = Some (Min (bp_free p), q) \<and> pool_inv q
    \<and> bp_get_physical_block q s l = Min (bp_free p)
    \<and> (\<forall>s' l'. (s', l') \<noteq> (s, l) \<longrightarrow> bp_get_physical_block q s' l' = bp_get_physical_block p s' l')
    \<and> refs (bp_tables p) (Min (bp_free p)) = 0 \<and> bp_free q = bp_free p - {Min (bp_free p)}"
proof -
  let ?t = "prepared_entry p s l" and ?b = "Min (bp_free p)"
  let ?p1 = "p\<lparr>bp_tables := om_set s ?t (bp_tables p)\<rparr>"
  note wf = pool_invD(1) [OF assms(1)]
  have inv1: "pool_inv ?p1" by (rule prepared_entry_inv [OF assms(1)])
  have len: "nat l < length (bt_map ?t)" using assms(3) by (simp add: prepared_entry_def Let_def)
  have slot: "bt_map ?t ! nat l = - 1" using get_physical_prepared [OF assms(1,3)] assms(4) len by simp
  obtain q where q: "bp_allocate_block s l ?p1 = Some (?b, q)"
    "pool_inv (q\<lparr>bp_tables := om_set s (?t\<lparr>bt_map := (bt_map ?t)[nat l := ?b]\<rparr>) (bp_tables q)\<rparr>)"
    "bp_tables q = bp_tables ?p1" "bp_free q = bp_free p - {?b}"
    using pool_inv_map_block [OF inv1 _ _ len slot, of s l] assms(2) wf by auto
  have b: "0 \<le> ?b" "refs (bp_tables p) ?b = 0"
    using Min_free [OF pool_invD(3) [OF assms(1)] assms(2)] by (auto simp: id_ok_def)
  let ?r = "q\<lparr>bp_tables := om_set s (?t\<lparr>bt_map := (bt_map ?t)[nat l := ?b]\<rparr>) (bp_tables q)\<rparr>"
  have "bp_add_block_to_sequence s l p = Some (?b, ?r)"
    using q(1) b(1) len by (simp add: add_block_unfold [OF assms(3)] Let_def)
  moreover have "bp_get_physical_block ?r s l = ?b"
    using q(3) len wf assms(3) by (auto simp: bp_get_physical_block_def)
  moreover have "bp_get_physical_block ?r s' l' = bp_get_physical_block p s' l'" if "(s', l') \<noteq> (s, l)" for s' l'
    using that q(3) wf assms(3)
    by (auto simp: bp_get_physical_block_def prepared_entry_def Let_def grow_def nth_append nth_list_update
        empty_entry_def nat_eq_iff split: option.splits)
  ultimately show ?thesis using q b by auto
qed

definition demo_hp :: pool_hparams where
  "demo_hp = \<lparr>ph_n_layer = 1, ph_n_head = 1, ph_head_dim = 4, ph_n_embd_k_gqa = 4, ph_n_embd_v_gqa = 4\<rparr>"

definition raw_pool :: block_pool where
  "raw_pool = \<lparr>bp_block_size = 0, bp_num_blocks = 0, bp_n_layer = 0, bp_n_head = 0, bp_head_dim = 0,
     bp_k_pool = [], bp_v_pool = [], bp_blocks = [], bp_free = {}, bp_tables = []\<rparr>"

lemma init_pool_inv:
  assumes "bp_init nt hp n b p = Some (r, q)" "bp_tables p = []"
  shows "pool_inv q \<and> bp_free q = {0..<int n} \<and> bp_num_blocks q = n"
  using assms
  by (auto simp: bp_init_def Let_def check_bind_Some_iff pool_inv_def tables_ok_def blocks_agree_def
      id_ok_def free_info_def image_int_atLeastLessThan)

definition demo_pool :: "nat \<Rightarrow> block_pool" where
  "demo_pool n = snd (the (bp_init (\<lambda>_ _. Some 64) demo_hp n 16 raw_pool))"

lemma demo_pool: "pool_inv (demo_pool n)" "bp_free (demo_pool n) = {0..<int n}" "bp_tables (demo_pool n) = []"
proof -
  obtain r q where q: "bp_init (\<lambda>_ _. Some 64) demo_hp n 16 raw_pool = Some (r, q)"
    by (simp add: bp_init_def Let_def check_def)
  moreover have "bp_tables q = []"
    using q by (auto simp: bp_init_def Let_def check_def raw_pool_def split: if_splits)
  ultimately show "pool_inv (demo_pool n)" "bp_free (demo_pool n) = {0..<int n}" "bp_tables (demo_pool n) = []"
    using init_pool_inv [OF q] by (simp_all add: demo_pool_def raw_pool_def)
qed

theorem add_block_to_sequence_maps_witness:
  "\<exists>q. bp_add_block_to_sequence 5 2 (demo_pool 4) = Some (Min {0..<4}, q) \<and> bp_get_physical_block q 5 2 = Min {0..<4}"
  using add_block_to_sequence_maps [of "demo_pool 4" 2 5] demo_pool [of 4]
  by (auto simp: bp_get_physical_block_def)

text \<open>(\<open>init\<close>) When every tensor of every layer is created, \<open>init\<close> returns true on an unused
  pool and all blocks are free: the pool is consistent and \<open>n_free_blocks\<close> is the number of blocks.
  When a tensor cannot be created the assertion stops the program.\<close>

theorem init_establishes:
  assumes "bp_tables p = []" "0 < ph_n_layer hp"
  shows "(case bp_init nt hp n b p of
      None \<Rightarrow> nt (ph_n_embd_k_gqa hp) (b * n) = None \<or> nt (ph_n_embd_v_gqa hp) (b * n) = None
    | Some (r, q) \<Rightarrow> r \<and> pool_inv q \<and> bp_n_free_blocks q = n
        \<and> bp_memory_size q = ph_n_layer hp * (the (nt (ph_n_embd_k_gqa hp) (b * n)) + the (nt (ph_n_embd_v_gqa hp) (b * n))))"
proof (cases "bp_init nt hp n b p")
  case None
  then show ?thesis by (auto simp: bp_init_def Let_def check_def split: if_splits)
next
  case (Some rq)
  obtain r q where rq: "rq = (r, q)" by (cases rq)
  with Some have "r" and kv: "\<exists>k. nt (ph_n_embd_k_gqa hp) (b * n) = Some k" "\<exists>v. nt (ph_n_embd_v_gqa hp) (b * n) = Some v"
    using assms(2) by (auto simp: bp_init_def Let_def check_bind_Some_iff)
  moreover have "bp_memory_size q = ph_n_layer hp * (the (nt (ph_n_embd_k_gqa hp) (b * n)) + the (nt (ph_n_embd_v_gqa hp) (b * n)))"
    using Some rq kv
    by (auto simp: bp_init_def Let_def check_bind_Some_iff bp_memory_size_def map_replicate_const sum_list_replicate distrib_left)
  ultimately show ?thesis
    using init_pool_inv [of nt hp n b p r q] Some rq assms(1) by (simp add: bp_n_free_blocks_def)
qed

theorem init_establishes_witness:
  "\<exists>q. bp_init (\<lambda>_ _. Some 64) demo_hp 4 16 raw_pool = Some (True, q) \<and> bp_n_free_blocks q = 4"
  using init_establishes [of raw_pool demo_hp "\<lambda>_ _. Some 64" 16 4]
  by (auto simp: raw_pool_def demo_hp_def split: option.splits prod.splits)

text \<open>(\<open>add_block_to_sequence\<close> on an exhausted pool) With no free block the call returns -1,
  leaves every mapping of every sequence as it was, and keeps the pool consistent.\<close>

theorem add_block_exhausted:
  assumes "pool_inv p" "bp_free p = {}" "0 \<le> l"
  shows "\<exists>q. bp_add_block_to_sequence s l p = Some (- 1, q) \<and> pool_inv q
    \<and> (\<forall>s' l'. bp_get_physical_block q s' l' = bp_get_physical_block p s' l')"
proof -
  let ?q = "p\<lparr>bp_tables := om_set s (prepared_entry p s l) (bp_tables p)\<rparr>"
  have "bp_add_block_to_sequence s l p = Some (- 1, ?q)"
    using assms(2) by (simp add: add_block_unfold [OF assms(3)] Let_def bp_allocate_block_def)
  moreover have "bp_get_physical_block ?q s' l' = bp_get_physical_block p s' l'" for s' l'
    using pool_invD(1) [OF assms(1)] assms(3)
    by (auto simp: bp_get_physical_block_def prepared_entry_def Let_def grow_def nth_append
        empty_entry_def split: option.splits)
  ultimately show ?thesis using prepared_entry_inv [OF assms(1)] by blast
qed

theorem add_block_exhausted_witness:
  "\<exists>q. bp_add_block_to_sequence 5 2 (demo_pool 0) = Some (- 1, q) \<and> pool_inv q"
  using add_block_exhausted [of "demo_pool 0" 2 5] demo_pool [of 0] by auto

text \<open>C37: (\<open>remove_sequence\<close>) Removing a sequence frees exactly the blocks that it was the last
  to reference: a block is free afterwards when it was free before or all its references were in
  the removed table. The sequence maps nothing afterwards, the mappings of the other sequences
  are kept, and the pool stays consistent.\<close>

theorem remove_sequence_frees:
  assumes "pool_inv p"
  shows "\<exists>q. bp_remove_sequence s p = Some q \<and> pool_inv q
    \<and> (\<forall>l. bp_get_physical_block q s l = - 1)
    \<and> (\<forall>s' l. s' \<noteq> s \<longrightarrow> bp_get_physical_block q s' l = bp_get_physical_block p s' l)
    \<and> bp_free q = {b. id_ok p b
         \<and> refs (bp_tables p) b = entry_refs (om_find (bp_tables p) s) b}"
proof -
  note wf = pool_invD(1) [OF assms]
  obtain q where q: "bp_remove_sequence s p = Some q" "pool_inv q" "bp_tables q = om_erase s (bp_tables p)"
    "bp_num_blocks q = bp_num_blocks p"
    using bp_remove_sequence_inv [OF assms] by blast
  have "refs (om_erase s (bp_tables p)) b = 0
      \<longleftrightarrow> refs (bp_tables p) b = entry_refs (om_find (bp_tables p) s) b" for b
    using refs_erase [OF wf, of s b] by auto
  then have "bp_free q = {b. id_ok p b \<and> refs (bp_tables p) b = entry_refs (om_find (bp_tables p) s) b}"
    using pool_inv_free_iff [OF q(2)] q(3,4) by (auto simp: id_ok_def)
  with q wf show ?thesis by (auto simp: bp_get_physical_block_def)
qed

theorem remove_sequence_frees_witness:
  "\<exists>q. bp_remove_sequence 3 (demo_pool 4) = Some q \<and> pool_inv q"
  using remove_sequence_frees [of "demo_pool 4" 3] demo_pool(1) [of 4] by blast

lemma om_find_fold_erase:
  "om_wf m \<Longrightarrow> om_wf (fold om_erase ks m) \<and> om_find (fold om_erase ks m) k = (if k \<in> set ks then None else om_find m k)"
  by (induction ks arbitrary: m) auto

lemma refs_fold_erase:
  assumes "om_wf m" "\<And>k t. k \<in> set ks \<Longrightarrow> om_find m k = Some t \<Longrightarrow> bt_map t = []"
  shows "refs (fold om_erase ks m) b = refs m b"
  using assms
proof (induction ks arbitrary: m)
  case (Cons k ks)
  have "entry_refs (om_find m k) b = 0"
    using Cons.prems(2) [of k] by (cases "om_find m k") auto
  then have "refs (om_erase k m) b = refs m b" using refs_erase [OF Cons.prems(1), of k b] by simp
  moreover have "refs (fold om_erase ks (om_erase k m)) b = refs (om_erase k m) b"
    using Cons.prems by (intro Cons.IH) (auto split: if_splits)
  ultimately show ?case by simp
qed simp

text \<open>(\<open>defragment\<close>) Defragmenting drops the empty block tables and nothing else: every
  logical block of every sequence keeps its physical block, no block is freed, and the pool stays
  consistent.\<close>

theorem defragment_keeps:
  assumes "pool_inv p"
  shows "pool_inv (bp_defragment p) \<and> bp_free (bp_defragment p) = bp_free p
    \<and> (\<forall>s l. bp_get_physical_block (bp_defragment p) s l = bp_get_physical_block p s l)
    \<and> (\<forall>s. bp_n_blocks_for_sequence (bp_defragment p) s = bp_n_blocks_for_sequence p s)
    \<and> (\<forall>(s, t) \<in> set (bp_tables (bp_defragment p)). bt_map t \<noteq> [])"
proof -
  let ?ks = "map fst (filter (\<lambda>(s, t). bt_map t = []) (bp_tables p))"
  let ?m = "fold om_erase ?ks (bp_tables p)"
  note wf = pool_invD(1) [OF assms]
  have empty: "k \<in> set ?ks \<longleftrightarrow> (\<exists>t. om_find (bp_tables p) k = Some t \<and> bt_map t = [])" for k
    using om_find_mem_iff [OF wf] by force
  have find: "om_find ?m k = (if k \<in> set ?ks then None else om_find (bp_tables p) k)" and wf': "om_wf ?m" for k
    using om_find_fold_erase [OF wf, of ?ks] by simp_all
  have refs: "refs ?m b = refs (bp_tables p) b" for b
    using empty by (intro refs_fold_erase [OF wf]) auto
  have mem: "(s, t) \<in> set ?m \<longleftrightarrow> (s, t) \<in> set (bp_tables p) \<and> bt_map t \<noteq> []" for s t
    using om_find_mem_iff [OF wf', of s t] om_find_mem_iff [OF wf, of s t] find [of s] empty [of s]
    by auto
  have "pool_inv (bp_defragment p)"
    using assms mem wf' refs
    by (auto simp: pool_inv_def tables_ok_def blocks_agree_def bp_defragment_def id_ok_def Let_def) blast+
  moreover have "bp_get_physical_block (bp_defragment p) s l = bp_get_physical_block p s l" for s l
    using empty [of s]
    by (auto simp: bp_get_physical_block_def bp_defragment_def Let_def find split: option.splits)
  moreover have "bp_n_blocks_for_sequence (bp_defragment p) s = bp_n_blocks_for_sequence p s" for s
    using empty [of s]
    by (auto simp: bp_n_blocks_for_sequence_def bp_defragment_def Let_def find split: option.splits)
  ultimately show ?thesis using mem by (auto simp: bp_defragment_def Let_def)
qed

theorem defragment_keeps_witness: "pool_inv (bp_defragment (demo_pool 4))"
  using defragment_keeps [OF demo_pool(1) [of 4]] by blast

text \<open>
  A block of a consistent pool is free or referenced by an entry: nothing leaks, and no block that
  a sequence uses can be allocated again.
\<close>

lemma free_or_referenced:
  "pool_inv p \<Longrightarrow> id_ok p b \<Longrightarrow> b \<in> bp_free p \<longleftrightarrow> (\<forall>s t. om_find (bp_tables p) s = Some t \<longrightarrow> b \<notin> set (bt_map t))"
proof -
  assume inv: "pool_inv p" and b: "id_ok p b"
  have "refs ts b = 0 \<longleftrightarrow> (\<forall>(s, t) \<in> set ts. b \<notin> set (bt_map t))" for ts
    by (induction ts) (auto simp: count_list_0_iff)
  then show ?thesis
    using inv b om_find_mem_iff [OF pool_invD(1) [OF inv]] by (fastforce simp: pool_inv_free_iff)
qed

end
