(* ===== verification/Ubatch.thy ===== *)
theory Ubatch
  imports Kv_Cells
begin

text \<open>
  The data that the batch, cache and graph code exchange: the micro-batch \<^verbatim>\<open>llama_ubatch\<close>
  (src/llama-batch.h), the slot of cells chosen for one (\<^verbatim>\<open>llama_kv_cache::slot_info\<close>,
  src/llama-kv-cache.h), and the sliding-window mask of src/llama-hparams.h. The pointers of a
  \<^verbatim>\<open>llama_ubatch\<close> are lists here (a null pointer the empty one, an embedding the bit patterns of its floats); a read behind their end is \<open>None\<close> (\<open>vget\<close>).
\<close>

record ubatch =
  ub_equal_seqs :: bool
  ub_n_tokens :: nat
  ub_n_seq_tokens :: nat
  ub_n_seqs :: nat
  ub_n_seqs_unq :: nat
  ub_n_pos :: nat
  ub_token :: "llama_token list"
  ub_embd :: "int list"
  ub_pos :: "llama_pos list"
  ub_n_seq_id :: "nat list"
  ub_seq_id :: "llama_seq_id list list"
  ub_seq_id_unq :: "llama_seq_id list"
  ub_seq_idx :: "int list"
  ub_output :: "bool list"

definition ub_is_pos_2d :: "ubatch \<Rightarrow> bool" where
  "ub_is_pos_2d ub \<longleftrightarrow> ub_n_pos ub \<ge> 3"

section \<open>Slots\<close>

record slot_info =
  si_s0 :: nat
  si_s1 :: nat
  si_strm :: "nat list"
  si_idxs :: "nat list list"

definition si_none :: slot_info where
  "si_none = \<lparr>si_s0 = 0, si_s1 = 0, si_strm = [], si_idxs = []\<rparr>"

definition si_empty :: "slot_info \<Rightarrow> bool" where
  "si_empty si \<longleftrightarrow> si_idxs si = []"

definition si_n_stream :: "slot_info \<Rightarrow> nat" where
  "si_n_stream si = length (si_strm si)"

definition si_size :: "slot_info \<Rightarrow> nat option" where
  "si_size si = do {
     check (length (si_idxs si) = length (si_strm si));
     check (si_idxs si \<noteq> []);
     Some (length (si_idxs si ! 0)) }"

definition si_head :: "slot_info \<Rightarrow> nat option" where
  "si_head si = do {
     check (length (si_idxs si) = 1);
     check (si_idxs si ! 0 \<noteq> []);
     Some (si_idxs si ! 0 ! 0) }"

definition si_is_contiguous :: "slot_info \<Rightarrow> bool" where
  "si_is_contiguous si =
     (if si_idxs si = [] \<or> si_idxs si ! 0 = [] then True
      else if length (si_idxs si) > 1 then False
      else let h = si_idxs si ! 0 ! 0
           in list_all (\<lambda>i. si_idxs si ! 0 ! i = h + i) [0..<length (si_idxs si ! 0)])"

section \<open>The sliding-window mask\<close>

datatype llama_swa_type = SWA_NONE | SWA_STANDARD | SWA_CHUNKED | SWA_SYMMETRIC

text \<open>A chunked window of size 0 divides by zero.\<close>

definition is_masked_swa :: "nat \<Rightarrow> llama_swa_type \<Rightarrow> llama_pos \<Rightarrow> llama_pos \<Rightarrow> bool option" where
  "is_masked_swa n_swa swa_type p0 p1 = do {
     check (p0 \<ge> 0 \<and> p1 \<ge> 0);
     (case swa_type of
        SWA_NONE \<Rightarrow> Some False
      | SWA_STANDARD \<Rightarrow> Some (p1 - p0 \<ge> int n_swa)
      | SWA_CHUNKED \<Rightarrow> do { check (n_swa \<noteq> 0); Some (p0 < (p1 div int n_swa) * int n_swa) }
      | SWA_SYMMETRIC \<Rightarrow>
          (let half_n_swa = int n_swa div 2; pos_diff = p1 - p0
           in Some (pos_diff < - half_n_swa \<or> pos_diff > half_n_swa))) }"

end
