(* ===== verification/Kv_Cache.thy ===== *)
theory Kv_Cache
  imports Kv_Cells_Query Block_Pool Ubatch
begin

text \<open>
  \<^verbatim>\<open>llama_kv_cache\<close> (src/llama-kv-cache.cpp, src/llama-kv-cache.h): the metadata of the KV cache.
  Every stream has its cells and a search head; a sequence id belongs to one stream. With paged
  attention the operations act on a block pool instead. The tensors are not modelled: an operation
  here is the part of the C++ method that reads and writes the bookkeeping.
\<close>

section \<open>State\<close>

record kv_cache =
  kv_v_trans :: bool
  kv_use_paged :: bool
  kv_pool :: "block_pool option"
  kv_bt_gpu :: "int list option"
  kv_max_blocks :: nat
  kv_n_seq_max :: nat
  kv_n_stream :: nat
  kv_n_pad :: nat
  kv_n_swa :: nat
  kv_swa_type :: llama_swa_type
  kv_n_pos_per_embd :: nat
  kv_v_heads :: "nat list"
  kv_v_cells :: "kv_cells list"
  kv_seq_to_stream :: "nat list"
  kv_ssrc :: "nat list"
  kv_sdst :: "nat list"

text \<open>
  The constructor's bookkeeping for a cache without a block pool; the tensors it creates and the
  pool's tensors are left out.
\<close>

definition kv_create :: "bool \<Rightarrow> bool \<Rightarrow> nat \<Rightarrow> nat \<Rightarrow> nat \<Rightarrow> nat \<Rightarrow> llama_swa_type \<Rightarrow> nat \<Rightarrow> kv_cache option" where
  "kv_create v_trans unified kv_size n_seq_max n_pad n_swa swa_type n_pos_per_embd = do {
     check (n_pad \<noteq> 0);
     check (kv_size mod n_pad = 0);
     let n_stream = (if unified then 1 else n_seq_max);
     check (n_stream = 1 \<or> n_stream = n_seq_max);
     let s2s = replicate LLAMA_MAX_SEQ 0;
     let s2s = (if n_stream > 1 then [0..<n_stream] else s2s);
     Some \<lparr>kv_v_trans = v_trans, kv_use_paged = False, kv_pool = None, kv_bt_gpu = None,
       kv_max_blocks = 0, kv_n_seq_max = n_seq_max, kv_n_stream = n_stream, kv_n_pad = n_pad,
       kv_n_swa = n_swa, kv_swa_type = swa_type, kv_n_pos_per_embd = n_pos_per_embd,
       kv_v_heads = replicate n_stream 0, kv_v_cells = replicate n_stream (kc_resize kv_size kc_new),
       kv_seq_to_stream = s2s, kv_ssrc = [], kv_sdst = []\<rparr> }"

definition kv_paged :: "kv_cache \<Rightarrow> bool" where
  "kv_paged kv \<longleftrightarrow> kv_use_paged kv \<and> kv_pool kv \<noteq> None"

definition kv_seq_valid :: "kv_cache \<Rightarrow> llama_seq_id \<Rightarrow> bool" where
  "kv_seq_valid kv s \<longleftrightarrow> 0 \<le> s \<and> nat s < length (kv_seq_to_stream kv)"

definition kv_stream_of :: "kv_cache \<Rightarrow> llama_seq_id \<Rightarrow> nat option" where
  "kv_stream_of kv s = do { check (0 \<le> s); vget (kv_seq_to_stream kv) (nat s) }"

definition kv_put :: "nat \<Rightarrow> kv_cells \<Rightarrow> nat \<Rightarrow> kv_cache \<Rightarrow> kv_cache" where
  "kv_put st c h kv = kv\<lparr>kv_v_cells := (kv_v_cells kv)[st := c], kv_v_heads := (kv_v_heads kv)[st := h]\<rparr>"

definition kv_clear :: "kv_cache \<Rightarrow> kv_cache option" where
  "kv_clear kv = foldM (\<lambda>s kv. do {
     c \<leftarrow> vget (kv_v_cells kv) s;
     h \<leftarrow> vget (kv_v_heads kv) s;
     Some (kv_put s (kc_reset c) 0 kv) }) [0..<kv_n_stream kv] kv"

section \<open>Sequence operations\<close>

definition pos_lo :: "llama_pos \<Rightarrow> llama_pos" where
  "pos_lo p0 = (if p0 < 0 then 0 else p0)"

definition pos_hi :: "llama_pos \<Rightarrow> llama_pos" where
  "pos_hi p1 = (if p1 < 0 then i32_max else p1)"

text \<open>A freed cell is remembered when it is the first one; the head only moves back to it.\<close>

definition new_head_upd :: "bool \<Rightarrow> nat \<Rightarrow> kv_cells \<Rightarrow> nat \<Rightarrow> nat" where
  "new_head_upd freed i c nh = (if freed \<and> nh = kc_size c then i else nh)"

definition head_back :: "nat \<Rightarrow> nat \<Rightarrow> nat \<Rightarrow> nat" where
  "head_back n nh h = (if nh \<noteq> n \<and> nh < h then nh else h)"

definition seq_rm_body :: "llama_seq_id \<Rightarrow> llama_pos \<Rightarrow> llama_pos \<Rightarrow> nat \<Rightarrow> kv_cells \<times> nat \<Rightarrow> (kv_cells \<times> nat) option" where
  "seq_rm_body s p0 p1 i cn = (case cn of (c, nh) \<Rightarrow> do {
     b \<leftarrow> kc_pos_in c i p0 p1;
     if \<not> b then Some (c, nh)
     else do {
       has \<leftarrow> kc_seq_has c i s;
       if \<not> has then Some (c, nh)
       else do {
         (r, c) \<leftarrow> kc_seq_rm i s c;
         Some (c, new_head_upd r i c nh) } } })"

definition any_rm_body :: "llama_pos \<Rightarrow> llama_pos \<Rightarrow> nat \<Rightarrow> kv_cells \<times> nat \<Rightarrow> (kv_cells \<times> nat) option" where
  "any_rm_body p0 p1 i cn = (case cn of (c, nh) \<Rightarrow> do {
     b \<leftarrow> kc_pos_in c i p0 p1;
     if \<not> b then Some (c, nh)
     else do {
       c \<leftarrow> kc_rm i c;
       Some (c, new_head_upd True i c nh) } })"

text \<open>
  In paged mode the loops over the block tables erase the entry of the iterator twice, first
  inside \<^verbatim>\<open>remove_sequence\<close> and then with the invalidated iterator: undefined behaviour as soon
  as one entry is to be removed.
\<close>

definition kv_seq_rm :: "llama_seq_id \<Rightarrow> llama_pos \<Rightarrow> llama_pos \<Rightarrow> kv_cache \<Rightarrow> (bool \<times> kv_cache) option" where
  "kv_seq_rm seq_id p0 p1 kv = do {
     check (seq_id = - 1 \<or> kv_seq_valid kv seq_id);
     let p0 = pos_lo p0;
     let p1 = pos_hi p1;
     if kv_paged kv then do {
       pool \<leftarrow> kv_pool kv;
       if seq_id = - 1 then do { check (bp_tables pool = []); Some (True, kv) }
       else if p0 = 0 \<and> p1 = i32_max then do {
         pool \<leftarrow> bp_remove_sequence seq_id pool;
         Some (True, kv\<lparr>kv_pool := Some (pool\<lparr>bp_tables := om_erase seq_id (bp_tables pool)\<rparr>)\<rparr>) }
       else Some (True, kv) }
     else if seq_id \<ge> 0 then do {
       st \<leftarrow> kv_stream_of kv seq_id;
       c \<leftarrow> vget (kv_v_cells kv) st;
       h \<leftarrow> vget (kv_v_heads kv) st;
       (c, nh) \<leftarrow> foldM (seq_rm_body seq_id p0 p1) [0..<kc_size c] (c, kc_size c);
       Some (True, kv_put st c (head_back (kc_size c) nh h) kv) }
     else do {
       kv \<leftarrow> foldM (\<lambda>st kv. do {
         c \<leftarrow> vget (kv_v_cells kv) st;
         h \<leftarrow> vget (kv_v_heads kv) st;
         (c, nh) \<leftarrow> foldM (any_rm_body p0 p1) [0..<kc_size c] (c, kc_size c);
         Some (kv_put st c (head_back (kc_size c) nh h) kv) }) [0..<kv_n_stream kv] kv;
       Some (True, kv) } }"

definition kv_get_size :: "kv_cache \<Rightarrow> nat option" where
  "kv_get_size kv = do { st \<leftarrow> vget (kv_seq_to_stream kv) 0; c \<leftarrow> vget (kv_v_cells kv) st; Some (kc_size c) }"

definition seq_cp_body :: "llama_seq_id \<Rightarrow> llama_seq_id \<Rightarrow> llama_pos \<Rightarrow> llama_pos \<Rightarrow> nat \<Rightarrow> kv_cells \<Rightarrow> kv_cells option" where
  "seq_cp_body src dst p0 p1 i c = do {
     b \<leftarrow> kc_pos_in c i p0 p1;
     if \<not> b then Some c
     else do {
       has \<leftarrow> kc_seq_has c i src;
       if has then kc_seq_add i dst c else Some c } }"

definition cross_cp_body :: "kv_cells \<Rightarrow> llama_seq_id \<Rightarrow> llama_seq_id \<Rightarrow> nat \<Rightarrow> kv_cells \<Rightarrow> kv_cells option" where
  "cross_cp_body c0 src dst i c = do {
     has \<leftarrow> kc_seq_has c0 i src;
     if \<not> has then Some c
     else do {
       pos \<leftarrow> kc_pos_get c0 i;
       shift \<leftarrow> kc_get_shift c0 i;
       ext \<leftarrow> kc_ext_get c0 i;
       check (shift = 0 \<or> 0 \<le> pos - shift \<and> i32_ok (pos - shift));
       let pos = pos - shift;
       c \<leftarrow> kc_pos_set i pos c;
       c \<leftarrow> kc_seq_add i dst c;
       c \<leftarrow> (if shift \<noteq> 0 then do { (r, c) \<leftarrow> kc_pos_add i shift c; Some c } else Some c);
       kc_ext_set i ext c } }"

definition inc_ref :: "int \<Rightarrow> block_info list \<Rightarrow> block_info list" where
  "inc_ref b bs = (if b \<ge> 0 \<and> nat b < length bs
     then bs[nat b := (bs ! nat b)\<lparr>bi_ref_count := bi_ref_count (bs ! nat b) + 1\<rparr>] else bs)"

definition kv_seq_cp_paged :: "llama_seq_id \<Rightarrow> llama_seq_id \<Rightarrow> block_pool \<Rightarrow> block_pool" where
  "kv_seq_cp_paged src dst pool =
     (case om_find (bp_tables pool) src of
        None \<Rightarrow> pool
      | Some t \<Rightarrow>
          (let t = t\<lparr>bt_seq_id := dst\<rparr>
           in pool\<lparr>bp_tables := om_set dst t (bp_tables pool),
                   bp_blocks := fold inc_ref (bt_map t) (bp_blocks pool)\<rparr>))"

definition kv_seq_cp :: "llama_seq_id \<Rightarrow> llama_seq_id \<Rightarrow> llama_pos \<Rightarrow> llama_pos \<Rightarrow> kv_cache \<Rightarrow> kv_cache option" where
  "kv_seq_cp src dst p0 p1 kv = do {
     check (kv_seq_valid kv src);
     check (kv_seq_valid kv dst);
     if kv_paged kv then do {
       pool \<leftarrow> kv_pool kv;
       Some (kv\<lparr>kv_pool := Some (kv_seq_cp_paged src dst pool)\<rparr>) }
     else do {
       s0 \<leftarrow> kv_stream_of kv src;
       s1 \<leftarrow> kv_stream_of kv dst;
       if s0 = s1 then do {
         c \<leftarrow> vget (kv_v_cells kv) s0;
         if src = dst then Some kv
         else do {
           c \<leftarrow> foldM (seq_cp_body src dst (pos_lo p0) (pos_hi p1)) [0..<kc_size c] c;
           Some (kv\<lparr>kv_v_cells := (kv_v_cells kv)[s0 := c]\<rparr>) } }
       else do {
         n \<leftarrow> kv_get_size kv;
         check (\<not> (p0 > 0 \<and> p0 + 1 < int n));
         check (\<not> (p1 > 0 \<and> p1 + 1 < int n));
         let kv = kv\<lparr>kv_ssrc := kv_ssrc kv @ [s0], kv_sdst := kv_sdst kv @ [s1]\<rparr>;
         c0 \<leftarrow> vget (kv_v_cells kv) s0;
         c1 \<leftarrow> vget (kv_v_cells kv) s1;
         c1 \<leftarrow> foldM (cross_cp_body c0 src dst) [0..<kc_size c0] (kc_reset c1);
         h0 \<leftarrow> vget (kv_v_heads kv) s0;
         Some (kv_put s1 c1 h0 kv) } } }"

definition seq_keep_body :: "llama_seq_id \<Rightarrow> nat \<Rightarrow> kv_cells \<times> nat \<Rightarrow> (kv_cells \<times> nat) option" where
  "seq_keep_body s i cn = (case cn of (c, nh) \<Rightarrow> do {
     (r, c) \<leftarrow> kc_seq_keep i s c;
     Some (c, new_head_upd r i c nh) })"

definition kv_seq_keep :: "llama_seq_id \<Rightarrow> kv_cache \<Rightarrow> kv_cache option" where
  "kv_seq_keep seq_id kv = do {
     check (kv_seq_valid kv seq_id);
     if kv_paged kv then do {
       pool \<leftarrow> kv_pool kv;
       check (\<forall>(s, t) \<in> set (bp_tables pool). s = seq_id);
       Some kv }
     else do {
       st \<leftarrow> kv_stream_of kv seq_id;
       c \<leftarrow> vget (kv_v_cells kv) st;
       h \<leftarrow> vget (kv_v_heads kv) st;
       (c, nh) \<leftarrow> foldM (seq_keep_body seq_id) [0..<kc_size c] (c, kc_size c);
       Some (kv_put st c (head_back (kc_size c) nh h) kv) } }"

definition seq_add_body :: "llama_seq_id \<Rightarrow> llama_pos \<Rightarrow> llama_pos \<Rightarrow> llama_pos \<Rightarrow> nat \<Rightarrow> kv_cells \<times> nat \<Rightarrow> (kv_cells \<times> nat) option" where
  "seq_add_body s p0 p1 shift i cn = (case cn of (c, nh) \<Rightarrow> do {
     b \<leftarrow> kc_pos_in c i p0 p1;
     if \<not> b then Some (c, nh)
     else do {
       has \<leftarrow> kc_seq_has c i s;
       if \<not> has then Some (c, nh)
       else do {
         (r, c) \<leftarrow> kc_pos_add i shift c;
         Some (c, new_head_upd r i c nh) } } })"

definition kv_seq_add :: "llama_seq_id \<Rightarrow> llama_pos \<Rightarrow> llama_pos \<Rightarrow> llama_pos \<Rightarrow> kv_cache \<Rightarrow> kv_cache option" where
  "kv_seq_add seq_id p0 p1 shift kv = do {
     check (kv_seq_valid kv seq_id);
     check (kv_n_pos_per_embd kv = 1);
     st \<leftarrow> kv_stream_of kv seq_id;
     c \<leftarrow> vget (kv_v_cells kv) st;
     h \<leftarrow> vget (kv_v_heads kv) st;
     if shift = 0 then Some kv
     else let p0 = pos_lo p0; p1 = pos_hi p1 in
       if p0 = p1 then Some kv
       else do {
         (c, nh) \<leftarrow> foldM (seq_add_body seq_id p0 p1 shift) [0..<kc_size c] (c, kc_size c);
         Some (kv_put st c (if nh \<noteq> kc_size c then nh else 0) kv) } }"

definition seq_div_body :: "llama_seq_id \<Rightarrow> llama_pos \<Rightarrow> llama_pos \<Rightarrow> int \<Rightarrow> nat \<Rightarrow> kv_cells \<Rightarrow> kv_cells option" where
  "seq_div_body s p0 p1 d i c = do {
     b \<leftarrow> kc_pos_in c i p0 p1;
     if \<not> b then Some c
     else do {
       has \<leftarrow> kc_seq_has c i s;
       if has then kc_pos_div i d c else Some c } }"

definition kv_seq_div :: "llama_seq_id \<Rightarrow> llama_pos \<Rightarrow> llama_pos \<Rightarrow> int \<Rightarrow> kv_cache \<Rightarrow> kv_cache option" where
  "kv_seq_div seq_id p0 p1 d kv = do {
     check (kv_seq_valid kv seq_id);
     check (kv_n_pos_per_embd kv = 1);
     st \<leftarrow> kv_stream_of kv seq_id;
     c \<leftarrow> vget (kv_v_cells kv) st;
     if d = 1 then Some kv
     else let p0 = pos_lo p0; p1 = pos_hi p1 in
       if p0 = p1 then Some kv
       else do {
         c \<leftarrow> foldM (seq_div_body seq_id p0 p1 d) [0..<kc_size c] c;
         Some (kv\<lparr>kv_v_cells := (kv_v_cells kv)[st := c]\<rparr>) } }"

definition kv_seq_pos_min :: "kv_cache \<Rightarrow> llama_seq_id \<Rightarrow> llama_pos option" where
  "kv_seq_pos_min kv s = do {
     check (kv_seq_valid kv s);
     if kv_paged kv then do {
       pool \<leftarrow> kv_pool kv;
       Some (case om_find (bp_tables pool) s of
         None \<Rightarrow> - 1 | Some t \<Rightarrow> if bt_n_tokens t = 0 then - 1 else 0) }
     else do {
       st \<leftarrow> kv_stream_of kv s;
       c \<leftarrow> vget (kv_v_cells kv) st;
       kc_seq_pos_min c s } }"

definition kv_seq_pos_max :: "kv_cache \<Rightarrow> llama_seq_id \<Rightarrow> llama_pos option" where
  "kv_seq_pos_max kv s = do {
     check (kv_seq_valid kv s);
     if kv_paged kv then do {
       pool \<leftarrow> kv_pool kv;
       Some (case om_find (bp_tables pool) s of
         None \<Rightarrow> - 1 | Some t \<Rightarrow> if bt_n_tokens t = 0 then - 1 else int (bt_n_tokens t) - 1) }
     else do {
       st \<leftarrow> kv_stream_of kv s;
       c \<leftarrow> vget (kv_v_cells kv) st;
       kc_seq_pos_max c s } }"

end
