(* ===== verification/Kv_Cache_Inv.thy ===== *)
theory Kv_Cache_Inv
  imports Kv_Cache
begin

text \<open>
  The invariant of the cell-based cache and the common part of its loops over the cells of a
  stream: a loop whose step changes at most the current cell maps a function over the view.
\<close>

section \<open>Invariant\<close>

text \<open>An occupied cell belongs to a sequence: stronger than \<open>cells_inv\<close>, and kept by the cache.\<close>

definition cell_live :: "kv_cell \<Rightarrow> bool" where
  "cell_live x \<longleftrightarrow> (c_pos x \<noteq> - 1 \<longrightarrow> c_seq x \<noteq> {})"

definition cells_live :: "kv_cells \<Rightarrow> bool" where
  "cells_live c \<longleftrightarrow> (\<forall>x \<in> set (kc_view c). cell_live x)"

definition kv_size :: "kv_cache \<Rightarrow> nat" where
  "kv_size kv = kc_size (kv_v_cells kv ! 0)"

definition kv_inv :: "kv_cache \<Rightarrow> bool" where
  "kv_inv kv \<longleftrightarrow> 0 < kv_n_stream kv
     \<and> length (kv_v_cells kv) = kv_n_stream kv \<and> length (kv_v_heads kv) = kv_n_stream kv
     \<and> (\<forall>st \<in> set (kv_seq_to_stream kv). st < kv_n_stream kv)
     \<and> 0 < length (kv_seq_to_stream kv) \<and> length (kv_seq_to_stream kv) \<le> LLAMA_MAX_SEQ
     \<and> 0 < kv_size kv \<and> kv_size kv < 2 ^ 31
     \<and> (\<forall>c \<in> set (kv_v_cells kv). cells_inv c \<and> cells_live c \<and> kc_size c = kv_size kv)
     \<and> (\<forall>h \<in> set (kv_v_heads kv). h \<le> kv_size kv)"

definition kv_views :: "kv_cache \<Rightarrow> kv_cell list list" where
  "kv_views kv = map kc_view (kv_v_cells kv)"

lemma kv_invD:
  assumes "kv_inv kv" "st < kv_n_stream kv"
  shows "cells_inv (kv_v_cells kv ! st)" "cells_live (kv_v_cells kv ! st)"
    "kc_size (kv_v_cells kv ! st) = kv_size kv" "0 < kv_size kv" "kv_size kv < 2 ^ 31"
    "kv_v_heads kv ! st \<le> kv_size kv"
    "st < length (kv_v_cells kv)" "st < length (kv_v_heads kv)"
proof -
  show len: "st < length (kv_v_cells kv)" "st < length (kv_v_heads kv)"
    using assms by (simp_all add: kv_inv_def)
  then show "cells_inv (kv_v_cells kv ! st)" "cells_live (kv_v_cells kv ! st)"
    "kc_size (kv_v_cells kv ! st) = kv_size kv" "0 < kv_size kv" "kv_size kv < 2 ^ 31"
    "kv_v_heads kv ! st \<le> kv_size kv"
    using assms(1) nth_mem [OF len(1)] nth_mem [OF len(2)] unfolding kv_inv_def by blast+
qed

lemma kv_stream_ex:
  assumes "kv_inv kv" "kv_seq_valid kv s"
  shows "\<exists>st. kv_stream_of kv s = Some st \<and> st < kv_n_stream kv" "seq_id_ok s"
  using assms by (auto simp: kv_inv_def kv_seq_valid_def kv_stream_of_def check_def seq_id_ok_def nat_less_iff)

lemma kv_stream_of_put [simp]: "kv_stream_of (kv_put st c h kv) = kv_stream_of kv"
  by (simp add: fun_eq_iff kv_stream_of_def kv_put_def)

lemma kv_put_sel [simp]:
  "kv_n_stream (kv_put st c h kv) = kv_n_stream kv"
  "kv_seq_to_stream (kv_put st c h kv) = kv_seq_to_stream kv"
  "kv_v_cells (kv_put st c h kv) = (kv_v_cells kv)[st := c]"
  "kv_v_heads (kv_put st c h kv) = (kv_v_heads kv)[st := h]"
  "kv_paged (kv_put st c h kv) = kv_paged kv"
  "kv_n_swa (kv_put st c h kv) = kv_n_swa kv"
  "kv_swa_type (kv_put st c h kv) = kv_swa_type kv"
  by (simp_all add: kv_put_def kv_paged_def)

lemma cells_live_nth: "cells_live c \<longleftrightarrow> (\<forall>i < kc_size c. cell_live (cell_at c i))"
  by (auto simp: cells_live_def kc_view_def)

lemma kc_size_view: "kc_view c = v \<Longrightarrow> kc_size c = length v"
  by auto

lemma kv_inv_put:
  assumes "kv_inv kv" "st < kv_n_stream kv" "cells_inv c" "cells_live c"
    "kc_size c = kv_size kv" "h \<le> kv_size kv"
  shows "kv_inv (kv_put st c h kv)"
proof -
  have c: "cells_inv d \<and> cells_live d \<and> kc_size d = kv_size kv" if "d \<in> set ((kv_v_cells kv)[st := c])" for d
    using set_update_subset_insert [of "kv_v_cells kv" st c] that assms unfolding kv_inv_def by blast
  have h: "g \<le> kv_size kv" if "g \<in> set ((kv_v_heads kv)[st := h])" for g
    using set_update_subset_insert [of "kv_v_heads kv" st h] that assms unfolding kv_inv_def by blast
  have "0 < length (kv_v_cells kv)" using assms(1) by (simp add: kv_inv_def)
  then have "(kv_v_cells kv)[st := c] ! 0 \<in> set ((kv_v_cells kv)[st := c])" by (intro nth_mem) simp
  then have "kv_size (kv_put st c h kv) = kv_size kv"
    using c by (simp add: kv_size_def)
  then show ?thesis using assms(1) c h by (simp add: kv_inv_def)
qed

lemma kv_views_put: "kv_views (kv_put st c h kv) = (kv_views kv)[st := kc_view c]"
  by (simp add: kv_views_def map_update)

text \<open>A changed cell list that is a \<open>kv_put\<close> with the old head.\<close>

lemma kv_cells_put:
  "kv\<lparr>kv_v_cells := (kv_v_cells kv)[st := c]\<rparr> = kv_put st c (kv_v_heads kv ! st) kv"
  by (simp add: kv_put_def)

section \<open>Loops over the cells\<close>

lemma map_prefix_step:
  "k < length V \<Longrightarrow> (map f (take k V) @ drop k V)[k := f (V ! k)] = map f (take (Suc k) V) @ drop (Suc k) V"
  by (rule list_eq_nthI) (auto simp: nth_list_update_if nth_append min_def)

lemma cells_loop:
  fixes get :: "'s \<Rightarrow> kv_cells"
  assumes "cells_inv (get s)" "J 0 s"
    and step: "\<And>i u. \<lbrakk>i < kc_size (get s); cells_inv (get u); kc_size (get u) = kc_size (get s);
        cell_at (get u) i = cell_at (get s) i; J i u\<rbrakk>
      \<Longrightarrow> \<exists>t. body i u = Some t \<and> cells_inv (get t)
            \<and> kc_view (get t) = (kc_view (get u))[i := f (cell_at (get s) i)] \<and> J (Suc i) t"
  shows "\<exists>t. foldM body [0..<kc_size (get s)] s = Some t \<and> cells_inv (get t)
    \<and> kc_view (get t) = map f (kc_view (get s)) \<and> J (kc_size (get s)) t"
proof -
  let ?V = "kc_view (get s)"
  define I where "I k u \<longleftrightarrow> cells_inv (get u) \<and> kc_view (get u) = map f (take k ?V) @ drop k ?V \<and> J k u" for k u
  have "\<exists>t. foldM body [0..<kc_size (get s)] s = Some t \<and> I (kc_size (get s)) t"
  proof (rule foldM_upt_total)
    show "I 0 s" using assms(1,2) by (simp add: I_def)
    fix k u
    assume k: "k < kc_size (get s)" and I: "I k u"
    have sz: "kc_size (get u) = kc_size (get s)"
      using kc_size_view [of "get u" "map f (take k ?V) @ drop k ?V"] I k by (simp add: I_def)
    have "kc_view (get u) ! k = ?V ! k" using I k by (simp add: I_def nth_append)
    then have "cell_at (get u) k = cell_at (get s) k" using k sz by simp
    with step [OF k _ sz] I obtain t where t: "body k u = Some t" "cells_inv (get t)"
      "kc_view (get t) = (kc_view (get u))[k := f (cell_at (get s) k)]" "J (Suc k) t"
      by (auto simp: I_def)
    have "kc_view (get t) = map f (take (Suc k) ?V) @ drop (Suc k) ?V"
      using map_prefix_step [of k ?V f] k I t(3) by (simp add: I_def)
    with t show "\<exists>t. body k u = Some t \<and> I (Suc k) t" by (auto simp: I_def)
  qed simp
  then show ?thesis by (auto simp: I_def)
qed

text \<open>The first cell that satisfies \<open>P\<close>, or the number of cells, tracked by \<open>new_head_upd\<close>.\<close>

definition first_idx :: "('a \<Rightarrow> bool) \<Rightarrow> 'a list \<Rightarrow> nat" where
  "first_idx P V = length (takeWhile (\<lambda>x. \<not> P x) V)"

definition nh_at :: "('a \<Rightarrow> bool) \<Rightarrow> 'a list \<Rightarrow> nat \<Rightarrow> nat" where
  "nh_at P V k = (if first_idx P V < k then first_idx P V else length V)"

lemma first_idx_le [simp]: "first_idx P V \<le> length V"
  by (simp add: first_idx_def length_takeWhile_le)

lemma first_idx_hit: "first_idx P V < length V \<Longrightarrow> P (V ! first_idx P V)"
  unfolding first_idx_def using nth_length_takeWhile by fastforce

lemma first_idx_before: "i < first_idx P V \<Longrightarrow> \<not> P (V ! i)"
  unfolding first_idx_def by (metis nth_mem set_takeWhileD takeWhile_nth)

lemma nh_at_step:
  assumes "k < length V" "kc_size c = length V"
  shows "new_head_upd (P (V ! k)) k c (nh_at P V k) = nh_at P V (Suc k)"
  using assms first_idx_hit [of P V] first_idx_before [of k P V]
  by (cases "first_idx P V" k rule: linorder_cases) (auto simp: new_head_upd_def nh_at_def)

lemma nh_at_0 [simp]: "nh_at P V 0 = length V" and nh_at_all [simp]: "nh_at P V (length V) = first_idx P V"
  using first_idx_le [of P V] by (auto simp: nh_at_def not_less intro: antisym)

lemma head_back_le: "h \<le> n \<Longrightarrow> head_back n nh h \<le> n"
  by (auto simp: head_back_def)

lemma head_back_le_head: "head_back n nh h \<le> h"
  by (auto simp: head_back_def)

text \<open>A loop that also tracks the first freed cell.\<close>

lemma cells_head_loop:
  assumes "cells_inv c"
    and step: "\<And>i d nh. \<lbrakk>i < kc_size c; cells_inv d; kc_size d = kc_size c; cell_at d i = cell_at c i\<rbrakk>
      \<Longrightarrow> \<exists>e. body i (d, nh) = Some (e, new_head_upd (P (cell_at c i)) i e nh)
            \<and> cells_inv e \<and> kc_view e = (kc_view d)[i := f (cell_at c i)]"
  shows "\<exists>e. foldM body [0..<kc_size c] (c, kc_size c) = Some (e, first_idx P (kc_view c))
    \<and> cells_inv e \<and> kc_view e = map f (kc_view c)"
proof -
  let ?J = "\<lambda>k s. snd s = nh_at P (kc_view c) k"
  have "\<exists>t. foldM body [0..<kc_size (fst (c, kc_size c))] (c, kc_size c) = Some t \<and> cells_inv (fst t)
    \<and> kc_view (fst t) = map f (kc_view (fst (c, kc_size c))) \<and> ?J (kc_size (fst (c, kc_size c))) t"
  proof (rule cells_loop)
    fix i and u :: "kv_cells \<times> nat"
    assume a: "i < kc_size (fst (c, kc_size c))" "cells_inv (fst u)" "kc_size (fst u) = kc_size (fst (c, kc_size c))"
      "cell_at (fst u) i = cell_at (fst (c, kc_size c)) i" "?J i u"
    then obtain e where e: "body i (fst u, snd u) = Some (e, new_head_upd (P (cell_at c i)) i e (snd u))"
      "cells_inv e" "kc_view e = (kc_view (fst u))[i := f (cell_at c i)]"
      using step [of i "fst u" "snd u"] by auto
    have sz: "kc_size e = length (kc_view c)" using kc_size_view [OF e(3)] a(3) by simp
    have "new_head_upd (P (cell_at c i)) i e (snd u) = nh_at P (kc_view c) (Suc i)"
      using nh_at_step [of i "kc_view c" e P] sz a(1,5) by simp
    with e show "\<exists>t. body i u = Some t \<and> cells_inv (fst t)
      \<and> kc_view (fst t) = (kc_view (fst u))[i := f (cell_at (fst (c, kc_size c)) i)] \<and> ?J (Suc i) t"
      by (cases u) auto
  qed (use assms(1) in simp_all)
  then show ?thesis using nh_at_all [of P "kc_view c"] by (auto simp del: nh_at_all)
qed

lemma view_update_same: "i < kc_size d \<Longrightarrow> cell_at d i = x \<Longrightarrow> kc_view d = (kc_view d)[i := x]"
  by (metis list_update_nth nth_view)

lemma cells_live_map:
  assumes "cells_live c" "kc_view d = map f (kc_view c)" "\<And>x. x \<in> set (kc_view c) \<Longrightarrow> cell_live x \<Longrightarrow> cell_live (f x)"
  shows "cells_live d"
  using assms by (auto simp: cells_live_def)

end
