(* ===== verification/Kv_Cache_Ops.thy ===== *)
theory Kv_Cache_Ops
  imports Kv_Cache_Inv
begin

text \<open>
  The sequence operations of the cell-based cache against its view: each is a map over the cells
  of one stream (\<open>spec_\<dots>\<close>), keeps \<open>kv_inv\<close>, and moves the search head as documented.
\<close>

section \<open>Specifications of the operations on one cell\<close>

definition in_range :: "llama_pos \<Rightarrow> llama_pos \<Rightarrow> kv_cell \<Rightarrow> bool" where
  "in_range p0 p1 x \<longleftrightarrow> pos_lo p0 \<le> c_pos x \<and> c_pos x < pos_hi p1"

definition spec_rm :: "llama_seq_id \<Rightarrow> llama_pos \<Rightarrow> llama_pos \<Rightarrow> kv_cell \<Rightarrow> kv_cell" where
  "spec_rm s p0 p1 x = (if in_range p0 p1 x \<and> s \<in> c_seq x then x_seq_rm s x else x)"

definition spec_rm_any :: "llama_pos \<Rightarrow> llama_pos \<Rightarrow> kv_cell \<Rightarrow> kv_cell" where
  "spec_rm_any p0 p1 x = (if in_range p0 p1 x then empty_cell else x)"

definition spec_add :: "llama_seq_id \<Rightarrow> llama_pos \<Rightarrow> llama_pos \<Rightarrow> llama_pos \<Rightarrow> kv_cell \<Rightarrow> kv_cell" where
  "spec_add s p0 p1 d x = (if in_range p0 p1 x \<and> s \<in> c_seq x then x_pos_add d x else x)"

definition spec_div :: "llama_seq_id \<Rightarrow> llama_pos \<Rightarrow> llama_pos \<Rightarrow> int \<Rightarrow> kv_cell \<Rightarrow> kv_cell" where
  "spec_div s p0 p1 d x = (if in_range p0 p1 x \<and> s \<in> c_seq x then x_pos_div d x else x)"

definition spec_cp :: "llama_seq_id \<Rightarrow> llama_seq_id \<Rightarrow> llama_pos \<Rightarrow> llama_pos \<Rightarrow> kv_cell \<Rightarrow> kv_cell" where
  "spec_cp src dst p0 p1 x =
     (if in_range p0 p1 x \<and> src \<in> c_seq x then set_seq x (insert dst (c_seq x)) else x)"

text \<open>The cells an operation empties.\<close>

definition frees :: "(kv_cell \<Rightarrow> kv_cell) \<Rightarrow> kv_cell \<Rightarrow> bool" where
  "frees f x \<longleftrightarrow> c_pos x \<noteq> - 1 \<and> c_pos (f x) = - 1"

lemma pos_lo_nonneg [simp]: "0 \<le> pos_lo p"
  by (simp add: pos_lo_def)

lemma in_range_pos: "in_range p0 p1 x \<Longrightarrow> 0 \<le> c_pos x"
  by (auto simp: in_range_def pos_lo_def split: if_splits)

lemma kc_pos_in_cell: "i < kc_size d \<Longrightarrow> cell_at d i = x
    \<Longrightarrow> kc_pos_in d i (pos_lo p0) (pos_hi p1) = Some (in_range p0 p1 x)"
  by (auto simp: kc_pos_in_def in_range_def)

lemma kc_seq_has_cell: "i < kc_size d \<Longrightarrow> seq_id_ok s \<Longrightarrow> cell_at d i = x \<Longrightarrow> kc_seq_has d i s = Some (s \<in> c_seq x)"
  by (auto simp: kc_seq_has_def bs_test_def seq_id_ok_def)

lemma effect_some:
  "effect d i y hs e \<Longrightarrow> kc_size d = n \<Longrightarrow> cells_inv e \<and> kc_view e = (kc_view d)[i := y] \<and> kc_size e = n"
  using effectD by blast

section \<open>Steps of the loops\<close>

lemma seq_rm_step:
  assumes "i < kc_size d" "cells_inv d" "cell_at d i = x" "seq_id_ok s"
  shows "\<exists>e. seq_rm_body s (pos_lo p0) (pos_hi p1) i (d, nh) = Some (e, new_head_upd (frees (spec_rm s p0 p1) x) i e nh)
    \<and> cells_inv e \<and> kc_view e = (kc_view d)[i := spec_rm s p0 p1 x]"
proof (cases "in_range p0 p1 x \<and> s \<in> c_seq x")
  case True
  then have "s \<in> kc_seq d ! i" using assms(3) by auto
  from kc_seq_rm_spec [OF assms(2,1) this] obtain e where
    e: "kc_seq_rm i s d = Some (kc_seq d ! i - {s} = {}, e)" "effect d i (x_seq_rm s x) (kc_has_shift d) e"
    using assms(3) by auto
  have "c_seq x = kc_seq d ! i" "0 \<le> c_pos x" using assms(3) in_range_pos True by auto
  then have "frees (spec_rm s p0 p1) x \<longleftrightarrow> kc_seq d ! i - {s} = {}"
    using True by (auto simp: frees_def spec_rm_def x_seq_rm_def)
  with True e effectD [OF e(2)] assms show ?thesis
    by (auto simp: seq_rm_body_def kc_pos_in_cell kc_seq_has_cell spec_rm_def)
next
  case False
  then have "spec_rm s p0 p1 x = x" "\<not> frees (spec_rm s p0 p1) x" by (auto simp: spec_rm_def frees_def)
  with False assms view_update_same [OF assms(1,3)] show ?thesis
    by (auto simp: seq_rm_body_def kc_pos_in_cell kc_seq_has_cell new_head_upd_def)
qed

lemma any_rm_step:
  assumes "i < kc_size d" "cells_inv d" "cell_at d i = x"
  shows "\<exists>e. any_rm_body (pos_lo p0) (pos_hi p1) i (d, nh) = Some (e, new_head_upd (frees (spec_rm_any p0 p1) x) i e nh)
    \<and> cells_inv e \<and> kc_view e = (kc_view d)[i := spec_rm_any p0 p1 x]"
proof (cases "in_range p0 p1 x")
  case True
  then have "kc_pos d ! i \<noteq> - 1" using assms(3) in_range_pos by fastforce
  from kc_rm_spec [OF assms(2,1) this] obtain e where
    e: "kc_rm i d = Some e" "effect d i empty_cell (kc_has_shift d) e" by auto
  have "frees (spec_rm_any p0 p1) x" using True in_range_pos [OF True] by (simp add: frees_def spec_rm_any_def)
  with True e effectD [OF e(2)] assms show ?thesis
    by (auto simp: any_rm_body_def kc_pos_in_cell spec_rm_any_def)
next
  case False
  then have "spec_rm_any p0 p1 x = x" "\<not> frees (spec_rm_any p0 p1) x" by (auto simp: spec_rm_any_def frees_def)
  with False assms view_update_same [OF assms(1,3)] show ?thesis
    by (auto simp: any_rm_body_def kc_pos_in_cell new_head_upd_def)
qed

lemma seq_keep_step:
  assumes "i < kc_size d" "cells_inv d" "cell_at d i = x" "seq_id_ok s" "cell_live x"
  shows "\<exists>e. seq_keep_body s i (d, nh) = Some (e, new_head_upd (frees (x_seq_keep s) x) i e nh)
    \<and> cells_inv e \<and> kc_view e = (kc_view d)[i := x_seq_keep s x]"
proof -
  have x: "c_seq x = kc_seq d ! i" "c_pos x = kc_pos d ! i" using assms(3) by auto
  then have "kc_seq d ! i = {} \<Longrightarrow> kc_pos d ! i = - 1" using assms(5) by (auto simp: cell_live_def)
  from kc_seq_keep_spec [OF assms(2,1,4) this] obtain e where
    e: "kc_seq_keep i s d = Some (kc_seq d ! i \<noteq> {} \<and> s \<notin> kc_seq d ! i, e)"
      "effect d i (x_seq_keep s x) (kc_has_shift d) e"
    using assms(3) by auto
  have "frees (x_seq_keep s) x \<longleftrightarrow> kc_seq d ! i \<noteq> {} \<and> s \<notin> kc_seq d ! i"
    using x assms(5) cells_invD(3) [OF assms(2,1)] by (auto simp: frees_def x_seq_keep_def cell_live_def)
  with e effectD [OF e(2)] show ?thesis by (auto simp: seq_keep_body_def)
qed

text \<open>A shift must not leave the 32-bit range.\<close>

definition shift_safe :: "llama_pos \<Rightarrow> kv_cell \<Rightarrow> bool" where
  "shift_safe d x \<longleftrightarrow> i32_ok (c_pos x + d) \<and> i32_ok (c_shift x + d)"

definition div_safe :: "int \<Rightarrow> kv_cell \<Rightarrow> bool" where
  "div_safe d x \<longleftrightarrow> i32_ok (c_shift x + (c_pos x - c_pos x div d))"

lemma seq_add_step:
  assumes "i < kc_size c" "cells_inv c" "cell_at c i = x" "seq_id_ok s"
    "in_range p0 p1 x \<Longrightarrow> s \<in> c_seq x \<Longrightarrow> shift_safe d x"
  shows "\<exists>e. seq_add_body s (pos_lo p0) (pos_hi p1) d i (c, nh) = Some (e, new_head_upd (frees (spec_add s p0 p1 d) x) i e nh)
    \<and> cells_inv e \<and> kc_view e = (kc_view c)[i := spec_add s p0 p1 d x]"
proof (cases "in_range p0 p1 x \<and> s \<in> c_seq x")
  case True
  have x: "c_pos x = kc_pos c ! i" "c_shift x = kc_shift c ! i" "0 \<le> c_pos x"
    using assms(3) in_range_pos True by auto
  then have "kc_pos c ! i \<noteq> - 1" "i32_ok (kc_pos c ! i + d)" "i32_ok (kc_shift c ! i + d)"
    using True assms(5) by (auto simp: shift_safe_def)
  from kc_pos_add_spec [OF assms(2,1) this] obtain e where
    e: "kc_pos_add i d c = Some (kc_pos c ! i + d < 0, e)" "effect c i (x_pos_add d x) True e"
    using assms(3) by auto
  have "frees (spec_add s p0 p1 d) x \<longleftrightarrow> kc_pos c ! i + d < 0"
    using True x by (auto simp: frees_def spec_add_def x_pos_add_def)
  with True e effectD [OF e(2)] assms show ?thesis
    by (auto simp: seq_add_body_def kc_pos_in_cell kc_seq_has_cell spec_add_def)
next
  case False
  then have "spec_add s p0 p1 d x = x" "\<not> frees (spec_add s p0 p1 d) x" by (auto simp: spec_add_def frees_def)
  with False assms view_update_same [OF assms(1,3)] show ?thesis
    by (auto simp: seq_add_body_def kc_pos_in_cell kc_seq_has_cell new_head_upd_def)
qed

lemma seq_div_step:
  assumes "i < kc_size c" "cells_inv c" "cell_at c i = x" "seq_id_ok s" "0 < d"
    "in_range p0 p1 x \<Longrightarrow> s \<in> c_seq x \<Longrightarrow> div_safe d x"
  shows "\<exists>e. seq_div_body s (pos_lo p0) (pos_hi p1) d i c = Some e
    \<and> cells_inv e \<and> kc_view e = (kc_view c)[i := spec_div s p0 p1 d x]"
proof (cases "in_range p0 p1 x \<and> s \<in> c_seq x")
  case True
  have x: "c_pos x = kc_pos c ! i" "c_shift x = kc_shift c ! i" "0 \<le> c_pos x"
    using assms(3) in_range_pos True by auto
  then have "kc_pos c ! i \<noteq> - 1" "i32_ok (kc_shift c ! i + (kc_pos c ! i - kc_pos c ! i div d))"
    using True assms(6) by (auto simp: div_safe_def)
  from kc_pos_div_spec [OF assms(2,1) this(1) assms(5) this(2)] obtain e where
    e: "kc_pos_div i d c = Some e" "effect c i (x_pos_div d x) True e"
    using assms(3) by auto
  with True effectD [OF e(2)] assms show ?thesis
    by (auto simp: seq_div_body_def kc_pos_in_cell kc_seq_has_cell spec_div_def)
next
  case False
  then have "spec_div s p0 p1 d x = x" by (auto simp: spec_div_def)
  with False assms view_update_same [OF assms(1,3)] show ?thesis
    by (auto simp: seq_div_body_def kc_pos_in_cell kc_seq_has_cell)
qed

lemma seq_cp_step:
  assumes "i < kc_size c" "cells_inv c" "cell_at c i = x" "seq_id_ok src" "seq_id_ok dst"
    "in_range p0 p1 x \<Longrightarrow> src \<in> c_seq x \<Longrightarrow> dst \<notin> c_seq x"
  shows "\<exists>e. seq_cp_body src dst (pos_lo p0) (pos_hi p1) i c = Some e
    \<and> cells_inv e \<and> kc_view e = (kc_view c)[i := spec_cp src dst p0 p1 x]"
proof (cases "in_range p0 p1 x \<and> src \<in> c_seq x")
  case True
  then have "kc_pos c ! i \<noteq> - 1" "dst \<notin> kc_seq c ! i"
    using assms(3,6) in_range_pos [of p0 p1 x] by auto
  from kc_seq_add_spec [OF assms(2,1) this(1) assms(5) this(2)] obtain e where
    e: "kc_seq_add i dst c = Some e" "effect c i (set_seq x (insert dst (c_seq x))) (kc_has_shift c) e"
    using assms(3) by auto
  with True effectD [OF e(2)] assms show ?thesis
    by (auto simp: seq_cp_body_def kc_pos_in_cell kc_seq_has_cell spec_cp_def)
next
  case False
  then have "spec_cp src dst p0 p1 x = x" by (auto simp: spec_cp_def)
  with False assms view_update_same [OF assms(1,3)] show ?thesis
    by (auto simp: seq_cp_body_def kc_pos_in_cell kc_seq_has_cell)
qed

section \<open>The operations on the cache\<close>

text \<open>
  The result of an operation on stream \<open>st\<close>: the view of the stream is mapped through \<open>f\<close>, its head
  becomes \<open>h\<close>, and nothing else changes.
\<close>

definition maps_stream :: "(kv_cell \<Rightarrow> kv_cell) \<Rightarrow> nat \<Rightarrow> nat \<Rightarrow> kv_cache \<Rightarrow> kv_cache \<Rightarrow> bool" where
  "maps_stream f st h kv kv' \<longleftrightarrow> (\<exists>c. kv' = kv_put st c h kv
     \<and> kv_views kv' = (kv_views kv)[st := map f (kv_views kv ! st)])"

lemma frees_live: "x \<in> set (kc_view c) \<Longrightarrow> cells_live c \<Longrightarrow> cell_live x"
  by (simp add: cells_live_def)

lemma maps_stream_put:
  assumes "kv_inv kv" "st < kv_n_stream kv" "cells_inv c" "kc_view c = map f (kc_view (kv_v_cells kv ! st))"
    "h \<le> kv_size kv" "\<And>x. cell_live x \<Longrightarrow> cell_live (f x)"
  shows "kv_inv (kv_put st c h kv)" "maps_stream f st h kv (kv_put st c h kv)"
proof -
  note kv = kv_invD [OF assms(1,2)]
  have "cells_live c" using kv(2) assms(4,6) by (auto simp: cells_live_def)
  moreover have "kc_size c = kv_size kv" using kc_size_view [OF assms(4)] kv(3) by simp
  ultimately show "kv_inv (kv_put st c h kv)" using assms by (intro kv_inv_put)
  show "maps_stream f st h kv (kv_put st c h kv)"
    using assms(4) kv(7) by (auto simp: maps_stream_def kv_views_put kv_views_def map_update)
qed

text \<open>What the operation on one stream gives, from the lemma of its loop.\<close>

lemma head_loop_put:
  assumes "kv_inv kv" "st < kv_n_stream kv"
    and step: "\<And>i d nh x. \<lbrakk>i < kc_size d; cells_inv d; cell_at d i = x; x \<in> set (kc_view (kv_v_cells kv ! st))\<rbrakk>
      \<Longrightarrow> \<exists>e. body i (d, nh) = Some (e, new_head_upd (frees f x) i e nh)
            \<and> cells_inv e \<and> kc_view e = (kc_view d)[i := f x]"
  defines "c \<equiv> kv_v_cells kv ! st"
  shows "\<exists>e. foldM body [0..<kc_size c] (c, kc_size c) = Some (e, first_idx (frees f) (kc_view c))
    \<and> cells_inv e \<and> kc_view e = map f (kc_view c) \<and> kc_size e = kv_size kv"
proof -
  note kv = kv_invD [OF assms(1,2), folded c_def]
  have "\<exists>e. foldM body [0..<kc_size c] (c, kc_size c) = Some (e, first_idx (frees f) (kc_view c))
    \<and> cells_inv e \<and> kc_view e = map f (kc_view c)"
  proof (rule cells_head_loop [OF kv(1)])
    fix i d nh
    assume i: "i < kc_size c" "cells_inv d" "kc_size d = kc_size c" "cell_at d i = cell_at c i"
    then have "cell_at c i \<in> set (kc_view c)" by (metis length_view nth_mem nth_view)
    with step [of i d "cell_at c i" nh] i show "\<exists>e. body i (d, nh) = Some (e, new_head_upd (frees f (cell_at c i)) i e nh)
      \<and> cells_inv e \<and> kc_view e = (kc_view d)[i := f (cell_at c i)]"
      by (simp add: c_def)
  qed
  then show ?thesis using kv(3) by (metis kc_size_view length_map length_view)
qed

lemma plain_loop:
  assumes "cells_inv c"
    and step: "\<And>i d x. \<lbrakk>i < kc_size d; cells_inv d; cell_at d i = x; x \<in> set (kc_view c)\<rbrakk>
      \<Longrightarrow> \<exists>e. body i d = Some e \<and> cells_inv e \<and> kc_view e = (kc_view d)[i := f x]"
  shows "\<exists>e. foldM body [0..<kc_size c] c = Some e \<and> cells_inv e \<and> kc_view e = map f (kc_view c)"
proof -
  have "\<exists>e. foldM body [0..<kc_size (id c)] c = Some e \<and> cells_inv (id e)
    \<and> kc_view (id e) = map f (kc_view (id c)) \<and> True"
  proof (rule cells_loop)
    fix i u
    assume i: "i < kc_size (id c)" "cells_inv (id u)" "kc_size (id u) = kc_size (id c)" "cell_at (id u) i = cell_at (id c) i"
    then have "cell_at c i \<in> set (kc_view c)" by (metis id_apply length_view nth_mem nth_view)
    with step [of i u "cell_at c i"] i show "\<exists>t. body i u = Some t \<and> cells_inv (id t)
      \<and> kc_view (id t) = (kc_view (id u))[i := f (cell_at (id c) i)] \<and> True"
      by simp
  qed (use assms(1) in simp_all)
  then show ?thesis by simp
qed

lemma cell_live_specs:
  "cell_live x \<Longrightarrow> cell_live (spec_rm s p0 p1 x)" "cell_live x \<Longrightarrow> cell_live (spec_rm_any p0 p1 x)"
  "cell_live x \<Longrightarrow> cell_live (x_seq_keep s x)" "cell_live x \<Longrightarrow> cell_live (spec_add s p0 p1 d x)"
  "cell_live x \<Longrightarrow> cell_live (spec_div s p0 p1 e x)" "cell_live x \<Longrightarrow> cell_live (spec_cp s t p0 p1 x)"
  by (auto simp: cell_live_def spec_rm_def spec_rm_any_def x_seq_rm_def x_seq_keep_def spec_add_def x_pos_add_def
      spec_div_def x_pos_div_def spec_cp_def empty_cell_def)

lemma kv_seq_rm_spec:
  assumes "kv_inv kv" "\<not> kv_paged kv" "kv_stream_of kv s = Some st" "kv_seq_valid kv s"
  shows "\<exists>kv'. kv_seq_rm s p0 p1 kv = Some (True, kv') \<and> kv_inv kv'
    \<and> maps_stream (spec_rm s p0 p1) st
        (head_back (kv_size kv) (first_idx (frees (spec_rm s p0 p1)) (kv_views kv ! st)) (kv_v_heads kv ! st)) kv kv'"
proof -
  have st: "st < kv_n_stream kv" "seq_id_ok s" using kv_stream_ex [OF assms(1,4)] assms(3) by auto
  note kv = kv_invD [OF assms(1) st(1)]
  let ?c = "kv_v_cells kv ! st" and ?f = "spec_rm s p0 p1"
  let ?h = "head_back (kv_size kv) (first_idx (frees ?f) (kc_view ?c)) (kv_v_heads kv ! st)"
  obtain e where e: "foldM (seq_rm_body s (pos_lo p0) (pos_hi p1)) [0..<kc_size ?c] (?c, kc_size ?c)
      = Some (e, first_idx (frees ?f) (kc_view ?c))"
    "cells_inv e" "kc_view e = map ?f (kc_view ?c)" "kc_size e = kv_size kv"
    using head_loop_put [OF assms(1) st(1)] seq_rm_step st(2) by blast
  have "kv_seq_rm s p0 p1 kv = Some (True, kv_put st e ?h kv)"
    using assms st e kv(7,8) by (simp add: kv_seq_rm_def Let_def kv_seq_valid_def vget_def)
  moreover have "?h \<le> kv_size kv" using head_back_le kv(6) by blast
  ultimately show ?thesis
    using maps_stream_put [OF assms(1) st(1) e(2,3)] cell_live_specs(1) kv(7) by (fastforce simp: kv_views_def)
qed

lemma kv_seq_keep_spec:
  assumes "kv_inv kv" "\<not> kv_paged kv" "kv_stream_of kv s = Some st" "kv_seq_valid kv s"
  shows "\<exists>kv'. kv_seq_keep s kv = Some kv' \<and> kv_inv kv'
    \<and> maps_stream (x_seq_keep s) st
        (head_back (kv_size kv) (first_idx (frees (x_seq_keep s)) (kv_views kv ! st)) (kv_v_heads kv ! st)) kv kv'"
proof -
  have st: "st < kv_n_stream kv" "seq_id_ok s" using kv_stream_ex [OF assms(1,4)] assms(3) by auto
  note kv = kv_invD [OF assms(1) st(1)]
  let ?c = "kv_v_cells kv ! st" and ?f = "x_seq_keep s"
  let ?h = "head_back (kv_size kv) (first_idx (frees ?f) (kc_view ?c)) (kv_v_heads kv ! st)"
  obtain e where e: "foldM (seq_keep_body s) [0..<kc_size ?c] (?c, kc_size ?c)
      = Some (e, first_idx (frees ?f) (kc_view ?c))"
    "cells_inv e" "kc_view e = map ?f (kc_view ?c)" "kc_size e = kv_size kv"
    using head_loop_put [OF assms(1) st(1)] seq_keep_step st(2) frees_live kv(2) by blast
  have "kv_seq_keep s kv = Some (kv_put st e ?h kv)"
    using assms st e kv(7,8) by (simp add: kv_seq_keep_def Let_def vget_def)
  moreover have "?h \<le> kv_size kv" using head_back_le kv(6) by blast
  ultimately show ?thesis
    using maps_stream_put [OF assms(1) st(1) e(2,3)] cell_live_specs(3) kv(7) by (fastforce simp: kv_views_def)
qed

lemma maps_stream_same:
  "kv_inv kv \<Longrightarrow> st < kv_n_stream kv \<Longrightarrow> (\<And>x. x \<in> set (kv_views kv ! st) \<Longrightarrow> f x = x)
     \<Longrightarrow> maps_stream f st (kv_v_heads kv ! st) kv kv"
  using kv_invD(7,8) [of kv st] map_idI [of "kv_views kv ! st" f]
  by (auto simp: maps_stream_def kv_put_def intro!: exI [of _ "kv_v_cells kv ! st"])

lemma kv_seq_add_spec:
  assumes "kv_inv kv" "kv_stream_of kv s = Some st" "kv_seq_valid kv s" "kv_n_pos_per_embd kv = 1"
    and safe: "\<And>x. x \<in> set (kv_views kv ! st) \<Longrightarrow> in_range p0 p1 x \<Longrightarrow> s \<in> c_seq x \<Longrightarrow> shift_safe d x"
    and d: "d \<noteq> 0" "pos_lo p0 \<noteq> pos_hi p1"
  shows "\<exists>kv'. kv_seq_add s p0 p1 d kv = Some kv' \<and> kv_inv kv'
    \<and> maps_stream (spec_add s p0 p1 d) st
        (let j = first_idx (frees (spec_add s p0 p1 d)) (kv_views kv ! st) in if j < kv_size kv then j else 0) kv kv'"
proof -
  have st: "st < kv_n_stream kv" "seq_id_ok s" using kv_stream_ex [OF assms(1,3)] assms(2) by auto
  note kv = kv_invD [OF assms(1) st(1)]
  let ?c = "kv_v_cells kv ! st" and ?f = "spec_add s p0 p1 d"
  let ?j = "first_idx (frees ?f) (kc_view ?c)"
  let ?h = "if ?j < kv_size kv then ?j else 0"
  have step: "\<exists>e. seq_add_body s (pos_lo p0) (pos_hi p1) d i (c, nh) = Some (e, new_head_upd (frees ?f x) i e nh)
    \<and> cells_inv e \<and> kc_view e = (kc_view c)[i := ?f x]"
    if "i < kc_size c" "cells_inv c" "cell_at c i = x" "x \<in> set (kc_view ?c)" for i c nh x
    using seq_add_step [OF that(1-3) st(2), of p0 p1 d nh] safe that(4) kv(7) by (simp add: kv_views_def)
  obtain e where e: "foldM (seq_add_body s (pos_lo p0) (pos_hi p1) d) [0..<kc_size ?c] (?c, kc_size ?c) = Some (e, ?j)"
    "cells_inv e" "kc_view e = map ?f (kc_view ?c)" "kc_size e = kv_size kv"
    using head_loop_put [of kv st "seq_add_body s (pos_lo p0) (pos_hi p1) d" ?f, OF assms(1) st(1) step] by blast
  have "?j \<le> kv_size kv" using first_idx_le [of "frees ?f" "kc_view ?c"] kv(3) by simp
  then have "kv_seq_add s p0 p1 d kv = Some (kv_put st e ?h kv)"
    using assms st e kv(7,8) by (auto simp: kv_seq_add_def Let_def vget_def)
  moreover have "?h \<le> kv_size kv" by simp
  ultimately show ?thesis
    using maps_stream_put [OF assms(1) st(1) e(2,3), of ?h] cell_live_specs(4) [of _ s p0 p1 d] kv(7)
    by (simp add: kv_views_def Let_def)
qed

lemma kv_seq_div_spec:
  assumes "kv_inv kv" "kv_stream_of kv s = Some st" "kv_seq_valid kv s" "kv_n_pos_per_embd kv = 1"
    and safe: "\<And>x. x \<in> set (kv_views kv ! st) \<Longrightarrow> in_range p0 p1 x \<Longrightarrow> s \<in> c_seq x \<Longrightarrow> div_safe d x"
    and d: "0 < d"
  shows "\<exists>kv'. kv_seq_div s p0 p1 d kv = Some kv' \<and> kv_inv kv'
    \<and> maps_stream (spec_div s p0 p1 d) st (kv_v_heads kv ! st) kv kv'"
proof -
  have st: "st < kv_n_stream kv" "seq_id_ok s" using kv_stream_ex [OF assms(1,3)] assms(2) by auto
  note kv = kv_invD [OF assms(1) st(1)]
  let ?c = "kv_v_cells kv ! st" and ?f = "spec_div s p0 p1 d"
  show ?thesis
  proof (cases "d = 1 \<or> pos_lo p0 = pos_hi p1")
    case True
    then have "?f x = x" for x
      by (cases x) (auto simp: spec_div_def in_range_def x_pos_div_def)
    moreover have "kv_seq_div s p0 p1 d kv = Some kv"
      using True assms kv(7) by (auto simp: kv_seq_div_def Let_def vget_def)
    ultimately show ?thesis using maps_stream_same [OF assms(1) st(1), of ?f] assms(1) by auto
  next
    case False
    have step: "\<exists>e. seq_div_body s (pos_lo p0) (pos_hi p1) d i c = Some e
      \<and> cells_inv e \<and> kc_view e = (kc_view c)[i := ?f x]"
      if "i < kc_size c" "cells_inv c" "cell_at c i = x" "x \<in> set (kc_view ?c)" for i c x
      using seq_div_step [OF that(1-3) st(2) d, of p0 p1] safe that(4) kv(7) by (simp add: kv_views_def)
    obtain e where e: "foldM (seq_div_body s (pos_lo p0) (pos_hi p1) d) [0..<kc_size ?c] ?c = Some e"
      "cells_inv e" "kc_view e = map ?f (kc_view ?c)"
      using plain_loop [of ?c "seq_div_body s (pos_lo p0) (pos_hi p1) d" ?f, OF kv(1) step] by blast
    have "kv_seq_div s p0 p1 d kv = Some (kv_put st e (kv_v_heads kv ! st) kv)"
      using False assms st e kv(7,8) by (auto simp: kv_seq_div_def Let_def vget_def kv_cells_put)
    then show ?thesis
      using maps_stream_put [OF assms(1) st(1) e(2,3) kv(6)] cell_live_specs(5) [of _ s p0 p1 d] by simp
  qed
qed

lemma kv_seq_cp_spec:
  assumes "kv_inv kv" "\<not> kv_paged kv" "kv_stream_of kv src = Some st" "kv_stream_of kv dst = Some st"
    "kv_seq_valid kv src" "kv_seq_valid kv dst" "src \<noteq> dst"
    and fresh: "\<And>x. x \<in> set (kv_views kv ! st) \<Longrightarrow> in_range p0 p1 x \<Longrightarrow> src \<in> c_seq x \<Longrightarrow> dst \<notin> c_seq x"
  shows "\<exists>kv'. kv_seq_cp src dst p0 p1 kv = Some kv' \<and> kv_inv kv'
    \<and> maps_stream (spec_cp src dst p0 p1) st (kv_v_heads kv ! st) kv kv'"
proof -
  have st: "st < kv_n_stream kv" "seq_id_ok src" "seq_id_ok dst"
    using kv_stream_ex [OF assms(1,5)] kv_stream_ex [OF assms(1,6)] assms(3) by auto
  note kv = kv_invD [OF assms(1) st(1)]
  let ?c = "kv_v_cells kv ! st" and ?f = "spec_cp src dst p0 p1"
  have step: "\<exists>e. seq_cp_body src dst (pos_lo p0) (pos_hi p1) i c = Some e
      \<and> cells_inv e \<and> kc_view e = (kc_view c)[i := ?f x]"
    if "i < kc_size c" "cells_inv c" "cell_at c i = x" "x \<in> set (kc_view ?c)" for i c x
    using seq_cp_step [OF that(1-3) st(2,3), of p0 p1] fresh that(4) kv(7) by (simp add: kv_views_def)
  obtain e where e: "foldM (seq_cp_body src dst (pos_lo p0) (pos_hi p1)) [0..<kc_size ?c] ?c = Some e"
    "cells_inv e" "kc_view e = map ?f (kc_view ?c)"
    using plain_loop [of ?c "seq_cp_body src dst (pos_lo p0) (pos_hi p1)" ?f, OF kv(1) step] by blast
  have "kv_seq_cp src dst p0 p1 kv = Some (kv_put st e (kv_v_heads kv ! st) kv)"
    using assms st e kv(7,8) by (auto simp: kv_seq_cp_def Let_def vget_def kv_cells_put)
  then show ?thesis
    using maps_stream_put [OF assms(1) st(1) e(2,3) kv(6)] cell_live_specs(6) [of _ src dst p0 p1] by simp
qed

end
