(* ===== verification/Memory_Interface.thy ===== *)
theory Memory_Interface
  imports Kv_Cache_Ops
begin

text \<open>
  The interface \<^verbatim>\<open>llama_memory_i\<close> (src/llama-memory.h) as the context and the server use it: what
  the sequence operations promise about the positions stored per sequence. The clients' facts
  (truncating a sequence to a prefix, erasing it, the continuity that a prefix keeps) are proved
  once, and both the cell cache and the two-cache SWA memory are instances.
\<close>

locale llama_memory =
  fixes inv :: "'m \<Rightarrow> bool"
    and valid :: "'m \<Rightarrow> llama_seq_id \<Rightarrow> bool"
    and positions :: "'m \<Rightarrow> llama_seq_id \<Rightarrow> llama_pos set"
    and rm :: "llama_seq_id \<Rightarrow> llama_pos \<Rightarrow> llama_pos \<Rightarrow> 'm \<Rightarrow> (bool \<times> 'm) option"
    and keep :: "llama_seq_id \<Rightarrow> 'm \<Rightarrow> 'm option"
    and pos_min :: "'m \<Rightarrow> llama_seq_id \<Rightarrow> llama_pos option"
    and pos_max :: "'m \<Rightarrow> llama_seq_id \<Rightarrow> llama_pos option"
  assumes finite_positions: "inv m \<Longrightarrow> finite (positions m s)"
    and positions_nonneg: "inv m \<Longrightarrow> p \<in> positions m s \<Longrightarrow> 0 \<le> p"
    and rm_law: "inv m \<Longrightarrow> valid m s \<Longrightarrow> \<exists>m'. rm s p0 p1 m = Some (True, m') \<and> inv m' \<and> valid m' = valid m
        \<and> (\<forall>t. valid m t \<longrightarrow> positions m' t =
              (if t = s then {p \<in> positions m s. \<not> (pos_lo p0 \<le> p \<and> p < pos_hi p1)} else positions m t))"
    and keep_law: "inv m \<Longrightarrow> valid m s \<Longrightarrow> \<exists>m'. keep s m = Some m' \<and> inv m' \<and> valid m' = valid m
        \<and> positions m' s = positions m s"
    and pos_min_law: "inv m \<Longrightarrow> valid m s \<Longrightarrow>
        pos_min m s = Some (if positions m s = {} then - 1 else Min (positions m s))"
    and pos_max_law: "inv m \<Longrightarrow> valid m s \<Longrightarrow>
        pos_max m s = Some (if positions m s = {} then - 1 else Max (positions m s))"
begin

text \<open>All positions up to the maximum are present from the minimum on.\<close>

definition contiguous :: "'m \<Rightarrow> llama_seq_id \<Rightarrow> bool" where
  "contiguous m s \<longleftrightarrow> (\<forall>p q. p \<in> positions m s \<longrightarrow> q \<in> positions m s \<longrightarrow> {p..q} \<subseteq> positions m s)"

lemma truncate:
  assumes "inv m" "valid m s" "0 \<le> n" "\<forall>p \<in> positions m s. p < i32_max"
  shows "\<exists>m' mx. rm s n (- 1) m = Some (True, m') \<and> inv m' \<and> valid m' = valid m
    \<and> positions m' s = {p \<in> positions m s. p < n} \<and> pos_max m' s = Some mx \<and> mx < n
    \<and> (contiguous m s \<longrightarrow> contiguous m' s)
    \<and> (\<forall>t. valid m t \<longrightarrow> t \<noteq> s \<longrightarrow> positions m' t = positions m t)"
proof -
  obtain m' where m': "rm s n (- 1) m = Some (True, m')" "inv m'" "valid m' = valid m"
    and pos: "\<And>t. valid m t \<Longrightarrow> positions m' t =
        (if t = s then {p \<in> positions m s. \<not> (pos_lo n \<le> p \<and> p < pos_hi (- 1))} else positions m t)"
    using rm_law [OF assms(1,2), of n "- 1"] by blast
  have s: "positions m' s = {p \<in> positions m s. p < n}"
    using pos [OF assms(2)] assms(3,4) by (auto simp: pos_lo_def pos_hi_def)
  have "Max (positions m' s) < n" if "positions m' s \<noteq> {}"
    using Max_in [OF finite_positions [OF m'(2)] that] s by auto
  then obtain mx where "pos_max m' s = Some mx" "mx < n"
    using pos_max_law [OF m'(2), of s] m'(3) assms(2,3) by (cases "positions m' s = {}") auto
  moreover have "contiguous m s \<longrightarrow> contiguous m' s" by (auto simp: contiguous_def s)
  ultimately show ?thesis using m' s pos by auto
qed

lemma erase:
  assumes "inv m" "valid m s" "\<forall>p \<in> positions m s. p < i32_max"
  shows "\<exists>m'. rm s (- 1) (- 1) m = Some (True, m') \<and> inv m' \<and> positions m' s = {}
    \<and> pos_min m' s = Some (- 1) \<and> pos_max m' s = Some (- 1)"
proof -
  obtain m' where m': "rm s (- 1) (- 1) m = Some (True, m')" "inv m'" "valid m' = valid m"
    "positions m' s = {p \<in> positions m s. \<not> (pos_lo (- 1) \<le> p \<and> p < pos_hi (- 1))}"
    using rm_law [OF assms(1,2), of "- 1" "- 1"] assms(2) by (metis (no_types, lifting))
  have "positions m' s = {}"
    using m'(4) positions_nonneg [OF assms(1)] assms(3) by (auto simp: pos_lo_def pos_hi_def)
  then show ?thesis using m' pos_min_law [OF m'(2)] pos_max_law [OF m'(2)] assms(2) by simp
qed

text \<open>Two removals commute, and a repeated removal changes nothing more.\<close>

lemma rm_rm_positions:
  assumes "inv m" "valid m s" "valid m t"
    and "rm s p0 p1 m = Some (True, m1)" "rm t q0 q1 m1 = Some (True, m2)"
    and "rm t q0 q1 m = Some (True, n1)" "rm s p0 p1 n1 = Some (True, n2)"
    and "valid m u"
  shows "positions m2 u = positions n2 u"
proof -
  obtain "inv m1" "valid m1 = valid m" and m1: "\<And>t. valid m t \<Longrightarrow> positions m1 t =
      (if t = s then {p \<in> positions m s. \<not> (pos_lo p0 \<le> p \<and> p < pos_hi p1)} else positions m t)"
    using rm_law [OF assms(1,2), of p0 p1] assms(4) by auto
  moreover obtain "inv n1" "valid n1 = valid m" and n1: "\<And>u. valid m u \<Longrightarrow> positions n1 u =
      (if u = t then {p \<in> positions m t. \<not> (pos_lo q0 \<le> p \<and> p < pos_hi q1)} else positions m u)"
    using rm_law [OF assms(1,3), of q0 q1] assms(6) by auto
  ultimately have
    "positions m2 u = (if u = t then {p \<in> positions m1 t. \<not> (pos_lo q0 \<le> p \<and> p < pos_hi q1)} else positions m1 u)"
    "positions n2 u = (if u = s then {p \<in> positions n1 s. \<not> (pos_lo p0 \<le> p \<and> p < pos_hi p1)} else positions n1 u)"
    using rm_law [of m1 t q0 q1] rm_law [of n1 s p0 p1] assms(2,3,5,7,8) by auto
  then show ?thesis using m1 n1 assms(2,3,8) by auto
qed

end

end
