(* ===== verification/Kv_Cache_Mem.thy ===== *)
theory Kv_Cache_Mem
  imports Memory_Interface
begin

text \<open>
  The cell cache as a \<^verbatim>\<open>llama_memory_i\<close>: the positions of a sequence are read off the view of its
  stream, and the operations act on them as the interface promises.
\<close>

section \<open>Positions per sequence\<close>

definition kv_view_of :: "kv_cache \<Rightarrow> llama_seq_id \<Rightarrow> kv_cell list" where
  "kv_view_of kv s = kv_views kv ! the (kv_stream_of kv s)"

definition kv_positions :: "kv_cache \<Rightarrow> llama_seq_id \<Rightarrow> llama_pos set" where
  "kv_positions kv s = seq_positions (kv_view_of kv s) s"

lemma positions_image: "seq_positions V s = c_pos ` {x \<in> set V. s \<in> c_seq x}"
  by (auto simp: seq_positions_def)

lemma positions_map:
  assumes "\<And>x. t \<in> c_seq (f x) \<longleftrightarrow> P x" "\<And>x. P x \<Longrightarrow> c_pos (f x) = g x"
  shows "seq_positions (map f V) t = g ` {x \<in> set V. P x}"
proof -
  have "seq_positions (map f V) t = (\<lambda>x. c_pos (f x)) ` {x \<in> set V. P x}"
    using assms(1) by (auto simp: positions_image image_iff)
  also have "\<dots> = g ` {x \<in> set V. P x}" by (rule image_cong) (use assms(2) in auto)
  finally show ?thesis .
qed

lemma positions_rm:
  "seq_positions (map (spec_rm s p0 p1) V) t =
    (if t = s then {p \<in> seq_positions V s. \<not> (pos_lo p0 \<le> p \<and> p < pos_hi p1)} else seq_positions V t)"
proof -
  have "seq_positions (map (spec_rm s p0 p1) V) t = c_pos ` {x \<in> set V. t \<in> c_seq x \<and> \<not> (t = s \<and> in_range p0 p1 x)}"
    by (rule positions_map) (auto simp: spec_rm_def x_seq_rm_def split: if_splits)
  then show ?thesis by (auto simp: positions_image in_range_def)
qed

lemma positions_rm_any:
  "seq_positions (map (spec_rm_any p0 p1) V) t = {p \<in> seq_positions V t. \<not> (pos_lo p0 \<le> p \<and> p < pos_hi p1)}"
proof -
  have "seq_positions (map (spec_rm_any p0 p1) V) t = c_pos ` {x \<in> set V. t \<in> c_seq x \<and> \<not> in_range p0 p1 x}"
    by (rule positions_map) (auto simp: spec_rm_any_def split: if_splits)
  then show ?thesis by (auto simp: positions_image in_range_def)
qed

lemma positions_keep:
  "seq_positions (map (x_seq_keep s) V) t = (if t = s then seq_positions V s else {})"
proof -
  have "seq_positions (map (x_seq_keep s) V) t = c_pos ` {x \<in> set V. t = s \<and> s \<in> c_seq x}"
    by (rule positions_map) (auto simp: x_seq_keep_def split: if_splits)
  then show ?thesis by (auto simp: positions_image)
qed

text \<open>The position of a cell after \<open>seq_add\<close> and \<open>seq_div\<close>: a cell shared with \<open>s\<close> moves for all its sequences.\<close>

definition moved :: "llama_seq_id \<Rightarrow> llama_pos \<Rightarrow> llama_pos \<Rightarrow> (llama_pos \<Rightarrow> llama_pos) \<Rightarrow> kv_cell \<Rightarrow> llama_pos" where
  "moved s p0 p1 g x = (if in_range p0 p1 x \<and> s \<in> c_seq x then g (c_pos x) else c_pos x)"

lemma positions_add:
  assumes "\<forall>x \<in> set V. t \<in> c_seq x \<longrightarrow> 0 \<le> c_pos x"
  shows "seq_positions (map (spec_add s p0 p1 d) V) t =
    {q \<in> moved s p0 p1 (\<lambda>p. p + d) ` {x \<in> set V. t \<in> c_seq x}. 0 \<le> q}"
proof -
  have "seq_positions (map (spec_add s p0 p1 d) V) t =
      moved s p0 p1 (\<lambda>p. p + d) ` {x \<in> set V. t \<in> c_seq x \<and> \<not> (in_range p0 p1 x \<and> s \<in> c_seq x \<and> c_pos x + d < 0)}"
    by (rule positions_map) (auto simp: spec_add_def x_pos_add_def moved_def split: if_splits)
  then show ?thesis using assms by (auto simp: moved_def)
qed

lemma positions_div:
  "seq_positions (map (spec_div s p0 p1 d) V) t = moved s p0 p1 (\<lambda>p. p div d) ` {x \<in> set V. t \<in> c_seq x}"
  by (rule positions_map) (auto simp: spec_div_def x_pos_div_def moved_def)

lemma positions_cp:
  "seq_positions (map (spec_cp src dst p0 p1) V) t =
    (if t = dst then seq_positions V dst \<union> {p \<in> seq_positions V src. pos_lo p0 \<le> p \<and> p < pos_hi p1}
     else seq_positions V t)"
proof -
  have "seq_positions (map (spec_cp src dst p0 p1) V) t
      = c_pos ` {x \<in> set V. t \<in> c_seq x \<or> t = dst \<and> in_range p0 p1 x \<and> src \<in> c_seq x}"
    by (rule positions_map) (auto simp: spec_cp_def)
  then show ?thesis by (auto simp: positions_image in_range_def)
qed

text \<open>An operation that maps one stream: what it does to the positions of every sequence.\<close>

lemma maps_stream_sel:
  assumes "maps_stream f st h kv kv'"
  shows "kv_views kv' = (kv_views kv)[st := map f (kv_views kv ! st)]" "kv_stream_of kv' = kv_stream_of kv"
    "kv_seq_valid kv' = kv_seq_valid kv" "kv_paged kv' = kv_paged kv" "kv_v_heads kv' = (kv_v_heads kv)[st := h]"
  using assms by (auto simp: maps_stream_def kv_seq_valid_def fun_eq_iff)

lemma maps_stream_positions:
  assumes "kv_inv kv" "kv_stream_of kv s = Some st" "kv_seq_valid kv s" "maps_stream f st h kv kv'" "kv_seq_valid kv t"
    and "kv_stream_of kv t \<noteq> Some st \<Longrightarrow> g (seq_positions (kv_view_of kv t) t) = seq_positions (kv_view_of kv t) t"
    and "kv_stream_of kv t = Some st \<Longrightarrow> seq_positions (map f (kv_views kv ! st)) t = g (seq_positions (kv_views kv ! st) t)"
  shows "kv_positions kv' t = g (kv_positions kv t)"
proof -
  obtain st' where st': "kv_stream_of kv t = Some st'" "st' < kv_n_stream kv"
    using kv_stream_ex [OF assms(1,5)] by blast
  have len: "length (kv_views kv) = kv_n_stream kv" using assms(1) by (simp add: kv_views_def kv_inv_def)
  note sel = maps_stream_sel [OF assms(4)]
  show ?thesis
  proof (cases "st' = st")
    case True
    then show ?thesis using assms(7) st' len by (simp add: kv_positions_def kv_view_of_def sel)
  next
    case False
    then show ?thesis using assms(6) st' len by (simp add: kv_positions_def kv_view_of_def sel)
  qed
qed

lemma kv_view_nonneg:
  assumes "kv_inv kv" "kv_seq_valid kv s" "x \<in> set (kv_view_of kv s)" "t \<in> c_seq x"
  shows "0 \<le> c_pos x"
proof -
  obtain st where st: "kv_stream_of kv s = Some st" "st < kv_n_stream kv" using kv_stream_ex [OF assms(1,2)] by blast
  note kv = kv_invD [OF assms(1) st(2)]
  have "x \<in> set (kc_view (kv_v_cells kv ! st))" using assms(3) st kv(7) by (simp add: kv_view_of_def kv_views_def)
  then have "cell_ok x" using kv(1) by (auto simp: cells_inv_def)
  then show ?thesis using assms(4) by (auto simp: cell_ok_def)
qed

section \<open>The cell cache is a memory\<close>

definition mem_inv :: "kv_cache \<Rightarrow> bool" where
  "mem_inv kv \<longleftrightarrow> kv_inv kv \<and> \<not> kv_paged kv"

lemma kv_seq_rm_positions:
  assumes "mem_inv kv" "kv_seq_valid kv s"
  shows "\<exists>kv'. kv_seq_rm s p0 p1 kv = Some (True, kv') \<and> mem_inv kv' \<and> kv_seq_valid kv' = kv_seq_valid kv
    \<and> (\<forall>t. kv_seq_valid kv t \<longrightarrow> kv_positions kv' t =
          (if t = s then {p \<in> kv_positions kv s. \<not> (pos_lo p0 \<le> p \<and> p < pos_hi p1)} else kv_positions kv t))"
proof -
  have inv: "kv_inv kv" "\<not> kv_paged kv" using assms(1) by (simp_all add: mem_inv_def)
  obtain st where st: "kv_stream_of kv s = Some st" using kv_stream_ex [OF inv(1) assms(2)] by blast
  obtain kv' h where kv': "kv_seq_rm s p0 p1 kv = Some (True, kv')" "kv_inv kv'" "maps_stream (spec_rm s p0 p1) st h kv kv'"
    using kv_seq_rm_spec [OF inv st assms(2)] by blast
  have "kv_positions kv' t = (\<lambda>P. if t = s then {p \<in> P. \<not> (pos_lo p0 \<le> p \<and> p < pos_hi p1)} else P) (kv_positions kv t)"
    if "kv_seq_valid kv t" for t
    by (rule maps_stream_positions [OF inv(1) st assms(2) kv'(3) that]) (use st in \<open>auto simp: positions_rm\<close>)
  moreover have "mem_inv kv'" "kv_seq_valid kv' = kv_seq_valid kv"
    using kv'(2) maps_stream_sel [OF kv'(3)] inv(2) by (simp_all add: mem_inv_def)
  ultimately show ?thesis using kv'(1) by simp
qed

lemma kv_seq_keep_positions:
  assumes "mem_inv kv" "kv_seq_valid kv s"
  shows "\<exists>kv'. kv_seq_keep s kv = Some kv' \<and> mem_inv kv' \<and> kv_seq_valid kv' = kv_seq_valid kv
    \<and> (\<forall>t. kv_seq_valid kv t \<longrightarrow> kv_positions kv' t =
          (if t = s \<or> kv_stream_of kv t \<noteq> kv_stream_of kv s then kv_positions kv t else {}))"
proof -
  have inv: "kv_inv kv" "\<not> kv_paged kv" using assms(1) by (simp_all add: mem_inv_def)
  obtain st where st: "kv_stream_of kv s = Some st" using kv_stream_ex [OF inv(1) assms(2)] by blast
  obtain kv' h where kv': "kv_seq_keep s kv = Some kv'" "kv_inv kv'" "maps_stream (x_seq_keep s) st h kv kv'"
    using kv_seq_keep_spec [OF inv st assms(2)] by blast
  have "kv_positions kv' t = (\<lambda>P. if t = s \<or> kv_stream_of kv t \<noteq> kv_stream_of kv s then P else {}) (kv_positions kv t)"
    if "kv_seq_valid kv t" for t
    by (rule maps_stream_positions [OF inv(1) st assms(2) kv'(3) that]) (use st in \<open>auto simp: positions_keep\<close>)
  moreover have "mem_inv kv'" "kv_seq_valid kv' = kv_seq_valid kv"
    using kv'(2) maps_stream_sel [OF kv'(3)] inv(2) by (simp_all add: mem_inv_def)
  ultimately show ?thesis using kv'(1) by simp
qed

lemma kv_view_of_cells:
  assumes "kv_inv kv" "kv_seq_valid kv s"
  shows "\<exists>st. kv_stream_of kv s = Some st \<and> st < kv_n_stream kv \<and> kv_view_of kv s = kc_view (kv_v_cells kv ! st)"
  using kv_stream_ex(1) [OF assms] kv_invD(7) [OF assms(1)] by (auto simp: kv_view_of_def kv_views_def)

lemma kv_seq_pos_min_positions:
  assumes "mem_inv kv" "kv_seq_valid kv s"
  shows "kv_seq_pos_min kv s = Some (if kv_positions kv s = {} then - 1 else Min (kv_positions kv s))"
proof -
  have inv: "kv_inv kv" "\<not> kv_paged kv" using assms(1) by (simp_all add: mem_inv_def)
  obtain st where st: "kv_stream_of kv s = Some st" "st < kv_n_stream kv" "kv_view_of kv s = kc_view (kv_v_cells kv ! st)"
    using kv_view_of_cells [OF inv(1) assms(2)] by blast
  show ?thesis
    using kc_seq_pos_min_spec [OF kv_invD(1) [OF inv(1) st(2)] kv_stream_ex(2) [OF inv(1) assms(2)]]
      st kv_invD(7) [OF inv(1) st(2)] assms(2) inv(2)
    by (simp add: kv_seq_pos_min_def kv_positions_def vget_def)
qed

lemma kv_seq_pos_max_positions:
  assumes "mem_inv kv" "kv_seq_valid kv s"
  shows "kv_seq_pos_max kv s = Some (if kv_positions kv s = {} then - 1 else Max (kv_positions kv s))"
proof -
  have inv: "kv_inv kv" "\<not> kv_paged kv" using assms(1) by (simp_all add: mem_inv_def)
  obtain st where st: "kv_stream_of kv s = Some st" "st < kv_n_stream kv" "kv_view_of kv s = kc_view (kv_v_cells kv ! st)"
    using kv_view_of_cells [OF inv(1) assms(2)] by blast
  show ?thesis
    using kc_seq_pos_max_spec [OF kv_invD(1) [OF inv(1) st(2)] kv_stream_ex(2) [OF inv(1) assms(2)]]
      st kv_invD(7) [OF inv(1) st(2)] assms(2) inv(2)
    by (simp add: kv_seq_pos_max_def kv_positions_def vget_def)
qed

text \<open>The positions of a sequence id that is not valid are not stored; the interface asks for none.\<close>

definition mem_positions :: "kv_cache \<Rightarrow> llama_seq_id \<Rightarrow> llama_pos set" where
  "mem_positions kv s = (if kv_seq_valid kv s then kv_positions kv s else {})"

lemma mem_positions_nonneg: "mem_inv kv \<Longrightarrow> p \<in> mem_positions kv s \<Longrightarrow> 0 \<le> p"
  using kv_view_nonneg [of kv s _ s]
  by (auto simp: mem_positions_def kv_positions_def positions_image mem_inv_def split: if_splits)

interpretation kvm: llama_memory mem_inv kv_seq_valid mem_positions kv_seq_rm kv_seq_keep kv_seq_pos_min kv_seq_pos_max
proof (unfold_locales, goal_cases)
  case (1 kv s)
  then show ?case by (simp add: mem_positions_def kv_positions_def)
next
  case (2 kv p s)
  then show ?case by (rule mem_positions_nonneg)
next
  case (3 kv s p0 p1)
  then show ?case using kv_seq_rm_positions [of kv s p0 p1] by (auto simp: mem_positions_def)
next
  case (4 kv s)
  then show ?case using kv_seq_keep_positions [of kv s] by (auto simp: mem_positions_def)
next
  case (5 kv s)
  then show ?case using kv_seq_pos_min_positions [of kv s] by (simp add: mem_positions_def)
next
  case (6 kv s)
  then show ?case using kv_seq_pos_max_positions [of kv s] by (simp add: mem_positions_def)
qed

end
