(* ===== verification/Kv_Cache_Props.thy ===== *)
theory Kv_Cache_Props
  imports Kv_Cache_Mem
begin

text \<open>
  The properties of the sequence operations of the cell cache, with a concrete cache of five cells
  and two sequences on which their hypotheses hold.
\<close>

section \<open>A concrete cache\<close>

definition cells_of :: "kv_cell list \<Rightarrow> kv_cells" where
  "cells_of V = \<lparr>kc_has_shift = False, kc_used = used_of V, kc_pos = map c_pos V, kc_ext = map c_ext V,
     kc_shift = map c_shift V, kc_seq = map c_seq V,
     kc_seq_pos = (\<lambda>s. if seq_id_ok s then recount V s else [])\<rparr>"

lemma view_cells_of [simp]: "kc_view (cells_of V) = V"
  by (rule view_eqI) (auto simp: cells_of_def kc_size_def cell_at_def)

lemma cells_of_inv: "list_all cell_ok V \<Longrightarrow> cells_inv (cells_of V)"
  using recount_spec
  by (auto simp: cells_inv_def list_all_iff lens_ok_def kc_size_def sp_ok_def) (simp_all add: cells_of_def)

definition demo_view :: "kv_cell list" where
  "demo_view = [Cell 0 ext_reset 0 {0}, Cell 1 ext_reset 0 {0, 1}, empty_cell, Cell 2 ext_reset 0 {0}, empty_cell]"

definition demo_kv :: kv_cache where
  "demo_kv = (the (kv_create False True 5 2 1 0 SWA_NONE 1))\<lparr>kv_v_cells := [cells_of demo_view]\<rparr>"

lemma demo_kv_sel:
  "kv_v_cells demo_kv = [cells_of demo_view]" "kv_n_stream demo_kv = 1" "kv_paged demo_kv = False"
  "kv_n_pos_per_embd demo_kv = 1" "kv_seq_to_stream demo_kv = replicate 256 0" "kv_v_heads demo_kv = [0]"
  "kv_views demo_kv = [demo_view]" "kv_swa_type demo_kv = SWA_NONE" "kv_n_swa demo_kv = 0" "kv_size demo_kv = 5"
  by (simp_all add: demo_kv_def kv_create_def Let_def kv_paged_def LLAMA_MAX_SEQ_def kv_views_def check_def
      kv_size_def) (simp add: demo_view_def cells_of_def kc_size_def)

lemma demo_cells: "cells_inv (cells_of demo_view)" "cells_live (cells_of demo_view)"
  by (rule cells_of_inv)
    (auto simp: demo_view_def cell_ok_def seq_id_ok_def LLAMA_MAX_SEQ_def cells_live_def cell_live_def)

lemma demo_inv: "kv_inv demo_kv" "mem_inv demo_kv" "kv_seq_valid demo_kv 0" "kv_seq_valid demo_kv 1"
  "kv_seq_valid demo_kv 2"
  "kv_stream_of demo_kv 0 = Some 0" "kv_stream_of demo_kv 1 = Some 0" "kv_stream_of demo_kv 2 = Some 0"
  using demo_cells
  by (simp_all add: mem_inv_def kv_inv_def demo_kv_sel kv_seq_valid_def kv_stream_of_def LLAMA_MAX_SEQ_def
      vget_def check_def) (simp_all add: cells_of_def demo_view_def kc_size_def)

lemma positions_filter: "seq_positions V s = set (map c_pos (filter (\<lambda>x. s \<in> c_seq x) V))"
  by (auto simp: positions_image)

lemma demo_view_of: "kv_view_of demo_kv 0 = demo_view" "kv_view_of demo_kv 1 = demo_view" "kv_view_of demo_kv 2 = demo_view"
  by (simp_all add: kv_view_of_def demo_inv demo_kv_sel)

lemma demo_positions: "kv_positions demo_kv 0 = {0, 1, 2}" "kv_positions demo_kv 1 = {1}" "kv_positions demo_kv 2 = {}"
  by (simp_all add: kv_positions_def demo_view_of positions_filter demo_view_def)

lemma demo_members: "{x \<in> set demo_view. 0 \<in> c_seq x} = {Cell 0 ext_reset 0 {0}, Cell 1 ext_reset 0 {0, 1}, Cell 2 ext_reset 0 {0}}"
proof -
  have "{x \<in> set demo_view. 0 \<in> c_seq x} = set (filter (\<lambda>x. 0 \<in> c_seq x) demo_view)" by simp
  then show ?thesis by (simp add: demo_view_def)
qed

section \<open>Properties\<close>

text \<open>C8: (\<open>seq_rm\<close> on the cell cache) Removing the positions \<open>[p0, p1)\<close> of a sequence (negative
  bounds meaning 0 and the maximum) succeeds, keeps the cache consistent, removes exactly these
  positions of that sequence and none of any other, empties exactly the cells that only it used,
  and moves the search head back to the first freed cell when that lies before the head.\<close>

theorem seq_rm_correct:
  assumes "kv_inv kv" "\<not> kv_paged kv" "kv_seq_valid kv s"
  shows "\<exists>kv' st. kv_seq_rm s p0 p1 kv = Some (True, kv') \<and> kv_inv kv' \<and> kv_stream_of kv s = Some st
    \<and> kv_views kv' = (kv_views kv)[st := map (spec_rm s p0 p1) (kv_views kv ! st)]
    \<and> kv_v_heads kv' = (kv_v_heads kv)[st := head_back (kv_size kv)
        (first_idx (frees (spec_rm s p0 p1)) (kv_views kv ! st)) (kv_v_heads kv ! st)]
    \<and> (\<forall>t. kv_seq_valid kv t \<longrightarrow> kv_positions kv' t =
          (if t = s then {p \<in> kv_positions kv s. \<not> (pos_lo p0 \<le> p \<and> p < pos_hi p1)} else kv_positions kv t))"
proof -
  obtain st where st: "kv_stream_of kv s = Some st" using kv_stream_ex [OF assms(1,3)] by blast
  obtain kv' where kv': "kv_seq_rm s p0 p1 kv = Some (True, kv')" "kv_inv kv'"
    "maps_stream (spec_rm s p0 p1) st (head_back (kv_size kv)
      (first_idx (frees (spec_rm s p0 p1)) (kv_views kv ! st)) (kv_v_heads kv ! st)) kv kv'"
    using kv_seq_rm_spec [OF assms(1,2) st assms(3)] by blast
  then show ?thesis
    using maps_stream_sel [OF kv'(3)] kv_seq_rm_positions [of kv s p0 p1] assms st by (auto simp: mem_inv_def)
qed

theorem seq_rm_correct_witness:
  "\<exists>kv'. kv_seq_rm 0 1 2 demo_kv = Some (True, kv') \<and> kv_positions kv' 0 = {0, 2} \<and> kv_positions kv' 1 = {1}"
  using seq_rm_correct [OF demo_inv(1) _ demo_inv(3), of 1 2]
  by (auto simp: demo_kv_sel demo_inv demo_positions pos_lo_def pos_hi_def)

text \<open>(truncation to a prefix, the use the server makes of \<open>seq_rm(id, n, -1)\<close> when it reuses a
  cached prompt prefix) Afterwards the largest position of the sequence is below \<open>n\<close>, exactly the
  positions below \<open>n\<close> are kept, a gap-free sequence stays gap-free, and the positions of the other
  sequences are untouched.\<close>

theorem seq_rm_truncates:
  assumes "kv_inv kv" "\<not> kv_paged kv" "kv_seq_valid kv s" "0 \<le> n" "\<forall>p \<in> kv_positions kv s. p < i32_max"
  shows "\<exists>kv' mx. kv_seq_rm s n (- 1) kv = Some (True, kv') \<and> kv_inv kv'
    \<and> kv_positions kv' s = {p \<in> kv_positions kv s. p < n} \<and> kv_seq_pos_max kv' s = Some mx \<and> mx < n
    \<and> (kvm.contiguous kv s \<longrightarrow> kvm.contiguous kv' s)
    \<and> (\<forall>t. kv_seq_valid kv t \<longrightarrow> t \<noteq> s \<longrightarrow> kv_positions kv' t = kv_positions kv t)"
proof -
  have "mem_inv kv" "\<forall>p \<in> mem_positions kv s. p < i32_max"
    using assms by (simp_all add: mem_inv_def mem_positions_def)
  from kvm.truncate [OF this(1) assms(3,4) this(2)] obtain kv' mx where
    "kv_seq_rm s n (- 1) kv = Some (True, kv')" "mem_inv kv'" "kv_seq_valid kv' = kv_seq_valid kv"
    "mem_positions kv' s = {p \<in> mem_positions kv s. p < n}" "kv_seq_pos_max kv' s = Some mx" "mx < n"
    "kvm.contiguous kv s \<longrightarrow> kvm.contiguous kv' s"
    "\<forall>t. kv_seq_valid kv t \<longrightarrow> t \<noteq> s \<longrightarrow> mem_positions kv' t = mem_positions kv t" by blast
  then show ?thesis using assms(3) by (auto simp: mem_inv_def mem_positions_def)
qed

theorem seq_rm_truncates_witness:
  "\<exists>kv'. kv_seq_rm 0 2 (- 1) demo_kv = Some (True, kv') \<and> kv_positions kv' 0 = {0, 1} \<and> kv_positions kv' 1 = {1}"
proof -
  have "\<forall>p \<in> kv_positions demo_kv 0. p < i32_max" "\<not> kv_paged demo_kv"
    by (simp_all add: demo_positions i32_max_def demo_kv_sel)
  from seq_rm_truncates [OF demo_inv(1) this(2) demo_inv(3) _ this(1), of 2] obtain kv' where kv':
    "kv_seq_rm 0 2 (- 1) demo_kv = Some (True, kv')" "kv_positions kv' 0 = {p \<in> kv_positions demo_kv 0. p < 2}"
    "\<forall>t. kv_seq_valid demo_kv t \<longrightarrow> t \<noteq> 0 \<longrightarrow> kv_positions kv' t = kv_positions demo_kv t" by auto
  then show ?thesis using demo_inv(4) by (auto simp: demo_positions)
qed

text \<open>C19: (\<open>seq_keep\<close>) Keeping one sequence removes every other sequence of its stream, keeps its
  own positions and those of the sequences of other streams, and keeps the cache consistent. (The comment in
  \<^verbatim>\<open>include/llama.h\<close> promises the removal of all other tokens; with several streams the code does less.)\<close>

theorem seq_keep_correct:
  assumes "kv_inv kv" "\<not> kv_paged kv" "kv_seq_valid kv s"
  shows "\<exists>kv' st. kv_seq_keep s kv = Some kv' \<and> kv_inv kv' \<and> kv_stream_of kv s = Some st
    \<and> kv_views kv' = (kv_views kv)[st := map (x_seq_keep s) (kv_views kv ! st)]
    \<and> (\<forall>t. kv_seq_valid kv t \<longrightarrow> kv_positions kv' t =
          (if t = s \<or> kv_stream_of kv t \<noteq> kv_stream_of kv s then kv_positions kv t else {}))"
proof -
  obtain st where st: "kv_stream_of kv s = Some st" using kv_stream_ex [OF assms(1,3)] by blast
  obtain kv' h where kv': "kv_seq_keep s kv = Some kv'" "kv_inv kv'" "maps_stream (x_seq_keep s) st h kv kv'"
    using kv_seq_keep_spec [OF assms(1,2) st assms(3)] by blast
  then show ?thesis
    using maps_stream_sel [OF kv'(3)] kv_seq_keep_positions [of kv s] assms st by (auto simp: mem_inv_def)
qed

theorem seq_keep_correct_witness:
  "\<exists>kv'. kv_seq_keep 1 demo_kv = Some kv' \<and> kv_positions kv' 1 = {1} \<and> kv_positions kv' 0 = {}"
proof -
  obtain kv' where kv': "kv_seq_keep 1 demo_kv = Some kv'" "\<forall>t. kv_seq_valid demo_kv t \<longrightarrow> kv_positions kv' t =
      (if t = 1 \<or> kv_stream_of demo_kv t \<noteq> kv_stream_of demo_kv 1 then kv_positions demo_kv t else {})"
    using seq_keep_correct [OF demo_inv(1) _ demo_inv(4)] by (auto simp: demo_kv_sel)
  then show ?thesis using demo_inv by (auto simp: demo_positions)
qed

text \<open>C20: (\<open>seq_add\<close>) Shifting the positions \<open>[p0, p1)\<close> of a sequence by \<open>d\<close> moves every such
  position by \<open>d\<close>, drops the cells whose position becomes negative, and adds \<open>d\<close> to the pending
  K-shift of the moved cells, so that position minus pending shift (the position the stored K was
  rotated for) stays the same. When a cell was dropped the head moves to the first of them, and to
  the start of the cache otherwise.\<close>

theorem seq_add_correct:
  assumes "kv_inv kv" "kv_seq_valid kv s" "kv_n_pos_per_embd kv = 1" "d \<noteq> 0" "pos_lo p0 \<noteq> pos_hi p1"
    and "\<forall>x \<in> set (kv_view_of kv s). in_range p0 p1 x \<longrightarrow> s \<in> c_seq x \<longrightarrow> shift_safe d x"
  shows "\<exists>kv' st. kv_seq_add s p0 p1 d kv = Some kv' \<and> kv_inv kv' \<and> kv_stream_of kv s = Some st
    \<and> kv_views kv' = (kv_views kv)[st := map (spec_add s p0 p1 d) (kv_views kv ! st)]
    \<and> kv_v_heads kv' = (kv_v_heads kv)[st :=
        (let j = first_idx (frees (spec_add s p0 p1 d)) (kv_views kv ! st) in if j < kv_size kv then j else 0)]
    \<and> kv_positions kv' s = {q \<in> moved s p0 p1 (\<lambda>p. p + d) ` {x \<in> set (kv_view_of kv s). s \<in> c_seq x}. 0 \<le> q}
    \<and> (\<forall>x \<in> set (kv_view_of kv s). c_pos (spec_add s p0 p1 d x) \<noteq> - 1 \<longrightarrow> c_pos x \<noteq> - 1 \<longrightarrow>
          c_pos (spec_add s p0 p1 d x) - c_shift (spec_add s p0 p1 d x) = c_pos x - c_shift x)"
proof -
  obtain st where st: "kv_stream_of kv s = Some st" using kv_stream_ex [OF assms(1,2)] by blast
  have V: "kv_view_of kv s = kv_views kv ! st" by (simp add: kv_view_of_def st)
  let ?h = "let j = first_idx (frees (spec_add s p0 p1 d)) (kv_views kv ! st) in if j < kv_size kv then j else 0"
  obtain kv' where kv': "kv_seq_add s p0 p1 d kv = Some kv'" "kv_inv kv'" "maps_stream (spec_add s p0 p1 d) st ?h kv kv'"
    using kv_seq_add_spec [OF assms(1) st assms(2,3) _ assms(4,5)] assms(6) V by auto
  have nn: "\<forall>x \<in> set (kv_views kv ! st). s \<in> c_seq x \<longrightarrow> 0 \<le> c_pos x"
    using kv_view_nonneg [OF assms(1,2)] V by auto
  have "kv_positions kv' s = (\<lambda>_. {q \<in> moved s p0 p1 (\<lambda>p. p + d) ` {x \<in> set (kv_views kv ! st). s \<in> c_seq x}. 0 \<le> q})
      (kv_positions kv s)"
    by (rule maps_stream_positions [OF assms(1) st assms(2) kv'(3) assms(2)]) (use st positions_add [OF nn] in auto)
  moreover have "c_pos (spec_add s p0 p1 d x) - c_shift (spec_add s p0 p1 d x) = c_pos x - c_shift x"
    if "c_pos (spec_add s p0 p1 d x) \<noteq> - 1" for x
    using that by (auto simp: spec_add_def x_pos_add_def split: if_splits)
  ultimately show ?thesis using kv' maps_stream_sel [OF kv'(3)] st V by auto
qed

theorem seq_add_correct_witness:
  "\<exists>kv'. kv_seq_add 0 1 (- 1) (- 2) demo_kv = Some kv' \<and> kv_positions kv' 0 = {0}"
proof -
  have safe: "\<forall>x \<in> set (kv_view_of demo_kv 0). in_range 1 (- 1) x \<longrightarrow> 0 \<in> c_seq x \<longrightarrow> shift_safe (- 2) x"
    by (auto simp: kv_view_of_def demo_inv demo_kv_sel demo_view_def shift_safe_def i32_ok_def i32_max_def)
  have img: "{q \<in> moved 0 1 (- 1) (\<lambda>p. p + - 2) ` {x \<in> set (kv_view_of demo_kv 0). 0 \<in> c_seq x}. 0 \<le> q} = {0}"
    by (auto simp: demo_view_of demo_members moved_def in_range_def pos_lo_def pos_hi_def i32_max_def)
  from seq_add_correct [OF demo_inv(1,3) _ _ _ safe] img show ?thesis
    by (auto simp: demo_kv_sel pos_lo_def pos_hi_def i32_max_def)
qed

text \<open>C21: (\<open>seq_cp\<close> inside one stream) Copying the positions \<open>[p0, p1)\<close> of a sequence to another id
  that does not hold them yet shares the cells: the destination gains exactly these positions, the
  source and every other sequence keep theirs, no cell is moved or newly occupied, and the cache
  stays consistent.\<close>

theorem seq_cp_shares:
  assumes "kv_inv kv" "\<not> kv_paged kv" "kv_seq_valid kv src" "kv_seq_valid kv dst" "src \<noteq> dst"
    and "kv_stream_of kv src = kv_stream_of kv dst"
    and "\<forall>x \<in> set (kv_view_of kv src). in_range p0 p1 x \<longrightarrow> src \<in> c_seq x \<longrightarrow> dst \<notin> c_seq x"
  shows "\<exists>kv'. kv_seq_cp src dst p0 p1 kv = Some kv' \<and> kv_inv kv' \<and> kv_v_heads kv' = kv_v_heads kv
    \<and> map (map c_pos) (kv_views kv') = map (map c_pos) (kv_views kv)
    \<and> (\<forall>t. kv_seq_valid kv t \<longrightarrow> kv_positions kv' t =
          (if t = dst then kv_positions kv dst \<union> {p \<in> kv_positions kv src. pos_lo p0 \<le> p \<and> p < pos_hi p1}
           else kv_positions kv t))"
proof -
  obtain st where st: "kv_stream_of kv src = Some st" "st < kv_n_stream kv" using kv_stream_ex [OF assms(1,3)] by blast
  have V: "kv_view_of kv src = kv_views kv ! st" "kv_view_of kv dst = kv_views kv ! st"
    using assms(6) st(1) by (auto simp: kv_view_of_def dest: sym)
  obtain kv' where kv': "kv_seq_cp src dst p0 p1 kv = Some kv'" "kv_inv kv'"
    "maps_stream (spec_cp src dst p0 p1) st (kv_v_heads kv ! st) kv kv'"
    using kv_seq_cp_spec [OF assms(1,2) st(1) _ assms(3,4,5), of p0 p1] assms(6,7) st(1) V by auto
  note sel = maps_stream_sel [OF kv'(3)]
  have "kv_positions kv' t = (if t = dst then kv_positions kv dst \<union> {p \<in> kv_positions kv src. pos_lo p0 \<le> p \<and> p < pos_hi p1}
      else kv_positions kv t)" if t: "kv_seq_valid kv t" for t
  proof (cases "t = dst")
    case True
    have "kv_positions kv' dst = (\<lambda>P. P \<union> {p \<in> kv_positions kv src. pos_lo p0 \<le> p \<and> p < pos_hi p1}) (kv_positions kv dst)"
      by (rule maps_stream_positions [OF assms(1) st(1) assms(3) kv'(3) assms(4)])
        (use assms(6) st V in \<open>auto simp: positions_cp kv_positions_def\<close>)
    with True show ?thesis by simp
  next
    case False
    have "kv_positions kv' t = (\<lambda>P. P) (kv_positions kv t)"
      by (rule maps_stream_positions [OF assms(1) st(1) assms(3) kv'(3) t]) (use False in \<open>auto simp: positions_cp\<close>)
    with False show ?thesis by simp
  qed
  moreover have "map c_pos (map (spec_cp src dst p0 p1) V) = map c_pos V" for V
    by (simp add: spec_cp_def)
  then have "map (map c_pos) (kv_views kv') = map (map c_pos) (kv_views kv)"
    unfolding sel map_update by (simp only:) (simp flip: map_update)
  ultimately show ?thesis using kv' sel by auto
qed

theorem seq_cp_shares_witness:
  "\<exists>kv'. kv_seq_cp 0 2 0 2 demo_kv = Some kv' \<and> kv_positions kv' 2 = {0, 1} \<and> kv_positions kv' 0 = {0, 1, 2}"
proof -
  have fresh: "\<forall>x \<in> set (kv_view_of demo_kv 0). in_range 0 2 x \<longrightarrow> 0 \<in> c_seq x \<longrightarrow> 2 \<notin> c_seq x"
    by (auto simp: demo_view_of demo_view_def)
  have np: "\<not> kv_paged demo_kv" by (simp add: demo_kv_sel)
  obtain kv' where kv': "kv_seq_cp 0 2 0 2 demo_kv = Some kv'"
    "\<forall>t. kv_seq_valid demo_kv t \<longrightarrow> kv_positions kv' t =
          (if t = 2 then kv_positions demo_kv 2 \<union> {p \<in> kv_positions demo_kv 0. pos_lo 0 \<le> p \<and> p < pos_hi 2}
           else kv_positions demo_kv t)"
    using seq_cp_shares [OF demo_inv(1) np demo_inv(3,5) _ _ fresh] demo_inv by auto
  then show ?thesis using demo_inv(3,5) by (auto simp: demo_positions pos_lo_def pos_hi_def)
qed

text \<open>C36: (\<open>seq_div\<close>) Dividing the positions \<open>[p0, p1)\<close> of a sequence by \<open>d > 0\<close> succeeds, keeps the
  cache consistent and replaces each of these positions by its quotient. The pending K-shift of a
  divided cell, however, grows by \<open>old - new\<close> where \<open>seq_add\<close> adds \<open>new - old\<close>: position minus
  shift changes by twice the distance, so the later K-shift rotates the stored K the wrong way.\<close>

theorem seq_div_positions_and_shift:
  assumes "kv_inv kv" "kv_seq_valid kv s" "kv_n_pos_per_embd kv = 1" "0 < d"
    and "\<forall>x \<in> set (kv_view_of kv s). in_range p0 p1 x \<longrightarrow> s \<in> c_seq x \<longrightarrow> div_safe d x"
  shows "\<exists>kv' st. kv_seq_div s p0 p1 d kv = Some kv' \<and> kv_inv kv' \<and> kv_stream_of kv s = Some st
    \<and> kv_views kv' = (kv_views kv)[st := map (spec_div s p0 p1 d) (kv_views kv ! st)]
    \<and> kv_positions kv' s = moved s p0 p1 (\<lambda>p. p div d) ` {x \<in> set (kv_view_of kv s). s \<in> c_seq x}
    \<and> (\<forall>x \<in> set (kv_view_of kv s). in_range p0 p1 x \<longrightarrow> s \<in> c_seq x \<longrightarrow>
          c_pos (spec_div s p0 p1 d x) - c_shift (spec_div s p0 p1 d x)
            = c_pos x - c_shift x - 2 * (c_pos x - c_pos x div d))"
proof -
  obtain st where st: "kv_stream_of kv s = Some st" using kv_stream_ex [OF assms(1,2)] by blast
  have V: "kv_view_of kv s = kv_views kv ! st" by (simp add: kv_view_of_def st)
  obtain kv' where kv': "kv_seq_div s p0 p1 d kv = Some kv'" "kv_inv kv'"
    "maps_stream (spec_div s p0 p1 d) st (kv_v_heads kv ! st) kv kv'"
    using kv_seq_div_spec [OF assms(1) st assms(2,3) _ assms(4), of p0 p1] assms(5) V by auto
  have "kv_positions kv' s = (\<lambda>_. moved s p0 p1 (\<lambda>p. p div d) ` {x \<in> set (kv_views kv ! st). s \<in> c_seq x})
      (kv_positions kv s)"
    by (rule maps_stream_positions [OF assms(1) st assms(2) kv'(3) assms(2)]) (use st positions_div in auto)
  moreover have "c_pos (spec_div s p0 p1 d x) - c_shift (spec_div s p0 p1 d x)
      = c_pos x - c_shift x - 2 * (c_pos x - c_pos x div d)" if "in_range p0 p1 x" "s \<in> c_seq x" for x
    using that by (simp add: spec_div_def x_pos_div_def)
  ultimately show ?thesis using kv' maps_stream_sel [OF kv'(3)] st V by auto
qed

theorem seq_div_positions_and_shift_witness:
  "\<exists>kv'. kv_seq_div 0 0 (- 1) 2 demo_kv = Some kv' \<and> kv_positions kv' 0 = {0, 1}"
proof -
  have safe: "\<forall>x \<in> set (kv_view_of demo_kv 0). in_range 0 (- 1) x \<longrightarrow> 0 \<in> c_seq x \<longrightarrow> div_safe 2 x"
    by (auto simp: demo_view_of demo_view_def div_safe_def i32_ok_def i32_max_def)
  have img: "moved 0 0 (- 1) (\<lambda>p. p div 2) ` {x \<in> set (kv_view_of demo_kv 0). 0 \<in> c_seq x} = {0, 1}"
    by (auto simp: demo_view_of demo_members moved_def in_range_def pos_lo_def pos_hi_def i32_max_def)
  from seq_div_positions_and_shift [OF demo_inv(1,3) _ _ safe] img show ?thesis
    by (auto simp: demo_kv_sel)
qed

end
