(* ===== verification/Tensor_Alloc.thy ===== *)
theory Tensor_Alloc
  imports Tl_Prelude
begin

unbundle bit_operations_syntax

text \<open>
  The tensor allocators of ggml (ggml/src/ggml-alloc.c): \<^verbatim>\<open>ggml_tallocr\<close>, which only moves an offset, and
  \<^verbatim>\<open>ggml_dyn_tallocr\<close>, a best-fit allocator over up to 16 chunks, each with a sorted array of free blocks. No memory is
  touched here: an allocation is a chunk and an offset.

  Of the array of free blocks the model keeps the first \<^verbatim>\<open>n_free_blocks\<close>; its 256 slots remain as a bound. A \<^verbatim>\<open>size_t\<close> is
  a \<open>nat\<close>, reduced by \<open>u64\<close> where it can wrap. The tensor is only passed for debugging.
\<close>

definition SIZE_MAX :: nat where
  "SIZE_MAX = 2 ^ 64 - 1"

definition MAX_FREE_BLOCKS :: nat where
  "MAX_FREE_BLOCKS = 256"

definition GGML_VBUFFER_MAX_CHUNKS :: nat where
  "GGML_VBUFFER_MAX_CHUNKS = 16"

text \<open>The assertion of the code: an alignment is a power of two.\<close>

definition alignment_ok :: "nat \<Rightarrow> bool" where
  "alignment_ok alignment \<longleftrightarrow> alignment \<noteq> 0 \<and> \<not> alignment AND (alignment - 1) \<noteq> 0"

definition aligned_offset :: "nat \<Rightarrow> nat \<Rightarrow> nat \<Rightarrow> nat option" where
  "aligned_offset buffer offset alignment = do {
     check (alignment_ok alignment);
     let align = (alignment - u64 (buffer + offset) mod alignment) mod alignment;
     Some (u64 (offset + align)) }"

section \<open>The linear allocator\<close>

text \<open>\<^verbatim>\<open>GGML_PAD\<close> on \<^verbatim>\<open>size_t\<close>.\<close>

definition size_pad :: "nat \<Rightarrow> nat \<Rightarrow> nat" where
  "size_pad x n = nat (int (u64 (x + n - 1)) AND NOT (int n - 1))"

record ggml_tallocr =
  ta_base :: nat
  ta_buffer_size :: nat
  ta_alignment :: nat
  ta_offset :: nat

definition ggml_tallocr_new :: "nat \<Rightarrow> nat \<Rightarrow> nat \<Rightarrow> ggml_tallocr option" where
  "ggml_tallocr_new base buffer_size align = do {
     check (alignment_ok align);
     off \<leftarrow> aligned_offset base 0 align;
     Some \<lparr>ta_base = base, ta_buffer_size = buffer_size, ta_alignment = align, ta_offset = off\<rparr> }"

text \<open>The size that the back end asks for the tensor comes first; the address of the tensor is the base plus the offset.\<close>

definition ggml_tallocr_alloc :: "nat \<Rightarrow> ggml_tallocr \<Rightarrow> (nat \<times> ggml_tallocr) option" where
  "ggml_tallocr_alloc alloc_size t = do {
     let n = size_pad alloc_size (ta_alignment t);
     check (\<not> u64 (ta_offset t + n) > ta_buffer_size t);
     check (ta_alignment t \<noteq> 0 \<and> u64 (ta_base t + ta_offset t) mod ta_alignment t = 0);
     Some (ta_offset t, t\<lparr>ta_offset := u64 (ta_offset t + n)\<rparr>) }"

section \<open>The dynamic allocator\<close>

record buffer_address =
  ad_chunk :: nat
  ad_offset :: nat

record free_block =
  fb_offset :: nat
  fb_size :: nat

record tallocr_chunk =
  tc_free_blocks :: "free_block list"
  tc_max_size :: nat

record dyn_tallocr =
  dt_alignment :: nat
  dt_max_chunk_size :: nat
  dt_chunks :: "tallocr_chunk list"

definition insert_block :: "nat \<Rightarrow> nat \<Rightarrow> free_block list \<Rightarrow> free_block list option" where
  "insert_block offset n bs = do {
     check (length bs < MAX_FREE_BLOCKS);
     Some (takeWhile (\<lambda>b. fb_offset b < offset) bs @ \<lparr>fb_offset = offset, fb_size = n\<rparr> # dropWhile (\<lambda>b. fb_offset b < offset) bs) }"

text \<open>The loop also copies the slot behind the last free block, which is past the array when all slots are taken.\<close>

definition remove_block :: "nat \<Rightarrow> free_block list \<Rightarrow> free_block list option" where
  "remove_block idx bs = do {
     check (idx < length bs \<and> length bs < MAX_FREE_BLOCKS);
     Some (take idx bs @ drop (Suc idx) bs) }"

definition new_chunk :: "nat \<Rightarrow> dyn_tallocr \<Rightarrow> (nat \<times> dyn_tallocr) option" where
  "new_chunk min_size a =
     (if length (dt_chunks a) \<ge> GGML_VBUFFER_MAX_CHUNKS then None
      else let n = (if length (dt_chunks a) = GGML_VBUFFER_MAX_CHUNKS - 1 then SIZE_MAX div 2 else max min_size (dt_max_chunk_size a));
               chunk = \<lparr>tc_free_blocks = [\<lparr>fb_offset = 0, fb_size = n\<rparr>], tc_max_size = 0\<rparr>
           in Some (length (dt_chunks a), a\<lparr>dt_chunks := dt_chunks a @ [chunk]\<rparr>))"

subsection \<open>Searching\<close>

text \<open>The best fit of one chunk apart from its last block. The best size starts anew for every chunk.\<close>

definition best_fit_step :: "nat \<Rightarrow> nat \<Rightarrow> nat \<times> free_block \<Rightarrow> (nat \<times> nat) option \<times> nat \<Rightarrow> (nat \<times> nat) option \<times> nat" where
  "best_fit_step n c = (\<lambda>(i, b) (best, best_fit_size).
     if fb_size b \<ge> n \<and> fb_size b \<le> best_fit_size then (Some (c, i), fb_size b) else (best, best_fit_size))"

definition best_fit_chunk :: "nat \<Rightarrow> nat \<times> tallocr_chunk \<Rightarrow> (nat \<times> nat) option \<Rightarrow> (nat \<times> nat) option" where
  "best_fit_chunk n = (\<lambda>(c, chunk) best.
     fst (fold (best_fit_step n c) (enumerate 0 (butlast (tc_free_blocks chunk))) (best, SIZE_MAX)))"

definition find_best_fit :: "nat \<Rightarrow> tallocr_chunk list \<Rightarrow> (nat \<times> nat) option" where
  "find_best_fit n chunks = fold (best_fit_chunk n) (enumerate 0 chunks) None"

definition INT64_MIN :: int where
  "INT64_MIN = - (2 ^ 63)"

text \<open>A \<^verbatim>\<open>size_t\<close> expression read as \<^verbatim>\<open>int64_t\<close>.\<close>

definition s64 :: "int \<Rightarrow> int" where
  "s64 x = (let r = x mod 2 ^ 64 in if r \<ge> 2 ^ 63 then r - 2 ^ 64 else r)"

definition last_block_step :: "nat \<Rightarrow> nat \<times> tallocr_chunk \<Rightarrow> (nat \<times> nat) option \<times> int \<Rightarrow> (nat \<times> nat) option \<times> int" where
  "last_block_step n = (\<lambda>(c, chunk) (best, best_reuse).
     if tc_free_blocks chunk \<noteq> [] then
       let b = last (tc_free_blocks chunk);
           reuse_factor = s64 (int (tc_max_size chunk) - int (fb_offset b) - int n);
           better_reuse = (best_reuse < 0 \<and> reuse_factor > best_reuse);
           better_fit = (reuse_factor \<ge> 0 \<and> reuse_factor < best_reuse)
       in if fb_size b \<ge> n \<and> (better_reuse \<or> better_fit)
          then (Some (c, length (tc_free_blocks chunk) - 1), reuse_factor) else (best, best_reuse)
     else (best, best_reuse))"

definition find_last_block :: "nat \<Rightarrow> tallocr_chunk list \<Rightarrow> (nat \<times> nat) option" where
  "find_last_block n chunks = fst (fold (last_block_step n) (enumerate 0 chunks) (None, INT64_MIN))"

definition find_block :: "nat \<Rightarrow> tallocr_chunk list \<Rightarrow> (nat \<times> nat) option" where
  "find_block n chunks = (case find_best_fit n chunks of Some r \<Rightarrow> Some r | None \<Rightarrow> find_last_block n chunks)"

subsection \<open>Allocating and freeing\<close>

text \<open>Taking the front of a free block; a block that becomes empty is removed.\<close>

definition take_front :: "nat \<Rightarrow> nat \<Rightarrow> free_block list \<Rightarrow> (nat \<times> free_block list) option" where
  "take_front n i bs = do {
     b \<leftarrow> vget bs i;
     let b' = \<lparr>fb_offset = u64 (fb_offset b + n), fb_size = u64_sub (fb_size b) n\<rparr>;
     bs \<leftarrow> (if fb_size b' = 0 then remove_block i (bs[i := b']) else Some (bs[i := b']));
     Some (fb_offset b, bs) }"

definition dyn_tallocr_alloc :: "nat \<Rightarrow> dyn_tallocr \<Rightarrow> (buffer_address \<times> dyn_tallocr) option" where
  "dyn_tallocr_alloc alloc_size a = do {
     n \<leftarrow> aligned_offset 0 alloc_size (dt_alignment a);
     ((c, i), a) \<leftarrow> (case find_block n (dt_chunks a) of
         Some r \<Rightarrow> Some (r, a)
       | None \<Rightarrow> do { (c, a) \<leftarrow> new_chunk n a; Some ((c, 0), a) });
     chunk \<leftarrow> vget (dt_chunks a) c;
     (offset, bs) \<leftarrow> take_front n i (tc_free_blocks chunk);
     let chunk = \<lparr>tc_free_blocks = bs, tc_max_size = max (tc_max_size chunk) (u64 (offset + n))\<rparr>;
     Some (\<lparr>ad_chunk = c, ad_offset = offset\<rparr>, a\<lparr>dt_chunks := (dt_chunks a)[c := chunk]\<rparr>) }"

definition fb_end :: "free_block \<Rightarrow> nat" where
  "fb_end b = u64 (fb_offset b + fb_size b)"

text \<open>The scan of \<^verbatim>\<open>free_bytes\<close> from block \<open>i\<close> on; the first argument counts the blocks left.\<close>

fun free_scan :: "nat \<Rightarrow> nat \<Rightarrow> nat \<Rightarrow> nat \<Rightarrow> free_block list \<Rightarrow> free_block list option" where
  "free_scan 0 i offset n bs = insert_block offset n bs"
| "free_scan (Suc k) i offset n bs = do {
     b \<leftarrow> vget bs i;
     if fb_end b = offset then do {
       let b' = b\<lparr>fb_size := u64 (fb_size b + n)\<rparr>;
       if i < length bs - 1 then do {
         nx \<leftarrow> vget bs (i + 1);
         if fb_end b' = fb_offset nx
         then remove_block (i + 1) (bs[i := b'\<lparr>fb_size := u64 (fb_size b' + fb_size nx)\<rparr>])
         else Some (bs[i := b'])
       }
       else Some (bs[i := b'])
     }
     else if u64 (offset + n) = fb_offset b then do {
       let b' = \<lparr>fb_offset = offset, fb_size = u64 (fb_size b + n)\<rparr>;
       if i > 0 then do {
         pv \<leftarrow> vget bs (i - 1);
         if fb_end pv = fb_offset b'
         then remove_block i (bs[i := b', i - 1 := pv\<lparr>fb_size := u64 (fb_size pv + fb_size b')\<rparr>])
         else Some (bs[i := b'])
       }
       else Some (bs[i := b'])
     }
     else free_scan k (i + 1) offset n bs }"

definition dyn_tallocr_free_bytes :: "buffer_address \<Rightarrow> nat \<Rightarrow> dyn_tallocr \<Rightarrow> dyn_tallocr option" where
  "dyn_tallocr_free_bytes addr alloc_size a = do {
     n \<leftarrow> aligned_offset 0 alloc_size (dt_alignment a);
     chunk \<leftarrow> vget (dt_chunks a) (ad_chunk addr);
     bs \<leftarrow> free_scan (length (tc_free_blocks chunk)) 0 (ad_offset addr) n (tc_free_blocks chunk);
     Some (a\<lparr>dt_chunks := (dt_chunks a)[ad_chunk addr := chunk\<lparr>tc_free_blocks := bs\<rparr>]\<rparr>) }"

definition dyn_tallocr_reset :: "dyn_tallocr \<Rightarrow> dyn_tallocr" where
  "dyn_tallocr_reset a = a\<lparr>dt_chunks := []\<rparr>"

definition dyn_tallocr_new :: "nat \<Rightarrow> nat \<Rightarrow> dyn_tallocr" where
  "dyn_tallocr_new alignment max_buffer_size =
     dyn_tallocr_reset \<lparr>dt_alignment = alignment, dt_max_chunk_size = min max_buffer_size (SIZE_MAX div 2), dt_chunks = []\<rparr>"

definition dyn_tallocr_max_size :: "dyn_tallocr \<Rightarrow> nat \<Rightarrow> nat" where
  "dyn_tallocr_max_size a chunk = (if chunk < length (dt_chunks a) then tc_max_size (dt_chunks a ! chunk) else 0)"

end
