(* ===== verification/Alloc_Blocks.thy ===== *)
theory Alloc_Blocks
  imports Tensor_Alloc
begin

text \<open>
  The free blocks of a chunk as the set of bytes they cover: taking the front of a block removes its bytes, freeing a region
  adds its bytes, and both keep the blocks sorted, non-empty and apart from each other.
\<close>

section \<open>Blocks and their bytes\<close>

abbreviation blk :: "nat \<Rightarrow> nat \<Rightarrow> free_block" where
  "blk off n \<equiv> \<lparr>fb_offset = off, fb_size = n\<rparr>"

definition region :: "nat \<Rightarrow> nat \<Rightarrow> nat set" where
  "region off n = {off..<off + n}"

definition blocks_bytes :: "free_block list \<Rightarrow> nat set" where
  "blocks_bytes bs = (\<Union>b \<in> set bs. region (fb_offset b) (fb_size b))"

definition blocks_ok :: "free_block list \<Rightarrow> bool" where
  "blocks_ok bs \<longleftrightarrow> (\<forall>b \<in> set bs. 0 < fb_size b \<and> fb_offset b + fb_size b \<le> SIZE_MAX)
     \<and> sorted_wrt (\<lambda>a b. fb_offset a + fb_size a < fb_offset b) bs"

lemma blocks_bytes_simps [simp]:
  "blocks_bytes [] = {}" "blocks_bytes (b # bs) = region (fb_offset b) (fb_size b) \<union> blocks_bytes bs"
  "blocks_bytes (as @ bs) = blocks_bytes as \<union> blocks_bytes bs"
  by (simp_all add: blocks_bytes_def)

lemma blocks_ok_append:
  "blocks_ok (as @ bs) \<longleftrightarrow> blocks_ok as \<and> blocks_ok bs
     \<and> (\<forall>a \<in> set as. \<forall>b \<in> set bs. fb_offset a + fb_size a < fb_offset b)"
  by (auto simp: blocks_ok_def sorted_wrt_append)

lemma blocks_ok_Cons:
  "blocks_ok (b # bs) \<longleftrightarrow> 0 < fb_size b \<and> fb_offset b + fb_size b \<le> SIZE_MAX \<and> blocks_ok bs
     \<and> (\<forall>a \<in> set bs. fb_offset b + fb_size b < fb_offset a)"
  by (auto simp: blocks_ok_def)

lemma blocks_ok_Nil [simp]: "blocks_ok []"
  by (simp add: blocks_ok_def)

lemma region_split: "n \<le> m \<Longrightarrow> region off m = region off n \<union> region (off + n) (m - n)"
  by (auto simp: region_def)

lemma region_join: "region off n \<union> region (off + n) m = region off (n + m)"
  by (auto simp: region_def)

lemma region_disjoint_iff: "0 < n \<Longrightarrow> 0 < m \<Longrightarrow> region a n \<inter> region b m = {} \<longleftrightarrow> a + n \<le> b \<or> b + m \<le> a"
  by (auto simp: region_def)

lemma list_at: "i < length xs \<Longrightarrow> xs = take i xs @ xs ! i # drop (Suc i) xs"
  by (rule id_take_nth_drop)

lemma update_at: "i < length xs \<Longrightarrow> xs[i := x] = take i xs @ x # drop (Suc i) xs"
  by (rule upd_conv_take_nth_drop)

lemma u64_id: "x \<le> SIZE_MAX \<Longrightarrow> u64 x = x"
  by (simp add: SIZE_MAX_def)

text \<open>A step that needs a free slot of the array fails exactly without one.\<close>

definition yields :: "'a option \<Rightarrow> 'a \<Rightarrow> bool \<Rightarrow> bool" where
  "yields r x room \<longleftrightarrow> r = Some x \<or> \<not> room \<and> r = None"

lemma yields_Some [simp]: "yields (Some x) x room"
  by (simp add: yields_def)

section \<open>Taking the front of a block\<close>

lemma take_front_ok:
  assumes "blocks_ok bs" and "i < length bs" and "0 < n" and "n \<le> fb_size (bs ! i)"
  shows "\<exists>bs'. yields (take_front n i bs) (fb_offset (bs ! i), bs') (length bs < MAX_FREE_BLOCKS \<or> n < fb_size (bs ! i)) \<and> blocks_ok bs'
    \<and> region (fb_offset (bs ! i)) n \<subseteq> blocks_bytes bs \<and> blocks_bytes bs' = blocks_bytes bs - region (fb_offset (bs ! i)) n
    \<and> (\<forall>b \<in> set bs'. b \<in> set bs \<or> fb_offset b = fb_offset (bs ! i) + n)"
proof -
  let ?b = "bs ! i" and ?l = "take i bs" and ?r = "drop (Suc i) bs"
  let ?b' = "blk (fb_offset ?b + n) (fb_size ?b - n)"
  have bs: "bs = ?l @ ?b # ?r" by (rule list_at [OF assms(2)])
  have ok: "blocks_ok (?l @ ?b # ?r)" using assms(1) bs by simp
  note O = ok [unfolded blocks_ok_append blocks_ok_Cons]
  have B: "0 < fb_size ?b" "fb_offset ?b + fb_size ?b \<le> SIZE_MAX" using O by auto
  have b': "u64 (fb_offset ?b + n) = fb_offset ?b + n" "u64_sub (fb_size ?b) n = fb_size ?b - n"
    using B assms(4) by (simp_all add: SIZE_MAX_def)
  have bytes: "blocks_bytes bs = blocks_bytes ?l \<union> region (fb_offset ?b) (fb_size ?b) \<union> blocks_bytes ?r"
    by (subst bs) (simp add: Un_assoc)
  have apart: "x \<notin> region (fb_offset ?b) (fb_size ?b)" if "x \<in> blocks_bytes ?l \<union> blocks_bytes ?r" for x
    using that O by (fastforce simp: blocks_bytes_def region_def)
  have sub: "region (fb_offset ?b) n \<subseteq> region (fb_offset ?b) (fb_size ?b)"
    using assms(4) by (auto simp: region_def)
  have rest: "blocks_bytes ?l \<union> region (fb_offset ?b + n) (fb_size ?b - n) \<union> blocks_bytes ?r = blocks_bytes bs - region (fb_offset ?b) n"
  proof -
    have "region (fb_offset ?b) n \<inter> (blocks_bytes ?l \<union> blocks_bytes ?r) = {}" using apart sub by blast
    moreover have "region (fb_offset ?b) n \<inter> region (fb_offset ?b + n) (fb_size ?b - n) = {}" by (auto simp: region_def)
    ultimately show ?thesis unfolding bytes region_split [OF assms(4), of "fb_offset ?b"] by blast
  qed
  show ?thesis
  proof (cases "n = fb_size ?b")
    case True
    then have "yields (take_front n i bs) (fb_offset ?b, ?l @ ?r) (length bs < MAX_FREE_BLOCKS \<or> n < fb_size ?b)"
      using assms(2) b' by (simp add: yields_def take_front_def remove_block_def vget_def Let_def check_def)
    moreover have "blocks_ok (?l @ ?r)" using ok by (auto simp: blocks_ok_append blocks_ok_Cons)
    moreover have "blocks_bytes (?l @ ?r) = blocks_bytes bs - region (fb_offset ?b) n"
      using rest True by (simp add: region_def)
    ultimately show ?thesis using sub bytes by (intro exI [of _ "?l @ ?r"]) (auto dest: in_set_takeD in_set_dropD)
  next
    case False
    then have "take_front n i bs = Some (fb_offset ?b, ?l @ ?b' # ?r)"
      using assms(2,4) b' by (simp add: take_front_def vget_def Let_def update_at)
    moreover have "blocks_ok (?l @ ?b' # ?r)" using ok False assms(4) by (auto simp: blocks_ok_append blocks_ok_Cons)
    moreover have "blocks_bytes (?l @ ?b' # ?r) = blocks_bytes bs - region (fb_offset ?b) n"
      using rest by (simp add: Un_assoc)
    ultimately show ?thesis using sub bytes by (intro exI [of _ "?l @ ?b' # ?r"]) (auto dest: in_set_takeD in_set_dropD)
  qed
qed

section \<open>Freeing a region\<close>

text \<open>A region that is free of the blocks and touches none of them lies strictly between two of them.\<close>

lemma apart_cases:
  assumes "0 < n" "0 < fb_size b" and "region off n \<inter> region (fb_offset b) (fb_size b) = {}"
    and "fb_offset b + fb_size b \<noteq> off" "off + n \<noteq> fb_offset b"
  shows "fb_offset b + fb_size b < off \<and> fb_offset b < off \<or> off + n < fb_offset b \<and> \<not> fb_offset b < off"
  using assms region_disjoint_iff [OF assms(1,2), of off "fb_offset b"] by auto

lemma blocks_ok_offsets: "blocks_ok bs \<Longrightarrow> sorted_wrt (\<lambda>a b. fb_offset a < fb_offset b) bs"
  by (auto simp: blocks_ok_def elim!: sorted_wrt_mono_rel [rotated])

lemma dropWhile_offsets:
  "blocks_ok bs \<Longrightarrow> b \<in> set (dropWhile (\<lambda>b. fb_offset b < off) bs) \<Longrightarrow> \<not> fb_offset b < off"
  by (induction bs) (fastforce simp: blocks_ok_Cons split: if_splits)+

lemma insert_block_ok:
  assumes ok: "blocks_ok bs" and n: "0 < n" "off + n \<le> SIZE_MAX" and dis: "region off n \<inter> blocks_bytes bs = {}"
    and apart: "\<forall>b \<in> set bs. fb_offset b + fb_size b \<noteq> off \<and> off + n \<noteq> fb_offset b"
  shows "\<exists>bs'. yields (insert_block off n bs) bs' (length bs < MAX_FREE_BLOCKS) \<and> blocks_ok bs' \<and> blocks_bytes bs' = blocks_bytes bs \<union> region off n
    \<and> fb_offset ` set bs' \<subseteq> insert off (fb_offset ` set bs)"
proof -
  let ?P = "\<lambda>b. fb_offset b < off"
  have c: "fb_offset b + fb_size b < off \<and> ?P b \<or> off + n < fb_offset b \<and> \<not> ?P b" if "b \<in> set bs" for b
    by (rule apart_cases) (use that ok n(1) dis apart in \<open>auto simp: blocks_ok_def blocks_bytes_def\<close>)
  have bs: "blocks_ok (takeWhile ?P bs @ dropWhile ?P bs)" using ok by simp
  have l: "fb_offset b + fb_size b < off" if "b \<in> set (takeWhile ?P bs)" for b
    using c [of b] set_takeWhileD [OF that] by auto
  have r: "off + n < fb_offset b" if "b \<in> set (dropWhile ?P bs)" for b
    using c [OF set_dropWhileD [OF that]] dropWhile_offsets [OF ok that] by simp
  have "blocks_ok (takeWhile ?P bs @ blk off n # dropWhile ?P bs)"
    using bs [unfolded blocks_ok_append] n l r by (auto simp: blocks_ok_append blocks_ok_Cons)
  moreover have "blocks_bytes (takeWhile ?P bs @ blk off n # dropWhile ?P bs) = blocks_bytes (takeWhile ?P bs @ dropWhile ?P bs) \<union> region off n"
    by (simp only: blocks_bytes_simps) auto
  ultimately show ?thesis
    by (intro exI [of _ "takeWhile ?P bs @ blk off n # dropWhile ?P bs"])
      (auto simp: yields_def insert_block_def dest: set_takeWhileD set_dropWhileD)
qed

lemma free_scan_ok:
  assumes ok: "blocks_ok bs" and n: "0 < n" "off + n \<le> SIZE_MAX" and dis: "region off n \<inter> blocks_bytes bs = {}"
    and "i + k = length bs" and "\<forall>j < i. fb_offset (bs ! j) + fb_size (bs ! j) \<noteq> off \<and> off + n \<noteq> fb_offset (bs ! j)"
  shows "\<exists>bs'. yields (free_scan k i off n bs) bs' (length bs < MAX_FREE_BLOCKS) \<and> blocks_ok bs' \<and> blocks_bytes bs' = blocks_bytes bs \<union> region off n
    \<and> fb_offset ` set bs' \<subseteq> insert off (fb_offset ` set bs)"
  using assms(5,6)
proof (induction k arbitrary: i)
  case 0
  then have "\<forall>b \<in> set bs. fb_offset b + fb_size b \<noteq> off \<and> off + n \<noteq> fb_offset b" by (auto simp: in_set_conv_nth)
  with insert_block_ok [OF ok n dis this] show ?case by simp
next
  case (Suc k)
  then have i: "i < length bs" by simp
  let ?b = "bs ! i" and ?l = "take i bs" and ?r = "drop (Suc i) bs"
  have bs: "bs = ?l @ ?b # ?r" by (rule list_at [OF i])
  have ok': "blocks_ok (?l @ ?b # ?r)" using ok bs by simp
  note O = ok' [unfolded blocks_ok_append blocks_ok_Cons]
  have bytes: "blocks_bytes bs = blocks_bytes ?l \<union> (region (fb_offset ?b) (fb_size ?b) \<union> blocks_bytes ?r)" by (subst bs) simp
  have e: "fb_end ?b = fb_offset ?b + fb_size ?b" using O u64_id by (simp add: fb_end_def)
  have lb: "fb_offset a + fb_size a < fb_offset ?b" if "a \<in> set ?l" for a using O that by auto
  have rb: "fb_offset ?b + fb_size ?b < fb_offset a" if "a \<in> set ?r" for a using O that by auto
  show ?case
  proof (cases "fb_offset ?b + fb_size ?b = off")
    case True
    let ?b' = "blk (fb_offset ?b) (fb_size ?b + n)"
    have up: "?b\<lparr>fb_size := u64 (fb_size ?b + n)\<rparr> = ?b'" using True n(2) u64_id by simp
    have join: "region (fb_offset ?b) (fb_size ?b) \<union> region off n = region (fb_offset ?b) (fb_size ?b + n)"
      using region_join [of "fb_offset ?b" "fb_size ?b" n] True by simp
    show ?thesis
    proof (cases ?r)
      case Nil
      then have "free_scan (Suc k) i off n bs = Some (?l @ [?b'])" using i e True up by (simp add: vget_def Let_def update_at)
      moreover have "blocks_ok (?l @ [?b'])" using O n True by (auto simp: blocks_ok_append blocks_ok_Cons)
      moreover have "blocks_bytes (?l @ [?b']) = blocks_bytes bs \<union> region off n"
        unfolding bytes Nil using join by auto
      ultimately show ?thesis using i by (intro exI [of _ "?l @ [?b']"]) (auto simp del: free_scan.simps dest: in_set_takeD)
    next
      case (Cons nx r')
      have "Suc i < length bs" using arg_cong [OF Cons, of length] by simp
      then have nx: "Suc i < length bs" "bs ! Suc i = nx" using Cons hd_drop_conv_nth [of "Suc i" bs] by simp_all
      have r': "drop (Suc (Suc i)) bs = r'" using Cons_nth_drop_Suc [OF nx(1)] Cons by simp
      have "off < fb_offset nx" "0 < fb_size nx" "fb_offset nx + fb_size nx \<le> SIZE_MAX" using rb [of nx] O True Cons by (auto simp: blocks_ok_Cons)
      moreover have "region off n \<inter> region (fb_offset nx) (fb_size nx) = {}" using dis bytes Cons by auto
      ultimately have nxb: "off + n \<le> fb_offset nx" "0 < fb_size nx" "fb_offset nx + fb_size nx \<le> SIZE_MAX"
        using region_disjoint_iff [OF n(1), of "fb_size nx" off "fb_offset nx"] by auto
      have e': "fb_end ?b' = off + n" using True n(2) u64_id by (simp add: fb_end_def add.assoc)
      show ?thesis
      proof (cases "off + n = fb_offset nx")
        case True2: True
        let ?m = "blk (fb_offset ?b) (fb_size ?b + n + fb_size nx)"
        have "u64 (fb_size ?b + n + fb_size nx) = fb_size ?b + n + fb_size nx" using True True2 nxb(3) by (intro u64_id) linarith
        then have "free_scan (Suc k) i off n bs = remove_block (i + 1) (bs[i := ?m])"
          using i nx e e' True True2 up by (simp add: vget_def Let_def less_diff_conv)
        also have "yields \<dots> (?l @ ?m # r') (length bs < MAX_FREE_BLOCKS)"
          using nx(1) r' by (simp add: yields_def remove_block_def take_Suc_conv_app_nth check_def)
        finally have "yields (free_scan (Suc k) i off n bs) (?l @ ?m # r') (length bs < MAX_FREE_BLOCKS)" .
        moreover have "blocks_ok (?l @ ?m # r')"
          using O Cons True True2 nxb by (auto simp: blocks_ok_append blocks_ok_Cons)
        moreover have "blocks_bytes (?l @ ?m # r') = blocks_bytes bs \<union> region off n"
        proof -
          have "region (fb_offset ?b) (fb_size ?b + n) \<union> region (fb_offset nx) (fb_size nx) = region (fb_offset ?b) (fb_size ?b + n + fb_size nx)"
            using region_join [of "fb_offset ?b" "fb_size ?b + n" "fb_size nx"] True True2
              arg_cong2 [OF True refl, of "(+)" n] by (simp add: add.assoc)
          then show ?thesis unfolding bytes Cons using join by auto
        qed
        ultimately show ?thesis using i set_drop_subset [of "Suc (Suc i)" bs] r' by (intro exI [of _ "?l @ ?m # r'"]) (auto simp del: free_scan.simps dest: in_set_takeD)
      next
        case False
        then have "free_scan (Suc k) i off n bs = Some (?l @ ?b' # ?r)"
          using i nx e e' True up by (simp add: vget_def Let_def update_at)
        moreover have "blocks_ok (?l @ ?b' # ?r)"
          using O Cons True False nxb n by (auto simp: blocks_ok_append blocks_ok_Cons)
        moreover have "blocks_bytes (?l @ ?b' # ?r) = blocks_bytes bs \<union> region off n" unfolding bytes using join by auto
        ultimately show ?thesis using i by (intro exI [of _ "?l @ ?b' # ?r"]) (auto simp del: free_scan.simps dest: in_set_takeD in_set_dropD)
      qed
    qed
  next
    case F1: False
    show ?thesis
    proof (cases "off + n = fb_offset ?b")
      case True
      let ?b' = "blk off (fb_size ?b + n)"
      have up: "blk off (u64 (fb_size ?b + n)) = ?b'" using True O u64_id [of "fb_size ?b + n"] by simp
      have "blocks_ok (?l @ ?b' # ?r) \<and> (i \<noteq> 0 \<longrightarrow> fb_end (bs ! (i - 1)) \<noteq> off)"
      proof
        have "fb_offset a + fb_size a < off" if "a \<in> set ?l" for a
        proof -
          obtain j where j: "j < i" "a = bs ! j" using \<open>a \<in> set ?l\<close> by (auto simp: in_set_conv_nth)
          have "0 < fb_size a" "region off n \<inter> region (fb_offset a) (fb_size a) = {}"
            using that O dis bytes by (auto simp: blocks_ok_def blocks_bytes_def)
          with region_disjoint_iff [OF n(1), of "fb_size a" off "fb_offset a"] lb [OF that] Suc.prems(2) j True n(1)
          show ?thesis by fastforce
        qed
        then show "blocks_ok (?l @ ?b' # ?r)" using O True n by (fastforce simp: blocks_ok_append blocks_ok_Cons)
        show "i \<noteq> 0 \<longrightarrow> fb_end (bs ! (i - 1)) \<noteq> off"
          using Suc.prems(2) ok i by (auto simp: fb_end_def blocks_ok_def u64_id)
      qed
      moreover from this have "free_scan (Suc k) i off n bs = Some (?l @ ?b' # ?r)"
        using i e F1 True up n(2) u64_id [of "off + n"] by (auto simp: vget_def Let_def update_at)
      moreover have "blocks_bytes (?l @ ?b' # ?r) = blocks_bytes bs \<union> region off n"
      proof -
        have "region off n \<union> region (fb_offset ?b) (fb_size ?b) = region off (fb_size ?b + n)"
          using region_join [of off n "fb_size ?b"] True by (simp add: add.commute)
        then show ?thesis unfolding bytes by auto
      qed
      ultimately show ?thesis using i by (intro exI [of _ "?l @ ?b' # ?r"]) (auto simp del: free_scan.simps dest: in_set_takeD in_set_dropD)
    next
      case False
      have "free_scan (Suc k) i off n bs = free_scan k (i + 1) off n bs"
        using i e F1 False n(2) u64_id [of "off + n"] by (simp add: vget_def)
      moreover have "\<exists>bs'. yields (free_scan k (i + 1) off n bs) bs' (length bs < MAX_FREE_BLOCKS) \<and> blocks_ok bs' \<and> blocks_bytes bs' = blocks_bytes bs \<union> region off n
          \<and> fb_offset ` set bs' \<subseteq> insert off (fb_offset ` set bs)"
        by (rule Suc.IH) (use Suc.prems F1 False in \<open>auto simp: less_Suc_eq\<close>)
      ultimately show ?thesis by simp
    qed
  qed
qed

end
