(* ===== verification/Alloc_Dyn.thy ===== *)
theory Alloc_Dyn
  imports Alloc_Blocks
begin

text \<open>
  The invariant of \<^verbatim>\<open>ggml_dyn_tallocr\<close>: in every chunk the free blocks and the regions in use are disjoint and together
  cover the chunk. Searching, allocating and freeing.
\<close>

section \<open>Alignment\<close>

definition padded :: "nat \<Rightarrow> nat \<Rightarrow> nat" where
  "padded al n = (n + al - 1) div al * al"

lemma padded_props:
  assumes "0 < al"
  shows "al dvd padded al n" "n \<le> padded al n" "padded al n < n + al" "0 < n \<Longrightarrow> 0 < padded al n"
proof -
  show "al dvd padded al n" by (simp add: padded_def)
  have "padded al n + (n + al - 1) mod al = n + al - 1" by (simp add: padded_def)
  moreover have "(n + al - 1) mod al < al" using assms by simp
  ultimately show "n \<le> padded al n" "padded al n < n + al" using assms by linarith+
  then show "0 < n \<Longrightarrow> 0 < padded al n" by simp
qed

lemma padded_unique:
  assumes "0 < al" "al dvd m" "n \<le> m" "m < n + al"
  shows "m = padded al n"
proof -
  note P = padded_props [OF assms(1), of n]
  obtain a b where ab: "m = al * a" "padded al n = al * b" using assms(2) P(1) by (auto elim!: dvdE)
  have "al * a < al * (b + 1)" "al * b < al * (a + 1)" using assms(3,4) P(2,3) ab by auto
  then have "a = b" using assms(1) by (simp del: mult_Suc_right)
  with ab show ?thesis by simp
qed

lemma aligned_offset_Some: "aligned_offset b n al = Some m \<Longrightarrow> alignment_ok al"
  by (simp add: aligned_offset_def)

lemma alignment_ok_power: "alignment_ok (2 ^ k)"
proof -
  have "(2 ^ k :: nat) AND (2 ^ k - 1) = take_bit k (2 ^ k)" by (simp only: take_bit_eq_mask mask_eq_exp_minus_1)
  then show ?thesis by (simp add: alignment_ok_def)
qed

lemma aligned_offset_padded:
  assumes "alignment_ok al" "n \<le> SIZE_MAX div 2" "al \<le> SIZE_MAX div 2"
  shows "aligned_offset 0 n al = Some (padded al n)"
proof -
  have al: "0 < al" using assms(1) by (simp add: alignment_ok_def)
  let ?m = "n + (al - n mod al) mod al"
  have "al dvd ?m"
  proof (cases "n mod al = 0")
    case False
    have "n mod al < al" "n mod al \<le> n" using al by simp_all
    with False have "?m = n - n mod al + al" by simp
    then show ?thesis by (simp only: dvd_add_triv_right_iff dvd_minus_mod)
  qed (use al in auto)
  then have m: "?m = padded al n" by (rule padded_unique [OF al]) (use al in auto)
  have u: "u64 n = n" "u64 (padded al n) = padded al n"
    using assms al padded_props(3) [OF al, of n] by (simp_all add: SIZE_MAX_def)
  show ?thesis using assms(1) m u by (simp add: aligned_offset_def Let_def)
qed

section \<open>Searching\<close>

definition fits :: "nat \<Rightarrow> tallocr_chunk list \<Rightarrow> nat \<times> nat \<Rightarrow> bool" where
  "fits n chunks = (\<lambda>(c, i). c < length chunks \<and> i < length (tc_free_blocks (chunks ! c))
     \<and> n \<le> fb_size (tc_free_blocks (chunks ! c) ! i))"

lemma best_fit_fits:
  assumes "c < length chunks" and "\<And>r. best = Some r \<Longrightarrow> fits n chunks r"
  shows "best_fit_chunk n (c, chunks ! c) best = Some r \<Longrightarrow> fits n chunks r"
proof -
  let ?bs = "tc_free_blocks (chunks ! c)"
  have "\<forall>r. fst (fold (best_fit_step n c) (enumerate 0 (butlast ?bs)) (best, SIZE_MAX)) = Some r \<longrightarrow> fits n chunks r"
  proof (rule fold_invariant [where Q = "\<lambda>(i, b). i < length ?bs \<and> b = ?bs ! i" and P = "\<lambda>s. \<forall>r. fst s = Some r \<longrightarrow> fits n chunks r"])
    show "case x of (i, b) \<Rightarrow> i < length ?bs \<and> b = ?bs ! i" if "x \<in> set (enumerate 0 (butlast ?bs))" for x
      using that by (auto simp: in_set_enumerate_eq nth_butlast)
    show "\<forall>r. fst (best_fit_step n c x s) = Some r \<longrightarrow> fits n chunks r"
      if "case x of (i, b) \<Rightarrow> i < length ?bs \<and> b = ?bs ! i" "\<forall>r. fst s = Some r \<longrightarrow> fits n chunks r" for x s
      using that assms(1) by (auto simp: best_fit_step_def fits_def split: prod.splits if_splits)
  qed (use assms(2) in auto)
  then show "best_fit_chunk n (c, chunks ! c) best = Some r \<Longrightarrow> fits n chunks r" by (simp add: best_fit_chunk_def)
qed

lemma find_block_fits:
  assumes "find_block n chunks = Some r"
  shows "fits n chunks r"
proof (cases "find_best_fit n chunks")
  case None
  have "\<forall>r. fst (fold (last_block_step n) (enumerate 0 chunks) (None, INT64_MIN)) = Some r \<longrightarrow> fits n chunks r"
  proof (rule fold_invariant [where Q = "\<lambda>(c, ch). c < length chunks \<and> ch = chunks ! c" and P = "\<lambda>s. \<forall>r. fst s = Some r \<longrightarrow> fits n chunks r"])
    show "\<forall>r. fst (last_block_step n x s) = Some r \<longrightarrow> fits n chunks r"
      if "case x of (c, ch) \<Rightarrow> c < length chunks \<and> ch = chunks ! c" "\<forall>r. fst s = Some r \<longrightarrow> fits n chunks r" for x s
      using that by (auto simp: last_block_step_def fits_def Let_def last_conv_nth split: prod.splits if_splits)
  qed (auto simp: in_set_enumerate_eq)
  then show ?thesis using assms None by (cases r) (simp add: find_block_def find_last_block_def)
next
  case (Some q)
  have "\<forall>r. find_best_fit n chunks = Some r \<longrightarrow> fits n chunks r"
    unfolding find_best_fit_def
  proof (rule fold_invariant [where Q = "\<lambda>(c, ch). c < length chunks \<and> ch = chunks ! c" and P = "\<lambda>s. \<forall>r. s = Some r \<longrightarrow> fits n chunks r"])
    show "\<forall>r. best_fit_chunk n x s = Some r \<longrightarrow> fits n chunks r"
      if "case x of (c, ch) \<Rightarrow> c < length chunks \<and> ch = chunks ! c" "\<forall>r. s = Some r \<longrightarrow> fits n chunks r" for x s
    proof (intro allI impI)
      fix r assume r: "best_fit_chunk n x s = Some r"
      from that(1) obtain c where "c < length chunks" "x = (c, chunks ! c)" by (cases x) auto
      with best_fit_fits [of c chunks s n r] that(2) r show "fits n chunks r" by simp
    qed
  qed (auto simp: in_set_enumerate_eq)
  then show ?thesis using assms Some by (cases r) (simp add: find_block_def)
qed

text \<open>A search that may only set its result finds something as soon as one element makes it.\<close>

lemma fold_finds:
  assumes "x \<in> set xs" and "I s" and "\<And>y s. y \<in> set xs \<Longrightarrow> I s \<Longrightarrow> I (f y s) \<and> (g s \<noteq> None \<longrightarrow> g (f y s) \<noteq> None)"
    and "\<And>s. I s \<Longrightarrow> g (f x s) \<noteq> None"
  shows "g (fold f xs s) \<noteq> None"
proof -
  have keep: "g (fold f ys s) \<noteq> None" if "g s \<noteq> None" "I s" "set ys \<subseteq> set xs" for ys s
    using that by (induction ys arbitrary: s) (use assms(3) in auto)
  obtain as bs where xs: "xs = as @ x # bs" using split_list [OF assms(1)] by blast
  have "I (fold f ys s)" if "set ys \<subseteq> set xs" "I s" for ys s
    using that by (induction ys arbitrary: s) (use assms(3) in auto)
  moreover have "set as \<subseteq> set xs" using xs by auto
  ultimately have "I (fold f as s)" using assms(2) by blast
  then show ?thesis using keep [of "f x (fold f as s)" bs] assms(1,3,4) xs by auto
qed

lemma s64_id:
  assumes "- (2 ^ 63) \<le> x" "x < 2 ^ 63"
  shows "s64 x = x"
proof (cases "0 \<le> x")
  case True
  with assms show ?thesis by (simp add: s64_def)
next
  case False
  have "x mod 2 ^ 64 = (x + 2 ^ 64) mod 2 ^ 64" by simp
  also have "\<dots> = x + 2 ^ 64" by (rule mod_pos_pos_trivial) (use False assms in auto)
  finally show ?thesis using assms False by (simp add: s64_def)
qed

lemma in_enumerate:
  assumes "x \<in> set xs"
  obtains k where "(k, x) \<in> set (enumerate 0 xs)"
proof -
  from assms obtain k where "k < length xs" "xs ! k = x" unfolding in_set_conv_nth by blast
  then show thesis by (intro that [of k]) (simp add: in_set_enumerate_eq)
qed

lemma find_block_complete:
  assumes ch: "chunk \<in> set chunks" and b: "b \<in> set (tc_free_blocks chunk)" and n: "n \<le> fb_size b"
    and cap: "fb_offset b + fb_size b \<le> SIZE_MAX div 2" "tc_max_size chunk \<le> SIZE_MAX div 2"
  shows "find_block n chunks \<noteq> None"
proof (cases "b \<in> set (butlast (tc_free_blocks chunk))")
  case True
  from ch obtain c where c: "(c, chunk) \<in> set (enumerate 0 chunks)" by (rule in_enumerate)
  from True obtain i where i: "(i, b) \<in> set (enumerate 0 (butlast (tc_free_blocks chunk)))" by (rule in_enumerate)
  have inner: "fst (fold (best_fit_step n k) xs (best, SIZE_MAX)) \<noteq> None"
    if "best \<noteq> None \<or> (i, b) \<in> set xs" for best k xs
  proof (cases "best = None")
    case False
    have "fst (fold (best_fit_step n k) xs (best, SIZE_MAX)) \<noteq> None"
      by (rule fold_invariant [where Q = "\<lambda>_. True" and P = "\<lambda>s. fst s \<noteq> None"]) (use False in \<open>auto simp: best_fit_step_def split: prod.splits\<close>)
    then show ?thesis .
  next
    case True
    then have "(i, b) \<in> set xs" using that by simp
    then show ?thesis
      by (rule fold_finds [where I = "\<lambda>s. snd s \<le> SIZE_MAX \<and> (fst s = None \<longrightarrow> snd s = SIZE_MAX)"])
        (use n cap in \<open>auto simp: best_fit_step_def SIZE_MAX_def split: prod.splits if_splits\<close>)
  qed
  have "find_best_fit n chunks \<noteq> None"
    unfolding find_best_fit_def
    by (rule fold_finds [where g = "\<lambda>s. s" and I = "\<lambda>_. True", OF c]) (use inner i in \<open>auto simp: best_fit_chunk_def\<close>)
  then show ?thesis by (auto simp: find_block_def)
next
  case False
  then have last: "b = last (tc_free_blocks chunk)" "tc_free_blocks chunk \<noteq> []"
    using b by (cases "tc_free_blocks chunk" rule: rev_cases; auto)+
  from ch obtain c where c: "(c, chunk) \<in> set (enumerate 0 chunks)" by (rule in_enumerate)
  let ?x = "int (tc_max_size chunk) - int (fb_offset b) - int n"
  have "- (2 ^ 63) < ?x" "?x < 2 ^ 63" using n cap by (auto simp: SIZE_MAX_def)
  then have s: "s64 ?x > INT64_MIN" using s64_id [of ?x] by (simp add: INT64_MIN_def)
  have "find_last_block n chunks \<noteq> None"
    unfolding find_last_block_def
    by (rule fold_finds [where I = "\<lambda>s. fst s = None \<longrightarrow> snd s = INT64_MIN", OF c])
      (use n last s in \<open>auto simp: last_block_step_def Let_def INT64_MIN_def split: prod.splits if_splits\<close>)
  then show ?thesis by (auto simp: find_block_def split: option.splits)
qed

section \<open>The invariant\<close>

text \<open>A region in use is its address and the size that was asked for; it takes up the padded size.\<close>

type_synonym live_region = "buffer_address \<times> nat"

definition region_bytes :: "nat \<Rightarrow> live_region \<Rightarrow> (nat \<times> nat) set" where
  "region_bytes al = (\<lambda>(ad, n). {ad_chunk ad} \<times> region (ad_offset ad) (padded al n))"

definition live_bytes :: "nat \<Rightarrow> live_region set \<Rightarrow> nat \<Rightarrow> nat set" where
  "live_bytes al L c = {x. \<exists>r \<in> L. (c, x) \<in> region_bytes al r}"

definition chunk_ok :: "nat \<Rightarrow> tallocr_chunk \<Rightarrow> nat set \<Rightarrow> bool" where
  "chunk_ok al chunk U \<longleftrightarrow> blocks_ok (tc_free_blocks chunk) \<and> (\<forall>b \<in> set (tc_free_blocks chunk). al dvd fb_offset b)
     \<and> tc_max_size chunk \<le> SIZE_MAX div 2 \<and> blocks_bytes (tc_free_blocks chunk) \<inter> U = {}
     \<and> (\<exists>cap \<le> SIZE_MAX div 2. 0 < cap \<and> blocks_bytes (tc_free_blocks chunk) \<union> U = {..<cap})"

definition region_ok :: "dyn_tallocr \<Rightarrow> live_region \<Rightarrow> bool" where
  "region_ok a = (\<lambda>(ad, n). ad_chunk ad < length (dt_chunks a) \<and> 0 < n \<and> n \<le> SIZE_MAX div 2 \<and> dt_alignment a dvd ad_offset ad
     \<and> ad_offset ad + padded (dt_alignment a) n \<le> tc_max_size (dt_chunks a ! ad_chunk ad))"

definition dyn_inv :: "dyn_tallocr \<Rightarrow> live_region set \<Rightarrow> bool" where
  "dyn_inv a L \<longleftrightarrow> 0 < dt_alignment a \<and> dt_alignment a \<le> SIZE_MAX div 2 \<and> dt_max_chunk_size a \<le> SIZE_MAX div 2
     \<and> (\<forall>r \<in> L. region_ok a r) \<and> (\<forall>r \<in> L. \<forall>q \<in> L. r \<noteq> q \<longrightarrow> region_bytes (dt_alignment a) r \<inter> region_bytes (dt_alignment a) q = {})
     \<and> (\<forall>c < length (dt_chunks a). chunk_ok (dt_alignment a) (dt_chunks a ! c) (live_bytes (dt_alignment a) L c))"

lemma live_bytes_insert: "live_bytes al (insert (ad, n) L) c
    = (if c = ad_chunk ad then region (ad_offset ad) (padded al n) \<union> live_bytes al L c else live_bytes al L c)"
  by (auto simp: live_bytes_def region_bytes_def)

lemma live_bytes_region: "r \<in> L \<Longrightarrow> region (ad_offset (fst r)) (padded al (snd r)) \<subseteq> live_bytes al L (ad_chunk (fst r))"
  by (cases r) (auto simp: live_bytes_def region_bytes_def)

lemma live_bytes_beyond: "\<forall>r \<in> L. ad_chunk (fst r) < c \<Longrightarrow> live_bytes al L c = {}"
  by (auto simp: live_bytes_def region_bytes_def)

lemma dyn_inv_new:
  "0 < al \<Longrightarrow> al \<le> SIZE_MAX div 2 \<Longrightarrow> dyn_inv (dyn_tallocr_new al m) {}"
  by (simp add: dyn_inv_def dyn_tallocr_new_def dyn_tallocr_reset_def)

text \<open>A new chunk is one free block, big enough for the request.\<close>

lemma new_chunk_inv:
  assumes "dyn_inv a L" and "new_chunk n a = Some (c, a')" and "n \<le> SIZE_MAX div 2" "0 < n"
  shows "dyn_inv a' L" "fits n (dt_chunks a') (c, 0)" "dt_alignment a' = dt_alignment a" "length (tc_free_blocks (dt_chunks a' ! c)) = 1"
proof -
  let ?m = "if length (dt_chunks a) = GGML_VBUFFER_MAX_CHUNKS - 1 then SIZE_MAX div 2 else max n (dt_max_chunk_size a)"
  have a': "a' = a\<lparr>dt_chunks := dt_chunks a @ [\<lparr>tc_free_blocks = [blk 0 ?m], tc_max_size = 0\<rparr>]\<rparr>" "c = length (dt_chunks a)"
    using assms(2) by (auto simp: new_chunk_def Let_def split: if_splits)
  have m: "n \<le> ?m" "?m \<le> SIZE_MAX div 2" using assms(1,3) by (simp_all add: dyn_inv_def)
  have in_old: "\<forall>r \<in> L. ad_chunk (fst r) < length (dt_chunks a)" using assms(1) by (auto simp: dyn_inv_def region_ok_def)
  show "dyn_inv a' L"
    unfolding dyn_inv_def
  proof (intro conjI allI impI ballI)
    fix r assume "r \<in> L"
    then have "region_ok a r" using assms(1) by (simp add: dyn_inv_def)
    then show "region_ok a' r" by (cases r) (simp add: region_ok_def a' nth_append)
  next
    fix k assume k: "k < length (dt_chunks a')"
    show "chunk_ok (dt_alignment a') (dt_chunks a' ! k) (live_bytes (dt_alignment a') L k)"
    proof (cases "k = length (dt_chunks a)")
      case True
      have "?m \<le> SIZE_MAX" using m(2) by simp
      then have "blocks_ok [blk 0 ?m]" using m(1) assms(4) by (simp add: blocks_ok_Cons)
      moreover have "blocks_bytes [blk 0 ?m] = {..<?m}" by (auto simp: region_def)
      ultimately show ?thesis using True live_bytes_beyond [OF in_old] m assms(4) unfolding a' by (auto simp: chunk_ok_def)
    next
      case False
      with k assms(1) show ?thesis by (simp add: a' nth_append dyn_inv_def)
    qed
  qed (use assms(1) a' in \<open>simp_all add: dyn_inv_def\<close>)
  show "fits n (dt_chunks a') (c, 0)" "dt_alignment a' = dt_alignment a" "length (tc_free_blocks (dt_chunks a' ! c)) = 1"
    using m(1) by (simp_all add: a' fits_def)
qed

lemma chunk_inv_update:
  assumes inv: "dyn_inv a L" and c: "c < length (dt_chunks a)" and ok: "chunk_ok (dt_alignment a) ch (live_bytes (dt_alignment a) L' c)"
    and grow: "tc_max_size (dt_chunks a ! c) \<le> tc_max_size ch"
    and others: "\<And>k. k \<noteq> c \<Longrightarrow> live_bytes (dt_alignment a) L' k = live_bytes (dt_alignment a) L k"
    and new: "\<forall>r \<in> L' - L. region_ok (a\<lparr>dt_chunks := (dt_chunks a)[c := ch]\<rparr>) r"
    and dis: "\<forall>r \<in> L'. \<forall>q \<in> L'. r \<noteq> q \<longrightarrow> region_bytes (dt_alignment a) r \<inter> region_bytes (dt_alignment a) q = {}"
  shows "dyn_inv (a\<lparr>dt_chunks := (dt_chunks a)[c := ch]\<rparr>) L'"
proof -
  have "region_ok (a\<lparr>dt_chunks := (dt_chunks a)[c := ch]\<rparr>) r" if "r \<in> L" for r
  proof -
    have "region_ok a r" using inv that by (simp add: dyn_inv_def)
    then show ?thesis using grow c by (cases r) (auto simp: region_ok_def nth_list_update_if)
  qed
  moreover have "chunk_ok (dt_alignment a) ((dt_chunks a)[c := ch] ! k) (live_bytes (dt_alignment a) L' k)" if "k < length (dt_chunks a)" for k
    using that inv ok others by (cases "k = c") (auto simp: dyn_inv_def)
  ultimately show ?thesis using inv new dis by (auto simp: dyn_inv_def)
qed

end
