(* ===== verification/Alloc_Safe.thy ===== *)
theory Alloc_Safe
  imports Alloc_Dyn
begin

text \<open>
  The contract of an allocator as a locale, and its interpretations by \<^verbatim>\<open>ggml_dyn_tallocr\<close> and \<^verbatim>\<open>ggml_tallocr\<close>: through
  any sequence of allocations and frees, regions in use never overlap.
\<close>

section \<open>Allocating\<close>

text \<open>The requests for which no arithmetic wraps.\<close>

definition request_ok :: "dyn_tallocr \<Rightarrow> nat \<Rightarrow> bool" where
  "request_ok a n \<longleftrightarrow> 0 < n \<and> n \<le> SIZE_MAX div 2 \<and> padded (dt_alignment a) n \<le> SIZE_MAX div 2"

lemma alloc_in_block:
  assumes inv: "dyn_inv a L" and req: "request_ok a n" and fit: "fits (padded (dt_alignment a) n) (dt_chunks a) (c, i)"
  defines "m \<equiv> padded (dt_alignment a) n" and "chunk \<equiv> dt_chunks a ! c"
  shows "\<exists>off bs. yields (take_front m i (tc_free_blocks chunk)) (off, bs) (length (tc_free_blocks chunk) < MAX_FREE_BLOCKS \<or> m < fb_size (tc_free_blocks chunk ! i))
    \<and> (\<lparr>ad_chunk = c, ad_offset = off\<rparr>, n) \<notin> L
    \<and> dyn_inv (a\<lparr>dt_chunks := (dt_chunks a)[c := \<lparr>tc_free_blocks = bs, tc_max_size = max (tc_max_size chunk) (u64 (off + m))\<rparr>]\<rparr>)
        (insert (\<lparr>ad_chunk = c, ad_offset = off\<rparr>, n) L)"
proof -
  let ?al = "dt_alignment a" and ?b = "tc_free_blocks chunk ! i" and ?U = "live_bytes (dt_alignment a) L c"
  let ?off = "fb_offset ?b" let ?r = "(\<lparr>ad_chunk = c, ad_offset = ?off\<rparr>, n)"
  have al: "0 < ?al" using inv by (simp add: dyn_inv_def)
  have c: "c < length (dt_chunks a)" and i: "i < length (tc_free_blocks chunk)" "m \<le> fb_size ?b"
    using fit by (simp_all add: fits_def m_def chunk_def)
  have C: "blocks_ok (tc_free_blocks chunk)" "\<forall>b \<in> set (tc_free_blocks chunk). ?al dvd fb_offset b" "tc_max_size chunk \<le> SIZE_MAX div 2"
    "blocks_bytes (tc_free_blocks chunk) \<inter> ?U = {}"
    and "\<exists>cap \<le> SIZE_MAX div 2. 0 < cap \<and> blocks_bytes (tc_free_blocks chunk) \<union> ?U = {..<cap}"
    using inv c unfolding dyn_inv_def chunk_ok_def chunk_def by blast+
  then obtain cap where cap: "cap \<le> SIZE_MAX div 2" "blocks_bytes (tc_free_blocks chunk) \<union> ?U = {..<cap}" "0 < cap" by blast
  have m: "0 < m" using padded_props(4) [OF al] req by (simp add: m_def request_ok_def)
  obtain bs where bs: "yields (take_front m i (tc_free_blocks chunk)) (?off, bs) (length (tc_free_blocks chunk) < MAX_FREE_BLOCKS \<or> m < fb_size ?b)"
    "blocks_ok bs" "region ?off m \<subseteq> blocks_bytes (tc_free_blocks chunk)" "blocks_bytes bs = blocks_bytes (tc_free_blocks chunk) - region ?off m"
    "\<forall>b \<in> set bs. b \<in> set (tc_free_blocks chunk) \<or> fb_offset b = ?off + m"
    using take_front_ok [OF C(1) i(1) m i(2)] by blast
  have "?off + m - 1 \<in> region ?off m" using m by (simp add: region_def)
  then have "?off + m - 1 < cap" using bs(3) cap(2) by auto
  then have top: "?off + m \<le> SIZE_MAX div 2" "u64 (?off + m) = ?off + m" using cap(1) m u64_id [of "?off + m"] by auto
  have dvd: "?al dvd ?off" "?al dvd m" using C(2) i(1) padded_props(1) [OF al] by (simp_all add: m_def)
  let ?ch = "\<lparr>tc_free_blocks = bs, tc_max_size = max (tc_max_size chunk) (u64 (?off + m))\<rparr>"
  have fresh: "region_bytes ?al ?r \<inter> region_bytes ?al q = {}" if "q \<in> L" for q
    using live_bytes_region [OF that] bs(3) C(4) by (cases q) (fastforce simp: region_bytes_def m_def)
  have "region_bytes ?al ?r \<noteq> {}" using m by (auto simp: region_bytes_def region_def m_def)
  then have "?r \<notin> L" using fresh by blast
  moreover have "dyn_inv (a\<lparr>dt_chunks := (dt_chunks a)[c := ?ch]\<rparr>) (insert ?r L)"
  proof (rule chunk_inv_update [OF inv c])
    have "live_bytes ?al (insert ?r L) c = region ?off m \<union> ?U" by (simp add: live_bytes_insert m_def)
    moreover have "blocks_bytes bs \<inter> (region ?off m \<union> ?U) = {}" "blocks_bytes bs \<union> (region ?off m \<union> ?U) = {..<cap}"
      using bs(3,4) C(4) cap(2) by auto
    ultimately show "chunk_ok ?al ?ch (live_bytes ?al (insert ?r L) c)"
      using bs(2,5) C(2,3) dvd top cap(1,3) by (auto simp: chunk_ok_def)
    show "\<forall>q \<in> insert ?r L - L. region_ok (a\<lparr>dt_chunks := (dt_chunks a)[c := ?ch]\<rparr>) q"
      using c req dvd(1) top(2) by (auto simp: region_ok_def request_ok_def m_def)
    show "\<forall>r \<in> insert ?r L. \<forall>q \<in> insert ?r L. r \<noteq> q \<longrightarrow> region_bytes ?al r \<inter> region_bytes ?al q = {}"
      using fresh inv unfolding dyn_inv_def by blast
  qed (simp_all add: live_bytes_insert chunk_def)
  ultimately show ?thesis using bs(1) by blast
qed

lemma dyn_alloc_ok:
  assumes inv: "dyn_inv a L" and req: "request_ok a n" and run: "dyn_tallocr_alloc n a = Some (ad, a')"
  shows "(ad, n) \<notin> L" "dyn_inv a' (insert (ad, n) L)" "dt_alignment a' = dt_alignment a"
proof -
  let ?m = "padded (dt_alignment a) n"
  have pow: "alignment_ok (dt_alignment a)"
    using run aligned_offset_Some by (auto simp: dyn_tallocr_alloc_def split: bind_splits)
  have n: "aligned_offset 0 n (dt_alignment a) = Some ?m"
    using aligned_offset_padded [OF pow] inv req by (simp add: dyn_inv_def request_ok_def)
  have m0: "0 < ?m" using padded_props(4) inv req by (simp add: dyn_inv_def request_ok_def)
  obtain c i a1 where f: "(case find_block ?m (dt_chunks a) of Some r \<Rightarrow> Some (r, a)
       | None \<Rightarrow> do { (c, a) \<leftarrow> new_chunk ?m a; Some ((c, 0), a) }) = Some ((c, i), a1)"
    using run n by (auto simp: dyn_tallocr_alloc_def split: bind_splits)
  have a1: "dyn_inv a1 L \<and> fits ?m (dt_chunks a1) (c, i) \<and> dt_alignment a1 = dt_alignment a"
  proof (cases "find_block ?m (dt_chunks a)")
    case None
    with f have "new_chunk ?m a = Some (c, a1)" "i = 0" by (auto split: bind_splits)
    with new_chunk_inv [OF inv this(1) _ m0] req show ?thesis by (simp add: request_ok_def)
  next
    case (Some r)
    with f find_block_fits [OF Some] inv show ?thesis by simp
  qed
  have req1: "request_ok a1 n" using req a1 by (simp add: request_ok_def)
  from alloc_in_block [OF _ req1, of L c i] a1 obtain off bs where
    t: "yields (take_front ?m i (tc_free_blocks (dt_chunks a1 ! c))) (off, bs) (length (tc_free_blocks (dt_chunks a1 ! c)) < MAX_FREE_BLOCKS \<or> ?m < fb_size (tc_free_blocks (dt_chunks a1 ! c) ! i))"
    "(\<lparr>ad_chunk = c, ad_offset = off\<rparr>, n) \<notin> L"
    "dyn_inv (a1\<lparr>dt_chunks := (dt_chunks a1)[c := \<lparr>tc_free_blocks = bs, tc_max_size = max (tc_max_size (dt_chunks a1 ! c)) (u64 (off + ?m))\<rparr>]\<rparr>)
        (insert (\<lparr>ad_chunk = c, ad_offset = off\<rparr>, n) L)" by auto
  have "take_front ?m i (tc_free_blocks (dt_chunks a1 ! c)) \<noteq> None"
    using run n f by (auto simp: dyn_tallocr_alloc_def split: bind_splits)
  then have "ad = \<lparr>ad_chunk = c, ad_offset = off\<rparr> \<and> a' = a1\<lparr>dt_chunks := (dt_chunks a1)[c := \<lparr>tc_free_blocks = bs, tc_max_size = max (tc_max_size (dt_chunks a1 ! c)) (u64 (off + ?m))\<rparr>]\<rparr>"
    using run n f t(1) by (auto simp: yields_def dyn_tallocr_alloc_def Let_def split: bind_splits)
  with t(2,3) a1 show "(ad, n) \<notin> L" "dyn_inv a' (insert (ad, n) L)" "dt_alignment a' = dt_alignment a" by simp_all
qed

text \<open>An allocation succeeds while there is a slot for a free block in every chunk and a chunk can still be made; a block that
  fits is found before a chunk is made.\<close>

lemma dyn_alloc_total:
  assumes inv: "dyn_inv a L" and pow: "alignment_ok (dt_alignment a)" and req: "request_ok a n" and slots: "\<forall>chunk \<in> set (dt_chunks a). length (tc_free_blocks chunk) < MAX_FREE_BLOCKS"
    and room: "length (dt_chunks a) < GGML_VBUFFER_MAX_CHUNKS
      \<or> (\<exists>chunk \<in> set (dt_chunks a). \<exists>b \<in> set (tc_free_blocks chunk). padded (dt_alignment a) n \<le> fb_size b)"
  shows "\<exists>ad a'. dyn_tallocr_alloc n a = Some (ad, a')"
    "(\<exists>chunk \<in> set (dt_chunks a). \<exists>b \<in> set (tc_free_blocks chunk). padded (dt_alignment a) n \<le> fb_size b)
      \<Longrightarrow> dyn_tallocr_alloc n a = Some (ad, a') \<Longrightarrow> length (dt_chunks a') = length (dt_chunks a)"
proof -
  let ?m = "padded (dt_alignment a) n"
  have n: "aligned_offset 0 n (dt_alignment a) = Some ?m"
    using aligned_offset_padded [OF pow] inv req by (simp add: dyn_inv_def request_ok_def)
  have m0: "0 < ?m" using padded_props(4) inv req by (simp add: dyn_inv_def request_ok_def)
  have found: "find_block ?m (dt_chunks a) \<noteq> None"
    if "chunk \<in> set (dt_chunks a)" "b \<in> set (tc_free_blocks chunk)" "?m \<le> fb_size b" for chunk b
  proof (rule find_block_complete [OF that])
    from that(1) obtain c where c: "c < length (dt_chunks a)" "dt_chunks a ! c = chunk" by (auto simp: in_set_conv_nth)
    then have ok: "chunk_ok (dt_alignment a) chunk (live_bytes (dt_alignment a) L c)" using inv by (auto simp: dyn_inv_def)
    then show "tc_max_size chunk \<le> SIZE_MAX div 2" by (simp add: chunk_ok_def)
    from ok obtain cap where cap: "cap \<le> SIZE_MAX div 2" "blocks_bytes (tc_free_blocks chunk) \<subseteq> {..<cap}" by (auto simp: chunk_ok_def)
    have "fb_offset b + fb_size b - 1 \<in> blocks_bytes (tc_free_blocks chunk)"
      using that(2,3) m0 by (auto simp: blocks_bytes_def region_def intro!: bexI [of _ b])
    with cap show "fb_offset b + fb_size b \<le> SIZE_MAX div 2" by auto
  qed
  have "\<exists>c i a1. (case find_block ?m (dt_chunks a) of Some r \<Rightarrow> Some (r, a)
       | None \<Rightarrow> do { (c, a) \<leftarrow> new_chunk ?m a; Some ((c, 0), a) }) = Some ((c, i), a1)
     \<and> dyn_inv a1 L \<and> fits ?m (dt_chunks a1) (c, i) \<and> dt_alignment a1 = dt_alignment a \<and> length (tc_free_blocks (dt_chunks a1 ! c)) < MAX_FREE_BLOCKS"
  proof (cases "find_block ?m (dt_chunks a)")
    case None
    with found room have "length (dt_chunks a) < GGML_VBUFFER_MAX_CHUNKS" by blast
    then obtain c a1 where nc: "new_chunk ?m a = Some (c, a1)" by (simp add: new_chunk_def Let_def)
    with None new_chunk_inv [OF inv nc _ m0] req show ?thesis by (simp add: request_ok_def MAX_FREE_BLOCKS_def)
  next
    case (Some r)
    obtain c i where r: "r = (c, i)" by (cases r)
    with find_block_fits [OF Some] inv slots Some show ?thesis by (auto simp: fits_def)
  qed
  then obtain c i a1 where f: "(case find_block ?m (dt_chunks a) of Some r \<Rightarrow> Some (r, a)
       | None \<Rightarrow> do { (c, a) \<leftarrow> new_chunk ?m a; Some ((c, 0), a) }) = Some ((c, i), a1)"
    "dyn_inv a1 L" "fits ?m (dt_chunks a1) (c, i)" "dt_alignment a1 = dt_alignment a" "length (tc_free_blocks (dt_chunks a1 ! c)) < MAX_FREE_BLOCKS" by blast
  have req1: "request_ok a1 n" using req f(4) by (simp add: request_ok_def)
  from alloc_in_block [OF f(2) req1, of c i] f(3-5) obtain off bs where "take_front ?m i (tc_free_blocks (dt_chunks a1 ! c)) = Some (off, bs)"
    by (auto simp: yields_def)
  then show "\<exists>ad a'. dyn_tallocr_alloc n a = Some (ad, a')"
    using f(1,3) n by (auto simp: dyn_tallocr_alloc_def vget_def fits_def Let_def)
  assume "\<exists>chunk \<in> set (dt_chunks a). \<exists>b \<in> set (tc_free_blocks chunk). ?m \<le> fb_size b" and run: "dyn_tallocr_alloc n a = Some (ad, a')"
  then obtain r where r: "find_block ?m (dt_chunks a) = Some r" using found by blast
  then show "length (dt_chunks a') = length (dt_chunks a)"
    using run n by (auto simp: dyn_tallocr_alloc_def Let_def split: bind_splits prod.splits)
qed

section \<open>Freeing\<close>

lemma dyn_free_yields:
  assumes inv: "dyn_inv a L" and pow: "alignment_ok (dt_alignment a)" and r: "(ad, n) \<in> L"
  shows "\<exists>a'. yields (dyn_tallocr_free_bytes ad n a) a' (length (tc_free_blocks (dt_chunks a ! ad_chunk ad)) < MAX_FREE_BLOCKS)
    \<and> dyn_inv a' (L - {(ad, n)}) \<and> dt_alignment a' = dt_alignment a"
proof -
  let ?al = "dt_alignment a" and ?c = "ad_chunk ad" and ?off = "ad_offset ad" let ?chunk = "dt_chunks a ! ?c" and ?m = "padded ?al n"
  let ?U = "live_bytes ?al L ?c"
  have al: "0 < ?al" and R: "?c < length (dt_chunks a)" "0 < n" "n \<le> SIZE_MAX div 2" "?al dvd ?off" "?off + ?m \<le> tc_max_size ?chunk"
    using inv r by (auto simp: dyn_inv_def region_ok_def)
  have C: "blocks_ok (tc_free_blocks ?chunk)" "\<forall>b \<in> set (tc_free_blocks ?chunk). ?al dvd fb_offset b" "tc_max_size ?chunk \<le> SIZE_MAX div 2"
    "blocks_bytes (tc_free_blocks ?chunk) \<inter> ?U = {}"
    and "\<exists>cap \<le> SIZE_MAX div 2. 0 < cap \<and> blocks_bytes (tc_free_blocks ?chunk) \<union> ?U = {..<cap}"
    using inv R(1) unfolding dyn_inv_def chunk_ok_def by blast+
  then obtain cap where cap: "cap \<le> SIZE_MAX div 2" "blocks_bytes (tc_free_blocks ?chunk) \<union> ?U = {..<cap}" "0 < cap" by blast
  have m: "0 < ?m" using padded_props(4) [OF al R(2)] .
  have n: "aligned_offset 0 n ?al = Some ?m" using aligned_offset_padded [OF pow R(3)] inv by (simp add: dyn_inv_def)
  have sub: "region ?off ?m \<subseteq> ?U" using live_bytes_region [OF r] by simp
  have "region ?off ?m \<inter> blocks_bytes (tc_free_blocks ?chunk) = {}" using sub C(4) by blast
  moreover have "?off + ?m \<le> SIZE_MAX" using R(5) C(3) by (simp add: SIZE_MAX_def)
  ultimately obtain bs where bs: "yields (free_scan (length (tc_free_blocks ?chunk)) 0 ?off ?m (tc_free_blocks ?chunk)) bs (length (tc_free_blocks ?chunk) < MAX_FREE_BLOCKS)"
    "blocks_ok bs" "blocks_bytes bs = blocks_bytes (tc_free_blocks ?chunk) \<union> region ?off ?m"
    "fb_offset ` set bs \<subseteq> insert ?off (fb_offset ` set (tc_free_blocks ?chunk))"
    using free_scan_ok [OF C(1) m, of ?off 0 "length (tc_free_blocks ?chunk)"] by auto
  let ?a' = "a\<lparr>dt_chunks := (dt_chunks a)[?c := ?chunk\<lparr>tc_free_blocks := bs\<rparr>]\<rparr>"
  have rest: "live_bytes ?al (L - {(ad, n)}) ?c = ?U - region ?off ?m"
  proof -
    have "region_bytes ?al q \<inter> region_bytes ?al (ad, n) = {}" if "q \<in> L - {(ad, n)}" for q
      using inv r that unfolding dyn_inv_def by blast
    then show ?thesis by (fastforce simp: live_bytes_def region_bytes_def)
  qed
  have "dyn_inv ?a' (L - {(ad, n)})"
  proof (rule chunk_inv_update [OF inv R(1)])
    have "blocks_bytes bs \<inter> (?U - region ?off ?m) = {}" "blocks_bytes bs \<union> (?U - region ?off ?m) = {..<cap}"
      using bs(3) C(4) cap(2) sub by auto
    then show "chunk_ok ?al (?chunk\<lparr>tc_free_blocks := bs\<rparr>) (live_bytes ?al (L - {(ad, n)}) ?c)"
      using rest bs(2,4) C(2,3) R(4) cap(1,3) by (auto simp: chunk_ok_def image_subset_iff)
    show "live_bytes ?al (L - {(ad, n)}) k = live_bytes ?al L k" if "k \<noteq> ?c" for k
      using that by (auto simp: live_bytes_def region_bytes_def)
    show "\<forall>r \<in> L - {(ad, n)}. \<forall>q \<in> L - {(ad, n)}. r \<noteq> q \<longrightarrow> region_bytes ?al r \<inter> region_bytes ?al q = {}"
      using inv unfolding dyn_inv_def by blast
  qed auto
  moreover have "yields (dyn_tallocr_free_bytes ad n a) ?a' (length (tc_free_blocks ?chunk) < MAX_FREE_BLOCKS)"
    using bs(1) n R(1) by (auto simp: yields_def dyn_tallocr_free_bytes_def vget_def)
  ultimately show ?thesis by (intro exI [of _ ?a']) simp
qed

lemma dyn_free_ok:
  assumes "dyn_inv a L" and "(ad, n) \<in> L" and "dyn_tallocr_free_bytes ad n a = Some a'"
  shows "dyn_inv a' (L - {(ad, n)})" "dt_alignment a' = dt_alignment a"
proof -
  have "alignment_ok (dt_alignment a)"
    using assms(3) aligned_offset_Some by (auto simp: dyn_tallocr_free_bytes_def split: bind_splits)
  from dyn_free_yields [OF assms(1) this assms(2)] show "dyn_inv a' (L - {(ad, n)})" "dt_alignment a' = dt_alignment a"
    using assms(3) by (auto simp: yields_def)
qed

text \<open>A chunk with nothing in use is one free block.\<close>

lemma blocks_one:
  assumes "blocks_ok bs" and "blocks_bytes bs = {..<cap}" and "0 < cap"
  shows "bs = [blk 0 cap]"
proof -
  from assms(2,3) obtain b bs' where bs: "bs = b # bs'" by (cases bs) auto
  have "0 \<in> blocks_bytes bs" using assms(2,3) by simp
  then have b0: "fb_offset b = 0" using assms(1) bs by (auto simp: blocks_bytes_def region_def blocks_ok_Cons)
  have "fb_size b \<notin> blocks_bytes bs"
    using assms(1) bs b0 by (fastforce simp: blocks_bytes_def region_def blocks_ok_Cons)
  then have "cap \<le> fb_size b" using assms(2) by auto
  moreover have "fb_size b - 1 \<in> blocks_bytes bs" using assms(1) bs b0 by (auto simp: region_def blocks_ok_Cons)
  ultimately have size: "fb_size b = cap" using assms(2) by auto
  have "bs' = []"
  proof (cases bs')
    case (Cons d ds)
    then have "fb_offset d \<in> blocks_bytes bs" "cap < fb_offset d"
      using assms(1) bs b0 size by (auto simp: blocks_ok_Cons region_def)
    then show ?thesis using assms(2) by auto
  qed
  with bs b0 size show ?thesis by (cases b) simp
qed

end
