(* ===== verification/Allocator_Interface.thy ===== *)
theory Allocator_Interface
  imports Tl_Prelude
begin

text \<open>
  The contract between an allocator and its client as the locale \<open>allocator\<close>: a new region is not among those in use, a
  freed one was, and the bytes of regions in use do not overlap. The client's lemma is about any sequence of operations that
  frees only what is in use.
\<close>

datatype 'r alloc_op = Alloc nat | Free 'r

fun run_allocs :: "(nat \<Rightarrow> 's \<Rightarrow> ('r \<times> 's) option) \<Rightarrow> ('r \<Rightarrow> 's \<Rightarrow> 's option) \<Rightarrow> 'r alloc_op list \<Rightarrow> 's \<times> 'r set
    \<Rightarrow> ('s \<times> 'r set) option" where
  "run_allocs alloc free [] (s, L) = Some (s, L)"
| "run_allocs alloc free (Alloc n # ops) (s, L) = do {
     (r, s) \<leftarrow> alloc n s;
     run_allocs alloc free ops (s, insert r L) }"
| "run_allocs alloc free (Free r # ops) (s, L) = do {
     check (r \<in> L);
     s \<leftarrow> free r s;
     run_allocs alloc free ops (s, L - {r}) }"

locale allocator =
  fixes alloc :: "nat \<Rightarrow> 's \<Rightarrow> ('r \<times> 's) option"
    and free :: "'r \<Rightarrow> 's \<Rightarrow> 's option"
    and inv :: "'s \<Rightarrow> 'r set \<Rightarrow> bool"
    and request :: "'s \<Rightarrow> nat \<Rightarrow> bool"
    and bytes :: "'s \<Rightarrow> 'r \<Rightarrow> 'b set"
  assumes alloc_law: "inv s L \<Longrightarrow> request s n \<Longrightarrow> alloc n s = Some (r, s') \<Longrightarrow> r \<notin> L \<and> inv s' (insert r L) \<and> request s' = request s"
    and free_law: "inv s L \<Longrightarrow> r \<in> L \<Longrightarrow> free r s = Some s' \<Longrightarrow> inv s' (L - {r}) \<and> request s' = request s"
    and disjoint_law: "inv s L \<Longrightarrow> r \<in> L \<Longrightarrow> q \<in> L \<Longrightarrow> r \<noteq> q \<Longrightarrow> bytes s r \<inter> bytes s q = {}"
begin

lemma run_inv:
  assumes "inv s L" and "\<forall>n. Alloc n \<in> set ops \<longrightarrow> request s n" and "run_allocs alloc free ops (s, L) = Some (s', L')"
  shows "inv s' L'"
  using assms
proof (induction ops arbitrary: s L)
  case (Cons p ops)
  show ?case
  proof (cases p)
    case (Alloc n)
    with Cons.prems(3) obtain r s1 where a: "alloc n s = Some (r, s1)" "run_allocs alloc free ops (s1, insert r L) = Some (s', L')"
      by (auto split: bind_splits)
    from alloc_law [OF Cons.prems(1) _ a(1)] Cons.prems(2) Alloc have "inv s1 (insert r L)" "request s1 = request s" by simp_all
    with Cons.IH [OF this(1) _ a(2)] Cons.prems(2) show ?thesis by simp
  next
    case (Free r)
    with Cons.prems(3) obtain s1 where f: "r \<in> L" "free r s = Some s1" "run_allocs alloc free ops (s1, L - {r}) = Some (s', L')"
      by (auto split: bind_splits)
    from free_law [OF Cons.prems(1) f(1,2)] have "inv s1 (L - {r})" "request s1 = request s" by simp_all
    with Cons.IH [OF this(1) _ f(3)] Cons.prems(2) show ?thesis by simp
  qed
qed simp

lemma run_disjoint:
  assumes "inv s {}" and "\<forall>n. Alloc n \<in> set ops \<longrightarrow> request s n" and "run_allocs alloc free ops (s, {}) = Some (s', L)"
    and "r \<in> L" "q \<in> L" "r \<noteq> q"
  shows "bytes s' r \<inter> bytes s' q = {}"
  by (rule disjoint_law [OF run_inv [OF assms(1-3)] assms(4-6)])

end

end
