(* ===== verification/Alloc_Props.thy ===== *)
theory Alloc_Props
  imports Alloc_Safe Allocator_Interface
begin

text \<open>
  The interpretations of \<open>allocator\<close>, and the properties of the two allocators.
\<close>

section \<open>The dynamic allocator\<close>

definition dyn_alloc :: "nat \<Rightarrow> dyn_tallocr \<Rightarrow> (live_region \<times> dyn_tallocr) option" where
  "dyn_alloc n a = do { (ad, a) \<leftarrow> dyn_tallocr_alloc n a; Some ((ad, n), a) }"

definition dyn_free :: "live_region \<Rightarrow> dyn_tallocr \<Rightarrow> dyn_tallocr option" where
  "dyn_free = (\<lambda>(ad, n) a. dyn_tallocr_free_bytes ad n a)"

interpretation dyn: allocator dyn_alloc dyn_free dyn_inv request_ok "\<lambda>a. region_bytes (dt_alignment a)"
proof unfold_locales
  fix s L n r s' assume "dyn_inv s L" "request_ok s n" "dyn_alloc n s = Some (r, s')"
  with dyn_alloc_ok [of s L n "fst r" s'] show "r \<notin> L \<and> dyn_inv s' (insert r L) \<and> request_ok s' = request_ok s"
    by (auto simp: dyn_alloc_def request_ok_def fun_eq_iff split: bind_splits)
next
  fix s L r s' assume "dyn_inv s L" "r \<in> L" "dyn_free r s = Some s'"
  with dyn_free_ok [of s L "fst r" "snd r" s'] show "dyn_inv s' (L - {r}) \<and> request_ok s' = request_ok s"
    by (auto simp: dyn_free_def request_ok_def fun_eq_iff split: prod.splits)
next
  fix s L r q assume "dyn_inv s L" "r \<in> L" "q \<in> L" "r \<noteq> q"
  then show "region_bytes (dt_alignment s) r \<inter> region_bytes (dt_alignment s) q = {}" unfolding dyn_inv_def by blast
qed

lemma run_alignment:
  assumes "run_allocs dyn_alloc dyn_free ops (a, L) = Some (a', L')" and "dt_alignment a = al"
  shows "dt_alignment a' = al"
  using assms
proof (induction ops arbitrary: a L)
  case (Cons p ops)
  have new: "new_chunk n a = Some (c, b) \<Longrightarrow> dt_alignment b = dt_alignment a" for n c b
    by (auto simp: new_chunk_def Let_def split: if_splits)
  show ?case
  proof (cases p)
    case (Alloc n)
    with Cons.prems obtain r a1 where r: "dyn_alloc n a = Some (r, a1)" "run_allocs dyn_alloc dyn_free ops (a1, insert r L) = Some (a', L')"
      by (auto split: bind_splits)
    from r(1) have "dt_alignment a1 = dt_alignment a"
      by (auto simp: dyn_alloc_def dyn_tallocr_alloc_def Let_def dest!: new split: bind_splits option.splits)
    with Cons.IH [OF r(2)] Cons.prems(2) show ?thesis by simp
  next
    case (Free r)
    with Cons.prems obtain a1 where r: "dyn_free r a = Some a1" "run_allocs dyn_alloc dyn_free ops (a1, L - {r}) = Some (a', L')"
      by (auto split: bind_splits)
    from r(1) have "dt_alignment a1 = dt_alignment a"
      by (auto simp: dyn_free_def dyn_tallocr_free_bytes_def Let_def split: bind_splits prod.splits)
    with Cons.IH [OF r(2)] Cons.prems(2) show ?thesis by simp
  qed
qed simp

section \<open>The linear allocator\<close>

lemma and_not_mask: "x AND NOT (2 ^ k - 1) = x div 2 ^ k * 2 ^ k" for x :: int
proof -
  have "x AND NOT (mask k) = push_bit k (drop_bit k x)"
    by (rule bit_eqI) (auto simp: bit_simps)
  then show ?thesis by (simp add: mask_eq_exp_minus_1 push_bit_eq_mult drop_bit_eq_div)
qed

lemma size_pad_padded:
  assumes "x + 2 ^ k \<le> SIZE_MAX"
  shows "size_pad x (2 ^ k) = padded (2 ^ k) x"
proof -
  have "u64 (x + 2 ^ k - 1) = x + 2 ^ k - 1" by (rule u64_id) (use assms in simp)
  then have "size_pad x (2 ^ k) = nat (int (x + 2 ^ k - 1) div 2 ^ k * 2 ^ k)"
    using and_not_mask [of "int (x + 2 ^ k - 1)" k] by (simp add: size_pad_def)
  also have "\<dots> = nat (int ((x + 2 ^ k - 1) div 2 ^ k * 2 ^ k))" by (simp add: zdiv_int)
  also have "\<dots> = padded (2 ^ k) x" by (simp only: nat_int padded_def)
  finally show ?thesis .
qed

text \<open>A region is its offset and its unpadded size; nothing is ever given back.\<close>

definition lin_alloc :: "nat \<Rightarrow> ggml_tallocr \<Rightarrow> ((nat \<times> nat) \<times> ggml_tallocr) option" where
  "lin_alloc n t = do { (off, t) \<leftarrow> ggml_tallocr_alloc n t; Some ((off, n), t) }"

definition lin_request :: "ggml_tallocr \<Rightarrow> nat \<Rightarrow> bool" where
  "lin_request t n \<longleftrightarrow> 0 < n \<and> n + ta_alignment t \<le> SIZE_MAX div 2"

definition lin_inv :: "ggml_tallocr \<Rightarrow> (nat \<times> nat) set \<Rightarrow> bool" where
  "lin_inv t L \<longleftrightarrow> (\<exists>k. ta_alignment t = 2 ^ k) \<and> ta_buffer_size t \<le> SIZE_MAX div 2 \<and> ta_offset t \<le> SIZE_MAX div 2
     \<and> ta_alignment t dvd ta_base t + ta_offset t
     \<and> (\<forall>(off, n) \<in> L. 0 < n \<and> off + n \<le> min (ta_offset t) (ta_buffer_size t) \<and> ta_alignment t dvd ta_base t + off)
     \<and> (\<forall>r \<in> L. \<forall>q \<in> L. r \<noteq> q \<longrightarrow> region (fst r) (snd r) \<inter> region (fst q) (snd q) = {})"

interpretation lin: allocator lin_alloc "\<lambda>_ _. None" lin_inv lin_request "\<lambda>_ r. region (fst r) (snd r)"
proof unfold_locales
  fix t L n r t' assume inv: "lin_inv t L" and req: "lin_request t n" and run: "lin_alloc n t = Some (r, t')"
  let ?al = "ta_alignment t" and ?m = "padded (ta_alignment t) n"
  from inv obtain k where k: "?al = 2 ^ k" by (auto simp: lin_inv_def)
  have pad: "size_pad n ?al = ?m" using size_pad_padded [of n k] req k by (auto simp: lin_request_def)
  have P: "?al dvd ?m" "n \<le> ?m" "?m < n + ?al" using padded_props [of ?al n] k by simp_all
  have u: "u64 (ta_offset t + ?m) = ta_offset t + ?m"
    by (rule u64_id) (use inv req P in \<open>auto simp: lin_inv_def lin_request_def SIZE_MAX_def\<close>)
  from run pad u have r: "r = (ta_offset t, n)" "t' = t\<lparr>ta_offset := ta_offset t + ?m\<rparr>" "ta_offset t + ?m \<le> ta_buffer_size t"
    by (auto simp: lin_alloc_def ggml_tallocr_alloc_def Let_def split: bind_splits)
  have new: "region (fst q) (snd q) \<inter> region (ta_offset t) n = {}" "q \<noteq> r" if "q \<in> L" for q
    using inv that r(1) by (auto simp: lin_inv_def region_def)
  have base: "?al dvd ta_base t + (ta_offset t + ?m)"
    using inv P(1) dvd_add [of ?al "ta_base t + ta_offset t" ?m] by (simp add: lin_inv_def add.assoc)
  have "lin_inv t' (insert r L)"
    unfolding lin_inv_def
  proof (intro conjI)
    show "\<forall>(off, m) \<in> insert r L. 0 < m \<and> off + m \<le> min (ta_offset t') (ta_buffer_size t') \<and> ta_alignment t' dvd ta_base t' + off"
      using inv r P(2) req by (auto simp: lin_inv_def lin_request_def)
    show "\<forall>p \<in> insert r L. \<forall>q \<in> insert r L. p \<noteq> q \<longrightarrow> region (fst p) (snd p) \<inter> region (fst q) (snd q) = {}"
      using inv new r(1) unfolding lin_inv_def by auto
  qed (use inv r k base in \<open>auto simp: lin_inv_def\<close>)
  moreover have "r \<notin> L" using new(2) by blast
  ultimately show "r \<notin> L \<and> lin_inv t' (insert r L) \<and> lin_request t' = lin_request t"
    using r(2) by (auto simp: lin_request_def fun_eq_iff)
qed (auto simp: lin_inv_def)

section \<open>Properties\<close>

text \<open>C4: (\<open>ggml_dyn_tallocr\<close>) After any sequence of allocations and frees of regions in use, on a new allocator: the regions in
  use do not overlap, each is aligned and ends below the maximum that its chunk reports, and when nothing is in use every
  chunk is a single free block, with no memory lost or left fragmented.\<close>

theorem dyn_tallocr_safe:
  assumes "0 < al" "al \<le> SIZE_MAX div 2" and "\<forall>n. Alloc n \<in> set ops \<longrightarrow> request_ok (dyn_tallocr_new al m) n"
    and "run_allocs dyn_alloc dyn_free ops (dyn_tallocr_new al m, {}) = Some (a, L)"
  shows "(\<forall>r \<in> L. \<forall>q \<in> L. r \<noteq> q \<longrightarrow> region_bytes al r \<inter> region_bytes al q = {})
    \<and> (\<forall>(ad, n) \<in> L. al dvd ad_offset ad \<and> ad_offset ad + padded al n \<le> dyn_tallocr_max_size a (ad_chunk ad))
    \<and> (L = {} \<longrightarrow> (\<forall>chunk \<in> set (dt_chunks a). \<exists>cap > 0. tc_free_blocks chunk = [\<lparr>fb_offset = 0, fb_size = cap\<rparr>]))"
proof -
  note new = dyn_inv_new [OF assms(1,2), of m]
  note fin = dyn.run_inv [OF new assms(3,4)]
  have al: "dt_alignment a = al"
    using assms(4) by (rule run_alignment) (simp add: dyn_tallocr_new_def dyn_tallocr_reset_def)
  have "\<exists>cap > 0. tc_free_blocks chunk = [blk 0 cap]" if chunk: "chunk \<in> set (dt_chunks a)" "L = {}" for chunk
  proof -
    from chunk(1) obtain c where "c < length (dt_chunks a)" "dt_chunks a ! c = chunk" by (auto simp: in_set_conv_nth)
    then have "chunk_ok al chunk (live_bytes al L c)" using fin al by (auto simp: dyn_inv_def)
    then obtain cap where "blocks_ok (tc_free_blocks chunk)" "blocks_bytes (tc_free_blocks chunk) = {..<cap}" "0 < cap"
      using chunk(2) by (auto simp: chunk_ok_def live_bytes_def)
    then show ?thesis using blocks_one by blast
  qed
  moreover have "al dvd ad_offset ad \<and> ad_offset ad + padded al n \<le> dyn_tallocr_max_size a (ad_chunk ad)" if "(ad, n) \<in> L" for ad n
    using fin al that by (auto simp: dyn_inv_def region_ok_def dyn_tallocr_max_size_def)
  moreover have "region_bytes al r \<inter> region_bytes al q = {}" if "r \<in> L" "q \<in> L" "r \<noteq> q" for r q
    using dyn.run_disjoint [OF new assms(3,4) that] al by simp
  ultimately show ?thesis by auto
qed

lemmas dyn_eval = dyn_alloc_def dyn_free_def dyn_tallocr_alloc_def dyn_tallocr_free_bytes_def dyn_tallocr_new_def dyn_tallocr_reset_def
  aligned_offset_def find_block_def find_best_fit_def find_last_block_def best_fit_chunk_def best_fit_step_def last_block_step_def
  new_chunk_def take_front_def remove_block_def insert_block_def fb_end_def vget_def Let_def SIZE_MAX_def MAX_FREE_BLOCKS_def
  GGML_VBUFFER_MAX_CHUNKS_def INT64_MIN_def s64_def check_def

definition demo_ops :: "live_region alloc_op list" where
  "demo_ops = [Alloc 10, Alloc 100, Free (\<lparr>ad_chunk = 0, ad_offset = 0\<rparr>, 10), Alloc 40, Alloc 8]"

lemma demo_alignment: "alignment_ok 16"
  using alignment_ok_power [of 4] by simp

lemma demo_run: "map_option snd (run_allocs dyn_alloc dyn_free demo_ops (dyn_tallocr_new 16 128, {}))
    = Some {(\<lparr>ad_chunk = 0, ad_offset = 0\<rparr>, 8), (\<lparr>ad_chunk = 0, ad_offset = 16\<rparr>, 100), (\<lparr>ad_chunk = 1, ad_offset = 0\<rparr>, 40)}"
  by (simp add: demo_ops_def dyn_eval demo_alignment) auto

lemma demo_requests: "Alloc n \<in> set demo_ops \<Longrightarrow> request_ok (dyn_tallocr_new 16 128) n"
  by (auto simp: demo_ops_def request_ok_def dyn_tallocr_new_def dyn_tallocr_reset_def padded_def SIZE_MAX_def)

theorem dyn_tallocr_safe_witness:
  "region_bytes 16 (\<lparr>ad_chunk = 0, ad_offset = 0\<rparr>, 8) \<inter> region_bytes 16 (\<lparr>ad_chunk = 0, ad_offset = 16\<rparr>, 100) = {}"
proof -
  obtain a L where r: "run_allocs dyn_alloc dyn_free demo_ops (dyn_tallocr_new 16 128, {}) = Some (a, L)"
    "L = {(\<lparr>ad_chunk = 0, ad_offset = 0\<rparr>, 8), (\<lparr>ad_chunk = 0, ad_offset = 16\<rparr>, 100), (\<lparr>ad_chunk = 1, ad_offset = 0\<rparr>, 40)}"
    using demo_run by auto
  have "\<forall>n. Alloc n \<in> set demo_ops \<longrightarrow> request_ok (dyn_tallocr_new 16 128) n" using demo_requests by blast
  from dyn_tallocr_safe [OF _ _ this r(1)] show ?thesis unfolding r(2) by (auto simp: SIZE_MAX_def)
qed

text \<open>C31: (\<open>ggml_dyn_tallocr_alloc\<close>) With an alignment that is a power of two, in every state reached by allocations
  and frees, while each chunk has a slot for another free block, a request
  fails only if 16 chunks exist and no free block of any is large enough; and it never makes a new chunk while some free
  block is large enough.\<close>

theorem dyn_tallocr_complete:
  assumes "alignment_ok al" "al \<le> SIZE_MAX div 2" and "\<forall>n. Alloc n \<in> set ops \<longrightarrow> request_ok (dyn_tallocr_new al m) n"
    and "run_allocs dyn_alloc dyn_free ops (dyn_tallocr_new al m, {}) = Some (a, L)"
    and "request_ok a n" and "\<forall>chunk \<in> set (dt_chunks a). length (tc_free_blocks chunk) < MAX_FREE_BLOCKS"
  defines "fitting \<equiv> \<exists>chunk \<in> set (dt_chunks a). \<exists>b \<in> set (tc_free_blocks chunk). padded al n \<le> fb_size b"
  shows "(dyn_tallocr_alloc n a = None \<longrightarrow> length (dt_chunks a) \<ge> GGML_VBUFFER_MAX_CHUNKS \<and> \<not> fitting)
    \<and> (fitting \<longrightarrow> (\<exists>ad a'. dyn_tallocr_alloc n a = Some (ad, a') \<and> length (dt_chunks a') = length (dt_chunks a)))"
proof -
  have pos: "0 < al" using assms(1) by (simp add: alignment_ok_def)
  note fin = dyn.run_inv [OF dyn_inv_new [OF pos assms(2), of m] assms(3,4)]
  have al: "dt_alignment a = al"
    using assms(4) by (rule run_alignment) (simp add: dyn_tallocr_new_def dyn_tallocr_reset_def)
  note total = dyn_alloc_total [OF fin _ assms(5,6), unfolded al, OF assms(1)]
  show ?thesis using total unfolding fitting_def by (metis not_le option.distinct(1))
qed

theorem dyn_tallocr_complete_witness:
  "\<exists>a L ad a'. run_allocs dyn_alloc dyn_free demo_ops (dyn_tallocr_new 16 128, {}) = Some (a, L)
    \<and> dyn_tallocr_alloc 20 a = Some (ad, a') \<and> length (dt_chunks a') = length (dt_chunks a)"
proof -
  have "map_option (\<lambda>(a, L). dt_alignment a = 16 \<and> (\<forall>chunk \<in> set (dt_chunks a). length (tc_free_blocks chunk) < MAX_FREE_BLOCKS)
      \<and> (\<exists>chunk \<in> set (dt_chunks a). \<exists>b \<in> set (tc_free_blocks chunk). 32 \<le> fb_size b))
    (run_allocs dyn_alloc dyn_free demo_ops (dyn_tallocr_new 16 128, {})) = Some True"
    by (simp add: demo_ops_def dyn_eval demo_alignment)
  then obtain a L where r: "run_allocs dyn_alloc dyn_free demo_ops (dyn_tallocr_new 16 128, {}) = Some (a, L)"
    "dt_alignment a = 16" "\<forall>chunk \<in> set (dt_chunks a). length (tc_free_blocks chunk) < MAX_FREE_BLOCKS"
    "\<exists>chunk \<in> set (dt_chunks a). \<exists>b \<in> set (tc_free_blocks chunk). 32 \<le> fb_size b" by auto
  have "\<forall>n. Alloc n \<in> set demo_ops \<longrightarrow> request_ok (dyn_tallocr_new 16 128) n" using demo_requests by blast
  moreover have "request_ok a 20" using r(2) by (simp add: request_ok_def padded_def SIZE_MAX_def)
  moreover have "padded 16 20 = 32" by (simp add: padded_def)
  ultimately show ?thesis using dyn_tallocr_complete [OF demo_alignment _ _ r(1) _ r(3), of 20] r(1,4) by (auto simp: SIZE_MAX_def)
qed

text \<open>The best size starts anew in every chunk: of a block of 16 bytes and one of 64 in a later chunk, a request of 16 takes
  the second.\<close>

lemma best_fit_takes_later_chunk:
  "find_best_fit 16 [\<lparr>tc_free_blocks = [blk 0 16, blk 32 96], tc_max_size = 128\<rparr>, \<lparr>tc_free_blocks = [blk 0 64, blk 80 48], tc_max_size = 128\<rparr>]
    = Some (1, 0)"
  by (simp add: dyn_eval)

end
