(* ===== verification/Kv_Slots.thy ===== *)
theory Kv_Slots
  imports Kv_Cache "HOL-Library.Word"
begin

unbundle bit_operations_syntax

text \<open>
  The second half of \<^verbatim>\<open>llama_kv_cache\<close> (src/llama-kv-cache.cpp): finding cells for a micro-batch
  (\<^verbatim>\<open>find_slot\<close>, \<^verbatim>\<open>find_slot_paged\<close>), placing it (\<^verbatim>\<open>apply_ubatch\<close>, \<^verbatim>\<open>apply_ubatch_paged\<close>), the dry run
  of \<^verbatim>\<open>prepare\<close>, and the index inputs of the graph.
\<close>

section \<open>Finding a slot\<close>

definition u32_sub :: "nat \<Rightarrow> nat \<Rightarrow> nat" where
  "u32_sub a b = u32 (a + 2 ^ 32 - u32 b)"

text \<open>Whether \<^verbatim>\<open>find_slot\<close> may take a cell: an empty one, or one of a single sequence out of its window.\<close>

definition can_use :: "nat \<Rightarrow> llama_swa_type \<Rightarrow> kv_cells \<Rightarrow> nat \<Rightarrow> bool option" where
  "can_use n_swa swa c idx = do {
     e \<leftarrow> kc_is_empty c idx;
     if e then Some True
     else do {
       n \<leftarrow> kc_seq_count c idx;
       if n \<noteq> 1 then Some False
       else do {
         pos_cell \<leftarrow> kc_pos_get c idx;
         s \<leftarrow> kc_seq_get c idx;
         mx \<leftarrow> kc_seq_pos_max c s;
         is_masked_swa n_swa swa pos_cell (mx + 1) } } }"

record find_state =
  fs_head :: nat
  fs_tested :: nat
  fs_idxs :: "nat list"

text \<open>The inner loop tests \<open>k\<close> cells and stops at the first unusable one when \<open>cont\<close> holds.\<close>

fun test_cells :: "nat \<Rightarrow> llama_swa_type \<Rightarrow> kv_cells \<Rightarrow> bool \<Rightarrow> nat \<Rightarrow> find_state \<Rightarrow> find_state option" where
  "test_cells n_swa swa c cont 0 st = Some st"
| "test_cells n_swa swa c cont (Suc k) st = do {
     let idx = fs_head st;
     let st = st\<lparr>fs_head := fs_head st + 1, fs_tested := fs_tested st + 1\<rparr>;
     ok \<leftarrow> can_use n_swa swa c idx;
     if ok then test_cells n_swa swa c cont k (st\<lparr>fs_idxs := fs_idxs st @ [idx]\<rparr>)
     else if cont then Some st
     else test_cells n_swa swa c cont k st }"

text \<open>
  The outer \<^verbatim>\<open>while (true)\<close>; \<open>Some None\<close> is its \<^verbatim>\<open>return { }\<close>. Out of fuel is \<open>None\<close>, like a failed
  assertion; \<open>find_fuel\<close> is enough for every cache with a cell.
\<close>

fun find_loop :: "nat \<Rightarrow> nat \<Rightarrow> llama_swa_type \<Rightarrow> kv_cells \<Rightarrow> bool \<Rightarrow> nat \<Rightarrow> find_state \<Rightarrow> nat list option option" where
  "find_loop 0 n_swa swa c cont n_tokens st = None"
| "find_loop (Suc fuel) n_swa swa c cont n_tokens st =
     (let n_test = (if cont then n_tokens else 1) in
      if fs_head st + n_test > kc_size c
      then find_loop fuel n_swa swa c cont n_tokens
             (st\<lparr>fs_tested := u32 (fs_tested st + u32_sub (kc_size c) (fs_head st)), fs_head := 0\<rparr>)
      else do {
        st \<leftarrow> test_cells n_swa swa c cont n_test st;
        if length (fs_idxs st) = n_tokens then Some (Some (fs_idxs st))
        else let st = (if cont then st\<lparr>fs_idxs := []\<rparr> else st) in
          if fs_tested st \<ge> kc_size c then Some None
          else find_loop fuel n_swa swa c cont n_tokens st })"

definition find_fuel :: "kv_cells \<Rightarrow> nat" where
  "find_fuel c = 2 * kc_size c + 2"

definition find_in_stream :: "nat \<Rightarrow> llama_swa_type \<Rightarrow> kv_cells \<Rightarrow> nat \<Rightarrow> bool \<Rightarrow> nat \<Rightarrow> nat list option option" where
  "find_in_stream n_swa swa c head cont n_tokens =
     (let head_cur = (if head > kc_get_used c + 2 * n_tokens then 0 else head)
      in if n_tokens > kc_size c then Some None
         else find_loop (find_fuel c) n_swa swa c cont n_tokens
                \<lparr>fs_head = head_cur, fs_tested = 0, fs_idxs = []\<rparr>)"

text \<open>Both slot finders split the tokens evenly over the unique sequences when there are several streams.\<close>

definition slot_shape :: "kv_cache \<Rightarrow> ubatch \<Rightarrow> (nat \<times> nat) option" where
  "slot_shape kv ub =
     (if kv_n_stream kv > 1
      then do { check (ub_n_seqs_unq ub \<noteq> 0);
                check (ub_n_tokens ub mod ub_n_seqs_unq ub = 0);
                Some (ub_n_seqs_unq ub, ub_n_tokens ub div ub_n_seqs_unq ub) }
      else Some (1, ub_n_tokens ub))"

definition si_start :: slot_info where
  "si_start = \<lparr>si_s0 = LLAMA_MAX_SEQ, si_s1 = 0, si_strm = [], si_idxs = []\<rparr>"

definition si_push :: "nat \<Rightarrow> nat list \<Rightarrow> slot_info \<Rightarrow> slot_info" where
  "si_push st is si = \<lparr>si_s0 = min (si_s0 si) st, si_s1 = max (si_s1 si) st,
     si_strm = si_strm si @ [st], si_idxs = si_idxs si @ [is]\<rparr>"

definition find_slot_paged :: "kv_cache \<Rightarrow> ubatch \<Rightarrow> slot_info option" where
  "find_slot_paged kv ub = do {
     (n_seqs, n_tokens) \<leftarrow> slot_shape kv ub;
     foldM (\<lambda>s res. do {
       seq_id \<leftarrow> vget (ub_seq_id_unq ub) s;
       st \<leftarrow> kv_stream_of kv seq_id;
       ps \<leftarrow> foldM (\<lambda>i ps. do { p \<leftarrow> vget (ub_pos ub) (s * n_tokens + i); Some (ps @ [nat (p mod 2 ^ 32)]) })
              [0..<n_tokens] [];
       Some (si_push st ps res) }) [0..<n_seqs] si_start }"

fun find_streams :: "kv_cache \<Rightarrow> ubatch \<Rightarrow> bool \<Rightarrow> nat \<Rightarrow> nat list \<Rightarrow> slot_info \<Rightarrow> slot_info option" where
  "find_streams kv ub cont n_tokens [] res = Some res"
| "find_streams kv ub cont n_tokens (s # ss) res = do {
     seq_id \<leftarrow> vget (ub_seq_id_unq ub) s;
     (if kv_n_stream kv > 1
      then do { n \<leftarrow> vget (ub_n_seq_id ub) (s * n_tokens);
                check (n = 1);
                ids \<leftarrow> vget (ub_seq_id ub) (s * n_tokens);
                i0 \<leftarrow> vget ids 0;
                check (i0 = seq_id) }
      else Some ());
     st \<leftarrow> kv_stream_of kv seq_id;
     c \<leftarrow> vget (kv_v_cells kv) st;
     h \<leftarrow> vget (kv_v_heads kv) st;
     r \<leftarrow> find_in_stream (kv_n_swa kv) (kv_swa_type kv) c h cont n_tokens;
     (case r of
        None \<Rightarrow> Some si_none
      | Some is \<Rightarrow> find_streams kv ub cont n_tokens ss (si_push st is res)) }"

definition kv_find_slot :: "kv_cache \<Rightarrow> ubatch \<Rightarrow> bool \<Rightarrow> slot_info option" where
  "kv_find_slot kv ub cont =
     (if kv_paged kv then find_slot_paged kv ub
      else do {
        (n_seqs, n_tokens) \<leftarrow> slot_shape kv ub;
        res \<leftarrow> find_streams kv ub cont n_tokens [0..<n_seqs] si_start;
        check (si_empty res \<or> si_s1 res \<ge> si_s0 res);
        Some res })"

section \<open>Placing a micro-batch\<close>

definition update_block_table_gpu :: "llama_seq_id \<Rightarrow> nat \<Rightarrow> int \<Rightarrow> kv_cache \<Rightarrow> kv_cache option" where
  "update_block_table_gpu seq_id logical_block physical_block kv =
     (case kv_bt_gpu kv of
        None \<Rightarrow> Some kv
      | Some data \<Rightarrow>
          if \<not> kv_use_paged kv then Some kv
          else if seq_id < 0 \<or> nat seq_id \<ge> kv_n_seq_max kv then Some kv
          else if logical_block \<ge> kv_max_blocks kv then Some kv
          else do {
            data \<leftarrow> vset data (nat seq_id * kv_max_blocks kv + logical_block) physical_block;
            Some (kv\<lparr>kv_bt_gpu := Some data\<rparr>) })"

text \<open>
  One token of \<^verbatim>\<open>apply_ubatch_paged\<close>: its logical block is mapped when it is not yet, unless the
  pool is exhausted (the token is then skipped).
\<close>

definition apply_paged_token :: "llama_seq_id \<Rightarrow> llama_pos \<Rightarrow> kv_cache \<Rightarrow> kv_cache option" where
  "apply_paged_token seq_id pos kv = do {
     pool \<leftarrow> kv_pool kv;
     t \<leftarrow> om_find (bp_tables pool) seq_id;
     check (bp_block_size pool \<noteq> 0);
     let logical_block = nat (pos mod 2 ^ 32) div bp_block_size pool;
     let t = (if logical_block \<ge> length (bt_map t) then t\<lparr>bt_map := grow (logical_block + 1) (bt_map t)\<rparr> else t);
     let pool = pool\<lparr>bp_tables := om_set seq_id t (bp_tables pool)\<rparr>;
     let count = (\<lambda>t. t\<lparr>bt_n_tokens := max (bt_n_tokens t) (nat ((pos + 1) mod 2 ^ 32))\<rparr>);
     if bt_map t ! logical_block = - 1 then do {
       (b, pool) \<leftarrow> bp_allocate_block seq_id (int logical_block) pool;
       if b = - 1 then Some (kv\<lparr>kv_pool := Some pool\<rparr>)
       else do {
         let t = t\<lparr>bt_map := (bt_map t)[logical_block := b]\<rparr>;
         kv \<leftarrow> update_block_table_gpu seq_id logical_block b kv;
         Some (kv\<lparr>kv_pool := Some (pool\<lparr>bp_tables := om_set seq_id (count t) (bp_tables pool)\<rparr>)\<rparr>) } }
     else Some (kv\<lparr>kv_pool := Some (pool\<lparr>bp_tables := om_set seq_id (count t) (bp_tables pool)\<rparr>)\<rparr>) }"

definition ensure_table :: "llama_seq_id \<Rightarrow> kv_cache \<Rightarrow> kv_cache option" where
  "ensure_table seq_id kv = do {
     pool \<leftarrow> kv_pool kv;
     Some (if om_find (bp_tables pool) seq_id = None
           then kv\<lparr>kv_pool := Some (pool\<lparr>bp_tables := om_set seq_id (empty_entry\<lparr>bt_seq_id := seq_id\<rparr>) (bp_tables pool)\<rparr>)\<rparr>
           else kv) }"

definition apply_ubatch_paged :: "slot_info \<Rightarrow> ubatch \<Rightarrow> kv_cache \<Rightarrow> kv_cache option" where
  "apply_ubatch_paged si ub kv = do {
     n \<leftarrow> si_size si;
     check (ub_n_tokens ub = si_n_stream si * n);
     foldM (\<lambda>s kv. do {
       seq_id \<leftarrow> vget (ub_seq_id_unq ub) s;
       kv \<leftarrow> ensure_table seq_id kv;
       foldM (\<lambda>ii kv. do {
         pos \<leftarrow> vget (ub_pos ub) (s * n + ii);
         apply_paged_token seq_id pos kv }) [0..<n] kv }) [0..<si_n_stream si] kv }"

text \<open>
  One token of \<^verbatim>\<open>apply_ubatch\<close>: \<open>rm\<close> is the array \<^verbatim>\<open>seq_pos_max_rm\<close> of the highest overwritten
  position per sequence.
\<close>

definition place_token :: "ubatch \<Rightarrow> nat \<Rightarrow> nat \<Rightarrow> kv_cells \<times> int list \<Rightarrow> (kv_cells \<times> int list) option" where
  "place_token ub i idx crm = (case crm of (c, rm) \<Rightarrow> do {
     e \<leftarrow> kc_is_empty c idx;
     (c, rm) \<leftarrow> (if e then Some (c, rm)
       else do {
         n \<leftarrow> kc_seq_count c idx;
         check (n = 1);
         s \<leftarrow> kc_seq_get c idx;
         pos \<leftarrow> kc_pos_get c idx;
         check (0 \<le> s);
         old \<leftarrow> vget rm (nat s);
         rm \<leftarrow> vset rm (nat s) (max old pos);
         c \<leftarrow> kc_rm idx c;
         Some (c, rm) });
     pos \<leftarrow> vget (ub_pos ub) i;
     c \<leftarrow> kc_pos_set idx pos c;
     c \<leftarrow> (if ub_is_pos_2d ub
       then do {
         x \<leftarrow> vget (ub_pos ub) (i + ub_n_tokens ub * 2);
         y \<leftarrow> vget (ub_pos ub) (i + ub_n_tokens ub);
         kc_ext_set idx \<lparr>ext_x = x, ext_y = y\<rparr> c }
       else Some c);
     n \<leftarrow> vget (ub_n_seq_id ub) i;
     ids \<leftarrow> vget (ub_seq_id ub) i;
     c \<leftarrow> foldM (\<lambda>j c. do { s \<leftarrow> vget ids j; kc_seq_add idx s c }) [0..<n] c;
     Some (c, rm) })"

definition place_tokens :: "slot_info \<Rightarrow> ubatch \<Rightarrow> kv_cache \<Rightarrow> (kv_cache \<times> int list) option" where
  "place_tokens si ub kv = do {
     n \<leftarrow> si_size si;
     foldM (\<lambda>s krm. foldM (\<lambda>ii krm. (case krm of (kv, rm) \<Rightarrow> do {
         st \<leftarrow> vget (si_strm si) s;
         c \<leftarrow> vget (kv_v_cells kv) st;
         is \<leftarrow> vget (si_idxs si) s;
         idx \<leftarrow> vget is ii;
         (c, rm) \<leftarrow> place_token ub (s * n + ii) idx (c, rm);
         Some (kv\<lparr>kv_v_cells := (kv_v_cells kv)[st := c]\<rparr>, rm) })) [0..<n] krm)
       [0..<si_n_stream si] (kv, replicate LLAMA_MAX_SEQ (- 1)) }"

definition purge_overwritten :: "int list \<Rightarrow> kv_cache \<Rightarrow> kv_cache option" where
  "purge_overwritten rm kv = foldM (\<lambda>s kv.
     if rm ! s = - 1 then Some kv
     else do {
       check (s < length (kv_seq_to_stream kv));
       st \<leftarrow> vget (kv_seq_to_stream kv) s;
       c \<leftarrow> vget (kv_v_cells kv) st;
       mn \<leftarrow> kc_seq_pos_min c (int s);
       if mn \<le> rm ! s
       then do { (r, kv) \<leftarrow> kv_seq_rm (int s) mn (rm ! s + 1) kv; Some kv }
       else Some kv }) [0..<LLAMA_MAX_SEQ] kv"

definition move_heads :: "slot_info \<Rightarrow> kv_cache \<Rightarrow> kv_cache option" where
  "move_heads si kv = foldM (\<lambda>s kv. do {
     st \<leftarrow> vget (si_strm si) s;
     is \<leftarrow> vget (si_idxs si) s;
     check (is \<noteq> []);
     hs \<leftarrow> vset (kv_v_heads kv) st (last is + 1);
     Some (kv\<lparr>kv_v_heads := hs\<rparr>) }) [0..<si_n_stream si] kv"

definition kv_apply_ubatch :: "slot_info \<Rightarrow> ubatch \<Rightarrow> kv_cache \<Rightarrow> kv_cache option" where
  "kv_apply_ubatch si ub kv =
     (if kv_paged kv then apply_ubatch_paged si ub kv
      else do {
        n \<leftarrow> si_size si;
        check (ub_n_tokens ub = si_n_stream si * n);
        (kv, rm) \<leftarrow> place_tokens si ub kv;
        kv \<leftarrow> purge_overwritten rm kv;
        move_heads si kv })"

section \<open>The dry run\<close>

text \<open>
  \<^verbatim>\<open>prepare\<close> remembers, for every placed micro-batch, its slot, all heads, and a copy of the slot's
  cells. The restore loop reads \<^verbatim>\<open>v_heads_old[s]\<close> with the index of the stream inside the slot, not
  with the stream \<^verbatim>\<open>strm[s]\<close>; the model keeps that.
\<close>

record prep_state =
  ps_sinfo :: slot_info
  ps_heads_old :: "nat list"
  ps_cells :: "kv_cells list"

definition save_slot :: "slot_info \<Rightarrow> kv_cache \<Rightarrow> prep_state option" where
  "save_slot si kv = do {
     cs \<leftarrow> foldM (\<lambda>s cs. do {
       st \<leftarrow> vget (si_strm si) s;
       is \<leftarrow> vget (si_idxs si) s;
       c \<leftarrow> vget (kv_v_cells kv) st;
       r \<leftarrow> kc_cp is c;
       Some (cs @ [r]) }) [0..<si_n_stream si] [];
     Some \<lparr>ps_sinfo = si, ps_heads_old = kv_v_heads kv, ps_cells = cs\<rparr> }"

definition restore_slot :: "prep_state \<Rightarrow> kv_cache \<Rightarrow> kv_cache option" where
  "restore_slot ps kv = foldM (\<lambda>s kv. do {
     st \<leftarrow> vget (si_strm (ps_sinfo ps)) s;
     is \<leftarrow> vget (si_idxs (ps_sinfo ps)) s;
     c \<leftarrow> vget (kv_v_cells kv) st;
     h \<leftarrow> vget (kv_v_heads kv) st;
     saved \<leftarrow> vget (ps_cells ps) s;
     c \<leftarrow> kc_set is saved c;
     h_old \<leftarrow> vget (ps_heads_old ps) s;
     Some (kv_put st c h_old kv) }) [0..<si_n_stream (ps_sinfo ps)] kv"

fun prepare_loop :: "ubatch list \<Rightarrow> slot_info list \<Rightarrow> prep_state list \<Rightarrow> kv_cache
    \<Rightarrow> (bool \<times> slot_info list \<times> prep_state list \<times> kv_cache) option" where
  "prepare_loop [] res states kv = Some (True, res, states, kv)"
| "prepare_loop (ub # ubs) res states kv = do {
     si \<leftarrow> kv_find_slot kv ub False;
     if si_empty si then Some (False, res, states, kv)
     else do {
       ps \<leftarrow> save_slot si kv;
       kv \<leftarrow> kv_apply_ubatch si ub kv;
       prepare_loop ubs (res @ [si]) (states @ [ps]) kv } }"

definition kv_prepare :: "ubatch list \<Rightarrow> kv_cache \<Rightarrow> (slot_info list \<times> kv_cache) option" where
  "kv_prepare ubs kv = do {
     (success, res, states, kv) \<leftarrow> prepare_loop ubs [] [] kv;
     check (states \<noteq> [] \<or> \<not> success);
     kv \<leftarrow> foldM restore_slot (rev states) kv;
     Some (if success then res else [], kv) }"

section \<open>Inputs of the graph\<close>

definition kv_get_has_shift :: "kv_cache \<Rightarrow> bool option" where
  "kv_get_has_shift kv = foldM (\<lambda>s r. do {
     c \<leftarrow> vget (kv_v_cells kv) s; Some (r \<or> kc_has_shift c) }) [0..<kv_n_stream kv] False"

definition ggml_pad :: "nat \<Rightarrow> nat \<Rightarrow> nat" where
  "ggml_pad x n = nat ((int x + int n - 1) AND NOT (int n - 1))"

definition kv_get_n_kv :: "slot_info \<Rightarrow> kv_cache \<Rightarrow> nat option" where
  "kv_get_n_kv si kv =
     (let n_pad_cur = max (kv_n_pad kv) 256 in
      foldM (\<lambda>s r. do {
        st \<leftarrow> vget (si_strm si) s;
        c \<leftarrow> vget (kv_v_cells kv) st;
        Some (max (min (kc_size c) (max n_pad_cur (ggml_pad (kc_used_max_p1 c) n_pad_cur))) r) })
        [0..<si_n_stream si] 0)"

text \<open>\<^verbatim>\<open>data\<close> is the tensor's buffer; the row index of a token is its cell in the merged buffer of all streams.\<close>

definition set_input_k_idxs :: "slot_info \<Rightarrow> ubatch \<Rightarrow> kv_cache \<Rightarrow> nat list \<Rightarrow> nat list option" where
  "set_input_k_idxs si ub kv data = do {
     n \<leftarrow> si_size si;
     check (ub_n_tokens ub = n * si_n_stream si);
     foldM (\<lambda>s data. do {
       st \<leftarrow> vget (si_strm si) s;
       sz \<leftarrow> kv_get_size kv;
       let offs = u32 (st * sz);
       foldM (\<lambda>i data. do {
         is \<leftarrow> vget (si_idxs si) s;
         idx \<leftarrow> vget is i;
         vset data (s * n + i) (offs + idx) }) [0..<n] data }) [0..<si_n_stream si] data }"

text \<open>The V rows; transposed, each token has one row per element of its \<open>n_embd\<close>-long V vector.\<close>

definition set_input_v_idxs :: "nat \<Rightarrow> slot_info \<Rightarrow> ubatch \<Rightarrow> kv_cache \<Rightarrow> nat list \<Rightarrow> nat list option" where
  "set_input_v_idxs n_embd si ub kv data =
     (if \<not> kv_v_trans kv then set_input_k_idxs si ub kv data
      else do {
        n \<leftarrow> si_size si;
        check (ub_n_tokens ub = n * si_n_stream si);
        sz \<leftarrow> kv_get_size kv;
        foldM (\<lambda>s data. do {
          st \<leftarrow> vget (si_strm si) s;
          let offs = st * sz * n_embd;
          foldM (\<lambda>i data. foldM (\<lambda>j data. do {
              is \<leftarrow> vget (si_idxs si) s;
              idx \<leftarrow> vget is i;
              vset data (s * n * n_embd + i * n_embd + j) (offs + j * sz + idx) }) [0..<n_embd] data)
            [0..<n] data }) [0..<si_n_stream si] data })"

definition set_input_k_shift :: "kv_cache \<Rightarrow> int list \<Rightarrow> int list option" where
  "set_input_k_shift kv data = foldM (\<lambda>s data. do {
     c \<leftarrow> vget (kv_v_cells kv) s;
     foldM (\<lambda>i data. do {
       e \<leftarrow> kc_is_empty c i;
       v \<leftarrow> (if e then Some 0 else kc_get_shift c i);
       vset data (s * kc_size c + i) v }) [0..<kc_size c] data }) [0..<kv_n_stream kv] data"

end
