(* ===== verification/Kv_Find_Slot.thy ===== *)
theory Kv_Find_Slot
  imports Kv_Slots Kv_Cache_Props
begin

text \<open>
  The search loop of \<^verbatim>\<open>find_slot\<close> against its reference: the usable cells in the cyclic order that
  starts at the search head. The loop ends, tests every cell at most once, and finds a slot
  whenever enough usable cells exist.
\<close>

section \<open>Usable cells\<close>

definition usable :: "nat \<Rightarrow> llama_swa_type \<Rightarrow> kv_cell list \<Rightarrow> nat \<Rightarrow> bool" where
  "usable n_swa swa V i \<longleftrightarrow> c_pos (V ! i) = - 1 \<or>
     (card (c_seq (V ! i)) = 1 \<and>
      is_masked_swa n_swa swa (c_pos (V ! i)) (Max (seq_positions V (the_elem (c_seq (V ! i)))) + 1) = Some True)"

lemma is_masked_swa_total:
  "0 \<le> p0 \<Longrightarrow> 0 \<le> p1 \<Longrightarrow> swa = SWA_CHUNKED \<longrightarrow> n_swa \<noteq> 0 \<Longrightarrow> \<exists>b. is_masked_swa n_swa swa p0 p1 = Some b"
  by (cases swa) (auto simp: is_masked_swa_def check_def Let_def)

lemma can_use_spec:
  assumes "cells_inv c" "i < kc_size c" "swa = SWA_CHUNKED \<longrightarrow> n_swa \<noteq> 0"
  shows "can_use n_swa swa c i = Some (usable n_swa swa (kc_view c) i)"
proof (cases "kc_pos c ! i = - 1")
  case True
  then show ?thesis using kc_is_empty_spec [OF assms(1,2)] assms(2) by (simp add: can_use_def usable_def)
next
  case False
  have ne: "kc_is_empty c i = Some False" using kc_is_empty_spec [OF assms(1,2)] False by simp
  show ?thesis
  proof (cases "card (kc_seq c ! i) = 1")
    case False
    then show ?thesis using ne \<open>kc_pos c ! i \<noteq> - 1\<close> assms(2)
      by (simp add: can_use_def usable_def kc_seq_count_def)
  next
    case True
    then obtain s where s: "kc_seq c ! i = {s}" using card_1_singletonE by blast
    have ok: "seq_id_ok s" using cells_invD(2) [OF assms(1,2)] s by auto
    have mem: "kc_pos c ! i \<in> seq_positions (kc_view c) s"
      using assms(2) s by (auto simp: seq_positions_def kc_view_def intro!: exI [of _ "cell_at c i"])
    then have mx: "kc_seq_pos_max c s = Some (Max (seq_positions (kc_view c) s))"
      using kc_seq_pos_max_spec [OF assms(1) ok] by auto
    have "0 \<le> kc_pos c ! i" using cells_invD(1) [OF assms(1,2)] False by simp
    moreover have "kc_pos c ! i \<le> Max (seq_positions (kc_view c) s)" using mem by simp
    ultimately obtain b where b: "is_masked_swa n_swa swa (kc_pos c ! i) (Max (seq_positions (kc_view c) s) + 1) = Some b"
      using is_masked_swa_total [OF _ _ assms(3), of "kc_pos c ! i" "Max (seq_positions (kc_view c) s) + 1"] by auto
    show ?thesis
      using ne False True s mx b assms(2) kc_seq_get_spec [OF assms(1,2) s]
      by (simp add: can_use_def usable_def kc_seq_count_def kc_pos_get_def)
  qed
qed

section \<open>The search loop\<close>

definition rot :: "nat \<Rightarrow> nat \<Rightarrow> nat list" where
  "rot h n = [h..<n] @ [0..<h]"

lemma rot_simps [simp]: "h \<le> n \<Longrightarrow> length (rot h n) = n" "h \<le> n \<Longrightarrow> set (rot h n) = {0..<n}" "distinct (rot h n)"
  by (auto simp: rot_def)

lemma rot_nth: "h \<le> n \<Longrightarrow> k < n \<Longrightarrow> rot h n ! k = (if h + k < n then h + k else k - (n - h))"
  by (auto simp: rot_def nth_append)

definition first_fit :: "(nat \<Rightarrow> bool) \<Rightarrow> nat \<Rightarrow> nat \<Rightarrow> nat \<Rightarrow> nat list option" where
  "first_fit u h n N =
     (let us = filter u (rot h n) in if N \<le> length us then Some (take N us) else None)"

lemma filter_take_prefix:
  "length (filter P (take k xs)) = N \<Longrightarrow> N \<le> length (filter P xs) \<and> take N (filter P xs) = filter P (take k xs)"
  by (metis append_eq_conv_conj append_take_drop_id filter_append le_add1 length_append)

lemma filter_take_Suc:
  "k < length xs \<Longrightarrow> filter P (take (Suc k) xs) = filter P (take k xs) @ (if P (xs ! k) then [xs ! k] else [])"
  by (simp add: take_Suc_conv_app_nth)

lemma find_loop_first_fit:
  fixes c
  defines "n \<equiv> kc_size c"
  assumes u: "\<And>i. i < n \<Longrightarrow> can_use n_swa swa c i = Some (u i)"
    and n: "n < 2 ^ 31" "h \<le> n"
    and "k < n" "fs_tested st = k" "fs_idxs st = filter u (take k (rot h n))" "length (fs_idxs st) < N"
    and head: "fs_head st = h + k \<and> h + k \<le> n \<or> fs_head st = k - (n - h) \<and> n - h \<le> k"
    and fuel: "2 * (n - k) + (if fs_head st = n then 1 else 0) \<le> fuel"
  shows "find_loop fuel n_swa swa c False N st = Some (first_fit u h n N)"
  using assms(5-)
proof (induction fuel arbitrary: k st)
  case 0
  then show ?case by simp
next
  case (Suc fuel)
  note prem = Suc.prems
  have fits: "fs_head st \<le> n" using prem(1,5) n(2) by auto
  show ?case
  proof (cases "fs_head st = n")
    case True
    then have k: "h + k = n" using prem(1,5) n(2) by auto
    let ?st = "st\<lparr>fs_tested := k, fs_head := 0\<rparr>"
    have "u32_sub n n = 0" using n(1) by (simp add: u32_sub_def u32_def)
    moreover have "u32 k = k" using prem(1) n(1) by simp
    ultimately have "find_loop (Suc fuel) n_swa swa c False N st = find_loop fuel n_swa swa c False N ?st"
      using True prem(2) by (simp add: n_def [symmetric])
    also have "\<dots> = Some (first_fit u h n N)"
      by (rule Suc.IH [OF prem(1)]) (use prem k True in \<open>auto split: if_splits\<close>)
    finally show ?thesis .
  next
    case False
    let ?i = "fs_head st"
    have i: "?i < n" "?i = rot h n ! k" using fits False prem(1,5) rot_nth [OF n(2) prem(1)] by auto
    let ?st = "st\<lparr>fs_head := ?i + 1, fs_tested := k + 1, fs_idxs := filter u (take (Suc k) (rot h n))\<rparr>"
    have idxs: "fs_idxs ?st = fs_idxs st @ (if u ?i then [?i] else [])"
      using filter_take_Suc [of k "rot h n" u] prem(1,3) i(2) n(2) by simp
    have test: "test_cells n_swa swa c False 1 st = Some ?st"
      using u [OF i(1)] idxs prem(2) by (cases "u ?i") (simp_all add: Let_def)
    show ?thesis
    proof (cases "length (fs_idxs ?st) = N")
      case True
      then have "first_fit u h n N = Some (fs_idxs ?st)"
        using filter_take_prefix [of u "Suc k" "rot h n" N] by (simp add: first_fit_def)
      with True test i(1) show ?thesis by (simp add: n_def [symmetric])
    next
      case more: False
      show ?thesis
      proof (cases "Suc k < n")
        case False
        then have "take (Suc k) (rot h n) = rot h n" using n(2) by simp
        moreover have "length (fs_idxs ?st) < N" using idxs more prem(4) by (auto split: if_splits)
        ultimately have "first_fit u h n N = None" by (simp add: first_fit_def)
        with more test i(1) False show ?thesis by (simp add: n_def [symmetric])
      next
        case True
        have "find_loop fuel n_swa swa c False N ?st = Some (first_fit u h n N)"
        proof (rule Suc.IH [OF True])
          show "length (fs_idxs ?st) < N" using idxs more prem(4) by (auto split: if_splits)
          show "fs_head ?st = h + Suc k \<and> h + Suc k \<le> n \<or> fs_head ?st = Suc k - (n - h) \<and> n - h \<le> Suc k"
            using prem(5) i(1) by auto
          show "2 * (n - Suc k) + (if fs_head ?st = n then 1 else 0) \<le> fuel"
            using prem(6) prem(1) by (auto split: if_splits)
        qed simp_all
        with more test i(1) True show ?thesis by (simp add: n_def [symmetric])
      qed
    qed
  qed
qed

definition search_start :: "kv_cells \<Rightarrow> nat \<Rightarrow> nat \<Rightarrow> nat" where
  "search_start c h N = (if h > kc_get_used c + 2 * N then 0 else h)"

definition stream_slot :: "kv_cache \<Rightarrow> nat \<Rightarrow> nat \<Rightarrow> nat list option" where
  "stream_slot kv st N = (let c = kv_v_cells kv ! st in
     first_fit (usable (kv_n_swa kv) (kv_swa_type kv) (kc_view c)) (search_start c (kv_v_heads kv ! st) N) (kv_size kv) N)"

lemma find_in_stream_first_fit:
  assumes "kv_inv kv" "st < kv_n_stream kv" "0 < N" "kv_swa_type kv = SWA_CHUNKED \<longrightarrow> kv_n_swa kv \<noteq> 0"
  shows "find_in_stream (kv_n_swa kv) (kv_swa_type kv) (kv_v_cells kv ! st) (kv_v_heads kv ! st) False N
    = Some (stream_slot kv st N)"
proof -
  let ?c = "kv_v_cells kv ! st"
  let ?h = "search_start ?c (kv_v_heads kv ! st) N"
  let ?u = "usable (kv_n_swa kv) (kv_swa_type kv) (kc_view ?c)"
  note kv = kv_invD [OF assms(1,2)]
  have h: "?h \<le> kc_size ?c" using kv(3,6) by (simp add: search_start_def)
  show ?thesis
  proof (cases "N > kc_size ?c")
    case True
    have "length (filter ?u (rot ?h (kc_size ?c))) \<le> kc_size ?c"
      using length_filter_le [of ?u "rot ?h (kc_size ?c)"] h by simp
    then have "stream_slot kv st N = None" using True kv(3) by (simp add: stream_slot_def first_fit_def Let_def)
    then show ?thesis using True by (simp add: find_in_stream_def)
  next
    case False
    have "find_loop (find_fuel ?c) (kv_n_swa kv) (kv_swa_type kv) ?c False N
        \<lparr>fs_head = ?h, fs_tested = 0, fs_idxs = []\<rparr> = Some (first_fit ?u ?h (kc_size ?c) N)"
      by (rule find_loop_first_fit [where k = 0])
        (use can_use_spec [OF kv(1) _ assms(4)] kv h assms(3) in \<open>auto simp: find_fuel_def\<close>)
    then show ?thesis using False kv(3) by (simp add: find_in_stream_def stream_slot_def search_start_def Let_def)
  qed
qed

section \<open>Slots for a micro-batch\<close>

text \<open>What the batch splitter guarantees about the sequences of a micro-batch.\<close>

definition ub_fits :: "kv_cache \<Rightarrow> ubatch \<Rightarrow> nat \<Rightarrow> nat \<Rightarrow> bool" where
  "ub_fits kv ub n_seqs N \<longleftrightarrow> slot_shape kv ub = Some (n_seqs, N) \<and> 0 < N \<and> 0 < n_seqs
     \<and> n_seqs \<le> length (ub_seq_id_unq ub)
     \<and> (\<forall>s < n_seqs. kv_seq_valid kv (ub_seq_id_unq ub ! s)
          \<and> (kv_n_stream kv > 1 \<longrightarrow> s * N < length (ub_n_seq_id ub) \<and> ub_n_seq_id ub ! (s * N) = 1
               \<and> s * N < length (ub_seq_id ub) \<and> ub_seq_id ub ! (s * N) \<noteq> []
               \<and> ub_seq_id ub ! (s * N) ! 0 = ub_seq_id_unq ub ! s))
     \<and> (kv_swa_type kv = SWA_CHUNKED \<longrightarrow> kv_n_swa kv \<noteq> 0)"

definition ub_stream :: "kv_cache \<Rightarrow> ubatch \<Rightarrow> nat \<Rightarrow> nat" where
  "ub_stream kv ub s = the (kv_stream_of kv (ub_seq_id_unq ub ! s))"

definition push_all :: "kv_cache \<Rightarrow> ubatch \<Rightarrow> nat \<Rightarrow> nat list \<Rightarrow> slot_info \<Rightarrow> slot_info" where
  "push_all kv ub N ss res = fold (\<lambda>s. si_push (ub_stream kv ub s) (the (stream_slot kv (ub_stream kv ub s) N))) ss res"

lemma find_streams_spec:
  assumes "kv_inv kv" "ub_fits kv ub n_seqs N" "set ss \<subseteq> {0..<n_seqs}"
  shows "find_streams kv ub False N ss res = Some
    (if \<forall>s \<in> set ss. stream_slot kv (ub_stream kv ub s) N \<noteq> None then push_all kv ub N ss res else si_none)"
  using assms(3)
proof (induction ss arbitrary: res)
  case Nil
  then show ?case by (simp add: push_all_def)
next
  case (Cons s ss)
  then have s: "s < n_seqs" by simp
  then have fit: "s < length (ub_seq_id_unq ub)" "kv_seq_valid kv (ub_seq_id_unq ub ! s)" "0 < N"
    "kv_n_stream kv > 1 \<longrightarrow> s * N < length (ub_n_seq_id ub) \<and> ub_n_seq_id ub ! (s * N) = 1
       \<and> s * N < length (ub_seq_id ub) \<and> ub_seq_id ub ! (s * N) \<noteq> [] \<and> ub_seq_id ub ! (s * N) ! 0 = ub_seq_id_unq ub ! s"
    "kv_swa_type kv = SWA_CHUNKED \<longrightarrow> kv_n_swa kv \<noteq> 0"
    using assms(2) by (auto simp: ub_fits_def)
  obtain st where st: "kv_stream_of kv (ub_seq_id_unq ub ! s) = Some st" "st < kv_n_stream kv"
    using kv_stream_ex [OF assms(1) fit(2)] by blast
  have "ub_stream kv ub s = st" by (simp add: ub_stream_def st)
  moreover note find_in_stream_first_fit [OF assms(1) st(2) fit(3,5)]
  ultimately show ?case
    using Cons.IH Cons.prems fit st kv_invD(7,8) [OF assms(1) st(2)]
    by (cases "stream_slot kv st N") (auto simp: vget_def push_all_def)
qed

lemma push_all_sel:
  "si_strm (push_all kv ub N ss res) = si_strm res @ map (ub_stream kv ub) ss"
  "si_idxs (push_all kv ub N ss res) = si_idxs res @ map (\<lambda>s. the (stream_slot kv (ub_stream kv ub s) N)) ss"
  by (induction ss arbitrary: res) (simp_all add: push_all_def si_push_def)

lemma push_all_order: "ss \<noteq> [] \<Longrightarrow> si_s0 (push_all kv ub N ss res) \<le> si_s1 (push_all kv ub N ss res)"
  by (cases ss rule: rev_exhaust) (simp_all add: push_all_def si_push_def)

lemma first_fit_SomeD:
  assumes "first_fit u h n N = Some xs" "h \<le> n"
  shows "length xs = N" "distinct xs" "\<forall>i \<in> set xs. i < n \<and> u i"
proof -
  let ?us = "filter u (rot h n)"
  have xs: "xs = take N ?us" "N \<le> length ?us" using assms(1) by (auto simp: first_fit_def Let_def split: if_splits)
  then show "length xs = N" by simp
  show "distinct xs" unfolding xs(1) by (intro distinct_take distinct_filter) simp
  show "\<forall>i \<in> set xs. i < n \<and> u i"
    using xs(1) set_take_subset [of N ?us] assms(2) by auto
qed

lemma length_filter_rot: "h \<le> n \<Longrightarrow> length (filter u (rot h n)) = card {i. i < n \<and> u i}"
  using distinct_card [of "filter u (rot h n)"] by (simp add: Collect_conj_eq Int_commute atLeast0LessThan lessThan_def)

lemma first_fit_None_iff: "h \<le> n \<Longrightarrow> first_fit u h n N = None \<longleftrightarrow> card {i. i < n \<and> u i} < N"
  by (simp add: first_fit_def Let_def length_filter_rot)

end
