(* ===== verification/Kv_Place.thy ===== *)
theory Kv_Place
  imports Kv_Find_Slot
begin

text \<open>
  Placing a micro-batch of a unified cache (one stream) without a sliding window, and the dry run
  of \<^verbatim>\<open>prepare\<close>: the tokens land in empty cells, nothing else changes, and restoring the saved cells
  undoes it.
\<close>

section \<open>One token\<close>

definition token_seqs :: "ubatch \<Rightarrow> nat \<Rightarrow> llama_seq_id list" where
  "token_seqs ub i = take (ub_n_seq_id ub ! i) (ub_seq_id ub ! i)"

definition token_ok :: "ubatch \<Rightarrow> nat \<Rightarrow> bool" where
  "token_ok ub i \<longleftrightarrow> i < length (ub_pos ub) \<and> 0 \<le> ub_pos ub ! i
     \<and> (ub_is_pos_2d ub \<longrightarrow> i + ub_n_tokens ub * 2 < length (ub_pos ub))
     \<and> i < length (ub_n_seq_id ub) \<and> i < length (ub_seq_id ub)
     \<and> 0 < ub_n_seq_id ub ! i \<and> ub_n_seq_id ub ! i \<le> length (ub_seq_id ub ! i)
     \<and> distinct (token_seqs ub i) \<and> set (token_seqs ub i) \<subseteq> Collect seq_id_ok"

definition tok_cell :: "ubatch \<Rightarrow> nat \<Rightarrow> kv_cell \<Rightarrow> kv_cell" where
  "tok_cell ub i x = Cell (ub_pos ub ! i)
     (if ub_is_pos_2d ub then \<lparr>ext_x = ub_pos ub ! (i + ub_n_tokens ub * 2), ext_y = ub_pos ub ! (i + ub_n_tokens ub)\<rparr>
      else c_ext x) 0 (set (token_seqs ub i))"

lemma effect_trans: "effect c i x h d \<Longrightarrow> effect d i y h' e \<Longrightarrow> effect c i y h' e"
  by (simp add: effect_def)

lemma effect_at: "effect c i x h d \<Longrightarrow> i < kc_size c \<Longrightarrow> cell_at d i = x"
  by (simp add: effect_nth)

lemma seq_add_loop:
  assumes "cells_inv c" "idx < kc_size c" "cell_at c idx = Cell p e h {}" "p \<noteq> - 1"
    and "n \<le> length ids" "distinct (take n ids)" "set (take n ids) \<subseteq> Collect seq_id_ok"
  shows "\<exists>d. foldM (\<lambda>j c. do { s \<leftarrow> vget ids j; kc_seq_add idx s c }) [0..<n] c = Some d
    \<and> effect c idx (Cell p e h (set (take n ids))) (kc_has_shift c) d"
proof (rule foldM_upt_total)
  show "effect c idx (Cell p e h (set (take 0 ids))) (kc_has_shift c) c"
    using assms(1-3) view_update_same [OF assms(2,3)] by (simp add: effect_def)
  fix j u
  assume j: "j < n" and u: "effect c idx (Cell p e h (set (take j ids))) (kc_has_shift c) u"
  note uD = effectD [OF u]
  have at: "cell_at u idx = Cell p e h (set (take j ids))" by (rule effect_at [OF u assms(2)])
  then have at': "kc_pos u ! idx = p" "kc_seq u ! idx = set (take j ids)" by (simp_all add: cell_at_def)
  have s: "ids ! j \<in> set (take n ids)" "ids ! j \<notin> set (take j ids)"
  proof -
    have "take n ids ! j \<in> set (take n ids)" by (rule nth_mem) (use j assms(5) in simp)
    then show "ids ! j \<in> set (take n ids)" using j by simp
    show "ids ! j \<notin> set (take j ids)"
    proof
      assume "ids ! j \<in> set (take j ids)"
      then obtain k where "k < j" "ids ! k = ids ! j" by (auto simp: in_set_conv_nth)
      then show False using assms(5,6) j nth_eq_iff_index_eq [of "take n ids" k j] by auto
    qed
  qed
  have "seq_id_ok (ids ! j)" using s(1) assms(7) by blast
  moreover have "idx < kc_size u" "kc_pos u ! idx \<noteq> - 1" "ids ! j \<notin> kc_seq u ! idx"
    using at' s(2) assms(2,4) uD(4) by simp_all
  ultimately obtain d where d: "kc_seq_add idx (ids ! j) u = Some d"
    "effect u idx (set_seq (cell_at u idx) (insert (ids ! j) (kc_seq u ! idx))) (kc_has_shift u) d"
    using kc_seq_add_spec [OF uD(1)] by blast
  have "insert (ids ! j) (set (take j ids)) = set (take (Suc j) ids)"
    using j assms(5) by (simp add: take_Suc_conv_app_nth)
  then have "effect u idx (Cell p e h (set (take (Suc j) ids))) (kc_has_shift c) d"
    using d(2) at at' uD(3) by (simp add: set_seq_def)
  with d(1) j assms(5) effect_trans [OF u]
  show "\<exists>v. do { s \<leftarrow> vget ids j; kc_seq_add idx s u } = Some v
      \<and> effect c idx (Cell p e h (set (take (Suc j) ids))) (kc_has_shift c) v"
    by (auto simp: vget_def)
qed simp

lemma place_token_empty:
  assumes "cells_inv c" "idx < kc_size c" "kc_pos c ! idx = - 1" "token_ok ub i"
  shows "\<exists>d. place_token ub i idx (c, rm) = Some (d, rm)
    \<and> effect c idx (tok_cell ub i (cell_at c idx)) (kc_has_shift c) d"
proof -
  note tok = assms(4) [unfolded token_ok_def]
  obtain c1 where c1: "kc_pos_set idx (ub_pos ub ! i) c = Some c1"
    "effect c idx (x_pos_set (ub_pos ub ! i) (cell_at c idx)) (kc_has_shift c) c1"
    using kc_pos_set_spec [OF assms(1-3)] tok by blast
  let ?e = "c_ext (tok_cell ub i (cell_at c idx))"
  have x: "x_pos_set (ub_pos ub ! i) (cell_at c idx) = Cell (ub_pos ub ! i) (kc_ext c ! idx) 0 {}"
    using cells_invD(3,4) [OF assms(1,2,3)] by (simp add: x_pos_set_def)
  obtain c2 where c2: "(if ub_is_pos_2d ub then do {
         x \<leftarrow> vget (ub_pos ub) (i + ub_n_tokens ub * 2);
         y \<leftarrow> vget (ub_pos ub) (i + ub_n_tokens ub);
         kc_ext_set idx \<lparr>ext_x = x, ext_y = y\<rparr> c1 }
       else Some c1) = Some c2" "effect c idx (Cell (ub_pos ub ! i) ?e 0 {}) (kc_has_shift c) c2"
  proof (cases "ub_is_pos_2d ub")
    case True
    let ?x = "\<lparr>ext_x = ub_pos ub ! (i + ub_n_tokens ub * 2), ext_y = ub_pos ub ! (i + ub_n_tokens ub)\<rparr>"
    obtain d where d: "kc_ext_set idx ?x c1 = Some d" "effect c1 idx (x_ext_set ?x (cell_at c1 idx)) (kc_has_shift c1) d"
      using kc_ext_set_spec [OF effectD(1) [OF c1(2)]] effectD(4) [OF c1(2)] assms(2) by metis
    have "cell_at c1 idx = Cell (ub_pos ub ! i) (kc_ext c ! idx) 0 {}" using effect_at [OF c1(2) assms(2)] x by simp
    then have "effect c idx (Cell (ub_pos ub ! i) ?e 0 {}) (kc_has_shift c) d"
      using effect_trans [OF c1(2) d(2)] True effectD(3) [OF c1(2)] by (simp add: x_ext_set_def tok_cell_def)
    then show ?thesis using that d(1) True tok by (simp add: vget_def)
  next
    case False
    then show ?thesis using that c1(2) x by (simp add: tok_cell_def)
  qed
  obtain d where d: "foldM (\<lambda>j c. do { s \<leftarrow> vget (ub_seq_id ub ! i) j; kc_seq_add idx s c }) [0..<ub_n_seq_id ub ! i] c2 = Some d"
    "effect c2 idx (Cell (ub_pos ub ! i) ?e 0 (set (token_seqs ub i))) (kc_has_shift c2) d"
    using seq_add_loop [OF effectD(1) [OF c2(2)] _ effect_at [OF c2(2) assms(2)], of "ub_n_seq_id ub ! i" "ub_seq_id ub ! i"]
      effectD(4) [OF c2(2)] assms(2) tok by (auto simp: token_seqs_def)
  have "effect c idx (tok_cell ub i (cell_at c idx)) (kc_has_shift c) d"
    using effect_trans [OF c2(2) d(2)] effectD(3) [OF c2(2)] by (simp add: tok_cell_def)
  moreover have "place_token ub i idx (c, rm) = Some (d, rm)"
    using kc_is_empty_spec [OF assms(1,2)] assms(3) tok c1(1) c2(1) d(1) by (simp add: place_token_def vget_def)
  ultimately show ?thesis by blast
qed

section \<open>All tokens of a slot\<close>

definition placed :: "ubatch \<Rightarrow> nat list \<Rightarrow> nat \<Rightarrow> kv_cells \<Rightarrow> kv_cells \<Rightarrow> bool" where
  "placed ub idxs k c d \<longleftrightarrow> cells_inv d \<and> kc_has_shift d = kc_has_shift c \<and> kc_size d = kc_size c
     \<and> (\<forall>i < k. cell_at d (idxs ! i) = tok_cell ub i (cell_at c (idxs ! i)))
     \<and> (\<forall>j < kc_size c. j \<notin> set (take k idxs) \<longrightarrow> cell_at d j = cell_at c j)"

lemma placed_step:
  assumes "placed ub idxs k c d" "k < length idxs" "distinct idxs" "\<forall>i \<in> set idxs. i < kc_size c \<and> kc_pos c ! i = - 1"
    "token_ok ub k"
  shows "\<exists>e. place_token ub k (idxs ! k) (d, rm) = Some (e, rm) \<and> placed ub idxs (Suc k) c e"
proof -
  note D = assms(1) [unfolded placed_def]
  let ?j = "idxs ! k"
  have j: "?j < kc_size c" "kc_pos c ! ?j = - 1" using assms(2,4) by simp_all
  have fresh: "?j \<notin> set (take k idxs)"
    using assms(2,3) by (auto simp: in_set_conv_nth nth_eq_iff_index_eq)
  then have at: "cell_at d ?j = cell_at c ?j" using D j(1) by blast
  then have "kc_pos d ! ?j = - 1" using j(2) by (simp add: cell_at_def)
  then obtain e where e: "place_token ub k ?j (d, rm) = Some (e, rm)"
    "effect d ?j (tok_cell ub k (cell_at d ?j)) (kc_has_shift d) e"
    using place_token_empty [of d ?j ub k rm] D j(1) assms(5) by auto
  have same: "cell_at e i = (if i = ?j then tok_cell ub k (cell_at c ?j) else cell_at d i)" if "i < kc_size c" for i
    using effect_nth [OF e(2), of i] that D at by simp
  have "placed ub idxs (Suc k) c e"
    unfolding placed_def
  proof (intro conjI allI impI)
    show "cells_inv e" "kc_has_shift e = kc_has_shift c" "kc_size e = kc_size c"
      using effectD [OF e(2)] D by simp_all
    fix i assume "i < Suc k"
    show "cell_at e (idxs ! i) = tok_cell ub i (cell_at c (idxs ! i))"
    proof (cases "i = k")
      case True
      then show ?thesis using same [OF j(1)] by simp
    next
      case False
      with \<open>i < Suc k\<close> have i: "i < k" by simp
      then have "idxs ! i \<noteq> ?j" "idxs ! i < kc_size c"
        using assms(2-4) by (simp_all add: nth_eq_iff_index_eq)
      then show ?thesis using same i D by simp
    qed
  next
    fix i assume "i < kc_size c" "i \<notin> set (take (Suc k) idxs)"
    then show "cell_at e i = cell_at c i" using same D assms(2) by (simp add: take_Suc_conv_app_nth)
  qed
  with e(1) show ?thesis by blast
qed

lemma placed_live:
  assumes "placed ub idxs (length idxs) c d" "cells_live c" "\<forall>i < length idxs. token_ok ub i"
  shows "cells_live d"
  unfolding cells_live_nth
proof (intro allI impI)
  note D = assms(1) [unfolded placed_def]
  fix j assume j: "j < kc_size d"
  show "cell_live (cell_at d j)"
  proof (cases "j \<in> set idxs")
    case True
    then obtain i where i: "i < length idxs" "idxs ! i = j" by (auto simp: in_set_conv_nth)
    have "set (token_seqs ub i) \<noteq> {}" using assms(3) i(1) by (auto simp: token_ok_def token_seqs_def)
    moreover have "cell_at d j = tok_cell ub i (cell_at (c) j)" using D i by blast
    ultimately show ?thesis by (simp add: tok_cell_def cell_live_def)
  next
    case False
    then show ?thesis using D j assms(2) by (simp add: cells_live_nth)
  qed
qed

text \<open>A slot of a unified cache without a window: distinct empty cells, one per token.\<close>

definition slot_ok :: "kv_cache \<Rightarrow> ubatch \<Rightarrow> slot_info \<Rightarrow> nat list \<Rightarrow> bool" where
  "slot_ok kv ub si idxs \<longleftrightarrow> si_strm si = [0] \<and> si_idxs si = [idxs] \<and> idxs \<noteq> [] \<and> distinct idxs
     \<and> (\<forall>i \<in> set idxs. i < kv_size kv \<and> kc_pos (kv_v_cells kv ! 0) ! i = - 1)
     \<and> length idxs = ub_n_tokens ub \<and> (\<forall>i < length idxs. token_ok ub i)"

lemma slot_ok_sel:
  "slot_ok kv ub si idxs \<Longrightarrow> si_size si = Some (length idxs) \<and> si_n_stream si = 1"
  by (simp add: slot_ok_def si_size_def si_n_stream_def)

lemma place_tokens_unified:
  assumes "kv_inv kv" "slot_ok kv ub si idxs"
  defines "c \<equiv> kv_v_cells kv ! 0"
  shows "\<exists>d. place_tokens si ub kv = Some (kv\<lparr>kv_v_cells := (kv_v_cells kv)[0 := d]\<rparr>, replicate LLAMA_MAX_SEQ (- 1))
    \<and> placed ub idxs (length idxs) c d"
proof -
  note slot = assms(2) [unfolded slot_ok_def]
  have kv0: "0 < kv_n_stream kv" using assms(1) by (simp add: kv_inv_def)
  note kv = kv_invD [OF assms(1) kv0]
  let ?rm = "replicate LLAMA_MAX_SEQ (- 1 :: int)"
  define I where "I k s \<longleftrightarrow> (\<exists>d. s = (kv\<lparr>kv_v_cells := (kv_v_cells kv)[0 := d]\<rparr>, ?rm) \<and> placed ub idxs k c d)" for k s
  define body :: "nat \<Rightarrow> kv_cache \<times> int list \<Rightarrow> (kv_cache \<times> int list) option" where "body ii krm = (case krm of (kv, rm) \<Rightarrow> do {
         st \<leftarrow> vget (si_strm si) 0;
         c \<leftarrow> vget (kv_v_cells kv) st;
         is \<leftarrow> vget (si_idxs si) 0;
         idx \<leftarrow> vget is ii;
         (c, rm) \<leftarrow> place_token ub (0 * length idxs + ii) idx (c, rm);
         Some (kv\<lparr>kv_v_cells := (kv_v_cells kv)[st := c]\<rparr>, rm) })" for ii krm
  have "\<exists>t. foldM body [0..<length idxs] (kv, ?rm) = Some t \<and> I (length idxs) t"
  proof (rule foldM_upt_total)
    have "placed ub idxs 0 c c" using kv(1) by (simp add: placed_def c_def)
    moreover have "kv\<lparr>kv_v_cells := (kv_v_cells kv)[0 := c]\<rparr> = kv" by (simp add: c_def)
    ultimately show "I 0 (kv, ?rm)" unfolding I_def by (intro exI [of _ c]) simp
    fix k u
    assume k: "k < length idxs" and "I k u"
    then obtain d where d: "u = (kv\<lparr>kv_v_cells := (kv_v_cells kv)[0 := d]\<rparr>, ?rm)" "placed ub idxs k c d"
      by (auto simp: I_def)
    obtain e where e: "place_token ub k (idxs ! k) (d, ?rm) = Some (e, ?rm)" "placed ub idxs (Suc k) c e"
      using placed_step [OF d(2) k, of ?rm] slot k kv(3) by (auto simp: c_def)
    have "body k u = Some (kv\<lparr>kv_v_cells := (kv_v_cells kv)[0 := e]\<rparr>, ?rm)"
      using e(1) slot k kv(7) by (simp add: body_def d(1) vget_def)
    with e(2) show "\<exists>v. body k u = Some v \<and> I (Suc k) v" by (auto simp: I_def)
  qed simp
  then show ?thesis
    using slot_ok_sel [OF assms(2)] unfolding place_tokens_def I_def body_def by auto
qed

lemma purge_nothing: "purge_overwritten (replicate LLAMA_MAX_SEQ (- 1)) kv = Some kv"
proof -
  have "\<exists>t. purge_overwritten (replicate LLAMA_MAX_SEQ (- 1)) kv = Some t \<and> t = kv"
    unfolding purge_overwritten_def by (rule foldM_total) auto
  then show ?thesis by simp
qed

lemma apply_unified:
  assumes "kv_inv kv" "\<not> kv_paged kv" "slot_ok kv ub si idxs"
  shows "\<exists>d. kv_apply_ubatch si ub kv = Some (kv_put 0 d (last idxs + 1) kv)
    \<and> placed ub idxs (length idxs) (kv_v_cells kv ! 0) d \<and> kv_inv (kv_put 0 d (last idxs + 1) kv)"
proof -
  note slot = assms(3) [unfolded slot_ok_def]
  have kv0: "0 < kv_n_stream kv" using assms(1) by (simp add: kv_inv_def)
  note kv = kv_invD [OF assms(1) kv0]
  obtain d where d: "place_tokens si ub kv = Some (kv\<lparr>kv_v_cells := (kv_v_cells kv)[0 := d]\<rparr>, replicate LLAMA_MAX_SEQ (- 1))"
    "placed ub idxs (length idxs) (kv_v_cells kv ! 0) d"
    using place_tokens_unified [OF assms(1,3)] by blast
  have "kv_apply_ubatch si ub kv = Some (kv_put 0 d (last idxs + 1) kv)"
    using assms(2) slot slot_ok_sel [OF assms(3)] d(1) kv(8)
    by (simp add: kv_apply_ubatch_def purge_nothing move_heads_def vget_def vset_def kv_put_def)
  moreover have "last idxs + 1 \<le> kv_size kv" using slot last_in_set [of idxs] by (simp add: Suc_le_eq)
  then have "kv_inv (kv_put 0 d (last idxs + 1) kv)"
    using d(2) kv placed_live [OF d(2)] slot by (intro kv_inv_put [OF assms(1) kv0]) (simp_all add: placed_def)
  ultimately show ?thesis using d(2) by blast
qed

section \<open>Finding and restoring\<close>

definition ub_ok :: "kv_cache \<Rightarrow> ubatch \<Rightarrow> bool" where
  "ub_ok kv ub \<longleftrightarrow> 0 < ub_n_tokens ub \<and> ub_seq_id_unq ub \<noteq> [] \<and> kv_seq_valid kv (ub_seq_id_unq ub ! 0)
     \<and> (\<forall>i < ub_n_tokens ub. token_ok ub i)"

definition unified :: "kv_cache \<Rightarrow> bool" where
  "unified kv \<longleftrightarrow> kv_inv kv \<and> \<not> kv_paged kv \<and> kv_n_stream kv = 1 \<and> kv_swa_type kv = SWA_NONE"

lemma ub_ok_put [simp]: "ub_ok (kv_put st c h kv) ub = ub_ok kv ub"
  by (simp add: ub_ok_def kv_seq_valid_def)

lemma usable_none: "usable n SWA_NONE V i \<longleftrightarrow> c_pos (V ! i) = - 1"
  by (auto simp: usable_def is_masked_swa_def check_def)

lemma search_start_le: "kv_inv kv \<Longrightarrow> st < kv_n_stream kv \<Longrightarrow> search_start (kv_v_cells kv ! st) (kv_v_heads kv ! st) N \<le> kv_size kv"
  using kv_invD(6) by (simp add: search_start_def)

lemma find_slot_unified:
  assumes "unified kv" "ub_ok kv ub"
  shows "kv_find_slot kv ub False = Some si_none \<and> card {i. i < kv_size kv \<and> kc_pos (kv_v_cells kv ! 0) ! i = - 1} < ub_n_tokens ub
    \<or> (\<exists>si idxs. kv_find_slot kv ub False = Some si \<and> slot_ok kv ub si idxs)"
proof -
  note u = assms(1) [unfolded unified_def] and ub = assms(2) [unfolded ub_ok_def]
  have kv0: "0 < kv_n_stream kv" using u by simp
  note kv = kv_invD [OF _ kv0]
  obtain st where "kv_stream_of kv (ub_seq_id_unq ub ! 0) = Some st" "st < kv_n_stream kv"
    using kv_stream_ex u ub by blast
  then have st: "ub_stream kv ub 0 = 0" using u by (simp add: ub_stream_def)
  have fits: "ub_fits kv ub 1 (ub_n_tokens ub)"
    using u ub by (auto simp: ub_fits_def slot_shape_def Suc_le_eq)
  note find = find_streams_spec [OF _ fits, of "[0]" si_start]
  let ?N = "ub_n_tokens ub" and ?c = "kv_v_cells kv ! 0"
  let ?U = "{i. i < kv_size kv \<and> kc_pos ?c ! i = - 1}"
  have us: "{i. i < kv_size kv \<and> usable (kv_n_swa kv) (kv_swa_type kv) (kc_view ?c) i} = ?U"
    using u kv(3) by (auto simp: usable_none)
  note le = search_start_le [OF _ kv0, of ?N]
  show ?thesis
  proof (cases "stream_slot kv 0 ?N")
    case None
    then have "card ?U < ?N"
      using first_fit_None_iff [OF le] us u by (simp add: stream_slot_def Let_def)
    moreover have "kv_find_slot kv ub False = Some si_none"
      using find u None st by (simp add: kv_find_slot_def slot_shape_def si_empty_def si_none_def del: find_streams.simps)
    ultimately show ?thesis by blast
  next
    case (Some idxs)
    let ?si = "push_all kv ub ?N [0] si_start"
    have sel: "si_strm ?si = [0]" "si_idxs ?si = [idxs]"
      using Some st by (simp_all add: push_all_sel si_start_def)
    have "kv_find_slot kv ub False = Some ?si"
      using find u Some st push_all_order [of "[0]" kv ub ?N si_start]
      by (simp add: kv_find_slot_def slot_shape_def del: find_streams.simps)
    moreover have ff: "first_fit (usable (kv_n_swa kv) SWA_NONE (kc_view ?c)) (search_start ?c (kv_v_heads kv ! 0) ?N)
        (kv_size kv) ?N = Some idxs" using Some u by (simp add: stream_slot_def Let_def)
    have "kv_inv kv" using u by simp
    with first_fit_SomeD [OF ff le] kv(3)
    have "length idxs = ?N" "distinct idxs" "\<forall>i \<in> set idxs. i < kv_size kv \<and> kc_pos ?c ! i = - 1"
      by (auto simp: usable_none)
    then have "slot_ok kv ub ?si idxs" using sel ub by (auto simp: slot_ok_def)
    ultimately show ?thesis by blast
  qed
qed

lemma kv_put_put: "kv_put st c h (kv_put st c' h' kv) = kv_put st c h kv"
  by (simp add: kv_put_def)

lemma kv_put_same: "st < length (kv_v_cells kv) \<Longrightarrow> kv_put st (kv_v_cells kv ! st) (kv_v_heads kv ! st) kv = kv"
  by (simp add: kv_put_def)

lemma save_restore:
  assumes "kv_inv kv" "slot_ok kv ub si idxs" "placed ub idxs (length idxs) (kv_v_cells kv ! 0) d"
  shows "\<exists>ps. save_slot si kv = Some ps \<and> restore_slot ps (kv_put 0 d h kv) = Some kv"
proof -
  note slot = assms(2) [unfolded slot_ok_def] and D = assms(3) [unfolded placed_def]
  have kv0: "0 < kv_n_stream kv" using assms(1) by (simp add: kv_inv_def)
  note kv = kv_invD [OF assms(1) kv0]
  let ?c = "kv_v_cells kv ! 0"
  have idx: "i < kc_size ?c \<and> kc_shift ?c ! i = 0" if "i \<in> set idxs" for i
    using that slot kv(1,3) cells_invD(4) [of ?c i] by auto
  then obtain r where r: "kc_cp idxs ?c = Some r" using kc_cp_spec [of idxs ?c] by blast
  have "kc_shift d ! i = 0" if "i \<in> set idxs" for i
  proof -
    obtain k where "k < length idxs" "idxs ! k = i" using \<open>i \<in> set idxs\<close> by (auto simp: in_set_conv_nth)
    then have "cell_at d i = tok_cell ub k (cell_at ?c i)" using D by blast
    then show ?thesis by (simp add: tok_cell_def cell_at_def)
  qed
  then have "kc_set idxs r d = Some ?c"
    using D idx kv(1) r by (intro kc_restore) auto
  moreover have "kc_size r = length idxs" using r kc_cp_spec [of idxs ?c] idx by (auto simp: kc_size_def)
  ultimately show ?thesis
    using slot slot_ok_sel [OF assms(2)] r kv(7,8) kv_put_same [OF kv(7)]
    by (simp add: save_slot_def restore_slot_def vget_def kv_put_put)
qed

definition apply_slots :: "(slot_info \<times> ubatch) list \<Rightarrow> kv_cache \<Rightarrow> kv_cache option" where
  "apply_slots xs kv = foldM (\<lambda>(si, ub) kv. kv_apply_ubatch si ub kv) xs kv"

lemma prepare_loop_unified:
  assumes "unified kv" "\<forall>ub \<in> set ubs. ub_ok kv ub"
  shows "\<exists>success sis news kv'. prepare_loop ubs res states kv = Some (success, res @ sis, states @ news, kv')
    \<and> foldM restore_slot (rev news) kv' = Some kv \<and> length news = length sis
    \<and> (success \<longrightarrow> length sis = length ubs \<and> apply_slots (zip sis ubs) kv = Some kv' \<and> unified kv')"
  using assms
proof (induction ubs arbitrary: kv res states)
  case Nil
  then show ?case by (auto simp: apply_slots_def)
next
  case (Cons ub ubs)
  have u: "kv_inv kv" "\<not> kv_paged kv" using Cons.prems(1) by (simp_all add: unified_def)
  have "ub_ok kv ub" using Cons.prems(2) by simp
  from find_slot_unified [OF Cons.prems(1) this] show ?case
  proof (elim disjE exE conjE)
    assume "kv_find_slot kv ub False = Some si_none"
    then show ?thesis by (intro exI [of _ False]) (simp add: si_empty_def si_none_def)
  next
    fix si idxs
    assume si: "kv_find_slot kv ub False = Some si" "slot_ok kv ub si idxs"
    obtain d where d: "kv_apply_ubatch si ub kv = Some (kv_put 0 d (last idxs + 1) kv)"
      "placed ub idxs (length idxs) (kv_v_cells kv ! 0) d" "kv_inv (kv_put 0 d (last idxs + 1) kv)"
      using apply_unified [OF u si(2)] by blast
    let ?kv1 = "kv_put 0 d (last idxs + 1) kv"
    obtain ps where ps: "save_slot si kv = Some ps" "restore_slot ps ?kv1 = Some kv"
      using save_restore [OF u(1) si(2) d(2)] by blast
    have "unified ?kv1" "\<forall>ub \<in> set ubs. ub_ok ?kv1 ub"
      using Cons.prems d(3) by (simp_all add: unified_def)
    from Cons.IH [OF this, of "res @ [si]" "states @ [ps]"] obtain success sis news kv' where ih:
      "prepare_loop ubs (res @ [si]) (states @ [ps]) ?kv1 = Some (success, res @ [si] @ sis, states @ [ps] @ news, kv')"
      "foldM restore_slot (rev news) kv' = Some ?kv1" "length news = length sis"
      "success \<longrightarrow> length sis = length ubs \<and> apply_slots (zip sis ubs) ?kv1 = Some kv' \<and> unified kv'" by auto
    have "\<not> si_empty si" using si(2) by (simp add: slot_ok_def si_empty_def)
    then have "prepare_loop (ub # ubs) res states kv = Some (success, res @ (si # sis), states @ (ps # news), kv')"
      using si(1) ps(1) d(1) ih(1) by simp
    moreover have "foldM restore_slot (rev (ps # news)) kv' = Some kv"
      using ih(2) ps(2) by (simp add: foldM_append)
    moreover have "success \<longrightarrow> apply_slots (zip (si # sis) (ub # ubs)) kv = Some kv'"
      using ih(4) d(1) by (simp add: apply_slots_def)
    ultimately show ?thesis using ih(3,4)
      by (intro exI [of _ success] exI [of _ "si # sis"] exI [of _ "ps # news"] exI [of _ kv']) simp
  qed
qed

section \<open>Properties\<close>

definition demo_ub :: ubatch where
  "demo_ub = \<lparr>ub_equal_seqs = True, ub_n_tokens = 2, ub_n_seq_tokens = 2, ub_n_seqs = 1, ub_n_seqs_unq = 1,
     ub_n_pos = 1, ub_token = [7, 8], ub_embd = [], ub_pos = [3, 4], ub_n_seq_id = [1, 1], ub_seq_id = [[0], [0]],
     ub_seq_id_unq = [0], ub_seq_idx = [0], ub_output = [False, True]\<rparr>"

lemma demo_ub_ok: "ub_ok demo_kv demo_ub" "unified demo_kv"
  using demo_inv
  by (simp_all add: ub_ok_def demo_ub_def unified_def demo_kv_sel token_ok_def token_seqs_def ub_is_pos_2d_def
      seq_id_ok_def LLAMA_MAX_SEQ_def all_lt_2)

text \<open>C9: (\<open>find_slot\<close> on the cell cache, tokens not required to be contiguous) The search ends
  without a failed assertion. It returns no slot exactly when some stream of the micro-batch has
  fewer usable cells (empty, or held by one sequence that no longer sees it through its window)
  than the stream has tokens; otherwise each stream gets one distinct usable cell per token: the
  first ones in the cyclic order that starts at the search head.\<close>

theorem find_slot_complete:
  assumes "kv_inv kv" "\<not> kv_paged kv" "ub_fits kv ub n_seqs N"
  defines "fits s \<equiv> N \<le> card {i. i < kv_size kv
      \<and> usable (kv_n_swa kv) (kv_swa_type kv) (kc_view (kv_v_cells kv ! ub_stream kv ub s)) i}"
  shows "\<exists>si. kv_find_slot kv ub False = Some si
    \<and> (si_empty si \<longleftrightarrow> (\<exists>s < n_seqs. \<not> fits s))
    \<and> (\<not> si_empty si \<longrightarrow> si_strm si = map (ub_stream kv ub) [0..<n_seqs] \<and> length (si_idxs si) = n_seqs
        \<and> (\<forall>s < n_seqs. length (si_idxs si ! s) = N \<and> distinct (si_idxs si ! s)
            \<and> stream_slot kv (ub_stream kv ub s) N = Some (si_idxs si ! s)
            \<and> (\<forall>i \<in> set (si_idxs si ! s). i < kv_size kv
                 \<and> usable (kv_n_swa kv) (kv_swa_type kv) (kc_view (kv_v_cells kv ! ub_stream kv ub s)) i)))"
proof -
  let ?slot = "\<lambda>s. stream_slot kv (ub_stream kv ub s) N"
  let ?si = "if \<forall>s < n_seqs. ?slot s \<noteq> None then push_all kv ub N [0..<n_seqs] si_start else si_none"
  have shape: "slot_shape kv ub = Some (n_seqs, N)" and pos: "0 < n_seqs" using assms(3) by (simp_all add: ub_fits_def)
  have st: "ub_stream kv ub s < kv_n_stream kv" if "s < n_seqs" for s
    using kv_stream_ex(1) [OF assms(1), of "ub_seq_id_unq ub ! s"] assms(3) that
    by (auto simp: ub_fits_def ub_stream_def)
  have slot: "?slot s = None \<longleftrightarrow> \<not> fits s" if "s < n_seqs" for s
    using first_fit_None_iff [OF search_start_le [OF assms(1) st [OF that]]]
    by (simp add: stream_slot_def Let_def fits_def not_le)
  have found: "length xs = N \<and> distinct xs \<and> (\<forall>i \<in> set xs. i < kv_size kv
      \<and> usable (kv_n_swa kv) (kv_swa_type kv) (kc_view (kv_v_cells kv ! ub_stream kv ub s)) i)"
    if "s < n_seqs" "?slot s = Some xs" for s xs
    using first_fit_SomeD [OF _ search_start_le [OF assms(1) st [OF that(1)]]] that(2)
    by (simp add: stream_slot_def Let_def) blast
  have "find_streams kv ub False N [0..<n_seqs] si_start = Some ?si"
    using find_streams_spec [OF assms(1,3), of "[0..<n_seqs]" si_start] by (simp add: Ball_def)
  moreover have "si_empty ?si \<longleftrightarrow> \<not> (\<forall>s < n_seqs. ?slot s \<noteq> None)"
    using pos by (auto simp: si_empty_def si_none_def push_all_sel)
  moreover have "si_s0 ?si \<le> si_s1 ?si"
    using push_all_order [of "[0..<n_seqs]"] pos by (auto simp: si_none_def)
  ultimately have "kv_find_slot kv ub False = Some ?si" "si_empty ?si \<longleftrightarrow> (\<exists>s < n_seqs. \<not> fits s)"
    using assms(2) shape slot by (auto simp: kv_find_slot_def)
  then obtain si where si: "kv_find_slot kv ub False = Some si" "si_empty si \<longleftrightarrow> (\<exists>s < n_seqs. \<not> fits s)"
    "\<forall>s < n_seqs. ?slot s \<noteq> None \<Longrightarrow> si = push_all kv ub N [0..<n_seqs] si_start" by auto
  show ?thesis
  proof (cases "\<forall>s < n_seqs. ?slot s \<noteq> None")
    case True
    then have "?slot s = Some (the (?slot s))" if "s < n_seqs" for s using that by simp
    with si(1,2) found show ?thesis
      by (intro exI [of _ si]) (auto simp: si(3) [OF True] push_all_sel si_start_def)
  next
    case False
    then have "si_empty si" using si(2) slot by blast
    with si(1,2) show ?thesis by blast
  qed
qed

theorem find_slot_complete_witness:
  "\<exists>si. kv_find_slot demo_kv demo_ub False = Some si \<and> si_idxs si = [[2, 4]]"
proof -
  have fit: "ub_fits demo_kv demo_ub 1 2"
    using demo_inv by (simp add: ub_fits_def slot_shape_def demo_kv_sel demo_ub_def)
  have np: "\<not> kv_paged demo_kv" by (simp add: demo_kv_sel)
  have st: "ub_stream demo_kv demo_ub 0 = 0" by (simp add: ub_stream_def demo_ub_def demo_inv)
  have slot: "stream_slot demo_kv 0 2 = Some [2, 4]"
    by (simp add: stream_slot_def first_fit_def demo_kv_sel usable_none rot_def search_start_def demo_view_def upt_rec)
  have "search_start (cells_of demo_view) 0 2 \<le> 5" by (simp add: search_start_def)
  then have "2 \<le> card {i. i < kv_size demo_kv \<and> usable (kv_n_swa demo_kv) (kv_swa_type demo_kv)
      (kc_view (kv_v_cells demo_kv ! ub_stream demo_kv demo_ub 0)) i}"
    using first_fit_None_iff [of "search_start (cells_of demo_view) 0 2" 5 _ 2] slot st
    by (simp add: stream_slot_def demo_kv_sel) (metis not_less option.distinct(1))
  with find_slot_complete [OF demo_inv(1) np fit] slot st show ?thesis
    by (auto simp: list_eq_iff_nth_eq)
qed

lemma apply_unified_places:
  assumes "unified kv" "slot_ok kv ub si idxs"
  shows "\<exists>kv' d. kv_apply_ubatch si ub kv = Some kv' \<and> kv' = kv_put 0 d (last idxs + 1) kv \<and> unified kv'
    \<and> (\<forall>i < length idxs. cell_at d (idxs ! i) = tok_cell ub i (cell_at (kv_v_cells kv ! 0) (idxs ! i)))
    \<and> (\<forall>j < kv_size kv. j \<notin> set idxs \<longrightarrow> cell_at d j = cell_at (kv_v_cells kv ! 0) j)
    \<and> (\<forall>s. seq_positions (kc_view d) s = seq_positions (kc_view (kv_v_cells kv ! 0)) s
          \<union> {ub_pos ub ! i |i. i < length idxs \<and> s \<in> set (token_seqs ub i)})"
proof -
  let ?c = "kv_v_cells kv ! 0"
  have u: "kv_inv kv" "\<not> kv_paged kv" "0 < kv_n_stream kv" using assms(1) by (simp_all add: unified_def)
  note kv = kv_invD [OF u(1,3)] and slot = assms(2) [unfolded slot_ok_def]
  obtain d where d: "kv_apply_ubatch si ub kv = Some (kv_put 0 d (last idxs + 1) kv)"
    "placed ub idxs (length idxs) ?c d" "kv_inv (kv_put 0 d (last idxs + 1) kv)"
    using apply_unified [OF u(1,2) assms(2)] by blast
  note D = d(2) [unfolded placed_def]
  have tok: "cell_at d (idxs ! i) = tok_cell ub i (cell_at ?c (idxs ! i))" if "i < length idxs" for i using D that by blast
  have rest: "cell_at d j = cell_at ?c j" if "j < kv_size kv" "j \<notin> set idxs" for j using D that kv(3) by simp
  have empty: "kc_seq ?c ! j = {}" if "j \<in> set idxs" for j using that slot cells_invD(3) [OF kv(1)] kv(3) by auto
  have pos: "seq_positions (kc_view e) s = {kc_pos e ! j |j. j < kv_size kv \<and> s \<in> kc_seq e ! j}"
    if "kc_size e = kv_size kv" for e s
    using that by (force simp: seq_positions_def kc_view_def)
  have dsz: "kc_size d = kv_size kv" using D kv(3) by simp
  have "p \<in> seq_positions (kc_view d) s \<longleftrightarrow> p \<in> seq_positions (kc_view ?c) s
      \<union> {ub_pos ub ! i |i. i < length idxs \<and> s \<in> set (token_seqs ub i)}" for p s
  proof
    assume "p \<in> seq_positions (kc_view d) s"
    then obtain j where j: "j < kv_size kv" "s \<in> kc_seq d ! j" "p = kc_pos d ! j"
      using D kv(3) by (auto simp: pos)
    show "p \<in> seq_positions (kc_view ?c) s \<union> {ub_pos ub ! i |i. i < length idxs \<and> s \<in> set (token_seqs ub i)}"
    proof (cases "j \<in> set idxs")
      case True
      then obtain i where i: "i < length idxs" "idxs ! i = j" by (auto simp: in_set_conv_nth)
      then have "s \<in> set (token_seqs ub i)" "p = ub_pos ub ! i"
        using tok [OF i(1)] j by (simp_all add: tok_cell_def cell_at_def)
      then show ?thesis using i(1) by blast
    next
      case False
      then have "s \<in> kc_seq ?c ! j" "p = kc_pos ?c ! j" using rest [OF j(1)] j by (simp_all add: cell_at_def)
      then show ?thesis using j(1) kv(3) by (auto simp: pos)
    qed
  next
    assume "p \<in> seq_positions (kc_view ?c) s \<union> {ub_pos ub ! i |i. i < length idxs \<and> s \<in> set (token_seqs ub i)}"
    then show "p \<in> seq_positions (kc_view d) s"
    proof
      assume "p \<in> seq_positions (kc_view ?c) s"
      then obtain j where j: "j < kv_size kv" "s \<in> kc_seq ?c ! j" "p = kc_pos ?c ! j" using kv(3) by (auto simp: pos)
      then have "j \<notin> set idxs" using empty by auto
      then have "s \<in> kc_seq d ! j" "p = kc_pos d ! j" using rest [OF j(1)] j by (simp_all add: cell_at_def)
      then show ?thesis using j(1) pos [OF dsz] by blast
    next
      assume "p \<in> {ub_pos ub ! i |i. i < length idxs \<and> s \<in> set (token_seqs ub i)}"
      then obtain i where i: "i < length idxs" "s \<in> set (token_seqs ub i)" "p = ub_pos ub ! i" by blast
      moreover have "idxs ! i < kv_size kv" using slot i(1) by simp
      moreover have "s \<in> kc_seq d ! (idxs ! i)" "p = kc_pos d ! (idxs ! i)"
        using tok [OF i(1)] i by (simp_all add: tok_cell_def cell_at_def)
      ultimately show ?thesis using pos [OF dsz] by blast
    qed
  qed
  moreover have "unified (kv_put 0 d (last idxs + 1) kv)" using d(3) assms(1) by (simp add: unified_def)
  ultimately show ?thesis using d(1) tok rest by blast
qed

lemma demo_slot: "slot_ok demo_kv demo_ub \<lparr>si_s0 = 0, si_s1 = 0, si_strm = [0], si_idxs = [[2, 4]]\<rparr> [2, 4]"
  using demo_ub_ok(1)
  by (auto simp: slot_ok_def demo_kv_sel cells_of_def demo_view_def ub_ok_def) (simp_all add: demo_ub_def)

text \<open>C17: (\<open>prepare\<close> on a unified cache without a sliding window) The dry run leaves the whole cache,
  cells, indices and search head, exactly as it found it, whether or not every micro-batch fits.
  When it succeeds it returns one slot per micro-batch, and placing the micro-batches in these
  slots in order succeeds.\<close>

theorem prepare_is_dry_run:
  assumes "unified kv" "\<forall>ub \<in> set ubs. ub_ok kv ub" "ubs \<noteq> []"
  shows "\<exists>slots. kv_prepare ubs kv = Some (slots, kv)
    \<and> (slots \<noteq> [] \<longrightarrow> length slots = length ubs
        \<and> (\<exists>kv'. apply_slots (zip slots ubs) kv = Some kv' \<and> unified kv'))"
proof -
  obtain success sis news kv' where p: "prepare_loop ubs [] [] kv = Some (success, sis, news, kv')"
    "foldM restore_slot (rev news) kv' = Some kv" "length news = length sis"
    "success \<Longrightarrow> length sis = length ubs \<and> apply_slots (zip sis ubs) kv = Some kv' \<and> unified kv'"
    using prepare_loop_unified [OF assms(1,2), of "[]" "[]"] by auto
  have "news \<noteq> [] \<or> \<not> success" using p(3,4) assms(3) by (cases success) auto
  then have "kv_prepare ubs kv = Some (if success then sis else [], kv)"
    using p(1,2) by (simp add: kv_prepare_def)
  then show ?thesis using p(4) by auto
qed

theorem prepare_is_dry_run_witness: "\<exists>slots. kv_prepare [demo_ub, demo_ub] demo_kv = Some (slots, demo_kv)"
  using prepare_is_dry_run [of demo_kv "[demo_ub, demo_ub]"] demo_ub_ok by auto

end
