(* ===== verification/Kv_Inputs.thy ===== *)
theory Kv_Inputs
  imports Kv_Place
begin

text \<open>
  The index inputs that the cache writes for the graph: the rows for K and V, the pending shifts,
  and the padded number of cells. Each input is a nested loop that fills a buffer; the shared
  lemma is that filling in order computes the buffer's elements by index.
\<close>

unbundle bit_operations_syntax

section \<open>Filling a buffer\<close>

definition filled :: "(nat \<Rightarrow> 'a) \<Rightarrow> nat \<Rightarrow> 'a list \<Rightarrow> 'a list" where
  "filled g m data = map g [0..<m] @ drop m data"

lemma filled_0 [simp]: "filled g 0 data = data"
  by (simp add: filled_def)

lemma length_filled [simp]: "m \<le> length data \<Longrightarrow> length (filled g m data) = length data"
  by (simp add: filled_def)

lemma filled_step:
  assumes "m < length data" "v = g m"
  shows "vset (filled g m data) m v = Some (filled g (Suc m) data)"
proof -
  have "drop m data = data ! m # drop (Suc m) data" using assms(1) by (simp add: Cons_nth_drop_Suc)
  with assms show ?thesis by (simp add: vset_def filled_def list_update_append)
qed

lemma filled_all: "m = length data \<Longrightarrow> filled g m data = map g [0..<m]"
  by (simp add: filled_def)

lemma fill_loop:
  assumes "m0 + n \<le> length data"
    and "\<And>i u. i < n \<Longrightarrow> u = filled g (m0 + i) data \<Longrightarrow> body i u = vset u (m0 + i) (g (m0 + i))"
  shows "foldM body [0..<n] (filled g m0 data) = Some (filled g (m0 + n) data)"
proof -
  have "\<exists>t. foldM body [0..<n] (filled g m0 data) = Some t \<and> t = filled g (m0 + n) data"
  proof (rule foldM_upt_total)
    fix k u assume k: "k < n" "u = filled g (m0 + k) data"
    then show "\<exists>v. body k u = Some v \<and> v = filled g (m0 + Suc k) data"
      using assms filled_step [of "m0 + k" data "g (m0 + k)" g] by simp
  qed simp_all
  then show ?thesis by simp
qed

lemma fill_loop2:
  assumes "ns * n \<le> length data"
    and "\<And>s. s < ns \<Longrightarrow> body s (filled g (s * n) data) = Some (filled g (s * n + n) data)"
  shows "foldM body [0..<ns] data = Some (filled g (ns * n) data)"
proof -
  have "\<exists>t. foldM body [0..<ns] data = Some t \<and> t = filled g (ns * n) data"
    by (rule foldM_upt_total) (use assms(2) in \<open>auto simp: add.commute\<close>)
  then show ?thesis by simp
qed

section \<open>Rows of K and V\<close>

text \<open>A slot as \<open>find_slot\<close> returns it: distinct streams, and per stream distinct cells in range.\<close>

definition slot_shape_ok :: "kv_cache \<Rightarrow> slot_info \<Rightarrow> nat \<Rightarrow> nat \<Rightarrow> bool" where
  "slot_shape_ok kv si ns n \<longleftrightarrow> 0 < ns \<and> length (si_strm si) = ns \<and> length (si_idxs si) = ns
     \<and> distinct (si_strm si) \<and> (\<forall>st \<in> set (si_strm si). st < kv_n_stream kv)
     \<and> (\<forall>s < ns. length (si_idxs si ! s) = n \<and> distinct (si_idxs si ! s) \<and> (\<forall>i \<in> set (si_idxs si ! s). i < kv_size kv))"

definition token_row :: "kv_cache \<Rightarrow> slot_info \<Rightarrow> nat \<Rightarrow> nat \<Rightarrow> nat" where
  "token_row kv si n k = si_strm si ! (k div n) * kv_size kv + si_idxs si ! (k div n) ! (k mod n)"

lemma kv_get_size_spec:
  assumes "kv_inv kv"
  shows "kv_get_size kv = Some (kv_size kv)"
proof -
  let ?st = "kv_seq_to_stream kv ! 0"
  have "?st < kv_n_stream kv" "0 < length (kv_seq_to_stream kv)" using assms by (auto simp: kv_inv_def)
  then show ?thesis using kv_invD(3,7) [OF assms] by (simp add: kv_get_size_def vget_def)
qed

lemma slot_shape_size: "slot_shape_ok kv si ns n \<Longrightarrow> si_size si = Some n \<and> si_n_stream si = ns"
  by (auto simp: slot_shape_ok_def si_size_def si_n_stream_def check_def)

lemma set_input_k_idxs_rows:
  assumes "kv_inv kv" "slot_shape_ok kv si ns n" "ub_n_tokens ub = n * ns" "length data = ns * n"
    "kv_n_stream kv * kv_size kv < 2 ^ 32"
  shows "set_input_k_idxs si ub kv data = Some (map (token_row kv si n) [0..<ns * n])"
proof -
  let ?g = "token_row kv si n"
  note slot = assms(2) [unfolded slot_shape_ok_def]
  define inner where "inner s off i data = do {
         is \<leftarrow> vget (si_idxs si) s; idx \<leftarrow> vget is i; vset data (s * n + i) (off + idx) }" for s off i and data :: "nat list"
  have row: "foldM (inner s (si_strm si ! s * kv_size kv)) [0..<n] (filled ?g (s * n) data) = Some (filled ?g (s * n + n) data)"
    if s: "s < ns" for s
  proof (rule fill_loop)
    have "s * n + n \<le> ns * n" using s by (metis Suc_leI mult_Suc add.commute mult_le_mono1)
    then show "s * n + n \<le> length data" using assms(4) by simp
    fix i and u :: "nat list" assume "i < n"
    then show "inner s (si_strm si ! s * kv_size kv) i u = vset u (s * n + i) (?g (s * n + i))"
      using s slot by (simp add: inner_def vget_def token_row_def)
  qed
  have off: "u32 (si_strm si ! s * kv_size kv) = si_strm si ! s * kv_size kv" if "s < ns" for s
  proof -
    have "si_strm si ! s < kv_n_stream kv" using that slot by simp
    then have "si_strm si ! s * kv_size kv \<le> kv_n_stream kv * kv_size kv" by (intro mult_le_mono1) simp
    then have "si_strm si ! s * kv_size kv < 4294967296"
      by (rule order_le_less_trans) (use assms(5) in simp)
    then show ?thesis by (rule u32_small)
  qed
  have "foldM (\<lambda>s data. do {
       st \<leftarrow> vget (si_strm si) s; sz \<leftarrow> kv_get_size kv;
       let offs = u32 (st * sz);
       foldM (inner s offs) [0..<n] data }) [0..<ns] data = Some (filled ?g (ns * n) data)"
    by (rule fill_loop2) (use slot row off assms(4) in \<open>auto simp: vget_def kv_get_size_spec [OF assms(1)]\<close>)
  then show ?thesis
    using slot_shape_size [OF assms(2)] assms(3,4) filled_all [of "ns * n" data ?g]
    by (simp add: set_input_k_idxs_def inner_def [abs_def])
qed

lemma token_row_inj:
  assumes "slot_shape_ok kv si ns n"
  shows "inj_on (token_row kv si n) {0..<ns * n}"
proof (rule inj_onI)
  fix k l assume kl: "k \<in> {0..<ns * n}" "l \<in> {0..<ns * n}" and eq: "token_row kv si n k = token_row kv si n l"
  note slot = assms [unfolded slot_shape_ok_def]
  have n: "0 < n" using kl(1) by (cases n) auto
  have div: "k div n < ns" "l div n < ns" using kl by (auto simp: less_mult_imp_div_less)
  let ?a = "\<lambda>k. si_idxs si ! (k div n) ! (k mod n)"
  have a: "?a k < kv_size kv" "?a l < kv_size kv" using slot div n by simp_all
  have "si_strm si ! (k div n) = si_strm si ! (l div n)" "?a k = ?a l"
    using arg_cong [OF eq, of "\<lambda>x. x div kv_size kv"] arg_cong [OF eq, of "\<lambda>x. x mod kv_size kv"] a
    by (simp_all add: token_row_def)
  moreover from this(1) have "k div n = l div n" using slot div by (simp add: nth_eq_iff_index_eq)
  ultimately have "k mod n = l mod n" using slot div n nth_eq_iff_index_eq [of "si_idxs si ! (l div n)" "k mod n" "l mod n"] by simp
  with \<open>k div n = l div n\<close> show "k = l" by (metis div_mult_mod_eq)
qed

text \<open>C29: (\<open>set_input_k_idxs\<close>, and \<open>set_input_v_idxs\<close> with flash attention) Every token of the
  micro-batch gets the row of its cell in the merged buffer of all streams (stream times cache size
  plus cell), the whole buffer is written, every row lies in the buffer, and no two tokens get the
  same row, so no K or V vector of the batch overwrites another.\<close>

theorem k_idxs_distinct_rows:
  assumes "kv_inv kv" "slot_shape_ok kv si ns n" "ub_n_tokens ub = n * ns" "length data = ns * n"
    "kv_n_stream kv * kv_size kv < 2 ^ 32"
  shows "\<exists>rows. set_input_k_idxs si ub kv data = Some rows \<and> length rows = ub_n_tokens ub \<and> distinct rows
    \<and> (\<forall>r \<in> set rows. r < kv_n_stream kv * kv_size kv)
    \<and> (\<forall>s < ns. \<forall>i < n. rows ! (s * n + i) = si_strm si ! s * kv_size kv + si_idxs si ! s ! i)"
proof -
  let ?rows = "map (token_row kv si n) [0..<ns * n]"
  note slot = assms(2) [unfolded slot_shape_ok_def]
  have lt: "s * n + i < ns * n" if "s < ns" "i < n" for s i
    using that by (metis Suc_leI add_less_cancel_left less_le_trans mult_Suc add.commute mult_le_mono1)
  have "token_row kv si n k < kv_n_stream kv * kv_size kv" if "k < ns * n" for k
  proof -
    have n: "0 < n" using that by (cases n) auto
    have "k div n < ns" using that by (auto simp: less_mult_imp_div_less)
    then have a: "si_strm si ! (k div n) < kv_n_stream kv" "si_idxs si ! (k div n) ! (k mod n) < kv_size kv"
      using slot n by simp_all
    then have "token_row kv si n k < Suc (si_strm si ! (k div n)) * kv_size kv" by (simp add: token_row_def)
    also have "\<dots> \<le> kv_n_stream kv * kv_size kv" using a(1) by (intro mult_le_mono1) simp
    finally show ?thesis .
  qed
  moreover have "distinct ?rows" using token_row_inj [OF assms(2)] by (simp add: distinct_map)
  ultimately show ?thesis
    using set_input_k_idxs_rows [OF assms] assms(3) lt
    by (intro exI [of _ ?rows]) (auto simp: token_row_def mult.commute)
qed

theorem k_idxs_distinct_rows_witness:
  "\<exists>rows. set_input_k_idxs \<lparr>si_s0 = 0, si_s1 = 0, si_strm = [0], si_idxs = [[2, 4]]\<rparr> demo_ub demo_kv [0, 0] = Some rows \<and> distinct rows"
  using k_idxs_distinct_rows [OF demo_inv(1), of "\<lparr>si_s0 = 0, si_s1 = 0, si_strm = [0], si_idxs = [[2, 4]]\<rparr>" 1 2 demo_ub "[0, 0]"]
  by (auto simp: slot_shape_ok_def demo_kv_sel demo_ub_def)

section \<open>The number of cells the graph attends to\<close>

lemma and_not_ge: "0 \<le> (m :: int) \<Longrightarrow> a - m \<le> a AND NOT m"
proof -
  assume m: "0 \<le> m"
  have "NOT a AND (a AND m) = 0" "a AND NOT (a AND m) = a AND NOT m"
    by (auto simp: bit_eq_iff bit_simps)
  then have "a - (a AND m) = a AND NOT m" using disjunctive_diff_eq_and_not [of a "a AND m"] by simp
  moreover have "a AND m \<le> m" using m by simp
  ultimately show ?thesis by linarith
qed

lemma ggml_pad_ge: "0 < n \<Longrightarrow> x \<le> ggml_pad x n"
  using and_not_ge [of "int n - 1" "int x + int n - 1"] by (simp add: ggml_pad_def)

lemma max_loop:
  assumes "\<And>s. s < ns \<Longrightarrow> body s = Some (f s)"
  shows "\<exists>r. foldM (\<lambda>s r. do { v \<leftarrow> body s; Some (max v r) }) [0..<ns] (0 :: nat) = Some r
    \<and> (\<forall>s < ns. f s \<le> r) \<and> (r = 0 \<or> (\<exists>s < ns. r = f s))"
proof (rule foldM_upt_total)
  fix k u assume k: "k < ns" and u: "(\<forall>s < k. f s \<le> u) \<and> (u = 0 \<or> (\<exists>s < k. u = f s))"
  have "(\<forall>s < Suc k. f s \<le> max (f k) u) \<and> (max (f k) u = 0 \<or> (\<exists>s < Suc k. max (f k) u = f s))"
    using u by (auto simp: less_Suc_eq max_def le_max_iff_disj)
  then show "\<exists>v. do { v \<leftarrow> body k; Some (max v u) } = Some v \<and> (\<forall>s < Suc k. f s \<le> v) \<and> (v = 0 \<or> (\<exists>s < Suc k. v = f s))"
    using assms [OF k] by simp
qed simp_all

lemma n_kv_bounds:
  assumes "kv_inv kv" "slot_shape_ok kv si ns n"
  shows "\<exists>r. kv_get_n_kv si kv = Some r \<and> r \<le> kv_size kv
    \<and> (\<forall>st \<in> set (si_strm si). \<forall>i < kv_size kv. kc_pos (kv_v_cells kv ! st) ! i \<noteq> - 1 \<longrightarrow> i < r)"
proof -
  note slot = assms(2) [unfolded slot_shape_ok_def]
  let ?P = "max (kv_n_pad kv) 256"
  define f where "f s = (let c = kv_v_cells kv ! (si_strm si ! s) in
    min (kc_size c) (max ?P (ggml_pad (kc_used_max_p1 c) ?P)))" for s
  define b where "b s = do { st \<leftarrow> vget (si_strm si) s; c \<leftarrow> vget (kv_v_cells kv) st;
       Some (min (kc_size c) (max ?P (ggml_pad (kc_used_max_p1 c) ?P))) }" for s
  have "b s = Some (f s)" if "s < ns" for s
    using slot that kv_invD(7) [OF assms(1)] by (simp add: vget_def f_def b_def Let_def)
  from max_loop [of ns b f, OF this] obtain r where r: "foldM (\<lambda>s r. do { v \<leftarrow> b s; Some (max v r) }) [0..<ns] 0 = Some r"
    "\<forall>s < ns. f s \<le> r" "r = 0 \<or> (\<exists>s < ns. r = f s)"
    by auto
  have "kv_get_n_kv si kv = Some r"
    using r(1) slot_shape_size [OF assms(2)] by (simp add: kv_get_n_kv_def b_def Let_def)
  moreover have "f s \<le> kv_size kv" if "s < ns" for s
    using slot that kv_invD(3) [OF assms(1)] by (simp add: f_def Let_def)
  then have "r \<le> kv_size kv" using r(3) by auto
  moreover have "i < r" if mem: "st \<in> set (si_strm si)" "i < kv_size kv" "kc_pos (kv_v_cells kv ! st) ! i \<noteq> - 1" for st i
  proof -
    obtain s where s: "s < ns" "si_strm si ! s = st" using mem(1) slot by (auto simp: in_set_conv_nth)
    have "st < kv_n_stream kv" using that(1) slot by blast
    note kv = kv_invD [OF assms(1) this]
    have "i < kc_used_max_p1 (kv_v_cells kv ! st)" using kc_used_max_p1_bound [OF kv(1)] that(2,3) kv(3) by simp
    also have "\<dots> \<le> ggml_pad (kc_used_max_p1 (kv_v_cells kv ! st)) ?P" by (rule ggml_pad_ge) simp
    finally have "i < f s" using s(2) that(2) kv(3) by (simp add: f_def Let_def)
    then show ?thesis using r(2) s(1) by (meson less_le_trans)
  qed
  ultimately show ?thesis by blast
qed

text \<open>C38: (\<open>get_n_kv\<close>) The number of cells the attention looks at is at most the size of the cache
  and covers every occupied cell of every stream of the slot, whatever the padding: no stored
  token is cut off.\<close>

theorem n_kv_covers:
  assumes "kv_inv kv" "slot_shape_ok kv si ns n"
  shows "\<exists>r. kv_get_n_kv si kv = Some r \<and> r \<le> kv_size kv
    \<and> (\<forall>st \<in> set (si_strm si). \<forall>i < kv_size kv. kc_pos (kv_v_cells kv ! st) ! i \<noteq> - 1 \<longrightarrow> i < r)"
  by (rule n_kv_bounds [OF assms])

theorem n_kv_covers_witness:
  "\<exists>r. kv_get_n_kv \<lparr>si_s0 = 0, si_s1 = 0, si_strm = [0], si_idxs = [[2, 4]]\<rparr> demo_kv = Some r \<and> 3 < r"
proof -
  have "slot_shape_ok demo_kv \<lparr>si_s0 = 0, si_s1 = 0, si_strm = [0], si_idxs = [[2, 4]]\<rparr> 1 2"
    by (simp add: slot_shape_ok_def demo_kv_sel)
  moreover have "kc_pos (kv_v_cells demo_kv ! 0) ! 3 \<noteq> - 1"
    by (simp add: demo_kv_sel cells_of_def demo_view_def)
  ultimately show ?thesis using n_kv_covers [OF demo_inv(1)] by (force simp: demo_kv_sel)
qed

section \<open>Pending shifts\<close>

text \<open>(\<open>set_input_k_shift\<close>) The K-shift input holds, for every cell of every stream, the shift
  accumulated since the last update, and 0 for an empty cell.\<close>

theorem k_shift_input:
  assumes "kv_inv kv" "length data = kv_n_stream kv * kv_size kv"
  shows "\<exists>ks. set_input_k_shift kv data = Some ks \<and> length ks = length data
    \<and> (\<forall>s < kv_n_stream kv. \<forall>i < kv_size kv. ks ! (s * kv_size kv + i) =
          (if kc_pos (kv_v_cells kv ! s) ! i = - 1 then 0 else kc_shift (kv_v_cells kv ! s) ! i))"
proof -
  let ?n = "kv_size kv" and ?ns = "kv_n_stream kv"
  define g where "g k = (let c = kv_v_cells kv ! (k div ?n); i = k mod ?n in
    if kc_pos c ! i = - 1 then 0 else kc_shift c ! i)" for k
  define inner where "inner s c i data = do {
       e \<leftarrow> kc_is_empty c i; v \<leftarrow> (if e then Some 0 else kc_get_shift c i);
       vset data (s * kc_size c + i) v }" for s c i and data :: "int list"
  have row: "foldM (inner s (kv_v_cells kv ! s)) [0..<?n] (filled g (s * ?n) data) = Some (filled g (s * ?n + ?n) data)"
    if s: "s < ?ns" for s
  proof (rule fill_loop)
    have "Suc s * ?n \<le> ?ns * ?n" by (rule mult_le_mono1) (use s in simp)
    then show "s * ?n + ?n \<le> length data" using assms(2) by simp
    fix i and u :: "int list" assume i: "i < ?n"
    note kv = kv_invD [OF assms(1) s]
    show "inner s (kv_v_cells kv ! s) i u = vset u (s * ?n + i) (g (s * ?n + i))"
      using i kv(3) kc_is_empty_spec [OF kv(1), of i] by (auto simp: inner_def g_def kc_get_shift_def check_def Let_def)
  qed
  have "foldM (\<lambda>s data. do { c \<leftarrow> vget (kv_v_cells kv) s; foldM (inner s c) [0..<kc_size c] data }) [0..<?ns] data
      = Some (filled g (?ns * ?n) data)"
    by (rule fill_loop2) (use row assms(2) kv_invD(3,7) [OF assms(1)] in \<open>auto simp: vget_def\<close>)
  then have "set_input_k_shift kv data = Some (map g [0..<?ns * ?n])"
    using filled_all [of "?ns * ?n" data g] assms(2) by (simp add: set_input_k_shift_def inner_def [abs_def])
  moreover have "s * ?n + i < ?ns * ?n" if "s < ?ns" "i < ?n" for s i
  proof -
    have "Suc s * ?n \<le> ?ns * ?n" by (rule mult_le_mono1) (use that in simp)
    then show ?thesis using that(2) by simp
  qed
  ultimately show ?thesis using assms(2) by (auto simp: g_def Let_def)
qed

theorem k_shift_input_witness:
  "\<exists>ks. set_input_k_shift demo_kv [9, 9, 9, 9, 9] = Some ks \<and> ks ! 2 = 0"
  using k_shift_input [OF demo_inv(1), of "[9, 9, 9, 9, 9]"]
  by (auto simp: demo_kv_sel cells_of_def demo_view_def all_conj_distrib dest: spec [of _ 2])

end
