(* ===== verification/Kv_Mask.thy ===== *)
theory Kv_Mask
  imports Kv_Inputs
begin

text \<open>
  The attention mask that the cache writes for the graph (\<^verbatim>\<open>set_input_kq_mask\<close>,
  src/src/llama-kv-cache.cpp). Row \<open>i\<close> of the buffer belongs to token \<open>i\<close> of the micro-batch, column \<open>j\<close> to
  cell \<open>j\<close> of the stream of the token's first sequence. The code writes the row of the first token of
  each sequence in full; for a later token of the sequence it copies that row and updates only the
  cells recorded before, those whose position is near the positions of the batch.

  A value of the mask is \<^verbatim>\<open>-INFINITY\<close> (\<open>Masked\<close>) or the bias \<^verbatim>\<open>0\<close> or \<^verbatim>\<open>-abs(p0 - p1)\<close>, whole numbers kept as
  \<open>int\<close>. The four template parameters are the record \<open>mask_flags\<close>.
\<close>

section \<open>The code\<close>

datatype mask_val = Masked | Bias int

record args_set_input_kq_mask =
  ma_use_alibi :: bool
  ma_ubatch :: ubatch
  ma_v_cells :: "kv_cells list"
  ma_seq_to_stream :: "nat list"
  ma_n_swa :: nat
  ma_swa_type :: llama_swa_type
  ma_n_kv :: nat
  ma_n_stream :: nat
  ma_n_tps :: nat

record mask_flags =
  mf_causal :: bool
  mf_swa :: bool
  mf_is_2d :: bool
  mf_alibi :: bool

definition first_seq :: "ubatch \<Rightarrow> nat \<Rightarrow> llama_seq_id option" where
  "first_seq ub i = do { ids \<leftarrow> vget (ub_seq_id ub) i; vget ids 0 }"

text \<open>The least position in the batch for every sequence.\<close>

definition batch_pos_min :: "ubatch \<Rightarrow> (llama_seq_id \<Rightarrow> llama_pos) option" where
  "batch_pos_min ub = foldM (\<lambda>i f. do {
     s \<leftarrow> first_seq ub i;
     check (seq_id_ok s);
     p \<leftarrow> vget (ub_pos ub) i;
     Some (f(s := min (f s) p)) }) [0..<ub_n_tokens ub] (\<lambda>_. i32_max)"

text \<open>\<^verbatim>\<open>(int32_t) (n_swa + 32)\<close>\<close>

definition swa_window :: "nat \<Rightarrow> int" where
  "swa_window n_swa = (let w = int (u32 (n_swa + 32)) in if w > i32_max then w - 4294967296 else w)"

text \<open>Whether the first pass over the cells records cell \<open>j\<close> for the later tokens of the sequence.\<close>

definition records_cell :: "nat \<Rightarrow> kv_cells \<Rightarrow> llama_seq_id \<Rightarrow> llama_pos \<Rightarrow> nat \<Rightarrow> bool option" where
  "records_cell n_swa c s pos_min j = do {
     empty \<leftarrow> kc_is_empty c j;
     if empty then Some False
     else do {
       has \<leftarrow> kc_seq_has c j s;
       if \<not> has then Some False
       else do {
         p0 \<leftarrow> kc_pos_get c j;
         check (i32_ok (p0 + swa_window n_swa));
         Some (p0 + swa_window n_swa \<ge> pos_min) } } }"

definition mask_cell :: "mask_flags \<Rightarrow> args_set_input_kq_mask \<Rightarrow> kv_cells \<Rightarrow> llama_seq_id \<Rightarrow> llama_pos \<Rightarrow> llama_pos \<Rightarrow> llama_pos
    \<Rightarrow> nat \<Rightarrow> mask_val option" where
  "mask_cell fl args c s p1 p1_x p1_y j = do {
     empty \<leftarrow> kc_is_empty c j;
     if empty then Some Masked
     else do {
       has \<leftarrow> kc_seq_has c j s;
       if \<not> has then Some Masked
       else do {
         p0 \<leftarrow> kc_pos_get c j;
         future \<leftarrow> (if \<not> mf_causal fl then Some False
                    else if p0 > p1 then Some True
                    else if mf_is_2d fl \<and> p0 = p1 then do { e \<leftarrow> kc_ext_get c j; Some (is_2d_gt e p1_x p1_y) }
                    else Some False);
         if future then Some Masked
         else do {
           outside \<leftarrow> (if mf_swa fl then is_masked_swa (ma_n_swa args) (ma_swa_type args) p0 p1 else Some False);
           Some (if outside then Masked else Bias (if mf_alibi fl then - \<bar>p0 - p1\<bar> else 0)) } } } }"

text \<open>The row of the first token of a sequence, and the cells recorded on the way.\<close>

definition full_row :: "mask_flags \<Rightarrow> args_set_input_kq_mask \<Rightarrow> kv_cells \<Rightarrow> llama_seq_id \<Rightarrow> llama_pos \<Rightarrow> llama_pos \<Rightarrow> llama_pos \<Rightarrow> llama_pos
    \<Rightarrow> nat \<Rightarrow> mask_val list \<Rightarrow> (mask_val list \<times> nat list) option" where
  "full_row fl args c s pos_min p1 p1_x p1_y idst data =
     foldM (\<lambda>j (data, idxs). do {
         v \<leftarrow> mask_cell fl args c s p1 p1_x p1_y j;
         r \<leftarrow> (if mf_alibi fl then Some False else records_cell (ma_n_swa args) c s pos_min j);
         data \<leftarrow> vset data (idst + j) v;
         Some (data, if r then idxs @ [j] else idxs)
       }) [0..<ma_n_kv args] (data, [])"

definition copy_row :: "nat \<Rightarrow> nat \<Rightarrow> nat \<Rightarrow> 'a list \<Rightarrow> 'a list option" where
  "copy_row n src dst data = do {
     check (src + n \<le> length data \<and> dst + n \<le> length data);
     Some (take dst data @ take n (drop src data) @ drop (dst + n) data) }"

record mask_state =
  ms_data :: "mask_val list"
  ms_srct :: "llama_seq_id \<Rightarrow> nat option"
  ms_idxs :: "llama_seq_id \<Rightarrow> nat list"

definition mask_token :: "mask_flags \<Rightarrow> args_set_input_kq_mask \<Rightarrow> (llama_seq_id \<Rightarrow> llama_pos) \<Rightarrow> nat \<Rightarrow> mask_state
    \<Rightarrow> mask_state option" where
  "mask_token fl args pos_min i ms = do {
     let ub = ma_ubatch args;
     s \<leftarrow> first_seq ub i;
     check (0 \<le> s);
     st \<leftarrow> vget (ma_seq_to_stream args) (nat s);
     c \<leftarrow> vget (ma_v_cells args) st;
     p1 \<leftarrow> vget (ub_pos ub) i;
     p1_x \<leftarrow> (if mf_is_2d fl then vget (ub_pos ub) (i + ub_n_tokens ub * 2) else Some 0);
     p1_y \<leftarrow> (if mf_is_2d fl then vget (ub_pos ub) (i + ub_n_tokens ub) else Some 0);
     let idst = ma_n_kv args * i;
     (case (if mf_alibi fl then None else ms_srct ms s) of
        Some srct \<Rightarrow> do {
          data \<leftarrow> copy_row (ma_n_kv args) (ma_n_kv args * srct) idst (ms_data ms);
          data \<leftarrow> foldM (\<lambda>j data. do {
              v \<leftarrow> mask_cell fl args c s p1 p1_x p1_y j;
              vset data (idst + j) v }) (take (ma_n_kv args) (ms_idxs ms s)) data;
          Some (ms\<lparr>ms_data := data\<rparr>) }
      | None \<Rightarrow> do {
          (data, idxs) \<leftarrow> full_row fl args c s (pos_min s) p1 p1_x p1_y idst (ms_data ms);
          Some (if mf_alibi fl then ms\<lparr>ms_data := data\<rparr>
                else ms\<lparr>ms_data := data, ms_srct := (ms_srct ms)(s \<mapsto> i), ms_idxs := (ms_idxs ms)(s := idxs)\<rparr>) }) }"

definition set_input_kq_mask_impl :: "mask_flags \<Rightarrow> args_set_input_kq_mask \<Rightarrow> mask_val list \<Rightarrow> mask_val list option" where
  "set_input_kq_mask_impl fl args data = do {
     pos_min \<leftarrow> batch_pos_min (ma_ubatch args);
     foldM (\<lambda>s data. do {
         ms \<leftarrow> foldM (\<lambda>ii. mask_token fl args pos_min (s * ma_n_tps args + ii)) [0..<ma_n_tps args]
           \<lparr>ms_data = data, ms_srct = Map.empty, ms_idxs = (\<lambda>_. [])\<rparr>;
         Some (ms_data ms)
       }) [0..<ma_n_stream args] data }"

text \<open>
  The tensor has \<open>n_kv\<close> columns and \<open>n_stream\<close> planes; the template arguments are picked by the hyper-parameters.
\<close>

definition set_input_kq_mask :: "bool \<Rightarrow> bool \<Rightarrow> nat \<Rightarrow> nat \<Rightarrow> ubatch \<Rightarrow> kv_cache \<Rightarrow> mask_val list \<Rightarrow> mask_val list option" where
  "set_input_kq_mask use_alibi causal_attn n_kv n_stream ub kv data = do {
     check (n_stream \<noteq> 0 \<and> ub_n_tokens ub mod n_stream = 0);
     let args = \<lparr>ma_use_alibi = use_alibi, ma_ubatch = ub, ma_v_cells = kv_v_cells kv,
       ma_seq_to_stream = kv_seq_to_stream kv, ma_n_swa = kv_n_swa kv, ma_swa_type = kv_swa_type kv,
       ma_n_kv = n_kv, ma_n_stream = n_stream, ma_n_tps = ub_n_tokens ub div n_stream\<rparr>;
     set_input_kq_mask_impl \<lparr>mf_causal = causal_attn, mf_swa = kv_swa_type kv \<noteq> SWA_NONE,
       mf_is_2d = ub_is_pos_2d ub, mf_alibi = use_alibi\<rparr> args data }"

section \<open>The reference\<close>

text \<open>What the mask of token \<open>i\<close> and cell \<open>j\<close> is to be, whatever the other tokens.\<close>

definition swa_hides :: "nat \<Rightarrow> llama_swa_type \<Rightarrow> llama_pos \<Rightarrow> llama_pos \<Rightarrow> bool" where
  "swa_hides n_swa swa_type p0 p1 =
     (case swa_type of
        SWA_NONE \<Rightarrow> False
      | SWA_STANDARD \<Rightarrow> p0 + int n_swa \<le> p1
      | SWA_CHUNKED \<Rightarrow> p0 < p1 div int n_swa * int n_swa
      | SWA_SYMMETRIC \<Rightarrow> int n_swa div 2 < \<bar>p1 - p0\<bar>)"

definition token_seq :: "ubatch \<Rightarrow> nat \<Rightarrow> llama_seq_id" where
  "token_seq ub i = ub_seq_id ub ! i ! 0"

definition token_cells :: "kv_cache \<Rightarrow> ubatch \<Rightarrow> nat \<Rightarrow> kv_cells" where
  "token_cells kv ub i = kv_v_cells kv ! (kv_seq_to_stream kv ! nat (token_seq ub i))"

definition hidden :: "bool \<Rightarrow> kv_cache \<Rightarrow> ubatch \<Rightarrow> nat \<Rightarrow> nat \<Rightarrow> bool" where
  "hidden causal kv ub i j \<longleftrightarrow>
     (let c = token_cells kv ub i; p0 = kc_pos c ! j; p1 = ub_pos ub ! i in
        token_seq ub i \<notin> kc_seq c ! j
      \<or> causal \<and> (p0 > p1 \<or> ub_is_pos_2d ub \<and> p0 = p1
          \<and> is_2d_gt (kc_ext c ! j) (ub_pos ub ! (i + ub_n_tokens ub * 2)) (ub_pos ub ! (i + ub_n_tokens ub)))
      \<or> swa_hides (kv_n_swa kv) (kv_swa_type kv) p0 p1)"

definition mask_of :: "bool \<Rightarrow> bool \<Rightarrow> kv_cache \<Rightarrow> ubatch \<Rightarrow> nat \<Rightarrow> nat \<Rightarrow> mask_val" where
  "mask_of alibi causal kv ub i j =
     (if hidden causal kv ub i j then Masked
      else Bias (if alibi then - \<bar>kc_pos (token_cells kv ub i) ! j - ub_pos ub ! i\<bar> else 0))"

section \<open>One cell\<close>

definition mask_ok :: "kv_cache \<Rightarrow> ubatch \<Rightarrow> nat \<Rightarrow> nat \<Rightarrow> bool" where
  "mask_ok kv ub n_kv n_stream \<longleftrightarrow> kv_inv kv \<and> 0 < n_stream \<and> ub_n_tokens ub mod n_stream = 0 \<and> n_kv \<le> kv_size kv
     \<and> (kv_swa_type kv = SWA_CHUNKED \<longrightarrow> kv_n_swa kv \<noteq> 0) \<and> kv_n_swa kv < 2 ^ 31 - 32
     \<and> (\<forall>c \<in> set (kv_v_cells kv). \<forall>p \<in> set (kc_pos c). p + int (kv_n_swa kv) + 32 \<le> i32_max)
     \<and> (\<forall>i < ub_n_tokens ub. i < length (ub_pos ub) \<and> 0 \<le> ub_pos ub ! i \<and> i < length (ub_seq_id ub)
        \<and> ub_seq_id ub ! i \<noteq> [] \<and> kv_seq_valid kv (token_seq ub i)
        \<and> (ub_is_pos_2d ub \<longrightarrow> i + ub_n_tokens ub * 2 < length (ub_pos ub)))"

abbreviation mask_args :: "bool \<Rightarrow> kv_cache \<Rightarrow> ubatch \<Rightarrow> nat \<Rightarrow> nat \<Rightarrow> args_set_input_kq_mask" where
  "mask_args alibi kv ub n_kv n_stream \<equiv> \<lparr>ma_use_alibi = alibi, ma_ubatch = ub, ma_v_cells = kv_v_cells kv,
       ma_seq_to_stream = kv_seq_to_stream kv, ma_n_swa = kv_n_swa kv, ma_swa_type = kv_swa_type kv,
       ma_n_kv = n_kv, ma_n_stream = n_stream, ma_n_tps = ub_n_tokens ub div n_stream\<rparr>"

abbreviation flags_of :: "bool \<Rightarrow> bool \<Rightarrow> kv_cache \<Rightarrow> ubatch \<Rightarrow> mask_flags" where
  "flags_of alibi causal kv ub \<equiv> \<lparr>mf_causal = causal, mf_swa = kv_swa_type kv \<noteq> SWA_NONE,
       mf_is_2d = ub_is_pos_2d ub, mf_alibi = alibi\<rparr>"

definition near :: "kv_cache \<Rightarrow> kv_cells \<Rightarrow> llama_seq_id \<Rightarrow> llama_pos \<Rightarrow> nat \<Rightarrow> bool" where
  "near kv c s pos_min j \<longleftrightarrow> s \<in> kc_seq c ! j \<and> kc_pos c ! j + int (kv_n_swa kv) + 32 \<ge> pos_min"

lemma mask_okD:
  assumes "mask_ok kv ub n_kv n_stream" and "i < ub_n_tokens ub"
  shows "first_seq ub i = Some (token_seq ub i)" "0 \<le> token_seq ub i" "seq_id_ok (token_seq ub i)"
    "vget (ub_pos ub) i = Some (ub_pos ub ! i)" "0 \<le> ub_pos ub ! i"
    "nat (token_seq ub i) < length (kv_seq_to_stream kv)"
    "kv_seq_to_stream kv ! nat (token_seq ub i) < length (kv_v_cells kv)"
    "cells_inv (token_cells kv ub i)" "kc_size (token_cells kv ub i) = kv_size kv"
    "token_cells kv ub i \<in> set (kv_v_cells kv)"
proof -
  have inv: "kv_inv kv" and v: "kv_seq_valid kv (token_seq ub i)" and len: "ub_seq_id ub ! i \<noteq> []" "i < length (ub_seq_id ub)"
    "i < length (ub_pos ub)" "0 \<le> ub_pos ub ! i"
    using assms by (auto simp: mask_ok_def)
  from kv_stream_ex [OF inv v] obtain st where st: "kv_stream_of kv (token_seq ub i) = Some st" "st < kv_n_stream kv" by blast
  show "seq_id_ok (token_seq ub i)" by (rule kv_stream_ex [OF inv v])
  show "first_seq ub i = Some (token_seq ub i)" "vget (ub_pos ub) i = Some (ub_pos ub ! i)" "0 \<le> ub_pos ub ! i"
    using len by (auto simp: first_seq_def token_seq_def vget_def)
  show nn: "0 \<le> token_seq ub i" "nat (token_seq ub i) < length (kv_seq_to_stream kv)" using v by (auto simp: kv_seq_valid_def)
  with st have "kv_seq_to_stream kv ! nat (token_seq ub i) = st" by (simp add: kv_stream_of_def)
  with st(2) inv show "kv_seq_to_stream kv ! nat (token_seq ub i) < length (kv_v_cells kv)" by (simp add: kv_inv_def)
  then show mem: "token_cells kv ub i \<in> set (kv_v_cells kv)" by (simp add: token_cells_def)
  then show "cells_inv (token_cells kv ub i)" "kc_size (token_cells kv ub i) = kv_size kv"
    using inv unfolding kv_inv_def by blast+
qed

lemma is_masked_swa_hides:
  "\<lbrakk>0 \<le> p0; 0 \<le> p1; t = SWA_CHUNKED \<longrightarrow> n \<noteq> 0\<rbrakk> \<Longrightarrow> is_masked_swa n t p0 p1 = Some (swa_hides n t p0 p1)"
  by (cases t) (auto simp: is_masked_swa_def swa_hides_def Let_def)

lemma mask_cell_ok:
  assumes ok: "mask_ok kv ub n_kv n_stream" and i: "i < ub_n_tokens ub" and j: "j < n_kv"
    and x: "ub_is_pos_2d ub \<longrightarrow> x = ub_pos ub ! (i + ub_n_tokens ub * 2) \<and> y = ub_pos ub ! (i + ub_n_tokens ub)"
  shows "mask_cell (flags_of alibi causal kv ub) (mask_args alibi kv ub n_kv n_stream) (token_cells kv ub i) (token_seq ub i)
      (ub_pos ub ! i) x y j = Some (mask_of alibi causal kv ub i j)"
proof -
  let ?c = "token_cells kv ub i"
  note D = mask_okD [OF ok i]
  have jc: "j < kc_size ?c" using ok j D(9) by (simp add: mask_ok_def)
  have has: "kc_seq_has ?c j (token_seq ub i) = Some (token_seq ub i \<in> kc_seq ?c ! j)"
    using kc_seq_has_cell [OF jc D(3) refl] by simp
  have chunk: "kv_swa_type kv = SWA_CHUNKED \<longrightarrow> kv_n_swa kv \<noteq> 0" using ok by (simp add: mask_ok_def)
  show ?thesis
  proof (cases "kc_pos ?c ! j = - 1")
    case True
    then have "token_seq ub i \<notin> kc_seq ?c ! j" using cells_invD(3) [OF D(8) jc] by simp
    with True show ?thesis
      using kc_is_empty_spec [OF D(8) jc] by (simp add: mask_cell_def mask_of_def hidden_def Let_def)
  next
    case False
    then have "0 \<le> kc_pos ?c ! j" using cells_invD(1) [OF D(8) jc] by simp
    with is_masked_swa_hides [OF this D(5) chunk] False show ?thesis
      using kc_is_empty_spec [OF D(8) jc] has x jc
      by (auto simp: mask_cell_def mask_of_def hidden_def Let_def kc_pos_get_def kc_ext_get_def swa_hides_def)
  qed
qed

lemma records_cell_ok:
  assumes ok: "mask_ok kv ub n_kv n_stream" and i: "i < ub_n_tokens ub" and j: "j < n_kv"
  shows "records_cell (kv_n_swa kv) (token_cells kv ub i) (token_seq ub i) pos_min j
    = Some (near kv (token_cells kv ub i) (token_seq ub i) pos_min j)"
proof -
  let ?c = "token_cells kv ub i"
  note D = mask_okD [OF ok i]
  have jc: "j < kc_size ?c" using ok j D(9) by (simp add: mask_ok_def)
  have has: "kc_seq_has ?c j (token_seq ub i) = Some (token_seq ub i \<in> kc_seq ?c ! j)"
    using kc_seq_has_cell [OF jc D(3) refl] by simp
  have n: "kv_n_swa kv < 2 ^ 31 - 32" using ok by (simp add: mask_ok_def)
  then have w: "swa_window (kv_n_swa kv) = int (kv_n_swa kv) + 32"
    by (simp add: swa_window_def i32_max_def)
  have "kc_pos ?c ! j \<in> set (kc_pos ?c)" using jc by (simp add: kc_size_def)
  then have hi: "kc_pos ?c ! j + int (kv_n_swa kv) + 32 \<le> i32_max" using ok D(10) by (auto simp: mask_ok_def)
  show ?thesis
  proof (cases "kc_pos ?c ! j = - 1")
    case True
    then have "token_seq ub i \<notin> kc_seq ?c ! j" using cells_invD(3) [OF D(8) jc] by simp
    with True show ?thesis using kc_is_empty_spec [OF D(8) jc] by (simp add: records_cell_def near_def)
  next
    case False
    then have "0 \<le> kc_pos ?c ! j" using cells_invD(1) [OF D(8) jc] by simp
    then have "i32_ok (kc_pos ?c ! j + swa_window (kv_n_swa kv))" using hi by (simp add: w i32_ok_def)
    with False show ?thesis
      using kc_is_empty_spec [OF D(8) jc] has jc by (auto simp: records_cell_def near_def kc_pos_get_def w add.assoc)
  qed
qed

text \<open>A cell that is not near the batch has the same mask for all tokens of the sequence.\<close>

lemma chunk_far:
  assumes "p0 + int n + 32 < p1" and "n \<noteq> 0"
  shows "p0 < p1 div int n * int n"
proof -
  have "p1 div int n * int n = p1 - p1 mod int n" by (simp add: minus_mod_eq_div_mult)
  moreover have "p1 mod int n < int n" using assms(2) by simp
  ultimately show ?thesis using assms(1) by linarith
qed

lemma far_same:
  assumes "kv_swa_type kv = SWA_CHUNKED \<longrightarrow> kv_n_swa kv \<noteq> 0" and "token_seq ub i = token_seq ub k"
    and "pos_min \<le> ub_pos ub ! i" and "pos_min \<le> ub_pos ub ! k"
    and "\<not> near kv (token_cells kv ub i) (token_seq ub i) pos_min j"
  shows "mask_of False causal kv ub i j = mask_of False causal kv ub k j"
proof -
  let ?c = "token_cells kv ub i"
  have c: "token_cells kv ub k = ?c" using assms(2) by (simp add: token_cells_def)
  have "swa_hides (kv_n_swa kv) (kv_swa_type kv) (kc_pos ?c ! j) p = (kv_swa_type kv \<noteq> SWA_NONE)"
    if "kc_pos ?c ! j + int (kv_n_swa kv) + 32 < p" for p
    using that assms(1) chunk_far [OF that] by (cases "kv_swa_type kv") (auto simp: swa_hides_def)
  with assms c show ?thesis
    by (auto simp: mask_of_def hidden_def near_def Let_def)
qed

section \<open>The loops\<close>

text \<open>A loop that writes \<open>f j\<close> at \<open>b + j\<close>, for the columns \<open>j\<close> of a list.\<close>

definition writes :: "nat \<Rightarrow> (nat \<Rightarrow> 'a) \<Rightarrow> nat list \<Rightarrow> 'a list \<Rightarrow> 'a list \<Rightarrow> bool" where
  "writes b f js data data' \<longleftrightarrow> length data' = length data \<and>
     (\<forall>k < length data. data' ! k = (if b \<le> k \<and> k - b \<in> set js then f (k - b) else data ! k))"

lemma writes_loop:
  assumes "\<forall>j \<in> set js. g j = Some (f j) \<and> b + j < length data"
  shows "\<exists>data'. foldM (\<lambda>j data. do { v \<leftarrow> g j; vset data (b + j) v }) js data = Some data' \<and> writes b f js data data'"
  using assms
proof (induction js arbitrary: data)
  case (Cons j js)
  from Cons.IH [of "data[b + j := f j]"] Cons.prems obtain data' where
    d: "foldM (\<lambda>j data. do { v \<leftarrow> g j; vset data (b + j) v }) js (data[b + j := f j]) = Some data'"
    "writes b f js (data[b + j := f j]) data'" by auto
  with Cons.prems show ?case
    by (intro exI [of _ data']) (auto simp: writes_def vset_def nth_list_update)
qed (simp add: writes_def)

lemma full_row_loop:
  assumes "\<forall>j \<in> set js. g j = Some (f j) \<and> h j = Some (r j) \<and> b + j < length data"
  shows "\<exists>data'. foldM (\<lambda>j (data, idxs). do {
       v \<leftarrow> g j; q \<leftarrow> h j; data \<leftarrow> vset data (b + j) v; Some (data, if q then idxs @ [j] else idxs) }) js (data, idxs)
    = Some (data', idxs @ filter r js) \<and> writes b f js data data'"
  using assms
proof (induction js arbitrary: data idxs)
  case (Cons j js)
  let ?F = "foldM (\<lambda>j (data, idxs). do {
       v \<leftarrow> g j; q \<leftarrow> h j; data \<leftarrow> vset data (b + j) v; Some (data, if q then idxs @ [j] else idxs) }) js"
  from Cons.IH [of "data[b + j := f j]" "if r j then idxs @ [j] else idxs"] Cons.prems obtain data' where
    d: "?F (data[b + j := f j], if r j then idxs @ [j] else idxs)
      = Some (data', (if r j then idxs @ [j] else idxs) @ filter r js)"
    "writes b f js (data[b + j := f j]) data'" by auto
  with Cons.prems show ?case
    by (intro exI [of _ data']) (auto simp: writes_def vset_def nth_list_update)
qed (simp add: writes_def)

text \<open>Rows of the buffer.\<close>

definition row_done :: "nat \<Rightarrow> (nat \<Rightarrow> nat \<Rightarrow> 'a) \<Rightarrow> nat \<Rightarrow> 'a list \<Rightarrow> bool" where
  "row_done n m i data \<longleftrightarrow> (\<forall>j < n. data ! (n * i + j) = m i j)"

lemma row_index:
  assumes "j < n" and "k < (n :: nat)" and "i \<noteq> l"
  shows "\<not> (n * i \<le> n * l + j \<and> n * l + j - n * i < n)"
proof
  assume h: "n * i \<le> n * l + j \<and> n * l + j - n * i < n"
  then have "n * l + j < n * Suc i" unfolding mult_Suc_right by linarith
  then have "n * l < n * Suc i" by simp
  then have "l < Suc i" by (simp only: mult_less_cancel1)
  then have "l < i" using assms(3) by simp
  then have "n * Suc l \<le> n * i" by (intro mult_le_mono) simp_all
  with h assms(1) show False by simp
qed

lemma writes_row:
  assumes "writes (n * i) f js data data'" and "set js \<subseteq> {0..<n}" and "n * i + n \<le> length data"
  shows "length data' = length data"
    and "\<And>j. j < n \<Longrightarrow> data' ! (n * i + j) = (if j \<in> set js then f j else data ! (n * i + j))"
    and "\<And>l. l \<noteq> i \<Longrightarrow> n * l + n \<le> length data \<Longrightarrow> row_done n m l data \<Longrightarrow> row_done n m l data'"
proof -
  show "length data' = length data" using assms(1) by (simp add: writes_def)
  show "data' ! (n * i + j) = (if j \<in> set js then f j else data ! (n * i + j))" if "j < n" for j
    using assms that by (simp add: writes_def)
  fix l assume l: "l \<noteq> i" "n * l + n \<le> length data" "row_done n m l data"
  show "row_done n m l data'"
    unfolding row_done_def
  proof (intro allI impI)
    fix j assume j: "j < n"
    with row_index [OF j j, of i l] l(1) assms(2) have "\<not> (n * i \<le> n * l + j \<and> n * l + j - n * i \<in> set js)" by fastforce
    moreover have "n * l + j < length data" using l(2) j by simp
    ultimately have "data' ! (n * l + j) = data ! (n * l + j)"
      using assms(1) unfolding writes_def by (simp only: if_False)
    then show "data' ! (n * l + j) = m l j" using l(3) j by (simp add: row_done_def)
  qed
qed

lemma copy_row_ok:
  assumes "n * k + n \<le> length data" and "n * i + n \<le> length data" and "k \<noteq> i"
  shows "\<exists>data'. copy_row n (n * k) (n * i) data = Some data' \<and> writes (n * i) (\<lambda>j. data ! (n * k + j)) [0..<n] data data'"
proof -
  let ?d = "take (n * i) data @ take n (drop (n * k) data) @ drop (n * i + n) data"
  have len: "length (take (n * i) data) = n * i" "length (take n (drop (n * k) data)) = n" using assms by simp_all
  have "?d ! x = (if n * i \<le> x \<and> x - n * i \<in> set [0..<n] then data ! (n * k + (x - n * i)) else data ! x)"
    if "x < length data" for x
  proof (cases "n * i \<le> x \<and> x - n * i < n")
    case True
    then show ?thesis using len assms by (simp add: nth_append)
  next
    case False
    then consider "x < n * i" | "n * i + n \<le> x" by linarith
    then show ?thesis
    proof cases
      case 2
      then have "?d ! x = drop (n * i + n) data ! (x - n * i - n)" using len by (simp add: nth_append)
      with 2 that False show ?thesis by simp
    qed (use len in \<open>simp add: nth_append\<close>)
  qed
  moreover have "length ?d = length data" using assms by simp
  ultimately show ?thesis using assms by (simp add: copy_row_def writes_def)
qed

section \<open>The tokens\<close>

definition mask_inv :: "kv_cache \<Rightarrow> ubatch \<Rightarrow> bool \<Rightarrow> bool \<Rightarrow> nat \<Rightarrow> (llama_seq_id \<Rightarrow> llama_pos) \<Rightarrow> nat \<Rightarrow> mask_state \<Rightarrow> bool" where
  "mask_inv kv ub alibi causal n_kv pos_min i ms \<longleftrightarrow> length (ms_data ms) = n_kv * ub_n_tokens ub
     \<and> (\<forall>k < i. row_done n_kv (mask_of alibi causal kv ub) k (ms_data ms))
     \<and> (\<forall>t k. ms_srct ms t = Some k \<longrightarrow> k < i \<and> token_seq ub k = t
          \<and> ms_idxs ms t = filter (near kv (token_cells kv ub k) t (pos_min t)) [0..<n_kv])"

lemma batch_pos_min_ok:
  assumes "mask_ok kv ub n_kv n_stream"
  shows "\<exists>f. batch_pos_min ub = Some f \<and> (\<forall>i < ub_n_tokens ub. f (token_seq ub i) \<le> ub_pos ub ! i)"
  unfolding batch_pos_min_def
proof (rule foldM_upt_total)
  fix k and f :: "llama_seq_id \<Rightarrow> llama_pos"
  assume k: "k < ub_n_tokens ub" and f: "\<forall>i < k. f (token_seq ub i) \<le> ub_pos ub ! i"
  let ?f = "f(token_seq ub k := min (f (token_seq ub k)) (ub_pos ub ! k))"
  have "\<forall>i < Suc k. ?f (token_seq ub i) \<le> ub_pos ub ! i" using f by (auto simp: less_Suc_eq min_le_iff_disj)
  then show "\<exists>v. do { s \<leftarrow> first_seq ub k; check (seq_id_ok s); p \<leftarrow> vget (ub_pos ub) k; Some (f(s := min (f s) p)) } = Some v
      \<and> (\<forall>i < Suc k. v (token_seq ub i) \<le> ub_pos ub ! i)"
    using mask_okD(1,3,4) [OF assms k] by (simp add: vget_def)
qed simp_all

lemma row_in_buffer: "i < n \<Longrightarrow> n_kv * i + n_kv \<le> n_kv * (n :: nat)"
  by (metis Suc_leI mult_Suc_right add.commute mult_le_mono2)

lemma mask_token_ok:
  assumes ok: "mask_ok kv ub n_kv n_stream" and i: "i < ub_n_tokens ub"
    and pm: "\<forall>i < ub_n_tokens ub. pos_min (token_seq ub i) \<le> ub_pos ub ! i"
    and inv: "mask_inv kv ub alibi causal n_kv pos_min i ms"
  shows "\<exists>ms'. mask_token (flags_of alibi causal kv ub) (mask_args alibi kv ub n_kv n_stream) pos_min i ms = Some ms'
    \<and> mask_inv kv ub alibi causal n_kv pos_min (Suc i) ms'"
proof -
  let ?s = "token_seq ub i" and ?c = "token_cells kv ub i" and ?m = "mask_of alibi causal kv ub"
  let ?fl = "flags_of alibi causal kv ub" and ?args = "mask_args alibi kv ub n_kv n_stream"
  define x where "x = (if ub_is_pos_2d ub then ub_pos ub ! (i + ub_n_tokens ub * 2) else 0)"
  define y where "y = (if ub_is_pos_2d ub then ub_pos ub ! (i + ub_n_tokens ub) else 0)"
  note D = mask_okD [OF ok i]
  have xy: "(if ub_is_pos_2d ub then vget (ub_pos ub) (i + ub_n_tokens ub * 2) else Some 0) = Some x"
    "(if ub_is_pos_2d ub then vget (ub_pos ub) (i + ub_n_tokens ub) else Some 0) = Some y"
    using ok i by (auto simp: mask_ok_def vget_def x_def y_def)
  have cell: "mask_cell ?fl ?args ?c ?s (ub_pos ub ! i) x y j = Some (?m i j)" if "j < n_kv" for j
    by (rule mask_cell_ok [OF ok i that]) (simp add: x_def y_def)
  have len: "length (ms_data ms) = n_kv * ub_n_tokens ub" and rows: "\<And>k. k < i \<Longrightarrow> row_done n_kv ?m k (ms_data ms)"
    using inv by (simp_all add: mask_inv_def)
  have buf: "n_kv * k + n_kv \<le> length (ms_data ms)" if "k < ub_n_tokens ub" for k
    using row_in_buffer [OF that] len by simp
  note start = mask_token_def [of ?fl ?args pos_min i ms]
  show ?thesis
  proof (cases "if alibi then None else ms_srct ms ?s")
    case None
    let ?r = "\<lambda>j. \<not> alibi \<and> near kv ?c ?s (pos_min ?s) j"
    have "\<forall>j \<in> set [0..<n_kv]. mask_cell ?fl ?args ?c ?s (ub_pos ub ! i) x y j = Some (?m i j)
        \<and> (if alibi then Some False else records_cell (kv_n_swa kv) ?c ?s (pos_min ?s) j) = Some (?r j)
        \<and> n_kv * i + j < length (ms_data ms)"
      using cell records_cell_ok [OF ok i] buf [OF i] by auto
    from full_row_loop [OF this, where idxs = "[]"] obtain d where
      d: "full_row ?fl ?args ?c ?s (pos_min ?s) (ub_pos ub ! i) x y (n_kv * i) (ms_data ms) = Some (d, filter ?r [0..<n_kv])"
      "writes (n_kv * i) (?m i) [0..<n_kv] (ms_data ms) d"
      unfolding full_row_def args_set_input_kq_mask.simps mask_flags.simps by auto
    note w = writes_row [OF d(2) _ buf [OF i]]
    have "row_done n_kv ?m k d" if "k < Suc i" for k
    proof (cases "k = i")
      case True
      then show ?thesis using w(2) by (simp add: row_done_def)
    next
      case False
      with that i rows buf w(3) show ?thesis by simp
    qed
    moreover have "length d = n_kv * ub_n_tokens ub" using w(1) len by simp
    ultimately show ?thesis
      using start D xy None d(1) inv
      by (auto simp: mask_inv_def Let_def vget_def token_cells_def less_Suc_eq)
  next
    case (Some k)
    then have al: "\<not> alibi" and src: "ms_srct ms ?s = Some k" by (auto split: if_splits)
    then have k: "k < i" "token_seq ub k = ?s"
      and idxs: "ms_idxs ms ?s = filter (near kv (token_cells kv ub k) ?s (pos_min ?s)) [0..<n_kv]"
      using inv unfolding mask_inv_def by blast+
    have kn: "k < ub_n_tokens ub" using k(1) i by simp
    have same: "token_cells kv ub k = ?c" using k(2) by (simp add: token_cells_def)
    let ?idxs = "filter (near kv ?c ?s (pos_min ?s)) [0..<n_kv]"
    have take: "take n_kv (ms_idxs ms ?s) = ?idxs" using idxs same
      by (metis diff_zero length_filter_le length_upt take_all)
    from copy_row_ok [OF buf [OF kn] buf [OF i]] k(1) obtain d1 where
      d1: "copy_row n_kv (n_kv * k) (n_kv * i) (ms_data ms) = Some d1"
      "writes (n_kv * i) (\<lambda>j. ms_data ms ! (n_kv * k + j)) [0..<n_kv] (ms_data ms) d1" by auto
    note w1 = writes_row [OF d1(2) _ buf [OF i]]
    have buf1: "n_kv * l + n_kv \<le> length d1" if "l < ub_n_tokens ub" for l using buf [OF that] w1(1) by simp
    have "\<forall>j \<in> set ?idxs. mask_cell ?fl ?args ?c ?s (ub_pos ub ! i) x y j = Some (?m i j) \<and> n_kv * i + j < length d1"
      using cell buf1 [OF i] by auto
    from writes_loop [OF this] obtain d2 where
      d2: "foldM (\<lambda>j data. do { v \<leftarrow> mask_cell ?fl ?args ?c ?s (ub_pos ub ! i) x y j; vset data (n_kv * i + j) v }) ?idxs d1 = Some d2"
      "writes (n_kv * i) (?m i) ?idxs d1 d2" by blast
    have "set ?idxs \<subseteq> {0..<n_kv}" by auto
    note w2 = writes_row [OF d2(2) this buf1 [OF i]]
    have "row_done n_kv ?m l d2" if "l < Suc i" for l
    proof (cases "l = i")
      case True
      have "d2 ! (n_kv * i + j) = ?m i j" if j: "j < n_kv" for j
      proof (cases "near kv ?c ?s (pos_min ?s) j")
        case False
        have "d2 ! (n_kv * i + j) = ?m k j"
          using w2(2) [OF j] w1(2) [OF _ j] False j rows [OF k(1)] by (auto simp: row_done_def)
        also have "\<dots> = ?m i j"
          using far_same [of kv ub i k "pos_min ?s" j causal] ok k(2) pm i kn False al by (auto simp: mask_ok_def)
        finally show ?thesis .
      qed (use w2(2) [OF j] j in auto)
      with True show ?thesis by (simp add: row_done_def)
    next
      case False
      with that have l: "l < i" by simp
      then have "row_done n_kv ?m l d1" using w1(3) [of l ?m] rows buf i by simp
      then show ?thesis using w2(3) [of l ?m] buf1 [of l] l i by simp
    qed
    moreover have "length d2 = n_kv * ub_n_tokens ub" using w1(1) w2(1) len by simp
    ultimately show ?thesis
      using start D xy Some d1(1) d2(1) take inv
      by (auto simp: mask_inv_def Let_def vget_def token_cells_def less_Suc_eq)
  qed
qed

section \<open>The mask\<close>

lemma kq_mask_ok:
  assumes "mask_ok kv ub n_kv n_stream" and "length data = n_kv * ub_n_tokens ub"
  shows "\<exists>mask. set_input_kq_mask alibi causal n_kv n_stream ub kv data = Some mask \<and> length mask = n_kv * ub_n_tokens ub
    \<and> (\<forall>i < ub_n_tokens ub. \<forall>j < n_kv. mask ! (n_kv * i + j) = mask_of alibi causal kv ub i j)"
proof -
  let ?n = "ub_n_tokens ub" and ?tps = "ub_n_tokens ub div n_stream" and ?m = "mask_of alibi causal kv ub"
  let ?fl = "flags_of alibi causal kv ub" and ?args = "mask_args alibi kv ub n_kv n_stream"
  have ns: "n_stream * ?tps = ?n" "n_stream \<noteq> 0 \<and> ?n mod n_stream = 0" using assms(1) by (auto simp: mask_ok_def)
  from batch_pos_min_ok [OF assms(1)] obtain pm where pm: "batch_pos_min ub = Some pm"
    "\<forall>i < ?n. pm (token_seq ub i) \<le> ub_pos ub ! i" by blast
  define body where "body s d = do {
         ms \<leftarrow> foldM (\<lambda>ii. mask_token ?fl ?args pm (s * ?tps + ii)) [0..<?tps] \<lparr>ms_data = d, ms_srct = Map.empty, ms_idxs = (\<lambda>_. [])\<rparr>;
         Some (ms_data ms) }" for s d
  let ?I = "\<lambda>s d. length d = n_kv * ?n \<and> (\<forall>k < s * ?tps. row_done n_kv ?m k d)"
  have "\<exists>d. foldM body [0..<n_stream] data = Some d \<and> ?I n_stream d"
  proof (rule foldM_upt_total [where I = ?I])
    fix s d assume s: "s < n_stream" and d: "?I s d"
    let ?ms = "\<lparr>ms_data = d, ms_srct = Map.empty, ms_idxs = (\<lambda>_. [])\<rparr>"
    have "\<exists>ms. foldM (\<lambda>ii. mask_token ?fl ?args pm (s * ?tps + ii)) [0..<?tps] ?ms = Some ms
        \<and> mask_inv kv ub alibi causal n_kv pm (s * ?tps + ?tps) ms"
    proof (rule foldM_upt_total [where I = "\<lambda>ii. mask_inv kv ub alibi causal n_kv pm (s * ?tps + ii)"])
      fix ii ms assume ii: "ii < ?tps" and inv: "mask_inv kv ub alibi causal n_kv pm (s * ?tps + ii) ms"
      have "s * ?tps + ii < Suc s * ?tps" using ii by simp
      also have "\<dots> \<le> ?n" using s ns(1) by (metis Suc_leI mult_le_mono1)
      finally show "\<exists>v. mask_token ?fl ?args pm (s * ?tps + ii) ms = Some v
          \<and> mask_inv kv ub alibi causal n_kv pm (s * ?tps + Suc ii) v"
        using mask_token_ok [OF assms(1) _ pm(2) inv] by simp
    qed (use d in \<open>simp_all add: mask_inv_def\<close>)
    then show "\<exists>v. body s d = Some v \<and> ?I (Suc s) v"
      by (auto simp: body_def mask_inv_def add.commute)
  qed (use assms(2) in simp_all)
  then obtain d where d: "foldM body [0..<n_stream] data = Some d" "?I n_stream d" by blast
  have "set_input_kq_mask alibi causal n_kv n_stream ub kv data = Some d"
    using ns(2) pm(1) d(1) by (simp add: set_input_kq_mask_def set_input_kq_mask_impl_def body_def [abs_def])
  with d(2) ns(1) show ?thesis by (auto simp: row_done_def)
qed

text \<open>C5: (\<open>set_input_kq_mask\<close>) Although the code fills in only the first row of each sequence cell by cell, and
  for a later token copies that row and revisits the recorded cells, every entry of the mask is the one that
  the token and the cell alone determine: masked when the cell does not hold the token's sequence, lies in
  its future (for causal attention), or is outside its window, and otherwise the bias. This holds for
  every kind of window, with and without ALiBi, for one- and two-dimensional positions.\<close>

theorem mask_is_cellwise:
  assumes "mask_ok kv ub n_kv n_stream" and "length data = n_kv * ub_n_tokens ub"
  shows "\<exists>mask. set_input_kq_mask alibi causal n_kv n_stream ub kv data = Some mask \<and> length mask = n_kv * ub_n_tokens ub
    \<and> (\<forall>i < ub_n_tokens ub. \<forall>j < n_kv. mask ! (n_kv * i + j) = mask_of alibi causal kv ub i j)"
  by (rule kq_mask_ok [OF assms])

text \<open>The batch of two tokens, placed behind positions 0, 1 and 2.\<close>

lemma mask_is_cellwise_witness:
  "\<exists>mask. set_input_kq_mask False True 4 1 demo_ub demo_kv (replicate 8 Masked) = Some mask \<and> length mask = 4 * ub_n_tokens demo_ub
    \<and> (\<forall>i < ub_n_tokens demo_ub. \<forall>j < 4. mask ! (4 * i + j) = mask_of False True demo_kv demo_ub i j)"
proof (rule mask_is_cellwise)
  show "mask_ok demo_kv demo_ub 4 1"
    using demo_inv(1,3)
    by (auto simp: mask_ok_def demo_kv_sel demo_ub_def token_seq_def ub_is_pos_2d_def less_2_cases_iff
        cells_of_def demo_view_def i32_max_def)
qed (simp add: demo_ub_def)

lemma seen_positions:
  assumes ok: "mask_ok kv ub n_kv 1" and cells: "kv_v_cells kv = [d]" "kv_swa_type kv = SWA_NONE" and flat: "\<not> ub_is_pos_2d ub"
    and cover: "\<And>j. j < kv_size kv \<Longrightarrow> kc_pos d ! j \<noteq> - 1 \<Longrightarrow> j < n_kv" and data: "length data = n_kv * ub_n_tokens ub"
  shows "\<exists>mask. set_input_kq_mask False True n_kv 1 ub kv data = Some mask \<and> (\<forall>i < ub_n_tokens ub.
      {kc_pos d ! j |j. j < n_kv \<and> mask ! (n_kv * i + j) \<noteq> Masked}
      = {p \<in> seq_positions (kc_view d) (token_seq ub i). p \<le> ub_pos ub ! i})"
proof -
  from kq_mask_ok [OF ok data, of False True] obtain mask where mask: "set_input_kq_mask False True n_kv 1 ub kv data = Some mask"
    "\<And>i j. i < ub_n_tokens ub \<Longrightarrow> j < n_kv \<Longrightarrow> mask ! (n_kv * i + j) = mask_of False True kv ub i j" by blast
  have "{kc_pos d ! j |j. j < n_kv \<and> mask ! (n_kv * i + j) \<noteq> Masked}
      = {p \<in> seq_positions (kc_view d) (token_seq ub i). p \<le> ub_pos ub ! i}" if i: "i < ub_n_tokens ub" for i
  proof -
    note D = mask_okD [OF ok i]
    have d: "token_cells kv ub i = d" using D(10) cells(1) by simp
    have size: "kc_size d = kv_size kv" "n_kv \<le> kv_size kv" using D(9) d ok by (simp_all add: mask_ok_def)
    have "kc_pos d ! j \<noteq> - 1" if "j < kv_size kv" "token_seq ub i \<in> kc_seq d ! j" for j
      using cells_invD(3) [OF D(8), of j] that size d by auto
    then have lt: "j < n_kv" if "j < kv_size kv" "token_seq ub i \<in> kc_seq d ! j" for j
      using cover that by blast
    have sp: "seq_positions (kc_view d) s = {kc_pos d ! j |j. j < kv_size kv \<and> s \<in> kc_seq d ! j}" for s
      using size by (force simp: seq_positions_def kc_view_def)
    have seen: "{kc_pos d ! j |j. j < n_kv \<and> token_seq ub i \<in> kc_seq d ! j \<and> kc_pos d ! j \<le> ub_pos ub ! i}
        = {p \<in> seq_positions (kc_view d) (token_seq ub i). p \<le> ub_pos ub ! i}"
      unfolding sp using lt size(2) by (auto dest: order_less_le_trans)
    have "mask ! (n_kv * i + j) \<noteq> Masked \<longleftrightarrow> token_seq ub i \<in> kc_seq d ! j \<and> kc_pos d ! j \<le> ub_pos ub ! i" if "j < n_kv" for j
      using mask(2) [OF i that] cells(2) flat d by (auto simp: mask_of_def hidden_def swa_hides_def Let_def)
    then have "{kc_pos d ! j |j. j < n_kv \<and> mask ! (n_kv * i + j) \<noteq> Masked}
        = {kc_pos d ! j |j. j < n_kv \<and> token_seq ub i \<in> kc_seq d ! j \<and> kc_pos d ! j \<le> ub_pos ub ! i}" by blast
    then show ?thesis using seen by (rule trans)
  qed
  with mask(1) show ?thesis by blast
qed

text \<open>The positions in the cells after a micro-batch has been placed.\<close>

lemma placed_positions:
  assumes "placed ub idxs (length idxs) c d" and "length idxs = ub_n_tokens ub" and "\<forall>i < length idxs. token_ok ub i"
    and "p \<in> set (kc_pos d)"
  shows "p \<in> set (kc_pos c) \<union> set (take (ub_n_tokens ub) (ub_pos ub))"
proof -
  note D = assms(1) [unfolded placed_def]
  from assms(4) obtain j where j: "j < kc_size c" "p = kc_pos d ! j" using D by (auto simp: in_set_conv_nth kc_size_def)
  show ?thesis
  proof (cases "j \<in> set idxs")
    case True
    then obtain i where i: "i < length idxs" "j = idxs ! i" by (auto simp: in_set_conv_nth)
    then have "cell_at d j = tok_cell ub i (cell_at c j)" using D by blast
    then have "p = ub_pos ub ! i" using j(2) by (simp add: tok_cell_def cell_at_def)
    then show ?thesis using i(1) assms(2,3) by (auto simp: in_set_conv_nth token_ok_def intro!: exI [of _ i])
  next
    case False
    then have "p = kc_pos c ! j" using D j by (simp add: cell_at_def)
    then show ?thesis using j(1) by (simp add: kc_size_def)
  qed
qed

text \<open>C2: (a decoding step on a unified cache without a sliding window, plain causal mask without ALiBi) After \<open>apply_ubatch\<close> has placed a micro-batch,
  the cells that \<open>get_n_kv\<close> takes in and \<open>set_input_kq_mask\<close> leaves visible to a token are exactly those of the
  history of its sequence: the positions up to its own that the cache held for the sequence or that the batch
  adds to it. No position of another sequence and no later one is seen, and none of the history is missing.\<close>

theorem attention_sees_history:
  assumes "unified kv" and "slot_ok kv ub si idxs" and "\<not> ub_is_pos_2d ub" and "kv_n_swa kv < 2 ^ 31 - 32"
    and "\<forall>i < ub_n_tokens ub. kv_seq_valid kv (token_seq ub i)"
    and "\<forall>p \<in> set (kc_pos (kv_v_cells kv ! 0)) \<union> set (take (ub_n_tokens ub) (ub_pos ub)). p + int (kv_n_swa kv) + 32 \<le> i32_max"
  shows "\<exists>kv' n_kv. kv_apply_ubatch si ub kv = Some kv' \<and> kv_get_n_kv si kv' = Some n_kv \<and> n_kv \<le> kv_size kv
    \<and> (\<forall>data. length data = n_kv * ub_n_tokens ub \<longrightarrow>
        (\<exists>mask. set_input_kq_mask False True n_kv 1 ub kv' data = Some mask \<and> (\<forall>i < ub_n_tokens ub.
           {kc_pos (kv_v_cells kv' ! 0) ! j |j. j < n_kv \<and> mask ! (n_kv * i + j) \<noteq> Masked}
           = {p \<in> seq_positions (kc_view (kv_v_cells kv ! 0)) (token_seq ub i)
                  \<union> {ub_pos ub ! k |k. k < ub_n_tokens ub \<and> token_seq ub i \<in> set (token_seqs ub k)}. p \<le> ub_pos ub ! i})))"
proof -
  let ?c = "kv_v_cells kv ! 0" and ?n = "ub_n_tokens ub"
  note slot = assms(2) [unfolded slot_ok_def] and u = assms(1) [unfolded unified_def]
  from apply_unified_places [OF assms(1,2)] obtain kv' d where kv': "kv_apply_ubatch si ub kv = Some kv'"
    "kv' = kv_put 0 d (last idxs + 1) kv" "unified kv'"
    and pos: "\<And>s. seq_positions (kc_view d) s = seq_positions (kc_view ?c) s
          \<union> {ub_pos ub ! i |i. i < length idxs \<and> s \<in> set (token_seqs ub i)}" by blast
  have inv': "kv_inv kv'" "kv_swa_type kv' = SWA_NONE" using kv'(3) by (simp_all add: unified_def)
  have len: "length (kv_v_cells kv) = 1" using u by (simp add: kv_inv_def)
  then have cells: "kv_v_cells kv' = [d]" using kv'(2) by (auto simp: length_Suc_conv)
  have placed: "placed ub idxs (length idxs) ?c d"
    using apply_unified [of kv ub si idxs] u assms(2) kv'(1) cells len by (auto simp: length_Suc_conv)
  then have size: "kc_size d = kv_size kv" "kv_size kv' = kv_size kv" using cells by (simp_all add: placed_def kv_size_def)
  have "slot_shape_ok kv' si 1 ?n" using slot u kv'(2) size by (simp add: slot_shape_ok_def)
  from n_kv_bounds [OF inv'(1) this] obtain n_kv where n_kv: "kv_get_n_kv si kv' = Some n_kv" "n_kv \<le> kv_size kv"
    "\<And>j. j < kv_size kv' \<Longrightarrow> kc_pos d ! j \<noteq> - 1 \<Longrightarrow> j < n_kv"
    using slot cells size by auto
  have "p + int (kv_n_swa kv) + 32 \<le> i32_max" if "p \<in> set (kc_pos d)" for p
    using placed_positions [OF placed _ _ that] slot assms(6) by blast
  moreover have "i < ?n \<Longrightarrow> ub_seq_id ub ! i \<noteq> []" for i using slot by (force simp: token_ok_def)
  ultimately have "mask_ok kv' ub n_kv 1"
    using inv' assms(3,4,5) n_kv(2) size slot cells kv'(2)
    by (auto simp: mask_ok_def token_ok_def kv_seq_valid_def kv_put_def)
  from seen_positions [OF this cells inv'(2) assms(3) n_kv(3)] show ?thesis
    using kv'(1) n_kv(1,2) pos slot cells by auto
qed

lemma attention_sees_history_witness:
  "\<exists>kv' n_kv. kv_apply_ubatch \<lparr>si_s0 = 0, si_s1 = 0, si_strm = [0], si_idxs = [[2, 4]]\<rparr> demo_ub demo_kv = Some kv'
    \<and> (\<exists>mask. set_input_kq_mask False True n_kv 1 demo_ub kv' (replicate (2 * n_kv) Masked) = Some mask
      \<and> {kc_pos (kv_v_cells kv' ! 0) ! j |j. j < n_kv \<and> mask ! (n_kv * 0 + j) \<noteq> Masked} = {0, 1, 2, 3})"
proof -
  have seqs: "token_seq demo_ub i = 0" "token_seqs demo_ub i = [0]" if "i < 2" for i
    using that by (auto simp: demo_ub_def token_seq_def token_seqs_def less_2_cases_iff)
  have "kc_view (kv_v_cells demo_kv ! 0) = demo_view" using demo_kv_sel(3) by (simp add: kv_views_def demo_kv_sel)
  moreover have "seq_positions demo_view 0 = c_pos ` set (filter (\<lambda>x. 0 \<in> c_seq x) demo_view)" by (auto simp: seq_positions_def)
  ultimately have old: "seq_positions (kc_view (kv_v_cells demo_kv ! 0)) 0 = {0, 1, 2}" by (simp add: demo_view_def)
  have "{ub_pos demo_ub ! k |k. k < 2 \<and> 0 \<in> set (token_seqs demo_ub k)} = (!) (ub_pos demo_ub) ` {0, 1}"
    using seqs(2) by (auto simp: less_2_cases_iff)
  then have new: "{ub_pos demo_ub ! k |k. k < 2 \<and> 0 \<in> set (token_seqs demo_ub k)} = {3, 4}" by (simp add: demo_ub_def)
  have n: "ub_n_tokens demo_ub = 2" by (simp add: demo_ub_def)
  have "\<exists>kv' n_kv. kv_apply_ubatch \<lparr>si_s0 = 0, si_s1 = 0, si_strm = [0], si_idxs = [[2, 4]]\<rparr> demo_ub demo_kv = Some kv' \<and> kv_get_n_kv \<lparr>si_s0 = 0, si_s1 = 0, si_strm = [0], si_idxs = [[2, 4]]\<rparr> kv' = Some n_kv \<and> n_kv \<le> kv_size demo_kv
    \<and> (\<forall>data. length data = n_kv * ub_n_tokens demo_ub \<longrightarrow>
        (\<exists>mask. set_input_kq_mask False True n_kv 1 demo_ub kv' data = Some mask \<and> (\<forall>i < ub_n_tokens demo_ub.
           {kc_pos (kv_v_cells kv' ! 0) ! j |j. j < n_kv \<and> mask ! (n_kv * i + j) \<noteq> Masked}
           = {p \<in> seq_positions (kc_view (kv_v_cells demo_kv ! 0)) (token_seq demo_ub i)
                  \<union> {ub_pos demo_ub ! k |k. k < ub_n_tokens demo_ub \<and> token_seq demo_ub i \<in> set (token_seqs demo_ub k)}. p \<le> ub_pos demo_ub ! i})))"
    by (rule attention_sees_history [OF demo_ub_ok(2) demo_slot])
      (use demo_inv(3) seqs n in \<open>auto simp: demo_kv_sel ub_is_pos_2d_def demo_ub_def i32_max_def cells_of_def demo_view_def\<close>)
  then obtain kv' n_kv where k: "kv_apply_ubatch \<lparr>si_s0 = 0, si_s1 = 0, si_strm = [0], si_idxs = [[2, 4]]\<rparr> demo_ub demo_kv = Some kv'"
    "\<And>data. length data = n_kv * ub_n_tokens demo_ub \<Longrightarrow>
        \<exists>mask. set_input_kq_mask False True n_kv 1 demo_ub kv' data = Some mask \<and> (\<forall>i < ub_n_tokens demo_ub.
           {kc_pos (kv_v_cells kv' ! 0) ! j |j. j < n_kv \<and> mask ! (n_kv * i + j) \<noteq> Masked}
           = {p \<in> seq_positions (kc_view (kv_v_cells demo_kv ! 0)) (token_seq demo_ub i)
                  \<union> {ub_pos demo_ub ! k |k. k < ub_n_tokens demo_ub \<and> token_seq demo_ub i \<in> set (token_seqs demo_ub k)}. p \<le> ub_pos demo_ub ! i})"
    by blast
  from k(2) [of "replicate (2 * n_kv) Masked"] obtain mask where
    m: "set_input_kq_mask False True n_kv 1 demo_ub kv' (replicate (2 * n_kv) Masked) = Some mask"
    and "\<forall>i < 2. {kc_pos (kv_v_cells kv' ! 0) ! j |j. j < n_kv \<and> mask ! (n_kv * i + j) \<noteq> Masked}
           = {p \<in> seq_positions (kc_view (kv_v_cells demo_kv ! 0)) (token_seq demo_ub i)
                  \<union> {ub_pos demo_ub ! k |k. k < 2 \<and> token_seq demo_ub i \<in> set (token_seqs demo_ub k)}. p \<le> ub_pos demo_ub ! i}"
    unfolding n by auto
  from this(2) have "{kc_pos (kv_v_cells kv' ! 0) ! j |j. j < n_kv \<and> mask ! (n_kv * 0 + j) \<noteq> Masked}
           = {p \<in> seq_positions (kc_view (kv_v_cells demo_kv ! 0)) (token_seq demo_ub 0)
                  \<union> {ub_pos demo_ub ! k |k. k < 2 \<and> token_seq demo_ub 0 \<in> set (token_seqs demo_ub k)}. p \<le> ub_pos demo_ub ! 0}"
    by (rule allE) (erule mp, simp)
  moreover
  have "ub_pos demo_ub ! 0 = 3" by (simp add: demo_ub_def)
  then have "{p \<in> seq_positions (kc_view (kv_v_cells demo_kv ! 0)) (token_seq demo_ub 0)
                  \<union> {ub_pos demo_ub ! k |k. k < 2 \<and> token_seq demo_ub 0 \<in> set (token_seqs demo_ub k)}. p \<le> ub_pos demo_ub ! 0} = {0, 1, 2, 3}"
    using seqs(1) old new by auto
  ultimately have "{kc_pos (kv_v_cells kv' ! 0) ! j |j. j < n_kv \<and> mask ! (n_kv * 0 + j) \<noteq> Masked} = {0, 1, 2, 3}"
    by (rule trans)
  with m k(1) show ?thesis by blast
qed

end
