(* ===== verification/Batch.thy ===== *)
theory Batch
  imports Ubatch
begin

text \<open>
  \<^verbatim>\<open>llama_batch_allocr\<close> (src/src/llama-batch.cpp, src/src/llama-batch.h): the input batch is checked,
  its missing fields are filled in, and it is split into micro-batches.

  A null pointer of \<^verbatim>\<open>llama_batch\<close> is \<open>None\<close>; the vectors that only own what the batch's pointers point to
  are not kept apart. An embedding is the bit patterns of its floats. The memory and the size of the
  vocabulary are parameters of \<open>ba_init\<close>. A loop that the code leaves with \<^verbatim>\<open>return false\<close> keeps a flag.
\<close>

section \<open>State\<close>

record llama_batch =
  lb_n_tokens :: int
  lb_token :: "llama_token list option"
  lb_embd :: "int list option"
  lb_pos :: "llama_pos list option"
  lb_n_seq_id :: "nat list option"
  lb_seq_id :: "llama_seq_id list list option"
  lb_logits :: "bool list option"

definition llama_batch_get_one :: "llama_token list \<Rightarrow> int \<Rightarrow> llama_batch" where
  "llama_batch_get_one tokens n_tokens = \<lparr>lb_n_tokens = n_tokens, lb_token = Some tokens, lb_embd = None, lb_pos = None,
     lb_n_seq_id = None, lb_seq_id = None, lb_logits = None\<rparr>"

record batch_allocr =
  ba_n_pos_per_embd :: nat
  ba_batch :: llama_batch
  ba_n_embd :: nat
  ba_n_seq_max :: nat
  ba_n_outputs :: nat
  ba_seq_id_unq :: "llama_seq_id list"
  ba_seq_idx :: "int list"
  ba_has_cpl :: bool
  ba_seq_pos :: "llama_seq_id \<Rightarrow> llama_pos set"
  ba_seq_cpl :: "llama_seq_id \<Rightarrow> llama_seq_id \<Rightarrow> bool"
  ba_seq_set :: "seq_set_t list"
  ba_seq_set_map :: "seq_set_t \<Rightarrow> nat list"
  ba_out_ids :: "nat list"
  ba_n_used :: nat
  ba_used :: "bool list"

definition empty_batch :: llama_batch where
  "empty_batch = \<lparr>lb_n_tokens = 0, lb_token = None, lb_embd = None, lb_pos = None, lb_n_seq_id = None,
     lb_seq_id = None, lb_logits = None\<rparr>"

definition ba_new :: "nat \<Rightarrow> batch_allocr" where
  "ba_new n_pos_per_embd = \<lparr>ba_n_pos_per_embd = n_pos_per_embd, ba_batch = empty_batch, ba_n_embd = 0, ba_n_seq_max = 0,
     ba_n_outputs = 0, ba_seq_id_unq = [], ba_seq_idx = replicate LLAMA_MAX_SEQ (- 1), ba_has_cpl = False,
     ba_seq_pos = (\<lambda>_. {}), ba_seq_cpl = (\<lambda>_ _. False), ba_seq_set = [], ba_seq_set_map = (\<lambda>_. []),
     ba_out_ids = [], ba_n_used = 0, ba_used = []\<rparr>"

definition ba_clear :: "batch_allocr \<Rightarrow> batch_allocr" where
  "ba_clear ba = ba\<lparr>ba_n_outputs := 0, ba_batch := empty_batch, ba_seq_id_unq := [], ba_seq_pos := (\<lambda>_. {}),
     ba_seq_cpl := (\<lambda>_ _. False), ba_seq_set := [], ba_seq_set_map := (\<lambda>_. []),
     ba_seq_idx := replicate (length (ba_seq_idx ba)) (- 1)\<rparr>"

definition ba_n_tokens :: "batch_allocr \<Rightarrow> nat" where
  "ba_n_tokens ba = nat (lb_n_tokens (ba_batch ba))"

definition ba_seq_pos_min :: "batch_allocr \<Rightarrow> llama_seq_id \<Rightarrow> llama_pos" where
  "ba_seq_pos_min ba s = (if ba_seq_pos ba s = {} then - 1 else Min (ba_seq_pos ba s))"

definition ba_seq_pos_max :: "batch_allocr \<Rightarrow> llama_seq_id \<Rightarrow> llama_pos" where
  "ba_seq_pos_max ba s = (if ba_seq_pos ba s = {} then - 1 else Max (ba_seq_pos ba s))"

definition ba_split_reset :: "batch_allocr \<Rightarrow> batch_allocr" where
  "ba_split_reset ba = ba\<lparr>ba_out_ids := [], ba_n_used := 0, ba_used := replicate (ba_n_tokens ba) False\<rparr>"

section \<open>Checking and completing the input\<close>

text \<open>The memory that the batch continues: the least and the greatest position it holds for a sequence.\<close>

record memory_i =
  mi_seq_pos_min :: "llama_seq_id \<Rightarrow> llama_pos option"
  mi_seq_pos_max :: "llama_seq_id \<Rightarrow> llama_pos option"

definition tokens_valid :: "nat \<Rightarrow> llama_batch \<Rightarrow> bool option" where
  "tokens_valid n_vocab b =
     (case lb_token b of
        None \<Rightarrow> Some True
      | Some toks \<Rightarrow> foldM (\<lambda>i ok. if \<not> ok then Some False
          else do { t \<leftarrow> vget toks i; Some (\<not> (t < 0 \<or> nat t \<ge> n_vocab)) }) [0..<nat (lb_n_tokens b)] True)"

definition seq_ids_valid :: "nat \<Rightarrow> llama_batch \<Rightarrow> bool option" where
  "seq_ids_valid n_seq_max b =
     (case lb_seq_id b of
        None \<Rightarrow> Some True
      | Some ids \<Rightarrow> foldM (\<lambda>i ok. if \<not> ok then Some False
          else do {
            ns \<leftarrow> lb_n_seq_id b;
            n \<leftarrow> vget ns i;
            foldM (\<lambda>s ok. if \<not> ok then Some False
              else do { js \<leftarrow> vget ids i; t \<leftarrow> vget js s; Some (\<not> (t < 0 \<or> t \<ge> int n_seq_max)) }) [0..<n] True
          }) [0..<nat (lb_n_tokens b)] True)"

definition fill_seqs :: "llama_batch \<Rightarrow> llama_batch" where
  "fill_seqs b =
     (let n = nat (lb_n_tokens b);
          b = (if lb_n_seq_id b = None then b\<lparr>lb_n_seq_id := Some (replicate n 1)\<rparr> else b)
      in if lb_seq_id b = None then b\<lparr>lb_seq_id := Some (replicate n [0])\<rparr> else b)"

text \<open>The sequences of token \<open>i\<close>.\<close>

definition batch_seqs :: "llama_batch \<Rightarrow> nat \<Rightarrow> llama_seq_id list option" where
  "batch_seqs b i = do {
     ns \<leftarrow> lb_n_seq_id b;
     ids \<leftarrow> lb_seq_id b;
     n \<leftarrow> vget ns i;
     js \<leftarrow> vget ids i;
     check (n \<le> length js);
     Some (take n js) }"

definition batch_seq0 :: "llama_batch \<Rightarrow> nat \<Rightarrow> llama_seq_id option" where
  "batch_seq0 b i = do { ids \<leftarrow> lb_seq_id b; js \<leftarrow> vget ids i; vget js 0 }"

definition first_positions :: "nat \<Rightarrow> memory_i option \<Rightarrow> llama_pos list option" where
  "first_positions n_seq_max memory = foldM (\<lambda>s p0. do {
     p \<leftarrow> (case memory of None \<Rightarrow> Some 0
          | Some m \<Rightarrow> do { q \<leftarrow> mi_seq_pos_max m (int s); check (i32_ok (q + 1)); Some (q + 1) });
     Some (p0 @ [p]) }) [0..<n_seq_max] []"

definition next_position :: "llama_batch \<Rightarrow> nat \<Rightarrow> llama_pos list \<times> llama_pos list \<Rightarrow> (llama_pos list \<times> llama_pos list) option" where
  "next_position b i = (\<lambda>(pos, p0). do {
     s0 \<leftarrow> batch_seq0 b i;
     check (0 \<le> s0);
     p \<leftarrow> vget p0 (nat s0);
     check (i32_ok (p + 1));
     ss \<leftarrow> batch_seqs b i;
     p0 \<leftarrow> foldM (\<lambda>s p0. do { check (0 \<le> s); vset p0 (nat s) (p + 1) }) ss p0;
     Some (pos @ [p], p0) })"

definition fill_pos :: "nat \<Rightarrow> memory_i option \<Rightarrow> llama_batch \<Rightarrow> llama_batch option" where
  "fill_pos n_seq_max memory b =
     (if lb_pos b \<noteq> None then Some b
      else do {
        p0 \<leftarrow> first_positions n_seq_max memory;
        (pos, _) \<leftarrow> foldM (next_position b) [0..<nat (lb_n_tokens b)] ([], p0);
        Some (b\<lparr>lb_pos := Some pos\<rparr>) })"

definition fill_logits :: "bool \<Rightarrow> llama_batch \<Rightarrow> llama_batch option" where
  "fill_logits output_all b =
     (let n = nat (lb_n_tokens b) in
      case lb_logits b of
        None \<Rightarrow> Some (b\<lparr>lb_logits := Some (if output_all then replicate n True else (replicate n False)[n - 1 := True])\<rparr>)
      | Some out \<Rightarrow>
          if output_all then do {
            warn \<leftarrow> foldM (\<lambda>i w. do { o' \<leftarrow> vget out i; Some (w \<or> \<not> o') }) [0..<n] False;
            Some (if warn then b\<lparr>lb_logits := Some (replicate n True)\<rparr> else b)
          }
          else Some b)"

section \<open>Statistics\<close>

definition count_outputs :: "llama_batch \<Rightarrow> nat option" where
  "count_outputs b = foldM (\<lambda>i n. do { out \<leftarrow> lb_logits b; o' \<leftarrow> vget out i; Some (if o' then n + 1 else n) })
     [0..<nat (lb_n_tokens b)] 0"

definition couple_seq :: "llama_pos \<Rightarrow> llama_seq_id \<Rightarrow> nat \<times> llama_seq_id \<Rightarrow> batch_allocr \<Rightarrow> batch_allocr option" where
  "couple_seq p s0 = (\<lambda>(s, s1) ba. do {
     check (seq_id_ok s1);
     let ba = ba\<lparr>ba_seq_pos := (ba_seq_pos ba)(s1 := insert p (ba_seq_pos ba s1))\<rparr>;
     if s > 0 then do {
       check (seq_id_ok s0);
       Some (ba\<lparr>ba_seq_cpl := (ba_seq_cpl ba)(s1 := (ba_seq_cpl ba s1)(s0 := True)), ba_has_cpl := True\<rparr>)
     }
     else Some ba })"

definition couple_token :: "nat \<Rightarrow> batch_allocr \<Rightarrow> batch_allocr option" where
  "couple_token i ba = do {
     s0 \<leftarrow> batch_seq0 (ba_batch ba) i;
     ss \<leftarrow> batch_seqs (ba_batch ba) i;
     ps \<leftarrow> lb_pos (ba_batch ba);
     p \<leftarrow> vget ps i;
     foldM (couple_seq p s0) (enumerate 0 ss) ba }"

definition add_seq_set :: "nat \<Rightarrow> batch_allocr \<times> seq_set_t \<Rightarrow> (batch_allocr \<times> seq_set_t) option" where
  "add_seq_set i = (\<lambda>(ba, unq). do {
     ss \<leftarrow> batch_seqs (ba_batch ba) i;
     check (\<forall>s \<in> set ss. seq_id_ok s);
     let cur = set ss;
     Some (ba\<lparr>ba_seq_set := ba_seq_set ba @ [cur],
              ba_seq_set_map := (ba_seq_set_map ba)(cur := ba_seq_set_map ba cur @ [i])\<rparr>, unq \<union> cur) })"

definition index_seqs :: "nat \<Rightarrow> seq_set_t \<Rightarrow> int list \<Rightarrow> (int list \<times> llama_seq_id list) option" where
  "index_seqs n_seq_max unq idx = foldM (\<lambda>s (idx, ids).
     if int s \<in> unq then do { idx \<leftarrow> vset idx s (int (length ids)); Some (idx, ids @ [int s]) } else Some (idx, ids))
     [0..<n_seq_max] (idx, [])"

definition ba_stats :: "batch_allocr \<Rightarrow> batch_allocr option" where
  "ba_stats ba = do {
     let n = ba_n_tokens ba;
     n_out \<leftarrow> count_outputs (ba_batch ba);
     ba \<leftarrow> foldM couple_token [0..<n] (ba\<lparr>ba_n_outputs := n_out, ba_has_cpl := False\<rparr>);
     (ba, unq) \<leftarrow> foldM add_seq_set [0..<n] (ba, {});
     (idx, ids) \<leftarrow> index_seqs (ba_n_seq_max ba) unq (ba_seq_idx ba);
     Some (ba\<lparr>ba_seq_idx := idx, ba_seq_id_unq := ids\<rparr>) }"

section \<open>Consistency\<close>

definition seq_max_of :: "memory_i option \<Rightarrow> llama_seq_id \<Rightarrow> llama_pos option" where
  "seq_max_of memory s = (case memory of None \<Rightarrow> Some (- 1) | Some m \<Rightarrow> mi_seq_pos_max m s)"

definition seq_consistent :: "memory_i option \<Rightarrow> batch_allocr \<Rightarrow> nat \<Rightarrow> bool option" where
  "seq_consistent memory ba s' =
     (let s = int s' in
      if ba_seq_pos ba s = {} then Some True
      else do {
        p0 \<leftarrow> seq_max_of memory s;
        Some (if ba_n_pos_per_embd ba > 1 then
                (if lb_token (ba_batch ba) \<noteq> None then \<not> (p0 \<ge> 0 \<and> p0 \<ge> ba_seq_pos_min ba s)
                 else \<not> (p0 \<ge> 0 \<and> p0 > ba_seq_pos_min ba s))
              else \<not> (p0 \<ge> 0 \<and> ba_seq_pos_min ba s \<noteq> p0 + 1)
                \<and> \<not> (ba_seq_pos_max ba s - ba_seq_pos_min ba s + 1 > int (card (ba_seq_pos ba s)))) })"

definition all_seqs_consistent :: "memory_i option \<Rightarrow> batch_allocr \<Rightarrow> bool option" where
  "all_seqs_consistent memory ba =
     foldM (\<lambda>s ok. if \<not> ok then Some False else seq_consistent memory ba s) [0..<ba_n_seq_max ba] True"

definition coupled_agree :: "memory_i \<Rightarrow> batch_allocr \<Rightarrow> nat \<Rightarrow> nat \<Rightarrow> bool option" where
  "coupled_agree m ba s0 s1 =
     (if \<not> ba_seq_cpl ba (int s0) (int s1) then Some True
      else do {
        a0 \<leftarrow> mi_seq_pos_min m (int s0);
        a1 \<leftarrow> mi_seq_pos_min m (int s1);
        if a0 \<noteq> a1 then Some False
        else do {
          b0 \<leftarrow> mi_seq_pos_max m (int s0);
          b1 \<leftarrow> mi_seq_pos_max m (int s1);
          Some (b0 = b1) } })"

definition all_coupled_agree :: "memory_i option \<Rightarrow> batch_allocr \<Rightarrow> bool option" where
  "all_coupled_agree memory ba =
     (case memory of None \<Rightarrow> Some True
      | Some m \<Rightarrow> foldM (\<lambda>s0 ok. if \<not> ok then Some False
          else foldM (\<lambda>s1 ok. if \<not> ok then Some False else coupled_agree m ba s0 s1) [0..<ba_n_seq_max ba] True)
          [0..<ba_n_seq_max ba] True)"

text \<open>
  The last loop: \<^verbatim>\<open>cur_seq_set\<close> starts with all bits set and \<^verbatim>\<open>cur_seq_pos\<close> with -1, for every sequence.
\<close>

definition subset_step :: "batch_allocr \<Rightarrow> (llama_seq_id \<Rightarrow> llama_pos) \<Rightarrow> nat \<Rightarrow> bool \<times> (llama_seq_id \<Rightarrow> seq_set_t)
    \<Rightarrow> (bool \<times> (llama_seq_id \<Rightarrow> seq_set_t)) option" where
  "subset_step ba cur_seq_pos i = (\<lambda>(ok, cur_seq_set).
     if \<not> ok then Some (False, cur_seq_set)
     else do {
       ps \<leftarrow> lb_pos (ba_batch ba);
       p \<leftarrow> vget ps i;
       ss \<leftarrow> batch_seqs (ba_batch ba) i;
       foldM (\<lambda>s (ok, cur_seq_set).
         if \<not> ok then Some (False, cur_seq_set)
         else do {
           this \<leftarrow> vget (ba_seq_set ba) i;
           let cur_seq_set = cur_seq_set(s := cur_seq_set s \<inter> this);
           Some (cur_seq_set s \<noteq> {} \<and> \<not> p < cur_seq_pos s, cur_seq_set)
         }) ss (True, cur_seq_set) })"

definition subsets_ok :: "batch_allocr \<Rightarrow> bool option" where
  "subsets_ok ba = do {
     (ok, _) \<leftarrow> foldM (subset_step ba (\<lambda>_. - 1)) [0..<ba_n_tokens ba] (True, \<lambda>_. set all_seqs);
     Some ok }"

definition ba_init :: "llama_batch \<Rightarrow> nat \<Rightarrow> memory_i option \<Rightarrow> nat \<Rightarrow> nat \<Rightarrow> bool \<Rightarrow> batch_allocr \<Rightarrow> (bool \<times> batch_allocr) option" where
  "ba_init batch_inp n_vocab memory n_embd n_seq_max output_all ba = do {
     let ba = (ba_clear ba)\<lparr>ba_batch := batch_inp\<rparr>;
     check (lb_n_tokens batch_inp > 0);
     if n_seq_max > LLAMA_MAX_SEQ then Some (False, ba)
     else do {
       ok \<leftarrow> tokens_valid n_vocab batch_inp;
       if \<not> ok then Some (False, ba)
       else do {
         ok \<leftarrow> seq_ids_valid n_seq_max batch_inp;
         if \<not> ok then Some (False, ba)
         else do {
           b \<leftarrow> fill_pos n_seq_max memory (fill_seqs batch_inp);
           b \<leftarrow> fill_logits output_all b;
           ba \<leftarrow> ba_stats (ba\<lparr>ba_batch := b, ba_n_embd := n_embd, ba_n_seq_max := n_seq_max\<rparr>);
           ok \<leftarrow> all_seqs_consistent memory ba;
           if \<not> ok then Some (False, ba)
           else do {
             ok \<leftarrow> all_coupled_agree memory ba;
             if \<not> ok then Some (False, ba)
             else do {
               ok \<leftarrow> subsets_ok ba;
               if \<not> ok then Some (False, ba)
               else Some (True, ba_split_reset ba) } } } } } }"

section \<open>Micro-batches\<close>

definition mapM :: "('a \<Rightarrow> 'b option) \<Rightarrow> 'a list \<Rightarrow> 'b list option" where
  "mapM f xs = foldM (\<lambda>x ys. do { y \<leftarrow> f x; Some (ys @ [y]) }) xs []"

text \<open>One section of positions: the text of a batch has one position per token for all sections.\<close>

definition pos_section :: "llama_batch \<Rightarrow> nat list \<Rightarrow> nat \<Rightarrow> llama_pos list option" where
  "pos_section b idxs j = do {
     ps \<leftarrow> lb_pos b;
     mapM (\<lambda>idx. vget ps ((if lb_token b \<noteq> None then 0 else j * nat (lb_n_tokens b)) + idx)) idxs }"

definition embd_of :: "nat \<Rightarrow> int list \<Rightarrow> nat \<Rightarrow> int list option" where
  "embd_of n_embd embd idx = do {
     check (idx * n_embd + n_embd \<le> length embd);
     Some (take n_embd (drop (idx * n_embd) embd)) }"

definition ba_ubatch_add :: "nat list \<Rightarrow> nat \<Rightarrow> bool \<Rightarrow> batch_allocr \<Rightarrow> (ubatch \<times> batch_allocr) option" where
  "ba_ubatch_add idxs n_seqs equal_seqs ba = do {
     let b = ba_batch ba;
     let n_tokens = length idxs;
     check (n_seqs \<noteq> 0 \<and> n_tokens mod n_seqs = 0);
     token \<leftarrow> (case lb_token b of None \<Rightarrow> Some [] | Some toks \<Rightarrow> mapM (vget toks) idxs);
     embd \<leftarrow> (case lb_embd b of None \<Rightarrow> Some [] | Some e \<Rightarrow> map_option concat (mapM (embd_of (ba_n_embd ba) e) idxs));
     poss \<leftarrow> mapM (pos_section b idxs) [0..<ba_n_pos_per_embd ba];
     ns \<leftarrow> (case lb_n_seq_id b of None \<Rightarrow> None | Some ns \<Rightarrow> mapM (vget ns) idxs);
     out \<leftarrow> (case lb_logits b of None \<Rightarrow> None | Some out \<Rightarrow> mapM (vget out) idxs);
     seqs \<leftarrow> mapM (batch_seqs b) idxs;
     check (\<forall>ss \<in> set seqs. \<forall>s \<in> set ss. seq_id_ok s);
     (idx, ids) \<leftarrow> index_seqs (ba_n_seq_max ba) (\<Union> (set ` set seqs)) (replicate LLAMA_MAX_SEQ (- 1));
     Some (\<lparr>ub_equal_seqs = equal_seqs, ub_n_tokens = n_tokens, ub_n_seq_tokens = n_tokens div n_seqs, ub_n_seqs = n_seqs,
         ub_n_seqs_unq = length ids, ub_n_pos = ba_n_pos_per_embd ba, ub_token = token, ub_embd = embd, ub_pos = concat poss,
         ub_n_seq_id = ns, ub_seq_id = seqs, ub_seq_id_unq = ids, ub_seq_idx = idx, ub_output = out\<rparr>,
       ba\<lparr>ba_out_ids := ba_out_ids ba @ map snd (filter fst (zip out idxs))\<rparr>) }"

text \<open>A micro-batch with default values for every field, for \<^verbatim>\<open>return {}\<close> and for reserving a graph.\<close>

definition ub_none :: ubatch where
  "ub_none = \<lparr>ub_equal_seqs = False, ub_n_tokens = 0, ub_n_seq_tokens = 0, ub_n_seqs = 0, ub_n_seqs_unq = 0, ub_n_pos = 0,
     ub_token = [], ub_embd = [], ub_pos = [], ub_n_seq_id = [], ub_seq_id = [], ub_seq_id_unq = [], ub_seq_idx = [], ub_output = []\<rparr>"

definition ba_ubatch_reserve :: "nat \<Rightarrow> nat \<Rightarrow> batch_allocr \<Rightarrow> (ubatch \<times> batch_allocr) option" where
  "ba_ubatch_reserve n_seq_tokens n_seqs ba = do {
     let n_tokens = n_seq_tokens * n_seqs;
     let ba = ba_split_reset (ba_clear ba);
     check (n_seqs \<le> LLAMA_MAX_SEQ);
     Some (\<lparr>ub_equal_seqs = True, ub_n_tokens = n_tokens, ub_n_seq_tokens = n_seq_tokens, ub_n_seqs = n_seqs,
         ub_n_seqs_unq = n_seqs, ub_n_pos = ba_n_pos_per_embd ba, ub_token = replicate n_tokens 0, ub_embd = [],
         ub_pos = replicate (n_tokens * ba_n_pos_per_embd ba) 0, ub_n_seq_id = replicate n_tokens 0,
         ub_seq_id = replicate n_tokens [], ub_seq_id_unq = map int [0..<n_seqs],
         ub_seq_idx = map int [0..<n_seqs] @ replicate (LLAMA_MAX_SEQ - n_seqs) (- 1), ub_output = replicate n_tokens False\<rparr>, ba) }"

section \<open>Splitting\<close>

definition use_token :: "nat \<Rightarrow> batch_allocr \<Rightarrow> batch_allocr option" where
  "use_token i ba = do {
     used \<leftarrow> vset (ba_used ba) i True;
     Some (ba\<lparr>ba_used := used, ba_n_used := ba_n_used ba + 1\<rparr>) }"

definition first_unused :: "batch_allocr \<Rightarrow> nat" where
  "first_unused ba = length (takeWhile (\<lambda>u. u) (ba_used ba))"

text \<open>The loop of \<open>split_simple\<close>: the tokens from \<open>cur\<close> on; \<open>n\<close> is the number of tokens behind \<open>cur\<close>.\<close>

fun simple_loop :: "nat \<Rightarrow> nat \<Rightarrow> nat \<Rightarrow> nat list \<Rightarrow> batch_allocr \<Rightarrow> (nat list \<times> batch_allocr) option" where
  "simple_loop n_ubatch 0 cur idxs ba = do {
     ba \<leftarrow> use_token cur ba;
     Some (idxs @ [cur], ba) }"
| "simple_loop n_ubatch (Suc n) cur idxs ba = do {
     ba \<leftarrow> use_token cur ba;
     if length (idxs @ [cur]) \<ge> n_ubatch then Some (idxs @ [cur], ba)
     else simple_loop n_ubatch n (cur + 1) (idxs @ [cur]) ba }"

definition ba_split_simple :: "nat \<Rightarrow> batch_allocr \<Rightarrow> (ubatch \<times> batch_allocr) option" where
  "ba_split_simple n_ubatch ba =
     (let cur = first_unused ba in
      if cur \<ge> length (ba_used ba) then Some (ub_none, ba)
      else do {
        (idxs, ba) \<leftarrow> simple_loop n_ubatch (length (ba_used ba) - cur - 1) cur [] ba;
        ba_ubatch_add idxs (length idxs) False ba })"

text \<open>The sequence sets of an equal split. The state is the sets, the last sequence id, and whether the loop was left.\<close>

definition pick_set :: "nat \<Rightarrow> bool \<Rightarrow> batch_allocr \<Rightarrow> nat \<Rightarrow> seq_set_t list \<times> llama_seq_id \<times> bool
    \<Rightarrow> (seq_set_t list \<times> llama_seq_id \<times> bool) option" where
  "pick_set n_ubatch sequential ba i = (\<lambda>(sets, last_id, stop).
     if stop then Some (sets, last_id, stop)
     else do {
       u \<leftarrow> vget (ba_used ba) i;
       if u then Some (sets, last_id, stop)
       else do {
         this \<leftarrow> vget (ba_seq_set ba) i;
         s0 \<leftarrow> batch_seq0 (ba_batch ba) i;
         let add = (\<forall>t \<in> set sets. t \<inter> this = {}) \<and> (sequential \<longrightarrow> sets = [] \<or> s0 = last_id + 1);
         if add then Some (sets @ [this], s0, length (sets @ [this]) > n_ubatch)
         else Some (sets, last_id, stop) } })"

fun skip_used :: "bool list \<Rightarrow> nat list \<Rightarrow> nat option" where
  "skip_used used [] = None"
| "skip_used used (i # is) = do {
     u \<leftarrow> vget used i;
     if u then map_option Suc (skip_used used is) else Some 0 }"

text \<open>One token for every set; the state is the positions in the sets, their indices so far, the allocator.\<close>

definition take_one :: "seq_set_t list \<Rightarrow> nat \<Rightarrow> nat list \<times> nat list list \<times> batch_allocr
    \<Rightarrow> (nat list \<times> nat list list \<times> batch_allocr) option" where
  "take_one sets s = (\<lambda>(cur, rows, ba). do {
     k \<leftarrow> vget cur s;
     t \<leftarrow> vget sets s;
     i \<leftarrow> vget (ba_seq_set_map ba t) k;
     r \<leftarrow> vget rows s;
     ba \<leftarrow> use_token i ba;
     Some (cur[s := k + 1], rows[s := r @ [i]], ba) })"

text \<open>The rounds; every round uses a token, so that there are at most as many as the batch has tokens.\<close>

fun equal_loop :: "nat \<Rightarrow> seq_set_t list \<Rightarrow> nat \<Rightarrow> nat list \<times> nat list list \<times> batch_allocr
    \<Rightarrow> (nat list list \<times> batch_allocr) option" where
  "equal_loop n_ubatch sets 0 st = None"
| "equal_loop n_ubatch sets (Suc fuel) (cur, rows, ba) =
     (if \<not> (\<forall>s < length sets. cur ! s < length (ba_seq_set_map ba (sets ! s))) then Some (rows, ba)
      else do {
        (cur, rows, ba) \<leftarrow> foldM (take_one sets) [0..<length sets] (cur, rows, ba);
        r0 \<leftarrow> vget rows 0;
        if (length r0 + 1) * length sets > n_ubatch then Some (rows, ba)
        else equal_loop n_ubatch sets fuel (cur, rows, ba) })"

definition ba_split_equal :: "nat \<Rightarrow> bool \<Rightarrow> batch_allocr \<Rightarrow> (ubatch \<times> batch_allocr) option" where
  "ba_split_equal n_ubatch sequential ba =
     (if sequential \<and> ba_has_cpl ba then Some (ub_none, ba)
      else do {
        (sets, _) \<leftarrow> foldM (pick_set n_ubatch sequential ba) [0..<ba_n_tokens ba] ([], - 1, False);
        if sets = [] then Some (ub_none, ba)
        else do {
          cur \<leftarrow> mapM (\<lambda>t. skip_used (ba_used ba) (ba_seq_set_map ba t)) sets;
          (rows, ba) \<leftarrow> equal_loop n_ubatch sets (Suc (ba_n_tokens ba)) (cur, replicate (length sets) [], ba);
          ba_ubatch_add (concat rows) (length sets) True ba } })"

text \<open>The next unused token from \<open>cur\<close> on whose set is contained in the current one; \<open>n\<close> tokens are left.\<close>

fun next_subset :: "nat \<Rightarrow> nat \<Rightarrow> seq_set_t \<Rightarrow> batch_allocr \<Rightarrow> nat option" where
  "next_subset 0 cur t ba = Some cur"
| "next_subset (Suc n) cur t ba = do {
     u \<leftarrow> vget (ba_used ba) cur;
     this \<leftarrow> vget (ba_seq_set ba) cur;
     if u \<or> t \<inter> this \<noteq> this then next_subset n (cur + 1) t ba else Some cur }"

text \<open>The loop of \<open>split_seq\<close>; \<open>fuel\<close> bounds the tokens of one micro-batch.\<close>

fun seq_loop :: "nat \<Rightarrow> nat \<Rightarrow> nat \<Rightarrow> seq_set_t \<Rightarrow> nat list \<Rightarrow> batch_allocr \<Rightarrow> (nat list \<times> batch_allocr) option" where
  "seq_loop n_ubatch 0 cur t idxs ba = None"
| "seq_loop n_ubatch (Suc fuel) cur t idxs ba = do {
     ba \<leftarrow> use_token cur ba;
     let idxs = idxs @ [cur];
     if length idxs \<ge> n_ubatch then Some (idxs, ba)
     else do {
       cur \<leftarrow> next_subset (ba_n_tokens ba - (cur + 1)) (cur + 1) t ba;
       if cur = ba_n_tokens ba then Some (idxs, ba)
       else do {
         t \<leftarrow> vget (ba_seq_set ba) cur;
         seq_loop n_ubatch fuel cur t idxs ba } } }"

definition ba_split_seq :: "nat \<Rightarrow> batch_allocr \<Rightarrow> (ubatch \<times> batch_allocr) option" where
  "ba_split_seq n_ubatch ba =
     (let cur = first_unused ba in
      if cur \<ge> length (ba_used ba) then Some (ub_none, ba)
      else do {
        t \<leftarrow> vget (ba_seq_set ba) cur;
        (idxs, ba) \<leftarrow> seq_loop n_ubatch (Suc (ba_n_tokens ba)) cur t [] ba;
        ba_ubatch_add idxs 1 True ba })"

text \<open>The loop of \<^verbatim>\<open>init_batch\<close> of the memories, which splits until an empty micro-batch comes back.\<close>

fun split_all :: "(batch_allocr \<Rightarrow> (ubatch \<times> batch_allocr) option) \<Rightarrow> nat \<Rightarrow> batch_allocr
    \<Rightarrow> (ubatch list \<times> batch_allocr) option" where
  "split_all split 0 ba = None"
| "split_all split (Suc fuel) ba = do {
     (ub, ba) \<leftarrow> split ba;
     if ub_n_tokens ub = 0 then Some ([], ba)
     else do {
       (ubs, ba) \<leftarrow> split_all split fuel ba;
       Some (ub # ubs, ba) } }"

end
