(* ===== verification/Batch_Split.thy ===== *)
theory Batch_Split
  imports Batch
begin

text \<open>
  Splitting a batch: what \<open>ubatch_add\<close> puts into a micro-batch, and the locale of a splitting method, whose
  repetition hands out every token of the batch exactly once. The three methods of
  \<^verbatim>\<open>llama_batch_allocr\<close> are its interpretations.
\<close>

section \<open>A consistent allocator\<close>

definition token_seqs_of :: "llama_batch \<Rightarrow> nat \<Rightarrow> llama_seq_id list" where
  "token_seqs_of b i = take (the (lb_n_seq_id b) ! i) (the (lb_seq_id b) ! i)"

text \<open>All fields are there, long enough, and every token has a sequence in range.\<close>

definition batch_ok :: "nat \<Rightarrow> nat \<Rightarrow> nat \<Rightarrow> llama_batch \<Rightarrow> bool" where
  "batch_ok n_pos n_embd n_seq_max b \<longleftrightarrow>
     0 < lb_n_tokens b \<and> n_seq_max \<le> LLAMA_MAX_SEQ
     \<and> (\<forall>toks. lb_token b = Some toks \<longrightarrow> nat (lb_n_tokens b) \<le> length toks)
     \<and> (\<forall>e. lb_embd b = Some e \<longrightarrow> nat (lb_n_tokens b) * n_embd \<le> length e)
     \<and> (\<exists>ps. lb_pos b = Some ps \<and> nat (lb_n_tokens b) \<le> length ps
          \<and> (lb_token b = None \<longrightarrow> n_pos * nat (lb_n_tokens b) \<le> length ps))
     \<and> (\<exists>ns ids. lb_n_seq_id b = Some ns \<and> lb_seq_id b = Some ids \<and> nat (lb_n_tokens b) \<le> length ns
          \<and> nat (lb_n_tokens b) \<le> length ids \<and> (\<forall>i < nat (lb_n_tokens b). 0 < ns ! i \<and> ns ! i \<le> length (ids ! i)))
     \<and> (\<exists>out. lb_logits b = Some out \<and> nat (lb_n_tokens b) \<le> length out)
     \<and> (\<forall>i < nat (lb_n_tokens b). \<forall>s \<in> set (token_seqs_of b i). 0 \<le> s \<and> s < int n_seq_max)"

definition ba_ok :: "batch_allocr \<Rightarrow> bool" where
  "ba_ok ba \<longleftrightarrow> batch_ok (ba_n_pos_per_embd ba) (ba_n_embd ba) (ba_n_seq_max ba) (ba_batch ba)
     \<and> ba_seq_set ba = map (\<lambda>i. set (token_seqs_of (ba_batch ba) i)) [0..<ba_n_tokens ba]
     \<and> (\<forall>t. ba_seq_set_map ba t = filter (\<lambda>i. set (token_seqs_of (ba_batch ba) i) = t) [0..<ba_n_tokens ba])
     \<and> length (ba_used ba) = ba_n_tokens ba"

lemma batch_okD:
  assumes "batch_ok n_pos n_embd m b"
  shows "m \<le> LLAMA_MAX_SEQ" "\<forall>toks. lb_token b = Some toks \<longrightarrow> nat (lb_n_tokens b) \<le> length toks"
    "\<forall>e. lb_embd b = Some e \<longrightarrow> nat (lb_n_tokens b) * n_embd \<le> length e"
    "\<exists>ps. lb_pos b = Some ps \<and> nat (lb_n_tokens b) \<le> length ps \<and> (lb_token b = None \<longrightarrow> n_pos * nat (lb_n_tokens b) \<le> length ps)"
    "\<exists>ns ids. lb_n_seq_id b = Some ns \<and> lb_seq_id b = Some ids \<and> nat (lb_n_tokens b) \<le> length ns
       \<and> nat (lb_n_tokens b) \<le> length ids \<and> (\<forall>i < nat (lb_n_tokens b). 0 < ns ! i \<and> ns ! i \<le> length (ids ! i))"
    "\<exists>out. lb_logits b = Some out \<and> nat (lb_n_tokens b) \<le> length out"
    "\<And>i s. i < nat (lb_n_tokens b) \<Longrightarrow> s \<in> set (token_seqs_of b i) \<Longrightarrow> 0 \<le> s \<and> s < int m"
  using assms unfolding batch_ok_def by - (elim conjE, assumption | blast)+

lemma batch_seqs_ok:
  assumes "batch_ok n_pos n_embd m b" and "i < nat (lb_n_tokens b)"
  shows "batch_seqs b i = Some (token_seqs_of b i)" "batch_seq0 b i = Some (hd (token_seqs_of b i))" "token_seqs_of b i \<noteq> []"
    "\<forall>s \<in> set (token_seqs_of b i). seq_id_ok s \<and> s < int m"
proof -
  from assms obtain ns ids where f: "lb_n_seq_id b = Some ns" "lb_seq_id b = Some ids" "i < length ns" "i < length ids"
    "0 < ns ! i" "ns ! i \<le> length (ids ! i)" using batch_okD(5) [OF assms(1)] by force
  then show "batch_seqs b i = Some (token_seqs_of b i)" "token_seqs_of b i \<noteq> []"
    by (auto simp: batch_seqs_def token_seqs_of_def vget_def)
  from f have "ids ! i \<noteq> []" by auto
  with f show "batch_seq0 b i = Some (hd (token_seqs_of b i))"
    by (simp add: batch_seq0_def token_seqs_of_def vget_def hd_conv_nth)
  show "\<forall>s \<in> set (token_seqs_of b i). seq_id_ok s \<and> s < int m"
    using batch_okD(1,7) [OF assms(1)] assms(2) by (force simp: seq_id_ok_def)
qed

section \<open>Gathering\<close>

lemma mapM_map: "(\<And>x. x \<in> set xs \<Longrightarrow> f x = Some (g x)) \<Longrightarrow> mapM f xs = Some (map g xs)"
proof -
  assume f: "\<And>x. x \<in> set xs \<Longrightarrow> f x = Some (g x)"
  have "foldM (\<lambda>x ys. do { y \<leftarrow> f x; Some (ys @ [y]) }) xs ys = Some (ys @ map g xs)" for ys
    using f by (induction xs arbitrary: ys) auto
  then show ?thesis by (simp add: mapM_def)
qed

lemma index_seqs_ok:
  assumes "m \<le> length idx"
  shows "\<exists>idx'. index_seqs m unq idx = Some (idx', filter (\<lambda>s. s \<in> unq) (map int [0..<m]))"
proof -
  have "\<exists>r. foldM (\<lambda>s (idx, ids). if int s \<in> unq
        then do { idx \<leftarrow> vset idx s (int (length ids)); Some (idx, ids @ [int s]) } else Some (idx, ids)) [0..<m] (idx, []) = Some r
      \<and> (length (fst r) = length idx \<and> snd r = filter (\<lambda>s. s \<in> unq) (map int [0..<m]))"
    by (rule foldM_upt_total [where I = "\<lambda>k r. length (fst r) = length idx \<and> snd r = filter (\<lambda>s. s \<in> unq) (map int [0..<k])"])
      (use assms in \<open>auto simp: vset_def\<close>)
  then show ?thesis by (auto simp: index_seqs_def)
qed

definition gathers :: "batch_allocr \<Rightarrow> nat list \<Rightarrow> ubatch \<Rightarrow> bool" where
  "gathers ba idxs ub \<longleftrightarrow> ub_n_tokens ub = length idxs
     \<and> ub_token ub = (case lb_token (ba_batch ba) of None \<Rightarrow> [] | Some toks \<Rightarrow> map ((!) toks) idxs)
     \<and> ub_n_pos ub = ba_n_pos_per_embd ba
     \<and> ub_pos ub = concat (map (\<lambda>j. map (\<lambda>i. the (lb_pos (ba_batch ba))
          ! ((if lb_token (ba_batch ba) \<noteq> None then 0 else j * ba_n_tokens ba) + i)) idxs) [0..<ba_n_pos_per_embd ba])
     \<and> ub_n_seq_id ub = map ((!) (the (lb_n_seq_id (ba_batch ba)))) idxs
     \<and> ub_seq_id ub = map (token_seqs_of (ba_batch ba)) idxs
     \<and> ub_seq_id_unq ub = filter (\<lambda>s. \<exists>i \<in> set idxs. s \<in> set (token_seqs_of (ba_batch ba) i)) (map int [0..<ba_n_seq_max ba])
     \<and> ub_n_seqs_unq ub = length (ub_seq_id_unq ub)
     \<and> ub_output ub = map ((!) (the (lb_logits (ba_batch ba)))) idxs"

lemma zip_filter_map: "map snd (filter fst (zip (map f xs) xs)) = filter f xs"
  by (induction xs) auto

lemma ubatch_add_ok:
  assumes ok: "ba_ok ba" and idxs: "\<forall>i \<in> set idxs. i < ba_n_tokens ba" and n: "n_seqs \<noteq> 0" "length idxs mod n_seqs = 0"
  shows "\<exists>ub. ba_ubatch_add idxs n_seqs equal_seqs ba = Some (ub,
        ba\<lparr>ba_out_ids := ba_out_ids ba @ filter ((!) (the (lb_logits (ba_batch ba)))) idxs\<rparr>)
      \<and> gathers ba idxs ub \<and> ub_n_seqs ub = n_seqs \<and> ub_n_seq_tokens ub = length idxs div n_seqs \<and> ub_equal_seqs ub = equal_seqs"
proof -
  let ?b = "ba_batch ba" and ?n = "ba_n_tokens ba"
  have bok: "batch_ok (ba_n_pos_per_embd ba) (ba_n_embd ba) (ba_n_seq_max ba) ?b" using ok by (simp add: ba_ok_def)
  note B = batch_okD [OF bok, folded ba_n_tokens_def]
  obtain ps where ps: "lb_pos ?b = Some ps" "?n \<le> length ps" "lb_token ?b = None \<longrightarrow> ba_n_pos_per_embd ba * ?n \<le> length ps"
    using B(4) by (elim exE conjE) (rule that)
  obtain ns ids where ns: "lb_n_seq_id ?b = Some ns" "lb_seq_id ?b = Some ids" "?n \<le> length ns" using B(5) by (elim exE conjE) (rule that)
  obtain out where out: "lb_logits ?b = Some out" "?n \<le> length out" using B(6) by (elim exE conjE) (rule that)
  have i: "i < nat (lb_n_tokens ?b)" "i < ?n" if "i \<in> set idxs" for i using idxs that by (auto simp: ba_n_tokens_def)
  have tok: "(case lb_token ?b of None \<Rightarrow> Some [] | Some toks \<Rightarrow> mapM (vget toks) idxs)
      = Some (case lb_token ?b of None \<Rightarrow> [] | Some toks \<Rightarrow> map ((!) toks) idxs)"
    using B(2) i by (cases "lb_token ?b") (auto intro!: mapM_map simp: vget_def dest!: i(2))
  have "\<exists>e. (case lb_embd ?b of None \<Rightarrow> Some [] | Some e \<Rightarrow> map_option concat (mapM (embd_of (ba_n_embd ba) e) idxs)) = Some e"
  proof (cases "lb_embd ?b")
    case (Some e)
    have "embd_of (ba_n_embd ba) e k = Some (take (ba_n_embd ba) (drop (k * ba_n_embd ba) e))" if "k \<in> set idxs" for k
    proof -
      have "Suc k * ba_n_embd ba \<le> ?n * ba_n_embd ba" using i [OF that] by (intro mult_le_mono1) simp
      then have "k * ba_n_embd ba + ba_n_embd ba \<le> length e" using B(3) Some by (simp add: ac_simps)
      then show ?thesis by (simp add: embd_of_def)
    qed
    then have "mapM (embd_of (ba_n_embd ba) e) idxs = Some (map (\<lambda>k. take (ba_n_embd ba) (drop (k * ba_n_embd ba) e)) idxs)"
      by (rule mapM_map)
    with Some show ?thesis by simp
  qed simp
  then obtain embd where embd: "(case lb_embd ?b of None \<Rightarrow> Some [] | Some e \<Rightarrow> map_option concat (mapM (embd_of (ba_n_embd ba) e) idxs)) = Some embd" ..
  have "pos_section ?b idxs j = Some (map (\<lambda>i. ps ! ((if lb_token ?b \<noteq> None then 0 else j * ?n) + i)) idxs)"
    if "j < ba_n_pos_per_embd ba" for j
  proof -
    have "(if lb_token ?b \<noteq> None then 0 else j * ?n) + k < length ps" if "k \<in> set idxs" for k
    proof (cases "lb_token ?b")
      case None
      have "Suc j * ?n \<le> ba_n_pos_per_embd ba * ?n" using \<open>j < _\<close> by (intro mult_le_mono1) simp
      with None ps(3) i [OF that] show ?thesis by simp
    qed (use ps(2) i [OF that] in simp)
    then show ?thesis using ps(1) by (auto simp: pos_section_def vget_def ba_n_tokens_def intro!: mapM_map)
  qed
  then have pos: "mapM (pos_section ?b idxs) [0..<ba_n_pos_per_embd ba]
      = Some (map (\<lambda>j. map (\<lambda>i. ps ! ((if lb_token ?b \<noteq> None then 0 else j * ?n) + i)) idxs) [0..<ba_n_pos_per_embd ba])"
    by (intro mapM_map) simp
  have "mapM (vget ns) idxs = Some (map ((!) ns) idxs)" "mapM (vget out) idxs = Some (map ((!) out) idxs)"
    "mapM (batch_seqs ?b) idxs = Some (map (token_seqs_of ?b) idxs)"
    using ns out i batch_seqs_ok(1) [OF bok] by (force intro!: mapM_map simp: vget_def)+
  moreover have "\<forall>ss \<in> set (map (token_seqs_of ?b) idxs). \<forall>s \<in> set ss. seq_id_ok s"
    using batch_seqs_ok(4) [OF bok] i by auto
  moreover obtain idx where "index_seqs (ba_n_seq_max ba) (\<Union> (set ` set (map (token_seqs_of ?b) idxs))) (replicate LLAMA_MAX_SEQ (- 1))
      = Some (idx, filter (\<lambda>s. s \<in> \<Union> (set ` set (map (token_seqs_of ?b) idxs))) (map int [0..<ba_n_seq_max ba]))"
    using index_seqs_ok [of "ba_n_seq_max ba" "replicate LLAMA_MAX_SEQ (- 1)" "\<Union> (set ` set (map (token_seqs_of ?b) idxs))"] B(1)
    by auto
  ultimately show ?thesis
    using n tok embd pos ns(1) out(1) ps(1)
    by (simp add: ba_ubatch_add_def Let_def gathers_def zip_filter_map)
qed

section \<open>Handing out tokens\<close>

definition unused :: "batch_allocr \<Rightarrow> nat set" where
  "unused ba = {i. i < length (ba_used ba) \<and> \<not> ba_used ba ! i}"

definition took :: "batch_allocr \<Rightarrow> nat list \<Rightarrow> batch_allocr \<Rightarrow> bool" where
  "took ba idxs ba' \<longleftrightarrow> distinct idxs \<and> set idxs \<subseteq> unused ba
     \<and> ba' = ba\<lparr>ba_used := map (\<lambda>i. ba_used ba ! i \<or> i \<in> set idxs) [0..<length (ba_used ba)],
              ba_n_used := ba_n_used ba + length idxs\<rparr>"

lemma finite_unused [simp]: "finite (unused ba)"
  by (simp add: unused_def)

lemma n_tokens_update [simp]:
  "ba_n_tokens (ba\<lparr>ba_used := u, ba_n_used := n\<rparr>) = ba_n_tokens ba" "ba_n_tokens (ba\<lparr>ba_out_ids := x\<rparr>) = ba_n_tokens ba"
  by (simp_all add: ba_n_tokens_def)

lemma gathers_update [simp]:
  "gathers (ba\<lparr>ba_used := u, ba_n_used := n\<rparr>) = gathers ba" "gathers (ba\<lparr>ba_out_ids := x\<rparr>) = gathers ba"
  by (simp_all add: gathers_def fun_eq_iff cong: if_cong)

lemma ba_ok_update [simp]:
  "length u = length (ba_used ba) \<Longrightarrow> ba_ok (ba\<lparr>ba_used := u, ba_n_used := n\<rparr>) = ba_ok ba" "ba_ok (ba\<lparr>ba_out_ids := x\<rparr>) = ba_ok ba"
  by (simp_all add: ba_ok_def)

lemma unused_update [simp]:
  "unused (ba\<lparr>ba_used := u, ba_n_used := n\<rparr>) = {i. i < length u \<and> \<not> u ! i}" "unused (ba\<lparr>ba_out_ids := x\<rparr>) = unused ba"
  by (simp_all add: unused_def)

lemma tookD:
  assumes "took ba idxs ba'"
  shows "unused ba' = unused ba - set idxs" "ba_n_used ba' = ba_n_used ba + length idxs" "distinct idxs" "set idxs \<subseteq> unused ba"
    "length (ba_used ba') = length (ba_used ba)" "ba_batch ba' = ba_batch ba" "ba_seq_set ba' = ba_seq_set ba"
    "ba_seq_set_map ba' = ba_seq_set_map ba" "ba_out_ids ba' = ba_out_ids ba" "ba_ok ba' = ba_ok ba" "ba_n_tokens ba' = ba_n_tokens ba"
    "ba_has_cpl ba' = ba_has_cpl ba"
  using assms by (auto simp: took_def) (auto simp: unused_def)

lemma took_Nil: "took ba [] ba"
  by (simp add: took_def map_nth)

lemma took_append:
  assumes "took ba xs b1" and "took b1 ys b2"
  shows "took ba (xs @ ys) b2"
proof -
  have "map (\<lambda>i. ba_used b1 ! i \<or> i \<in> set ys) [0..<length (ba_used b1)]
      = map (\<lambda>i. ba_used ba ! i \<or> i \<in> set (xs @ ys)) [0..<length (ba_used ba)]"
    using assms(1) by (auto simp: took_def intro!: nth_equalityI)
  with assms tookD(1) [OF assms(1)] show ?thesis by (auto simp: took_def)
qed

lemma use_token_ok:
  assumes "i \<in> unused ba"
  shows "\<exists>ba'. use_token i ba = Some ba' \<and> took ba [i] ba'"
proof -
  have "(ba_used ba)[i := True] = map (\<lambda>k. ba_used ba ! k \<or> k \<in> set [i]) [0..<length (ba_used ba)]"
    by (rule nth_equalityI) (auto simp: nth_list_update_if)
  with assms show ?thesis by (simp add: use_token_def took_def vset_def) (simp add: unused_def)
qed

text \<open>A whole step: tokens taken, their outputs noted.\<close>

definition handed :: "batch_allocr \<Rightarrow> nat list \<Rightarrow> batch_allocr \<Rightarrow> bool" where
  "handed ba idxs ba' \<longleftrightarrow> (\<exists>b1. took ba idxs b1
     \<and> ba' = b1\<lparr>ba_out_ids := ba_out_ids ba @ filter ((!) (the (lb_logits (ba_batch ba)))) idxs\<rparr>)"

lemma handedD:
  assumes "handed ba idxs ba'"
  shows "unused ba' = unused ba - set idxs" "ba_n_used ba' = ba_n_used ba + length idxs" "distinct idxs" "set idxs \<subseteq> unused ba"
    "length (ba_used ba') = length (ba_used ba)" "ba_batch ba' = ba_batch ba" "ba_seq_set ba' = ba_seq_set ba"
    "ba_seq_set_map ba' = ba_seq_set_map ba" "ba_ok ba' = ba_ok ba" "ba_n_tokens ba' = ba_n_tokens ba"
    "ba_has_cpl ba' = ba_has_cpl ba" "gathers ba' = gathers ba"
    "ba_out_ids ba' = ba_out_ids ba @ filter ((!) (the (lb_logits (ba_batch ba)))) idxs"
proof -
  from assms obtain b1 where t: "took ba idxs b1"
    "ba' = b1\<lparr>ba_out_ids := ba_out_ids ba @ filter ((!) (the (lb_logits (ba_batch ba)))) idxs\<rparr>" by (auto simp: handed_def)
  moreover have "gathers b1 = gathers ba" using t(1) by (simp add: took_def)
  ultimately show "unused ba' = unused ba - set idxs" "ba_n_used ba' = ba_n_used ba + length idxs" "distinct idxs" "set idxs \<subseteq> unused ba"
    "length (ba_used ba') = length (ba_used ba)" "ba_batch ba' = ba_batch ba" "ba_seq_set ba' = ba_seq_set ba"
    "ba_seq_set_map ba' = ba_seq_set_map ba" "ba_ok ba' = ba_ok ba" "ba_n_tokens ba' = ba_n_tokens ba"
    "ba_has_cpl ba' = ba_has_cpl ba" "gathers ba' = gathers ba"
    "ba_out_ids ba' = ba_out_ids ba @ filter ((!) (the (lb_logits (ba_batch ba)))) idxs"
    using tookD [OF t(1)] by simp_all
qed

lemma hand_out:
  assumes "took ba idxs b1" and "ba_ok ba" and "n_seqs \<noteq> 0" and "length idxs mod n_seqs = 0"
  shows "\<exists>ub ba'. ba_ubatch_add idxs n_seqs equal_seqs b1 = Some (ub, ba') \<and> handed ba idxs ba' \<and> gathers ba idxs ub
    \<and> ub_n_seqs ub = n_seqs \<and> ub_n_seq_tokens ub = length idxs div n_seqs \<and> ub_equal_seqs ub = equal_seqs"
proof -
  have ok: "ba_ok b1" using tookD(10) [OF assms(1)] assms(2) by simp
  have "\<forall>i \<in> set idxs. i < ba_n_tokens b1"
    using tookD(4,11) [OF assms(1)] assms(2) by (auto simp: unused_def ba_ok_def)
  moreover have "gathers b1 = gathers ba"
    using assms(1) by (simp add: took_def)
  ultimately obtain ub where "ba_ubatch_add idxs n_seqs equal_seqs b1 = Some (ub,
        b1\<lparr>ba_out_ids := ba_out_ids ba @ filter ((!) (the (lb_logits (ba_batch ba)))) idxs\<rparr>)"
      "gathers ba idxs ub" "ub_n_seqs ub = n_seqs" "ub_n_seq_tokens ub = length idxs div n_seqs" "ub_equal_seqs ub = equal_seqs"
    using ubatch_add_ok [OF ok _ assms(3,4), of equal_seqs] tookD(6,9) [OF assms(1)] by auto
  then show ?thesis using assms(1) unfolding handed_def by blast
qed

locale splitter =
  fixes split :: "batch_allocr \<Rightarrow> (ubatch \<times> batch_allocr) option"
    and inv :: "batch_allocr \<Rightarrow> bool"
    and shape :: "nat list \<Rightarrow> ubatch \<Rightarrow> bool"
  assumes done_law: "inv ba \<Longrightarrow> unused ba = {} \<Longrightarrow> split ba = Some (ub_none, ba)"
    and step_law: "inv ba \<Longrightarrow> unused ba \<noteq> {} \<Longrightarrow> \<exists>ub idxs ba'. split ba = Some (ub, ba') \<and> inv ba' \<and> idxs \<noteq> []
        \<and> handed ba idxs ba' \<and> gathers ba idxs ub \<and> shape idxs ub"
begin

lemma split_all_consumes:
  assumes "inv ba" and "card (unused ba) < fuel"
  shows "\<exists>ubs rows ba'. split_all split fuel ba = Some (ubs, ba') \<and> unused ba' = {}
    \<and> list_all2 (\<lambda>ub idxs. idxs \<noteq> [] \<and> gathers ba idxs ub \<and> shape idxs ub) ubs rows
    \<and> distinct (concat rows) \<and> set (concat rows) = unused ba
    \<and> ba_n_used ba' = ba_n_used ba + card (unused ba) \<and> ba_batch ba' = ba_batch ba
    \<and> ba_out_ids ba' = ba_out_ids ba @ filter ((!) (the (lb_logits (ba_batch ba)))) (concat rows)"
  using assms
proof (induction fuel arbitrary: ba)
  case (Suc fuel)
  show ?case
  proof (cases "unused ba = {}")
    case True
    with done_law [OF Suc.prems(1)] show ?thesis
      by (intro exI [of _ "[]"] exI [of _ ba]) (simp add: ub_none_def)
  next
    case False
    from step_law [OF Suc.prems(1) this] obtain ub idxs b1 where s: "split ba = Some (ub, b1)" "inv b1" "idxs \<noteq> []"
      "handed ba idxs b1" "gathers ba idxs ub" "shape idxs ub" by blast
    note H = handedD [OF s(4)]
    have card: "card (unused b1) + length idxs = card (unused ba)"
      using H(1,3,4) card_Diff_subset [of "set idxs" "unused ba"] card_mono [of "unused ba" "set idxs"] by (simp add: distinct_card)
    then have "card (unused b1) < fuel" using Suc.prems(2) s(3) by (cases idxs) auto
    from Suc.IH [OF s(2) this] obtain ubs rows ba' where r: "split_all split fuel b1 = Some (ubs, ba')" "unused ba' = {}"
      "list_all2 (\<lambda>ub idxs. idxs \<noteq> [] \<and> gathers ba idxs ub \<and> shape idxs ub) ubs rows"
      "distinct (concat rows)" "set (concat rows) = unused b1" "ba_n_used ba' = ba_n_used b1 + card (unused b1)"
      "ba_batch ba' = ba_batch b1" "ba_out_ids ba' = ba_out_ids b1 @ filter ((!) (the (lb_logits (ba_batch b1)))) (concat rows)"
      using H(12) by auto
    have "ub_n_tokens ub \<noteq> 0" using s(3,5) by (simp add: gathers_def)
    then show ?thesis using s r H card
      by (intro exI [of _ "ub # ubs"], intro exI [of _ "idxs # rows"], intro exI [of _ ba']) auto
  qed
qed simp

end

end
