(* ===== verification/Batch_Methods.thy ===== *)
theory Batch_Methods
  imports Batch_Split
begin

text \<open>
  The three ways to split (\<^verbatim>\<open>split_simple\<close>, \<^verbatim>\<open>split_seq\<close>, \<^verbatim>\<open>split_equal\<close>) as interpretations of \<open>splitter\<close>, each with
  the form of the micro-batches it makes.
\<close>

section \<open>Runs of tokens\<close>

definition simple_inv :: "batch_allocr \<Rightarrow> bool" where
  "simple_inv ba \<longleftrightarrow> ba_ok ba \<and> (\<exists>k. \<forall>i < length (ba_used ba). ba_used ba ! i \<longleftrightarrow> i < k)"

definition simple_shape :: "nat \<Rightarrow> nat list \<Rightarrow> ubatch \<Rightarrow> bool" where
  "simple_shape n_ubatch idxs ub \<longleftrightarrow> idxs = [hd idxs..<hd idxs + length idxs] \<and> length idxs \<le> max 1 n_ubatch"

lemma first_unused_ok:
  assumes "unused ba \<noteq> {}"
  shows "first_unused ba \<in> unused ba" "\<And>i. i < first_unused ba \<Longrightarrow> i \<notin> unused ba"
proof -
  let ?u = "ba_used ba"
  have *: "first_unused ba < length ?u"
  proof (rule ccontr)
    assume "\<not> first_unused ba < length ?u"
    moreover have "first_unused ba \<le> length ?u" unfolding first_unused_def by (rule length_takeWhile_le)
    moreover have "takeWhile (\<lambda>u. u) ?u = take (first_unused ba) ?u"
      unfolding first_unused_def by (rule takeWhile_eq_take)
    ultimately have "takeWhile (\<lambda>u. u) ?u = ?u" by simp
    then have all: "\<forall>u \<in> set ?u. u = True" by (simp only: takeWhile_eq_all_conv simp_thms)
    have "?u ! i" if "i < length ?u" for i using bspec [OF all nth_mem [OF that]] by (rule iffD2) (rule TrueI)
    with assms show False by (simp add: unused_def)
  qed
  with nth_length_takeWhile [of "\<lambda>u. u" ?u] show "first_unused ba \<in> unused ba" by (simp add: first_unused_def unused_def)
  fix i assume "i < first_unused ba"
  then have i: "i < length (takeWhile (\<lambda>u. u) ?u)" by (simp only: first_unused_def)
  have "takeWhile (\<lambda>u. u) ?u ! i" by (rule conjunct2 [OF set_takeWhileD [OF nth_mem [OF i]]])
  then have "?u ! i" by (simp only: takeWhile_nth [OF i])
  then show "i \<notin> unused ba" by (simp add: unused_def)
qed

lemma first_unused_none: "unused ba = {} \<Longrightarrow> first_unused ba \<ge> length (ba_used ba)"
proof -
  assume "unused ba = {}"
  then have "takeWhile (\<lambda>u. u) (ba_used ba) = ba_used ba" by (auto simp: unused_def in_set_conv_nth intro!: takeWhile_eq_all_conv [THEN iffD2])
  then show ?thesis unfolding first_unused_def by (rule ssubst) simp
qed

lemma simple_loop_ok:
  assumes "{cur..cur + n} \<subseteq> unused ba"
  shows "\<exists>m ba'. simple_loop n_ubatch n cur idxs ba = Some (idxs @ [cur..<cur + m], ba') \<and> took ba [cur..<cur + m] ba'
    \<and> 0 < m \<and> m \<le> Suc n \<and> length idxs + m \<le> max (Suc (length idxs)) n_ubatch"
  using assms
proof (induction n arbitrary: cur idxs ba)
  case 0
  then obtain ba' where "use_token cur ba = Some ba'" "took ba [cur] ba'" using use_token_ok [of cur ba] by auto
  then show ?case by (intro exI [of _ 1] exI [of _ ba']) simp
next
  case (Suc n)
  have "cur \<in> unused ba" by (rule subsetD [OF Suc.prems]) simp
  then obtain b1 where b1: "use_token cur ba = Some b1" "took ba [cur] b1" using use_token_ok by blast
  show ?case
  proof (cases "length (idxs @ [cur]) \<ge> n_ubatch")
    case True
    with b1 show ?thesis by (intro exI [of _ 1] exI [of _ b1]) simp
  next
    case False
    have "{cur + 1..cur + 1 + n} \<subseteq> unused b1" using Suc.prems tookD(1) [OF b1(2)] by auto
    from Suc.IH [OF this, of "idxs @ [cur]"] obtain m ba' where
      r: "simple_loop n_ubatch n (cur + 1) (idxs @ [cur]) b1 = Some ((idxs @ [cur]) @ [cur + 1..<cur + 1 + m], ba')"
      "took b1 [cur + 1..<cur + 1 + m] ba'" "0 < m" "m \<le> Suc n" "length (idxs @ [cur]) + m \<le> max (Suc (length (idxs @ [cur]))) n_ubatch"
      by blast
    have "[cur..<cur + Suc m] = [cur] @ [cur + 1..<cur + 1 + m]" by (simp add: upt_rec [of cur])
    with r b1 False took_append [OF b1(2) r(2)] show ?thesis
      by (intro exI [of _ "Suc m"] exI [of _ ba']) (auto simp: max_def split: if_splits)
  qed
qed

interpretation simple: splitter "ba_split_simple n_ubatch" simple_inv "simple_shape n_ubatch" for n_ubatch
proof
  fix ba assume inv: "simple_inv ba"
  then obtain k where ok: "ba_ok ba" and k: "\<And>i. i < length (ba_used ba) \<Longrightarrow> ba_used ba ! i \<longleftrightarrow> i < k" by (auto simp: simple_inv_def)
  show "ba_split_simple n_ubatch ba = Some (ub_none, ba)" if "unused ba = {}"
    using first_unused_none [OF that] by (simp add: ba_split_simple_def Let_def)
  assume ne: "unused ba \<noteq> {}"
  let ?c = "first_unused ba" and ?n = "length (ba_used ba)"
  have c: "?c < ?n" "\<not> ?c < k" using first_unused_ok(1) [OF ne] k by (auto simp: unused_def)
  have "?c \<le> k"
  proof (rule ccontr)
    assume "\<not> ?c \<le> k"
    with first_unused_ok(2) [OF ne, of k] k [of k] c(1) show False by (simp add: unused_def)
  qed
  with c(2) have ck: "?c = k" by simp
  have "{?c..?c + (?n - ?c - 1)} \<subseteq> unused ba" using k c by (auto simp: unused_def)
  from simple_loop_ok [OF this, of n_ubatch "[]"] obtain m b1 where
    l: "simple_loop n_ubatch (?n - ?c - 1) ?c [] ba = Some ([] @ [?c..<?c + m], b1)" and
    r: "took ba [?c..<?c + m] b1" "0 < m" "length ([] :: nat list) + m \<le> max (Suc (length ([] :: nat list))) n_ubatch" by blast
  from hand_out [OF r(1) ok, of m False] r(2) obtain ub ba' where u: "ba_ubatch_add [?c..<?c + m] m False b1 = Some (ub, ba')"
    "handed ba [?c..<?c + m] ba'" "gathers ba [?c..<?c + m] ub" by auto
  note H = handedD [OF u(2)]
  have "\<forall>i < length (ba_used ba'). ba_used ba' ! i \<longleftrightarrow> i < ?c + m"
  proof (intro allI impI)
    fix i assume i: "i < length (ba_used ba')"
    then have "ba_used ba' ! i \<longleftrightarrow> i \<notin> unused ba'" by (simp add: unused_def)
    also have "\<dots> \<longleftrightarrow> \<not> (i \<in> unused ba \<and> i \<notin> set [?c..<?c + m])" by (simp add: H(1))
    also have "\<dots> \<longleftrightarrow> i < ?c + m"
      using i H(5) k ck by (auto simp: unused_def)
    finally show "ba_used ba' ! i \<longleftrightarrow> i < ?c + m" .
  qed
  then have "simple_inv ba'" using H(9) ok unfolding simple_inv_def by blast
  moreover have "ba_split_simple n_ubatch ba = Some (ub, ba')"
    using c(1) l u(1) by (simp add: ba_split_simple_def Let_def)
  ultimately show "\<exists>ub idxs ba'. ba_split_simple n_ubatch ba = Some (ub, ba') \<and> simple_inv ba' \<and> idxs \<noteq> []
      \<and> handed ba idxs ba' \<and> gathers ba idxs ub \<and> simple_shape n_ubatch idxs ub"
    using r(2,3) u(2,3) by (intro exI [of _ ub] exI [of _ "[?c..<?c + m]"] exI [of _ ba']) (auto simp: simple_shape_def)
qed

section \<open>Sequence sets\<close>

text \<open>The set of sequences of token \<open>i\<close> of batch \<open>B\<close>.\<close>

abbreviation token_set :: "llama_batch \<Rightarrow> nat \<Rightarrow> seq_set_t" where
  "token_set B i \<equiv> set (token_seqs_of B i)"

lemma vget_seq_set: "ba_ok ba \<Longrightarrow> i < ba_n_tokens ba \<Longrightarrow> vget (ba_seq_set ba) i = Some (token_set (ba_batch ba) i)"
  by (simp add: ba_ok_def vget_def)

lemma unused_bound: "ba_ok ba \<Longrightarrow> i \<in> unused ba \<Longrightarrow> i < ba_n_tokens ba"
  by (simp add: ba_ok_def unused_def)

definition seq_inv :: "llama_batch \<Rightarrow> batch_allocr \<Rightarrow> bool" where
  "seq_inv B ba \<longleftrightarrow> ba_ok ba \<and> ba_batch ba = B"

text \<open>Increasing indices, each sequence set contained in the one before.\<close>

definition seq_shape :: "llama_batch \<Rightarrow> nat \<Rightarrow> nat list \<Rightarrow> ubatch \<Rightarrow> bool" where
  "seq_shape B n_ubatch idxs ub \<longleftrightarrow> sorted_wrt (\<lambda>i j. i < j \<and> token_set B j \<subseteq> token_set B i) idxs
     \<and> length idxs \<le> max 1 n_ubatch \<and> ub_n_seqs ub = 1 \<and> ub_equal_seqs ub"

lemma next_subset_ok:
  assumes "ba_ok ba" and "cur + n = ba_n_tokens ba"
  shows "\<exists>c. next_subset n cur t ba = Some c \<and> cur \<le> c \<and> c \<le> ba_n_tokens ba
    \<and> (c < ba_n_tokens ba \<longrightarrow> c \<in> unused ba \<and> token_set (ba_batch ba) c \<subseteq> t)"
  using assms(2)
proof (induction n arbitrary: cur)
  case (Suc n)
  then have c: "cur < ba_n_tokens ba" by simp
  have u: "vget (ba_used ba) cur = Some (cur \<notin> unused ba)" using assms(1) c by (simp add: ba_ok_def unused_def vget_def)
  have step: "next_subset (Suc n) cur t ba = (if cur \<notin> unused ba \<or> \<not> token_set (ba_batch ba) cur \<subseteq> t
      then next_subset n (cur + 1) t ba else Some cur)"
    by (simp add: u vget_seq_set [OF assms(1) c] Int_absorb1 del: vget_Some_iff) (simp add: Int_commute le_iff_inf)
  show ?case
  proof (cases "cur \<notin> unused ba \<or> \<not> token_set (ba_batch ba) cur \<subseteq> t")
    case True
    then have "next_subset (Suc n) cur t ba = next_subset n (cur + 1) t ba" using step by simp
    with Suc.IH [of "cur + 1"] Suc.prems show ?thesis by (auto dest: Suc_leD)
  next
    case False
    with step c show ?thesis by auto
  qed
qed simp

lemma seq_loop_ok:
  assumes "ba_ok ba" and "cur \<in> unused ba" and "t = token_set (ba_batch ba) cur" and "ba_n_tokens ba - cur < fuel"
  shows "\<exists>js ba'. seq_loop n_ubatch fuel cur t idxs ba = Some (idxs @ cur # js, ba') \<and> took ba (cur # js) ba'
    \<and> sorted_wrt (\<lambda>i j. i < j \<and> token_set (ba_batch ba) j \<subseteq> token_set (ba_batch ba) i) (cur # js)
    \<and> length idxs + length (cur # js) \<le> max (Suc (length idxs)) n_ubatch"
  using assms
proof (induction fuel arbitrary: ba cur t idxs)
  case (Suc fuel)
  obtain b1 where b1: "use_token cur ba = Some b1" "took ba [cur] b1" using use_token_ok [OF Suc.prems(2)] by blast
  note T = tookD [OF b1(2)]
  have ok1: "ba_ok b1" using T(10) Suc.prems(1) by simp
  have lt: "cur < ba_n_tokens b1" using unused_bound [OF Suc.prems(1,2)] T(11) by simp
  show ?case
  proof (cases "length (idxs @ [cur]) \<ge> n_ubatch")
    case True
    with b1 show ?thesis by (intro exI [of _ "[]"] exI [of _ b1]) (simp add: Let_def)
  next
    case False
    from next_subset_ok [OF ok1, of "cur + 1" "ba_n_tokens b1 - (cur + 1)" t] lt obtain c where
      c: "next_subset (ba_n_tokens b1 - (cur + 1)) (cur + 1) t b1 = Some c" "cur + 1 \<le> c" "c \<le> ba_n_tokens b1"
      "c < ba_n_tokens b1 \<longrightarrow> c \<in> unused b1 \<and> token_set (ba_batch b1) c \<subseteq> t" by auto
    show ?thesis
    proof (cases "c = ba_n_tokens b1")
      case True
      with b1 c(1) False show ?thesis by (intro exI [of _ "[]"] exI [of _ b1]) (simp add: Let_def)
    next
      case less: False
      then have c': "c \<in> unused b1" "token_set (ba_batch b1) c \<subseteq> t" "c < ba_n_tokens b1" using c(3,4) by auto
      have "ba_n_tokens b1 - c < fuel" using Suc.prems(4) T(11) c(2) lt by simp
      from Suc.IH [OF ok1 c'(1) refl this, of "idxs @ [cur]"] obtain js ba' where
        r: "seq_loop n_ubatch fuel c (token_set (ba_batch b1) c) (idxs @ [cur]) b1 = Some ((idxs @ [cur]) @ c # js, ba')"
        "took b1 (c # js) ba'" "sorted_wrt (\<lambda>i j. i < j \<and> token_set (ba_batch b1) j \<subseteq> token_set (ba_batch b1) i) (c # js)"
        "length (idxs @ [cur]) + length (c # js) \<le> max (Suc (length (idxs @ [cur]))) n_ubatch" by blast
      have "took ba (cur # c # js) ba'" using took_append [OF b1(2) r(2)] by simp
      moreover have "seq_loop n_ubatch (Suc fuel) cur t idxs ba = Some (idxs @ cur # c # js, ba')"
        using b1(1) False c(1) less r(1) vget_seq_set [OF ok1 c'(3)] by (simp add: Let_def vget_def)
      moreover have "sorted_wrt (\<lambda>i j. i < j \<and> token_set (ba_batch ba) j \<subseteq> token_set (ba_batch ba) i) (cur # c # js)"
        using r(3) c'(2) c(2) Suc.prems(3) T(6) by auto
      moreover have "length idxs + length (cur # c # js) \<le> max (Suc (length idxs)) n_ubatch"
        using r(4) False by (auto simp: max_def split: if_splits)
      ultimately show ?thesis by blast
    qed
  qed
qed simp

interpretation seq: splitter "ba_split_seq n_ubatch" "seq_inv B" "seq_shape B n_ubatch" for n_ubatch B
proof
  fix ba assume "seq_inv B ba"
  then have ok: "ba_ok ba" and B: "ba_batch ba = B" by (simp_all add: seq_inv_def)
  show "ba_split_seq n_ubatch ba = Some (ub_none, ba)" if "unused ba = {}"
    using first_unused_none [OF that] by (simp add: ba_split_seq_def Let_def)
  assume "unused ba \<noteq> {}"
  from first_unused_ok(1) [OF this] have c: "first_unused ba \<in> unused ba" .
  let ?c = "first_unused ba"
  have lt: "?c < ba_n_tokens ba" "?c < length (ba_used ba)" using unused_bound [OF ok c] c by (simp_all add: unused_def)
  have "ba_n_tokens ba - ?c < Suc (ba_n_tokens ba)" by simp
  from seq_loop_ok [OF ok c refl this, of n_ubatch "[]"] obtain js b1 where
    l: "seq_loop n_ubatch (Suc (ba_n_tokens ba)) ?c (token_set (ba_batch ba) ?c) [] ba = Some (?c # js, b1)" and
    r: "took ba (?c # js) b1" "sorted_wrt (\<lambda>i j. i < j \<and> token_set (ba_batch ba) j \<subseteq> token_set (ba_batch ba) i) (?c # js)"
    "length (?c # js) \<le> max 1 n_ubatch" by auto
  from hand_out [OF r(1) ok, of 1 True] obtain ub ba' where u: "ba_ubatch_add (?c # js) 1 True b1 = Some (ub, ba')"
    "handed ba (?c # js) ba'" "gathers ba (?c # js) ub" "ub_n_seqs ub = 1" "ub_equal_seqs ub" by auto
  have "seq_inv B ba'" using handedD(6,9) [OF u(2)] ok B by (simp add: seq_inv_def)
  moreover have "ba_split_seq n_ubatch ba = Some (ub, ba')"
    using lt vget_seq_set [OF ok lt(1)] l u(1) by (simp add: ba_split_seq_def Let_def vget_def del: seq_loop.simps)
  moreover have "seq_shape B n_ubatch (?c # js) ub" using r(2,3) u(4,5) B unfolding seq_shape_def by blast
  ultimately show "\<exists>ub idxs ba'. ba_split_seq n_ubatch ba = Some (ub, ba') \<and> seq_inv B ba' \<and> idxs \<noteq> []
      \<and> handed ba idxs ba' \<and> gathers ba idxs ub \<and> seq_shape B n_ubatch idxs ub"
    using u(2,3) by blast
qed

end
