(* ===== verification/Batch_Equal.thy ===== *)
theory Batch_Equal
  imports Batch_Methods "HOL-Library.Multiset"
begin

text \<open>
  \<^verbatim>\<open>split_equal\<close> as an interpretation of \<open>splitter\<close>: disjoint sequence sets, the same number of tokens for each.
\<close>

section \<open>The sequence sets\<close>

definition equal_inv :: "bool \<Rightarrow> llama_batch \<Rightarrow> batch_allocr \<Rightarrow> bool" where
  "equal_inv sequential B ba \<longleftrightarrow> ba_ok ba \<and> ba_batch ba = B \<and> (sequential \<longrightarrow> \<not> ba_has_cpl ba)
     \<and> (\<forall>t. \<exists>k. \<forall>j < length (ba_seq_set_map ba t). ba_seq_set_map ba t ! j \<in> unused ba \<longleftrightarrow> k \<le> j)"

definition equal_shape :: "llama_batch \<Rightarrow> nat \<Rightarrow> nat list \<Rightarrow> ubatch \<Rightarrow> bool" where
  "equal_shape B n_ubatch idxs ub \<longleftrightarrow> ub_equal_seqs ub \<and> (\<exists>sets rows. idxs = concat rows \<and> length rows = ub_n_seqs ub \<and> length sets = ub_n_seqs ub
     \<and> sorted_wrt (\<lambda>s t. s \<inter> t = {}) sets \<and> (\<forall>r \<in> set rows. length r = ub_n_seq_tokens ub \<and> sorted_wrt (<) r)
     \<and> (\<forall>k < length sets. \<forall>i \<in> set (rows ! k). token_set B i = sets ! k)
     \<and> length sets \<le> Suc n_ubatch \<and> length idxs \<le> max (length sets) n_ubatch)"

lemma seq_set_map_ok:
  assumes "ba_ok ba"
  shows "i \<in> set (ba_seq_set_map ba t) \<longleftrightarrow> i < ba_n_tokens ba \<and> token_set (ba_batch ba) i = t"
    "sorted_wrt (<) (ba_seq_set_map ba t)" "distinct (ba_seq_set_map ba t)" "length (ba_seq_set_map ba t) \<le> ba_n_tokens ba"
proof -
  have m: "ba_seq_set_map ba t = filter (\<lambda>i. token_set (ba_batch ba) i = t) [0..<ba_n_tokens ba]"
    using assms by (simp add: ba_ok_def)
  show "i \<in> set (ba_seq_set_map ba t) \<longleftrightarrow> i < ba_n_tokens ba \<and> token_set (ba_batch ba) i = t" by (auto simp: m)
  show "sorted_wrt (<) (ba_seq_set_map ba t)" "distinct (ba_seq_set_map ba t)" by (simp_all add: m sorted_wrt_filter)
  show "length (ba_seq_set_map ba t) \<le> ba_n_tokens ba"
    unfolding m by (rule order_trans [OF length_filter_le]) simp
qed

lemma pick_sets_ok:
  assumes "ba_ok ba"
  shows "\<exists>sets last stop. foldM (pick_set n_ubatch sequential ba) [0..<ba_n_tokens ba] ([], - 1, False) = Some (sets, last, stop)
    \<and> (\<forall>t \<in> set sets. t \<noteq> {} \<and> (\<exists>j \<in> unused ba. token_set (ba_batch ba) j = t))
    \<and> sorted_wrt (\<lambda>s t. s \<inter> t = {}) sets \<and> length sets \<le> Suc n_ubatch \<and> (sets = [] \<longrightarrow> unused ba = {})"
proof -
  let ?P = "\<lambda>i (sets, last :: int, stop). (\<forall>t \<in> set sets. t \<noteq> {} \<and> (\<exists>j \<in> unused ba. token_set (ba_batch ba) j = t))
    \<and> sorted_wrt (\<lambda>s t. s \<inter> t = {}) sets \<and> length sets \<le> Suc n_ubatch \<and> (\<not> stop \<longrightarrow> length sets \<le> n_ubatch)
    \<and> (sets = [] \<longrightarrow> \<not> stop \<and> (\<forall>j < i. j \<notin> unused ba))"
  have "\<exists>r. foldM (pick_set n_ubatch sequential ba) [0..<ba_n_tokens ba] ([], - 1, False) = Some r \<and> ?P (ba_n_tokens ba) r"
  proof (rule foldM_upt_total [where I = ?P])
    fix i r assume i: "i < ba_n_tokens ba" and r: "?P i r"
    obtain sets last stop where rr: "r = (sets, last, stop)" by (cases r)
    have u: "vget (ba_used ba) i = Some (i \<notin> unused ba)" using assms i by (simp add: ba_ok_def unused_def vget_def)
    have bok: "batch_ok (ba_n_pos_per_embd ba) (ba_n_embd ba) (ba_n_seq_max ba) (ba_batch ba)" using assms by (simp add: ba_ok_def)
    have s0: "batch_seq0 (ba_batch ba) i = Some (hd (token_seqs_of (ba_batch ba) i))" "token_set (ba_batch ba) i \<noteq> {}"
      using batch_seqs_ok(2,3) [OF bok, of i] i by (simp_all add: ba_n_tokens_def)
    show "\<exists>v. pick_set n_ubatch sequential ba i r = Some v \<and> ?P (Suc i) v"
    proof (cases "stop \<or> i \<notin> unused ba")
      case True
      then have "pick_set n_ubatch sequential ba i r = Some r" using rr u by (auto simp: pick_set_def simp del: vget_Some_iff)
      moreover have "?P (Suc i) r" using True r by (auto simp: rr less_Suc_eq)
      ultimately show ?thesis by blast
    next
      case False
      then have F: "\<not> stop" "i \<in> unused ba" by simp_all
      let ?add = "(\<forall>t \<in> set sets. t \<inter> token_set (ba_batch ba) i = {}) \<and> (sequential \<longrightarrow> sets = [] \<or> hd (token_seqs_of (ba_batch ba) i) = last + 1)"
      have p: "pick_set n_ubatch sequential ba i r = Some (if ?add
          then (sets @ [token_set (ba_batch ba) i], hd (token_seqs_of (ba_batch ba) i), length (sets @ [token_set (ba_batch ba) i]) > n_ubatch)
          else (sets, last, stop))"
        using F by (simp add: pick_set_def rr u vget_seq_set [OF assms i] s0(1) Let_def del: vget_Some_iff)
      show ?thesis
      proof (cases ?add)
        case True
        with p r F s0(2) show ?thesis by (auto simp: rr sorted_wrt_append)
      next
        case nadd: False
        then have "sets \<noteq> []" by auto
        with nadd p r F show ?thesis by (auto simp: rr)
      qed
    qed
  qed simp_all
  then show ?thesis using assms unused_bound [OF assms] by fastforce
qed

lemma skip_used_ok:
  assumes "\<forall>j < length is. is ! j < length (ba_used ba) \<and> (is ! j \<in> unused ba \<longleftrightarrow> k \<le> j)" and "k < length is"
  shows "skip_used (ba_used ba) is = Some k"
  using assms
proof (induction "is" arbitrary: k)
  case (Cons i "is")
  have i: "i < length (ba_used ba)" "i \<in> unused ba \<longleftrightarrow> k = 0" using Cons.prems(1) by force+
  show ?case
  proof (cases k)
    case 0
    with i show ?thesis by (simp add: unused_def vget_def)
  next
    case (Suc k')
    have "skip_used (ba_used ba) is = Some k'"
    proof (rule Cons.IH)
      show "\<forall>j < length is. is ! j < length (ba_used ba) \<and> (is ! j \<in> unused ba \<longleftrightarrow> k' \<le> j)"
        using Cons.prems(1) Suc by (metis Suc_le_mono Suc_less_eq length_Cons nth_Cons_Suc)
    qed (use Cons.prems(2) Suc in simp)
    with Suc i show ?thesis by (simp add: unused_def vget_def)
  qed
qed simp

section \<open>The rounds\<close>

lemma took_perm: "took ba xs ba' \<Longrightarrow> mset xs = mset ys \<Longrightarrow> took ba ys ba'"
  using mset_eq_setD [of xs ys] mset_eq_length [of xs ys] mset_eq_imp_distinct_iff [of xs ys] by (simp add: took_def)

lemma mset_concat_snoc:
  assumes "k < length rows"
  shows "mset (concat (rows[k := rows ! k @ [x]])) = mset (concat rows @ [x])"
proof -
  have "concat rows = concat (take k rows) @ rows ! k @ concat (drop (Suc k) rows)"
    using id_take_nth_drop [OF assms] by (metis append_assoc concat.simps(2) concat_append)
  moreover have "concat (rows[k := rows ! k @ [x]]) = concat (take k rows) @ (rows ! k @ [x]) @ concat (drop (Suc k) rows)"
    by (simp add: upd_conv_take_nth_drop [OF assms])
  ultimately show ?thesis by simp
qed

text \<open>The rows after \<open>r\<close> rounds and the first \<open>k\<close> sets of the next one; \<open>c\<close> is where the sets start.\<close>

definition part_rows :: "batch_allocr \<Rightarrow> seq_set_t list \<Rightarrow> nat list \<Rightarrow> nat \<Rightarrow> nat \<Rightarrow> nat list list" where
  "part_rows ba sets c r k = map (\<lambda>s. take (if s < k then Suc r else r) (drop (c ! s) (ba_seq_set_map ba (sets ! s)))) [0..<length sets]"

definition part_cur :: "nat list \<Rightarrow> nat \<Rightarrow> nat \<Rightarrow> nat list" where
  "part_cur c r k = map (\<lambda>s. c ! s + (if s < k then Suc r else r)) [0..<length c]"

text \<open>Disjoint sets, each with an unused token at \<open>c\<close> and behind.\<close>

definition round_ok :: "batch_allocr \<Rightarrow> seq_set_t list \<Rightarrow> nat list \<Rightarrow> bool" where
  "round_ok ba sets c \<longleftrightarrow> ba_ok ba \<and> length c = length sets \<and> sorted_wrt (\<lambda>s t. s \<inter> t = {}) sets \<and> {} \<notin> set sets
     \<and> (\<forall>s < length sets. \<forall>j < length (ba_seq_set_map ba (sets ! s)).
          ba_seq_set_map ba (sets ! s) ! j \<in> unused ba \<longleftrightarrow> c ! s \<le> j)"

lemma sets_distinct:
  assumes "sorted_wrt (\<lambda>s t. s \<inter> t = {}) sets" and "{} \<notin> set sets"
  shows "distinct sets"
  using assms by (induction sets) auto

lemma take_one_ok:
  assumes ok: "round_ok ba sets c" and k: "k < length sets"
    and more: "\<forall>s < length sets. c ! s + r < length (ba_seq_set_map ba (sets ! s))"
    and t: "took ba (concat (part_rows ba sets c r k)) b1"
  shows "\<exists>b2. take_one sets k (part_cur c r k, part_rows ba sets c r k, b1)
      = Some (part_cur c r (Suc k), part_rows ba sets c r (Suc k), b2) \<and> took ba (concat (part_rows ba sets c r (Suc k))) b2"
proof -
  let ?M = "\<lambda>s. ba_seq_set_map ba (sets ! s)" and ?R = "part_rows ba sets c r k"
  let ?x = "?M k ! (c ! k + r)"
  note D = ok [unfolded round_ok_def] and T = tookD [OF t]
  have bok: "ba_ok ba" using D by blast
  have len: "length ?R = length sets" "length c = length sets" using D by (simp_all add: part_rows_def)
  have kr: "c ! k + r < length (?M k)" using more k by blast
  have set: "token_set (ba_batch ba) i = sets ! s" if "i \<in> set (?R ! s)" "s < length sets" for i s
    using that seq_set_map_ok(1) [OF bok] by (auto simp: part_rows_def dest!: in_set_takeD in_set_dropD)
  have xset: "token_set (ba_batch ba) ?x = sets ! k" using nth_mem [OF kr] seq_set_map_ok(1) [OF bok] by blast
  have "?x \<in> unused ba" using D k kr by simp
  moreover have "?x \<notin> set (concat ?R)"
  proof
    assume "?x \<in> set (concat ?R)"
    then obtain row where "row \<in> set ?R" "?x \<in> set row" by auto
    then obtain s where s: "s < length sets" "?x \<in> set (?R ! s)" using len by (auto simp: in_set_conv_nth [of row])
    then have "sets ! s = sets ! k" using set xset by simp
    moreover have "distinct sets" using D sets_distinct by blast
    ultimately have "s = k" using s(1) k by (simp add: nth_eq_iff_index_eq)
    with s(2) k have "?x \<in> set (take r (drop (c ! k) (?M k)))" by (simp add: part_rows_def)
    then obtain j where j: "j < r" "c ! k + j < length (?M k)" "?x = ?M k ! (c ! k + j)" by (auto simp: in_set_conv_nth)
    with seq_set_map_ok(3) [OF bok] kr show False by (simp add: nth_eq_iff_index_eq)
  qed
  ultimately have "?x \<in> unused b1" using T(1) by simp
  then obtain b2 where b2: "use_token ?x b1 = Some b2" "took b1 [?x] b2" using use_token_ok by blast
  have row: "?R ! k @ [?x] = part_rows ba sets c r (Suc k) ! k"
    using k kr by (simp add: part_rows_def take_Suc_conv_app_nth)
  have rows: "?R[k := ?R ! k @ [?x]] = part_rows ba sets c r (Suc k)"
    using row by (intro nth_equalityI) (auto simp: len part_rows_def nth_list_update_if less_Suc_eq)
  have cur: "(part_cur c r k)[k := c ! k + r + 1] = part_cur c r (Suc k)"
    using k len by (intro nth_equalityI) (auto simp: part_cur_def nth_list_update_if less_Suc_eq)
  have "take_one sets k (part_cur c r k, ?R, b1) = Some (part_cur c r (Suc k), part_rows ba sets c r (Suc k), b2)"
    using k len kr T(8) b2(1) rows cur by (simp add: take_one_def vget_def part_cur_def)
  moreover have "took ba (concat (part_rows ba sets c r (Suc k))) b2"
    by (rule took_perm [OF took_append [OF t b2(2)]]) (use mset_concat_snoc [of k ?R ?x] k len rows in simp)
  ultimately show ?thesis by blast
qed

lemma round_ok_step:
  assumes ok: "round_ok ba sets c"
    and more: "\<forall>s < length sets. c ! s + r < length (ba_seq_set_map ba (sets ! s))"
    and t: "took ba (concat (part_rows ba sets c r 0)) b1"
  shows "\<exists>b2. foldM (take_one sets) [0..<length sets] (part_cur c r 0, part_rows ba sets c r 0, b1)
      = Some (part_cur c (Suc r) 0, part_rows ba sets c (Suc r) 0, b2) \<and> took ba (concat (part_rows ba sets c (Suc r) 0)) b2"
proof -
  let ?I = "\<lambda>k st. \<exists>b2. st = (part_cur c r k, part_rows ba sets c r k, b2) \<and> took ba (concat (part_rows ba sets c r k)) b2"
  have "\<exists>st. foldM (take_one sets) [0..<length sets] (part_cur c r 0, part_rows ba sets c r 0, b1) = Some st \<and> ?I (length sets) st"
  proof (rule foldM_upt_total [where I = ?I])
    fix k st assume "k < length sets" and st: "?I k st"
    then show "\<exists>v. take_one sets k st = Some v \<and> ?I (Suc k) v"
      using take_one_ok [OF ok _ more] by blast
  qed (use t in auto)
  moreover have "part_rows ba sets c r (length sets) = part_rows ba sets c (Suc r) 0" by (simp add: part_rows_def)
  moreover have "part_cur c r (length sets) = part_cur c (Suc r) 0" using ok by (simp add: part_cur_def round_ok_def)
  ultimately show ?thesis by auto
qed

lemma equal_loop_ok:
  assumes ok: "round_ok ba sets c" and ne: "sets \<noteq> []" and fuel: "ba_n_tokens ba < r + fuel"
    and le: "\<forall>s < length sets. c ! s + r \<le> length (ba_seq_set_map ba (sets ! s))"
    and bound: "r * length sets \<le> max (length sets) n_ubatch" "(r + 1) * length sets \<le> max (length sets) n_ubatch"
    and t: "took ba (concat (part_rows ba sets c r 0)) b1"
    and first: "r = 0 \<longrightarrow> (\<forall>s < length sets. c ! s < length (ba_seq_set_map ba (sets ! s)))"
  shows "\<exists>q b2. equal_loop n_ubatch sets fuel (part_cur c r 0, part_rows ba sets c r 0, b1) = Some (part_rows ba sets c q 0, b2)
    \<and> took ba (concat (part_rows ba sets c q 0)) b2 \<and> 0 < q \<and> (\<forall>s < length sets. c ! s + q \<le> length (ba_seq_set_map ba (sets ! s)))
    \<and> q * length sets \<le> max (length sets) n_ubatch"
  using fuel le bound t first
proof (induction fuel arbitrary: r b1)
  case 0
  have bok: "ba_ok ba" and "length sets \<noteq> 0" using ok ne by (simp_all add: round_ok_def)
  then have "c ! 0 + r \<le> ba_n_tokens ba" using "0.prems"(2) seq_set_map_ok(4) [OF bok] order_trans by blast
  with "0.prems"(1) show ?case by simp
next
  case (Suc fuel)
  let ?more = "\<forall>s < length sets. c ! s + r < length (ba_seq_set_map ba (sets ! s))"
  have cond: "(\<forall>s < length sets. part_cur c r 0 ! s < length (ba_seq_set_map b1 (sets ! s))) \<longleftrightarrow> ?more"
    using tookD(8) [OF Suc.prems(5)] ok by (simp add: part_cur_def round_ok_def)
  show ?case
  proof (cases ?more)
    case False
    then have "r \<noteq> 0" using Suc.prems(6) by auto
    with False cond Suc.prems show ?thesis by (intro exI [of _ r] exI [of _ b1]) auto
  next
    case True
    from round_ok_step [OF ok this Suc.prems(5)] obtain b2 where
      b2: "foldM (take_one sets) [0..<length sets] (part_cur c r 0, part_rows ba sets c r 0, b1)
        = Some (part_cur c (Suc r) 0, part_rows ba sets c (Suc r) 0, b2)" "took ba (concat (part_rows ba sets c (Suc r) 0)) b2" by blast
    have le: "\<forall>s < length sets. c ! s + Suc r \<le> length (ba_seq_set_map ba (sets ! s))" using True by auto
    have r0: "vget (part_rows ba sets c (Suc r) 0) 0 = Some (part_rows ba sets c (Suc r) 0 ! 0)"
      and l0: "length (part_rows ba sets c (Suc r) 0 ! 0) = Suc r"
      using ne le by (auto simp: part_rows_def vget_def min_def)
    show ?thesis
    proof (cases "(Suc r + 1) * length sets > n_ubatch")
      case True
      have "equal_loop n_ubatch sets (Suc fuel) (part_cur c r 0, part_rows ba sets c r 0, b1) = Some (part_rows ba sets c (Suc r) 0, b2)"
        using \<open>?more\<close> cond b2(1) r0 l0 True by (simp del: vget_Some_iff)
      with b2(2) le Suc.prems(4) show ?thesis by (intro exI [of _ "Suc r"] exI [of _ b2]) simp
    next
      case False
      then have "\<exists>q b3. equal_loop n_ubatch sets fuel (part_cur c (Suc r) 0, part_rows ba sets c (Suc r) 0, b2) = Some (part_rows ba sets c q 0, b3)
          \<and> took ba (concat (part_rows ba sets c q 0)) b3 \<and> 0 < q \<and> (\<forall>s < length sets. c ! s + q \<le> length (ba_seq_set_map ba (sets ! s)))
          \<and> q * length sets \<le> max (length sets) n_ubatch"
        using Suc.prems(1,4) le b2(2) by (intro Suc.IH) auto
      moreover have "equal_loop n_ubatch sets (Suc fuel) (part_cur c r 0, part_rows ba sets c r 0, b1)
          = equal_loop n_ubatch sets fuel (part_cur c (Suc r) 0, part_rows ba sets c (Suc r) 0, b2)"
        using \<open>?more\<close> cond b2(1) r0 l0 False by (simp del: vget_Some_iff)
      ultimately show ?thesis by simp
    qed
  qed
qed

section \<open>The micro-batch\<close>

lemma part_rows_shape:
  assumes ok: "round_ok ba sets c" and le: "\<forall>s < length sets. c ! s + q \<le> length (ba_seq_set_map ba (sets ! s))"
  shows "length (concat (part_rows ba sets c q 0)) = q * length sets"
    and "\<forall>r \<in> set (part_rows ba sets c q 0). length r = q \<and> sorted_wrt (<) r"
    and "\<forall>k < length sets. \<forall>i \<in> set (part_rows ba sets c q 0 ! k). token_set (ba_batch ba) i = sets ! k"
    and "\<forall>k < length sets. set (part_rows ba sets c q 0 ! k) = {ba_seq_set_map ba (sets ! k) ! j |j. c ! k \<le> j \<and> j < c ! k + q}"
proof -
  let ?M = "\<lambda>s. ba_seq_set_map ba (sets ! s)"
  have bok: "ba_ok ba" using ok by (simp add: round_ok_def)
  have len: "length (take q (drop (c ! s) (?M s))) = q" if "s < length sets" for s using le that by (force simp: min_def)
  have "length (concat (map f [0..<n])) = q * n" if "\<And>s. s < n \<Longrightarrow> length (f s) = q" for n and f :: "nat \<Rightarrow> nat list"
    using that by (induction n) auto
  then show "length (concat (part_rows ba sets c q 0)) = q * length sets" using len by (simp add: part_rows_def)
  show "\<forall>r \<in> set (part_rows ba sets c q 0). length r = q \<and> sorted_wrt (<) r"
    using len seq_set_map_ok(2) [OF bok] by (auto simp: part_rows_def sorted_wrt_take sorted_wrt_drop)
  show "\<forall>k < length sets. \<forall>i \<in> set (part_rows ba sets c q 0 ! k). token_set (ba_batch ba) i = sets ! k"
    using seq_set_map_ok(1) [OF bok] by (auto simp: part_rows_def dest!: in_set_takeD in_set_dropD)
  have "set (take q (drop a xs)) = {xs ! j |j. a \<le> j \<and> j < a + q}" if "a + q \<le> length xs" for a and xs :: "nat list"
  proof -
    have "length (take q (drop a xs)) = q" "\<And>j. j < q \<Longrightarrow> take q (drop a xs) ! j = xs ! (a + j)" using that by auto
    then have "set (take q (drop a xs)) = {xs ! (a + j) |j. j < q}" unfolding set_conv_nth by force
    also have "\<dots> = {xs ! j |j. a \<le> j \<and> j < a + q}"
      by (auto, metis le_add_diff_inverse less_diff_conv2 add.commute)
    finally show ?thesis .
  qed
  then show "\<forall>k < length sets. set (part_rows ba sets c q 0 ! k) = {?M k ! j |j. c ! k \<le> j \<and> j < c ! k + q}"
    using le by (simp add: part_rows_def)
qed

lemma equal_inv_step:
  assumes ok: "round_ok ba sets c" and inv: "equal_inv sequential B ba" and h: "handed ba (concat (part_rows ba sets c q 0)) ba'"
    and le: "\<forall>s < length sets. c ! s + q \<le> length (ba_seq_set_map ba (sets ! s))"
  shows "equal_inv sequential B ba'"
proof -
  note H = handedD [OF h] and P = part_rows_shape [OF ok le]
  have bok: "ba_ok ba" using inv by (simp add: equal_inv_def)
  let ?M = "ba_seq_set_map ba" and ?rows = "part_rows ba sets c q 0"
  have len: "length ?rows = length sets" by (simp add: part_rows_def)
  have "\<exists>k. \<forall>j < length (?M t). ?M t ! j \<in> unused ba' \<longleftrightarrow> k \<le> j" for t
  proof (cases "t \<in> set sets")
    case True
    then obtain s where s: "s < length sets" "sets ! s = t" by (auto simp: in_set_conv_nth)
    have "?M t ! j \<in> unused ba' \<longleftrightarrow> c ! s + q \<le> j" if j: "j < length (?M t)" for j
    proof -
      have ts: "token_set (ba_batch ba) (?M t ! j) = t" using nth_mem [OF j] seq_set_map_ok(1) [OF bok] by blast
      have "?M t ! j \<in> set (concat ?rows) \<longleftrightarrow> ?M t ! j \<in> set (?rows ! s)"
      proof
        assume "?M t ! j \<in> set (concat ?rows)"
        then obtain row where row: "row \<in> set ?rows" "?M t ! j \<in> set row" by auto
        then obtain k where k: "k < length sets" "?M t ! j \<in> set (?rows ! k)" using len by (auto simp: in_set_conv_nth [of row])
        then have "sets ! k = sets ! s" using P(3) ts s by auto
        moreover have "distinct sets" using ok sets_distinct by (auto simp: round_ok_def)
        ultimately show "?M t ! j \<in> set (?rows ! s)" using k s(1) by (simp add: nth_eq_iff_index_eq)
      next
        assume "?M t ! j \<in> set (?rows ! s)"
        then show "?M t ! j \<in> set (concat ?rows)" using s(1) len nth_mem [of s ?rows] by auto
      qed
      also have "\<dots> \<longleftrightarrow> c ! s \<le> j \<and> j < c ! s + q"
      proof -
        have "?M t ! j = ?M t ! i \<longleftrightarrow> j = i" if "i < c ! s + q" for i
          using that j le s seq_set_map_ok(3) [OF bok, of t] by (intro nth_eq_iff_index_eq) auto
        then show ?thesis using P(4) s by auto
      qed
      finally have "?M t ! j \<in> set (concat ?rows) \<longleftrightarrow> c ! s \<le> j \<and> j < c ! s + q" .
      moreover have "?M t ! j \<in> unused ba \<longleftrightarrow> c ! s \<le> j" using ok s j by (auto simp: round_ok_def)
      ultimately show ?thesis by (auto simp: H(1))
    qed
    then show ?thesis by blast
  next
    case False
    have "?M t ! j \<notin> set (concat ?rows)" if j: "j < length (?M t)" for j
    proof
      assume "?M t ! j \<in> set (concat ?rows)"
      then obtain row where row: "row \<in> set ?rows" "?M t ! j \<in> set row" by auto
      then obtain k where k: "k < length sets" "?M t ! j \<in> set (?rows ! k)" using len by (auto simp: in_set_conv_nth [of row])
      moreover have "token_set (ba_batch ba) (?M t ! j) = t" using nth_mem [OF j] seq_set_map_ok(1) [OF bok] by blast
      ultimately show False using P(3) False by auto
    qed
    then have "?M t ! j \<in> unused ba' \<longleftrightarrow> ?M t ! j \<in> unused ba" if "j < length (?M t)" for j using that by (auto simp: H(1))
    then show ?thesis using inv unfolding equal_inv_def by simp
  qed
  then show ?thesis using inv H by (simp add: equal_inv_def)
qed

interpretation equal: splitter "ba_split_equal n_ubatch sequential" "equal_inv sequential B" "equal_shape B n_ubatch"
  for n_ubatch sequential B
proof
  fix ba assume inv: "equal_inv sequential B ba"
  then have ok: "ba_ok ba" and B: "ba_batch ba = B" and seq: "\<not> (sequential \<and> ba_has_cpl ba)" by (auto simp: equal_inv_def)
  from pick_sets_ok [OF ok] obtain sets last stop where
    p: "foldM (pick_set n_ubatch sequential ba) [0..<ba_n_tokens ba] ([], - 1, False) = Some (sets, last, stop)" and
    sets: "\<forall>t \<in> set sets. t \<noteq> {} \<and> (\<exists>j \<in> unused ba. token_set (ba_batch ba) j = t)"
    "sorted_wrt (\<lambda>s t. s \<inter> t = {}) sets" "length sets \<le> Suc n_ubatch" "sets = [] \<longrightarrow> unused ba = {}" by blast
  show "ba_split_equal n_ubatch sequential ba = Some (ub_none, ba)" if "unused ba = {}"
  proof -
    have "sets = []" using sets(1) that by (cases sets) auto
    with p seq show ?thesis by (auto simp: ba_split_equal_def)
  qed
  assume "unused ba \<noteq> {}"
  with sets(4) have ne: "sets \<noteq> []" by blast
  let ?M = "ba_seq_set_map ba"
  from inv obtain k where k: "\<And>t j. j < length (?M t) \<Longrightarrow> ?M t ! j \<in> unused ba \<longleftrightarrow> k t \<le> j" unfolding equal_inv_def by metis
  have klen: "k t < length (?M t)" if t: "t \<in> set sets" for t
  proof -
    from t sets(1) obtain i where i: "i \<in> unused ba" "token_set (ba_batch ba) i = t" by blast
    then have "i \<in> set (?M t)" using seq_set_map_ok(1) [OF ok] unused_bound [OF ok] by blast
    then obtain j where "j < length (?M t)" "?M t ! j = i" by (auto simp: in_set_conv_nth)
    with k [of j t] i(1) show ?thesis by simp
  qed
  have "skip_used (ba_used ba) (?M t) = Some (k t)" if "t \<in> set sets" for t
  proof (rule skip_used_ok [OF _ klen [OF that]])
    show "\<forall>j < length (?M t). ?M t ! j < length (ba_used ba) \<and> (?M t ! j \<in> unused ba \<longleftrightarrow> k t \<le> j)"
      using k seq_set_map_ok(1) [OF ok] ok nth_mem unfolding ba_ok_def by metis
  qed
  then have cur: "mapM (\<lambda>t. skip_used (ba_used ba) (?M t)) sets = Some (map k sets)" by (rule mapM_map)
  have rok: "round_ok ba sets (map k sets)" using ok sets(1,2) k by (auto simp: round_ok_def)
  have start: "part_cur (map k sets) 0 0 = map k sets" "part_rows ba sets (map k sets) 0 0 = replicate (length sets) []"
    by (simp_all add: part_cur_def part_rows_def map_replicate_const map_nth [of "map k sets", simplified])
  have "took ba (concat (part_rows ba sets (map k sets) 0 0)) ba" using took_Nil by (simp add: start)
  from equal_loop_ok [OF rok ne _ _ _ _ this, of "Suc (ba_n_tokens ba)" n_ubatch] klen obtain q b1 where
    l: "equal_loop n_ubatch sets (Suc (ba_n_tokens ba)) (map k sets, replicate (length sets) [], ba)
        = Some (part_rows ba sets (map k sets) q 0, b1)" and
    r: "took ba (concat (part_rows ba sets (map k sets) q 0)) b1" "0 < q"
      "\<forall>s < length sets. map k sets ! s + q \<le> length (?M (sets ! s))" "q * length sets \<le> max (length sets) n_ubatch"
    by (auto simp: start less_imp_le)
  let ?rows = "part_rows ba sets (map k sets) q 0"
  note P = part_rows_shape [OF rok r(3)]
  from hand_out [OF r(1) ok, of "length sets" True] ne P(1) obtain ub ba' where
    u: "ba_ubatch_add (concat ?rows) (length sets) True b1 = Some (ub, ba')" "handed ba (concat ?rows) ba'" "gathers ba (concat ?rows) ub"
      "ub_n_seqs ub = length sets" "ub_n_seq_tokens ub = q" "ub_equal_seqs ub" by auto
  have "equal_shape B n_ubatch (concat ?rows) ub"
    unfolding equal_shape_def
  proof (intro conjI, rule u(6), rule exI [of _ sets], rule exI [of _ ?rows], intro conjI)
    show "length ?rows = ub_n_seqs ub" "length sets = ub_n_seqs ub" using u(4) by (simp_all add: part_rows_def)
    show "\<forall>r \<in> set ?rows. length r = ub_n_seq_tokens ub \<and> sorted_wrt (<) r" using P(2) u(5) by simp
    show "\<forall>k < length sets. \<forall>i \<in> set (?rows ! k). token_set B i = sets ! k" using P(3) B by simp
    show "length (concat ?rows) \<le> max (length sets) n_ubatch" using P(1) r(4) by simp
  qed (rule refl, rule sets(2), rule sets(3))
  moreover have "concat ?rows \<noteq> []" using P(1) ne r(2) by (metis length_0_conv mult_is_0 not_gr_zero)
  moreover have "ba_split_equal n_ubatch sequential ba = Some (ub, ba')"
    using seq p ne cur l u(1) by (auto simp: ba_split_equal_def simp del: equal_loop.simps)
  ultimately show "\<exists>ub idxs ba'. ba_split_equal n_ubatch sequential ba = Some (ub, ba') \<and> equal_inv sequential B ba' \<and> idxs \<noteq> []
      \<and> handed ba idxs ba' \<and> gathers ba idxs ub \<and> equal_shape B n_ubatch idxs ub"
    using u(2,3) equal_inv_step [OF rok inv u(2) r(3)] by blast
qed

end
