(* ===== verification/Batch_Init.thy ===== *)
theory Batch_Init
  imports Batch_Equal
begin

text \<open>
  What a successful \<^verbatim>\<open>init\<close> establishes: a consistent allocator with every token unused, the positions of
  every sequence, and the coupling of sequences.
\<close>

section \<open>Loops that succeeded\<close>

lemma foldM_flag_False: "foldM (\<lambda>x ok. if \<not> ok then Some False else f x) xs False = Some False"
  by (induction xs) auto

lemma foldM_flag:
  "foldM (\<lambda>x ok. if \<not> ok then Some False else f x) xs True = Some True \<longleftrightarrow> (\<forall>x \<in> set xs. f x = Some True)"
proof (induction xs)
  case (Cons x xs)
  then show ?case
  proof (cases "f x")
    case (Some b)
    with Cons.IH show ?thesis by (cases b) (simp_all add: foldM_flag_False)
  qed simp
qed simp

lemma foldM_upt_partial:
  assumes "foldM f [a..<b] s = Some t" and "a \<le> b" and "I a s"
    and "\<And>k u v. a \<le> k \<Longrightarrow> k < b \<Longrightarrow> I k u \<Longrightarrow> f k u = Some v \<Longrightarrow> I (Suc k) v"
  shows "I b t"
  using assms
proof (induction "b - a" arbitrary: a s)
  case (Suc n)
  then have ab: "a < b" by simp
  with Suc.prems(1) obtain u where u: "f a s = Some u" "foldM f [Suc a..<b] u = Some t"
    by (auto simp: upt_conv_Cons dest: bind_SomeD)
  show ?case
    by (rule Suc.hyps(1) [OF _ u(2)]) (use Suc.hyps(2) Suc.prems ab u(1) in auto)
qed simp

section \<open>Statistics\<close>

text \<open>The part of the allocator that the statistics leave alone.\<close>

definition same_frame :: "batch_allocr \<Rightarrow> batch_allocr \<Rightarrow> bool" where
  "same_frame ba ba' \<longleftrightarrow> ba_batch ba' = ba_batch ba \<and> ba_n_pos_per_embd ba' = ba_n_pos_per_embd ba
     \<and> ba_n_embd ba' = ba_n_embd ba \<and> ba_n_seq_max ba' = ba_n_seq_max ba \<and> ba_seq_idx ba' = ba_seq_idx ba"

definition couples :: "llama_batch \<Rightarrow> nat \<Rightarrow> bool" where
  "couples b i \<longleftrightarrow> length (token_seqs_of b i) > 1"

lemma batch_seqsD:
  assumes "batch_seqs b i = Some ss"
  shows "ss = token_seqs_of b i"
    "\<exists>ns ids. lb_n_seq_id b = Some ns \<and> lb_seq_id b = Some ids \<and> i < length ns \<and> i < length ids \<and> ns ! i \<le> length (ids ! i)"
  using assms by (auto simp: batch_seqs_def token_seqs_of_def split: bind_splits)

lemma couple_seqs_ok:
  assumes "foldM (couple_seq p s0) (enumerate k ss) ba = Some ba'"
  shows "same_frame ba ba' \<and> ba_seq_set ba' = ba_seq_set ba \<and> ba_seq_set_map ba' = ba_seq_set_map ba
    \<and> (\<forall>s. ba_seq_pos ba' s = (if s \<in> set ss then insert p (ba_seq_pos ba s) else ba_seq_pos ba s))
    \<and> (ba_has_cpl ba' \<longleftrightarrow> ba_has_cpl ba \<or> ss \<noteq> [] \<and> (0 < k \<or> 1 < length ss)) \<and> (\<forall>s \<in> set ss. seq_id_ok s)
    \<and> ba_n_outputs ba' = ba_n_outputs ba"
  using assms
proof (induction ss arbitrary: k ba)
  case Nil
  then show ?case by (simp add: same_frame_def)
next
  case (Cons s ss)
  then obtain b1 where b1: "couple_seq p s0 (k, s) ba = Some b1" "foldM (couple_seq p s0) (enumerate (Suc k) ss) b1 = Some ba'"
    by (auto dest: bind_SomeD)
  have "same_frame ba b1 \<and> ba_seq_set b1 = ba_seq_set ba \<and> ba_seq_set_map b1 = ba_seq_set_map ba \<and> seq_id_ok s
      \<and> ba_seq_pos b1 = (ba_seq_pos ba)(s := insert p (ba_seq_pos ba s)) \<and> (ba_has_cpl b1 \<longleftrightarrow> ba_has_cpl ba \<or> 0 < k)
      \<and> ba_n_outputs b1 = ba_n_outputs ba"
    using b1(1) by (auto simp: couple_seq_def Let_def same_frame_def split: if_splits)
  with Cons.IH [OF b1(2)] show ?case by (cases ss) (auto simp: same_frame_def)
qed

lemma ba_stats_ok:
  assumes "ba_stats ba = Some ba'" and "ba_seq_pos ba = (\<lambda>_. {})" and "ba_seq_set ba = []" and "ba_seq_set_map ba = (\<lambda>_. [])"
  shows "ba_batch ba' = ba_batch ba \<and> ba_n_pos_per_embd ba' = ba_n_pos_per_embd ba
      \<and> ba_n_embd ba' = ba_n_embd ba \<and> ba_n_seq_max ba' = ba_n_seq_max ba"
    and "\<forall>i < ba_n_tokens ba. (\<exists>ps. lb_pos (ba_batch ba) = Some ps \<and> i < length ps)
      \<and> batch_seqs (ba_batch ba) i = Some (token_seqs_of (ba_batch ba) i) \<and> (\<exists>s0. batch_seq0 (ba_batch ba) i = Some s0)
      \<and> (\<exists>out. lb_logits (ba_batch ba) = Some out \<and> i < length out)"
    and "ba_seq_set ba' = map (\<lambda>i. token_set (ba_batch ba) i) [0..<ba_n_tokens ba]"
    and "ba_seq_set_map ba' t = filter (\<lambda>i. token_set (ba_batch ba) i = t) [0..<ba_n_tokens ba]"
    and "ba_seq_pos ba' s = {the (lb_pos (ba_batch ba)) ! i |i. i < ba_n_tokens ba \<and> s \<in> token_set (ba_batch ba) i}"
    and "ba_has_cpl ba' \<longleftrightarrow> (\<exists>i < ba_n_tokens ba. couples (ba_batch ba) i)"
proof -
  let ?b = "ba_batch ba" and ?n = "ba_n_tokens ba" and ?ps = "the (lb_pos (ba_batch ba))"
  from assms(1) obtain n_out b1 b2 unq idx ids where
    out: "count_outputs ?b = Some n_out" and
    s1: "foldM couple_token [0..<?n] (ba\<lparr>ba_n_outputs := n_out, ba_has_cpl := False\<rparr>) = Some b1" and
    s2: "foldM add_seq_set [0..<?n] (b1, {}) = Some (b2, unq)" and
    s3: "index_seqs (ba_n_seq_max b2) unq (ba_seq_idx b2) = Some (idx, ids)" and
    r: "ba' = b2\<lparr>ba_seq_idx := idx, ba_seq_id_unq := ids\<rparr>"
    unfolding ba_stats_def Let_def by (auto split: bind_splits)
  define I1 where "I1 k u \<longleftrightarrow> same_frame ba u \<and> ba_seq_set u = [] \<and> ba_seq_set_map u = (\<lambda>_. [])
      \<and> (\<forall>s. ba_seq_pos u s = {?ps ! i |i. i < k \<and> s \<in> token_set ?b i}) \<and> (ba_has_cpl u \<longleftrightarrow> (\<exists>i < k. couples ?b i))
      \<and> (\<forall>i < k. (\<exists>ps. lb_pos ?b = Some ps \<and> i < length ps) \<and> batch_seqs ?b i = Some (token_seqs_of ?b i)
          \<and> (\<exists>s0. batch_seq0 ?b i = Some s0))" for k u
  have I1: "I1 ?n b1"
  proof (rule foldM_upt_partial [OF s1])
    show "I1 0 (ba\<lparr>ba_n_outputs := n_out, ba_has_cpl := False\<rparr>)" using assms(2,3,4) by (simp add: I1_def same_frame_def)
    fix k u v assume k: "k < ?n" and u: "I1 k u" and v: "couple_token k u = Some v"
    then have fb: "ba_batch u = ?b" by (simp add: I1_def same_frame_def)
    from v obtain s0 ss ps p where c: "batch_seq0 ?b k = Some s0" "batch_seqs ?b k = Some ss" "lb_pos ?b = Some ps" "k < length ps"
      "p = ps ! k" "foldM (couple_seq p s0) (enumerate 0 ss) u = Some v"
      by (auto simp: couple_token_def fb split: bind_splits)
    note ss = batch_seqsD(1) [OF c(2)]
    from couple_seqs_ok [OF c(6)] u have
      "same_frame ba v" "ba_seq_set v = []" "ba_seq_set_map v = (\<lambda>_. [])"
      "\<And>s. ba_seq_pos v s = (if s \<in> set ss then insert p (ba_seq_pos u s) else ba_seq_pos u s)"
      "ba_has_cpl v \<longleftrightarrow> ba_has_cpl u \<or> ss \<noteq> [] \<and> 1 < length ss" by (auto simp: I1_def same_frame_def)
    moreover have "{?ps ! i |i. i < Suc k \<and> s \<in> token_set ?b i}
        = (if s \<in> set ss then insert p {?ps ! i |i. i < k \<and> s \<in> token_set ?b i} else {?ps ! i |i. i < k \<and> s \<in> token_set ?b i})" for s
      using c(3,5) ss by (auto simp: less_Suc_eq)
    ultimately show "I1 (Suc k) v" using u c ss unfolding I1_def by (auto simp: less_Suc_eq couples_def)
  qed simp
  define I2 where "I2 k u \<longleftrightarrow> same_frame ba (fst u) \<and> ba_seq_pos (fst u) = ba_seq_pos b1 \<and> ba_has_cpl (fst u) = ba_has_cpl b1
      \<and> ba_seq_set (fst u) = map (\<lambda>i. token_set ?b i) [0..<k]
      \<and> (\<forall>t. ba_seq_set_map (fst u) t = filter (\<lambda>i. token_set ?b i = t) [0..<k])" for k and u :: "batch_allocr \<times> seq_set_t"
  have I2: "I2 ?n (b2, unq)"
  proof (rule foldM_upt_partial [OF s2])
    show "I2 0 (b1, {})" using I1 by (simp add: I1_def I2_def)
    fix k u v assume k: "k < ?n" and u: "I2 k u" and v: "add_seq_set k u = Some v"
    obtain x unq where ux: "u = (x, unq)" by (cases u)
    then have fb: "ba_batch x = ?b" using u by (simp add: I2_def same_frame_def)
    from v ux have "fst v = x\<lparr>ba_seq_set := ba_seq_set x @ [token_set ?b k],
        ba_seq_set_map := (ba_seq_set_map x)(token_set ?b k := ba_seq_set_map x (token_set ?b k) @ [k])\<rparr>"
      using batch_seqsD(1) by (fastforce simp: add_seq_set_def fb Let_def split: bind_splits)
    with u ux show "I2 (Suc k) v" by (auto simp: I2_def same_frame_def)
  qed simp
  show "ba_batch ba' = ba_batch ba \<and> ba_n_pos_per_embd ba' = ba_n_pos_per_embd ba
      \<and> ba_n_embd ba' = ba_n_embd ba \<and> ba_n_seq_max ba' = ba_n_seq_max ba"
    "ba_seq_set ba' = map (\<lambda>i. token_set ?b i) [0..<?n]"
    "ba_seq_set_map ba' t = filter (\<lambda>i. token_set ?b i = t) [0..<?n]"
    "ba_seq_pos ba' s = {?ps ! i |i. i < ?n \<and> s \<in> token_set ?b i}"
    "ba_has_cpl ba' \<longleftrightarrow> (\<exists>i < ?n. couples ?b i)"
    using I1 I2 r by (auto simp: I1_def I2_def same_frame_def)
  have "\<forall>i < nat (lb_n_tokens ?b). \<exists>out. lb_logits ?b = Some out \<and> i < length out"
    by (rule foldM_upt_partial [OF out [unfolded count_outputs_def], where I = "\<lambda>k _. \<forall>i < k. \<exists>out. lb_logits ?b = Some out \<and> i < length out"])
      (auto simp: less_Suc_eq split: bind_splits)
  then show "\<forall>i < ?n. (\<exists>ps. lb_pos ?b = Some ps \<and> i < length ps) \<and> batch_seqs ?b i = Some (token_seqs_of ?b i)
      \<and> (\<exists>s0. batch_seq0 ?b i = Some s0) \<and> (\<exists>out. lb_logits ?b = Some out \<and> i < length out)"
    using I1 by (auto simp: I1_def ba_n_tokens_def)
qed

section \<open>The check of sequence subsets\<close>

lemma set_all_seqs_ok: "seq_id_ok s \<Longrightarrow> s \<in> set all_seqs"
  by (auto simp: all_seqs_def seq_id_ok_def image_iff intro!: bexI [of _ "nat s"])

lemma subset_seqs_ok:
  assumes "\<forall>s \<in> set ss. s \<in> this" and "vget sets i = Some this" and "\<forall>s. seq_id_ok s \<longrightarrow> s \<in> cur s"
    and "\<forall>s \<in> set ss. seq_id_ok s"
  shows "\<exists>cur'. foldM (\<lambda>s (ok, cur).
         if \<not> ok then Some (False, cur)
         else do {
           this \<leftarrow> vget sets i;
           let cur = cur(s := cur s \<inter> this);
           Some (cur s \<noteq> {} \<and> \<not> p < (- 1 :: int), cur) }) ss (ok, cur)
      = Some (ok \<and> (ss = [] \<or> - 1 \<le> p), cur') \<and> (\<forall>s. seq_id_ok s \<longrightarrow> s \<in> cur' s)"
  using assms(1,3,4)
proof (induction ss arbitrary: ok cur)
  case (Cons s ss)
  let ?cur = "cur(s := cur s \<inter> this)"
  have absorb: "(- 1 \<le> p \<and> (ss = [] \<or> - 1 \<le> p)) = (- 1 \<le> p)" by auto
  have inv: "\<forall>t. seq_id_ok t \<longrightarrow> t \<in> ?cur t" and ne: "?cur s \<noteq> {}" using Cons.prems by auto
  show ?case
  proof (cases ok)
    case False
    with Cons.IH [of cur False] Cons.prems show ?thesis by simp
  next
    case True
    have "(if \<not> ok then Some (False, cur) else do { this \<leftarrow> vget sets i; let cur = cur(s := cur s \<inter> this);
        Some (cur s \<noteq> {} \<and> \<not> p < (- 1 :: int), cur) }) = Some (- 1 \<le> p, ?cur)"
      using True ne assms(2) by (auto simp: Let_def vget_def simp del: vget_Some_iff)
    moreover from Cons.IH [of ?cur "- 1 \<le> p"] inv Cons.prems obtain cur' where
      "foldM (\<lambda>s (ok, cur). if \<not> ok then Some (False, cur) else do { this \<leftarrow> vget sets i; let cur = cur(s := cur s \<inter> this);
        Some (cur s \<noteq> {} \<and> \<not> p < (- 1 :: int), cur) }) ss (- 1 \<le> p, ?cur) = Some (- 1 \<le> p, cur')"
      "\<forall>s. seq_id_ok s \<longrightarrow> s \<in> cur' s" by (auto simp: absorb simp del: fun_upd_apply)
    ultimately show ?thesis using True by (simp del: vget_Some_iff)
  qed
qed simp

text \<open>
  The running intersection of a sequence always contains the sequence itself, and the running position is never
  updated: neither the comparison of the sets nor the one of the positions can fail.
\<close>

lemma subsets_ok_void:
  assumes "ba_seq_set ba = map (\<lambda>i. token_set (ba_batch ba) i) [0..<ba_n_tokens ba]" and "lb_pos (ba_batch ba) = Some ps"
    and "\<forall>i < ba_n_tokens ba. i < length ps \<and> batch_seqs (ba_batch ba) i = Some (token_seqs_of (ba_batch ba) i)
      \<and> (\<forall>s \<in> token_set (ba_batch ba) i. seq_id_ok s)"
  shows "subsets_ok ba = Some (\<forall>i < ba_n_tokens ba. token_seqs_of (ba_batch ba) i = [] \<or> - 1 \<le> ps ! i)"
proof -
  let ?b = "ba_batch ba"
  let ?I = "\<lambda>k (ok, cur). ok = (\<forall>i < k. token_seqs_of ?b i = [] \<or> - 1 \<le> ps ! i) \<and> (\<forall>s. seq_id_ok s \<longrightarrow> s \<in> cur s)"
  have "\<exists>r. foldM (subset_step ba (\<lambda>_. - 1)) [0..<ba_n_tokens ba] (True, \<lambda>_. set all_seqs) = Some r \<and> ?I (ba_n_tokens ba) r"
  proof (rule foldM_upt_total [where I = ?I])
    fix k r assume k: "k < ba_n_tokens ba" and r: "?I k r"
    obtain ok cur where rr: "r = (ok, cur)" by (cases r)
    note K = assms(3) [rule_format, OF k]
    have this: "vget (ba_seq_set ba) k = Some (token_set ?b k)" using assms(1) k by (simp add: vget_def)
    have "\<forall>s \<in> set (token_seqs_of ?b k). s \<in> token_set ?b k" by simp
    from subset_seqs_ok [OF this \<open>vget (ba_seq_set ba) k = Some (token_set ?b k)\<close>, of cur "ps ! k" ok] r K rr obtain cur' where
      "foldM (\<lambda>s (ok, cur). if \<not> ok then Some (False, cur)
         else do { this \<leftarrow> vget (ba_seq_set ba) k; let cur = cur(s := cur s \<inter> this);
           Some (cur s \<noteq> {} \<and> \<not> ps ! k < - 1, cur) }) (token_seqs_of ?b k) (ok, cur)
        = Some (ok \<and> (token_seqs_of ?b k = [] \<or> - 1 \<le> ps ! k), cur')" "\<forall>s. seq_id_ok s \<longrightarrow> s \<in> cur' s" by auto
    then have "\<exists>cur'. subset_step ba (\<lambda>_. - 1) k r = Some (ok \<and> (token_seqs_of ?b k = [] \<or> - 1 \<le> ps ! k), cur')
        \<and> (\<forall>s. seq_id_ok s \<longrightarrow> s \<in> cur' s)"
      using K assms(2) r by (cases ok) (auto simp: subset_step_def rr vget_def Let_def)
    then show "\<exists>v. subset_step ba (\<lambda>_. - 1) k r = Some v \<and> ?I (Suc k) v" using r by (auto simp: rr less_Suc_eq)
  qed (auto simp: set_all_seqs_ok)
  then show ?thesis by (auto simp: subsets_ok_def)
qed

section \<open>Filling in the missing fields\<close>

lemma fill_seqs_same:
  "lb_n_tokens (fill_seqs b) = lb_n_tokens b" "lb_token (fill_seqs b) = lb_token b" "lb_embd (fill_seqs b) = lb_embd b"
  "lb_pos (fill_seqs b) = lb_pos b" "lb_logits (fill_seqs b) = lb_logits b"
  "lb_n_seq_id (fill_seqs b) = Some (case lb_n_seq_id b of None \<Rightarrow> replicate (nat (lb_n_tokens b)) 1 | Some ns \<Rightarrow> ns)"
  "lb_seq_id (fill_seqs b) = Some (case lb_seq_id b of None \<Rightarrow> replicate (nat (lb_n_tokens b)) [0] | Some ids \<Rightarrow> ids)"
  by (auto simp: fill_seqs_def Let_def split: option.splits)

lemma fill_pos_same:
  assumes "fill_pos m memory b = Some b'"
  shows "lb_n_tokens b' = lb_n_tokens b" "lb_token b' = lb_token b" "lb_embd b' = lb_embd b" "lb_n_seq_id b' = lb_n_seq_id b"
    "lb_seq_id b' = lb_seq_id b" "lb_logits b' = lb_logits b" "lb_pos b = Some ps \<Longrightarrow> lb_pos b' = Some ps"
  using assms by (auto simp: fill_pos_def split: if_splits bind_splits)

lemma fill_logits_same:
  assumes "fill_logits out_all b = Some b'"
  shows "lb_n_tokens b' = lb_n_tokens b" "lb_token b' = lb_token b" "lb_embd b' = lb_embd b" "lb_n_seq_id b' = lb_n_seq_id b"
    "lb_seq_id b' = lb_seq_id b" "lb_pos b' = lb_pos b"
  using assms by (auto simp: fill_logits_def Let_def split: if_splits bind_splits option.splits)

lemma fill_logits_outputs:
  assumes "fill_logits out_all b = Some b'" and "i < nat (lb_n_tokens b)"
  shows "\<exists>out. lb_logits b' = Some out \<and> (out_all \<longrightarrow> out ! i) \<and> (\<not> out_all \<longrightarrow> lb_logits b = None \<longrightarrow> (out ! i \<longleftrightarrow> i = nat (lb_n_tokens b) - 1))"
proof (cases "lb_logits b")
  case None
  with assms show ?thesis by (auto simp: fill_logits_def Let_def nth_list_update split: if_splits)
next
  case (Some out)
  show ?thesis
  proof (cases out_all)
    case True
    with assms(1) Some obtain warn where w: "foldM (\<lambda>i w. do { o' \<leftarrow> vget out i; Some (w \<or> \<not> o') }) [0..<nat (lb_n_tokens b)] False = Some warn"
      "b' = (if warn then b\<lparr>lb_logits := Some (replicate (nat (lb_n_tokens b)) True)\<rparr> else b)"
      by (auto simp: fill_logits_def Let_def split: bind_splits)
    have "warn \<longleftrightarrow> (\<exists>k < nat (lb_n_tokens b). \<not> out ! k)"
      by (rule foldM_upt_partial [OF w(1), where I = "\<lambda>k w. w \<longleftrightarrow> (\<exists>j < k. \<not> out ! j)"]) (auto simp: less_Suc_eq split: bind_splits)
    with w(2) assms(2) Some True show ?thesis by (auto split: if_splits)
  qed (use assms Some in \<open>auto simp: fill_logits_def Let_def\<close>)
qed

text \<open>The positions that are filled in are one for every token.\<close>

lemma next_position_length: "next_position b i r = Some r' \<Longrightarrow> length (fst r') = Suc (length (fst r))"
  by (auto simp: next_position_def split: prod.splits bind_splits)

lemma fill_pos_length:
  assumes "fill_pos m memory b = Some b'" and "lb_pos b = None"
  shows "\<exists>ps. lb_pos b' = Some ps \<and> length ps = nat (lb_n_tokens b)"
proof -
  from assms obtain p0 r where r: "foldM (next_position b) [0..<nat (lb_n_tokens b)] ([], p0) = Some r" "b' = b\<lparr>lb_pos := Some (fst r)\<rparr>"
    by (auto simp: fill_pos_def split: bind_splits prod.splits)
  have "length (fst r) = nat (lb_n_tokens b)"
    by (rule foldM_upt_partial [OF r(1), where I = "\<lambda>k r. length (fst r) = k"]) (auto dest: next_position_length)
  with r(2) show ?thesis by simp
qed

lemma tokens_validD:
  assumes "tokens_valid n_vocab b = Some True" and "lb_token b = Some toks"
  shows "\<forall>i < nat (lb_n_tokens b). i < length toks \<and> 0 \<le> toks ! i \<and> toks ! i < int n_vocab"
  using assms by (fastforce simp: tokens_valid_def foldM_flag Ball_def bind_eq_Some_conv)

lemma seq_ids_validD:
  assumes "seq_ids_valid m b = Some True" and "lb_seq_id b = Some ids" and "i < nat (lb_n_tokens b)"
  shows "\<exists>ns. lb_n_seq_id b = Some ns \<and> i < length ns \<and> (\<forall>s \<in> set (take (ns ! i) (ids ! i)). 0 \<le> s \<and> s < int m)"
proof -
  from assms have "\<exists>ns. lb_n_seq_id b = Some ns \<and> i < length ns \<and> (\<forall>s < ns ! i. s < length (ids ! i) \<and> 0 \<le> ids ! i ! s \<and> ids ! i ! s < int m)"
    by (fastforce simp: seq_ids_valid_def foldM_flag Ball_def bind_eq_Some_conv)
  then show ?thesis by (auto simp: in_set_conv_nth)
qed

end
