(* ===== verification/Batch_Ready.thy ===== *)
theory Batch_Ready
  imports Batch_Init
begin

text \<open>
  A successful \<^verbatim>\<open>init\<close> leaves an allocator from which all three methods can split: \<open>ba_ok\<close>, with every token unused.
  It also shows which continuations of a sequence are accepted.
\<close>

section \<open>What the caller must provide\<close>

text \<open>
  \<^verbatim>\<open>init\<close> does not know how long the arrays of the caller are. Every token has a sequence, the embeddings are complete, and
  without tokens the positions have all sections.
\<close>

definition input_ok :: "nat \<Rightarrow> nat \<Rightarrow> nat \<Rightarrow> llama_batch \<Rightarrow> bool" where
  "input_ok n_pos n_embd n_seq_max b \<longleftrightarrow> 0 < n_seq_max
     \<and> (\<forall>e. lb_embd b = Some e \<longrightarrow> nat (lb_n_tokens b) * n_embd \<le> length e)
     \<and> (\<forall>ns. lb_n_seq_id b = Some ns \<longrightarrow> (\<forall>i < nat (lb_n_tokens b). 0 < ns ! i))
     \<and> (lb_token b = None \<longrightarrow> (case lb_pos b of None \<Rightarrow> n_pos \<le> 1 | Some ps \<Rightarrow> n_pos * nat (lb_n_tokens b) \<le> length ps))"

text \<open>The positions that the batch has for a sequence.\<close>

definition batch_positions :: "llama_batch \<Rightarrow> llama_seq_id \<Rightarrow> llama_pos set" where
  "batch_positions b s = {the (lb_pos b) ! i |i. i < nat (lb_n_tokens b) \<and> s \<in> token_set b i}"

lemma finite_batch_positions [simp]: "finite (batch_positions b s)"
  by (simp add: batch_positions_def)

text \<open>As many numbers as there are between the least and the greatest leave no gap.\<close>

lemma no_gap:
  assumes "finite P" and "P \<noteq> {}" and "Max P - Min P + 1 \<le> int (card P)"
  shows "P = {Min P..Max P}"
proof (rule card_subset_eq)
  show "P \<subseteq> {Min P..Max P}" using assms(1) by auto
  then have "card P \<le> nat (Max P - Min P + 1)" using card_mono [of "{Min P..Max P}" P] by simp
  with assms show "card P = card {Min P..Max P}" by simp
qed simp

section \<open>Unfolding a success\<close>

lemma ba_init_unfold:
  assumes "ba_init inp n_vocab memory n_embd m out_all ba = Some (True, ba1)"
  obtains b1 b2 s where "0 < lb_n_tokens inp" "m \<le> LLAMA_MAX_SEQ" "tokens_valid n_vocab inp = Some True" "seq_ids_valid m inp = Some True"
    "fill_pos m memory (fill_seqs inp) = Some b1" "fill_logits out_all b1 = Some b2"
    "ba_stats ((ba_clear ba)\<lparr>ba_batch := b2, ba_n_embd := n_embd, ba_n_seq_max := m\<rparr>) = Some s"
    "all_seqs_consistent memory s = Some True" "all_coupled_agree memory s = Some True" "subsets_ok s = Some True" "ba1 = ba_split_reset s"
  using assms unfolding ba_init_def Let_def
  by (auto simp: bind_eq_Some_conv split: if_splits)

lemma init_frame:
  assumes "ba_init inp n_vocab memory n_embd m out_all ba = Some (True, ba1)"
  shows "ba_n_tokens ba1 = nat (lb_n_tokens inp)" "lb_n_tokens (ba_batch ba1) = lb_n_tokens inp" "lb_token (ba_batch ba1) = lb_token inp"
    "lb_embd (ba_batch ba1) = lb_embd inp" "lb_pos inp = Some ps \<Longrightarrow> lb_pos (ba_batch ba1) = Some ps" "ba_n_embd ba1 = n_embd" "ba_n_seq_max ba1 = m"
    "ba_n_pos_per_embd ba1 = ba_n_pos_per_embd ba" "ba_n_used ba1 = 0" "ba_out_ids ba1 = []" "ba_used ba1 = replicate (nat (lb_n_tokens inp)) False"
    "ba_has_cpl ba1 \<longleftrightarrow> (\<exists>i < nat (lb_n_tokens inp). couples (ba_batch ba1) i)"
    "0 < lb_n_tokens inp" "m \<le> LLAMA_MAX_SEQ"
proof -
  from assms obtain b1 b2 s where f: "0 < lb_n_tokens inp" "m \<le> LLAMA_MAX_SEQ"
    "fill_pos m memory (fill_seqs inp) = Some b1" "fill_logits out_all b1 = Some b2"
    "ba_stats ((ba_clear ba)\<lparr>ba_batch := b2, ba_n_embd := n_embd, ba_n_seq_max := m\<rparr>) = Some s" "ba1 = ba_split_reset s"
    by (rule ba_init_unfold)
  note S = ba_stats_ok [OF f(5)]
  have b: "ba_batch s = b2" "ba_n_embd s = n_embd" "ba_n_seq_max s = m" "ba_n_pos_per_embd s = ba_n_pos_per_embd ba"
    "ba_has_cpl s \<longleftrightarrow> (\<exists>i < nat (lb_n_tokens b2). couples b2 i)"
    using S(1,6) by (simp_all add: ba_clear_def ba_n_tokens_def)
  note same = fill_logits_same [OF f(4)] fill_pos_same [OF f(3)] fill_seqs_same [of inp]
  show "ba_n_tokens ba1 = nat (lb_n_tokens inp)" "lb_n_tokens (ba_batch ba1) = lb_n_tokens inp" "lb_token (ba_batch ba1) = lb_token inp"
    "lb_embd (ba_batch ba1) = lb_embd inp" "lb_pos inp = Some ps \<Longrightarrow> lb_pos (ba_batch ba1) = Some ps" "ba_n_embd ba1 = n_embd" "ba_n_seq_max ba1 = m"
    "ba_n_pos_per_embd ba1 = ba_n_pos_per_embd ba" "ba_n_used ba1 = 0" "ba_out_ids ba1 = []" "ba_used ba1 = replicate (nat (lb_n_tokens inp)) False"
    "ba_has_cpl ba1 \<longleftrightarrow> (\<exists>i < nat (lb_n_tokens inp). couples (ba_batch ba1) i)"
    "0 < lb_n_tokens inp" "m \<le> LLAMA_MAX_SEQ"
    using f(1,2,6) b same by (simp_all add: ba_split_reset_def ba_n_tokens_def)
qed

section \<open>Ready to split\<close>

lemma pos_long_enough:
  assumes "input_ok n_pos n_embd m inp" and "fill_pos m memory (fill_seqs inp) = Some b1"
    and "lb_token inp = None" and "lb_pos b1 = Some ps"
  shows "n_pos * nat (lb_n_tokens inp) \<le> length ps"
proof (cases "lb_pos inp")
  case None
  with assms fill_pos_length [OF assms(2)] have "length ps = nat (lb_n_tokens inp)" "n_pos \<le> 1"
    by (auto simp: input_ok_def fill_seqs_same)
  then show ?thesis by (cases n_pos) auto
next
  case (Some qs)
  with assms fill_pos_same(7) [OF assms(2), of qs] show ?thesis by (auto simp: input_ok_def fill_seqs_same)
qed

lemma init_batch_ok:
  assumes init: "ba_init inp n_vocab memory n_embd m out_all ba = Some (True, ba1)"
    and inp: "input_ok (ba_n_pos_per_embd ba) n_embd m inp"
  shows "ba_ok ba1"
proof -
  from init obtain b1 b2 s where f: "0 < lb_n_tokens inp" "m \<le> LLAMA_MAX_SEQ" "tokens_valid n_vocab inp = Some True" "seq_ids_valid m inp = Some True"
    "fill_pos m memory (fill_seqs inp) = Some b1" "fill_logits out_all b1 = Some b2"
    "ba_stats ((ba_clear ba)\<lparr>ba_batch := b2, ba_n_embd := n_embd, ba_n_seq_max := m\<rparr>) = Some s" "ba1 = ba_split_reset s"
    by (rule ba_init_unfold)
  let ?n = "nat (lb_n_tokens inp)"
  note S = ba_stats_ok [OF f(7)] and same = fill_logits_same [OF f(6)] fill_pos_same [OF f(5)] fill_seqs_same [of inp]
  have n: "ba_n_tokens ((ba_clear ba)\<lparr>ba_batch := b2, ba_n_embd := n_embd, ba_n_seq_max := m\<rparr>) = ?n" "lb_n_tokens b2 = lb_n_tokens inp"
    using same by (simp_all add: ba_n_tokens_def)
  have has: "\<exists>ps. lb_pos b2 = Some ps \<and> i < length ps" "batch_seqs b2 i = Some (token_seqs_of b2 i)"
    "\<exists>out. lb_logits b2 = Some out \<and> i < length out" if "i < ?n" for i
    using S(2) that n by (auto simp: ba_clear_def)
  have n0: "?n - 1 < ?n" using f(1) by simp
  obtain ps where ps: "lb_pos b2 = Some ps" "?n \<le> length ps" using has(1) [OF n0] by auto
  obtain out where out: "lb_logits b2 = Some out" "?n \<le> length out" using has(3) [OF n0] by auto
  define ns where "ns = (case lb_n_seq_id inp of None \<Rightarrow> replicate ?n 1 | Some ns \<Rightarrow> ns)"
  define ids where "ids = (case lb_seq_id inp of None \<Rightarrow> replicate ?n [0] | Some ids \<Rightarrow> ids)"
  have ids: "lb_n_seq_id b2 = Some ns" "lb_seq_id b2 = Some ids" using same by (simp_all add: ns_def ids_def)
  have len: "i < length ns" "i < length ids" "ns ! i \<le> length (ids ! i)" if "i < ?n" for i
    using batch_seqsD(2) [OF has(2) [OF that]] ids by auto
  have pos: "0 < ns ! i" if "i < ?n" for i
    using inp that by (auto simp: input_ok_def ns_def split: option.splits)
  have range: "0 \<le> s \<and> s < int m" if "i < ?n" "s \<in> set (token_seqs_of b2 i)" for i s
  proof (cases "lb_seq_id inp")
    case None
    with that ids have "s = 0" by (auto simp: token_seqs_of_def ids_def dest: in_set_takeD)
    then show ?thesis using inp by (simp add: input_ok_def)
  next
    case (Some js)
    with seq_ids_validD [OF f(4) Some that(1)] that(2) ids show ?thesis by (auto simp: token_seqs_of_def ids_def ns_def)
  qed
  have "batch_ok (ba_n_pos_per_embd ba) n_embd m b2"
    unfolding batch_ok_def
  proof (intro conjI)
    show "\<forall>toks. lb_token b2 = Some toks \<longrightarrow> nat (lb_n_tokens b2) \<le> length toks"
    proof (intro allI impI)
      fix toks assume "lb_token b2 = Some toks"
      then have "lb_token inp = Some toks" using same by simp
      from tokens_validD [OF f(3) this, rule_format, OF n0] show "nat (lb_n_tokens b2) \<le> length toks" using n(2) by linarith
    qed
    show "\<forall>e. lb_embd b2 = Some e \<longrightarrow> nat (lb_n_tokens b2) * n_embd \<le> length e" using inp same by (simp add: input_ok_def)
    show "\<exists>ps. lb_pos b2 = Some ps \<and> nat (lb_n_tokens b2) \<le> length ps
        \<and> (lb_token b2 = None \<longrightarrow> ba_n_pos_per_embd ba * nat (lb_n_tokens b2) \<le> length ps)"
      using ps pos_long_enough [OF inp f(5)] same by auto
    show "\<exists>ns ids. lb_n_seq_id b2 = Some ns \<and> lb_seq_id b2 = Some ids \<and> nat (lb_n_tokens b2) \<le> length ns
        \<and> nat (lb_n_tokens b2) \<le> length ids \<and> (\<forall>i < nat (lb_n_tokens b2). 0 < ns ! i \<and> ns ! i \<le> length (ids ! i))"
      using ids len pos len(1,2) [OF n0] n(2) by auto
  qed (use f(1,2) n out range in auto)
  moreover have "ba_batch s = b2" "ba_n_embd s = n_embd" "ba_n_seq_max s = m" "ba_n_pos_per_embd s = ba_n_pos_per_embd ba"
    "ba_seq_set s = map (\<lambda>i. token_set b2 i) [0..<?n]" "\<And>t. ba_seq_set_map s t = filter (\<lambda>i. token_set b2 i = t) [0..<?n]"
    using S(1,3,4) n by (simp_all add: ba_clear_def)
  ultimately show ?thesis using f(8) n(2) by (simp add: ba_ok_def ba_split_reset_def ba_n_tokens_def)
qed

lemma init_unused:
  assumes "ba_init inp n_vocab memory n_embd m out_all ba = Some (True, ba1)"
  shows "unused ba1 = {..<nat (lb_n_tokens inp)}"
  using init_frame(11) [OF assms] by (auto simp: unused_def)

lemma init_simple_inv:
  assumes "ba_init inp n_vocab memory n_embd m out_all ba = Some (True, ba1)" and "input_ok (ba_n_pos_per_embd ba) n_embd m inp"
  shows "simple_inv ba1"
  using init_batch_ok [OF assms] init_frame(11) [OF assms(1)] by (auto simp: simple_inv_def intro!: exI [of _ 0])

lemma init_equal_inv:
  assumes "ba_init inp n_vocab memory n_embd m out_all ba = Some (True, ba1)" and "input_ok (ba_n_pos_per_embd ba) n_embd m inp"
    and "sequential \<longrightarrow> (\<forall>i < nat (lb_n_tokens inp). \<not> couples (ba_batch ba1) i)"
  shows "equal_inv sequential (ba_batch ba1) ba1"
  unfolding equal_inv_def
proof (intro conjI allI)
  fix t
  show "\<exists>k. \<forall>j < length (ba_seq_set_map ba1 t). ba_seq_set_map ba1 t ! j \<in> unused ba1 \<longleftrightarrow> k \<le> j"
    using seq_set_map_ok(1) [OF init_batch_ok [OF assms(1,2)], of _ t] init_unused [OF assms(1)] init_frame(1) [OF assms(1)]
    by (intro exI [of _ 0]) (metis le0 lessThan_iff nth_mem)
qed (use init_batch_ok [OF assms(1,2)] init_frame(12) [OF assms(1)] assms(3) in auto)

section \<open>Accepted continuations\<close>

lemma init_positions:
  assumes "ba_stats ((ba_clear ba)\<lparr>ba_batch := b, ba_n_embd := n_embd, ba_n_seq_max := m\<rparr>) = Some s"
  shows "ba_seq_pos s t = batch_positions b t" "ba_batch s = b" "ba_n_seq_max s = m" "ba_n_pos_per_embd s = ba_n_pos_per_embd ba"
  using ba_stats_ok(1,5) [OF assms] by (simp_all add: ba_clear_def batch_positions_def ba_n_tokens_def)

lemma init_continuity:
  assumes init: "ba_init inp n_vocab memory n_embd m out_all ba = Some (True, ba1)" and "ba_n_pos_per_embd ba \<le> 1"
    and s: "0 \<le> t" "t < int m" and "batch_positions (ba_batch ba1) t \<noteq> {}"
  shows "\<exists>q. seq_max_of memory t = Some q \<and> (\<exists>a b. a \<le> b \<and> batch_positions (ba_batch ba1) t = {a..b} \<and> (0 \<le> q \<longrightarrow> a = q + 1))"
proof -
  from init obtain b2 s where f:
    "ba_stats ((ba_clear ba)\<lparr>ba_batch := b2, ba_n_embd := n_embd, ba_n_seq_max := m\<rparr>) = Some s"
    "all_seqs_consistent memory s = Some True" "ba1 = ba_split_reset s"
    by (rule ba_init_unfold)
  note P = init_positions [OF f(1)]
  let ?P = "batch_positions b2 t"
  have b: "ba_batch ba1 = b2" using f(3) P(2) by (simp add: ba_split_reset_def)
  have "seq_consistent memory s (nat t) = Some True"
    using f(2) s P(3) by (auto simp: all_seqs_consistent_def foldM_flag)
  then obtain q where q: "seq_max_of memory t = Some q" "\<not> (q \<ge> 0 \<and> Min ?P \<noteq> q + 1)" "\<not> (Max ?P - Min ?P + 1 > int (card ?P))"
    using assms(2) s assms(5) P b
    by (auto simp: seq_consistent_def Let_def ba_seq_pos_min_def ba_seq_pos_max_def bind_eq_Some_conv)
  then have "?P = {Min ?P..Max ?P}" using no_gap [of ?P] assms(5) b by simp
  moreover have "Min ?P \<le> Max ?P" using assms(5) b by simp
  ultimately show ?thesis using q b by (metis (no_types))
qed

end
