(* ===== verification/Batch_Props.thy ===== *)
theory Batch_Props
  imports Batch_Ready
begin

text \<open>
  The properties of \<^verbatim>\<open>llama_batch_allocr\<close>: each way of splitting hands out every token exactly once, in the form the method
  promises; a batch that is accepted continues its sequences without a gap; what the last check of \<^verbatim>\<open>init\<close> does not check.
\<close>

section \<open>Every token once\<close>

text \<open>
  The micro-batches \<open>ubs\<close> together take every token of the batch exactly once, each with all its data and in the form
  \<open>shape\<close>; afterwards all tokens are used, and the output indices are those of the tokens whose logits were asked for.
\<close>

definition partitioned :: "(nat list \<Rightarrow> ubatch \<Rightarrow> bool) \<Rightarrow> batch_allocr \<Rightarrow> ubatch list \<Rightarrow> batch_allocr \<Rightarrow> bool" where
  "partitioned shape ba ubs ba' \<longleftrightarrow> (\<exists>rows. list_all2 (\<lambda>ub idxs. idxs \<noteq> [] \<and> gathers ba idxs ub \<and> shape idxs ub) ubs rows
     \<and> distinct (concat rows) \<and> set (concat rows) = {..<ba_n_tokens ba} \<and> ba_n_used ba' = ba_n_tokens ba
     \<and> ba_out_ids ba' = filter (\<lambda>i. the (lb_logits (ba_batch ba)) ! i) (concat rows))"

lemma partitioned_all:
  assumes "splitter split I shape" and "I ba" and "unused ba = {..<ba_n_tokens ba}" and "ba_n_used ba = 0" "ba_out_ids ba = []"
  shows "\<exists>ubs ba'. split_all split (Suc (ba_n_tokens ba)) ba = Some (ubs, ba') \<and> partitioned shape ba ubs ba'"
proof -
  have "card (unused ba) < Suc (ba_n_tokens ba)" using assms(3) by simp
  from splitter.split_all_consumes [OF assms(1,2) this] show ?thesis
    using assms(3-5) by (fastforce simp: partitioned_def)
qed

lemma init_unused_all:
  assumes "ba_init inp n_vocab memory n_embd m out_all ba = Some (True, ba1)"
  shows "unused ba1 = {..<ba_n_tokens ba1}" "ba_n_used ba1 = 0" "ba_out_ids ba1 = []"
  using init_unused [OF assms] init_frame(1,9,10) [OF assms] by simp_all

section \<open>An example\<close>

definition demo_batch :: llama_batch where
  "demo_batch = \<lparr>lb_n_tokens = 4, lb_token = Some [5, 6, 7, 8], lb_embd = None, lb_pos = None, lb_n_seq_id = Some [1, 1, 1, 1],
     lb_seq_id = Some [[0], [0], [1], [1]], lb_logits = None\<rparr>"

definition demo_ready :: batch_allocr where
  "demo_ready = snd (the (ba_init demo_batch 10 None 1 2 False (ba_new 1)))"

lemma demo_init: "ba_init demo_batch 10 None 1 2 False (ba_new 1) = Some (True, demo_ready)"
proof -
  have "map_option fst (ba_init demo_batch 10 None 1 2 False (ba_new 1)) = Some True" by code_simp
  then show ?thesis by (auto simp: demo_ready_def)
qed

lemma demo_input: "input_ok (ba_n_pos_per_embd (ba_new 1)) 1 2 demo_batch"
  by (auto simp: input_ok_def demo_batch_def nth_Cons' ba_new_def)

lemma demo_uncoupled: "True \<longrightarrow> (\<forall>i < nat (lb_n_tokens demo_batch). \<not> couples (ba_batch demo_ready) i)"
proof -
  have "\<not> ba_has_cpl demo_ready" by code_simp
  then show ?thesis using init_frame(12) [OF demo_init] by simp
qed

section \<open>Properties\<close>

text \<open>(\<open>split_simple\<close>) After a successful \<open>init\<close>, splitting until an empty micro-batch comes back ends and hands out every
  token of the batch exactly once, in runs of consecutive tokens, none longer than \<open>n_ubatch\<close> (or one token), each token with
  its id, positions, sequences and output flag.\<close>

theorem split_simple_partition:
  assumes "ba_init inp n_vocab memory n_embd n_seq_max output_all ba = Some (True, ba1)"
    and "input_ok (ba_n_pos_per_embd ba) n_embd n_seq_max inp"
  shows "\<exists>ubs ba'. split_all (ba_split_simple n_ubatch) (Suc (ba_n_tokens ba1)) ba1 = Some (ubs, ba')
    \<and> partitioned (simple_shape n_ubatch) ba1 ubs ba'"
  by (rule partitioned_all [OF simple.splitter_axioms init_simple_inv [OF assms] init_unused_all [OF assms(1)]])

theorem split_simple_partition_witness:
  "\<exists>ubs ba'. split_all (ba_split_simple 3) (Suc (ba_n_tokens demo_ready)) demo_ready = Some (ubs, ba')
    \<and> partitioned (simple_shape 3) demo_ready ubs ba'"
  by (rule split_simple_partition [OF demo_init demo_input])

text \<open>C3: (\<open>split_equal\<close>) The same for equal splits: each micro-batch has pairwise disjoint sequence sets, the same number
  of tokens for each of them, in the order of the batch, all of exactly that set. With the \<open>sequential\<close> flag, which refuses coupled
  sequences, the batch must have none.\<close>

theorem split_equal_partition:
  assumes "ba_init inp n_vocab memory n_embd n_seq_max output_all ba = Some (True, ba1)"
    and "input_ok (ba_n_pos_per_embd ba) n_embd n_seq_max inp"
    and "sequential \<longrightarrow> (\<forall>i < nat (lb_n_tokens inp). \<not> couples (ba_batch ba1) i)"
  shows "\<exists>ubs ba'. split_all (ba_split_equal n_ubatch sequential) (Suc (ba_n_tokens ba1)) ba1 = Some (ubs, ba')
    \<and> partitioned (equal_shape (ba_batch ba1) n_ubatch) ba1 ubs ba'"
  by (rule partitioned_all [OF equal.splitter_axioms init_equal_inv [OF assms] init_unused_all [OF assms(1)]])

theorem split_equal_partition_witness:
  "\<exists>ubs ba'. split_all (ba_split_equal 3 True) (Suc (ba_n_tokens demo_ready)) demo_ready = Some (ubs, ba')
    \<and> partitioned (equal_shape (ba_batch demo_ready) 3) demo_ready ubs ba'"
  by (rule split_equal_partition [OF demo_init demo_input demo_uncoupled])

text \<open>C32: (\<open>split_seq\<close>) The same for splits by sequence: the indices of a micro-batch increase, and each token's sequences are
  among those of the token before it.\<close>

theorem split_seq_partition:
  assumes "ba_init inp n_vocab memory n_embd n_seq_max output_all ba = Some (True, ba1)"
    and "input_ok (ba_n_pos_per_embd ba) n_embd n_seq_max inp"
  shows "\<exists>ubs ba'. split_all (ba_split_seq n_ubatch) (Suc (ba_n_tokens ba1)) ba1 = Some (ubs, ba')
    \<and> partitioned (seq_shape (ba_batch ba1) n_ubatch) ba1 ubs ba'"
proof -
  have "seq_inv (ba_batch ba1) ba1" using init_batch_ok [OF assms] by (simp add: seq_inv_def)
  from partitioned_all [OF seq.splitter_axioms this init_unused_all [OF assms(1)]] show ?thesis .
qed

theorem split_seq_partition_witness:
  "\<exists>ubs ba'. split_all (ba_split_seq 3) (Suc (ba_n_tokens demo_ready)) demo_ready = Some (ubs, ba')
    \<and> partitioned (seq_shape (ba_batch demo_ready) 3) demo_ready ubs ba'"
  by (rule split_seq_partition [OF demo_init demo_input])

text \<open>(\<open>split_equal\<close>) Three one-token sequences and a limit of two tokens give one micro-batch of three tokens: the
  loop that collects sequence sets is left only once there are more than \<open>n_ubatch\<close> of them.\<close>

theorem split_equal_exceeds_limit:
  "\<exists>ba. ba_init \<lparr>lb_n_tokens = 3, lb_token = Some [5, 6, 7], lb_embd = None, lb_pos = None, lb_n_seq_id = Some [1, 1, 1],
       lb_seq_id = Some [[0], [1], [2]], lb_logits = None\<rparr> 10 None 1 3 False (ba_new 1) = Some (True, ba)
     \<and> map_option (\<lambda>(ub, _). ub_n_tokens ub) (ba_split_equal 2 False ba) = Some 3"
proof -
  let ?i = "ba_init \<lparr>lb_n_tokens = 3, lb_token = Some [5, 6, 7], lb_embd = None, lb_pos = None, lb_n_seq_id = Some [1, 1, 1],
       lb_seq_id = Some [[0], [1], [2]], lb_logits = None\<rparr> 10 None 1 3 False (ba_new 1)"
  have "map_option fst ?i = Some True" by code_simp
  moreover have "map_option (\<lambda>(ub, _). ub_n_tokens ub) (ba_split_equal 2 False (snd (the ?i))) = Some 3" by code_simp
  ultimately show ?thesis by auto
qed

section \<open>Accepted and rejected batches\<close>

text \<open>C33: (\<open>init\<close>, one position per token) A batch is accepted only if the positions of each of its sequences form an
  interval without a gap, and if this interval begins right after the last position that the memory holds of the sequence.\<close>

theorem init_continues_sequences:
  assumes "ba_init inp n_vocab memory n_embd n_seq_max output_all ba = Some (True, ba1)" and "ba_n_pos_per_embd ba \<le> 1"
    and "0 \<le> s" "s < int n_seq_max" and "batch_positions (ba_batch ba1) s \<noteq> {}"
  shows "\<exists>q. seq_max_of memory s = Some q \<and> (\<exists>a b. a \<le> b \<and> batch_positions (ba_batch ba1) s = {a..b} \<and> (0 \<le> q \<longrightarrow> a = q + 1))"
  by (rule init_continuity [OF assms])

theorem init_continues_sequences_witness:
  "\<exists>a b. batch_positions (ba_batch demo_ready) 1 = {a..b}"
proof -
  have "lb_pos (ba_batch demo_ready) = Some [0, 1, 0, 1] \<and> lb_n_tokens (ba_batch demo_ready) = 4
      \<and> token_seqs_of (ba_batch demo_ready) 3 = [1]" by code_simp
  then have "batch_positions (ba_batch demo_ready) 1 \<noteq> {}"
    by (auto simp: batch_positions_def intro!: exI [of _ 3])
  from init_continues_sequences [OF demo_init _ _ _ this] show ?thesis by (auto simp: ba_new_def)
qed

lemma stats_seqs_ok:
  assumes "ba_stats ba = Some s" and "i < ba_n_tokens ba" and "t \<in> token_set (ba_batch ba) i"
  shows "seq_id_ok t"
proof -
  let ?b = "ba_batch ba"
  from assms(1) obtain n_out b1 where s1: "foldM couple_token [0..<ba_n_tokens ba] (ba\<lparr>ba_n_outputs := n_out, ba_has_cpl := False\<rparr>) = Some b1"
    unfolding ba_stats_def Let_def by (auto split: bind_splits)
  have "ba_batch b1 = ?b \<and> (\<forall>i < ba_n_tokens ba. \<forall>t \<in> token_set ?b i. seq_id_ok t)"
  proof (rule foldM_upt_partial [OF s1, where I = "\<lambda>k u. ba_batch u = ?b \<and> (\<forall>i < k. \<forall>t \<in> token_set ?b i. seq_id_ok t)"])
    fix k u v assume u: "ba_batch u = ?b \<and> (\<forall>i < k. \<forall>t \<in> token_set ?b i. seq_id_ok t)" and v: "couple_token k u = Some v"
    then obtain s0 ss p where c: "batch_seqs ?b k = Some ss" "foldM (couple_seq p s0) (enumerate 0 ss) u = Some v"
      by (auto simp: couple_token_def split: bind_splits)
    from couple_seqs_ok [OF c(2)] batch_seqsD(1) [OF c(1)] u
    show "ba_batch v = ?b \<and> (\<forall>i < Suc k. \<forall>t \<in> token_set ?b i. seq_id_ok t)" by (auto simp: same_frame_def less_Suc_eq)
  qed auto
  with assms(2,3) show ?thesis by blast
qed

text \<open>C34: (the last check of \<open>init\<close>) On the statistics of any batch, the loop that is to reject decreasing positions and sequence
  sets that are not subsets of the earlier ones rejects only positions below -1: the running positions are never updated, and the
  running set of a sequence always contains the sequence.\<close>

theorem order_check_never_rejects:
  assumes "ba_stats ((ba_clear ba)\<lparr>ba_batch := b, ba_n_embd := n_embd, ba_n_seq_max := n_seq_max\<rparr>) = Some s"
    and "lb_pos b = Some ps" and "\<forall>i < nat (lb_n_tokens b). - 1 \<le> ps ! i"
  shows "subsets_ok s = Some True"
proof -
  let ?ba = "(ba_clear ba)\<lparr>ba_batch := b, ba_n_embd := n_embd, ba_n_seq_max := n_seq_max\<rparr>"
  note S = ba_stats_ok [OF assms(1)]
  have n: "ba_n_tokens s = nat (lb_n_tokens b)" "ba_n_tokens ?ba = nat (lb_n_tokens b)" "ba_batch s = b"
    using S(1) by (simp_all add: ba_n_tokens_def ba_clear_def)
  have "subsets_ok s = Some (\<forall>i < ba_n_tokens s. token_seqs_of (ba_batch s) i = [] \<or> - 1 \<le> ps ! i)"
  proof (rule subsets_ok_void)
    show "\<forall>i < ba_n_tokens s. i < length ps \<and> batch_seqs (ba_batch s) i = Some (token_seqs_of (ba_batch s) i)
        \<and> (\<forall>t \<in> token_set (ba_batch s) i. seq_id_ok t)"
      using S(2) n stats_seqs_ok [OF assms(1)] assms(2) by (auto simp: ba_clear_def)
  qed (use S(3) n assms(2) in \<open>simp_all add: ba_clear_def\<close>)
  with assms(3) n show ?thesis by simp
qed

text \<open>The witness has the two tokens of a sequence in decreasing order, and a token of two sequences behind one of a single one.\<close>

definition bad_order :: llama_batch where
  "bad_order = \<lparr>lb_n_tokens = 3, lb_token = Some [5, 6, 7], lb_embd = None, lb_pos = Some [1, 0, 2], lb_n_seq_id = Some [1, 1, 2],
     lb_seq_id = Some [[0], [0], [0, 1]], lb_logits = Some [False, False, True]\<rparr>"

theorem order_check_never_rejects_witness:
  "map_option fst (ba_init bad_order 10 None 1 2 False (ba_new 1)) = Some True
   \<and> bind (ba_stats ((ba_clear (ba_new 1))\<lparr>ba_batch := bad_order, ba_n_embd := 1, ba_n_seq_max := 2\<rparr>)) subsets_ok = Some True"
proof
  show "map_option fst (ba_init bad_order 10 None 1 2 False (ba_new 1)) = Some True" by code_simp
  have "ba_stats ((ba_clear (ba_new 1))\<lparr>ba_batch := bad_order, ba_n_embd := 1, ba_n_seq_max := 2\<rparr>) \<noteq> None" by code_simp
  then obtain s where s: "ba_stats ((ba_clear (ba_new 1))\<lparr>ba_batch := bad_order, ba_n_embd := 1, ba_n_seq_max := 2\<rparr>) = Some s" by blast
  have "subsets_ok s = Some True"
    by (rule order_check_never_rejects [OF s]) (auto simp: bad_order_def nth_Cons')
  with s show "bind (ba_stats ((ba_clear (ba_new 1))\<lparr>ba_batch := bad_order, ba_n_embd := 1, ba_n_seq_max := 2\<rparr>)) subsets_ok = Some True" by simp
qed

end
