(* ===== verification/Kv_Init_Batch.thy ===== *)
theory Kv_Init_Batch
  imports Batch_Props Kv_Place
begin

text \<open>
  \<^verbatim>\<open>llama_kv_cache::init_batch\<close>: the batch is split, and a slot is prepared for every micro-batch. Together with the
  placement of the micro-batches this connects the batch that the caller passes to the positions the cache holds.
\<close>

definition kv_splitter :: "nat \<Rightarrow> kv_cache \<Rightarrow> batch_allocr \<Rightarrow> (ubatch \<times> batch_allocr) option" where
  "kv_splitter n_ubatch kv = (if kv_n_stream kv = 1 then ba_split_simple n_ubatch else ba_split_equal n_ubatch True)"

text \<open>The context of a failure, \<^verbatim>\<open>LLAMA_MEMORY_STATUS_FAILED_PREPARE\<close>, is \<open>None\<close> as the first component.\<close>

definition kv_init_batch :: "nat \<Rightarrow> batch_allocr \<Rightarrow> kv_cache
    \<Rightarrow> ((slot_info list \<times> ubatch list) option \<times> batch_allocr \<times> kv_cache) option" where
  "kv_init_batch n_ubatch balloc kv = do {
     let balloc = ba_split_reset balloc;
     (ubatches, balloc) \<leftarrow> split_all (kv_splitter n_ubatch kv) (Suc (ba_n_tokens balloc)) balloc;
     if ba_n_used balloc < ba_n_tokens balloc then Some (None, balloc, kv)
     else do {
       (sinfos, kv) \<leftarrow> kv_prepare ubatches kv;
       Some (if sinfos = [] then None else Some (sinfos, ubatches), balloc, kv) } }"

section \<open>Micro-batches of a batch\<close>

text \<open>The positions that a micro-batch has for a sequence.\<close>

definition ub_positions :: "ubatch \<Rightarrow> llama_seq_id \<Rightarrow> llama_pos set" where
  "ub_positions ub s = {ub_pos ub ! i |i. i < ub_n_tokens ub \<and> s \<in> set (token_seqs ub i)}"

text \<open>What the cache asserts of a batch beyond \<open>ba_ok\<close>: no negative position, no sequence twice, only sequences it has.\<close>

definition batch_fits :: "kv_cache \<Rightarrow> batch_allocr \<Rightarrow> bool" where
  "batch_fits kv ba \<longleftrightarrow> 0 < ba_n_pos_per_embd ba \<and> ba_n_seq_max ba \<le> length (kv_seq_to_stream kv)
     \<and> (\<forall>i < ba_n_tokens ba. 0 \<le> the (lb_pos (ba_batch ba)) ! i \<and> distinct (token_seqs_of (ba_batch ba) i))"

lemma concat_rows_nth:
  assumes "\<forall>j < m. length (f j) = n" and "j < m" and "i < n"
  shows "j * n + i < length (concat (map f [0..<m])) \<and> concat (map f [0..<m]) ! (j * n + i) = f j ! i"
  using assms
proof (induction m)
  case (Suc m)
  have len: "length (concat (map f [0..<m])) = m * n"
    using Suc.prems(1) by (induction m) (auto simp: length_concat)
  show ?case
  proof (cases "j < m")
    case True
    with Suc show ?thesis by (auto simp: nth_append)
  next
    case False
    with Suc.prems have "j = m" by simp
    with len Suc.prems show ?thesis by (simp add: nth_append)
  qed
qed simp

lemma gathers_token:
  assumes g: "gathers ba idxs ub" and ok: "ba_ok ba" and fits: "batch_fits kv ba" and idxs: "set idxs \<subseteq> {..<ba_n_tokens ba}" and i: "i < length idxs"
  shows "ub_pos ub ! i = the (lb_pos (ba_batch ba)) ! (idxs ! i)" "token_seqs ub i = token_seqs_of (ba_batch ba) (idxs ! i)" "token_ok ub i"
proof -
  let ?b = "ba_batch ba" and ?n = "length idxs" and ?m = "ba_n_pos_per_embd ba"
  have b: "batch_ok ?m (ba_n_embd ba) (ba_n_seq_max ba) ?b" using ok by (simp add: ba_ok_def)
  have k: "idxs ! i < nat (lb_n_tokens ?b)" "idxs ! i < ba_n_tokens ba" using idxs i by (auto simp: ba_n_tokens_def subset_iff)
  note G = g [unfolded gathers_def]
  let ?f = "\<lambda>j. map (\<lambda>i. the (lb_pos ?b) ! ((if lb_token ?b \<noteq> None then 0 else j * ba_n_tokens ba) + i)) idxs"
  have nth: "j * ?n + i < length (ub_pos ub) \<and> ub_pos ub ! (j * ?n + i) = ?f j ! i" if "j < ?m" for j
    using concat_rows_nth [of ?m ?f ?n j i] G that i by auto
  have m: "0 < ?m" using fits by (simp add: batch_fits_def)
  show pos: "ub_pos ub ! i = the (lb_pos ?b) ! (idxs ! i)" using nth [OF m] i by simp
  obtain ns ids where ns: "lb_n_seq_id ?b = Some ns" "ns ! (idxs ! i) \<le> length (the (lb_seq_id ?b) ! (idxs ! i))" "0 < ns ! (idxs ! i)"
    using batch_okD(5) [OF b] k by fastforce
  show seqs: "token_seqs ub i = token_seqs_of ?b (idxs ! i)"
    using G i ns by (simp add: token_seqs_def token_seqs_of_def)
  have "ub_is_pos_2d ub \<longrightarrow> i + ub_n_tokens ub * 2 < length (ub_pos ub)"
    using nth [of 2] G by (auto simp: ub_is_pos_2d_def add.commute mult.commute)
  moreover have "i < length (ub_pos ub)" using nth [OF m] by simp
  moreover have "0 \<le> ub_pos ub ! i" "distinct (token_seqs ub i)" using fits k(2) pos seqs by (simp_all add: batch_fits_def)
  moreover have "set (token_seqs ub i) \<subseteq> Collect seq_id_ok" using batch_seqs_ok(4) [OF b k(1)] seqs by auto
  moreover have "0 < ub_n_seq_id ub ! i \<and> ub_n_seq_id ub ! i \<le> length (ub_seq_id ub ! i)"
    using G i ns by (simp add: token_seqs_of_def)
  ultimately show "token_ok ub i" using G i by (simp add: token_ok_def)
qed

lemma gathers_ub_ok:
  assumes g: "gathers ba idxs ub" and ok: "ba_ok ba" and fits: "batch_fits kv ba" and idxs: "set idxs \<subseteq> {..<ba_n_tokens ba}" and ne: "idxs \<noteq> []"
  shows "ub_ok kv ub"
proof -
  let ?b = "ba_batch ba"
  note G = g [unfolded gathers_def]
  have b: "batch_ok (ba_n_pos_per_embd ba) (ba_n_embd ba) (ba_n_seq_max ba) ?b" using ok by (simp add: ba_ok_def)
  have k: "hd idxs \<in> set idxs" "hd idxs < nat (lb_n_tokens ?b)" using ne idxs by (auto simp: ba_n_tokens_def subset_iff)
  from batch_seqs_ok(3,4) [OF b k(2)] obtain s where s: "s \<in> set (token_seqs_of ?b (hd idxs))" "seq_id_ok s" "s < int (ba_n_seq_max ba)"
    by (cases "token_seqs_of ?b (hd idxs)") auto
  then have "s \<in> set (ub_seq_id_unq ub)"
    using G k(1) by (auto simp: seq_id_ok_def intro!: image_eqI [of _ _ "nat s"])
  then have unq: "ub_seq_id_unq ub \<noteq> []" by auto
  then have "ub_seq_id_unq ub ! 0 \<in> set (ub_seq_id_unq ub)" by simp
  then have "0 \<le> ub_seq_id_unq ub ! 0 \<and> ub_seq_id_unq ub ! 0 < int (ba_n_seq_max ba)" using G by auto
  then have "kv_seq_valid kv (ub_seq_id_unq ub ! 0)" using fits by (auto simp: kv_seq_valid_def batch_fits_def)
  with unq G ne gathers_token(3) [OF g ok fits idxs] show ?thesis by (simp add: ub_ok_def)
qed

lemma gathers_positions:
  assumes "gathers ba idxs ub" and "ba_ok ba" and "batch_fits kv ba" and "set idxs \<subseteq> {..<ba_n_tokens ba}"
  shows "ub_positions ub s = {the (lb_pos (ba_batch ba)) ! k |k. k \<in> set idxs \<and> s \<in> token_set (ba_batch ba) k}"
proof -
  have "ub_n_tokens ub = length idxs" using assms(1) by (simp add: gathers_def)
  with gathers_token(1,2) [OF assms] have
    "ub_positions ub s = {the (lb_pos (ba_batch ba)) ! (idxs ! i) |i. i < length idxs \<and> s \<in> token_set (ba_batch ba) (idxs ! i)}"
    by (auto simp: ub_positions_def) metis+
  then show ?thesis by (auto simp: in_set_conv_nth)
qed

section \<open>Placing the micro-batches\<close>

lemma prepared_positions:
  assumes "unified kv" "\<forall>ub \<in> set ubs. ub_ok kv ub" "prepare_loop ubs res states kv = Some (True, res', states', kv')"
  shows "seq_positions (kc_view (kv_v_cells kv' ! 0)) s
    = seq_positions (kc_view (kv_v_cells kv ! 0)) s \<union> (\<Union>ub \<in> set ubs. ub_positions ub s)"
  using assms
proof (induction ubs arbitrary: kv res states)
  case (Cons ub ubs)
  have "ub_ok kv ub" using Cons.prems(2) by simp
  with find_slot_unified [OF Cons.prems(1) this] Cons.prems(3) obtain si idxs where
    si: "kv_find_slot kv ub False = Some si" "slot_ok kv ub si idxs" "\<not> si_empty si"
    by (auto simp: si_empty_def si_none_def split: if_splits)
  obtain kv1 d where a: "kv_apply_ubatch si ub kv = Some kv1" "kv1 = kv_put 0 d (last idxs + 1) kv" "unified kv1"
    "\<And>s. seq_positions (kc_view d) s = seq_positions (kc_view (kv_v_cells kv ! 0)) s
       \<union> {ub_pos ub ! i |i. i < length idxs \<and> s \<in> set (token_seqs ub i)}"
    using apply_unified_places [OF Cons.prems(1) si(2)] by blast
  from Cons.prems(3) si a(1) obtain ps where "prepare_loop ubs (res @ [si]) (states @ [ps]) kv1 = Some (True, res', states', kv')"
    by (auto split: bind_splits)
  from Cons.IH [OF a(3) _ this] Cons.prems(2) a(2) have
    "seq_positions (kc_view (kv_v_cells kv' ! 0)) s = seq_positions (kc_view (kv_v_cells kv1 ! 0)) s \<union> (\<Union>ub \<in> set ubs. ub_positions ub s)"
    by simp
  moreover have "kv_v_cells kv1 ! 0 = d" using a(2) Cons.prems(1) by (simp add: kv_put_def unified_def kv_inv_def)
  moreover have "length idxs = ub_n_tokens ub" using si(2) by (simp add: slot_ok_def)
  ultimately show ?case using a(4) [of s] by (auto simp: ub_positions_def)
qed simp

lemma init_reset: "ba_init inp n_vocab memory n_embd m out_all ba = Some (True, ba1) \<Longrightarrow> ba_split_reset ba1 = ba1"
  by (erule ba_init_unfold) (simp add: ba_split_reset_def ba_n_tokens_def)

lemma partitioned_rows:
  assumes "partitioned shape ba ubs ba'"
  obtains rows where "list_all2 (\<lambda>ub idxs. idxs \<noteq> [] \<and> gathers ba idxs ub) ubs rows" "\<forall>idxs \<in> set rows. set idxs \<subseteq> {..<ba_n_tokens ba}"
    "(\<Union>idxs \<in> set rows. set idxs) = {..<ba_n_tokens ba}"
proof -
  from assms obtain rows where r: "list_all2 (\<lambda>ub idxs. idxs \<noteq> [] \<and> gathers ba idxs ub \<and> shape idxs ub) ubs rows"
    "set (concat rows) = {..<ba_n_tokens ba}" unfolding partitioned_def by blast
  show thesis
    by (rule that [OF list_all2_mono [OF r(1)]]) (use r(2) in auto)
qed

lemma partitioned_ubs:
  assumes "partitioned shape ba ubs ba'" and "ba_ok ba" and "batch_fits kv ba"
  shows "\<forall>ub \<in> set ubs. ub_ok kv ub" "(\<Union>ub \<in> set ubs. ub_positions ub s) = batch_positions (ba_batch ba) s"
proof -
  from assms(1) obtain rows where r: "list_all2 (\<lambda>ub idxs. idxs \<noteq> [] \<and> gathers ba idxs ub) ubs rows" "\<forall>idxs \<in> set rows. set idxs \<subseteq> {..<ba_n_tokens ba}"
    "(\<Union>idxs \<in> set rows. set idxs) = {..<ba_n_tokens ba}" by (rule partitioned_rows)
  show "\<forall>ub \<in> set ubs. ub_ok kv ub"
    using r(1,2) gathers_ub_ok [OF _ assms(2,3)] by (fastforce simp: list_all2_conv_all_nth in_set_conv_nth)
  let ?P = "\<lambda>idxs. {the (lb_pos (ba_batch ba)) ! k |k. k \<in> set idxs \<and> s \<in> token_set (ba_batch ba) k}"
  have "map (\<lambda>ub. ub_positions ub s) ubs = map ?P rows"
    by (rule nth_equalityI) (use r(1,2) gathers_positions [OF _ assms(2,3)] in \<open>auto simp: list_all2_conv_all_nth\<close>)
  then have "(\<Union>ub \<in> set ubs. ub_positions ub s) = (\<Union>idxs \<in> set rows. ?P idxs)"
    by (metis (no_types, lifting) set_map)
  also have "\<dots> = {the (lb_pos (ba_batch ba)) ! k |k. k \<in> (\<Union>idxs \<in> set rows. set idxs) \<and> s \<in> token_set (ba_batch ba) k}" by blast
  also have "\<dots> = batch_positions (ba_batch ba) s" unfolding r(3) by (simp add: batch_positions_def ba_n_tokens_def)
  finally show "(\<Union>ub \<in> set ubs. ub_positions ub s) = batch_positions (ba_batch ba) s" .
qed

lemma kv_prepare_places:
  assumes "unified kv" "\<forall>ub \<in> set ubs. ub_ok kv ub" "ubs \<noteq> []"
  shows "\<exists>slots. kv_prepare ubs kv = Some (slots, kv) \<and> (slots \<noteq> [] \<longrightarrow> (\<exists>kv'. apply_slots (zip slots ubs) kv = Some kv' \<and> unified kv'
     \<and> (\<forall>s. seq_positions (kc_view (kv_v_cells kv' ! 0)) s
          = seq_positions (kc_view (kv_v_cells kv ! 0)) s \<union> (\<Union>ub \<in> set ubs. ub_positions ub s))))"
proof -
  obtain success sis news kv' where p: "prepare_loop ubs [] [] kv = Some (success, sis, news, kv')"
    "foldM restore_slot (rev news) kv' = Some kv" "length news = length sis"
    "success \<longrightarrow> length sis = length ubs \<and> apply_slots (zip sis ubs) kv = Some kv' \<and> unified kv'"
    using prepare_loop_unified [OF assms(1,2), of "[]" "[]"] by auto
  have "kv_prepare ubs kv = Some (if success then sis else [], kv)"
    using p assms(3) by (auto simp: kv_prepare_def check_def)
  then show ?thesis using p(1,4) prepared_positions [OF assms(1,2)] by (cases success) auto
qed

text \<open>C1: (\<open>init_batch\<close> on a unified cache without a sliding window, for a batch that \<open>init\<close> accepted) The call ends without
  a failed assertion and leaves the cache as it is. If it returns slots, the micro-batches hand out every token of the batch
  exactly once, and placing them in these slots in order succeeds, after which the cache holds for every sequence the
  positions it had and those of the batch, and no others.\<close>

theorem init_batch_places_batch:
  assumes "ba_init inp n_vocab memory n_embd n_seq_max output_all ba = Some (True, ba1)"
    and "input_ok (ba_n_pos_per_embd ba) n_embd n_seq_max inp" and "unified kv" and "batch_fits kv ba1"
  shows "\<exists>r ba2. kv_init_batch n_ubatch ba1 kv = Some (r, ba2, kv)
    \<and> (\<forall>slots ubs. r = Some (slots, ubs) \<longrightarrow> partitioned (simple_shape n_ubatch) ba1 ubs ba2
        \<and> (\<exists>kv'. apply_slots (zip slots ubs) kv = Some kv' \<and> unified kv'
            \<and> (\<forall>s. seq_positions (kc_view (kv_v_cells kv' ! 0)) s
                 = seq_positions (kc_view (kv_v_cells kv ! 0)) s \<union> batch_positions (ba_batch ba1) s)))"
proof -
  note ok = init_batch_ok [OF assms(1,2)]
  have simple_split: "kv_splitter n_ubatch kv = ba_split_simple n_ubatch" using assms(3) by (simp add: kv_splitter_def unified_def)
  from partitioned_all [OF simple.splitter_axioms init_simple_inv [OF assms(1,2)] init_unused_all [OF assms(1)]]
  obtain ubs ba2 where s: "split_all (ba_split_simple n_ubatch) (Suc (ba_n_tokens ba1)) ba1 = Some (ubs, ba2)"
    "partitioned (simple_shape n_ubatch) ba1 ubs ba2" by blast
  note U = partitioned_ubs [OF s(2) ok assms(4)]
  have n: "0 < ba_n_tokens ba1" using init_frame(1,13) [OF assms(1)] by simp
  have ne: "ubs \<noteq> []" using s(2) n by (auto simp: partitioned_def)
  from s(1) have batch: "ba_batch ba2 = ba_batch ba1"
    using simple.split_all_consumes [OF init_simple_inv [OF assms(1,2)], of "Suc (ba_n_tokens ba1)" n_ubatch] init_unused_all(1) [OF assms(1)]
    by (auto simp del: split_all.simps)
  have used: "\<not> ba_n_used ba2 < ba_n_tokens ba2"
    using s(2) batch by (auto simp: partitioned_def ba_n_tokens_def)
  obtain slots where p: "kv_prepare ubs kv = Some (slots, kv)" "slots \<noteq> [] \<longrightarrow> (\<exists>kv'. apply_slots (zip slots ubs) kv = Some kv' \<and> unified kv'
     \<and> (\<forall>s. seq_positions (kc_view (kv_v_cells kv' ! 0)) s
          = seq_positions (kc_view (kv_v_cells kv ! 0)) s \<union> batch_positions (ba_batch ba1) s))"
    using kv_prepare_places [OF assms(3) U(1) ne] unfolding U(2) by blast
  have "kv_init_batch n_ubatch ba1 kv = Some (if slots = [] then None else Some (slots, ubs), ba2, kv)"
    using s(1) used p(1) by (simp add: kv_init_batch_def init_reset [OF assms(1)] simple_split del: split_all.simps)
  then show ?thesis using s(2) p(2) by auto
qed

text \<open>The witness continues the two sequences of a cache with two free cells by one token each.\<close>

definition next_batch :: llama_batch where
  "next_batch = \<lparr>lb_n_tokens = 2, lb_token = Some [5, 6], lb_embd = None, lb_pos = Some [3, 2], lb_n_seq_id = Some [1, 1],
     lb_seq_id = Some [[0], [1]], lb_logits = None\<rparr>"

lemma used_of_code [code]: "used_of v = set (filter (\<lambda>i. c_pos (v ! i) \<noteq> - 1) [0..<length v])"
  by (auto simp: used_of_def)

definition next_ready :: batch_allocr where
  "next_ready = snd (the (ba_init next_batch 10 None 1 2 False (ba_new 1)))"

lemma next_init: "ba_init next_batch 10 None 1 2 False (ba_new 1) = Some (True, next_ready)"
proof -
  have "map_option fst (ba_init next_batch 10 None 1 2 False (ba_new 1)) = Some True" by code_simp
  then show ?thesis by (auto simp: next_ready_def)
qed

lemma next_ready_sel: "lb_pos (ba_batch next_ready) = Some [3, 2] \<and> ba_n_tokens next_ready = 2
    \<and> token_seqs_of (ba_batch next_ready) 0 = [0] \<and> token_seqs_of (ba_batch next_ready) 1 = [1]
    \<and> ba_n_seq_max next_ready = 2 \<and> ba_n_pos_per_embd next_ready = 1"
  by code_simp

lemma next_fits: "batch_fits demo_kv next_ready" "batch_positions (ba_batch next_ready) 1 = {2}"
  "input_ok (ba_n_pos_per_embd (ba_new 1)) 1 2 next_batch"
proof -
  have two: "k < 2 \<longleftrightarrow> k = 0 \<or> k = 1" for k :: nat by auto
  show "batch_fits demo_kv next_ready" "batch_positions (ba_batch next_ready) 1 = {2}"
    using next_ready_sel by (auto simp: batch_fits_def demo_kv_sel two batch_positions_def ba_n_tokens_def intro: exI [of _ "Suc 0"])
  show "input_ok (ba_n_pos_per_embd (ba_new 1)) 1 2 next_batch"
    by (auto simp: input_ok_def next_batch_def nth_Cons' ba_new_def)
qed

theorem init_batch_places_batch_witness:
  "\<exists>slots ubs ba2 kv'. kv_init_batch 1 next_ready demo_kv = Some (Some (slots, ubs), ba2, demo_kv)
    \<and> apply_slots (zip slots ubs) demo_kv = Some kv' \<and> seq_positions (kc_view (kv_v_cells kv' ! 0)) 1 = {1, 2}"
proof -
  obtain r ba2 where r: "kv_init_batch 1 next_ready demo_kv = Some (r, ba2, demo_kv)"
    "\<And>slots ubs. r = Some (slots, ubs) \<Longrightarrow> \<exists>kv'. apply_slots (zip slots ubs) demo_kv = Some kv'
       \<and> seq_positions (kc_view (kv_v_cells kv' ! 0)) 1 = seq_positions (kc_view (kv_v_cells demo_kv ! 0)) 1 \<union> batch_positions (ba_batch next_ready) 1"
    using init_batch_places_batch [OF next_init next_fits(3) demo_ub_ok(2) next_fits(1), of 1] by (elim exE conjE) (rule that, auto)
  have "map_option (\<lambda>(r, _). r \<noteq> None) (kv_init_batch 1 next_ready demo_kv) = Some True" by code_simp
  with r(1) obtain slots ubs where s: "r = Some (slots, ubs)" by auto
  from r(2) [OF s] obtain kv' where k: "apply_slots (zip slots ubs) demo_kv = Some kv'"
    "seq_positions (kc_view (kv_v_cells kv' ! 0)) 1 = seq_positions (kc_view (kv_v_cells demo_kv ! 0)) 1 \<union> batch_positions (ba_batch next_ready) 1"
    by (elim exE conjE) (rule that)
  have "seq_positions (kc_view (kv_v_cells demo_kv ! 0)) 1 = {1}"
    by (auto simp: demo_kv_sel demo_view_def seq_positions_def intro: exI [of _ "Cell 1 ext_reset 0 {0, 1}"])
  with k(2) next_fits(2) have "seq_positions (kc_view (kv_v_cells kv' ! 0)) 1 = {1, 2}" by auto
  with r(1) s k(1) show ?thesis by (intro exI conjI) auto
qed

end
