(* ===== verification/Kv_Purge.thy ===== *)
theory Kv_Purge
  imports Kv_Place
begin

text \<open>
  \<^verbatim>\<open>apply_ubatch\<close> on a slot of any cache that holds its tokens in cells, sliding window or not: the slot may
  reuse occupied cells, whose owners then lose every position up to the largest one overwritten
  (\<^verbatim>\<open>seq_pos_max_rm\<close> and the purge loop). The loop over the sequence ids is a map over the cells
  (\<open>purged\<close>), and what it leaves of a sequence is exactly its positions above that bound.
\<close>

section \<open>Overwriting one cell\<close>

definition cleared :: "kv_cell \<Rightarrow> kv_cell" where
  "cleared x = (if c_pos x = - 1 then x else empty_cell)"

definition over_pos :: "kv_cell \<Rightarrow> llama_seq_id \<Rightarrow> llama_pos" where
  "over_pos x s = (if s \<in> c_seq x then c_pos x else - 1)"

text \<open>The largest position of sequence \<open>s\<close> among the overwritten cells, \<open>-1\<close> if there is none.\<close>

definition over_max :: "kv_cell list \<Rightarrow> nat list \<Rightarrow> llama_seq_id \<Rightarrow> llama_pos" where
  "over_max V idxs s = fold (\<lambda>i m. max m (over_pos (V ! i) s)) idxs (- 1)"

lemma over_max_Nil [simp]: "over_max V [] s = - 1"
  by (simp add: over_max_def)

lemma over_max_snoc [simp]: "over_max V (is @ [i]) s = max (over_max V is s) (over_pos (V ! i) s)"
  by (simp add: over_max_def)

lemma over_max_ge: "- 1 \<le> over_max V is s"
  by (induction "is" rule: rev_induct) auto

lemma over_max_upper: "i \<in> set is \<Longrightarrow> s \<in> c_seq (V ! i) \<Longrightarrow> c_pos (V ! i) \<le> over_max V is s"
  by (induction "is" rule: rev_induct) (auto simp: over_pos_def)

lemma over_max_hit: "over_max V is s \<noteq> - 1 \<Longrightarrow> \<exists>i \<in> set is. s \<in> c_seq (V ! i) \<and> c_pos (V ! i) = over_max V is s"
  by (induction "is" rule: rev_induct) (auto simp: over_pos_def max_def split: if_splits)

definition rm_ok :: "int list \<Rightarrow> (llama_seq_id \<Rightarrow> llama_pos) \<Rightarrow> bool" where
  "rm_ok rm R \<longleftrightarrow> length rm = LLAMA_MAX_SEQ \<and> (\<forall>s < LLAMA_MAX_SEQ. rm ! s = R (int s))"

lemma place_token_over:
  assumes "cells_inv c" "cells_live c" "idx < kc_size c" "card (kc_seq c ! idx) \<le> 1" "token_ok ub i"
    and rm: "rm_ok rm R" "\<And>s. - 1 \<le> R s"
  shows "\<exists>d rm'. place_token ub i idx (c, rm) = Some (d, rm')
    \<and> rm_ok rm' (\<lambda>s. max (R s) (over_pos (cell_at c idx) s))
    \<and> effect c idx (tok_cell ub i (cleared (cell_at c idx))) (kc_has_shift c) d"
proof (cases "kc_pos c ! idx = - 1")
  case True
  then have "kc_seq c ! idx = {}" using cells_invD(3) [OF assms(1,3)] by simp
  then have "rm_ok rm (\<lambda>s. max (R s) (over_pos (cell_at c idx) s))"
    using rm by (simp add: rm_ok_def over_pos_def max_absorb1)
  then show ?thesis
    using place_token_empty [OF assms(1,3) True assms(5), of rm] True by (auto simp: cleared_def)
next
  case False
  have fin: "finite (kc_seq c ! idx)"
    using cells_invD(2) [OF assms(1,3)] by (rule finite_subset) (simp flip: set_all_seqs)
  have "kc_seq c ! idx \<noteq> {}" using assms(2,3) False by (auto simp: cells_live_nth cell_live_def)
  with fin have "card (kc_seq c ! idx) \<noteq> 0" by simp
  with assms(4) have one: "card (kc_seq c ! idx) = 1" by linarith
  then obtain s where s: "kc_seq c ! idx = {s}" using card_1_singletonE by blast
  have ok: "seq_id_ok s" "0 \<le> kc_pos c ! idx" using cells_invD [OF assms(1,3)] s False by auto
  then have ns: "nat s < LLAMA_MAX_SEQ" "0 \<le> s" by (auto simp: seq_id_ok_def)
  let ?rm = "rm[nat s := max (rm ! nat s) (kc_pos c ! idx)]"
  obtain c1 where c1: "kc_rm idx c = Some c1" "effect c idx empty_cell (kc_has_shift c) c1"
    using kc_rm_spec [OF assms(1,3) False] by blast
  have at: "cell_at c1 idx = empty_cell" by (rule effect_at [OF c1(2) assms(3)])
  then have e1: "kc_pos c1 ! idx = - 1" by (metis cell_at_sel(1) empty_cell_sel(1))
  have sz: "idx < kc_size c1" using effectD(4) [OF c1(2)] assms(3) by simp
  obtain d where d: "place_token ub i idx (c1, ?rm) = Some (d, ?rm)"
    "effect c1 idx (tok_cell ub i (cell_at c1 idx)) (kc_has_shift c1) d"
    using place_token_empty [OF effectD(1) [OF c1(2)] sz e1 assms(5)] by blast
  have "place_token ub i idx (c, rm) = place_token ub i idx (c1, ?rm)"
    using kc_is_empty_spec [OF assms(1,3)] kc_is_empty_spec [OF effectD(1) [OF c1(2)] sz] e1 False
      kc_seq_get_spec [OF assms(1,3) s] c1(1) one assms(3) ns rm(1)
    by (simp add: place_token_def kc_seq_count_def kc_pos_get_def vget_def vset_def rm_ok_def)
  moreover have "rm_ok ?rm (\<lambda>t. max (R t) (over_pos (cell_at c idx) t))"
    using rm s ns by (auto simp: rm_ok_def over_pos_def nth_list_update max_absorb1)
  moreover have "effect c idx (tok_cell ub i (cleared (cell_at c idx))) (kc_has_shift c) d"
    using effect_trans [OF c1(2) d(2)] effectD(3) [OF c1(2)] at False by (simp add: cleared_def)
  ultimately show ?thesis using d(1) by auto
qed

section \<open>All tokens of a slot\<close>

text \<open>
  A slot of stream \<open>st\<close> that may reuse cells: distinct cells, one per token, each held by at most one
  sequence of that stream, which is what \<^verbatim>\<open>find_slot\<close> offers.
\<close>

definition slot_over :: "kv_cache \<Rightarrow> ubatch \<Rightarrow> nat \<Rightarrow> slot_info \<Rightarrow> nat list \<Rightarrow> bool" where
  "slot_over kv ub st si idxs \<longleftrightarrow> si_strm si = [st] \<and> st < kv_n_stream kv \<and> si_idxs si = [idxs]
     \<and> idxs \<noteq> [] \<and> distinct idxs
     \<and> (\<forall>i \<in> set idxs. i < kv_size kv \<and> card (c_seq (kv_views kv ! st ! i)) \<le> 1
          \<and> (\<forall>s \<in> c_seq (kv_views kv ! st ! i). kv_seq_valid kv s \<and> kv_stream_of kv s = Some st))
     \<and> length idxs = ub_n_tokens ub \<and> (\<forall>i < length idxs. token_ok ub i)"

definition written :: "ubatch \<Rightarrow> nat list \<Rightarrow> nat \<Rightarrow> kv_cells \<Rightarrow> kv_cells \<Rightarrow> bool" where
  "written ub idxs k c d \<longleftrightarrow> cells_inv d \<and> cells_live d \<and> kc_has_shift d = kc_has_shift c \<and> kc_size d = kc_size c
     \<and> (\<forall>i < k. cell_at d (idxs ! i) = tok_cell ub i (cleared (cell_at c (idxs ! i))))
     \<and> (\<forall>j < kc_size c. j \<notin> set (take k idxs) \<longrightarrow> cell_at d j = cell_at c j)"

lemma written_step:
  assumes "written ub idxs k c d" "k < length idxs" "distinct idxs"
    "\<forall>i \<in> set idxs. i < kc_size c \<and> card (kc_seq c ! i) \<le> 1" "token_ok ub k"
    "rm_ok rm (over_max (kc_view c) (take k idxs))"
  shows "\<exists>e rm'. place_token ub k (idxs ! k) (d, rm) = Some (e, rm') \<and> written ub idxs (Suc k) c e
    \<and> rm_ok rm' (over_max (kc_view c) (take (Suc k) idxs))"
proof -
  note D = assms(1) [unfolded written_def]
  let ?j = "idxs ! k"
  have j: "?j < kc_size c" "card (kc_seq c ! ?j) \<le> 1" using assms(2,4) by simp_all
  have fresh: "?j \<notin> set (take k idxs)"
    using assms(2,3) by (auto simp: in_set_conv_nth nth_eq_iff_index_eq)
  then have at: "cell_at d ?j = cell_at c ?j" using D j(1) by blast
  then have "card (kc_seq d ! ?j) \<le> 1" using j(2) by (metis cell_at_sel(4))
  then obtain e rm' where e: "place_token ub k ?j (d, rm) = Some (e, rm')"
    "rm_ok rm' (\<lambda>s. max (over_max (kc_view c) (take k idxs) s) (over_pos (cell_at d ?j) s))"
    "effect d ?j (tok_cell ub k (cleared (cell_at d ?j))) (kc_has_shift d) e"
    using place_token_over [of d ?j ub k rm "over_max (kc_view c) (take k idxs)"] D j(1) assms(5,6) over_max_ge by auto
  have rm': "rm_ok rm' (over_max (kc_view c) (take (Suc k) idxs))"
    using e(2) at j(1) assms(2) by (simp add: take_Suc_conv_app_nth rm_ok_def)
  have same: "cell_at e i = (if i = ?j then tok_cell ub k (cleared (cell_at c ?j)) else cell_at d i)" if "i < kc_size c" for i
    using effect_nth [OF e(3), of i] that D at by simp
  have "set (token_seqs ub k) \<noteq> {}" using assms(5) by (auto simp: token_ok_def token_seqs_def)
  then have tl: "cell_live (tok_cell ub k x)" for x by (simp add: tok_cell_def cell_live_def)
  have "written ub idxs (Suc k) c e"
    unfolding written_def
  proof (intro conjI allI impI)
    show "cells_inv e" "kc_has_shift e = kc_has_shift c" "kc_size e = kc_size c"
      using effectD [OF e(3)] D by simp_all
    then show "cells_live e" using same tl D by (simp add: cells_live_nth)
    fix i assume "i < Suc k"
    show "cell_at e (idxs ! i) = tok_cell ub i (cleared (cell_at c (idxs ! i)))"
    proof (cases "i = k")
      case True
      then show ?thesis using same [OF j(1)] by simp
    next
      case False
      with \<open>i < Suc k\<close> have i: "i < k" by simp
      then have "idxs ! i \<noteq> ?j" "idxs ! i < kc_size c"
        using assms(2-4) by (simp_all add: nth_eq_iff_index_eq)
      then show ?thesis using same i D by simp
    qed
  next
    fix i assume "i < kc_size c" "i \<notin> set (take (Suc k) idxs)"
    then show "cell_at e i = cell_at c i" using same D assms(2) by (simp add: take_Suc_conv_app_nth)
  qed
  with e(1) rm' show ?thesis by blast
qed

lemma place_tokens_over:
  assumes "kv_inv kv" "slot_over kv ub st si idxs"
  defines "c \<equiv> kv_v_cells kv ! st"
  shows "\<exists>d rm. place_tokens si ub kv = Some (kv\<lparr>kv_v_cells := (kv_v_cells kv)[st := d]\<rparr>, rm)
    \<and> written ub idxs (length idxs) c d \<and> rm_ok rm (over_max (kc_view c) idxs)"
proof -
  note slot = assms(2) [unfolded slot_over_def]
  have st: "st < kv_n_stream kv" using slot by simp
  note kv = kv_invD [OF assms(1) st, folded c_def]
  define I where "I k s \<longleftrightarrow> (\<exists>d rm. s = (kv\<lparr>kv_v_cells := (kv_v_cells kv)[st := d]\<rparr>, rm)
    \<and> written ub idxs k c d \<and> rm_ok rm (over_max (kc_view c) (take k idxs)))" for k s
  define body :: "nat \<Rightarrow> kv_cache \<times> int list \<Rightarrow> (kv_cache \<times> int list) option" where "body ii krm = (case krm of (kv, rm) \<Rightarrow> do {
         st \<leftarrow> vget (si_strm si) 0;
         c \<leftarrow> vget (kv_v_cells kv) st;
         is \<leftarrow> vget (si_idxs si) 0;
         idx \<leftarrow> vget is ii;
         (c, rm) \<leftarrow> place_token ub (0 * length idxs + ii) idx (c, rm);
         Some (kv\<lparr>kv_v_cells := (kv_v_cells kv)[st := c]\<rparr>, rm) })" for ii krm
  have own: "\<forall>i \<in> set idxs. i < kc_size c \<and> card (kc_seq c ! i) \<le> 1"
    using slot kv(3,7) by (fastforce simp: kv_views_def c_def)
  let ?rm = "replicate LLAMA_MAX_SEQ (- 1 :: int)"
  have "\<exists>t. foldM body [0..<length idxs] (kv, ?rm) = Some t \<and> I (length idxs) t"
  proof (rule foldM_upt_total)
    have "written ub idxs 0 c c" using kv(1,2) by (simp add: written_def)
    moreover have "kv\<lparr>kv_v_cells := (kv_v_cells kv)[st := c]\<rparr> = kv" by (simp add: c_def)
    moreover have "rm_ok ?rm (over_max (kc_view c) (take 0 idxs))" by (simp add: rm_ok_def)
    ultimately show "I 0 (kv, ?rm)" unfolding I_def by (intro exI [of _ c] exI [of _ ?rm]) simp
    fix k u
    assume k: "k < length idxs" and "I k u"
    then obtain d rm where d: "u = (kv\<lparr>kv_v_cells := (kv_v_cells kv)[st := d]\<rparr>, rm)" "written ub idxs k c d"
      "rm_ok rm (over_max (kc_view c) (take k idxs))"
      by (auto simp: I_def)
    obtain e rm' where e: "place_token ub k (idxs ! k) (d, rm) = Some (e, rm')" "written ub idxs (Suc k) c e"
      "rm_ok rm' (over_max (kc_view c) (take (Suc k) idxs))"
      using written_step [OF d(2) k _ own _ d(3)] slot k by auto
    have "body k u = Some (kv\<lparr>kv_v_cells := (kv_v_cells kv)[st := e]\<rparr>, rm')"
      using e(1) slot k kv(7) by (simp add: body_def d(1) vget_def)
    with e(2,3) show "\<exists>v. body k u = Some v \<and> I (Suc k) v" by (auto simp: I_def)
  qed simp
  moreover have "si_size si = Some (length idxs)" "si_n_stream si = 1"
    using slot by (simp_all add: si_size_def si_n_stream_def)
  ultimately show ?thesis
    unfolding place_tokens_def I_def body_def by auto
qed

section \<open>The purge\<close>

text \<open>A cell after every sequence \<open>s\<close> lost its positions up to \<open>R s\<close>.\<close>

definition purged :: "(llama_seq_id \<Rightarrow> llama_pos) \<Rightarrow> kv_cell \<Rightarrow> kv_cell" where
  "purged R x = (let S = {s \<in> c_seq x. R s < c_pos x} in
     if S = c_seq x then x else if S = {} then empty_cell else set_seq x S)"

definition below :: "nat \<Rightarrow> (llama_seq_id \<Rightarrow> llama_pos) \<Rightarrow> llama_seq_id \<Rightarrow> llama_pos" where
  "below k R s = (if s < int k then R s else - 1)"

lemma purged_seq: "s \<in> c_seq (purged R x) \<longleftrightarrow> s \<in> c_seq x \<and> R s < c_pos x"
  by (auto simp: purged_def Let_def)

lemma purged_pos: "s \<in> c_seq (purged R x) \<Longrightarrow> c_pos (purged R x) = c_pos x"
  by (auto simp: purged_def Let_def split: if_splits)

lemma purged_keeps: "(\<And>s. s \<in> c_seq x \<Longrightarrow> R s < c_pos x) \<Longrightarrow> purged R x = x"
  by (auto simp: purged_def Let_def)

lemma purged_empties: "c_seq x \<noteq> {} \<Longrightarrow> (\<And>s. s \<in> c_seq x \<Longrightarrow> c_pos x \<le> R s) \<Longrightarrow> purged R x = empty_cell"
  by (force simp: purged_def Let_def not_less [symmetric])

lemma below_Suc: "below (Suc k) R s = (if s = int k then R s else below k R s)"
  by (auto simp: below_def)

lemma purged_step:
  fixes k R
  assumes "cell_ok x"
  defines "y \<equiv> purged (below k R) x"
  shows "purged (below (Suc k) R) x = (if int k \<in> c_seq y \<and> c_pos y \<le> R (int k) then x_seq_rm (int k) y else y)"
proof -
  let ?S = "\<lambda>k. {s \<in> c_seq x. below k R s < c_pos x}"
  have pos: "- 1 < c_pos x" if "s \<in> c_seq x" for s using assms(1) that by (cases "c_pos x = - 1") (auto simp: cell_ok_def)
  show ?thesis
  proof (cases "int k \<in> c_seq y \<and> c_pos y \<le> R (int k)")
    case True
    then have k: "int k \<in> c_seq x" "c_pos y = c_pos x" "c_seq y = ?S k"
      using purged_seq [of _ "below k R" x] purged_pos [of "int k" "below k R" x] by (auto simp: y_def)
    have S: "?S (Suc k) = ?S k - {int k}" using True k(1,2) by (auto simp: below_Suc)
    moreover have "set_seq y (?S k - {int k}) = set_seq x (?S k - {int k})"
      using k(1) True by (auto simp: y_def purged_def Let_def set_seq_def split: if_splits)
    moreover have "?S k - {int k} \<noteq> c_seq x" using k(1) by blast
    ultimately show ?thesis using True k(3) unfolding purged_def Let_def x_seq_rm_def S by simp
  next
    case False
    have "?S (Suc k) = ?S k"
    proof (cases "int k \<in> c_seq x")
      case True
      then have "int k \<in> c_seq y" using pos by (simp add: y_def purged_seq below_def)
      then have "R (int k) < c_pos x" using False purged_pos [of "int k" "below k R" x] by (simp add: y_def)
      moreover have "below k R (int k) = - 1" by (simp add: below_def)
      ultimately show ?thesis using pos [OF True] by (auto simp: below_Suc)
    qed (auto simp: below_Suc)
    then have "purged (below (Suc k) R) x = y" unfolding y_def purged_def by simp
    then show ?thesis using False by auto
  qed
qed

lemma purged_zero: "cell_ok x \<Longrightarrow> purged (below 0 R) x = x"
  by (rule purged_keeps) (auto simp: below_def cell_ok_def order.not_eq_order_implies_strict seq_id_ok_def)

lemma purged_all:
  assumes "cell_ok x"
  shows "purged (below LLAMA_MAX_SEQ R) x = purged R x"
proof -
  have "{s \<in> c_seq x. below LLAMA_MAX_SEQ R s < c_pos x} = {s \<in> c_seq x. R s < c_pos x}"
    using assms by (auto simp: below_def cell_ok_def seq_id_ok_def)
  then show ?thesis by (simp add: purged_def)
qed

lemma purge_spec_rm:
  assumes "cells_inv c" "seq_id_ok s" "kc_seq_pos_min c s = Some mn" "0 \<le> R" "y \<in> set (kc_view c)"
  shows "spec_rm s mn (R + 1) y = (if s \<in> c_seq y \<and> c_pos y \<le> R then x_seq_rm s y else y)"
proof -
  have "mn \<le> c_pos y \<and> 0 \<le> c_pos y" if "s \<in> c_seq y"
  proof -
    have p: "c_pos y \<in> seq_positions (kc_view c) s" using assms(5) that by (auto simp: seq_positions_def)
    have "cell_ok y" using assms(1,5) by (auto simp: cells_inv_def)
    then have "0 \<le> c_pos y" using that by (cases "c_pos y = - 1") (auto simp: cell_ok_def)
    then show ?thesis using kc_seq_pos_min_spec [OF assms(1,2)] assms(3) p by auto
  qed
  then show ?thesis using assms(4) by (auto simp: spec_rm_def in_range_def pos_lo_def pos_hi_def)
qed

lemma purge_step:
  fixes R :: llama_pos
  assumes "kv_inv kv" "\<not> kv_paged kv" "st < kv_n_stream kv" "k < LLAMA_MAX_SEQ" "rm ! k = R" "- 1 \<le> R"
    and valid: "R \<noteq> - 1 \<Longrightarrow> kv_seq_valid kv (int k) \<and> kv_stream_of kv (int k) = Some st"
  defines "f \<equiv> \<lambda>y. if int k \<in> c_seq y \<and> c_pos y \<le> R then x_seq_rm (int k) y else y"
  shows "\<exists>e h. (if rm ! k = - 1 then Some kv
     else do {
       check (k < length (kv_seq_to_stream kv));
       st \<leftarrow> vget (kv_seq_to_stream kv) k;
       c \<leftarrow> vget (kv_v_cells kv) st;
       mn \<leftarrow> kc_seq_pos_min c (int k);
       if mn \<le> rm ! k
       then do { (r, kv) \<leftarrow> kv_seq_rm (int k) mn (rm ! k + 1) kv; Some kv }
       else Some kv }) = Some (kv_put st e h kv) \<and> kv_inv (kv_put st e h kv)
    \<and> kc_view e = map f (kc_view (kv_v_cells kv ! st))"
proof -
  note kv = kv_invD [OF assms(1,3)]
  let ?c = "kv_v_cells kv ! st"
  have okx: "cell_ok x" if "x \<in> set (kc_view ?c)" for x using that kv(1) by (auto simp: cells_inv_def)
  have same: "kv_put st ?c (kv_v_heads kv ! st) kv = kv" by (rule kv_put_same [OF kv(7)])
  have id: ?thesis if "\<And>y. y \<in> set (kc_view ?c) \<Longrightarrow> f y = y"
      "(if rm ! k = - 1 then Some kv
     else do {
       check (k < length (kv_seq_to_stream kv));
       st \<leftarrow> vget (kv_seq_to_stream kv) k;
       c \<leftarrow> vget (kv_v_cells kv) st;
       mn \<leftarrow> kc_seq_pos_min c (int k);
       if mn \<le> rm ! k
       then do { (r, kv) \<leftarrow> kv_seq_rm (int k) mn (rm ! k + 1) kv; Some kv }
       else Some kv }) = Some kv"
    using that same assms(1) by (intro exI [of _ ?c] exI [of _ "kv_v_heads kv ! st"]) (simp add: map_idI)
  show ?thesis
  proof (cases "R = - 1")
    case True
    have "f y = y" if "y \<in> set (kc_view ?c)" for y
      using okx [OF that] True by (auto simp: f_def cell_ok_def order_antisym)
    then show ?thesis using True assms(5) by (intro id) auto
  next
    case False
    then have R: "0 \<le> R" using assms(6) by simp
    note v = valid [OF False]
    have ok: "seq_id_ok (int k)" using assms(4) by (simp add: seq_id_ok_def)
    have stk: "k < length (kv_seq_to_stream kv)" "kv_seq_to_stream kv ! k = st"
      using v by (auto simp: kv_seq_valid_def kv_stream_of_def)
    obtain mn where mn: "kc_seq_pos_min ?c (int k) = Some mn" using kc_seq_pos_min_spec [OF kv(1) ok] by blast
    have spec: "spec_rm (int k) mn (R + 1) y = f y" if "y \<in> set (kc_view ?c)" for y
      using purge_spec_rm [OF kv(1) ok mn R that] by (simp add: f_def)
    show ?thesis
    proof (cases "mn \<le> R")
      case True
      obtain kv' e h where e: "kv_seq_rm (int k) mn (R + 1) kv = Some (True, kv')" "kv_inv kv'"
        "kv' = kv_put st e h kv" "kv_views kv' = (kv_views kv)[st := map (spec_rm (int k) mn (R + 1)) (kv_views kv ! st)]"
        using kv_seq_rm_spec [OF assms(1,2)] v by (auto simp: maps_stream_def) blast
      then have "kc_view e = map (spec_rm (int k) mn (R + 1)) (kc_view ?c)"
        using kv(7) by (auto simp: kv_views_def dest: arg_cong [of _ _ "\<lambda>l. l ! st"])
      then have "kc_view e = map f (kc_view ?c)" using spec by simp
      then show ?thesis using e True False stk mn kv(7) assms(5) by (auto simp: vget_def)
    next
      case f: False
      have "f y = y" if "y \<in> set (kc_view ?c)" for y
      proof -
        have "c_pos y \<in> seq_positions (kc_view ?c) (int k)" if "int k \<in> c_seq y"
          using that \<open>y \<in> set (kc_view ?c)\<close> by (auto simp: seq_positions_def)
        then have "int k \<in> c_seq y \<Longrightarrow> mn \<le> c_pos y" using kc_seq_pos_min_spec [OF kv(1) ok] mn by auto
        then show ?thesis using f by (auto simp: f_def)
      qed
      then show ?thesis using f False stk mn kv(7) assms(5) by (intro id) (auto simp: vget_def)
    qed
  qed
qed

lemma purge_loop:
  assumes "kv_inv kv" "\<not> kv_paged kv" "st < kv_n_stream kv" "rm_ok rm R" "\<And>s. - 1 \<le> R s"
    and valid: "\<And>s. R s \<noteq> - 1 \<Longrightarrow> kv_seq_valid kv s \<and> kv_stream_of kv s = Some st"
  defines "V \<equiv> kc_view (kv_v_cells kv ! st)"
  shows "\<exists>e h. purge_overwritten rm kv = Some (kv_put st e h kv) \<and> kv_inv (kv_put st e h kv)
    \<and> kc_view e = map (purged R) V"
proof -
  note kv = kv_invD [OF assms(1,3)]
  have okx: "cell_ok x" if "x \<in> set V" for x using that kv(1) by (auto simp: V_def cells_inv_def)
  define I where "I k u \<longleftrightarrow> (\<exists>e h. u = kv_put st e h kv \<and> kv_inv u \<and> kc_view e = map (purged (below k R)) V)" for k u
  have "\<exists>t. purge_overwritten rm kv = Some t \<and> I LLAMA_MAX_SEQ t"
    unfolding purge_overwritten_def
  proof (rule foldM_upt_total)
    have "map (purged (below 0 R)) V = V" using okx purged_zero by (auto intro: map_idI)
    then show "I 0 kv"
      using assms(1) kv_put_same [OF kv(7)] unfolding I_def V_def by (metis)
    fix k u
    assume k: "k < LLAMA_MAX_SEQ" and "I k u"
    then obtain e h where u: "u = kv_put st e h kv" "kv_inv u" "kc_view e = map (purged (below k R)) V"
      by (auto simp: I_def)
    have sel: "\<not> kv_paged u" "st < kv_n_stream u" "rm ! k = R (int k)" "- 1 \<le> R (int k)" "kv_v_cells u ! st = e"
      using u(1) assms(2-5) kv(7) k by (simp_all add: rm_ok_def)
    have v: "R (int k) \<noteq> - 1 \<Longrightarrow> kv_seq_valid u (int k) \<and> kv_stream_of u (int k) = Some st"
      using valid [of "int k"] u(1) by (simp add: kv_seq_valid_def)
    obtain d g where d: "(if rm ! k = - 1 then Some u
       else do {
         check (k < length (kv_seq_to_stream u));
         st \<leftarrow> vget (kv_seq_to_stream u) k;
         c \<leftarrow> vget (kv_v_cells u) st;
         mn \<leftarrow> kc_seq_pos_min c (int k);
         if mn \<le> rm ! k
         then do { (r, kv) \<leftarrow> kv_seq_rm (int k) mn (rm ! k + 1) u; Some kv }
         else Some u }) = Some (kv_put st d g u)" "kv_inv (kv_put st d g u)"
      "kc_view d = map (\<lambda>y. if int k \<in> c_seq y \<and> c_pos y \<le> R (int k) then x_seq_rm (int k) y else y) (kc_view e)"
      using purge_step [OF u(2) sel(1,2) k sel(3,4) v] sel(5) by blast
    have "kc_view d = map (purged (below (Suc k) R)) V"
      using okx by (simp add: d(3) u(3) purged_step)
    then have "I (Suc k) (kv_put st d g u)" using d(2) u(1) by (auto simp: I_def kv_put_put)
    with d(1) show "\<exists>v. (if rm ! k = - 1 then Some u
       else do {
         check (k < length (kv_seq_to_stream u));
         st \<leftarrow> vget (kv_seq_to_stream u) k;
         c \<leftarrow> vget (kv_v_cells u) st;
         mn \<leftarrow> kc_seq_pos_min c (int k);
         if mn \<le> rm ! k
         then do { (r, kv) \<leftarrow> kv_seq_rm (int k) mn (rm ! k + 1) u; Some kv }
         else Some u }) = Some v \<and> I (Suc k) v" by blast
  qed simp
  moreover have "map (purged (below LLAMA_MAX_SEQ R)) V = map (purged R) V" using okx by (simp add: purged_all)
  ultimately show ?thesis by (auto simp: I_def)
qed

section \<open>The whole operation\<close>

lemma apply_over:
  assumes "kv_inv kv" "\<not> kv_paged kv" "slot_over kv ub st si idxs"
  defines "c \<equiv> kv_v_cells kv ! st"
  shows "\<exists>d e. kv_apply_ubatch si ub kv = Some (kv_put st e (last idxs + 1) kv)
    \<and> kv_inv (kv_put st e (last idxs + 1) kv) \<and> written ub idxs (length idxs) c d
    \<and> kc_view e = map (purged (over_max (kc_view c) idxs)) (kc_view d)"
proof -
  note slot = assms(3) [unfolded slot_over_def]
  have st: "st < kv_n_stream kv" using slot by simp
  note kv = kv_invD [OF assms(1) st, folded c_def]
  let ?R = "over_max (kc_view c) idxs"
  obtain d rm where d: "place_tokens si ub kv = Some (kv\<lparr>kv_v_cells := (kv_v_cells kv)[st := d]\<rparr>, rm)"
    "written ub idxs (length idxs) c d" "rm_ok rm ?R"
    using place_tokens_over [OF assms(1,3)] by (auto simp: c_def)
  let ?kv1 = "kv_put st d (kv_v_heads kv ! st) kv"
  have eq1: "kv\<lparr>kv_v_cells := (kv_v_cells kv)[st := d]\<rparr> = ?kv1" by (rule kv_cells_put)
  have inv1: "kv_inv ?kv1" using d(2) kv by (intro kv_inv_put [OF assms(1) st]) (simp_all add: written_def)
  have "kv_seq_valid ?kv1 s \<and> kv_stream_of ?kv1 s = Some st" if R: "?R s \<noteq> - 1" for s
  proof -
    obtain i where "i \<in> set idxs" "s \<in> c_seq (kc_view c ! i)" using over_max_hit [OF R] by blast
    then show ?thesis using slot kv(7) by (simp add: kv_views_def c_def kv_seq_valid_def)
  qed
  moreover have "kv_stream_of ?kv1 = kv_stream_of kv" by simp
  ultimately have valid: "\<And>s. ?R s \<noteq> - 1 \<Longrightarrow> kv_seq_valid ?kv1 s \<and> kv_stream_of ?kv1 s = Some st" by blast
  have "\<not> kv_paged ?kv1" "st < kv_n_stream ?kv1" "kv_v_cells ?kv1 ! st = d" using assms(2) st kv(7) by simp_all
  then obtain e h where e: "purge_overwritten rm ?kv1 = Some (kv_put st e h ?kv1)" "kv_inv (kv_put st e h ?kv1)"
    "kc_view e = map (purged ?R) (kc_view d)"
    using purge_loop [OF inv1 _ _ d(3) over_max_ge valid] by metis
  have "last idxs + 1 \<le> kv_size kv" using slot last_in_set [of idxs] by (simp add: Suc_le_eq)
  moreover have "cells_inv e" "cells_live e" "kc_size e = kv_size kv"
    using kv_invD(1-3) [OF e(2), of st] st kv(7) kc_size_view [OF e(3)] d(2) kv(3) by (simp_all add: written_def)
  ultimately have "kv_inv (kv_put st e (last idxs + 1) kv)" by (intro kv_inv_put [OF assms(1) st])
  moreover have "move_heads si (kv_put st e h ?kv1) = Some (kv_put st e (last idxs + 1) kv)"
    using slot kv(8) by (simp add: move_heads_def si_n_stream_def vget_def vset_def kv_put_def)
  then have "kv_apply_ubatch si ub kv = Some (kv_put st e (last idxs + 1) kv)"
    using assms(2) slot d(1) [unfolded eq1] e(1) by (simp add: kv_apply_ubatch_def si_size_def si_n_stream_def)
  ultimately show ?thesis using d(2) e(3) by blast
qed

lemma seq_positions_nth: "seq_positions (kc_view c) s = {kc_pos c ! j |j. j < kc_size c \<and> s \<in> kc_seq c ! j}"
  by (force simp: seq_positions_def kc_view_def)

lemma purged_positions:
  assumes "kc_view e = map (purged R) V"
  shows "seq_positions (kc_view e) s = {p \<in> seq_positions V s. R s < p}"
proof -
  have "seq_positions (kc_view e) s = {c_pos (purged R x) |x. x \<in> set V \<and> s \<in> c_seq (purged R x)}"
    by (auto simp: assms seq_positions_def)
  also have "\<dots> = {c_pos x |x. x \<in> set V \<and> s \<in> c_seq x \<and> R s < c_pos x}"
    using purged_pos [of s R] by (auto simp: purged_seq) (metis purged_seq)+
  finally show ?thesis by (auto simp: seq_positions_def)
qed

lemma written_positions:
  assumes "written ub idxs (length idxs) c d" "\<forall>i \<in> set idxs. i < kc_size c"
  shows "p \<in> seq_positions (kc_view d) s \<longleftrightarrow>
    p \<in> {kc_pos c ! j |j. j < kc_size c \<and> j \<notin> set idxs \<and> s \<in> kc_seq c ! j}
      \<union> {ub_pos ub ! i |i. i < length idxs \<and> s \<in> set (token_seqs ub i)}"
proof -
  note D = assms(1) [unfolded written_def]
  have tok: "kc_pos d ! (idxs ! i) = ub_pos ub ! i" "kc_seq d ! (idxs ! i) = set (token_seqs ub i)" if "i < length idxs" for i
    using D that by (auto simp: cell_at_def tok_cell_def)
  have rest: "kc_pos d ! j = kc_pos c ! j" "kc_seq d ! j = kc_seq c ! j" if "j < kc_size c" "j \<notin> set idxs" for j
    using D that by (auto simp: cell_at_def)
  show ?thesis
  proof
    assume "p \<in> seq_positions (kc_view d) s"
    then obtain j where j: "j < kc_size c" "s \<in> kc_seq d ! j" "p = kc_pos d ! j" using D by (auto simp: seq_positions_nth)
    show "p \<in> {kc_pos c ! j |j. j < kc_size c \<and> j \<notin> set idxs \<and> s \<in> kc_seq c ! j}
      \<union> {ub_pos ub ! i |i. i < length idxs \<and> s \<in> set (token_seqs ub i)}"
    proof (cases "j \<in> set idxs")
      case True
      then obtain i where "i < length idxs" "idxs ! i = j" by (auto simp: in_set_conv_nth)
      then show ?thesis using tok [of i] j by auto
    next
      case False
      then show ?thesis using rest [OF j(1)] j by auto
    qed
  next
    assume "p \<in> {kc_pos c ! j |j. j < kc_size c \<and> j \<notin> set idxs \<and> s \<in> kc_seq c ! j}
      \<union> {ub_pos ub ! i |i. i < length idxs \<and> s \<in> set (token_seqs ub i)}"
    then consider (old) j where "j < kc_size c" "j \<notin> set idxs" "s \<in> kc_seq c ! j" "p = kc_pos c ! j"
      | (new) i where "i < length idxs" "s \<in> set (token_seqs ub i)" "p = ub_pos ub ! i" by blast
    then show "p \<in> seq_positions (kc_view d) s"
    proof cases
      case old
      then have "p = kc_pos d ! j \<and> j < kc_size d \<and> s \<in> kc_seq d ! j" using rest [OF old(1,2)] D by simp
      then show ?thesis unfolding seq_positions_nth by blast
    next
      case new
      then have "p = kc_pos d ! (idxs ! i) \<and> idxs ! i < kc_size d \<and> s \<in> kc_seq d ! (idxs ! i)"
        using assms(2) D tok [OF new(1)] by simp
      then show ?thesis unfolding seq_positions_nth by blast
    qed
  qed
qed

section \<open>The slots that the search offers\<close>

text \<open>Every cell of the first stream belongs to sequences that the cache knows.\<close>

definition owned :: "kv_cache \<Rightarrow> bool" where
  "owned kv \<longleftrightarrow> (\<forall>x \<in> set (kv_views kv ! 0). \<forall>s \<in> c_seq x. kv_seq_valid kv s)"

lemma find_slot_over:
  assumes "kv_inv kv" "\<not> kv_paged kv" "kv_n_stream kv = 1" "ub_ok kv ub" "owned kv"
    "kv_swa_type kv = SWA_CHUNKED \<longrightarrow> kv_n_swa kv \<noteq> 0"
  shows "case stream_slot kv 0 (ub_n_tokens ub) of
      None \<Rightarrow> kv_find_slot kv ub False = Some si_none
    | Some idxs \<Rightarrow> \<exists>si. kv_find_slot kv ub False = Some si \<and> slot_over kv ub 0 si idxs"
proof -
  note ub = assms(4) [unfolded ub_ok_def]
  have kv0: "0 < kv_n_stream kv" using assms(3) by simp
  note kv = kv_invD [OF assms(1) kv0]
  have st: "kv_stream_of kv s = Some 0" if "kv_seq_valid kv s" for s
    using kv_stream_ex [OF assms(1) that] assms(3) by auto
  then have st0: "ub_stream kv ub 0 = 0" using ub by (simp add: ub_stream_def)
  have fits: "ub_fits kv ub 1 (ub_n_tokens ub)"
    using assms(3,6) ub by (auto simp: ub_fits_def slot_shape_def Suc_le_eq)
  note find = find_streams_spec [OF _ fits, of "[0]" si_start]
  let ?N = "ub_n_tokens ub" and ?c = "kv_v_cells kv ! 0"
  note le = search_start_le [OF assms(1) kv0, of ?N]
  show ?thesis
  proof (cases "stream_slot kv 0 ?N")
    case None
    then have "kv_find_slot kv ub False = Some si_none"
      using find assms(1-3) st0 by (simp add: kv_find_slot_def slot_shape_def si_empty_def si_none_def del: find_streams.simps)
    then show ?thesis using None by simp
  next
    case (Some idxs)
    let ?si = "push_all kv ub ?N [0] si_start"
    have sel: "si_strm ?si = [0]" "si_idxs ?si = [idxs]"
      using Some st0 by (simp_all add: push_all_sel si_start_def)
    have "kv_find_slot kv ub False = Some ?si"
      using find assms(1-3) Some st0 push_all_order [of "[0]" kv ub ?N si_start]
      by (simp add: kv_find_slot_def slot_shape_def del: find_streams.simps)
    moreover have ff: "first_fit (usable (kv_n_swa kv) (kv_swa_type kv) (kc_view ?c)) (search_start ?c (kv_v_heads kv ! 0) ?N)
        (kv_size kv) ?N = Some idxs" using Some by (simp add: stream_slot_def Let_def)
    have ids: "length idxs = ?N" "distinct idxs"
      "\<forall>i \<in> set idxs. i < kv_size kv \<and> usable (kv_n_swa kv) (kv_swa_type kv) (kc_view ?c) i"
      using first_fit_SomeD [OF ff le] by auto
    have "card (c_seq (kc_view ?c ! i)) \<le> 1" if "i \<in> set idxs" for i
      using ids(3) that cells_invD(3) [OF kv(1), of i] kv(3) by (auto simp: usable_def)
    moreover have "kv_seq_valid kv s" if "i \<in> set idxs" "s \<in> c_seq (kc_view ?c ! i)" for i s
    proof -
      have "kc_view ?c ! i \<in> set (kc_view ?c)" by (rule nth_mem) (use ids(3) that(1) kv(3) in simp)
      then have "kc_view ?c ! i \<in> set (kv_views kv ! 0)" using kv(7) by (simp add: kv_views_def)
      then show ?thesis using assms(5) that(2) by (auto simp: owned_def)
    qed
    ultimately have "slot_over kv ub 0 ?si idxs"
      using sel ub ids kv(7) kv0 st by (auto simp: slot_over_def kv_views_def)
    with \<open>kv_find_slot kv ub False = Some ?si\<close> Some show ?thesis by auto
  qed
qed

section \<open>The dry run\<close>

lemma kc_restore_over:
  assumes "cells_inv c" "cells_inv u" "kc_size u = kc_size c" "kc_has_shift u = kc_has_shift c"
    and "\<forall>i \<in> set idxs. i < kc_size c \<and> kc_shift c ! i = 0 \<and> kc_shift u ! i = 0"
    and "\<forall>i < kc_size c. i \<notin> set idxs \<longrightarrow> cell_at u i = cell_at c i"
    and "kc_cp idxs b = Some r" "\<forall>i \<in> set idxs. i < kc_size b \<and> cell_at b i = cell_at c i"
  shows "kc_set idxs r u = Some c"
proof -
  let ?xs = "zip [0..<length idxs] idxs"
  have b: "\<forall>i \<in> set idxs. i < kc_size b \<and> kc_shift b ! i = 0" using assms(5,8) by (auto simp: cell_at_def)
  have r: "kc_pos r = map (\<lambda>i. kc_pos b ! i) idxs" "kc_ext r = map (\<lambda>i. kc_ext b ! i) idxs"
    "kc_seq r = map (\<lambda>i. kc_seq b ! i) idxs" "kc_size r = length idxs"
    using kc_cp_spec [OF b] assms(7) by (auto simp: kc_size_def)
  have snd: "snd ` set ?xs = set idxs"
    by (metis length_upt minus_nat.diff_0 map_snd_zip set_map)
  have xs: "i \<in> set idxs \<and> j < length idxs \<and> idxs ! j = i" if "(j, i) \<in> set ?xs" for j i
    using that by (auto simp: set_zip)
  have "foldM (kc_set_cell r) ?xs u = Some c"
  proof (rule kc_set_loop [OF assms(1) _ assms(2-4)])
    show "\<forall>(j, i) \<in> set ?xs. i < kc_size c \<and> kc_shift c ! i = 0 \<and> kc_pos r ! j = kc_pos c ! i
      \<and> kc_ext r ! j = kc_ext c ! i \<and> kc_seq r ! j = kc_seq c ! i"
    proof (intro ballI, clarify)
      fix j i assume "(j, i) \<in> set ?xs"
      note i = xs [OF this]
      then have "cell_at b i = cell_at c i" using assms(8) by blast
      then show "i < kc_size c \<and> kc_shift c ! i = 0 \<and> kc_pos r ! j = kc_pos c ! i
        \<and> kc_ext r ! j = kc_ext c ! i \<and> kc_seq r ! j = kc_seq c ! i"
        using i assms(5) by (auto simp: r cell_at_def)
    qed
  qed (use snd assms(5,6) in auto)
  then show ?thesis using r(4) by (simp add: kc_set_def)
qed

text \<open>The cells of \<open>c\<close> after a placement that was undone on the slot only.\<close>

definition undone :: "nat list \<Rightarrow> kv_cell list \<Rightarrow> kv_cell list" where
  "undone idxs V = map (\<lambda>j. if j \<in> set idxs then V ! j else purged (over_max V idxs) (V ! j)) [0..<length V]"

lemma purged_ok: "cell_ok x \<Longrightarrow> cell_ok (purged R x)"
  by (auto simp: purged_def Let_def cell_ok_def)

lemma purged_live: "cell_live x \<Longrightarrow> cell_live (purged R x)"
  by (auto simp: purged_def Let_def cell_live_def)

lemma purged_shift: "cell_ok x \<Longrightarrow> c_shift x = 0 \<Longrightarrow> c_shift (purged R x) = 0"
  by (auto simp: purged_def Let_def)

lemma undo_over:
  assumes "kv_inv kv" "slot_over kv ub 0 si idxs" "written ub idxs (length idxs) (kv_v_cells kv ! 0) d"
    and e: "cells_inv e" "kc_view e = map (purged (over_max (kc_view (kv_v_cells kv ! 0)) idxs)) (kc_view d)"
    and shift: "\<forall>i \<in> set idxs. kc_shift (kv_v_cells kv ! 0) ! i = 0"
  shows "\<exists>ps f. save_slot si kv = Some ps \<and> restore_slot ps (kv_put 0 e h kv) = Some (kv_put 0 f (kv_v_heads kv ! 0) kv)
    \<and> cells_inv f \<and> cells_live f \<and> kc_view f = undone idxs (kc_view (kv_v_cells kv ! 0))"
proof -
  note slot = assms(2) [unfolded slot_over_def] and D = assms(3) [unfolded written_def]
  have kv0: "0 < kv_n_stream kv" using assms(1) by (simp add: kv_inv_def)
  note kv = kv_invD [OF assms(1) kv0]
  let ?c = "kv_v_cells kv ! 0"
  let ?V = "kc_view ?c" and ?R = "over_max (kc_view ?c) idxs"
  define f where "f = (cells_of (undone idxs ?V))\<lparr>kc_has_shift := kc_has_shift e\<rparr>"
  have vx: "kc_view (x\<lparr>kc_has_shift := b\<rparr>) = kc_view x" for x b
    by (rule view_eqI) (simp_all add: kc_size_def cell_at_def)
  have fv: "kc_view f = undone idxs ?V" by (simp add: f_def vx)
  have fs: "kc_size f = kc_size ?c" using kc_size_view [OF fv] by (simp add: undone_def)
  have Vx: "cell_ok x \<and> cell_live x" if "x \<in> set ?V" for x
    using that kv(1,2) by (auto simp: cells_inv_def cells_live_def)
  then have Vn: "cell_ok (?V ! j) \<and> cell_live (?V ! j)" if "j < length ?V" for j using that nth_mem by blast
  have ok: "cell_ok x \<and> cell_live x" if x: "x \<in> set (undone idxs ?V)" for x
  proof -
    obtain j where j: "j < length ?V" "x = (if j \<in> set idxs then ?V ! j else purged ?R (?V ! j))"
      using x by (auto simp: undone_def)
    then show ?thesis using Vn [OF j(1)] by (simp only: purged_ok purged_live split: if_split) simp
  qed
  have "cells_inv (cells_of (undone idxs ?V))" using ok by (intro cells_of_inv) (simp add: list_all_iff)
  then have fi: "cells_inv f" unfolding cells_inv_def lens_ok_def f_def vx by (simp add: kc_size_def)
  have fl: "cells_live f" using ok by (simp add: cells_live_def fv)
  have at: "cell_at f j = (if j \<in> set idxs then cell_at ?c j else purged ?R (cell_at ?c j))" if "j < kc_size ?c" for j
  proof -
    have "cell_at f j = kc_view f ! j" using that fs by simp
    also have "\<dots> = (if j \<in> set idxs then ?V ! j else purged ?R (?V ! j))" using that by (simp only: fv undone_def) simp
    finally show ?thesis using that by simp
  qed
  have es: "kc_size e = kc_size ?c" using kc_size_view [OF e(2)] D by simp
  have eat: "cell_at e j = purged ?R (cell_at d j)" if "j < kc_size ?c" for j
    using that es e(2) D by (metis length_view nth_map nth_view)
  have idx: "i < kc_size ?c" if "i \<in> set idxs" for i using that slot kv(3) by simp
  have eshift: "kc_shift e ! i = 0" if i: "i \<in> set idxs" for i
  proof -
    obtain k where "k < length idxs" "idxs ! k = i" using i by (auto simp: in_set_conv_nth)
    then have "cell_at d i = tok_cell ub k (cleared (cell_at ?c i))" using D by blast
    then have "c_shift (cell_at d i) = 0" by (simp add: tok_cell_def)
    moreover have "cell_ok (cell_at d i)" using D idx [OF i]
      by (metis (no_types, lifting) cells_inv_def length_view nth_mem nth_view)
    ultimately have "c_shift (cell_at e i) = 0" using eat [OF idx [OF i]] purged_shift by metis
    then show ?thesis by simp
  qed
  obtain r where r: "kc_cp idxs ?c = Some r" "kc_size r = length idxs"
    using kc_cp_spec [of idxs ?c] idx shift by (auto simp: kc_size_def)
  have "kc_set idxs r e = Some f"
  proof (rule kc_restore_over [OF fi e(1) _ _ _ _ r(1)])
    show "kc_size e = kc_size f" using es fs by simp
    show "kc_has_shift e = kc_has_shift f" by (simp add: f_def)
    show "\<forall>i \<in> set idxs. i < kc_size f \<and> kc_shift f ! i = 0 \<and> kc_shift e ! i = 0"
      using idx fs eshift shift at by (metis cell_at_sel(3))
    show "\<forall>i < kc_size f. i \<notin> set idxs \<longrightarrow> cell_at e i = cell_at f i"
      using fs eat at D by simp
    show "\<forall>i \<in> set idxs. i < kc_size ?c \<and> cell_at ?c i = cell_at f i" using idx at by simp
  qed
  moreover have "si_n_stream si = 1" using slot by (simp add: si_n_stream_def)
  ultimately have "save_slot si kv = Some \<lparr>ps_sinfo = si, ps_heads_old = kv_v_heads kv, ps_cells = [r]\<rparr>
    \<and> restore_slot \<lparr>ps_sinfo = si, ps_heads_old = kv_v_heads kv, ps_cells = [r]\<rparr> (kv_put 0 e h kv)
       = Some (kv_put 0 f (kv_v_heads kv ! 0) kv)"
    using slot r kv(7,8) by (simp add: save_slot_def restore_slot_def vget_def kv_put_put)
  with fi fl fv show ?thesis by blast
qed

section \<open>Properties\<close>

definition window_view :: "kv_cell list" where
  "window_view = map (\<lambda>p. Cell (int p) ext_reset 0 {0}) [0, 1, 2, 3, 4]"

definition window_kv :: kv_cache where
  "window_kv = demo_kv\<lparr>kv_v_cells := [cells_of window_view], kv_v_heads := [1], kv_n_swa := 3, kv_swa_type := SWA_STANDARD\<rparr>"

definition window_ub :: ubatch where
  "window_ub = demo_ub\<lparr>ub_pos := [5, 6]\<rparr>"

lemma window_kv_sel:
  "kv_v_cells window_kv = [cells_of window_view]" "kv_n_stream window_kv = 1" "\<not> kv_paged window_kv"
  "kv_seq_to_stream window_kv = replicate 256 0" "kv_v_heads window_kv = [1]" "kv_views window_kv = [window_view]"
  "kv_swa_type window_kv = SWA_STANDARD" "kv_n_swa window_kv = 3" "kv_size window_kv = 5"
  using demo_kv_sel
  by (simp_all add: window_kv_def kv_views_def kv_size_def kv_paged_def) (simp add: window_view_def cells_of_def kc_size_def)

lemma window_inv: "kv_inv window_kv" "kv_seq_valid window_kv 0" "kv_stream_of window_kv 0 = Some 0" "owned window_kv"
proof -
  have c: "cells_inv (cells_of window_view)" "cells_live (cells_of window_view)" "kc_size (cells_of window_view) = 5"
    by (rule cells_of_inv)
      (auto simp: window_view_def cell_ok_def seq_id_ok_def LLAMA_MAX_SEQ_def cells_live_def cell_live_def
        cells_of_def kc_size_def kc_view_def cell_at_def)
  show "kv_inv window_kv" "kv_seq_valid window_kv 0" "kv_stream_of window_kv 0 = Some 0" "owned window_kv"
    using c by (auto simp: kv_inv_def window_kv_sel kv_seq_valid_def kv_stream_of_def LLAMA_MAX_SEQ_def vget_def
        check_def owned_def window_view_def)
qed

lemma window_ub_ok: "ub_ok window_kv window_ub"
  using window_inv(2)
  by (simp add: ub_ok_def window_ub_def demo_ub_def token_ok_def token_seqs_def ub_is_pos_2d_def
      seq_id_ok_def LLAMA_MAX_SEQ_def all_lt_2)

lemma window_slot: "slot_over window_kv window_ub 0 \<lparr>si_s0 = 0, si_s1 = 0, si_strm = [0], si_idxs = [[1, 2]]\<rparr> [1, 2]"
  using window_ub_ok window_inv(2,3)
  by (auto simp: slot_over_def window_kv_sel window_view_def ub_ok_def) (simp_all add: window_ub_def demo_ub_def)

text \<open>C10: (\<open>apply_ubatch\<close> on the cells of one stream, any sliding window) A slot gives each token a cell of
  its own, empty or held by one sequence; the placement succeeds and keeps the cache consistent.
  With \<open>R s\<close> the largest position of sequence \<open>s\<close> that the slot overwrites (\<open>-1\<close> if none), every cell
  ends up as the token's cell or the old cell, from which each sequence \<open>s\<close> is removed where the
  position is at most \<open>R s\<close>; a cell that loses its last sequence is emptied. So a sequence is left with
  exactly its old and new positions above \<open>R s\<close>, and no gap opens inside its range. Other streams are
  untouched and the stream's head moves behind the slot's last cell.\<close>

theorem apply_ubatch_places:
  assumes "kv_inv kv" "\<not> kv_paged kv" "slot_over kv ub st si idxs"
  defines "V \<equiv> kv_views kv ! st"
  defines "R \<equiv> over_max V idxs"
  shows "\<exists>kv' e. kv_apply_ubatch si ub kv = Some kv' \<and> kv' = kv_put st e (last idxs + 1) kv \<and> kv_inv kv'
    \<and> (\<forall>i < length idxs. kv_views kv' ! st ! (idxs ! i) = purged R (tok_cell ub i (cleared (V ! (idxs ! i)))))
    \<and> (\<forall>j < kv_size kv. j \<notin> set idxs \<longrightarrow> kv_views kv' ! st ! j = purged R (V ! j))
    \<and> (\<forall>s. seq_positions (kv_views kv' ! st) s = {p \<in> seq_positions V s
          \<union> {ub_pos ub ! i |i. i < length idxs \<and> s \<in> set (token_seqs ub i)}. R s < p})"
proof -
  note slot = assms(3) [unfolded slot_over_def]
  have st: "st < kv_n_stream kv" using slot by simp
  note kv = kv_invD [OF assms(1) st]
  let ?c = "kv_v_cells kv ! st"
  have V: "V = kc_view ?c" using kv(7) by (simp add: V_def kv_views_def)
  obtain d e where e: "kv_apply_ubatch si ub kv = Some (kv_put st e (last idxs + 1) kv)"
    "kv_inv (kv_put st e (last idxs + 1) kv)" "written ub idxs (length idxs) ?c d" "kc_view e = map (purged R) (kc_view d)"
    using apply_over [OF assms(1-3)] by (auto simp: R_def V)
  note D = e(3) [unfolded written_def]
  have ids: "\<forall>i \<in> set idxs. i < kc_size ?c" using slot kv(3) by simp
  have v: "kv_views (kv_put st e (last idxs + 1) kv) ! st = map (purged R) (kc_view d)"
    using e(4) kv(7) by (simp add: kv_views_def)
  have "seq_positions (kc_view e) s = {p \<in> seq_positions V s
          \<union> {ub_pos ub ! i |i. i < length idxs \<and> s \<in> set (token_seqs ub i)}. R s < p}" for s
  proof -
    have over: "kc_pos ?c ! j \<le> R s" if "j \<in> set idxs" "s \<in> kc_seq ?c ! j" for j
      using over_max_upper [of j idxs s V] that ids by (simp add: R_def V)
    have "p \<in> seq_positions (kc_view d) s \<longleftrightarrow> p \<in> seq_positions V s
          \<union> {ub_pos ub ! i |i. i < length idxs \<and> s \<in> set (token_seqs ub i)}" if "R s < p" for p
    proof -
      have "p \<in> {kc_pos ?c ! j |j. j < kc_size ?c \<and> j \<notin> set idxs \<and> s \<in> kc_seq ?c ! j} \<longleftrightarrow> p \<in> seq_positions V s"
        using over that unfolding V seq_positions_nth by (auto simp: not_le [symmetric])
      then show ?thesis unfolding written_positions [OF e(3) ids] by blast
    qed
    then show ?thesis unfolding purged_positions [OF e(4)] by blast
  qed
  moreover have "kc_view e ! (idxs ! i) = purged R (tok_cell ub i (cleared (V ! (idxs ! i))))" if "i < length idxs" for i
    using that D ids e(4) by (simp add: V)
  moreover have "kc_view e ! j = purged R (V ! j)" if "j < kv_size kv" "j \<notin> set idxs" for j
    using that D e(4) kv(3) by (simp add: V)
  ultimately show ?thesis using e(1,2) v e(4) by auto
qed

theorem apply_ubatch_places_witness:
  "\<exists>kv'. kv_apply_ubatch \<lparr>si_s0 = 0, si_s1 = 0, si_strm = [0], si_idxs = [[1, 2]]\<rparr> window_ub window_kv = Some kv'
    \<and> seq_positions (kv_views window_kv ! 0) 0 = {0, 1, 2, 3, 4} \<and> seq_positions (kv_views kv' ! 0) 0 = {3, 4, 5, 6}
    \<and> kv_views kv' ! 0 ! 0 = empty_cell \<and> kv_v_heads kv' = [3]"
proof -
  have pos: "seq_positions window_view 0 = {0, 1, 2, 3, 4}" by (auto simp: positions_filter window_view_def)
  have new: "{ub_pos window_ub ! i |i. i < 2 \<and> 0 \<in> set (token_seqs window_ub i)} = {5, 6}"
    by (auto simp: less_2_cases_iff window_ub_def demo_ub_def token_seqs_def) (force+)
  have R: "over_max window_view [1, 2] 0 = 2" by (simp add: over_max_def over_pos_def window_view_def)
  have "purged (over_max window_view [1, 2]) (window_view ! 0) = empty_cell"
    using R by (intro purged_empties) (auto simp: window_view_def)
  moreover have "{p. (p \<in> {0, 1, 2, 3, 4} \<or> p \<in> {5, 6}) \<and> 2 < p} = {3, 4, 5, 6 :: int}" by auto
  moreover have "{0, 1, 2, 3, 4 :: int} \<union> {5, 6} = {0, 1, 2, 3, 4, 5, 6}" by auto
  moreover from apply_ubatch_places [OF window_inv(1) window_kv_sel(3) window_slot]
  obtain kv' e where kv': "kv_apply_ubatch \<lparr>si_s0 = 0, si_s1 = 0, si_strm = [0], si_idxs = [[1, 2]]\<rparr> window_ub window_kv = Some kv'"
    "kv' = kv_put 0 e (last [1, 2] + 1) window_kv"
    "\<forall>j < kv_size window_kv. j \<notin> set [1, 2] \<longrightarrow> kv_views kv' ! 0 ! j
       = purged (over_max (kv_views window_kv ! 0) [1, 2]) (kv_views window_kv ! 0 ! j)"
    "\<forall>s. seq_positions (kv_views kv' ! 0) s = {p \<in> seq_positions (kv_views window_kv ! 0) s
        \<union> {ub_pos window_ub ! i |i. i < length [1, 2 :: nat] \<and> s \<in> set (token_seqs window_ub i)}.
           over_max (kv_views window_kv ! 0) [1, 2] s < p}" by blast
  have V: "kv_views window_kv ! 0 = window_view" and two: "length [1, 2 :: nat] = 2" by (simp_all add: window_kv_sel)
  have first: "kv_views kv' ! 0 ! 0 = purged (over_max window_view [1, 2]) (window_view ! 0)"
    using kv'(3) unfolding V by (simp add: window_kv_sel)
  have posn: "seq_positions (kv_views kv' ! 0) 0 = {p \<in> {0, 1, 2, 3, 4} \<union> {5, 6}. 2 < p}"
    using kv'(4) [rule_format, of 0] unfolding V two new R pos .
  have heads: "kv_v_heads kv' = [3]" unfolding kv'(2) by (simp add: window_kv_sel)
  ultimately show ?thesis using kv'(1) first posn heads unfolding V pos by auto
qed

text \<open>C18: (\<open>prepare\<close> on the cells of one stream, any sliding window, one micro-batch that fits) The dry run
  reports the slot of the search, puts the head back and restores the cells of the slot, but only
  these: every other cell keeps what the placement left of it, so a position at or below the largest one
  that the slot would overwrite stays lost, although nothing was placed.\<close>

theorem prepare_windowed:
  assumes "kv_inv kv" "\<not> kv_paged kv" "kv_n_stream kv = 1" "ub_ok kv ub" "owned kv"
    "kv_swa_type kv = SWA_CHUNKED \<longrightarrow> kv_n_swa kv \<noteq> 0"
    "stream_slot kv 0 (ub_n_tokens ub) = Some idxs" "\<forall>i \<in> set idxs. c_shift (kv_views kv ! 0 ! i) = 0"
  shows "\<exists>si kv'. kv_prepare [ub] kv = Some ([si], kv') \<and> si_strm si = [0] \<and> si_idxs si = [idxs]
    \<and> kv_inv kv' \<and> kv_v_heads kv' = kv_v_heads kv \<and> kv_views kv' = [undone idxs (kv_views kv ! 0)]"
proof -
  have kv0: "0 < kv_n_stream kv" using assms(3) by simp
  note kv = kv_invD [OF assms(1) kv0]
  obtain si where si: "kv_find_slot kv ub False = Some si" "slot_over kv ub 0 si idxs"
    using find_slot_over [OF assms(1-6)] assms(7) by auto
  note slot = si(2) [unfolded slot_over_def]
  obtain d e where e: "kv_apply_ubatch si ub kv = Some (kv_put 0 e (last idxs + 1) kv)"
    "kv_inv (kv_put 0 e (last idxs + 1) kv)" "written ub idxs (length idxs) (kv_v_cells kv ! 0) d"
    "kc_view e = map (purged (over_max (kc_view (kv_v_cells kv ! 0)) idxs)) (kc_view d)"
    using apply_over [OF assms(1,2) si(2)] by auto
  have "cells_inv e" using kv_invD(1) [OF e(2), of 0] kv0 kv(7) by simp
  moreover have "\<forall>i \<in> set idxs. kc_shift (kv_v_cells kv ! 0) ! i = 0"
    using assms(8) slot kv(3,7) by (simp add: kv_views_def)
  ultimately obtain ps f where f: "save_slot si kv = Some ps"
    "restore_slot ps (kv_put 0 e (last idxs + 1) kv) = Some (kv_put 0 f (kv_v_heads kv ! 0) kv)"
    "cells_inv f" "cells_live f" "kc_view f = undone idxs (kc_view (kv_v_cells kv ! 0))"
    using undo_over [OF assms(1) si(2) e(3) _ e(4)] by blast
  have "kc_size f = kv_size kv" using kc_size_view [OF f(5)] kv(3) by (simp add: undone_def)
  then have "kv_inv (kv_put 0 f (kv_v_heads kv ! 0) kv)" using f kv(6) by (intro kv_inv_put [OF assms(1) kv0])
  moreover have "length (kv_v_cells kv) = 1" using assms(1,3) by (simp add: kv_inv_def)
  then have "kv_views (kv_put 0 f (kv_v_heads kv ! 0) kv) = [undone idxs (kv_views kv ! 0)]"
    using f(5) by (cases "kv_v_cells kv") (auto simp: kv_views_def)
  moreover have "\<not> si_empty si" using slot by (simp add: si_empty_def)
  then have "kv_prepare [ub] kv = Some ([si], kv_put 0 f (kv_v_heads kv ! 0) kv)"
    using si(1) f(1,2) e(1) by (simp add: kv_prepare_def)
  ultimately show ?thesis using slot by auto
qed

theorem prepare_windowed_witness:
  "\<exists>si kv'. kv_prepare [window_ub] window_kv = Some ([si], kv') \<and> si_idxs si = [[1, 2]]
    \<and> seq_positions (kv_views window_kv ! 0) 0 = {0, 1, 2, 3, 4} \<and> seq_positions (kv_views kv' ! 0) 0 = {1, 2, 3, 4}"
proof -
  have max: "Max (seq_positions window_view 0) = 4" by (simp add: positions_filter window_view_def)
  have u: "usable 3 SWA_STANDARD window_view 0" "usable 3 SWA_STANDARD window_view 1" "usable 3 SWA_STANDARD window_view 2"
    "\<not> usable 3 SWA_STANDARD window_view 3" "\<not> usable 3 SWA_STANDARD window_view 4"
    using max by (simp_all add: usable_def is_masked_swa_def window_view_def)
  have "search_start (cells_of window_view) 1 2 = 1" by (simp add: search_start_def)
  moreover have "rot 1 5 = [1, 2, 3, 4, 0]" by (simp add: rot_def upt_rec)
  ultimately have slot: "stream_slot window_kv 0 (ub_n_tokens window_ub) = Some [1, 2]"
    using u by (simp add: stream_slot_def first_fit_def window_kv_sel window_ub_def demo_ub_def Let_def del: One_nat_def)
  have purge: "undone [1, 2] window_view = empty_cell # tl window_view"
  proof -
    have "over_max window_view [1, 2] 0 = 2" by (simp add: over_max_def over_pos_def window_view_def)
    then have "purged (over_max window_view [1, 2]) (window_view ! 0) = empty_cell"
      "purged (over_max window_view [1, 2]) (window_view ! 3) = window_view ! 3"
      "purged (over_max window_view [1, 2]) (window_view ! 4) = window_view ! 4"
      by (intro purged_empties purged_keeps, auto simp: window_view_def)+
    then show ?thesis by (simp add: undone_def upt_rec window_view_def)
  qed
  have swa: "kv_swa_type window_kv = SWA_CHUNKED \<longrightarrow> kv_n_swa window_kv \<noteq> 0" by (simp add: window_kv_sel)
  have shift: "\<forall>i \<in> set [1, 2]. c_shift (kv_views window_kv ! 0 ! i) = 0" by (simp add: window_kv_sel window_view_def)
  obtain si kv' where kv': "kv_prepare [window_ub] window_kv = Some ([si], kv')" "si_idxs si = [[1, 2]]"
    "kv_views kv' = [undone [1, 2] (kv_views window_kv ! 0)]"
    using prepare_windowed [OF window_inv(1) window_kv_sel(3,2) window_ub_ok window_inv(4) swa slot shift] by blast
  then have "kv_views kv' ! 0 = empty_cell # tl window_view" unfolding purge [symmetric] by (simp add: window_kv_sel)
  moreover have "seq_positions (empty_cell # tl window_view) 0 = {1, 2, 3, 4}" "seq_positions window_view 0 = {0, 1, 2, 3, 4}"
    by (simp_all add: positions_filter window_view_def)
  ultimately show ?thesis using kv'(1,2) by (simp add: window_kv_sel)
qed

end
