(* ===== verification/Chunk_Key.thy ===== *)
theory Chunk_Key
  imports Tl_Prelude "HOL-Library.Word"
begin

unbundle bit_operations_syntax

text \<open>
  Keys and bytes of the chunk cache (src/thunder-lmcache-hash.cpp, include/thunder-lmcache.h and
  \<^verbatim>\<open>ThunderChunkStorage::hash_key\<close>): \<^verbatim>\<open>thunder_kv_chunk_key\<close>, the hash functions over a parameter for
  \<^verbatim>\<open>XXH64\<close>, and the little-endian encodings that \<^verbatim>\<open>memcpy\<close> of an integer produces.

  A \<^verbatim>\<open>size_t\<close> counter is a \<open>nat\<close>, reduced by \<open>u64\<close> where the expression of the code can wrap.
\<close>

type_synonym bytes = "8 word list"

section \<open>Little-endian integers\<close>

fun le_enc :: "nat \<Rightarrow> nat \<Rightarrow> bytes" where
  "le_enc 0 x = []"
| "le_enc (Suc n) x = word_of_nat x # le_enc n (x div 256)"

fun le_dec :: "bytes \<Rightarrow> nat" where
  "le_dec [] = 0"
| "le_dec (b # bs) = unat b + 256 * le_dec bs"

lemma le_enc_length [simp]: "length (le_enc n x) = n"
  by (induction n arbitrary: x) simp_all

lemma le_dec_enc [simp]: "le_dec (le_enc n x) = x mod 256 ^ n"
proof (induction n arbitrary: x)
  case (Suc n)
  show ?case
    using mod_mult2_eq [of x 256 "256 ^ n"] by (simp add: Suc unat_of_nat)
qed simp

lemma le_dec_bound: "le_dec bs < 256 ^ length bs"
proof (induction bs)
  case (Cons b bs)
  have "unat b < 256" using unsigned_less [of b] by simp
  with Cons show ?case by simp
qed simp

lemma le_enc_dec: "le_enc (length bs) (le_dec bs) = bs"
proof (induction bs)
  case (Cons b bs)
  have "unat b < 256" using unsigned_less [of b] by simp
  moreover have "word_of_nat (unat b + 256 * le_dec bs) = b"
  proof -
    have "(word_of_nat (256 * le_dec bs) :: 8 word) = 0"
      unfolding word_of_nat_eq_0_iff by simp
    then show ?thesis by (simp only: of_nat_add of_nat_unat ucast_id add_0_right)
  qed
  ultimately show ?case using Cons by simp
qed simp

section \<open>Chunk keys\<close>

record chunk_key =
  ck_content :: "64 word"
  ck_layer :: "32 word"
  ck_start :: "32 word"

definition THUNDER_CHUNK_SIZE :: nat where
  "THUNDER_CHUNK_SIZE = 256"

text \<open>Both 32-bit fields are signed, so that the casts to 64 bits extend the sign.\<close>

definition hash_key :: "chunk_key \<Rightarrow> 64 word" where
  "hash_key k = ck_content k XOR push_bit 32 (scast (ck_layer k)) XOR scast (ck_start k)"

text \<open>\<^verbatim>\<open>XXH64\<close> of an external package, as a function of the bytes and the seed.\<close>

type_synonym xxh64 = "bytes \<Rightarrow> 64 word \<Rightarrow> 64 word"

definition token_bytes :: "32 word list \<Rightarrow> bytes" where
  "token_bytes ts = concat (map (\<lambda>t. le_enc 4 (unat t)) ts)"

definition hash_tokens :: "xxh64 \<Rightarrow> 32 word list \<Rightarrow> 64 word" where
  "hash_tokens xxh tokens =
     (if tokens = [] then xxh [] 0
      else let tokens_to_hash = min (length tokens) THUNDER_CHUNK_SIZE
           in xxh (token_bytes (take tokens_to_hash tokens)) 0)"

definition hash_kv_data :: "xxh64 \<Rightarrow> bytes \<Rightarrow> 64 word" where
  "hash_kv_data xxh data = (if data = [] then xxh [] 0 else xxh data 0)"

definition align_chunk_start :: "nat \<Rightarrow> nat" where
  "align_chunk_start pos = pos div THUNDER_CHUNK_SIZE * THUNDER_CHUNK_SIZE"

text \<open>\<^verbatim>\<open>total_len\<close> tokens are readable at \<^verbatim>\<open>tokens\<close>; reading past the list is undefined.\<close>

definition make_key :: "xxh64 \<Rightarrow> 32 word list \<Rightarrow> nat \<Rightarrow> nat \<Rightarrow> 32 word \<Rightarrow> chunk_key option" where
  "make_key xxh tokens total_len chunk_start layer_idx =
     (let aligned_start = align_chunk_start chunk_start;
          chunk_end = min (aligned_start + THUNDER_CHUNK_SIZE) total_len;
          chunk_tokens = (if chunk_end > aligned_start then chunk_end - aligned_start else 0)
      in if chunk_tokens > 0
         then do {
           check (aligned_start + chunk_tokens \<le> length tokens);
           Some \<lparr>ck_content = xxh (token_bytes (take chunk_tokens (drop aligned_start tokens))) 0,
                 ck_layer = layer_idx, ck_start = word_of_nat aligned_start\<rparr> }
         else Some \<lparr>ck_content = xxh [] 0, ck_layer = layer_idx, ck_start = word_of_nat aligned_start\<rparr>)"

text \<open>Two keys of the same content that hash alike have the same layer and the same start.\<close>

lemma scast_bit: "n < 32 \<Longrightarrow> bit (scast a :: 64 word) n = bit (a :: 32 word) n"
  by (simp add: bit_simps)

lemma hash_key_inj_content:
  assumes "ck_content k = ck_content l" "hash_key k = hash_key l"
  shows "ck_layer k = ck_layer l \<and> ck_start k = ck_start l"
proof -
  let ?P = "\<lambda>k. push_bit 32 (scast (ck_layer k)) :: 64 word" and ?S = "\<lambda>k. scast (ck_start k) :: 64 word"
  have x: "?P k XOR ?S k = ?P l XOR ?S l"
  proof -
    have "ck_content k XOR hash_key k = ck_content k XOR hash_key l" using assms(2) by simp
    then show ?thesis unfolding hash_key_def assms(1) by (simp add: xor.assoc [symmetric])
  qed
  have b: "bit (?P k) n \<noteq> bit (?S k) n \<longleftrightarrow> bit (?P l) n \<noteq> bit (?S l) n" for n
    using arg_cong [OF x, of "\<lambda>w. bit w n"] by (simp add: bit_xor_iff)
  have s: "ck_start k = ck_start l"
  proof (rule bit_word_eqI)
    fix n assume "n < LENGTH(32)"
    then have n: "n < 32" by simp
    have "\<not> bit (?P k) n" "\<not> bit (?P l) n" using n by (simp_all add: bit_push_bit_iff)
    with b [of n] scast_bit [OF n] show "bit (ck_start k) n = bit (ck_start l) n" by simp
  qed
  have "ck_layer k = ck_layer l"
  proof (rule bit_word_eqI)
    fix n assume "n < LENGTH(32)"
    then have n: "n < 32" by simp
    have "bit (?P k) (32 + n) = bit (ck_layer k) n" "bit (?P l) (32 + n) = bit (ck_layer l) n"
      using n scast_bit [OF n] by (simp_all add: bit_push_bit_iff)
    then show "bit (ck_layer k) n = bit (ck_layer l) n" using b [of "32 + n"] unfolding s by blast
  qed
  with s show ?thesis by simp
qed

text \<open>The key of a chunk depends on the tokens of the chunk alone.\<close>

lemma make_key_local:
  assumes "align_chunk_start start + THUNDER_CHUNK_SIZE \<le> len"
    "align_chunk_start start + THUNDER_CHUNK_SIZE \<le> length ts" "align_chunk_start start + THUNDER_CHUNK_SIZE \<le> length ts'"
    "take THUNDER_CHUNK_SIZE (drop (align_chunk_start start) ts) = take THUNDER_CHUNK_SIZE (drop (align_chunk_start start) ts')"
  shows "make_key xxh ts len start il = make_key xxh ts' len start il"
  using assms by (simp add: make_key_def Let_def THUNDER_CHUNK_SIZE_def)

lemma make_key_full:
  assumes "c * THUNDER_CHUNK_SIZE + THUNDER_CHUNK_SIZE \<le> len" "len \<le> length ts"
  shows "make_key xxh ts len (c * THUNDER_CHUNK_SIZE) il = Some
    \<lparr>ck_content = xxh (token_bytes (take THUNDER_CHUNK_SIZE (drop (c * THUNDER_CHUNK_SIZE) ts))) 0,
     ck_layer = il, ck_start = word_of_nat (c * THUNDER_CHUNK_SIZE)\<rparr>"
  using assms by (simp add: make_key_def align_chunk_start_def Let_def THUNDER_CHUNK_SIZE_def)

end
