(* ===== verification/Chunk_Disk.thy ===== *)
theory Chunk_Disk
  imports Chunk_Key
begin

text \<open>
  The on-disk format of the chunk cache (src/thunder-lmcache-storage.cpp): the 72-byte header that
  \<^verbatim>\<open>write_to_disk\<close> writes and \<^verbatim>\<open>read_from_disk\<close> and \<^verbatim>\<open>load_cache_from_disk\<close> read, and the 56-byte
  one of \<^verbatim>\<open>compact_disk\<close>.

  The record \<open>env\<close> holds what the code calls outside the repository: XXH64, zlib, the allocator, the
  clock and the system calls on the cache file. \<open>zlib_ok\<close> is the documented contract of zlib.
\<close>

record env =
  en_xxh :: xxh64
  en_compress :: "bytes \<Rightarrow> bytes option"
  en_uncompress :: "nat \<Rightarrow> bytes \<Rightarrow> bytes option"
  en_bound :: "nat \<Rightarrow> nat"
  en_malloc :: "nat \<Rightarrow> bool"
  en_time :: "nat \<Rightarrow> nat"
  en_munmap :: "nat \<Rightarrow> bool"
  en_ftruncate :: "nat \<Rightarrow> bool"
  en_mmap :: "nat \<Rightarrow> bool"
  en_page :: nat
  en_open :: "bool \<Rightarrow> bool"
  en_fstat :: bool
  en_rename :: bool
  en_order :: "64 word list \<Rightarrow> 64 word list"
  en_l1_offset :: "64 word \<Rightarrow> bool"
  en_l1_blit :: "64 word \<Rightarrow> bool"

text \<open>
  \<^verbatim>\<open>uncompress\<close> with room for the original size gives the data back.
\<close>

definition zlib_ok :: "env \<Rightarrow> bool" where
  "zlib_ok e \<longleftrightarrow> (\<forall>d c. en_compress e d = Some c \<longrightarrow> en_uncompress e (length d) c = Some d)"

section \<open>Chunks\<close>

text \<open>A buffer pointer: null, to live memory, or to memory that was freed.\<close>

datatype buf = Null | Live bytes | Freed

fun buf_free :: "buf \<Rightarrow> buf option" where
  "buf_free Null = Some Null"
| "buf_free (Live b) = Some Freed"
| "buf_free Freed = None"

text \<open>Reading \<open>n\<close> bytes at a pointer.\<close>

fun buf_read :: "buf \<Rightarrow> nat \<Rightarrow> bytes option" where
  "buf_read (Live b) n = (if n \<le> length b then Some (take n b) else None)"
| "buf_read p n = (if n = 0 then Some [] else None)"

record chunk =
  ch_key :: chunk_key
  ch_k_size :: nat
  ch_v_size :: nat
  ch_k :: buf
  ch_v :: buf
  ch_last :: nat
  ch_count :: nat

definition chunk_size :: "chunk \<Rightarrow> nat" where
  "chunk_size c = u64 (ch_k_size c + ch_v_size c)"

definition data_checksum :: "env \<Rightarrow> bytes \<Rightarrow> bytes \<Rightarrow> 64 word" where
  "data_checksum e k v = en_xxh e v (en_xxh e k 0)"

section \<open>The header\<close>

definition V3_HEADER :: nat where
  "V3_HEADER = 8 + 4 + 4 + 8 + 8 + 8 + 4 + 4 + 8 + 8 + 8"

definition V2_HEADER :: nat where
  "V2_HEADER = 56"

lemma header_sizes [simp]: "V3_HEADER = 72" "V2_HEADER = 56"
  by (simp_all add: V3_HEADER_def V2_HEADER_def)

text \<open>The fields both versions share, up to and including the checksum.\<close>

definition enc_common :: "chunk \<Rightarrow> 64 word \<Rightarrow> bytes" where
  "enc_common c chk = le_enc 8 (unat (ck_content (ch_key c))) @ le_enc 4 (unat (ck_layer (ch_key c)))
     @ le_enc 4 (unat (ck_start (ch_key c))) @ le_enc 8 (ch_k_size c) @ le_enc 8 (ch_v_size c)
     @ le_enc 8 (ch_last c) @ le_enc 4 (ch_count c) @ le_enc 4 0 @ le_enc 8 (unat chk)"

definition enc_v3 :: "chunk \<Rightarrow> 64 word \<Rightarrow> bytes \<Rightarrow> bytes \<Rightarrow> bytes" where
  "enc_v3 c chk ck cv = enc_common c chk @ le_enc 8 (length ck) @ le_enc 8 (length cv) @ ck @ cv"

definition enc_v2 :: "chunk \<Rightarrow> 64 word \<Rightarrow> bytes \<Rightarrow> bytes \<Rightarrow> bytes" where
  "enc_v2 c chk k v = enc_common c chk @ k @ v"

text \<open>\<open>n\<close> bytes of the file at \<open>off\<close>; past the end of the mapping is undefined.\<close>

definition slice :: "bytes \<Rightarrow> nat \<Rightarrow> nat \<Rightarrow> bytes option" where
  "slice f off n = (if off + n \<le> length f then Some (take n (drop off f)) else None)"

definition rd :: "bytes \<Rightarrow> nat \<Rightarrow> nat \<Rightarrow> nat option" where
  "rd f off n = map_option le_dec (slice f off n)"

record header =
  hd_key :: chunk_key
  hd_k_size :: nat
  hd_v_size :: nat
  hd_last :: nat
  hd_count :: nat
  hd_sum :: "64 word"
  hd_ck :: nat
  hd_cv :: nat

definition read_header :: "bytes \<Rightarrow> nat \<Rightarrow> header option" where
  "read_header f off = do {
     content \<leftarrow> rd f off 8;
     layer \<leftarrow> rd f (off + 8) 4;
     start \<leftarrow> rd f (off + 12) 4;
     k \<leftarrow> rd f (off + 16) 8;
     v \<leftarrow> rd f (off + 24) 8;
     last \<leftarrow> rd f (off + 32) 8;
     count \<leftarrow> rd f (off + 40) 4;
     chk \<leftarrow> rd f (off + 48) 8;
     ck \<leftarrow> rd f (off + 56) 8;
     cv \<leftarrow> rd f (off + 64) 8;
     Some \<lparr>hd_key = \<lparr>ck_content = word_of_nat content, ck_layer = word_of_nat layer, ck_start = word_of_nat start\<rparr>,
       hd_k_size = k, hd_v_size = v, hd_last = last, hd_count = count, hd_sum = word_of_nat chk, hd_ck = ck, hd_cv = cv\<rparr> }"

section \<open>Writing and reading a record\<close>

text \<open>
  The bytes \<^verbatim>\<open>write_to_disk\<close> stores for a chunk, \<open>Some None\<close> when zlib or the allocator fails. The
  buffers of \<^verbatim>\<open>compressBound\<close> bytes are \<open>en_bound\<close>; XXH64 runs over the original data.
\<close>

definition pack_record :: "env \<Rightarrow> chunk \<Rightarrow> bytes option option" where
  "pack_record e c =
     (if \<not> en_malloc e (en_bound e (ch_k_size c)) then Some None
      else do {
        k \<leftarrow> buf_read (ch_k c) (ch_k_size c);
        (case en_compress e k of
           None \<Rightarrow> Some None
         | Some ck \<Rightarrow>
             if \<not> en_malloc e (en_bound e (ch_v_size c)) then Some None
             else do {
               v \<leftarrow> buf_read (ch_v c) (ch_v_size c);
               (case en_compress e v of
                  None \<Rightarrow> Some None
                | Some cv \<Rightarrow> Some (Some (enc_v3 c (data_checksum e k v) ck cv))) }) })"

text \<open>
  \<^verbatim>\<open>read_from_disk\<close>: \<open>Some None\<close> is its \<^verbatim>\<open>return false\<close>; a header or a payload that leaves the mapping
  is undefined.
\<close>

definition read_from_disk :: "env \<Rightarrow> bytes \<Rightarrow> nat \<Rightarrow> chunk option option" where
  "read_from_disk e f off =
     (if off \<ge> length f then Some None
      else do {
        h \<leftarrow> read_header f off;
        if \<not> en_malloc e (hd_k_size h) \<or> \<not> en_malloc e (hd_v_size h) then Some None
        else do {
          ck \<leftarrow> slice f (off + V3_HEADER) (hd_ck h);
          (case en_uncompress e (hd_k_size h) ck of
             None \<Rightarrow> Some None
           | Some k \<Rightarrow>
               if length k \<noteq> hd_k_size h then Some None
               else do {
                 cv \<leftarrow> slice f (off + V3_HEADER + hd_ck h) (hd_cv h);
                 (case en_uncompress e (hd_v_size h) cv of
                    None \<Rightarrow> Some None
                  | Some v \<Rightarrow>
                      if length v \<noteq> hd_v_size h then Some None
                      else if data_checksum e k v \<noteq> hd_sum h then Some None
                      else Some (Some \<lparr>ch_key = hd_key h, ch_k_size = hd_k_size h, ch_v_size = hd_v_size h,
                        ch_k = Live k, ch_v = Live v, ch_last = hd_last h, ch_count = hd_count h\<rparr>)) }) } })"

section \<open>What is written is read back\<close>

lemma slice_skip [simp]: "length x \<le> off \<Longrightarrow> slice (x @ f) off n = slice f (off - length x) n"
  by (auto simp: slice_def)

lemma slice_here [simp]: "length x = n \<Longrightarrow> slice (x @ f) 0 n = Some x"
  by (simp add: slice_def)

lemma slice_whole: "length x = n \<Longrightarrow> slice x 0 n = Some x"
  by (simp add: slice_def)

lemma rd_skip [simp]: "length x \<le> off \<Longrightarrow> rd (x @ f) off n = rd f (off - length x) n"
  by (simp add: rd_def)

lemma rd_here [simp]: "rd (le_enc n x @ f) 0 n = Some (x mod 256 ^ n)"
  by (simp add: rd_def)

lemma enc_common_length [simp]: "length (enc_common c chk) = 56"
  by (simp add: enc_common_def)

lemma enc_v3_length [simp]: "length (enc_v3 c chk ck cv) = 72 + length ck + length cv"
  by (simp add: enc_v3_def)

definition chunk_bounds :: "chunk \<Rightarrow> bool" where
  "chunk_bounds c \<longleftrightarrow> ch_k_size c < 2 ^ 64 \<and> ch_v_size c < 2 ^ 64 \<and> ch_last c < 2 ^ 64 \<and> ch_count c < 2 ^ 32"

text \<open>The header of a chunk with its checksum and compressed sizes.\<close>

definition header_of :: "chunk \<Rightarrow> 64 word \<Rightarrow> nat \<Rightarrow> nat \<Rightarrow> header" where
  "header_of c chk nk nv = \<lparr>hd_key = ch_key c, hd_k_size = ch_k_size c, hd_v_size = ch_v_size c,
     hd_last = ch_last c, hd_count = ch_count c, hd_sum = chk, hd_ck = nk, hd_cv = nv\<rparr>"

lemma word_of_mod:
  "word_of_nat (unat (x :: 64 word) mod 18446744073709551616) = x"
  "word_of_nat (unat (y :: 32 word) mod 4294967296) = y"
proof -
  have "unat x < 18446744073709551616" "unat y < 4294967296"
    using unsigned_less [of x] unsigned_less [of y] by simp_all
  then show "word_of_nat (unat x mod 18446744073709551616) = x" "word_of_nat (unat y mod 4294967296) = y"
    by simp_all
qed

lemma read_header_enc:
  assumes "chunk_bounds c" "length ck < 2 ^ 64" "length cv < 2 ^ 64"
  shows "read_header (pre @ enc_v3 c chk ck cv @ post) (length pre) = Some (header_of c chk (length ck) (length cv))"
  using assms
  by (simp add: read_header_def enc_v3_def enc_common_def header_of_def chunk_bounds_def word_of_mod)

lemma slice_payload:
  "slice (pre @ enc_v3 c chk ck cv @ post) (length pre + 72) (length ck) = Some ck"
  "slice (pre @ enc_v3 c chk ck cv @ post) (length pre + 72 + length ck) (length cv) = Some cv"
proof -
  have e: "pre @ enc_v3 c chk ck cv @ post
      = (pre @ enc_common c chk @ le_enc 8 (length ck) @ le_enc 8 (length cv)) @ ck @ cv @ post"
    by (simp add: enc_v3_def)
  show "slice (pre @ enc_v3 c chk ck cv @ post) (length pre + 72) (length ck) = Some ck"
    "slice (pre @ enc_v3 c chk ck cv @ post) (length pre + 72 + length ck) (length cv) = Some cv"
    unfolding e by (simp_all add: slice_def)
qed

text \<open>The bytes of the chunk behind its two pointers.\<close>

definition chunk_data :: "chunk \<Rightarrow> (bytes \<times> bytes) option" where
  "chunk_data c = do { k \<leftarrow> buf_read (ch_k c) (ch_k_size c); v \<leftarrow> buf_read (ch_v c) (ch_v_size c); Some (k, v) }"

lemma buf_read_length: "buf_read b n = Some d \<Longrightarrow> length d = n"
  by (induction b n rule: buf_read.induct) (auto split: if_splits)

lemma chunk_data_length: "chunk_data c = Some (k, v) \<Longrightarrow> length k = ch_k_size c \<and> length v = ch_v_size c"
  by (auto simp: chunk_data_def dest!: bind_SomeD buf_read_length)

lemma pack_record_Some:
  assumes "pack_record e c = Some (Some r)" "chunk_data c = Some (k, v)"
  shows "\<exists>ck cv. en_compress e k = Some ck \<and> en_compress e v = Some cv \<and> r = enc_v3 c (data_checksum e k v) ck cv"
  using assms by (auto simp: pack_record_def chunk_data_def split: if_splits option.splits dest!: bind_SomeD)

lemma pack_record_data: "pack_record e c = Some (Some r) \<Longrightarrow> \<exists>k v. chunk_data c = Some (k, v)"
  by (auto simp: pack_record_def chunk_data_def split: if_splits option.splits dest!: bind_SomeD)

text \<open>
  A chunk as it comes back: the same header fields, fresh buffers of the original data. \<open>stored_at\<close> is
  a record of the chunk in the first \<open>lim\<close> bytes of the file.
\<close>

definition fresh_copy :: "chunk \<Rightarrow> bytes \<Rightarrow> bytes \<Rightarrow> chunk" where
  "fresh_copy c k v = c\<lparr>ch_k := Live k, ch_v := Live v\<rparr>"

lemma read_back:
  assumes "zlib_ok e" "chunk_bounds c" "en_malloc e (ch_k_size c)" "en_malloc e (ch_v_size c)"
    "chunk_data c = Some (k, v)" "pack_record e c = Some (Some r)" "length r < 2 ^ 64"
  shows "read_from_disk e (pre @ r @ post) (length pre) = Some (Some (fresh_copy c k v))"
proof -
  obtain ck cv where r: "en_compress e k = Some ck" "en_compress e v = Some cv"
    "r = enc_v3 c (data_checksum e k v) ck cv"
    using pack_record_Some [OF assms(6,5)] by blast
  have len: "length ck < 2 ^ 64" "length cv < 2 ^ 64" using assms(7) r(3) by simp_all
  have u: "en_uncompress e (ch_k_size c) ck = Some k" "en_uncompress e (ch_v_size c) cv = Some v"
    using assms(1) r(1,2) chunk_data_length [OF assms(5)] unfolding zlib_ok_def by metis+
  show ?thesis
    using assms(3,4) u chunk_data_length [OF assms(5)]
    by (simp add: read_from_disk_def r(3) read_header_enc [OF assms(2) len] header_of_def
        slice_payload [simplified] fresh_copy_def)
qed

end
