(* ===== verification/Lru_List.thy ===== *)
theory Lru_List
  imports Chunk_Key Ord_Map
begin

text \<open>
  The LRU lists of \<^verbatim>\<open>ThunderChunkStorage\<close> (src/thunder-lmcache-storage.cpp): a \<^verbatim>\<open>std::list\<close> of keys,
  most recently used first, and an \<^verbatim>\<open>unordered_map\<close> from key hashes to iterators into it. A node has
  an id, an iterator is the id of its node, and using an iterator whose node was erased is \<open>None\<close>.
  The locale \<open>lru_order\<close> is the contract the storage relies on: the keys in order of last use.
\<close>

record lru =
  lr_nodes :: "(nat \<times> chunk_key) list"
  lr_index :: "(64 word, nat) omap"
  lr_next :: nat

definition lru_empty :: lru where
  "lru_empty = \<lparr>lr_nodes = [], lr_index = [], lr_next = 0\<rparr>"

definition lru_push_front :: "chunk_key \<Rightarrow> lru \<Rightarrow> lru" where
  "lru_push_front k l = \<lparr>lr_nodes = (lr_next l, k) # lr_nodes l,
     lr_index = om_set (hash_key k) (lr_next l) (lr_index l), lr_next = lr_next l + 1\<rparr>"

definition lru_push_back :: "chunk_key \<Rightarrow> lru \<Rightarrow> lru" where
  "lru_push_back k l = \<lparr>lr_nodes = lr_nodes l @ [(lr_next l, k)],
     lr_index = om_set (hash_key k) (lr_next l) (lr_index l), lr_next = lr_next l + 1\<rparr>"

text \<open>\<^verbatim>\<open>*it\<close> and \<^verbatim>\<open>lru.erase(it)\<close>.\<close>

definition lru_deref :: "nat \<Rightarrow> lru \<Rightarrow> chunk_key option" where
  "lru_deref it l = map_of (lr_nodes l) it"

definition lru_erase :: "nat \<Rightarrow> lru \<Rightarrow> lru option" where
  "lru_erase it l = do {
     check (it \<in> fst ` set (lr_nodes l));
     Some (l\<lparr>lr_nodes := filter (\<lambda>n. fst n \<noteq> it) (lr_nodes l)\<rparr>) }"

text \<open>\<^verbatim>\<open>update_lru\<close>, the removal through the index, and the removal of a node with its index entry.\<close>

definition lru_update :: "chunk_key \<Rightarrow> lru \<Rightarrow> lru option" where
  "lru_update k l = (case om_find (lr_index l) (hash_key k) of
     None \<Rightarrow> Some l
   | Some it \<Rightarrow> do { l \<leftarrow> lru_erase it l; Some (lru_push_front k l) })"

definition lru_unlink :: "64 word \<Rightarrow> lru \<Rightarrow> lru option" where
  "lru_unlink h l = (case om_find (lr_index l) h of
     None \<Rightarrow> Some l
   | Some it \<Rightarrow> do { l \<leftarrow> lru_erase it l; Some (l\<lparr>lr_index := om_erase h (lr_index l)\<rparr>) })"

definition lru_drop :: "nat \<Rightarrow> 64 word \<Rightarrow> lru \<Rightarrow> lru option" where
  "lru_drop it h l = do { l \<leftarrow> lru_erase it l; Some (l\<lparr>lr_index := om_erase h (lr_index l)\<rparr>) }"

text \<open>The iterator \<^verbatim>\<open>std::prev(lru.end())\<close> of a list that is not empty.\<close>

definition lru_tail :: "lru \<Rightarrow> nat" where
  "lru_tail l = fst (last (lr_nodes l))"

definition lru_keys :: "lru \<Rightarrow> chunk_key list" where
  "lru_keys l = map snd (lr_nodes l)"

definition lru_size :: "lru \<Rightarrow> nat" where
  "lru_size l = length (lr_nodes l)"

section \<open>The contract\<close>

definition others :: "64 word \<Rightarrow> chunk_key list \<Rightarrow> chunk_key list" where
  "others h ks = filter (\<lambda>k. hash_key k \<noteq> h) ks"

definition hashes :: "chunk_key list \<Rightarrow> 64 word set" where
  "hashes ks = hash_key ` set ks"

lemma hashes_simps [simp]: "hashes [] = {}" "hashes (k # ks) = insert (hash_key k) (hashes ks)"
  "hashes (ks @ ls) = hashes ks \<union> hashes ls"
  by (auto simp: hashes_def)

lemma hashes_others [simp]: "hashes (others h ks) = hashes ks - {h}"
  by (auto simp: hashes_def others_def)

lemma others_absent [simp]: "h \<notin> hashes ks \<Longrightarrow> others h ks = ks"
  by (induction ks) (auto simp: others_def)

locale lru_order =
  fixes wf :: "'l \<Rightarrow> bool"
    and keys :: "'l \<Rightarrow> chunk_key list"
    and empty :: 'l
    and push :: "chunk_key \<Rightarrow> 'l \<Rightarrow> 'l"
    and update :: "chunk_key \<Rightarrow> 'l \<Rightarrow> 'l option"
    and unlink :: "64 word \<Rightarrow> 'l \<Rightarrow> 'l option"
  assumes wf_empty: "wf empty"
    and keys_empty: "keys empty = []"
    and distinct_keys: "wf l \<Longrightarrow> distinct (map hash_key (keys l))"
    and push_new: "wf l \<Longrightarrow> hash_key k \<notin> hashes (keys l) \<Longrightarrow> wf (push k l) \<and> keys (push k l) = k # keys l"
    and update_keys: "wf l \<Longrightarrow> \<exists>l'. update k l = Some l' \<and> wf l'
        \<and> keys l' = (if hash_key k \<in> hashes (keys l) then k # others (hash_key k) (keys l) else keys l)"
    and unlink_keys: "wf l \<Longrightarrow> \<exists>l'. unlink h l = Some l' \<and> wf l' \<and> keys l' = others h (keys l)"
begin

lemma update_hashes: "wf l \<Longrightarrow> update k l = Some l' \<Longrightarrow> wf l' \<and> hashes (keys l') = hashes (keys l)"
  using update_keys [of l k] by auto

text \<open>A key that was just used is not the next victim, unless it is alone.\<close>

lemma update_protects:
  assumes "wf l" "update k l = Some l'" "\<exists>j \<in> set (keys l). hash_key j \<noteq> hash_key k"
  shows "hash_key (last (keys l')) \<noteq> hash_key k"
proof -
  from assms(3) have ne: "others (hash_key k) (keys l) \<noteq> []" by (auto simp: others_def filter_empty_conv)
  show ?thesis
  proof (cases "hash_key k \<in> hashes (keys l)")
    case True
    with ne assms(1,2) update_keys [of l k] have "last (keys l') \<in> set (others (hash_key k) (keys l))" by auto
    then show ?thesis by (auto simp: others_def)
  next
    case False
    with assms update_keys [of l k] have "keys l' = keys l" by auto
    moreover have "keys l \<noteq> []" using assms(3) by auto
    ultimately have "last (keys l') \<in> set (keys l)" by simp
    with False show ?thesis by (metis hashes_def imageI)
  qed
qed

text \<open>After using the keys \<open>ks\<close> in turn, the others stand behind them in their old order.\<close>

lemma updates_order:
  assumes "wf l" "foldM update ks l = Some l'"
  shows "wf l' \<and> (\<exists>us. hashes us \<subseteq> hashes ks \<and> keys l' = us @ filter (\<lambda>j. hash_key j \<notin> hashes ks) (keys l))"
  using assms(2)
proof (induction ks arbitrary: l' rule: rev_induct)
  case Nil
  with assms(1) show ?case by simp
next
  case (snoc k ks)
  then obtain m where m: "foldM update ks l = Some m" "update k m = Some l'"
    by (auto simp: foldM_append dest!: bind_SomeD)
  then obtain us where us: "wf m" "hashes us \<subseteq> hashes ks" "keys m = us @ filter (\<lambda>j. hash_key j \<notin> hashes ks) (keys l)"
    using snoc.IH by blast
  have f: "filter (\<lambda>j. hash_key j \<notin> hashes (ks @ [k])) (keys l)
      = others (hash_key k) (filter (\<lambda>j. hash_key j \<notin> hashes ks) (keys l))"
    by (auto simp: others_def intro: filter_cong)
  show ?case
  proof (cases "hash_key k \<in> hashes (keys m)")
    case True
    with update_keys [OF us(1), of k] m(2) us(3)
    have "wf l'" "keys l' = (k # others (hash_key k) us) @ filter (\<lambda>j. hash_key j \<notin> hashes (ks @ [k])) (keys l)"
      unfolding f by (auto simp: others_def)
    with us(2) show ?thesis by (intro conjI exI [of _ "k # others (hash_key k) us"]) auto
  next
    case False
    with update_keys [OF us(1), of k] m(2) have "wf l'" "keys l' = keys m" by auto
    moreover have "others (hash_key k) (filter (\<lambda>j. hash_key j \<notin> hashes ks) (keys l))
        = filter (\<lambda>j. hash_key j \<notin> hashes ks) (keys l)"
      using False us(3) by (intro others_absent) simp
    ultimately show ?thesis using us unfolding f by auto
  qed
qed

lemma updates_lru:
  assumes "wf l" "foldM update ks l = Some l'" "\<exists>h \<in> hashes (keys l). h \<notin> hashes ks"
  shows "keys l' \<noteq> [] \<and> hash_key (last (keys l')) \<notin> hashes ks"
proof -
  obtain us where us: "keys l' = us @ filter (\<lambda>j. hash_key j \<notin> hashes ks) (keys l)"
    using updates_order [OF assms(1,2)] by blast
  have ne: "filter (\<lambda>j. hash_key j \<notin> hashes ks) (keys l) \<noteq> []"
  proof -
    obtain j where "j \<in> set (keys l)" "hash_key j \<notin> hashes ks"
      using assms(3) unfolding hashes_def [of "keys l"] by blast
    then show ?thesis by (auto simp: filter_empty_conv)
  qed
  have "last (keys l') \<in> set (filter (\<lambda>j. hash_key j \<notin> hashes ks) (keys l))"
    unfolding us last_appendR [OF ne] by (rule last_in_set [OF ne])
  then have "hash_key (last (keys l')) \<notin> hashes ks" by simp
  moreover have "keys l' \<noteq> []" using us ne by (metis append_is_Nil_conv)
  ultimately show ?thesis by blast
qed

end

section \<open>The lists keep the contract\<close>

definition lru_pairs :: "(nat \<times> chunk_key) list \<Rightarrow> (64 word \<times> nat) list" where
  "lru_pairs ns = map (\<lambda>n. (hash_key (snd n), fst n)) ns"

definition lru_wf :: "lru \<Rightarrow> bool" where
  "lru_wf l \<longleftrightarrow> om_wf (lr_index l) \<and> distinct (map fst (lr_nodes l)) \<and> (\<forall>it \<in> fst ` set (lr_nodes l). it < lr_next l)
     \<and> distinct (map hash_key (lru_keys l)) \<and> om_find (lr_index l) = map_of (lru_pairs (lr_nodes l))"

lemma lru_wf_empty: "lru_wf lru_empty" "lru_keys lru_empty = []"
  by (simp_all add: lru_wf_def lru_empty_def lru_keys_def lru_pairs_def fun_eq_iff)

lemma lru_pairs_Cons: "lru_pairs ((i, k) # ns) = (hash_key k, i) # lru_pairs ns"
  by (simp add: lru_pairs_def)

lemma hashes_nodes: "hashes (map snd ns) = fst ` set (lru_pairs ns)"
  by (force simp: hashes_def lru_pairs_def)

lemma map_of_lru_pairs_None: "map_of (lru_pairs ns) h = None \<longleftrightarrow> h \<notin> hashes (map snd ns)"
  by (simp add: map_of_eq_None_iff hashes_nodes)

lemma map_of_lru_pairs_Some:
  "map_of (lru_pairs ns) h = Some it \<Longrightarrow> \<exists>k. (it, k) \<in> set ns \<and> hash_key k = h"
  by (drule map_of_SomeD) (auto simp: lru_pairs_def)

text \<open>With distinct ids and distinct hashes, removing the node of a hash is removing the hash.\<close>

lemma filter_node:
  assumes "distinct (map fst ns)" "distinct (map hash_key (map snd ns))" "(it, k) \<in> set ns"
  shows "filter (\<lambda>n. fst n \<noteq> it) ns = filter (\<lambda>n. hash_key (snd n) \<noteq> hash_key k) ns"
proof (rule filter_cong [OF refl])
  fix n assume n: "n \<in> set ns"
  have "inj_on fst (set ns)" "inj_on (hash_key \<circ> snd) (set ns)"
    using assms(1,2) by (simp_all add: distinct_map)
  then have "fst n = it \<longrightarrow> n = (it, k)" "hash_key (snd n) = hash_key k \<longrightarrow> n = (it, k)"
    using inj_onD [of fst "set ns" n "(it, k)"] inj_onD [of "hash_key \<circ> snd" "set ns" n "(it, k)"] n assms(3) by auto
  then show "(fst n \<noteq> it) = (hash_key (snd n) \<noteq> hash_key k)" by auto
qed

lemma lru_pairs_filter: "lru_pairs (filter (\<lambda>n. hash_key (snd n) \<noteq> h) ns) = filter (\<lambda>(g, i). g \<noteq> h) (lru_pairs ns)"
  by (induction ns) (auto simp: lru_pairs_def)

lemma lru_push_front_wf:
  assumes "lru_wf l" "hash_key k \<notin> hashes (lru_keys l)"
  shows "lru_wf (lru_push_front k l)" "lru_keys (lru_push_front k l) = k # lru_keys l"
  using assms by (auto simp: lru_wf_def lru_push_front_def lru_keys_def hashes_def lru_pairs_def)

lemma lru_push_back_wf:
  assumes "lru_wf l" "hash_key k \<notin> hashes (lru_keys l)"
  shows "lru_wf (lru_push_back k l)" "lru_keys (lru_push_back k l) = lru_keys l @ [k]"
proof -
  have "map_of (lru_pairs (lr_nodes l)) (hash_key k) = None"
    using assms(2) by (simp add: map_of_lru_pairs_None lru_keys_def)
  then have "map_of (lru_pairs (lr_nodes l) @ [(hash_key k, lr_next l)]) = (map_of (lru_pairs (lr_nodes l)))(hash_key k \<mapsto> lr_next l)"
    by (auto simp: fun_eq_iff map_add_def split: option.splits)
  with assms show "lru_wf (lru_push_back k l)"
    by (auto simp: lru_wf_def lru_push_back_def lru_keys_def hashes_def lru_pairs_def)
qed (simp add: lru_push_back_def lru_keys_def)

text \<open>Erasing the node of a key, with or without its index entry.\<close>

lemma lru_erase_node:
  assumes "lru_wf l" "(it, k) \<in> set (lr_nodes l)"
  shows "\<exists>l'. lru_erase it l = Some l' \<and> lr_index l' = lr_index l \<and> lr_next l' = lr_next l
    \<and> lr_nodes l' = filter (\<lambda>n. hash_key (snd n) \<noteq> hash_key k) (lr_nodes l)
    \<and> lru_keys l' = others (hash_key k) (lru_keys l)"
proof -
  have "filter (\<lambda>n. fst n \<noteq> it) (lr_nodes l) = filter (\<lambda>n. hash_key (snd n) \<noteq> hash_key k) (lr_nodes l)"
    using assms by (intro filter_node) (auto simp: lru_wf_def lru_keys_def)
  then show ?thesis
    using assms(2) by (force simp: lru_erase_def lru_keys_def others_def filter_map o_def)
qed

lemma map_of_filter_key: "map_of (filter (\<lambda>(g, i). g \<noteq> h) xs) = (map_of xs)(h := None)"
  by (induction xs) (auto simp: fun_eq_iff)

lemma lru_drop_wf:
  assumes "lru_wf l" "(it, k) \<in> set (lr_nodes l)"
  shows "\<exists>l'. lru_drop it (hash_key k) l = Some l' \<and> lru_wf l' \<and> lru_keys l' = others (hash_key k) (lru_keys l)"
proof -
  obtain l' where l': "lru_erase it l = Some l'" "lr_index l' = lr_index l" "lr_next l' = lr_next l"
    "lr_nodes l' = filter (\<lambda>n. hash_key (snd n) \<noteq> hash_key k) (lr_nodes l)" "lru_keys l' = others (hash_key k) (lru_keys l)"
    using lru_erase_node [OF assms] by blast
  have d: "distinct (map fst (filter P (lr_nodes l)))" for P
    using assms(1) by (simp add: lru_wf_def distinct_map_filter)
  have "lru_wf (l'\<lparr>lr_index := om_erase (hash_key k) (lr_index l')\<rparr>)"
    using assms(1) d
    by (auto simp: lru_wf_def l' lru_keys_def lru_pairs_filter map_of_filter_key others_def filter_map
        intro!: distinct_map_filter)
  with l' show ?thesis by (auto simp: lru_drop_def lru_keys_def)
qed

lemma lru_wf_node: "lru_wf l \<Longrightarrow> om_find (lr_index l) h = Some it \<Longrightarrow> \<exists>k. (it, k) \<in> set (lr_nodes l) \<and> hash_key k = h"
  unfolding lru_wf_def using map_of_lru_pairs_Some by metis

lemma lru_wf_absent: "lru_wf l \<Longrightarrow> om_find (lr_index l) h = None \<longleftrightarrow> h \<notin> hashes (lru_keys l)"
  by (simp add: lru_wf_def lru_keys_def map_of_lru_pairs_None)

lemma lru_unlink_wf:
  assumes "lru_wf l"
  shows "\<exists>l'. lru_unlink h l = Some l' \<and> lru_wf l' \<and> lru_keys l' = others h (lru_keys l)"
proof (cases "om_find (lr_index l) h")
  case None
  then have "h \<notin> hashes (lru_keys l)" using lru_wf_absent [OF assms] by blast
  with None assms show ?thesis by (simp add: lru_unlink_def)
next
  case (Some it)
  obtain k where "(it, k) \<in> set (lr_nodes l)" "hash_key k = h" using lru_wf_node [OF assms Some] by blast
  with lru_drop_wf [OF assms this(1)] Some show ?thesis by (simp add: lru_unlink_def lru_drop_def)
qed

lemma lru_update_wf:
  assumes "lru_wf l"
  shows "\<exists>l'. lru_update k l = Some l' \<and> lru_wf l'
    \<and> lru_keys l' = (if hash_key k \<in> hashes (lru_keys l) then k # others (hash_key k) (lru_keys l) else lru_keys l)"
proof (cases "om_find (lr_index l) (hash_key k)")
  case None
  then have "hash_key k \<notin> hashes (lru_keys l)" using lru_wf_absent [OF assms] by blast
  with None assms show ?thesis by (simp add: lru_update_def)
next
  case (Some it)
  obtain j where j: "(it, j) \<in> set (lr_nodes l)" "hash_key j = hash_key k" using lru_wf_node [OF assms Some] by blast
  obtain l' where l': "lru_erase it l = Some l'" "lr_index l' = lr_index l" "lr_next l' = lr_next l"
    "lr_nodes l' = filter (\<lambda>n. hash_key (snd n) \<noteq> hash_key k) (lr_nodes l)" "lru_keys l' = others (hash_key k) (lru_keys l)"
    using lru_erase_node [OF assms j(1)] j(2) by auto
  have "j \<in> set (lru_keys l)" using j(1) by (force simp: lru_keys_def)
  then have "hash_key k \<in> hashes (lru_keys l)" unfolding hashes_def j(2) [symmetric] by (rule imageI)
  moreover have "lru_wf (lru_push_front k l')"
    using assms
    by (auto simp: lru_wf_def lru_push_front_def l' lru_keys_def lru_pairs_filter map_of_filter_key
        others_def filter_map hashes_def lru_pairs_Cons image_iff fun_eq_iff intro!: distinct_map_filter)
  ultimately show ?thesis using Some by (simp add: lru_update_def l' lru_push_front_def lru_keys_def others_def filter_map o_def)
qed

interpretation lo: lru_order lru_wf lru_keys lru_empty lru_push_front lru_update lru_unlink
  by unfold_locales
    (use lru_wf_empty lru_push_front_wf lru_update_wf lru_unlink_wf in \<open>auto simp: lru_wf_def\<close>)

text \<open>The key of the tail iterator is the last key.\<close>

lemma lru_tail_key:
  assumes "lru_wf l" "lr_nodes l \<noteq> []"
  shows "lru_deref (lru_tail l) l = Some (last (lru_keys l))" "(lru_tail l, last (lru_keys l)) \<in> set (lr_nodes l)"
proof -
  have "(lru_tail l, last (lru_keys l)) = last (lr_nodes l)"
    using assms(2) by (simp add: lru_tail_def lru_keys_def last_map)
  then show m: "(lru_tail l, last (lru_keys l)) \<in> set (lr_nodes l)" using assms(2) by simp
  then show "lru_deref (lru_tail l) l = Some (last (lru_keys l))"
    using assms(1) by (simp add: lru_deref_def lru_wf_def)
qed

lemma lru_keys_Nil [simp]: "lru_keys l = [] \<longleftrightarrow> lr_nodes l = []"
  by (simp add: lru_keys_def)

lemma lru_size_keys: "lru_size l = length (lru_keys l)"
  by (simp add: lru_size_def lru_keys_def)

end
