(* ===== verification/Chunk_Storage.thy ===== *)
theory Chunk_Storage
  imports Chunk_Disk Lru_List
begin

unbundle bit_operations_syntax

text \<open>
  The two-tier store \<^verbatim>\<open>ThunderChunkStorage\<close> (src/thunder-lmcache-storage.cpp): L2, chunks on the heap,
  and L3, records in a memory-mapped file. The record below has the members of the class; its
  \<^verbatim>\<open>unordered_map\<close>s are association lists over the 64-bit hashes (where the code iterates over one, the
  order is the environment's \<open>en_order\<close>), and the mapped file is its bytes with the state of the mapping.
  Every operation returns \<open>None\<close> on undefined behaviour, an uncaught exception or a loop that does
  not end. Mutexes are not modelled: an operation is one step.
\<close>

datatype mapping = Unmapped | Map_failed | Mapped

record chunk_info =
  ci_layers :: "nat set"
  ci_base :: "64 word"

record chunk_storage =
  cs_l1_enabled :: bool
  cs_l2 :: "(64 word, chunk) omap"
  cs_l2_lru :: lru
  cs_l2_usage :: nat
  cs_l2_limit :: nat
  cs_l3 :: "(64 word, nat) omap"
  cs_l3_lru :: lru
  cs_l3_usage :: nat
  cs_l3_limit :: nat
  cs_fd :: bool
  cs_map :: mapping
  cs_map_size :: nat
  cs_file :: bytes
  cs_next :: nat
  cs_l3_enabled :: bool
  cs_index :: "(64 word, chunk_info) omap"
  cs_freq :: "(64 word, nat) omap"
  cs_accesses :: nat
  cs_threshold :: nat
  cs_ttl :: nat
  cs_hits :: nat
  cs_misses :: nat
  cs_l2_evictions :: nat
  cs_l3_evictions :: nat
  cs_saves :: nat
  cs_tick :: nat
  cs_notified :: "64 word list list"

definition now :: "env \<Rightarrow> chunk_storage \<Rightarrow> nat \<times> chunk_storage" where
  "now e cs = (en_time e (cs_tick cs), cs\<lparr>cs_tick := cs_tick cs + 1\<rparr>)"

section \<open>The mapped file\<close>

definition cs_view :: "chunk_storage \<Rightarrow> bytes option" where
  "cs_view cs = (if cs_map cs = Mapped \<and> cs_map_size cs \<le> length (cs_file cs)
     then Some (take (cs_map_size cs) (cs_file cs)) else None)"

definition storage_read :: "env \<Rightarrow> nat \<Rightarrow> chunk_storage \<Rightarrow> chunk option option" where
  "storage_read e off cs =
     (if off \<ge> cs_map_size cs then Some None
      else do { f \<leftarrow> cs_view cs; read_from_disk e f off })"

definition write_bytes :: "nat \<Rightarrow> bytes \<Rightarrow> chunk_storage \<Rightarrow> chunk_storage option" where
  "write_bytes off bs cs = do {
     f \<leftarrow> cs_view cs;
     check (off + length bs \<le> cs_map_size cs);
     Some (cs\<lparr>cs_file := take off (cs_file cs) @ bs @ drop (off + length bs) (cs_file cs)\<rparr>) }"

definition mmap_ok :: "env \<Rightarrow> nat \<Rightarrow> nat \<Rightarrow> bool" where
  "mmap_ok e n off \<longleftrightarrow> 0 < n \<and> off mod en_page e = 0 \<and> en_mmap e n"

definition truncate_file :: "nat \<Rightarrow> bytes \<Rightarrow> bytes" where
  "truncate_file n f = take n f @ replicate (n - length f) 0"

definition ensure_disk_space :: "env \<Rightarrow> nat \<Rightarrow> chunk_storage \<Rightarrow> bool \<times> chunk_storage" where
  "ensure_disk_space e required_size cs =
     (if required_size \<le> cs_map_size cs then (True, cs)
      else let new_size = max (u64 (cs_map_size cs * 2)) required_size;
               new_size = min new_size (cs_l3_limit cs)
        in if new_size \<le> cs_map_size cs then (False, cs)
           else if \<not> (cs_map cs = Mapped \<and> cs_map_size cs \<noteq> 0 \<and> en_munmap e (cs_map_size cs)) then (False, cs)
           else if \<not> (cs_fd cs \<and> en_ftruncate e new_size)
           then (False, cs\<lparr>cs_map := (if cs_fd cs \<and> mmap_ok e (cs_map_size cs) 0 then Mapped else Map_failed)\<rparr>)
           else let cs = cs\<lparr>cs_file := truncate_file new_size (cs_file cs)\<rparr>
             in if \<not> mmap_ok e new_size 0 then (False, cs\<lparr>cs_map := Unmapped, cs_map_size := 0\<rparr>)
                else (True, cs\<lparr>cs_map_size := new_size\<rparr>))"

text \<open>
  \<^verbatim>\<open>compact_disk\<close>: the readable records are rewritten, uncompressed, into a temporary file that then
  replaces the cache file. The loop returns \<open>Some None\<close> where the code gives up.
\<close>

fun compact_loop :: "env \<Rightarrow> chunk_storage \<Rightarrow> (64 word \<times> nat) list \<Rightarrow> bytes \<Rightarrow> (64 word, nat) omap
    \<Rightarrow> (bytes \<times> (64 word, nat) omap) option option" where
  "compact_loop e cs [] temp new_offsets = Some (Some (temp, new_offsets))"
| "compact_loop e cs ((key_hash, old_offset) # rest) temp new_offsets = do {
     r \<leftarrow> storage_read e old_offset cs;
     (case r of
        None \<Rightarrow> compact_loop e cs rest temp new_offsets
      | Some c \<Rightarrow> do {
          k \<leftarrow> buf_read (ch_k c) (ch_k_size c);
          v \<leftarrow> buf_read (ch_v c) (ch_v_size c);
          let total_size = V2_HEADER + ch_k_size c + ch_v_size c;
          let new_offset = length temp;
          if \<not> en_ftruncate e (new_offset + total_size) then Some None
          else if \<not> mmap_ok e total_size new_offset then Some None
          else compact_loop e cs rest (temp @ enc_v2 c (data_checksum e k v) k v)
                 (om_set key_hash new_offset new_offsets) }) }"

definition compact_order :: "env \<Rightarrow> chunk_storage \<Rightarrow> (64 word \<times> nat) list" where
  "compact_order e cs = map (\<lambda>h. (h, the (om_find (cs_l3 cs) h))) (en_order e (map fst (cs_l3 cs)))"

definition compact_disk :: "env \<Rightarrow> chunk_storage \<Rightarrow> (bool \<times> chunk_storage) option" where
  "compact_disk e cs =
     (if \<not> en_open e True then Some (False, cs)
      else do {
        r \<leftarrow> compact_loop e cs (compact_order e cs) [] [];
        (case r of
           None \<Rightarrow> Some (False, cs)
         | Some (temp, new_offsets) \<Rightarrow>
             let cs = (if cs_map cs = Mapped then cs\<lparr>cs_map := Unmapped, cs_map_size := 0\<rparr> else cs);
                 cs = cs\<lparr>cs_fd := False\<rparr>
             in if \<not> en_rename e then Some (False, cs)
                else let cs = cs\<lparr>cs_file := temp\<rparr>
                  in if \<not> en_open e False \<or> \<not> en_fstat e then Some (False, cs)
                     else if temp \<noteq> [] \<and> \<not> mmap_ok e (length temp) 0
                     then Some (False, cs\<lparr>cs_map := Map_failed, cs_map_size := length temp\<rparr>)
                     else let cs = (if temp \<noteq> [] then cs\<lparr>cs_map := Mapped, cs_map_size := length temp\<rparr> else cs)
                       in Some (True, cs\<lparr>cs_fd := True, cs_l3 := new_offsets, cs_next := length temp\<rparr>)) })"

section \<open>Eviction from L3\<close>

text \<open>
  The second-chance scan of both evictions: at most \<open>k\<close> hot keys at the tail get their frequency
  halved and go to the front. After moving the only key the code leaves the loop with the iterator
  it has just erased; the model keeps that id.
\<close>

fun second_chance :: "nat \<Rightarrow> nat \<Rightarrow> nat \<Rightarrow> lru \<Rightarrow> (64 word, nat) omap \<Rightarrow> nat
    \<Rightarrow> (nat \<times> lru \<times> (64 word, nat) omap \<times> nat) option" where
  "second_chance threshold 0 it l freq saves = Some (it, l, freq, saves)"
| "second_chance threshold (Suc k) it l freq saves = do {
     key \<leftarrow> lru_deref it l;
     let f = (case om_find freq (hash_key key) of None \<Rightarrow> 0 | Some f \<Rightarrow> f);
     if f > threshold then do {
       let freq = (if om_find freq (hash_key key) \<noteq> None then om_set (hash_key key) (f div 2) freq else freq);
       l \<leftarrow> lru_erase it l;
       let l = lru_push_front key l;
       if lru_size l \<le> 1 then Some (it, l, freq, u64 (saves + 1))
       else second_chance threshold k (lru_tail l) l freq (u64 (saves + 1)) }
     else Some (it, l, freq, saves) }"

definition SECOND_CHANCE_SCAN_DEPTH :: nat where
  "SECOND_CHANCE_SCAN_DEPTH = 8"

definition scan_lru :: "nat \<Rightarrow> lru \<Rightarrow> (64 word, nat) omap \<Rightarrow> nat \<Rightarrow> (nat \<times> lru \<times> (64 word, nat) omap \<times> nat) option" where
  "scan_lru threshold l freq saves =
     second_chance threshold (min (lru_size l) SECOND_CHANCE_SCAN_DEPTH) (lru_tail l) l freq saves"

text \<open>\<^verbatim>\<open>content_hash ^ chunk_start\<close>, and the position of a layer in the \<^verbatim>\<open>bitset<128>\<close> (throws from 128 on).\<close>

definition base_hash :: "chunk_key \<Rightarrow> 64 word" where
  "base_hash k = ck_content k XOR scast (ck_start k)"

definition layer_bit :: "32 word \<Rightarrow> nat option" where
  "layer_bit il = (if unat il < 128 then Some (unat il) else None)"

definition index_reset :: "chunk_key \<Rightarrow> (64 word, chunk_info) omap \<Rightarrow> (64 word, chunk_info) omap option" where
  "index_reset key ix = (case om_find ix (base_hash key) of
     None \<Rightarrow> Some ix
   | Some info \<Rightarrow> do {
       b \<leftarrow> layer_bit (ck_layer key);
       let info = info\<lparr>ci_layers := ci_layers info - {b}\<rparr>;
       Some (if ci_layers info = {} then om_erase (base_hash key) ix else om_set (base_hash key) info ix) })"

definition evict_l3_victim :: "env \<Rightarrow> nat \<Rightarrow> chunk_storage \<Rightarrow> (nat \<times> chunk_storage) option" where
  "evict_l3_victim e it cs = do {
     key \<leftarrow> lru_deref it (cs_l3_lru cs);
     let key_hash = hash_key key;
     (case om_find (cs_l3 cs) key_hash of
        None \<Rightarrow> do { l \<leftarrow> lru_drop it key_hash (cs_l3_lru cs); Some (0, cs\<lparr>cs_l3_lru := l\<rparr>) }
      | Some off \<Rightarrow> do {
          r \<leftarrow> storage_read e off cs;
          let n = (case r of None \<Rightarrow> 0 | Some c \<Rightarrow> chunk_size c);
          l \<leftarrow> lru_drop it key_hash (cs_l3_lru cs);
          ix \<leftarrow> index_reset key (cs_index cs);
          Some (n, cs\<lparr>cs_notified := cs_notified cs @ [[ck_content key]],
            cs_l3 := om_erase key_hash (cs_l3 cs), cs_l3_usage := u64_sub (cs_l3_usage cs) n,
            cs_l3_lru := l, cs_index := ix, cs_l3_evictions := u64 (cs_l3_evictions cs + 1)\<rparr>) }) }"

definition evict_one_l3 :: "env \<Rightarrow> chunk_storage \<Rightarrow> (nat \<times> chunk_storage) option" where
  "evict_one_l3 e cs =
     (if lr_nodes (cs_l3_lru cs) = [] then Some (0, cs)
      else do {
        (it, l, freq, saves) \<leftarrow> scan_lru (cs_threshold cs) (cs_l3_lru cs) (cs_freq cs) (cs_saves cs);
        evict_l3_victim e it (cs\<lparr>cs_l3_lru := l, cs_freq := freq, cs_saves := saves\<rparr>) })"

section \<open>Writing to L3 and eviction from L2\<close>

text \<open>
  The loop of \<^verbatim>\<open>write_to_disk\<close> that makes room. An eviction takes a key off the LRU list, so that the
  fuel, one more than the keys, runs out only when the list is empty and the loop would not end.
\<close>

fun make_l3_room :: "nat \<Rightarrow> env \<Rightarrow> nat \<Rightarrow> chunk_storage \<Rightarrow> chunk_storage option" where
  "make_l3_room 0 e n cs = None"
| "make_l3_room (Suc fuel) e n cs =
     (if u64 (cs_l3_usage cs + n) > cs_l3_limit cs \<and> cs_l3 cs \<noteq> []
      then do { (freed, cs) \<leftarrow> evict_one_l3 e cs; make_l3_room fuel e n cs }
      else Some cs)"

text \<open>\<^verbatim>\<open>(size_t) -1\<close> is \<open>None\<close> in the first component.\<close>

definition write_to_disk :: "env \<Rightarrow> chunk \<Rightarrow> chunk_storage \<Rightarrow> (nat option \<times> chunk_storage) option" where
  "write_to_disk e c cs =
     (if \<not> cs_l3_enabled cs then Some (None, cs)
      else do {
        cs \<leftarrow> make_l3_room (lru_size (cs_l3_lru cs) + 1) e (chunk_size c) cs;
        if u64 (cs_l3_usage cs + chunk_size c) > cs_l3_limit cs then Some (None, cs)
        else do {
          cs \<leftarrow> (if cs_next cs > u64 (cs_l3_limit cs * 9) div 10 \<and> cs_l3 cs \<noteq> []
                 then do { (ok, cs) \<leftarrow> compact_disk e cs; Some cs } else Some cs);
          r \<leftarrow> pack_record e c;
          (case r of
             None \<Rightarrow> Some (None, cs)
           | Some rec \<Rightarrow>
               (case ensure_disk_space e (u64 (cs_next cs + length rec)) cs of (ok, cs) \<Rightarrow>
                  if \<not> ok then Some (None, cs)
                  else do {
                    cs \<leftarrow> write_bytes (cs_next cs) rec cs;
                    Some (Some (cs_next cs), cs\<lparr>cs_next := u64 (cs_next cs + length rec)\<rparr>) })) } })"

definition add_to_l3 :: "chunk_key \<Rightarrow> 64 word \<Rightarrow> nat \<Rightarrow> nat \<Rightarrow> chunk_storage \<Rightarrow> chunk_storage" where
  "add_to_l3 key key_hash off n cs = cs\<lparr>cs_l3 := om_set key_hash off (cs_l3 cs),
     cs_l3_usage := u64 (cs_l3_usage cs + n), cs_l3_lru := lru_push_front key (cs_l3_lru cs)\<rparr>"

definition evict_l2_victim :: "env \<Rightarrow> nat \<Rightarrow> chunk_storage \<Rightarrow> (nat \<times> chunk_storage) option" where
  "evict_l2_victim e it cs = do {
     key \<leftarrow> lru_deref it (cs_l2_lru cs);
     let key_hash = hash_key key;
     (case om_find (cs_l2 cs) key_hash of
        None \<Rightarrow> do { l \<leftarrow> lru_drop it key_hash (cs_l2_lru cs); Some (0, cs\<lparr>cs_l2_lru := l\<rparr>) }
      | Some c \<Rightarrow> do {
          let n = chunk_size c;
          (off, cs) \<leftarrow> write_to_disk e c cs;
          let cs = (case off of None \<Rightarrow> cs | Some off \<Rightarrow> add_to_l3 key key_hash off n cs);
          k \<leftarrow> buf_free (ch_k c);
          v \<leftarrow> buf_free (ch_v c);
          l \<leftarrow> lru_drop it key_hash (cs_l2_lru cs);
          Some (n, cs\<lparr>cs_l2 := om_erase key_hash (cs_l2 cs), cs_l2_usage := u64_sub (cs_l2_usage cs) n,
            cs_l2_lru := l, cs_l2_evictions := u64 (cs_l2_evictions cs + 1)\<rparr>) }) }"

definition evict_one_l2_to_l3 :: "env \<Rightarrow> chunk_storage \<Rightarrow> (nat \<times> chunk_storage) option" where
  "evict_one_l2_to_l3 e cs =
     (if lr_nodes (cs_l2_lru cs) = [] then Some (0, cs)
      else do {
        (it, l, freq, saves) \<leftarrow> scan_lru (cs_threshold cs) (cs_l2_lru cs) (cs_freq cs) (cs_saves cs);
        evict_l2_victim e it (cs\<lparr>cs_l2_lru := l, cs_freq := freq, cs_saves := saves\<rparr>) })"

text \<open>The eviction loops: until \<open>n\<close> more bytes fit in L2, and until \<open>target\<close> bytes are freed.\<close>

fun make_l2_room :: "nat \<Rightarrow> env \<Rightarrow> nat \<Rightarrow> chunk_storage \<Rightarrow> chunk_storage option" where
  "make_l2_room 0 e n cs = None"
| "make_l2_room (Suc fuel) e n cs =
     (if u64 (cs_l2_usage cs + n) > cs_l2_limit cs \<and> cs_l2 cs \<noteq> []
      then do { (freed, cs) \<leftarrow> evict_one_l2_to_l3 e cs; make_l2_room fuel e n cs }
      else Some cs)"

fun free_bytes :: "nat \<Rightarrow> env \<Rightarrow> nat \<Rightarrow> nat \<Rightarrow> chunk_storage \<Rightarrow> chunk_storage option" where
  "free_bytes 0 e target freed cs = None"
| "free_bytes (Suc fuel) e target freed cs =
     (if freed < target \<and> cs_l2 cs \<noteq> []
      then do { (n, cs) \<leftarrow> evict_one_l2_to_l3 e cs; free_bytes fuel e target (u64 (freed + n)) cs }
      else Some cs)"

definition l2_fuel :: "chunk_storage \<Rightarrow> nat" where
  "l2_fuel cs = lru_size (cs_l2_lru cs) + 1"

definition evict_lru :: "env \<Rightarrow> nat \<Rightarrow> chunk_storage \<Rightarrow> chunk_storage option" where
  "evict_lru e target_free_bytes cs = free_bytes (l2_fuel cs) e target_free_bytes 0 cs"

section \<open>put\<close>

text \<open>The lazy expiration at the tail of the L2 list, at most \<open>k\<close> evictions, with one reading of the clock.\<close>

fun expire :: "nat \<Rightarrow> env \<Rightarrow> nat \<Rightarrow> chunk_storage \<Rightarrow> chunk_storage option" where
  "expire 0 e t cs = Some cs"
| "expire (Suc k) e t cs =
     (if lr_nodes (cs_l2_lru cs) = [] then Some cs
      else do {
        tail \<leftarrow> lru_deref (lru_tail (cs_l2_lru cs)) (cs_l2_lru cs);
        (case om_find (cs_l2 cs) (hash_key tail) of
           None \<Rightarrow> Some cs
         | Some c \<Rightarrow>
             if u64_sub t (ch_last c) > cs_ttl cs
             then do { (n, cs) \<leftarrow> evict_one_l2_to_l3 e cs; expire k e t cs }
             else Some cs) })"

definition put_expire :: "env \<Rightarrow> chunk_storage \<Rightarrow> chunk_storage option" where
  "put_expire e cs =
     (if cs_ttl cs > 0
      then case now e cs of (t, cs) \<Rightarrow> expire (min (lru_size (cs_l2_lru cs)) 16) e t cs
      else Some cs)"

text \<open>
  \<^verbatim>\<open>n > 0 ? malloc(n) : nullptr\<close> followed by the \<^verbatim>\<open>memcpy\<close>; \<open>None\<close> inside is a failed allocation.
\<close>

definition alloc_ok :: "env \<Rightarrow> nat \<Rightarrow> bool" where
  "alloc_ok e n \<longleftrightarrow> n = 0 \<or> en_malloc e n"

definition copy_buf :: "buf \<Rightarrow> nat \<Rightarrow> buf option" where
  "copy_buf p n = (if n = 0 then Some Null else do { d \<leftarrow> buf_read p n; Some (Live d) })"

text \<open>The buffers left behind when one of the two allocations fails: freed where it succeeded, not reset.\<close>

definition failed_buf :: "env \<Rightarrow> nat \<Rightarrow> buf" where
  "failed_buf e n = (if n > 0 \<and> en_malloc e n then Freed else Null)"

definition put_update :: "env \<Rightarrow> chunk \<Rightarrow> chunk \<Rightarrow> chunk_storage \<Rightarrow> (bool \<times> chunk_storage) option" where
  "put_update e existing c cs = do {
     let key_hash = hash_key (ch_key c);
     k \<leftarrow> buf_free (ch_k existing);
     v \<leftarrow> buf_free (ch_v existing);
     let existing = existing\<lparr>ch_k_size := ch_k_size c, ch_v_size := ch_v_size c\<rparr>;
     if \<not> alloc_ok e (ch_k_size c) \<or> \<not> alloc_ok e (ch_v_size c)
     then Some (False, cs\<lparr>cs_l2 := om_set key_hash
            (existing\<lparr>ch_k := failed_buf e (ch_k_size c), ch_v := failed_buf e (ch_v_size c)\<rparr>) (cs_l2 cs)\<rparr>)
     else do {
       k \<leftarrow> copy_buf (ch_k c) (ch_k_size c);
       v \<leftarrow> copy_buf (ch_v c) (ch_v_size c);
       let (t, cs) = now e cs;
       let cs = cs\<lparr>cs_l2 := om_set key_hash (existing\<lparr>ch_k := k, ch_v := v, ch_last := t,
                     ch_count := u32 (ch_count existing + 1)\<rparr>) (cs_l2 cs)\<rparr>;
       l \<leftarrow> lru_update (ch_key c) (cs_l2_lru cs);
       Some (True, cs\<lparr>cs_l2_lru := l\<rparr>) } }"

definition index_set :: "chunk_key \<Rightarrow> (64 word, chunk_info) omap \<Rightarrow> (64 word, chunk_info) omap option" where
  "index_set key ix = do {
     let info = (case om_find ix (base_hash key) of None \<Rightarrow> \<lparr>ci_layers = {}, ci_base = 0\<rparr> | Some info \<Rightarrow> info);
     b \<leftarrow> layer_bit (ck_layer key);
     Some (om_set (base_hash key) (info\<lparr>ci_layers := insert b (ci_layers info), ci_base := base_hash key\<rparr>) ix) }"

definition put_insert :: "env \<Rightarrow> chunk \<Rightarrow> chunk_storage \<Rightarrow> (bool \<times> chunk_storage) option" where
  "put_insert e c cs = do {
     let key_hash = hash_key (ch_key c);
     let n = chunk_size c;
     cs \<leftarrow> (if om_find (cs_l3 cs) key_hash = None then Some cs
           else do {
             l \<leftarrow> lru_unlink key_hash (cs_l3_lru cs);
             Some (cs\<lparr>cs_l3 := om_erase key_hash (cs_l3 cs), cs_l3_lru := l, cs_l3_usage := u64_sub (cs_l3_usage cs) n\<rparr>) });
     cs \<leftarrow> make_l2_room (l2_fuel cs) e n cs;
     if u64 (cs_l2_usage cs + n) > cs_l2_limit cs then Some (False, cs)
     else if \<not> alloc_ok e (ch_k_size c) \<or> \<not> alloc_ok e (ch_v_size c) then Some (False, cs)
     else do {
       k \<leftarrow> copy_buf (ch_k c) (ch_k_size c);
       v \<leftarrow> copy_buf (ch_v c) (ch_v_size c);
       let (t, cs) = now e cs;
       let new_chunk = c\<lparr>ch_k := k, ch_v := v, ch_last := t, ch_count := u32 (ch_count c + 1)\<rparr>;
       let cs = cs\<lparr>cs_l2 := om_set key_hash new_chunk (cs_l2 cs), cs_l2_usage := u64 (cs_l2_usage cs + n),
                   cs_l2_lru := lru_push_front (ch_key c) (cs_l2_lru cs)\<rparr>;
       ix \<leftarrow> index_set (ch_key c) (cs_index cs);
       Some (True, cs\<lparr>cs_index := ix\<rparr>) } }"

definition storage_put :: "env \<Rightarrow> chunk \<Rightarrow> chunk_storage \<Rightarrow> (bool \<times> chunk_storage) option" where
  "storage_put e c cs = do {
     cs \<leftarrow> put_expire e cs;
     (case om_find (cs_l2 cs) (hash_key (ch_key c)) of
        Some existing \<Rightarrow> put_update e existing c cs
      | None \<Rightarrow> put_insert e c cs) }"

section \<open>get\<close>

definition count_access :: "64 word \<Rightarrow> chunk_storage \<Rightarrow> chunk_storage" where
  "count_access h cs = cs\<lparr>cs_freq := om_set h (u32 ((case om_find (cs_freq cs) h of None \<Rightarrow> 0 | Some f \<Rightarrow> f) + 1)) (cs_freq cs),
     cs_accesses := u64 (cs_accesses cs + 1)\<rparr>"

definition hit :: "chunk_storage \<Rightarrow> chunk_storage" where
  "hit cs = cs\<lparr>cs_hits := u64 (cs_hits cs + 1)\<rparr>"

definition miss :: "chunk_storage \<Rightarrow> chunk_storage" where
  "miss cs = cs\<lparr>cs_misses := u64 (cs_misses cs + 1)\<rparr>"

text \<open>A hit that turns out not to be one.\<close>

definition unhit :: "chunk_storage \<Rightarrow> chunk_storage" where
  "unhit cs = (miss cs)\<lparr>cs_hits := u64_sub (cs_hits cs) 1\<rparr>"

text \<open>The access time and count of a chunk.\<close>

definition touch_chunk :: "env \<Rightarrow> chunk \<Rightarrow> chunk_storage \<Rightarrow> chunk \<times> chunk_storage" where
  "touch_chunk e c cs = (case now e cs of (t, cs) \<Rightarrow> (c\<lparr>ch_last := t, ch_count := u32 (ch_count c + 1)\<rparr>, cs))"

text \<open>The move of a chunk that was read from L3 into L2; the key goes to the LRU list.\<close>

definition promote :: "chunk_key \<Rightarrow> 64 word \<Rightarrow> chunk \<Rightarrow> chunk_storage \<Rightarrow> chunk_storage option" where
  "promote key key_hash c cs = do {
     let n = chunk_size c;
     cs \<leftarrow> (if om_find (cs_l3 cs) key_hash = None then Some cs
           else do {
             l \<leftarrow> lru_unlink key_hash (cs_l3_lru cs);
             Some (cs\<lparr>cs_l3 := om_erase key_hash (cs_l3 cs), cs_l3_lru := l, cs_l3_usage := u64_sub (cs_l3_usage cs) n\<rparr>) });
     Some (cs\<lparr>cs_l2 := om_set key_hash c (cs_l2 cs), cs_l2_usage := u64 (cs_l2_usage cs + n),
       cs_l2_lru := lru_push_front key (cs_l2_lru cs)\<rparr>) }"

definition get_l2 :: "env \<Rightarrow> chunk_key \<Rightarrow> 64 word \<Rightarrow> chunk \<Rightarrow> chunk_storage \<Rightarrow> (chunk option \<times> chunk_storage) option" where
  "get_l2 e key key_hash c cs = do {
     let (c, cs) = touch_chunk e c (hit cs);
     let cs = count_access key_hash (cs\<lparr>cs_l2 := om_set key_hash c (cs_l2 cs)\<rparr>);
     l \<leftarrow> lru_update key (cs_l2_lru cs);
     Some (Some c, cs\<lparr>cs_l2_lru := l\<rparr>) }"

definition get_l3 :: "env \<Rightarrow> chunk_key \<Rightarrow> 64 word \<Rightarrow> nat \<Rightarrow> chunk_storage \<Rightarrow> (chunk option \<times> chunk_storage) option" where
  "get_l3 e key key_hash off cs = do {
     let cs = count_access key_hash (hit cs);
     r \<leftarrow> storage_read e off cs;
     (case r of
        None \<Rightarrow> Some (None, unhit cs)
      | Some c \<Rightarrow> do {
          let (c, cs) = touch_chunk e c cs;
          l \<leftarrow> lru_update key (cs_l3_lru cs);
          let cs = cs\<lparr>cs_l3_lru := l\<rparr>;
          if u64 (cs_l2_usage cs + chunk_size c) \<le> cs_l2_limit cs
          then do { cs \<leftarrow> promote key key_hash c cs; Some (Some c, cs) }
          else Some (None, unhit cs) }) }"

definition storage_get :: "env \<Rightarrow> chunk_key \<Rightarrow> chunk_storage \<Rightarrow> (chunk option \<times> chunk_storage) option" where
  "storage_get e key cs = do {
     let key_hash = hash_key key;
     let cs = (if cs_l1_enabled cs \<and> en_l1_offset e key_hash then hit cs else cs);
     (case om_find (cs_l2 cs) key_hash of
        Some c \<Rightarrow> get_l2 e key key_hash c cs
      | None \<Rightarrow>
          (case om_find (cs_l3 cs) key_hash of
             Some off \<Rightarrow> get_l3 e key key_hash off cs
           | None \<Rightarrow> Some (None, miss cs))) }"

definition blit_from_l1 :: "env \<Rightarrow> chunk_key \<Rightarrow> chunk_storage \<Rightarrow> bool \<times> chunk_storage" where
  "blit_from_l1 e key cs =
     (if \<not> cs_l1_enabled cs then (False, cs)
      else if en_l1_blit e (hash_key key) then (True, count_access (hash_key key) (hit cs)) else (False, cs))"

section \<open>batch_get\<close>

text \<open>
  The returned pointers lead into \<^verbatim>\<open>l2_cache_\<close>: \<open>Some h\<close> points to the entry of \<open>h\<close>. The first phase serves
  L2 and collects the L3 reads as (index, hash, offset).
\<close>

type_synonym l3_reads = "(nat \<times> 64 word \<times> nat) list"

definition batch_lookup :: "env \<Rightarrow> chunk_key list \<Rightarrow> chunk_storage
    \<Rightarrow> (64 word option list \<times> l3_reads \<times> chunk_storage) option" where
  "batch_lookup e keys cs = foldM (\<lambda>i (results, reads, cs). do {
       let key = keys ! i;
       let h = hash_key key;
       (case om_find (cs_l2 cs) h of
          Some c \<Rightarrow> do {
            let (c, cs) = touch_chunk e c cs;
            let cs = count_access h (cs\<lparr>cs_l2 := om_set h c (cs_l2 cs)\<rparr>);
            l \<leftarrow> lru_update key (cs_l2_lru cs);
            Some (results[i := Some h], reads, hit (cs\<lparr>cs_l2_lru := l\<rparr>)) }
        | None \<Rightarrow>
            (case om_find (cs_l3 cs) h of
               Some off \<Rightarrow> Some (results, reads @ [(i, h, off)], hit (count_access h cs))
             | None \<Rightarrow> Some (results, reads, miss cs))) })
     [0..<length keys] (replicate (length keys) None, [], cs)"

text \<open>The room the reads need, from the sizes in their headers.\<close>

definition batch_needed :: "l3_reads \<Rightarrow> chunk_storage \<Rightarrow> nat option" where
  "batch_needed reads cs = foldM (\<lambda>(i, h, off) total.
       if u64 (off + 32) \<le> cs_map_size cs \<and> cs_map cs \<noteq> Unmapped
       then do {
         f \<leftarrow> cs_view cs;
         k \<leftarrow> rd f (off + 16) 8;
         v \<leftarrow> rd f (off + 24) 8;
         Some (u64 (total + (k + v))) }
       else Some (u64 (total + 256 * 1024))) reads 0"

definition batch_room :: "env \<Rightarrow> l3_reads \<Rightarrow> chunk_storage \<Rightarrow> chunk_storage option" where
  "batch_room e reads cs = do {
     total_needed \<leftarrow> batch_needed reads cs;
     let space_available = (if cs_l2_limit cs > cs_l2_usage cs then cs_l2_limit cs - cs_l2_usage cs else 0);
     if total_needed > space_available
     then free_bytes (l2_fuel cs) e (total_needed - space_available) 0 cs
     else Some cs }"

text \<open>The asynchronous reads; they run without the lock, here one after the other.\<close>

definition batch_read :: "env \<Rightarrow> l3_reads \<Rightarrow> chunk_storage \<Rightarrow> ((nat \<times> chunk option) list \<times> chunk_storage) option" where
  "batch_read e reads cs = foldM (\<lambda>(i, h, off) (rs, cs). do {
       r \<leftarrow> storage_read e off cs;
       (case r of
          None \<Rightarrow> Some (rs @ [(i, None)], cs)
        | Some c \<Rightarrow> let (c, cs) = touch_chunk e c cs in Some (rs @ [(i, Some c)], cs)) }) reads ([], cs)"

definition batch_collect :: "env \<Rightarrow> chunk_key list \<Rightarrow> (nat \<times> chunk option) list
    \<Rightarrow> 64 word option list \<times> chunk_storage \<Rightarrow> (64 word option list \<times> chunk_storage) option" where
  "batch_collect e keys rs st = foldM (\<lambda>(i, r) (results, cs).
       (case r of
          None \<Rightarrow> Some (results, unhit cs)
        | Some c \<Rightarrow> do {
            let key = keys ! i;
            l \<leftarrow> lru_update key (cs_l3_lru cs);
            let cs = cs\<lparr>cs_l3_lru := l\<rparr>;
            cs \<leftarrow> make_l2_room (l2_fuel cs) e (chunk_size c) cs;
            if u64 (cs_l2_usage cs + chunk_size c) \<le> cs_l2_limit cs
            then do { cs \<leftarrow> promote key (hash_key key) c cs; Some (results[i := Some (hash_key key)], cs) }
            else Some (results, unhit cs) })) rs st"

definition batch_get :: "env \<Rightarrow> chunk_key list \<Rightarrow> chunk_storage \<Rightarrow> (64 word option list \<times> chunk_storage) option" where
  "batch_get e keys cs = do {
     (results, reads, cs) \<leftarrow> batch_lookup e keys cs;
     if reads = [] then Some (results, cs)
     else do {
       cs \<leftarrow> batch_room e reads cs;
       (rs, cs) \<leftarrow> batch_read e reads cs;
       batch_collect e keys rs (results, cs) } }"

end
