(* ===== verification/Chunk_Lifecycle.thy ===== *)
theory Chunk_Lifecycle
  imports Chunk_Storage
begin

unbundle bit_operations_syntax

text \<open>
  The rest of \<^verbatim>\<open>ThunderChunkStorage\<close>: start-up (opening the file, the scan of
  \<^verbatim>\<open>load_cache_from_disk\<close>, prefetching), prefix matching, the queries, unmounting and the destructor.
\<close>

section \<open>The scan of the cache file\<close>

text \<open>
  The loop reads the header of the record at \<open>off\<close> and jumps behind the record. The file does not
  change, so that a run that ends visits an offset once, and \<open>load_fuel\<close> is enough for it; out of fuel
  is a loop that does not end.
\<close>

fun load_loop :: "nat \<Rightarrow> nat \<Rightarrow> chunk_storage \<Rightarrow> (nat \<times> chunk_storage) option" where
  "load_loop 0 off cs = None"
| "load_loop (Suc fuel) off cs =
     (if u64 (off + V3_HEADER) > cs_map_size cs then Some (off, cs)
      else do {
        f \<leftarrow> cs_view cs;
        h \<leftarrow> read_header f off;
        let n = u64 (hd_k_size h + hd_v_size h);
        let total = u64 (V3_HEADER + hd_ck h + hd_cv h);
        if n = 0 \<or> u64 (off + total) > cs_map_size cs then Some (off, cs)
        else load_loop fuel (u64 (off + total))
               (cs\<lparr>cs_l3 := om_set (hash_key (hd_key h)) off (cs_l3 cs),
                   cs_l3_usage := u64 (cs_l3_usage cs + n),
                   cs_l3_lru := lru_push_back (hd_key h) (cs_l3_lru cs)\<rparr>) })"

definition load_fuel :: "chunk_storage \<Rightarrow> nat" where
  "load_fuel cs = cs_map_size cs + 1"

definition load_cache_from_disk :: "chunk_storage \<Rightarrow> chunk_storage option" where
  "load_cache_from_disk cs = do {
     (off, cs) \<leftarrow> load_loop (load_fuel cs) 0 cs;
     Some (cs\<lparr>cs_next := off\<rparr>) }"

text \<open>The test write over the first 8 bytes, which are put back.\<close>

definition check_disk_health :: "env \<Rightarrow> chunk_storage \<Rightarrow> (bool \<times> chunk_storage) option" where
  "check_disk_health e cs =
     (if \<not> cs_fd cs \<or> cs_map cs = Unmapped then Some (False, cs)
      else if \<not> en_fstat e then Some (False, cs)
      else if cs_map_size cs \<ge> 8
      then do {
        f \<leftarrow> cs_view cs;
        original_value \<leftarrow> slice f 0 8;
        cs \<leftarrow> write_bytes 0 (le_enc 8 0xDEADBEEFCAFEBABE) cs;
        f \<leftarrow> cs_view cs;
        verify_value \<leftarrow> slice f 0 8;
        cs \<leftarrow> write_bytes 0 original_value cs;
        Some (verify_value = le_enc 8 0xDEADBEEFCAFEBABE, cs) }
      else Some (True, cs))"

section \<open>Prefetching\<close>

text \<open>
  \<^verbatim>\<open>std::sort\<close> by descending count leaves the order of equal counts open; here it is the one of the
  iteration, \<open>en_order\<close>.
\<close>

definition prefetch_list :: "env \<Rightarrow> chunk_storage \<Rightarrow> (64 word \<times> nat \<times> nat) list" where
  "prefetch_list e cs =
     (let hs = filter (\<lambda>h. om_find (cs_l3 cs) h \<noteq> None \<and> om_find (cs_l2 cs) h = None)
                 (en_order e (map fst (cs_freq cs)))
      in rev (sort_key (fst \<circ> snd) (rev (map (\<lambda>h. (h, the (om_find (cs_freq cs) h), the (om_find (cs_l3 cs) h))) hs))))"

fun prefetch_insert :: "(64 word \<times> chunk option) list \<Rightarrow> chunk_storage \<Rightarrow> chunk_storage option" where
  "prefetch_insert [] cs = Some cs"
| "prefetch_insert ((h, None) # rs) cs = prefetch_insert rs cs"
| "prefetch_insert ((h, Some c) # rs) cs =
     (if u64 (cs_l2_usage cs + chunk_size c) > cs_l2_limit cs then Some cs
      else do { cs \<leftarrow> promote (ch_key c) h c cs; prefetch_insert rs cs })"

definition prefetch_hot_chunks :: "env \<Rightarrow> nat \<Rightarrow> chunk_storage \<Rightarrow> chunk_storage option" where
  "prefetch_hot_chunks e top_n cs =
     (if \<not> cs_l3_enabled cs \<or> cs_l3 cs = [] then Some cs
      else do {
        let chosen = take top_n (prefetch_list e cs);
        rs \<leftarrow> foldM (\<lambda>(h, n, off) rs. do { r \<leftarrow> storage_read e off cs; Some (rs @ [(h, r)]) }) chosen [];
        prefetch_insert rs cs })"

section \<open>Construction, unmounting, destruction\<close>

definition new_storage :: "nat \<Rightarrow> nat \<Rightarrow> nat \<Rightarrow> nat \<Rightarrow> bytes \<Rightarrow> chunk_storage" where
  "new_storage cpu_limit disk_limit threshold ttl file =
     \<lparr>cs_l1_enabled = False, cs_l2 = [], cs_l2_lru = lru_empty, cs_l2_usage = 0, cs_l2_limit = cpu_limit,
      cs_l3 = [], cs_l3_lru = lru_empty, cs_l3_usage = 0, cs_l3_limit = disk_limit,
      cs_fd = False, cs_map = Unmapped, cs_map_size = 0, cs_file = file, cs_next = 0, cs_l3_enabled = True,
      cs_index = [], cs_freq = [], cs_accesses = 0, cs_threshold = threshold, cs_ttl = ttl,
      cs_hits = 0, cs_misses = 0, cs_l2_evictions = 0, cs_l3_evictions = 0, cs_saves = 0, cs_tick = 0, cs_notified = []\<rparr>"

definition INITIAL_SIZE :: nat where
  "INITIAL_SIZE = 1024 * 1024"

text \<open>
  The \<^verbatim>\<open>do { } while (false)\<close> of the constructor, on the file at the cache path; \<open>mkdir\<close> is whether its
  directory could be made. The result says whether L3 is usable.
\<close>

definition open_l3 :: "env \<Rightarrow> bool \<Rightarrow> chunk_storage \<Rightarrow> (bool \<times> chunk_storage) option" where
  "open_l3 e mkdir cs =
     (if \<not> mkdir \<or> \<not> en_open e False then Some (False, cs)
      else if \<not> en_fstat e then Some (False, cs)
      else if length (cs_file cs) < INITIAL_SIZE \<and> \<not> en_ftruncate e INITIAL_SIZE then Some (False, cs)
      else do {
        let file = (if length (cs_file cs) < INITIAL_SIZE then truncate_file INITIAL_SIZE (cs_file cs) else cs_file cs);
        let cs = cs\<lparr>cs_file := file, cs_map_size := length file\<rparr>;
        if \<not> mmap_ok e (length file) 0 then Some (False, cs)
        else do {
          (ok, cs) \<leftarrow> check_disk_health e (cs\<lparr>cs_fd := True, cs_map := Mapped\<rparr>);
          if \<not> ok then Some (False, cs\<lparr>cs_fd := False, cs_map := Unmapped\<rparr>)
          else do { cs \<leftarrow> load_cache_from_disk cs; Some (True, cs) } } })"

definition storage_create :: "env \<Rightarrow> bool \<Rightarrow> bool \<Rightarrow> nat \<Rightarrow> nat \<Rightarrow> nat \<Rightarrow> nat \<Rightarrow> bytes \<Rightarrow> chunk_storage option" where
  "storage_create e mkdir metal cpu_limit disk_limit threshold ttl file = do {
     (ok, cs) \<leftarrow> open_l3 e mkdir (new_storage cpu_limit disk_limit threshold ttl file);
     cs \<leftarrow> (if \<not> ok then Some (cs\<lparr>cs_l3_enabled := False\<rparr>)
           else if cs_freq cs \<noteq> [] then prefetch_hot_chunks e 100 cs
           else Some cs);
     Some (cs\<lparr>cs_l1_enabled := metal\<rparr>) }"

text \<open>\<^verbatim>\<open>munmap\<close> and \<^verbatim>\<open>close\<close>, as \<^verbatim>\<open>disable_l3\<close> and \<^verbatim>\<open>safe_unmount\<close> do them.\<close>

definition close_file :: "chunk_storage \<Rightarrow> chunk_storage" where
  "close_file cs = (if cs_map cs = Mapped then cs\<lparr>cs_map := Unmapped, cs_map_size := 0\<rparr> else cs)\<lparr>cs_fd := False\<rparr>"

definition disable_l3 :: "chunk_storage \<Rightarrow> chunk_storage" where
  "disable_l3 cs = close_file (cs\<lparr>cs_l3_enabled := False, cs_l3 := [], cs_l3_lru := lru_empty, cs_l3_usage := 0\<rparr>)"

definition safe_unmount :: "chunk_storage \<Rightarrow> chunk_storage" where
  "safe_unmount cs = (if \<not> cs_l3_enabled cs then cs else close_file (cs\<lparr>cs_l3_enabled := False\<rparr>))"

text \<open>The destructor writes every L2 chunk to L3 before it unmaps the file.\<close>

definition storage_destroy :: "env \<Rightarrow> chunk_storage \<Rightarrow> chunk_storage option" where
  "storage_destroy e cs = do {
     cs \<leftarrow> foldM (\<lambda>h cs. do {
       c \<leftarrow> om_find (cs_l2 cs) h;
       (off, cs) \<leftarrow> write_to_disk e c cs;
       let cs = (case off of None \<Rightarrow> cs | Some off \<Rightarrow> add_to_l3 (ch_key c) h off (chunk_size c) cs);
       k \<leftarrow> buf_free (ch_k c);
       v \<leftarrow> buf_free (ch_v c);
       Some (cs\<lparr>cs_l2 := om_set h (c\<lparr>ch_k := Null, ch_v := Null\<rparr>) (cs_l2 cs)\<rparr>) })
       (en_order e (map fst (cs_l2 cs))) cs;
     Some ((if cs_map cs = Mapped then cs\<lparr>cs_map := Unmapped\<rparr> else cs)\<lparr>cs_fd := False\<rparr>) }"

section \<open>Queries\<close>

definition get_cpu_usage_bytes :: "chunk_storage \<Rightarrow> nat" where
  "get_cpu_usage_bytes cs = cs_l2_usage cs"

definition get_disk_usage_bytes :: "chunk_storage \<Rightarrow> nat" where
  "get_disk_usage_bytes cs = cs_l3_usage cs"

definition get_l2_chunk_count :: "chunk_storage \<Rightarrow> nat" where
  "get_l2_chunk_count cs = length (cs_l2 cs)"

definition get_l3_chunk_count :: "chunk_storage \<Rightarrow> nat" where
  "get_l3_chunk_count cs = length (cs_l3 cs)"

definition get_total_chunks :: "chunk_storage \<Rightarrow> nat" where
  "get_total_chunks cs = length (cs_l2 cs) + length (cs_l3 cs)"

definition get_eviction_stats :: "chunk_storage \<Rightarrow> nat \<times> nat \<times> nat" where
  "get_eviction_stats cs = (cs_l2_evictions cs, cs_l3_evictions cs, cs_saves cs)"

section \<open>Prefix matching\<close>

record prefix_match =
  pm_tokens :: nat
  pm_layers :: int
  pm_found :: bool

definition no_match :: prefix_match where
  "no_match = \<lparr>pm_tokens = 0, pm_layers = 0, pm_found = False\<rparr>"

definition cached :: "chunk_storage \<Rightarrow> 64 word \<Rightarrow> bool" where
  "cached cs h \<longleftrightarrow> om_find (cs_l2 cs) h \<noteq> None \<or> om_find (cs_l3 cs) h \<noteq> None"

text \<open>
  \<^verbatim>\<open>std::to_string\<close> of a layer number and \<^verbatim>\<open>std::hash<std::string>\<close>, the second a parameter; with the
  numeric hashes the layer is or-ed under the shifted base hash.
\<close>

fun decimal :: "nat \<Rightarrow> nat \<Rightarrow> string" where
  "decimal 0 n = []"
| "decimal (Suc fuel) n = (if n < 10 then [char_of (48 + n)] else decimal fuel (n div 10) @ [char_of (48 + n mod 10)])"

definition to_string :: "nat \<Rightarrow> string" where
  "to_string n = decimal (n + 1) n"

definition cp_hash :: "(string \<Rightarrow> 64 word) \<Rightarrow> 64 word list option \<Rightarrow> nat \<Rightarrow> string \<Rightarrow> nat \<Rightarrow> 64 word" where
  "cp_hash str_hash base_hashes chunk_idx chunk_hash il = (case base_hashes of
     Some bs \<Rightarrow> push_bit 32 (bs ! chunk_idx) OR word_of_nat il
   | None \<Rightarrow> str_hash (chunk_hash @ ''_layer_'' @ to_string il))"

fun cp_count :: "(string \<Rightarrow> 64 word) \<Rightarrow> 64 word list option \<Rightarrow> nat \<Rightarrow> chunk_storage \<Rightarrow> nat \<Rightarrow> string list \<Rightarrow> nat" where
  "cp_count str_hash bs n_layers cs i [] = 0"
| "cp_count str_hash bs n_layers cs i (h # hs) =
     (if list_all (\<lambda>il. cached cs (cp_hash str_hash bs i h il)) [0..<n_layers]
      then 1 + cp_count str_hash bs n_layers cs (i + 1) hs else 0)"

definition contextpilot_match :: "(string \<Rightarrow> 64 word) \<Rightarrow> string list option \<Rightarrow> 64 word list option \<Rightarrow> nat \<Rightarrow> chunk_storage \<Rightarrow> nat" where
  "contextpilot_match str_hash cp_hashes cp_base n_layers cs = (case cp_hashes of
     None \<Rightarrow> 0
   | Some hs \<Rightarrow> cp_count str_hash (case cp_base of Some bs \<Rightarrow> if length bs = length hs then Some bs else None | None \<Rightarrow> None)
                  n_layers cs 0 hs)"

text \<open>
  One chunk of a prefix of \<open>len\<close> tokens: the bitmap of the chunk index decides when it claims all
  layers, and every layer is looked up in either case.
\<close>

definition layer_cached :: "xxh64 \<Rightarrow> 32 word list \<Rightarrow> nat \<Rightarrow> nat \<Rightarrow> chunk_storage \<Rightarrow> nat \<Rightarrow> bool option" where
  "layer_cached xxh tokens len chunk_start cs il = do {
     key \<leftarrow> make_key xxh tokens len chunk_start (word_of_nat il);
     Some (cached cs (hash_key key)) }"

fun all_layers :: "(nat \<Rightarrow> bool option) \<Rightarrow> nat list \<Rightarrow> bool option" where
  "all_layers p [] = Some True"
| "all_layers p (il # ils) = do { b \<leftarrow> p il; if b then all_layers p ils else Some False }"

definition chunk_matches :: "xxh64 \<Rightarrow> 32 word list \<Rightarrow> nat \<Rightarrow> nat \<Rightarrow> chunk_storage \<Rightarrow> nat \<Rightarrow> bool option" where
  "chunk_matches xxh tokens len n_layers cs chunk_idx = do {
     let chunk_start = chunk_idx * THUNDER_CHUNK_SIZE;
     first_key \<leftarrow> make_key xxh tokens len chunk_start 0;
     (case om_find (cs_index cs) (base_hash first_key) of
        Some info \<Rightarrow>
          if card (ci_layers info) \<ge> n_layers
          then all_layers (\<lambda>il. if il \<notin> ci_layers info then Some False
                             else layer_cached xxh tokens len chunk_start cs il) [0..<n_layers]
          else all_layers (layer_cached xxh tokens len chunk_start cs) [0..<n_layers]
      | None \<Rightarrow> all_layers (layer_cached xxh tokens len chunk_start cs) [0..<n_layers]) }"

text \<open>The outer loop, from the longest prefix down.\<close>

fun match_prefixes :: "xxh64 \<Rightarrow> 32 word list \<Rightarrow> nat \<Rightarrow> chunk_storage \<Rightarrow> nat \<Rightarrow> nat option" where
  "match_prefixes xxh tokens n_layers cs 0 = Some 0"
| "match_prefixes xxh tokens n_layers cs (Suc n) = do {
     ok \<leftarrow> all_layers (chunk_matches xxh tokens (Suc n * THUNDER_CHUNK_SIZE) n_layers cs) [0..<Suc n];
     if ok then Some (Suc n) else match_prefixes xxh tokens n_layers cs n }"

text \<open>A negative number of layers runs no loop over layers: it is 0 here, and kept in the result.\<close>

definition find_prefix_match :: "xxh64 \<Rightarrow> (string \<Rightarrow> 64 word) \<Rightarrow> 32 word list \<Rightarrow> int \<Rightarrow> string list option \<Rightarrow> 64 word list option
    \<Rightarrow> chunk_storage \<Rightarrow> prefix_match option" where
  "find_prefix_match xxh str_hash tokens n_layers cp_hashes cp_base cs =
     (if length tokens < THUNDER_CHUNK_SIZE then Some no_match
      else let matched_chunks = contextpilot_match str_hash cp_hashes cp_base (nat n_layers) cs in
        if matched_chunks > 0
        then Some \<lparr>pm_tokens = matched_chunks * THUNDER_CHUNK_SIZE, pm_layers = 0, pm_found = True\<rparr>
        else do {
          n \<leftarrow> match_prefixes xxh tokens (nat n_layers) cs (length tokens div THUNDER_CHUNK_SIZE);
          Some (if n > 0 then \<lparr>pm_tokens = n * THUNDER_CHUNK_SIZE, pm_layers = n_layers, pm_found = True\<rparr> else no_match) })"

end
