(* ===== verification/Chunk_Scan.thy ===== *)
theory Chunk_Scan
  imports Chunk_Lifecycle
begin

text \<open>
  The second-chance scan of the evictions on the level of keys: \<open>scan_spec\<close> works on the list of keys
  (most recent first) and a frequency function, and \<open>scan_lru\<close> implements it on every list with two keys
  or more. On a single hot key the scan hands out an iterator that it has just erased.
\<close>

definition freq_of :: "(64 word, nat) omap \<Rightarrow> 64 word \<Rightarrow> nat" where
  "freq_of freq h = (case om_find freq h of None \<Rightarrow> 0 | Some f \<Rightarrow> f)"

fun scan_spec :: "nat \<Rightarrow> nat \<Rightarrow> chunk_key list \<Rightarrow> (64 word \<Rightarrow> nat) \<Rightarrow> chunk_key list \<times> (64 word \<Rightarrow> nat)" where
  "scan_spec thr 0 ks f = (ks, f)"
| "scan_spec thr (Suc k) ks f =
     (let h = hash_key (last ks) in
      if f h > thr then scan_spec thr k (last ks # butlast ks) (f(h := f h div 2)) else (ks, f))"

lemma others_last:
  assumes "distinct (map hash_key ks)" "ks \<noteq> []"
  shows "others (hash_key (last ks)) ks = butlast ks"
proof -
  have ks: "ks = butlast ks @ [last ks]" using assms(2) by simp
  have "hash_key (last ks) \<notin> hash_key ` set (butlast ks)"
    using assms(1) by (subst (asm) ks) (auto simp: distinct_append)
  then have "others (hash_key (last ks)) (butlast ks @ [last ks]) = butlast ks"
    by (simp add: others_def) (metis (mono_tags, lifting) filter_True imageI)
  with ks show ?thesis by simp
qed

text \<open>Moving the tail to the front.\<close>

lemma rotate_tail:
  assumes "lru_wf l" "lr_nodes l \<noteq> []"
  shows "\<exists>l'. lru_erase (lru_tail l) l = Some l' \<and> lru_wf (lru_push_front (last (lru_keys l)) l')
    \<and> lru_keys (lru_push_front (last (lru_keys l)) l') = last (lru_keys l) # butlast (lru_keys l)
    \<and> (\<forall>k. (lru_tail l, k) \<notin> set (lr_nodes l')) \<and> lru_tail l \<noteq> lr_next l'"
proof -
  let ?k = "last (lru_keys l)"
  note tail = lru_tail_key [OF assms]
  have "om_find (lr_index l) (hash_key ?k) = Some (lru_tail l)"
  proof -
    have "distinct (map fst (lru_pairs (lr_nodes l)))"
      using assms(1) by (simp add: lru_wf_def lru_keys_def lru_pairs_def o_def)
    moreover have "(hash_key ?k, lru_tail l) \<in> set (lru_pairs (lr_nodes l))"
      using tail(2) by (force simp: lru_pairs_def)
    ultimately show ?thesis using assms(1) by (simp add: lru_wf_def)
  qed
  then obtain l1 where l1: "lru_erase (lru_tail l) l = Some l1" "lru_update ?k l = Some (lru_push_front ?k l1)"
    using lru_update_wf [OF assms(1), of ?k] by (auto simp: lru_update_def dest!: bind_SomeD)
  have "?k \<in> set (lru_keys l)" using assms(2) by simp
  then have "hash_key ?k \<in> hashes (lru_keys l)" by (simp add: hashes_def)
  with lru_update_wf [OF assms(1), of ?k] l1(2)
  have wf: "lru_wf (lru_push_front ?k l1)" and keys: "lru_keys (lru_push_front ?k l1) = ?k # others (hash_key ?k) (lru_keys l)"
    by auto
  have "others (hash_key ?k) (lru_keys l) = butlast (lru_keys l)"
    using assms by (intro others_last) (auto simp: lru_wf_def)
  moreover have "(lru_tail l, k) \<notin> set (lr_nodes l1)" for k
    using l1(1) by (auto simp: lru_erase_def check_def split: if_splits)
  moreover have "lru_tail l < lr_next l" using assms(1) tail(2) by (force simp: lru_wf_def)
  moreover have "lr_next l1 = lr_next l" using l1(1) by (auto simp: lru_erase_def check_def split: if_splits)
  ultimately show ?thesis using l1(1) wf keys by auto
qed

lemma second_chance_spec:
  assumes "lru_wf l" "2 \<le> lru_size l" "om_wf freq"
  shows "\<exists>l' freq' saves'. second_chance thr k (lru_tail l) l freq saves = Some (lru_tail l', l', freq', saves')
    \<and> lru_wf l' \<and> om_wf freq' \<and> (lru_keys l', freq_of freq') = scan_spec thr k (lru_keys l) (freq_of freq)"
  using assms
proof (induction k arbitrary: l freq saves)
  case (Suc k)
  let ?key = "last (lru_keys l)"
  have ne: "lr_nodes l \<noteq> []" using Suc.prems(2) by (auto simp: lru_size_def)
  note tail = lru_tail_key [OF Suc.prems(1) ne]
  have f: "(case om_find freq (hash_key ?key) of None \<Rightarrow> 0 | Some f \<Rightarrow> f) = freq_of freq (hash_key ?key)"
    by (simp add: freq_of_def)
  show ?case
  proof (cases "freq_of freq (hash_key ?key) > thr")
    case False
    with Suc.prems tail(1) show ?thesis by (simp add: f Let_def)
  next
    case True
    obtain l1 where l1: "lru_erase (lru_tail l) l = Some l1" "lru_wf (lru_push_front ?key l1)"
      "lru_keys (lru_push_front ?key l1) = ?key # butlast (lru_keys l)"
      using rotate_tail [OF Suc.prems(1) ne] by blast
    have "length (lru_keys l) \<ge> 2" using Suc.prems(2) by (simp add: lru_size_keys)
    then have size: "lru_size (lru_push_front ?key l1) = lru_size l"
      by (simp only: lru_size_keys l1(3)) simp
    define freq1 where "freq1 = (if om_find freq (hash_key ?key) \<noteq> None
       then om_set (hash_key ?key) (freq_of freq (hash_key ?key) div 2) freq else freq)"
    have wf1: "om_wf freq1" using Suc.prems(3) by (simp add: freq1_def)
    have f1: "freq_of freq1 = (freq_of freq)(hash_key ?key := freq_of freq (hash_key ?key) div 2)"
      using Suc.prems(3) True by (auto simp: freq1_def freq_of_def fun_eq_iff split: option.splits)
    have step: "second_chance thr (Suc k) (lru_tail l) l freq saves
        = second_chance thr k (lru_tail (lru_push_front ?key l1)) (lru_push_front ?key l1) freq1 (u64 (saves + 1))"
      using True Suc.prems(2) by (simp add: tail(1) f l1(1) size Let_def freq1_def)
    have spec: "scan_spec thr (Suc k) (lru_keys l) (freq_of freq)
        = scan_spec thr k (?key # butlast (lru_keys l)) (freq_of freq1)"
      using True by (simp add: f1 Let_def)
    show ?thesis
      using Suc.IH [OF l1(2) _ wf1, of "u64 (saves + 1)"] Suc.prems(2)
      unfolding step spec size l1(3) by simp
  qed
qed simp

text \<open>The single key: cold it is the victim, hot the scan ends with an erased iterator.\<close>

lemma scan_single_hot:
  assumes "lru_wf l" "lru_keys l = [key]" "freq_of freq (hash_key key) > thr"
  shows "\<exists>l' freq' saves'. scan_lru thr l freq saves = Some (lru_tail l, l', freq', saves') \<and> lru_deref (lru_tail l) l' = None"
proof -
  have ne: "lr_nodes l \<noteq> []" using assms(2) by (auto simp: lru_keys_def)
  note tail = lru_tail_key [OF assms(1) ne]
  obtain l1 where l1: "lru_erase (lru_tail l) l = Some l1" "lru_keys (lru_push_front key l1) = [key]"
    "\<forall>k. (lru_tail l, k) \<notin> set (lr_nodes l1)" "lru_tail l \<noteq> lr_next l1"
    using rotate_tail [OF assms(1) ne] assms(2) by auto
  have size: "lru_size l = 1" "lru_size (lru_push_front key l1) = 1" by (simp_all add: lru_size_keys assms(2) l1(2))
  have "map_of (lr_nodes l1) (lru_tail l) = None" using l1(3) by (auto simp: map_of_eq_None_iff)
  with l1 assms(2,3) tail(1) size show ?thesis
    by (simp add: scan_lru_def SECOND_CHANCE_SCAN_DEPTH_def freq_of_def Let_def lru_deref_def lru_push_front_def)
qed

lemma scan_cold:
  assumes "lru_wf l" "lr_nodes l \<noteq> []" "freq_of freq (hash_key (last (lru_keys l))) \<le> thr"
  shows "scan_lru thr l freq saves = Some (lru_tail l, l, freq, saves)"
proof -
  have "0 < lru_size l" using assms(2) by (simp add: lru_size_def)
  then obtain k where "min (lru_size l) SECOND_CHANCE_SCAN_DEPTH = Suc k"
    by (cases "min (lru_size l) SECOND_CHANCE_SCAN_DEPTH") (auto simp: SECOND_CHANCE_SCAN_DEPTH_def)
  with assms lru_tail_key [OF assms(1,2)] show ?thesis
    by (simp add: scan_lru_def freq_of_def Let_def)
qed

lemma scan_lru_spec:
  assumes "lru_wf l" "2 \<le> lru_size l" "om_wf freq"
  shows "\<exists>l' freq' saves'. scan_lru thr l freq saves = Some (lru_tail l', l', freq', saves')
    \<and> lru_wf l' \<and> om_wf freq' \<and> (lru_keys l', freq_of freq') = scan_spec thr (min (lru_size l) 8) (lru_keys l) (freq_of freq)"
  using second_chance_spec [OF assms, of thr _ saves]
  by (simp add: scan_lru_def SECOND_CHANCE_SCAN_DEPTH_def)

section \<open>The victim\<close>

text \<open>The scan rotates the hot keys at the tail to the front and stops at the first cold one.\<close>

lemma scan_spec_rotates:
  assumes "distinct (map hash_key (as @ bs))" "\<forall>b \<in> set bs. f (hash_key b) > thr" "length bs \<le> k"
    "length bs < k \<Longrightarrow> as \<noteq> [] \<and> f (hash_key (last as)) \<le> thr"
  shows "fst (scan_spec thr k (as @ bs) f) = bs @ as"
  using assms
proof (induction bs arbitrary: as k f rule: rev_induct)
  case Nil
  then show ?case by (cases k) (auto simp: Let_def)
next
  case (snoc b bs)
  then obtain k' where k: "k = Suc k'" by (cases k) auto
  let ?f = "f(hash_key b := f (hash_key b) div 2)"
  have "fst (scan_spec thr k' ((b # as) @ bs) ?f) = bs @ (b # as)"
  proof (rule snoc.IH)
    show "distinct (map hash_key ((b # as) @ bs))" using snoc.prems(1) by auto
    show "\<forall>c \<in> set bs. ?f (hash_key c) > thr" using snoc.prems(1,2) by (auto simp: image_iff)
    show "length bs \<le> k'" using snoc.prems(3) k by simp
    show "b # as \<noteq> [] \<and> ?f (hash_key (last (b # as))) \<le> thr" if "length bs < k'"
    proof -
      have as: "as \<noteq> []" "f (hash_key (last as)) \<le> thr" using snoc.prems(4) that k by auto
      then have "hash_key (last as) \<in> hash_key ` set as" by simp
      with snoc.prems(1) have "hash_key (last as) \<noteq> hash_key b" by auto
      with as show ?thesis by simp
    qed
  qed
  moreover have "scan_spec thr k (as @ bs @ [b]) f = scan_spec thr k' ((b # as) @ bs) ?f"
    using snoc.prems(2) by (simp add: k Let_def butlast_append)
  ultimately show ?case by simp
qed

end
