(* ===== verification/Chunk_Inv.thy ===== *)
theory Chunk_Inv
  imports Chunk_Scan
begin

text \<open>
  The consistency of the two tiers. L2: the map, the LRU list and the byte count describe the same
  chunks, whose buffers are live (\<open>l2_inv\<close>). L3: every offset of the index is a record written for a
  chunk with that hash, below the append position (\<open>l3_inv\<close>, with the stored chunks as a ghost \<open>g\<close>).
\<close>

section \<open>Sums over association lists\<close>

definition om_sum :: "('v \<Rightarrow> nat) \<Rightarrow> ('k, 'v) omap \<Rightarrow> nat" where
  "om_sum f m = sum_list (map (f \<circ> snd) m)"

lemma om_sum_simps [simp]: "om_sum f [] = 0" "om_sum f ((k, v) # m) = f v + om_sum f m"
  by (simp_all add: om_sum_def)

lemma om_sum_erase:
  "om_wf m \<Longrightarrow> om_find m k = Some v \<Longrightarrow> om_sum f (om_erase k m) + f v = om_sum f (m :: ('k::linorder, 'v) omap)"
  by (induction k m rule: om_erase.induct) (auto split: if_splits)

lemma om_sum_set_new:
  "om_wf m \<Longrightarrow> om_find m k = None \<Longrightarrow> om_sum f (om_set k v m) = om_sum f (m :: ('k::linorder, 'v) omap) + f v"
  by (induction k v m rule: om_set.induct) (auto split: if_splits)

lemma om_sum_set_old:
  "om_wf m \<Longrightarrow> om_find m k = Some w \<Longrightarrow> om_sum f (om_set k v m) + f w = om_sum f (m :: ('k::linorder, 'v) omap) + f v"
  by (induction k v m rule: om_set.induct) (auto split: if_splits dest!: map_of_SomeD bspec)

lemma om_sum_ge: "om_find m k = Some v \<Longrightarrow> f v \<le> om_sum f m"
  by (induction m) (auto split: if_splits)

section \<open>L2\<close>

definition buf_ok :: "buf \<Rightarrow> nat \<Rightarrow> bool" where
  "buf_ok p n \<longleftrightarrow> (case p of Null \<Rightarrow> n = 0 | Live b \<Rightarrow> n \<le> length b | Freed \<Rightarrow> False)"

lemma buf_ok_read: "buf_ok p n \<Longrightarrow> \<exists>d. buf_read p n = Some d \<and> length d = n"
  by (cases p) (auto simp: buf_ok_def)

lemma buf_ok_free: "buf_ok p n \<Longrightarrow> \<exists>q. buf_free p = Some q"
  by (cases p) (auto simp: buf_ok_def)

definition chunk_ok :: "chunk \<Rightarrow> bool" where
  "chunk_ok c \<longleftrightarrow> buf_ok (ch_k c) (ch_k_size c) \<and> buf_ok (ch_v c) (ch_v_size c) \<and> ch_k_size c + ch_v_size c < 2 ^ 63"

lemma chunk_ok_size: "chunk_ok c \<Longrightarrow> chunk_size c = ch_k_size c + ch_v_size c"
  by (simp add: chunk_ok_def chunk_size_def)

lemma chunk_ok_data: "chunk_ok c \<Longrightarrow> \<exists>k v. chunk_data c = Some (k, v)"
  using buf_ok_read [of "ch_k c" "ch_k_size c"] buf_ok_read [of "ch_v c" "ch_v_size c"]
  by (auto simp: chunk_ok_def chunk_data_def)

text \<open>The L2 part of the state; the L3 operations leave it alone.\<close>

definition l2_inv :: "chunk_storage \<Rightarrow> bool" where
  "l2_inv cs \<longleftrightarrow> om_wf (cs_l2 cs) \<and> lru_wf (cs_l2_lru cs) \<and> dom (om_find (cs_l2 cs)) = hashes (lru_keys (cs_l2_lru cs))
     \<and> (\<forall>h c. om_find (cs_l2 cs) h = Some c \<longrightarrow> chunk_ok c \<and> hash_key (ch_key c) = h)
     \<and> cs_l2_usage cs = om_sum chunk_size (cs_l2 cs) \<and> cs_l2_usage cs \<le> cs_l2_limit cs \<and> cs_l2_limit cs < 2 ^ 63"

lemma l2_invD:
  assumes "l2_inv cs"
  shows "om_wf (cs_l2 cs)" "lru_wf (cs_l2_lru cs)" "dom (om_find (cs_l2 cs)) = hashes (lru_keys (cs_l2_lru cs))"
    "om_find (cs_l2 cs) h = Some c \<Longrightarrow> chunk_ok c" "om_find (cs_l2 cs) h = Some c \<Longrightarrow> hash_key (ch_key c) = h"
    "cs_l2_usage cs = om_sum chunk_size (cs_l2 cs)" "cs_l2_usage cs \<le> cs_l2_limit cs" "cs_l2_limit cs < 9223372036854775808"
  using assms by (auto simp: l2_inv_def)

text \<open>No key has been used more often than the protection threshold.\<close>

definition cold :: "chunk_storage \<Rightarrow> bool" where
  "cold cs \<longleftrightarrow> (\<forall>h. freq_of (cs_freq cs) h \<le> cs_threshold cs)"

lemma cold_scan:
  assumes "cold cs" "lru_wf l" "lr_nodes l \<noteq> []"
  shows "scan_lru (cs_threshold cs) l (cs_freq cs) (cs_saves cs) = Some (lru_tail l, l, cs_freq cs, cs_saves cs)"
  using scan_cold [OF assms(2,3)] assms(1) by (simp add: cold_def)

text \<open>The eviction of the tail of L2, for whatever \<^verbatim>\<open>write_to_disk\<close> did with the victim.\<close>

definition same_l2 :: "chunk_storage \<Rightarrow> chunk_storage \<Rightarrow> bool" where
  "same_l2 cs cs' \<longleftrightarrow> cs_l2 cs' = cs_l2 cs \<and> cs_l2_lru cs' = cs_l2_lru cs \<and> cs_l2_usage cs' = cs_l2_usage cs
     \<and> cs_l2_limit cs' = cs_l2_limit cs \<and> cs_l2_evictions cs' = cs_l2_evictions cs"

definition drop_l2 :: "64 word \<Rightarrow> nat \<Rightarrow> lru \<Rightarrow> chunk_storage \<Rightarrow> chunk_storage" where
  "drop_l2 h n l cs = cs\<lparr>cs_l2 := om_erase h (cs_l2 cs), cs_l2_usage := cs_l2_usage cs - n, cs_l2_lru := l,
     cs_l2_evictions := u64 (cs_l2_evictions cs + 1)\<rparr>"

text \<open>\<open>cs0\<close> is the state after the scan.\<close>

lemma evict_tail:
  assumes "cs0 = cs\<lparr>cs_l2_lru := cs_l2_lru cs0, cs_freq := cs_freq cs0, cs_saves := cs_saves cs0\<rparr>" "l2_inv cs0"
    "scan_lru (cs_threshold cs) (cs_l2_lru cs) (cs_freq cs) (cs_saves cs) = Some (lru_tail (cs_l2_lru cs0), cs_l2_lru cs0, cs_freq cs0, cs_saves cs0)"
    "lr_nodes (cs_l2_lru cs) \<noteq> []" "lru_keys (cs_l2_lru cs0) = ks @ [key]"
  shows "\<exists>c l. om_find (cs_l2 cs0) (hash_key key) = Some c \<and> lru_wf l \<and> lru_keys l = ks
    \<and> (\<forall>off cs1. write_to_disk e c cs0 = Some (off, cs1) \<longrightarrow> same_l2 cs0 cs1 \<longrightarrow>
        evict_one_l2_to_l3 e cs = Some (chunk_size c, drop_l2 (hash_key key) (chunk_size c) l
          (case off of None \<Rightarrow> cs1 | Some off \<Rightarrow> add_to_l3 key (hash_key key) off (chunk_size c) cs1)))"
proof -
  note inv = l2_invD [OF assms(2)]
  let ?l = "cs_l2_lru cs0" and ?h = "hash_key key"
  have ne: "lr_nodes ?l \<noteq> []" using assms(5) by (auto simp: lru_keys_def)
  note tail = lru_tail_key [OF inv(2) ne, unfolded assms(5), simplified]
  have "?h \<in> dom (om_find (cs_l2 cs0))" by (simp add: inv(3) assms(5))
  then obtain c where c: "om_find (cs_l2 cs0) ?h = Some c" by blast
  obtain l where l: "lru_drop (lru_tail ?l) ?h ?l = Some l" "lru_wf l" "lru_keys l = others ?h (lru_keys ?l)"
    using lru_drop_wf [OF inv(2) tail(2)] by blast
  have "distinct (map hash_key (lru_keys ?l))" using inv(2) by (simp add: lru_wf_def)
  then have keys: "lru_keys l = ks" using others_last [of "lru_keys ?l"] by (simp add: l(3) assms(5))
  obtain k v where free: "buf_free (ch_k c) = Some k" "buf_free (ch_v c) = Some v"
    using inv(4) [OF c] buf_ok_free unfolding chunk_ok_def by blast
  have n: "chunk_size c \<le> cs_l2_usage cs0" using om_sum_ge [OF c] by (simp add: inv(6))
  moreover have "cs_l2_usage cs0 < 18446744073709551616" using inv(7,8) by simp
  ultimately have sub: "u64_sub (cs_l2_usage cs0) (chunk_size c) = cs_l2_usage cs0 - chunk_size c" by simp
  have start: "evict_one_l2_to_l3 e cs = evict_l2_victim e (lru_tail ?l) cs0"
    using assms(4) by (simp add: evict_one_l2_to_l3_def assms(3) assms(1) [symmetric])
  have "evict_one_l2_to_l3 e cs = Some (chunk_size c, drop_l2 ?h (chunk_size c) l
        (case off of None \<Rightarrow> cs1 | Some off \<Rightarrow> add_to_l3 key ?h off (chunk_size c) cs1))"
    if "write_to_disk e c cs0 = Some (off, cs1)" "same_l2 cs0 cs1" for off cs1
    using that
    by (simp add: start evict_l2_victim_def tail(1) c free Let_def same_l2_def l(1) sub drop_l2_def add_to_l3_def
        split: option.split)
  with c l(2) keys show ?thesis by blast
qed

lemma evict_cold:
  assumes "l2_inv cs" "cold cs" "lru_keys (cs_l2_lru cs) = ks @ [key]"
  shows "\<exists>c l. om_find (cs_l2 cs) (hash_key key) = Some c \<and> lru_wf l \<and> lru_keys l = ks
    \<and> (\<forall>off cs1. write_to_disk e c cs = Some (off, cs1) \<longrightarrow> same_l2 cs cs1 \<longrightarrow>
        evict_one_l2_to_l3 e cs = Some (chunk_size c, drop_l2 (hash_key key) (chunk_size c) l
          (case off of None \<Rightarrow> cs1 | Some off \<Rightarrow> add_to_l3 key (hash_key key) off (chunk_size c) cs1)))"
proof -
  have ne: "lr_nodes (cs_l2_lru cs) \<noteq> []" using assms(3) by (auto simp: lru_keys_def)
  show ?thesis
    using cold_scan [OF assms(2) l2_invD(2) [OF assms(1)] ne] ne assms(1,3) by (intro evict_tail) simp_all
qed

lemma drop_l2_inv:
  assumes "l2_inv cs" "same_l2 cs cs1" "om_find (cs_l2 cs) h = Some c" "lru_wf l"
    "hashes (lru_keys l) = hashes (lru_keys (cs_l2_lru cs)) - {h}"
  shows "l2_inv (drop_l2 h (chunk_size c) l cs1)"
proof -
  note inv = l2_invD [OF assms(1)] and s = assms(2) [unfolded same_l2_def]
  have "om_sum chunk_size (om_erase h (cs_l2 cs)) + chunk_size c = om_sum chunk_size (cs_l2 cs)"
    by (rule om_sum_erase [OF inv(1) assms(3)])
  then show ?thesis
    using inv(1-8) s assms(4,5) by (auto simp: l2_inv_def drop_l2_def)
qed

end
