(* ===== verification/Chunk_Put.thy ===== *)
theory Chunk_Put
  imports Chunk_Inv
begin

text \<open>
  \<^verbatim>\<open>put\<close> and \<^verbatim>\<open>get\<close> on L2, in the memory-only mode the storage falls back to when the disk is not
  usable: what is put is found, at the front, and only the least recently used chunks make room for it.
\<close>

definition memory_only :: "chunk_storage \<Rightarrow> bool" where
  "memory_only cs \<longleftrightarrow> \<not> cs_l3_enabled cs \<and> cs_l3 cs = []"

section \<open>Making room\<close>

definition key_size :: "chunk_storage \<Rightarrow> chunk_key \<Rightarrow> nat" where
  "key_size cs k = chunk_size (the (om_find (cs_l2 cs) (hash_key k)))"

text \<open>The state outside L2.\<close>

definition rest :: "chunk_storage \<Rightarrow> chunk_storage" where
  "rest cs = cs\<lparr>cs_l2 := [], cs_l2_usage := 0, cs_l2_lru := lru_empty, cs_l2_evictions := 0\<rparr>"

lemma rest_upd [simp]: "rest (cs\<lparr>cs_l2 := m\<rparr>) = rest cs" "rest (cs\<lparr>cs_l2_usage := u\<rparr>) = rest cs"
  "rest (cs\<lparr>cs_l2_lru := l\<rparr>) = rest cs" "rest (cs\<lparr>cs_l2_evictions := v\<rparr>) = rest cs"
  by (simp_all add: rest_def)

lemma restD:
  "rest a = rest b \<Longrightarrow> cs_l2_limit a = cs_l2_limit b \<and> cs_freq a = cs_freq b \<and> cs_threshold a = cs_threshold b
    \<and> cs_l3_enabled a = cs_l3_enabled b \<and> cs_l3 a = cs_l3 b \<and> cs_index a = cs_index b \<and> cs_tick a = cs_tick b
    \<and> cs_l1_enabled a = cs_l1_enabled b \<and> cs_ttl a = cs_ttl b"
  by (cases a; cases b) (simp add: rest_def)

text \<open>\<open>cs'\<close> is \<open>cs\<close> with L2 cut down to its \<open>m\<close> most recently used chunks.\<close>

definition trimmed :: "nat \<Rightarrow> chunk_storage \<Rightarrow> chunk_storage \<Rightarrow> bool" where
  "trimmed m cs cs' \<longleftrightarrow> l2_inv cs' \<and> lru_keys (cs_l2_lru cs') = take m (lru_keys (cs_l2_lru cs))
     \<and> (\<forall>k \<in> set (take m (lru_keys (cs_l2_lru cs))). om_find (cs_l2 cs') (hash_key k) = om_find (cs_l2 cs) (hash_key k))
     \<and> rest cs' = rest cs"

lemma trimmed_sel:
  "trimmed m cs cs' \<Longrightarrow> cs_l2_limit cs' = cs_l2_limit cs \<and> cs_freq cs' = cs_freq cs \<and> cs_threshold cs' = cs_threshold cs
    \<and> cs_l3_enabled cs' = cs_l3_enabled cs \<and> cs_l3 cs' = cs_l3 cs \<and> cs_index cs' = cs_index cs \<and> cs_tick cs' = cs_tick cs
    \<and> cs_l1_enabled cs' = cs_l1_enabled cs"
  using restD [of cs' cs] by (simp add: trimmed_def)

lemma trimmed_refl: "l2_inv cs \<Longrightarrow> trimmed (length (lru_keys (cs_l2_lru cs))) cs cs"
  by (simp add: trimmed_def)

lemma evict_memory:
  assumes "l2_inv cs" "cold cs" "memory_only cs" "lru_keys (cs_l2_lru cs) = ks @ [key]"
  shows "\<exists>cs'. evict_one_l2_to_l3 e cs = Some (key_size cs key, cs') \<and> trimmed (length ks) cs cs'
    \<and> cs_l2_usage cs' + key_size cs key = cs_l2_usage cs"
proof -
  note inv = l2_invD [OF assms(1)]
  let ?h = "hash_key key"
  obtain c l where c: "om_find (cs_l2 cs) ?h = Some c" "lru_wf l" "lru_keys l = ks"
    and ev: "\<And>off cs1. write_to_disk e c cs = Some (off, cs1) \<Longrightarrow> same_l2 cs cs1 \<Longrightarrow>
      evict_one_l2_to_l3 e cs = Some (chunk_size c, drop_l2 ?h (chunk_size c) l
          (case off of None \<Rightarrow> cs1 | Some off \<Rightarrow> add_to_l3 key ?h off (chunk_size c) cs1))"
    using evict_cold [OF assms(1,2,4), of e] by blast
  have "write_to_disk e c cs = Some (None, cs)" using assms(3) by (simp add: write_to_disk_def memory_only_def)
  from ev [OF this] have run: "evict_one_l2_to_l3 e cs = Some (chunk_size c, drop_l2 ?h (chunk_size c) l cs)"
    by (simp add: same_l2_def)
  have "distinct (map hash_key (ks @ [key]))" using inv(2) assms(4) by (simp add: lru_wf_def)
  then have new: "?h \<notin> hashes ks" by (auto simp: hashes_def)
  have "l2_inv (drop_l2 ?h (chunk_size c) l cs)"
    using assms(1) c new by (intro drop_l2_inv) (auto simp: same_l2_def assms(4))
  moreover have "om_find (om_erase ?h (cs_l2 cs)) (hash_key k) = om_find (cs_l2 cs) (hash_key k)" if "k \<in> set ks" for k
  proof -
    have "hash_key k \<in> hashes ks" using that by (simp add: hashes_def)
    with new have "hash_key k \<noteq> ?h" by metis
    with inv(1) show ?thesis by simp
  qed
  moreover have "chunk_size c \<le> cs_l2_usage cs" using om_sum_ge [OF c(1)] by (simp add: inv(6))
  ultimately have "trimmed (length ks) cs (drop_l2 ?h (chunk_size c) l cs)"
    "cs_l2_usage (drop_l2 ?h (chunk_size c) l cs) + chunk_size c = cs_l2_usage cs"
    using c(3) by (auto simp: trimmed_def drop_l2_def assms(4))
  with run c(1) show ?thesis by (auto simp: key_size_def)
qed

lemma make_l2_room_memory:
  assumes "l2_inv cs" "cold cs" "memory_only cs" "n \<le> cs_l2_limit cs" "length (lru_keys (cs_l2_lru cs)) < fuel"
  shows "\<exists>m cs'. make_l2_room fuel e n cs = Some cs' \<and> trimmed m cs cs' \<and> m \<le> length (lru_keys (cs_l2_lru cs))
    \<and> cs_l2_usage cs' + n \<le> cs_l2_limit cs
    \<and> (m < length (lru_keys (cs_l2_lru cs)) \<longrightarrow> cs_l2_usage cs' + key_size cs (lru_keys (cs_l2_lru cs) ! m) + n > cs_l2_limit cs)"
  using assms
proof (induction fuel arbitrary: cs)
  case (Suc fuel)
  note inv = l2_invD [OF Suc.prems(1)]
  let ?keys = "lru_keys (cs_l2_lru cs)"
  have wrap: "u64 (cs_l2_usage cs + n) = cs_l2_usage cs + n" using inv(7,8) Suc.prems(4) by (intro u64_small) simp
  have all: "trimmed (length ?keys) cs cs" using Suc.prems(1) by (rule trimmed_refl)
  show ?case
  proof (cases "cs_l2_usage cs + n > cs_l2_limit cs")
    case False
    then show ?thesis using wrap all by (intro exI [of _ "length ?keys"] exI [of _ cs]) simp
  next
    case over: True
    then have ne: "cs_l2 cs \<noteq> []" using Suc.prems(4) inv(6) by auto
    then have "dom (om_find (cs_l2 cs)) \<noteq> {}" by (simp add: om_dom)
    then have "?keys \<noteq> []" using inv(3) by (metis hashes_simps(1))
    then obtain ks key where keys: "?keys = ks @ [key]" by (metis rev_exhaust)
    obtain cs1 where cs1: "evict_one_l2_to_l3 e cs = Some (key_size cs key, cs1)" "trimmed (length ks) cs cs1"
      "cs_l2_usage cs1 + key_size cs key = cs_l2_usage cs"
      using evict_memory [OF Suc.prems(1-3) keys, of e] by blast
    note sel = trimmed_sel [OF cs1(2)] and t1 = cs1(2) [unfolded trimmed_def keys, simplified]
    have k1: "lru_keys (cs_l2_lru cs1) = ks" using t1 by simp
    obtain m cs' where cs': "make_l2_room fuel e n cs1 = Some cs'" "trimmed m cs1 cs'" "m \<le> length ks"
      "cs_l2_usage cs' + n \<le> cs_l2_limit cs1"
      "m < length ks \<longrightarrow> cs_l2_usage cs' + key_size cs1 (ks ! m) + n > cs_l2_limit cs1"
      using Suc.IH [of cs1] Suc.prems(2-5) t1 sel keys by (auto simp: cold_def memory_only_def)
    have same: "key_size cs1 k = key_size cs k" if "k \<in> set ks" for k
      using t1 that by (simp add: key_size_def)
    have t: "trimmed m cs cs'"
    proof -
      have "take m ?keys = take m ks" using cs'(3) by (simp add: keys)
      moreover have "set (take m ks) \<subseteq> set ks" by (rule set_take_subset)
      moreover have "rest cs' = rest cs" using t1 cs'(2) by (simp add: trimmed_def)
      ultimately show ?thesis using t1 cs'(2) unfolding trimmed_def k1 by auto
    qed
    have tight: "cs_l2_usage cs' + key_size cs (?keys ! m) + n > cs_l2_limit cs" if "m < length ?keys"
    proof (cases "m < length ks")
      case True
      then have "ks ! m \<in> set ks" "?keys ! m = ks ! m" by (simp_all add: keys nth_append)
      with cs'(5) True same sel show ?thesis by simp
    next
      case False
      with that cs'(3) keys have m: "m = length ks" by simp
      have "l2_inv cs'" using cs'(2) by (simp add: trimmed_def)
      have "m = length ks \<Longrightarrow> cs_l2_usage cs' = cs_l2_usage cs1"
      proof -
        assume m: "m = length ks"
        have "om_find (cs_l2 cs') = om_find (cs_l2 cs1)"
        proof
          fix h
          have d: "dom (om_find (cs_l2 cs')) = hashes ks" "dom (om_find (cs_l2 cs1)) = hashes ks"
            using l2_invD(3) [of cs'] l2_invD(3) [of cs1] cs'(2) t1 m by (auto simp: trimmed_def k1)
          show "om_find (cs_l2 cs') h = om_find (cs_l2 cs1) h"
          proof (cases "h \<in> hashes ks")
            case True
            then obtain k where "k \<in> set ks" "hash_key k = h" by (auto simp: hashes_def)
            then show ?thesis using cs'(2) m by (auto simp: trimmed_def k1)
          next
            case False
            with d show ?thesis by (metis domIff)
          qed
        qed
        then have "cs_l2 cs' = cs_l2 cs1"
          using \<open>l2_inv cs'\<close> t1 by (intro om_eqI) (auto simp: l2_inv_def)
        then show "cs_l2_usage cs' = cs_l2_usage cs1"
          using \<open>l2_inv cs'\<close> t1 by (simp add: l2_inv_def)
      qed
      with m cs1(3) over show ?thesis by (simp add: keys)
    qed
    have run: "make_l2_room (Suc fuel) e n cs = Some cs'"
      using over wrap ne cs1(1) cs'(1) by simp
    with t tight cs'(3,4) sel keys show ?thesis by (intro exI [of _ m] exI [of _ cs']) auto
  qed
qed simp

section \<open>put and get\<close>

text \<open>Replacing the buffers or the access data of a chunk keeps what matters of it.\<close>

definition same_chunk :: "chunk \<Rightarrow> chunk \<Rightarrow> bool" where
  "same_chunk c d \<longleftrightarrow> ch_key d = ch_key c \<and> ch_k_size d = ch_k_size c \<and> ch_v_size d = ch_v_size c \<and> chunk_data d = chunk_data c"

lemma same_chunk_size: "same_chunk c d \<Longrightarrow> chunk_size d = chunk_size c"
  by (simp add: same_chunk_def chunk_size_def)

lemma l2_set_inv:
  assumes "l2_inv cs" "om_find (cs_l2 cs) h = Some c" "chunk_ok d" "chunk_size d = chunk_size c" "ch_key d = ch_key c"
    "lru_wf l" "hashes (lru_keys l) = hashes (lru_keys (cs_l2_lru cs))"
    "cs_l2 cs' = om_set h d (cs_l2 cs)" "cs_l2_lru cs' = l" "cs_l2_usage cs' = cs_l2_usage cs" "cs_l2_limit cs' = cs_l2_limit cs"
  shows "l2_inv cs'"
proof -
  note inv = l2_invD [OF assms(1)]
  have "om_sum chunk_size (om_set h d (cs_l2 cs)) = om_sum chunk_size (cs_l2 cs)"
    using om_sum_set_old [OF inv(1) assms(2), of chunk_size d] assms(4) by simp
  moreover have "hash_key (ch_key d) = h" using inv(5) [OF assms(2)] assms(5) by simp
  moreover have "dom ((om_find (cs_l2 cs))(h \<mapsto> d)) = dom (om_find (cs_l2 cs))" using assms(2) by auto
  ultimately show ?thesis
    using inv(1-8) assms(3,6-11) unfolding l2_inv_def by auto
qed

lemma get_from_l2:
  assumes "l2_inv cs" "om_find (cs_l2 cs) (hash_key key) = Some c"
  shows "\<exists>c' cs'. storage_get e key cs = Some (Some c', cs') \<and> same_chunk c c' \<and> l2_inv cs'
    \<and> lru_keys (cs_l2_lru cs') = key # others (hash_key key) (lru_keys (cs_l2_lru cs))"
proof -
  note inv = l2_invD [OF assms(1)]
  let ?h = "hash_key key" and ?t = "en_time e (cs_tick cs)"
  let ?c = "c\<lparr>ch_last := ?t, ch_count := u32 (ch_count c + 1)\<rparr>"
  have "?h \<in> hashes (lru_keys (cs_l2_lru cs))" using assms(2) inv(3) by auto
  then obtain l where l: "lru_update key (cs_l2_lru cs) = Some l" "lru_wf l"
    "lru_keys l = key # others ?h (lru_keys (cs_l2_lru cs))"
    using lo.update_keys [OF inv(2), of key] by auto
  have ok: "chunk_ok ?c" using inv(4) [OF assms(2)] by (simp add: chunk_ok_def)
  obtain cs' where cs': "storage_get e key cs = Some (Some ?c, cs')"
    "cs_l2 cs' = om_set ?h ?c (cs_l2 cs)" "cs_l2_lru cs' = l" "cs_l2_usage cs' = cs_l2_usage cs" "cs_l2_limit cs' = cs_l2_limit cs"
    using assms(2) l(1)
    by (cases "cs_l1_enabled cs \<and> en_l1_offset e ?h")
      (simp_all add: storage_get_def get_l2_def touch_chunk_def now_def hit_def count_access_def Let_def)
  have "l2_inv cs'"
  proof (rule l2_set_inv [OF assms ok _ _ l(2) _ cs'(2-5)])
    show "hashes (lru_keys l) = hashes (lru_keys (cs_l2_lru cs))"
      using \<open>?h \<in> hashes (lru_keys (cs_l2_lru cs))\<close> by (auto simp: l(3))
  qed (simp_all add: chunk_size_def)
  with cs'(1,3) l(3) show ?thesis by (auto simp: same_chunk_def chunk_data_def)
qed

lemma copy_buf_ok:
  assumes "buf_ok p n"
  shows "\<exists>q. copy_buf p n = Some q \<and> buf_ok q n \<and> buf_read q n = buf_read p n"
  using buf_ok_read [OF assms] assms by (auto simp: copy_buf_def buf_ok_def split: buf.splits)

text \<open>
  A new chunk in the memory-only mode, no expiration: \<^verbatim>\<open>put\<close> succeeds, the chunk comes back from \<^verbatim>\<open>get\<close>
  with its bytes, and what it drove out are the least recently used chunks, no more of them than needed.
\<close>

lemma put_new:
  assumes "l2_inv cs" "cold cs" "memory_only cs" "cs_ttl cs = 0" "chunk_ok c" "chunk_size c \<le> cs_l2_limit cs"
    "om_find (cs_l2 cs) (hash_key (ch_key c)) = None" "unat (ck_layer (ch_key c)) < 128"
    "alloc_ok e (ch_k_size c)" "alloc_ok e (ch_v_size c)"
  shows "\<exists>m cs' d. storage_put e c cs = Some (True, cs') \<and> l2_inv cs'
    \<and> m \<le> length (lru_keys (cs_l2_lru cs)) \<and> lru_keys (cs_l2_lru cs') = ch_key c # take m (lru_keys (cs_l2_lru cs))
    \<and> (m < length (lru_keys (cs_l2_lru cs)) \<longrightarrow> cs_l2_usage cs' + key_size cs (lru_keys (cs_l2_lru cs) ! m) > cs_l2_limit cs)
    \<and> (\<forall>k \<in> set (take m (lru_keys (cs_l2_lru cs))). om_find (cs_l2 cs') (hash_key k) = om_find (cs_l2 cs) (hash_key k))
    \<and> om_find (cs_l2 cs') (hash_key (ch_key c)) = Some d \<and> same_chunk c d"
proof -
  let ?h = "hash_key (ch_key c)" and ?keys = "lru_keys (cs_l2_lru cs)"
  obtain m cs1 where cs1: "make_l2_room (l2_fuel cs) e (chunk_size c) cs = Some cs1" "trimmed m cs cs1" "m \<le> length ?keys"
    "cs_l2_usage cs1 + chunk_size c \<le> cs_l2_limit cs"
    "m < length ?keys \<longrightarrow> cs_l2_usage cs1 + key_size cs (?keys ! m) + chunk_size c > cs_l2_limit cs"
    using make_l2_room_memory [OF assms(1-3,6), of "l2_fuel cs" e] by (auto simp: l2_fuel_def lru_size_keys)
  note sel = trimmed_sel [OF cs1(2)] and t1 = cs1(2) [unfolded trimmed_def]
  then have inv1: "l2_inv cs1" by blast
  note inv = l2_invD [OF inv1]
  have new: "?h \<notin> hashes ?keys" using assms(7) l2_invD(3) [OF assms(1)] by (metis domIff)
  have "set (take m ?keys) \<subseteq> set ?keys" by (rule set_take_subset)
  with new have new1: "?h \<notin> hashes (lru_keys (cs_l2_lru cs1))" using t1 by (auto simp: hashes_def)
  then have none: "om_find (cs_l2 cs1) ?h = None" using inv(3) by (metis domIff)
  obtain k v where kv: "copy_buf (ch_k c) (ch_k_size c) = Some k" "buf_ok k (ch_k_size c)" "buf_read k (ch_k_size c) = buf_read (ch_k c) (ch_k_size c)"
    "copy_buf (ch_v c) (ch_v_size c) = Some v" "buf_ok v (ch_v_size c)" "buf_read v (ch_v_size c) = buf_read (ch_v c) (ch_v_size c)"
    using copy_buf_ok [of "ch_k c" "ch_k_size c"] copy_buf_ok [of "ch_v c" "ch_v_size c"] assms(5)
    by (auto simp: chunk_ok_def)
  define d where "d = c\<lparr>ch_k := k, ch_v := v, ch_last := en_time e (cs_tick cs1), ch_count := u32 (ch_count c + 1)\<rparr>"
  have d: "same_chunk c d" "chunk_ok d" "chunk_size d = chunk_size c" "ch_key d = ch_key c"
    using assms(5) kv by (simp_all add: d_def same_chunk_def chunk_data_def chunk_ok_def chunk_size_def)
  have wrap: "u64 (cs_l2_usage cs1 + chunk_size c) = cs_l2_usage cs1 + chunk_size c"
    using cs1(4) l2_invD(8) [OF assms(1)] by (intro u64_small) simp
  have l: "lru_wf (lru_push_front (ch_key c) (cs_l2_lru cs1))"
    "lru_keys (lru_push_front (ch_key c) (cs_l2_lru cs1)) = ch_key c # lru_keys (cs_l2_lru cs1)"
    using lo.push_new [OF inv(2) new1] by auto
  have bit: "layer_bit (ck_layer (ch_key c)) = Some (unat (ck_layer (ch_key c)))" using assms(8) by (simp add: layer_bit_def)
  obtain cs2 where cs2: "storage_put e c cs = Some (True, cs2)" "cs_l2 cs2 = om_set ?h d (cs_l2 cs1)"
    "cs_l2_usage cs2 = cs_l2_usage cs1 + chunk_size c" "cs_l2_lru cs2 = lru_push_front (ch_key c) (cs_l2_lru cs1)"
    "cs_l2_limit cs2 = cs_l2_limit cs1"
    using assms(3,4,7,9,10) cs1(1,4) sel kv(1,4) bit wrap
    by (simp add: storage_put_def put_expire_def put_insert_def Let_def memory_only_def index_set_def now_def d_def)
  have "l2_inv cs2"
    using inv(1-8) l d none cs1(4) sel
    by (auto simp: l2_inv_def cs2 om_sum_set_new)
  moreover have "om_find (cs_l2 cs2) (hash_key k) = om_find (cs_l2 cs) (hash_key k)" if "k \<in> set (take m ?keys)" for k
  proof -
    have "hash_key k \<in> hashes (take m ?keys)" using that by (simp add: hashes_def)
    then have "hash_key k \<noteq> ?h" using new1 t1 by metis
    with t1 that inv(1) show ?thesis by (simp add: cs2)
  qed
  ultimately show ?thesis
    using cs2(1) cs1(3,5) cs2(2-4) l(2) t1 inv(1) d(1)
    by (intro exI [of _ m] exI [of _ cs2] exI [of _ d]) auto
qed

end
