(* ===== verification/Chunk_L3.thy ===== *)
theory Chunk_L3
  imports Chunk_Put
begin

text \<open>
  The disk tier: appending a record keeps the older ones readable, and a chunk that was evicted to the
  file is found there by \<^verbatim>\<open>get\<close> and comes back with its bytes.
\<close>

section \<open>Records in the file\<close>

definition stored :: "env \<Rightarrow> bytes \<Rightarrow> nat \<Rightarrow> nat \<Rightarrow> chunk \<Rightarrow> bool" where
  "stored e f lim off c \<longleftrightarrow> (\<exists>r. pack_record e c = Some (Some r) \<and> length r < 2 ^ 63 \<and> off + length r \<le> lim
       \<and> take (length r) (drop off f) = r)
     \<and> lim \<le> length f \<and> chunk_ok c \<and> chunk_bounds c \<and> en_malloc e (ch_k_size c) \<and> en_malloc e (ch_v_size c)"

lemma stored_mono:
  assumes "stored e f lim off c" "take lim f' = take lim f" "lim \<le> lim'" "lim' \<le> length f'"
  shows "stored e f' lim' off c"
proof -
  obtain r where r: "pack_record e c = Some (Some r)" "length r < 2 ^ 63" "off + length r \<le> lim" "take (length r) (drop off f) = r"
    using assms(1) by (auto simp: stored_def)
  have "take (length r) (drop off f') = take (length r) (drop off f)"
  proof -
    have "take (length r) (drop off g) = take (length r) (drop off (take lim g))" for g :: bytes
      using r(3) by (simp add: drop_take min_def)
    then show ?thesis using assms(2) by metis
  qed
  with r assms show ?thesis by (auto simp: stored_def)
qed

lemma pack_record_pos: "pack_record e c = Some (Some r) \<Longrightarrow> 72 \<le> length r"
  by (auto simp: pack_record_def split: if_splits option.splits dest!: bind_SomeD)

lemma stored_read:
  assumes "zlib_ok e" "stored e f lim off c"
  shows "\<exists>k v. chunk_data c = Some (k, v) \<and> read_from_disk e f off = Some (Some (fresh_copy c k v))" "off < lim"
proof -
  obtain r where r: "pack_record e c = Some (Some r)" "length r < 2 ^ 63" "off + length r \<le> lim" "take (length r) (drop off f) = r"
    using assms(2) by (auto simp: stored_def)
  have s: "chunk_ok c" "chunk_bounds c" "en_malloc e (ch_k_size c)" "en_malloc e (ch_v_size c)" "lim \<le> length f"
    using assms(2) by (auto simp: stored_def)
  obtain k v where kv: "chunk_data c = Some (k, v)" using chunk_ok_data [OF s(1)] by blast
  have f: "f = take off f @ r @ drop (off + length r) f"
    using r(4) by (metis append_take_drop_id drop_drop add.commute)
  have "length (take off f) = off" using r(3) s(5) by simp
  moreover have "length r < 2 ^ 64" using r(2) by simp
  ultimately have "read_from_disk e f off = Some (Some (fresh_copy c k v))"
    using read_back [OF assms(1) s(2-4) kv r(1), of "take off f" "drop (off + length r) f"] f by simp
  with kv show "\<exists>k v. chunk_data c = Some (k, v) \<and> read_from_disk e f off = Some (Some (fresh_copy c k v))" by blast
  show "off < lim" using pack_record_pos [OF r(1)] r(3) by simp
qed

lemma fresh_copy_same: "chunk_data c = Some (k, v) \<Longrightarrow> same_chunk c (fresh_copy c k v)"
  using chunk_data_length [of c k v] by (simp add: same_chunk_def fresh_copy_def chunk_data_def)

lemma fresh_copy_ok: "chunk_ok c \<Longrightarrow> chunk_data c = Some (k, v) \<Longrightarrow> chunk_ok (fresh_copy c k v)"
  using chunk_data_length [of c k v] by (simp add: chunk_ok_def fresh_copy_def buf_ok_def)

lemma touched_chunk:
  "chunk_data (c\<lparr>ch_last := t, ch_count := n\<rparr>) = chunk_data c" "chunk_ok (c\<lparr>ch_last := t, ch_count := n\<rparr>) = chunk_ok c"
  "chunk_size (c\<lparr>ch_last := t, ch_count := n\<rparr>) = chunk_size c"
  by (simp_all add: chunk_data_def chunk_ok_def chunk_size_def)

section \<open>The invariant\<close>

text \<open>The ghost \<open>g\<close> is the chunk at each offset of the index.\<close>

definition l3_inv :: "env \<Rightarrow> (nat \<Rightarrow> chunk) \<Rightarrow> chunk_storage \<Rightarrow> bool" where
  "l3_inv e g cs \<longleftrightarrow> cs_l3_enabled cs \<and> cs_map cs = Mapped \<and> cs_fd cs \<and> cs_map_size cs = length (cs_file cs) \<and> 0 < cs_map_size cs
     \<and> cs_next cs \<le> cs_map_size cs \<and> cs_map_size cs < 2 ^ 62
     \<and> om_wf (cs_l3 cs) \<and> lru_wf (cs_l3_lru cs) \<and> dom (om_find (cs_l3 cs)) = hashes (lru_keys (cs_l3_lru cs))
     \<and> cs_l3_usage cs = om_sum (chunk_size \<circ> g) (cs_l3 cs) \<and> cs_l3_usage cs \<le> cs_l3_limit cs \<and> cs_l3_limit cs < 2 ^ 62
     \<and> (\<forall>h off. om_find (cs_l3 cs) h = Some off \<longrightarrow> stored e (cs_file cs) (cs_next cs) off (g off) \<and> hash_key (ch_key (g off)) = h)"

lemma l3_invD:
  assumes "l3_inv e g cs"
  shows "cs_l3_enabled cs" "cs_map cs = Mapped" "cs_fd cs" "cs_map_size cs = length (cs_file cs)" "0 < cs_map_size cs"
    "cs_next cs \<le> cs_map_size cs" "cs_map_size cs < 2 ^ 62"
    "om_wf (cs_l3 cs)" "lru_wf (cs_l3_lru cs)" "dom (om_find (cs_l3 cs)) = hashes (lru_keys (cs_l3_lru cs))"
    "cs_l3_usage cs = om_sum (chunk_size \<circ> g) (cs_l3 cs)" "cs_l3_usage cs \<le> cs_l3_limit cs" "cs_l3_limit cs < 2 ^ 62"
    "om_find (cs_l3 cs) h = Some off \<Longrightarrow> stored e (cs_file cs) (cs_next cs) off (g off)"
    "om_find (cs_l3 cs) h = Some off \<Longrightarrow> hash_key (ch_key (g off)) = h"
  using assms unfolding l3_inv_def by blast+

definition storage_inv :: "env \<Rightarrow> (nat \<Rightarrow> chunk) \<Rightarrow> chunk_storage \<Rightarrow> bool" where
  "storage_inv e g cs \<longleftrightarrow> l2_inv cs \<and> l3_inv e g cs \<and> dom (om_find (cs_l2 cs)) \<inter> dom (om_find (cs_l3 cs)) = {}"

text \<open>The system calls on the cache file succeed.\<close>

definition io_ok :: "env \<Rightarrow> bool" where
  "io_ok e \<longleftrightarrow> (\<forall>n. en_munmap e n \<and> en_ftruncate e n \<and> (0 < n \<longrightarrow> en_mmap e n))"

lemma ensure_disk_space_ok:
  assumes "io_ok e" "cs_map cs = Mapped" "cs_fd cs" "cs_map_size cs = length (cs_file cs)" "0 < cs_map_size cs" "cs_map_size cs < 2 ^ 62"
    "req \<le> cs_l3_limit cs" "cs_l3_limit cs < 2 ^ 62"
  shows "\<exists>f. ensure_disk_space e req cs = (True, cs\<lparr>cs_file := f, cs_map_size := length f\<rparr>) \<and> req \<le> length f
    \<and> length (cs_file cs) \<le> length f \<and> take (length (cs_file cs)) f = cs_file cs \<and> length f < 2 ^ 62"
proof (cases "req \<le> cs_map_size cs")
  case True
  have "ensure_disk_space e req cs = (True, cs)" using True by (simp add: ensure_disk_space_def)
  moreover have "cs\<lparr>cs_file := cs_file cs, cs_map_size := length (cs_file cs)\<rparr> = cs" using assms(4) by simp
  moreover have "req \<le> length (cs_file cs)" "length (cs_file cs) < 2 ^ 62" using True assms(4,6) by (simp_all only:)
  ultimately show ?thesis by (intro exI [of _ "cs_file cs"]) simp
next
  case False
  let ?n = "min (max (u64 (cs_map_size cs * 2)) req) (cs_l3_limit cs)"
  have n: "req \<le> ?n" "cs_map_size cs < ?n" using False assms(7) by simp_all
  have "length (truncate_file ?n (cs_file cs)) = ?n" "take (length (cs_file cs)) (truncate_file ?n (cs_file cs)) = cs_file cs"
    using n(2) by (simp_all add: truncate_file_def assms(4))
  moreover have "?n < 4611686018427387904" using assms(8) by (simp add: min_less_iff_disj)
  ultimately show ?thesis using n False assms
    by (intro exI [of _ "truncate_file ?n (cs_file cs)"])
      (simp add: ensure_disk_space_def Let_def io_ok_def mmap_ok_def not_le)
qed

section \<open>Appending a record\<close>

text \<open>
  Room without eviction or compaction: the byte count and the append position are below their limits.
\<close>

definition l3_room :: "env \<Rightarrow> chunk \<Rightarrow> bytes \<Rightarrow> chunk_storage \<Rightarrow> bool" where
  "l3_room e c r cs \<longleftrightarrow> pack_record e c = Some (Some r) \<and> cs_l3_usage cs + chunk_size c \<le> cs_l3_limit cs
     \<and> cs_next cs \<le> u64 (cs_l3_limit cs * 9) div 10 \<and> cs_next cs + length r \<le> cs_l3_limit cs"

lemma write_append:
  assumes "io_ok e" "l3_inv e g cs" "l3_room e c r cs"
  shows "\<exists>f. write_to_disk e c cs = Some (Some (cs_next cs),
      cs\<lparr>cs_file := f, cs_map_size := length f, cs_next := cs_next cs + length r\<rparr>)
    \<and> cs_next cs + length r \<le> length f \<and> length f < 2 ^ 62
    \<and> take (cs_next cs) f = take (cs_next cs) (cs_file cs) \<and> take (length r) (drop (cs_next cs) f) = r"
proof -
  note inv = l3_invD [OF assms(2)] and room = assms(3) [unfolded l3_room_def]
  have lim: "cs_l3_limit cs < 4611686018427387904" using inv(13) by simp
  have wrap: "u64 (cs_next cs + length r) = cs_next cs + length r"
    "u64 (cs_l3_usage cs + chunk_size c) = cs_l3_usage cs + chunk_size c"
    using room lim by (simp_all add: u64_def)
  obtain f where f: "ensure_disk_space e (cs_next cs + length r) cs = (True, cs\<lparr>cs_file := f, cs_map_size := length f\<rparr>)"
    "cs_next cs + length r \<le> length f" "length (cs_file cs) \<le> length f" "take (length (cs_file cs)) f = cs_file cs" "length f < 2 ^ 62"
    using ensure_disk_space_ok [OF assms(1) inv(2-5,7) _ inv(13), of "cs_next cs + length r"] room by blast
  let ?f = "take (cs_next cs) f @ r @ drop (cs_next cs + length r) f"
  have pre: "take (cs_next cs) f = take (cs_next cs) (cs_file cs)"
    using f(4) inv(4,6) by (metis min.absorb1 take_take)
  have len: "length ?f = length f" using f(2) by simp
  have "make_l3_room (lru_size (cs_l3_lru cs) + 1) e (chunk_size c) cs = Some cs"
    using room wrap(2) by simp
  then have "write_to_disk e c cs = Some (Some (cs_next cs), cs\<lparr>cs_file := ?f, cs_map_size := length ?f, cs_next := cs_next cs + length r\<rparr>)"
    using room wrap inv(1,2) f(2) len
    by (simp add: write_to_disk_def f(1) write_bytes_def cs_view_def)
  moreover have "length (take (cs_next cs) f) = cs_next cs" using f(2) by simp
  then have "take (length r) (drop (cs_next cs) ?f) = r" "take (cs_next cs) ?f = take (cs_next cs) f" by simp_all
  ultimately show ?thesis using f(2,5) len pre by (intro exI [of _ ?f]) simp
qed

section \<open>Eviction to the file\<close>

lemma om_sum_cong: "(\<And>k v. (k, v) \<in> set m \<Longrightarrow> f v = f' v) \<Longrightarrow> om_sum f m = om_sum f' m"
  unfolding om_sum_def by (intro arg_cong [where f = sum_list] map_cong) auto

text \<open>The L3 part of the state; the L2 operations leave it alone.\<close>

definition l3_part where
  "l3_part cs = (cs_l3_enabled cs, cs_map cs, cs_fd cs, cs_map_size cs, cs_file cs, cs_next cs, cs_l3 cs, cs_l3_lru cs, cs_l3_usage cs, cs_l3_limit cs)"

lemma l3_inv_part: "l3_part cs' = l3_part cs \<Longrightarrow> l3_inv e g cs \<Longrightarrow> l3_inv e g cs'"
  by (auto simp only: l3_part_def l3_inv_def prod.inject)

lemma l3_append_inv:
  assumes "l3_inv e g cs" "l3_room e c r cs" "om_find (cs_l3 cs) h = None" "hash_key key = h" "hash_key (ch_key c) = h"
    "chunk_ok c" "chunk_bounds c" "en_malloc e (ch_k_size c)" "en_malloc e (ch_v_size c)"
    "cs_next cs + length r \<le> length f" "length f < 2 ^ 62"
    "take (cs_next cs) f = take (cs_next cs) (cs_file cs)" "take (length r) (drop (cs_next cs) f) = r"
  shows "l3_inv e (g(cs_next cs := c))
    (add_to_l3 key h (cs_next cs) (chunk_size c) (cs\<lparr>cs_file := f, cs_map_size := length f, cs_next := cs_next cs + length r\<rparr>))"
proof -
  note inv = l3_invD [OF assms(1)] and room = assms(2) [unfolded l3_room_def]
  let ?g = "g(cs_next cs := c)" and ?n = "cs_next cs + length r"
  have r: "length r < 2 ^ 63" "72 \<le> length r" using assms(10,11) pack_record_pos room by auto
  have new: "stored e f ?n (cs_next cs) c"
    using room r assms(6-10,13) by (auto simp: stored_def)
  have below: "off < cs_next cs" if "om_find (cs_l3 cs) h' = Some off" for h' off
    using inv(14) [OF that] pack_record_pos [of e "g off"] by (fastforce simp: stored_def)
  have old: "stored e f ?n off (?g off) \<and> hash_key (ch_key (?g off)) = h'" if "om_find (cs_l3 cs) h' = Some off" for h' off
    using stored_mono [OF inv(14) [OF that] assms(12)] assms(10) below [OF that] inv(15) [OF that] by simp
  have "om_sum (chunk_size \<circ> ?g) (cs_l3 cs) = om_sum (chunk_size \<circ> g) (cs_l3 cs)"
  proof (rule om_sum_cong)
    fix k v assume "(k, v) \<in> set (cs_l3 cs)"
    then have "om_find (cs_l3 cs) k = Some v" using om_find_mem_iff [OF inv(8)] by blast
    from below [OF this] show "(chunk_size \<circ> ?g) v = (chunk_size \<circ> g) v" by simp
  qed
  then have sum: "om_sum (chunk_size \<circ> ?g) (om_set h (cs_next cs) (cs_l3 cs)) = cs_l3_usage cs + chunk_size c"
    using om_sum_set_new [OF inv(8) assms(3)] inv(11) by simp
  have wrap: "u64 (cs_l3_usage cs + chunk_size c) = cs_l3_usage cs + chunk_size c"
    using room inv(13) by (intro u64_small) simp
  have "hash_key key \<notin> hashes (lru_keys (cs_l3_lru cs))" using assms(3,4) inv(10) by (metis domIff)
  note lru = lo.push_new [OF inv(9) this]
  show ?thesis
    unfolding l3_inv_def add_to_l3_def
    using inv(1-3,8,10,13) lru wrap sum new old room assms(4,5,10,11) r(2) by auto
qed

lemma evict_to_disk:
  assumes "storage_inv e g cs" "io_ok e" "cold cs" "lru_keys (cs_l2_lru cs) = ks @ [key]"
    "om_find (cs_l2 cs) (hash_key key) = Some c" "l3_room e c r cs"
    "chunk_bounds c" "en_malloc e (ch_k_size c)" "en_malloc e (ch_v_size c)"
  shows "\<exists>cs'. evict_one_l2_to_l3 e cs = Some (chunk_size c, cs') \<and> storage_inv e (g(cs_next cs := c)) cs'
    \<and> om_find (cs_l3 cs') (hash_key key) = Some (cs_next cs) \<and> om_find (cs_l2 cs') (hash_key key) = None
    \<and> lru_keys (cs_l2_lru cs') = ks \<and> cs_l2_limit cs' = cs_l2_limit cs \<and> cs_l2_usage cs' + chunk_size c = cs_l2_usage cs"
proof -
  have inv: "l2_inv cs" "l3_inv e g cs" "dom (om_find (cs_l2 cs)) \<inter> dom (om_find (cs_l3 cs)) = {}"
    using assms(1) by (simp_all add: storage_inv_def)
  note l2 = l2_invD [OF inv(1)] and l3 = l3_invD [OF inv(2)]
  let ?h = "hash_key key"
  obtain l where l: "lru_wf l" "lru_keys l = ks"
    and ev: "\<And>off cs1. write_to_disk e c cs = Some (off, cs1) \<Longrightarrow> same_l2 cs cs1 \<Longrightarrow>
      evict_one_l2_to_l3 e cs = Some (chunk_size c, drop_l2 ?h (chunk_size c) l
          (case off of None \<Rightarrow> cs1 | Some off \<Rightarrow> add_to_l3 key ?h off (chunk_size c) cs1))"
    using evict_cold [OF inv(1) assms(3,4), of e] assms(5) by auto
  obtain f where f: "write_to_disk e c cs = Some (Some (cs_next cs),
      cs\<lparr>cs_file := f, cs_map_size := length f, cs_next := cs_next cs + length r\<rparr>)"
    "cs_next cs + length r \<le> length f" "length f < 2 ^ 62"
    "take (cs_next cs) f = take (cs_next cs) (cs_file cs)" "take (length r) (drop (cs_next cs) f) = r"
    using write_append [OF assms(2) inv(2) assms(6)] by blast
  let ?cs1 = "add_to_l3 key ?h (cs_next cs) (chunk_size c) (cs\<lparr>cs_file := f, cs_map_size := length f, cs_next := cs_next cs + length r\<rparr>)"
  let ?cs2 = "drop_l2 ?h (chunk_size c) l ?cs1"
  have run: "evict_one_l2_to_l3 e cs = Some (chunk_size c, ?cs2)"
    using ev [OF f(1)] by (simp add: same_l2_def)
  have none: "om_find (cs_l3 cs) ?h = None" using inv(3) assms(5) by (metis domIff disjoint_iff domI)
  have "l3_inv e (g(cs_next cs := c)) ?cs1"
    using l2(4,5) [OF assms(5)] assms(7-9) f(2-5) by (intro l3_append_inv [OF inv(2) assms(6) none refl]) simp_all
  then have i3: "l3_inv e (g(cs_next cs := c)) ?cs2"
    by (rule l3_inv_part [rotated]) (simp add: l3_part_def drop_l2_def)
  have "distinct (map hash_key (ks @ [key]))" using l2(2) assms(4) by (simp add: lru_wf_def)
  then have "?h \<notin> hashes ks" by (auto simp: hashes_def)
  then have i2: "l2_inv ?cs2"
    using l by (intro drop_l2_inv [OF inv(1) _ assms(5)]) (simp_all add: same_l2_def add_to_l3_def assms(4))
  have d: "dom (om_find (cs_l2 ?cs2)) \<inter> dom (om_find (cs_l3 ?cs2)) = {}"
    using inv(3) l2(1) l3(8) by (auto simp: drop_l2_def add_to_l3_def)
  have "chunk_size c \<le> cs_l2_usage cs" using om_sum_ge [OF assms(5)] by (simp add: l2(6))
  with run i2 i3 d l l2(1) l3(8) show ?thesis
    by (intro exI [of _ ?cs2]) (simp add: storage_inv_def, simp add: drop_l2_def add_to_l3_def)
qed

section \<open>Reading from the file\<close>

lemma get_from_disk:
  assumes "storage_inv e g cs" "zlib_ok e" "om_find (cs_l3 cs) (hash_key key) = Some off"
    "cs_l2_usage cs + chunk_size (g off) \<le> cs_l2_limit cs"
  shows "\<exists>c' cs'. storage_get e key cs = Some (Some c', cs') \<and> same_chunk (g off) c' \<and> storage_inv e g cs'
    \<and> om_find (cs_l2 cs') (hash_key key) = Some c' \<and> om_find (cs_l3 cs') (hash_key key) = None"
proof -
  have inv: "l2_inv cs" "l3_inv e g cs" "dom (om_find (cs_l2 cs)) \<inter> dom (om_find (cs_l3 cs)) = {}"
    using assms(1) by (simp_all add: storage_inv_def)
  note l2 = l2_invD [OF inv(1)] and l3 = l3_invD [OF inv(2)]
  let ?h = "hash_key key"
  define cs0 where "cs0 = count_access ?h (hit (if cs_l1_enabled cs \<and> en_l1_offset e ?h then hit cs else cs))"
  have part: "l3_part cs0 = l3_part cs" "same_l2 cs cs0"
    by (auto simp: cs0_def l3_part_def same_l2_def count_access_def hit_def)
  have none: "om_find (cs_l2 cs) ?h = None" using inv(3) assms(3) by (metis domIff disjoint_iff domI)
  obtain k v where kv: "chunk_data (g off) = Some (k, v)" "read_from_disk e (cs_file cs) off = Some (Some (fresh_copy (g off) k v))"
    "off < cs_next cs"
    using stored_read [OF assms(2) l3(14) [OF assms(3)]] by blast
  have ok: "chunk_ok (g off)" using l3(14) [OF assms(3)] by (simp add: stored_def)
  have read: "storage_read e off cs0 = Some (Some (fresh_copy (g off) k v))"
    using part(1) l3(2,4,6) kv(2,3) by (simp add: storage_read_def cs_view_def l3_part_def)
  define c where "c = (fresh_copy (g off) k v)\<lparr>ch_last := en_time e (cs_tick cs0), ch_count := u32 (ch_count (fresh_copy (g off) k v) + 1)\<rparr>"
  have touch: "touch_chunk e (fresh_copy (g off) k v) cs0 = (c, cs0\<lparr>cs_tick := cs_tick cs0 + 1\<rparr>)"
    by (simp add: touch_chunk_def now_def c_def)
  have c: "same_chunk (g off) c" "chunk_ok c"
    using fresh_copy_same [OF kv(1)] fresh_copy_ok [OF ok kv(1)]
    by (simp_all add: c_def same_chunk_def touched_chunk)
  note c = c same_chunk_size [OF c(1)]
  have hc: "hash_key (ch_key c) = ?h" using l3(15) [OF assms(3)] c(1) by (simp add: same_chunk_def)
  obtain l where l: "lru_update key (cs_l3_lru cs) = Some l" "lru_wf l" "hashes (lru_keys l) = hashes (lru_keys (cs_l3_lru cs))"
    using lo.update_keys [OF l3(9), of key] lo.update_hashes [OF l3(9), of key] by auto
  obtain l' where l': "lru_unlink ?h l = Some l'" "lru_wf l'" "lru_keys l' = others ?h (lru_keys l)"
    using lo.unlink_keys [OF l(2)] by blast
  have "?h \<notin> hashes (lru_keys (cs_l2_lru cs))" using none l2(3) by (metis domIff)
  note push = lo.push_new [OF l2(2) this]
  have sum: "om_sum (chunk_size \<circ> g) (om_erase ?h (cs_l3 cs)) + chunk_size c = cs_l3_usage cs"
    using om_sum_erase [OF l3(8) assms(3), of "chunk_size \<circ> g"] l3(11) c(3) by simp
  have "cs_l3_usage cs < 18446744073709551616" using l3(12,13) by simp
  then have sub: "u64_sub (cs_l3_usage cs) (chunk_size c) = cs_l3_usage cs - chunk_size c" using sum by simp
  have wrap: "u64 (cs_l2_usage cs + chunk_size c) = cs_l2_usage cs + chunk_size c"
    using assms(4) l2(8) c(3) by (intro u64_small) simp
  define cs2 where "cs2 = cs0\<lparr>cs_tick := cs_tick cs0 + 1, cs_l3_lru := l', cs_l3 := om_erase ?h (cs_l3 cs),
    cs_l3_usage := cs_l3_usage cs - chunk_size c, cs_l2 := om_set ?h c (cs_l2 cs), cs_l2_usage := cs_l2_usage cs + chunk_size c,
    cs_l2_lru := lru_push_front key (cs_l2_lru cs)\<rparr>"
  have start: "storage_get e key cs = get_l3 e key ?h off (if cs_l1_enabled cs \<and> en_l1_offset e ?h then hit cs else cs)"
    using none assms(3) by (auto simp: storage_get_def Let_def hit_def)
  have run: "storage_get e key cs = Some (Some c, cs2)"
    using part l(1) l'(1) sub wrap assms(3,4) c(3)
    by (simp add: start get_l3_def cs0_def [symmetric] read touch
        promote_def Let_def l3_part_def same_l2_def cs2_def)
  have i2: "l2_inv cs2"
    using l2(1-8) part(2) push c(2) hc none assms(4) c(3)
    unfolding l2_inv_def by (auto simp: cs2_def same_l2_def om_sum_set_new)
  have i3: "l3_inv e g cs2"
  proof -
    have "cs_l3_usage cs - chunk_size c = om_sum (chunk_size \<circ> g) (om_erase ?h (cs_l3 cs))" using sum by simp
    moreover have "dom ((om_find (cs_l3 cs))(?h := None)) = hashes (lru_keys l')" using l3(10) l(3) l'(3) by auto
    ultimately show ?thesis
      using l3(1-9,12-15) part(1) l'(2) unfolding l3_inv_def by (simp add: cs2_def l3_part_def)
  qed
  have "dom (om_find (cs_l2 cs2)) \<inter> dom (om_find (cs_l3 cs2)) = {}"
    using inv(3) l2(1) l3(8) by (auto simp: cs2_def)
  with run i2 i3 c(1) l2(1) l3(8) show ?thesis
    by (intro exI [of _ c] exI [of _ cs2]) (simp add: storage_inv_def, simp add: cs2_def)
qed

end
