(* ===== verification/Chunk_Load.thy ===== *)
theory Chunk_Load
  imports Chunk_L3
begin

text \<open>
  The scan of \<^verbatim>\<open>load_cache_from_disk\<close>: a file that holds a sequence of records, followed by zeros, is
  indexed completely, and the loop ends within its fuel.
\<close>

definition rec_of :: "env \<Rightarrow> chunk \<Rightarrow> bytes" where
  "rec_of e c = the (the (pack_record e c))"

text \<open>A chunk whose record the scan can recognise: it packs, is not empty and is within the field widths.\<close>

definition storable :: "env \<Rightarrow> chunk \<Rightarrow> bool" where
  "storable e c \<longleftrightarrow> pack_record e c = Some (Some (rec_of e c)) \<and> chunk_ok c \<and> chunk_bounds c \<and> 0 < chunk_size c
     \<and> en_malloc e (ch_k_size c) \<and> en_malloc e (ch_v_size c)"

lemma storable_record:
  assumes "storable e c"
  shows "\<exists>k v ck cv. rec_of e c = enc_v3 c (data_checksum e k v) ck cv" "72 \<le> length (rec_of e c)"
proof -
  have p: "pack_record e c = Some (Some (rec_of e c))" using assms by (simp add: storable_def)
  obtain k v where "chunk_data c = Some (k, v)" using pack_record_data [OF p] by blast
  from pack_record_Some [OF p this] show "\<exists>k v ck cv. rec_of e c = enc_v3 c (data_checksum e k v) ck cv" by blast
  show "72 \<le> length (rec_of e c)" by (rule pack_record_pos [OF p])
qed

section \<open>The end of the records\<close>

lemma le_dec_zeros [simp]: "le_dec (replicate n 0) = 0"
  by (induction n) simp_all

lemma rd_zeros: "d + n \<le> z \<Longrightarrow> rd (replicate z 0) d n = Some 0"
  by (simp add: rd_def slice_def)

lemma load_end:
  assumes "cs_view cs = Some (pre @ replicate z 0)" "cs_map_size cs = length pre + z" "cs_map_size cs < 2 ^ 62"
  shows "load_loop (Suc fuel) (length pre) cs = Some (length pre, cs)"
proof (cases "z < 72")
  case True
  then show ?thesis using assms(2,3) by simp
next
  case False
  then have "\<exists>h. read_header (pre @ replicate z 0) (length pre) = Some h \<and> hd_k_size h = 0 \<and> hd_v_size h = 0"
    by (simp add: read_header_def rd_zeros)
  with assms show ?thesis by auto
qed

section \<open>One record\<close>

lemma l3_index_inv:
  assumes "l3_inv e g (cs\<lparr>cs_next := off\<rparr>)" "om_find (cs_l3 cs) h = None" "hash_key (ch_key c) = h"
    "stored e (cs_file cs) off' off c" "off \<le> off'" "cs_l3_usage cs + chunk_size c \<le> cs_l3_limit cs" "off' \<le> cs_map_size cs"
  shows "l3_inv e (g(off := c)) (cs\<lparr>cs_l3 := om_set h off (cs_l3 cs), cs_l3_usage := u64 (cs_l3_usage cs + chunk_size c),
    cs_l3_lru := lru_push_back (ch_key c) (cs_l3_lru cs), cs_next := off'\<rparr>)"
proof -
  note inv = l3_invD [OF assms(1), simplified]
  have below: "p < off" if "om_find (cs_l3 cs) h' = Some p" for h' p
    using inv(14) [OF that] pack_record_pos [of e "g p"] by (fastforce simp: stored_def)
  have old: "stored e (cs_file cs) off' p ((g(off := c)) p) \<and> hash_key (ch_key ((g(off := c)) p)) = h'"
    if "om_find (cs_l3 cs) h' = Some p" for h' p
    using stored_mono [OF inv(14) [OF that] refl assms(5)] assms(7) inv(4) below [OF that] inv(15) [OF that] by simp
  have "om_sum (chunk_size \<circ> g(off := c)) (cs_l3 cs) = om_sum (chunk_size \<circ> g) (cs_l3 cs)"
  proof (rule om_sum_cong)
    fix k v assume "(k, v) \<in> set (cs_l3 cs)"
    then have "om_find (cs_l3 cs) k = Some v" using om_find_mem_iff [OF inv(8)] by blast
    from below [OF this] show "(chunk_size \<circ> g(off := c)) v = (chunk_size \<circ> g) v" by simp
  qed
  then have sum: "om_sum (chunk_size \<circ> g(off := c)) (om_set h off (cs_l3 cs)) = cs_l3_usage cs + chunk_size c"
    using om_sum_set_new [OF inv(8) assms(2)] inv(11) by simp
  have wrap: "u64 (cs_l3_usage cs + chunk_size c) = cs_l3_usage cs + chunk_size c"
    using assms(6) inv(13) by (intro u64_small) simp
  have "hash_key (ch_key c) \<notin> hashes (lru_keys (cs_l3_lru cs))" using assms(2,3) inv(10) by (metis domIff)
  note lru = lru_push_back_wf [OF inv(9) this]
  have "0 < cs_map_size cs" using inv(5) by simp
  then show ?thesis
    unfolding l3_inv_def
    using inv(1-4,7,8,10,13) lru wrap sum old assms(3,4,6,7) by auto
qed

lemma stored_record:
  assumes "storable e c" "f = pre @ rec_of e c @ post" "length f < 2 ^ 62"
  shows "stored e f (length pre + length (rec_of e c)) (length pre) c"
  using assms by (auto simp: stored_def storable_def intro!: exI [of _ "rec_of e c"])

lemma load_step:
  assumes "storable e c" "cs_view cs = Some (pre @ rec_of e c @ post)" "cs_map_size cs = length (pre @ rec_of e c @ post)"
    "cs_map_size cs < 2 ^ 62"
  shows "load_loop (Suc fuel) (length pre) cs = load_loop fuel (length (pre @ rec_of e c))
    (cs\<lparr>cs_l3 := om_set (hash_key (ch_key c)) (length pre) (cs_l3 cs), cs_l3_usage := u64 (cs_l3_usage cs + chunk_size c),
        cs_l3_lru := lru_push_back (ch_key c) (cs_l3_lru cs)\<rparr>)"
proof -
  obtain k v ck cv where r: "rec_of e c = enc_v3 c (data_checksum e k v) ck cv" using storable_record(1) [OF assms(1)] by blast
  have len: "length (rec_of e c) = 72 + length ck + length cv" by (simp add: r)
  have b: "chunk_bounds c" "0 < chunk_size c" using assms(1) by (simp_all add: storable_def)
  have s: "length pre + (72 + length ck + length cv) < 4611686018427387904" using assms(3,4) len by simp
  have "read_header (pre @ rec_of e c @ post) (length pre) = Some (header_of c (data_checksum e k v) (length ck) (length cv))"
    unfolding r using s by (intro read_header_enc b) simp_all
  moreover have "u64 (72 + length ck + length cv) = 72 + length ck + length cv"
    "u64 (length pre + (72 + length ck + length cv)) = length pre + (72 + length ck + length cv)"
    "u64 (length pre + 72) = length pre + 72"
    using s by (simp_all add: u64_def)
  ultimately show ?thesis
    using assms(2,3) b(2) by (simp add: header_of_def chunk_size_def [symmetric] len)
qed

section \<open>The whole scan\<close>

lemma load_loop_records:
  assumes "l3_inv e g (cs\<lparr>cs_next := length pre\<rparr>)" "cs_file cs = pre @ concat (map (rec_of e) todo) @ replicate z 0"
    "\<forall>c \<in> set todo. storable e c" "distinct (map (hash_key \<circ> ch_key) todo)"
    "\<forall>c \<in> set todo. om_find (cs_l3 cs) (hash_key (ch_key c)) = None"
    "cs_l3_usage cs + sum_list (map chunk_size todo) \<le> cs_l3_limit cs" "length todo < fuel"
  shows "\<exists>cs' g'. load_loop fuel (length pre) cs = Some (length pre + length (concat (map (rec_of e) todo)), cs')
    \<and> l3_inv e g' (cs'\<lparr>cs_next := length pre + length (concat (map (rec_of e) todo))\<rparr>)
    \<and> lru_keys (cs_l3_lru cs') = lru_keys (cs_l3_lru cs) @ map ch_key todo
    \<and> cs_l3_usage cs' = cs_l3_usage cs + sum_list (map chunk_size todo)
    \<and> (\<forall>h p. om_find (cs_l3 cs) h = Some p \<longrightarrow> om_find (cs_l3 cs') h = Some p \<and> g' p = g p)
    \<and> (\<forall>c \<in> set todo. \<exists>p. om_find (cs_l3 cs') (hash_key (ch_key c)) = Some p \<and> g' p = c)"
  using assms
proof (induction todo arbitrary: cs g pre fuel)
  case Nil
  note inv = l3_invD [OF Nil(1), simplified]
  have "cs_view cs = Some (pre @ replicate z 0)" using inv(2,4) Nil(2) by (simp add: cs_view_def)
  with Nil inv show ?case
    using load_end [of cs pre z "fuel - 1"] by (intro exI [of _ cs] exI [of _ g]) simp
next
  case (Cons c todo)
  note inv = l3_invD [OF Cons.prems(1), simplified]
  let ?h = "hash_key (ch_key c)" and ?post = "concat (map (rec_of e) todo) @ replicate z 0"
  let ?pre = "pre @ rec_of e c" and ?g = "g(length pre := c)"
  have sc: "storable e c" using Cons.prems(3) by simp
  have fil: "cs_file cs = pre @ rec_of e c @ ?post" using Cons.prems(2) by simp
  have view: "cs_view cs = Some (pre @ rec_of e c @ ?post)" using inv(2,4) fil by (simp add: cs_view_def)
  have size: "cs_map_size cs = length (pre @ rec_of e c @ ?post)" using inv(4) fil by simp
  have lim: "cs_map_size cs < 2 ^ 62" "cs_l3_usage cs + chunk_size c \<le> cs_l3_limit cs" using inv(7) Cons.prems(6) by simp_all
  obtain fuel' where fuel: "fuel = Suc fuel'" using Cons.prems(7) by (cases fuel) auto
  define cs1 where "cs1 = cs\<lparr>cs_l3 := om_set ?h (length pre) (cs_l3 cs), cs_l3_usage := u64 (cs_l3_usage cs + chunk_size c),
        cs_l3_lru := lru_push_back (ch_key c) (cs_l3_lru cs)\<rparr>"
  have step: "load_loop fuel (length pre) cs = load_loop fuel' (length ?pre) cs1"
    unfolding fuel cs1_def by (rule load_step [OF sc view size lim(1)])
  have new: "om_find (cs_l3 cs) ?h = None" using Cons.prems(5) by simp
  have st: "stored e (cs_file cs) (length ?pre) (length pre) c"
    using stored_record [OF sc fil] lim(1) size fil by simp
  have inv1: "l3_inv e ?g (cs1\<lparr>cs_next := length ?pre\<rparr>)"
    unfolding cs1_def
    using l3_index_inv [OF Cons.prems(1) new refl st _ lim(2)] size by simp
  have usage: "cs_l3_usage cs1 = cs_l3_usage cs + chunk_size c"
    using lim(2) inv(13) by (simp add: cs1_def)
  have "\<exists>cs' g'. load_loop fuel' (length ?pre) cs1 = Some (length ?pre + length (concat (map (rec_of e) todo)), cs')
    \<and> l3_inv e g' (cs'\<lparr>cs_next := length ?pre + length (concat (map (rec_of e) todo))\<rparr>)
    \<and> lru_keys (cs_l3_lru cs') = lru_keys (cs_l3_lru cs1) @ map ch_key todo
    \<and> cs_l3_usage cs' = cs_l3_usage cs1 + sum_list (map chunk_size todo)
    \<and> (\<forall>h p. om_find (cs_l3 cs1) h = Some p \<longrightarrow> om_find (cs_l3 cs') h = Some p \<and> g' p = ?g p)
    \<and> (\<forall>c \<in> set todo. \<exists>p. om_find (cs_l3 cs') (hash_key (ch_key c)) = Some p \<and> g' p = c)"
  proof (rule Cons.IH [OF inv1])
    show "cs_file cs1 = ?pre @ concat (map (rec_of e) todo) @ replicate z 0" using fil by (simp add: cs1_def)
    show "\<forall>d \<in> set todo. om_find (cs_l3 cs1) (hash_key (ch_key d)) = None"
      using Cons.prems(4,5) inv(8) by (auto simp: cs1_def image_iff)
    show "cs_l3_usage cs1 + sum_list (map chunk_size todo) \<le> cs_l3_limit cs1"
      using Cons.prems(6) usage by (simp add: cs1_def)
  qed (use Cons.prems fuel in auto)
  then obtain cs' g' where I: "load_loop fuel' (length ?pre) cs1 = Some (length ?pre + length (concat (map (rec_of e) todo)), cs')"
    "l3_inv e g' (cs'\<lparr>cs_next := length ?pre + length (concat (map (rec_of e) todo))\<rparr>)"
    "lru_keys (cs_l3_lru cs') = lru_keys (cs_l3_lru cs1) @ map ch_key todo"
    "cs_l3_usage cs' = cs_l3_usage cs1 + sum_list (map chunk_size todo)"
    "\<forall>h p. om_find (cs_l3 cs1) h = Some p \<longrightarrow> om_find (cs_l3 cs') h = Some p \<and> g' p = ?g p"
    "\<forall>c \<in> set todo. \<exists>p. om_find (cs_l3 cs') (hash_key (ch_key c)) = Some p \<and> g' p = c" by blast
  have "?h \<notin> hashes (lru_keys (cs_l3_lru cs))" using new inv(10) by (metis domIff)
  then have "lru_keys (cs_l3_lru cs1) = lru_keys (cs_l3_lru cs) @ [ch_key c]"
    using lru_push_back_wf(2) [OF inv(9)] by (simp add: cs1_def)
  moreover have "om_find (cs_l3 cs1) ?h = Some (length pre)" using inv(8) by (simp add: cs1_def)
  moreover have "om_find (cs_l3 cs1) h = Some p \<and> p \<noteq> length pre" if "om_find (cs_l3 cs) h = Some p" for h p
  proof -
    have "stored e (cs_file cs) (length pre) p (g p)" using inv(14) [OF that] .
    then have "p < length pre" using pack_record_pos [of e "g p"] by (fastforce simp: stored_def)
    moreover have "h \<noteq> ?h" using that new by auto
    ultimately show ?thesis using that inv(8) by (simp add: cs1_def)
  qed
  then have old: "\<forall>h p. om_find (cs_l3 cs) h = Some p \<longrightarrow> om_find (cs_l3 cs') h = Some p \<and> g' p = g p"
    using I(5) by (metis fun_upd_other)
  ultimately show ?case
    unfolding step using I(1-4,6) spec [OF spec [OF I(5)], of ?h "length pre"] usage old
    by (intro exI [of _ cs'] exI [of _ g']) (simp add: add.assoc)
qed

end
