(* ===== verification/Chunk_Prefix.thy ===== *)
theory Chunk_Prefix
  imports Chunk_Lifecycle
begin

text \<open>
  \<^verbatim>\<open>find_prefix_match\<close> against its specification: the longest run of chunks from the start of the
  prompt that are cached for every layer. The bitmaps of the chunk index change nothing, as long as a
  bitmap with enough bits has the bits of the model's layers (\<open>index_ok\<close>).
\<close>

definition chunk_key_at :: "xxh64 \<Rightarrow> 32 word list \<Rightarrow> nat \<Rightarrow> nat \<Rightarrow> chunk_key" where
  "chunk_key_at xxh tokens c il =
     \<lparr>ck_content = xxh (token_bytes (take THUNDER_CHUNK_SIZE (drop (c * THUNDER_CHUNK_SIZE) tokens))) 0,
      ck_layer = word_of_nat il, ck_start = word_of_nat (c * THUNDER_CHUNK_SIZE)\<rparr>"

definition has_chunk :: "xxh64 \<Rightarrow> 32 word list \<Rightarrow> nat \<Rightarrow> chunk_storage \<Rightarrow> nat \<Rightarrow> bool" where
  "has_chunk xxh tokens n_layers cs c \<longleftrightarrow> (\<forall>il < n_layers. cached cs (hash_key (chunk_key_at xxh tokens c il)))"

definition index_ok :: "nat \<Rightarrow> chunk_storage \<Rightarrow> bool" where
  "index_ok n_layers cs \<longleftrightarrow> (\<forall>h info. om_find (cs_index cs) h = Some info \<longrightarrow> n_layers \<le> card (ci_layers info)
     \<longrightarrow> {..<n_layers} \<subseteq> ci_layers info)"

lemma all_layers_total: "(\<And>x. x \<in> set xs \<Longrightarrow> p x = Some (q x)) \<Longrightarrow> all_layers p xs = Some (\<forall>x \<in> set xs. q x)"
  by (induction xs) auto

lemma all_layers_cong: "(\<And>x. x \<in> set xs \<Longrightarrow> p x = q x) \<Longrightarrow> all_layers p xs = all_layers q xs"
  by (induction xs) (auto cong: if_cong)

lemma layer_cached_full:
  assumes "c * THUNDER_CHUNK_SIZE + THUNDER_CHUNK_SIZE \<le> len" "len \<le> length tokens"
  shows "layer_cached xxh tokens len (c * THUNDER_CHUNK_SIZE) cs il = Some (cached cs (hash_key (chunk_key_at xxh tokens c il)))"
  by (simp add: layer_cached_def make_key_full [OF assms] chunk_key_at_def)

lemma chunk_matches_spec:
  assumes "c * THUNDER_CHUNK_SIZE + THUNDER_CHUNK_SIZE \<le> len" "len \<le> length tokens" "index_ok n cs"
  shows "chunk_matches xxh tokens len n cs c = Some (has_chunk xxh tokens n cs c)"
proof -
  let ?p = "layer_cached xxh tokens len (c * THUNDER_CHUNK_SIZE) cs"
  have slow: "all_layers ?p [0..<n] = Some (has_chunk xxh tokens n cs c)"
    using all_layers_total [of "[0..<n]" ?p "\<lambda>il. cached cs (hash_key (chunk_key_at xxh tokens c il))"]
      layer_cached_full [OF assms(1,2)]
    by (auto simp: has_chunk_def)
  have fast: "all_layers (\<lambda>il. if il \<notin> ci_layers info then Some False else ?p il) [0..<n] = Some (has_chunk xxh tokens n cs c)"
    if "{..<n} \<subseteq> ci_layers info" for info
    unfolding slow [symmetric] by (rule all_layers_cong) (use that in auto)
  let ?f = "om_find (cs_index cs) (base_hash (chunk_key_at xxh tokens c 0))"
  have run: "chunk_matches xxh tokens len n cs c = (case ?f of
      Some info \<Rightarrow> if card (ci_layers info) \<ge> n
        then all_layers (\<lambda>il. if il \<notin> ci_layers info then Some False else ?p il) [0..<n] else all_layers ?p [0..<n]
    | None \<Rightarrow> all_layers ?p [0..<n])"
    by (simp add: chunk_matches_def make_key_full [OF assms(1,2)] chunk_key_at_def Let_def)
  show ?thesis
  proof (cases ?f)
    case None
    then show ?thesis unfolding run using slow by simp
  next
    case (Some info)
    then have "n \<le> card (ci_layers info) \<longrightarrow> {..<n} \<subseteq> ci_layers info" using assms(3) by (auto simp: index_ok_def)
    with fast [of info] slow show ?thesis unfolding run Some by simp
  qed
qed

lemma takeWhile_upt_Suc:
  "length (takeWhile P [0..<Suc n]) = (if \<forall>c < Suc n. P c then Suc n else length (takeWhile P [0..<n]))"
proof (cases "\<forall>c < n. P c")
  case True
  then have "takeWhile P [0..<n] = [0..<n]" by (simp add: takeWhile_eq_all_conv)
  then have "length (takeWhile P [0..<n]) = n" by (simp only: length_upt diff_zero)
  moreover have "takeWhile P ([0..<n] @ [n]) = [0..<n] @ takeWhile P [n]"
    using True by (intro takeWhile_append2) auto
  ultimately show ?thesis using True by (auto simp: less_Suc_eq)
next
  case False
  then obtain c where "c \<in> set [0..<n]" "\<not> P c" by auto
  then have "takeWhile P ([0..<n] @ [n]) = takeWhile P [0..<n]" by (rule takeWhile_append1)
  with False show ?thesis by auto
qed

lemma match_prefixes_spec:
  assumes "n * THUNDER_CHUNK_SIZE \<le> length tokens" "index_ok n_layers cs"
  shows "match_prefixes xxh tokens n_layers cs n = Some (length (takeWhile (has_chunk xxh tokens n_layers cs) [0..<n]))"
  using assms(1)
proof (induction n)
  case (Suc n)
  have le: "c * THUNDER_CHUNK_SIZE + THUNDER_CHUNK_SIZE \<le> Suc n * THUNDER_CHUNK_SIZE" if "c < Suc n" for c
  proof -
    have "Suc c * THUNDER_CHUNK_SIZE \<le> Suc n * THUNDER_CHUNK_SIZE" using that by (intro mult_le_mono1) simp
    then show ?thesis by simp
  qed
  have "all_layers (chunk_matches xxh tokens (Suc n * THUNDER_CHUNK_SIZE) n_layers cs) [0..<Suc n]
      = Some (\<forall>c \<in> set [0..<Suc n]. has_chunk xxh tokens n_layers cs c)"
    by (intro all_layers_total chunk_matches_spec [OF le Suc.prems assms(2)]) auto
  moreover have "match_prefixes xxh tokens n_layers cs n = Some (length (takeWhile (has_chunk xxh tokens n_layers cs) [0..<n]))"
    using Suc by simp
  ultimately show ?case unfolding takeWhile_upt_Suc by (auto simp: less_Suc_eq simp del: upt_Suc)
qed simp

text \<open>A chunk of two prompts with the same tokens at the same place has the same keys in both.\<close>

lemma chunk_key_at_append:
  assumes "length a = c * THUNDER_CHUNK_SIZE" "length b = THUNDER_CHUNK_SIZE"
  shows "chunk_key_at xxh (a @ b @ d) c il
    = \<lparr>ck_content = xxh (token_bytes b) 0, ck_layer = word_of_nat il, ck_start = word_of_nat (c * THUNDER_CHUNK_SIZE)\<rparr>"
  using assms by (simp add: chunk_key_at_def)

end
