(* ===== verification/Chunk_Props.thy ===== *)
theory Chunk_Props
  imports Chunk_Load Chunk_Prefix
begin

text \<open>The properties of the chunk storage, with witnesses on a small instance.\<close>

section \<open>An instance\<close>

text \<open>A store-only zlib, an additive hash, system calls that succeed.\<close>

definition demo_env :: env where
  "demo_env = \<lparr>en_xxh = (\<lambda>bs s. s + word_of_nat (le_dec (take 8 bs))), en_compress = Some, en_uncompress = (\<lambda>n c. Some c),
     en_bound = (\<lambda>n. n + 13), en_malloc = (\<lambda>n. True), en_time = (\<lambda>t. t), en_munmap = (\<lambda>n. True), en_ftruncate = (\<lambda>n. True),
     en_mmap = (\<lambda>n. True), en_page = 4096, en_open = (\<lambda>b. True), en_fstat = True, en_rename = True, en_order = (\<lambda>hs. hs),
     en_l1_offset = (\<lambda>h. False), en_l1_blit = (\<lambda>h. False)\<rparr>"

definition demo_key :: "64 word \<Rightarrow> chunk_key" where
  "demo_key n = \<lparr>ck_content = n, ck_layer = 0, ck_start = 0\<rparr>"

definition demo_chunk :: "64 word \<Rightarrow> chunk" where
  "demo_chunk n = \<lparr>ch_key = demo_key n, ch_k_size = 2, ch_v_size = 1, ch_k = Live [1, 2], ch_v = Live [3], ch_last = 0, ch_count = 0\<rparr>"

lemma demo_env_ok: "zlib_ok demo_env" "io_ok demo_env" "en_malloc demo_env n"
  by (simp_all add: demo_env_def zlib_ok_def io_ok_def)

lemma demo_key_hash [simp]: "hash_key (demo_key n) = n"
  by (simp add: demo_key_def hash_key_def)

lemma demo_chunk_sel [simp]:
  "ch_key (demo_chunk n) = demo_key n" "ch_k_size (demo_chunk n) = 2" "ch_v_size (demo_chunk n) = 1" "chunk_size (demo_chunk n) = 3"
  "ch_k (demo_chunk n) = Live [1, 2]" "ch_v (demo_chunk n) = Live [3]"
  by (simp_all add: demo_chunk_def chunk_size_def)

lemma demo_chunk_ok [simp]: "chunk_ok (demo_chunk n)" "chunk_bounds (demo_chunk n)" "chunk_data (demo_chunk n) = Some ([1, 2], [3])"
  by (simp_all add: demo_chunk_def chunk_ok_def buf_ok_def chunk_bounds_def chunk_data_def)

lemma demo_pack: "\<exists>r. pack_record demo_env (demo_chunk n) = Some (Some r) \<and> length r = 75"
  by (simp add: pack_record_def demo_env_def demo_chunk_def)

text \<open>A memory-only store, and one over a file of zeros with the chunk \<open>n\<close> in L2.\<close>

definition demo_mem :: "nat \<Rightarrow> chunk_storage" where
  "demo_mem limit = (new_storage limit 0 5 0 [])\<lparr>cs_l3_enabled := False\<rparr>"

definition demo_disk :: "chunk_storage" where
  "demo_disk = (new_storage 100 1000 5 0 (replicate 128 0))\<lparr>cs_fd := True, cs_map := Mapped, cs_map_size := 128,
     cs_l2 := [(7, demo_chunk 7)], cs_l2_usage := 3, cs_l2_lru := lru_push_front (demo_key 7) lru_empty\<rparr>"

lemma demo_mem_inv: "limit < 2 ^ 63 \<Longrightarrow> l2_inv (demo_mem limit)" "cold (demo_mem limit)" "memory_only (demo_mem limit)"
  by (simp_all add: l2_inv_def demo_mem_def new_storage_def lru_wf_empty cold_def freq_of_def memory_only_def)

lemma demo_lru: "lru_wf (lru_push_front (demo_key n) lru_empty)" "lru_keys (lru_push_front (demo_key n) lru_empty) = [demo_key n]"
  using lo.push_new [OF lo.wf_empty, of "demo_key n"] by (simp_all add: lo.keys_empty)

lemma demo_disk_inv: "storage_inv demo_env g demo_disk" "cold demo_disk"
  by (auto simp: storage_inv_def l2_inv_def l3_inv_def demo_disk_def new_storage_def demo_lru lru_wf_empty cold_def freq_of_def)

section \<open>Keys and records\<close>

text \<open>(\<open>hash_key\<close>) Two chunk keys with the same content hash have the same 64-bit key hash exactly
  when they are the same key: the layer and the start position of a chunk never collide with each
  other, whatever their sign.\<close>

theorem hash_key_separates:
  assumes "ck_content k = ck_content l"
  shows "hash_key k = hash_key l \<longleftrightarrow> k = l"
  using hash_key_inj_content [OF assms] assms by auto

theorem hash_key_separates_witness:
  "hash_key \<lparr>ck_content = 5, ck_layer = 1, ck_start = 0\<rparr> \<noteq> hash_key \<lparr>ck_content = 5, ck_layer = 0, ck_start = 256\<rparr>"
  using hash_key_separates [of "\<lparr>ck_content = 5, ck_layer = 1, ck_start = 0\<rparr>" "\<lparr>ck_content = 5, ck_layer = 0, ck_start = 256\<rparr>"]
  by simp

text \<open>C23: (\<open>write_to_disk\<close>, \<open>read_from_disk\<close>) The record that is written for a chunk, anywhere in the
  file, is read back as the chunk: its key, sizes, access data and the bytes of both tensors, for any
  zlib that keeps its contract and sizes that fit their fields.\<close>

theorem record_roundtrip:
  assumes "zlib_ok e" "chunk_bounds c" "en_malloc e (ch_k_size c)" "en_malloc e (ch_v_size c)"
    and "pack_record e c = Some (Some r)" "length r < 2 ^ 64"
  shows "\<exists>k v. buf_read (ch_k c) (ch_k_size c) = Some k \<and> buf_read (ch_v c) (ch_v_size c) = Some v
    \<and> read_from_disk e (pre @ r @ post) (length pre) = Some (Some (c\<lparr>ch_k := Live k, ch_v := Live v\<rparr>))"
proof -
  obtain k v where kv: "chunk_data c = Some (k, v)" using pack_record_data [OF assms(5)] by blast
  with read_back [OF assms(1-4) kv assms(5,6), of pre post] show ?thesis
    by (auto simp: chunk_data_def fresh_copy_def dest!: bind_SomeD)
qed

theorem record_roundtrip_witness:
  "\<exists>r. read_from_disk demo_env ([9, 9] @ r @ [1]) (length [9 :: 8 word, 9]) = Some (Some (demo_chunk 7))"
proof -
  obtain r where r: "pack_record demo_env (demo_chunk 7) = Some (Some r)" "length r = 75" using demo_pack by blast
  have same: "(demo_chunk 7)\<lparr>ch_k := Live [1, 2], ch_v := Live [3]\<rparr> = demo_chunk 7" by (simp add: demo_chunk_def)
  have "buf_read (ch_k (demo_chunk 7)) (ch_k_size (demo_chunk 7)) = Some [1, 2]"
    "buf_read (ch_v (demo_chunk 7)) (ch_v_size (demo_chunk 7)) = Some [3]" by simp_all
  with record_roundtrip [OF demo_env_ok(1) demo_chunk_ok(2) demo_env_ok(3) demo_env_ok(3) r(1), of "[9, 9]" "[1]"] r(2) same
  show ?thesis by (intro exI [of _ r]) (simp only: option.inject, auto)
qed

text \<open>C39: (\<open>read_from_disk\<close>) A read that succeeds hands out only data whose checksum is the stored one:
  the checksum over both tensors, in order, equals the header's, and the lengths are the header's.
  Anything else (a failed decompression, another length, another checksum) is reported as a failure.\<close>

theorem read_is_checked:
  assumes "read_from_disk e f off = Some (Some c)"
  shows "\<exists>h k v. read_header f off = Some h \<and> ch_k c = Live k \<and> ch_v c = Live v
    \<and> length k = hd_k_size h \<and> length v = hd_v_size h \<and> data_checksum e k v = hd_sum h \<and> ch_key c = hd_key h"
  using assms
  by (auto simp: read_from_disk_def split: if_splits option.splits dest!: bind_SomeD)

theorem read_is_checked_witness:
  "\<exists>f c h. read_from_disk demo_env f 0 = Some (Some c) \<and> read_header f 0 = Some h \<and> ch_key c = hd_key h"
proof -
  obtain r where r: "pack_record demo_env (demo_chunk 7) = Some (Some r)" "length r = 75" using demo_pack by blast
  have read: "read_from_disk demo_env r 0 = Some (Some (fresh_copy (demo_chunk 7) [1, 2] [3]))"
    using read_back [OF demo_env_ok(1) demo_chunk_ok(2) demo_env_ok(3) demo_env_ok(3) demo_chunk_ok(3) r(1), of "[]" "[]"] r(2) by simp
  with read_is_checked [OF read] show ?thesis by blast
qed

section \<open>L2\<close>

text \<open>C11: (\<open>put\<close> then \<open>get\<close>, memory-only mode without expiration, no hot chunk) While no cached chunk has been
  accessed more often than the second-chance threshold (\<open>cold\<close>; with hot chunks the eviction passes them over, and a
  single hot one makes it undefined, see \<open>evict_single_hot_undefined\<close>), putting a new chunk that fits the L2 limit
  succeeds. It keeps the most recently used chunks, as many as fit beside the new one, untouched and
  in order; the byte count stays exact and within the limit; and \<open>get\<close> then returns the chunk with
  the bytes that were put.\<close>

theorem put_then_get:
  assumes "l2_inv cs" "cold cs" "memory_only cs" "cs_ttl cs = 0" "chunk_ok c" "chunk_size c \<le> cs_l2_limit cs"
    and "om_find (cs_l2 cs) (hash_key (ch_key c)) = None" "unat (ck_layer (ch_key c)) < 128"
    and "alloc_ok e (ch_k_size c)" "alloc_ok e (ch_v_size c)"
  defines "keys \<equiv> lru_keys (cs_l2_lru cs)"
  shows "\<exists>m cs' d cs''. storage_put e c cs = Some (True, cs') \<and> l2_inv cs'
    \<and> lru_keys (cs_l2_lru cs') = ch_key c # take m keys
    \<and> (m < length keys \<longrightarrow> cs_l2_usage cs' + chunk_size (the (om_find (cs_l2 cs) (hash_key (keys ! m)))) > cs_l2_limit cs)
    \<and> (\<forall>k \<in> set (take m keys). om_find (cs_l2 cs') (hash_key k) = om_find (cs_l2 cs) (hash_key k))
    \<and> storage_get e (ch_key c) cs' = Some (Some d, cs'') \<and> chunk_data d = chunk_data c \<and> ch_key d = ch_key c \<and> l2_inv cs''"
proof -
  obtain m cs' d0 where p: "storage_put e c cs = Some (True, cs')" "l2_inv cs'"
    "lru_keys (cs_l2_lru cs') = ch_key c # take m keys"
    "m < length keys \<longrightarrow> cs_l2_usage cs' + key_size cs (keys ! m) > cs_l2_limit cs"
    "\<forall>k \<in> set (take m keys). om_find (cs_l2 cs') (hash_key k) = om_find (cs_l2 cs) (hash_key k)"
    "om_find (cs_l2 cs') (hash_key (ch_key c)) = Some d0" "same_chunk c d0"
    using put_new [OF assms(1-10)] unfolding keys_def by blast
  obtain d cs'' where g: "storage_get e (ch_key c) cs' = Some (Some d, cs'')" "same_chunk d0 d" "l2_inv cs''"
    using get_from_l2 [OF p(2,6), of e] by blast
  show ?thesis
    using p g unfolding key_size_def
    by (intro exI [of _ m] exI [of _ cs'] exI [of _ d] exI [of _ cs'']) (simp add: same_chunk_def)
qed

theorem put_then_get_witness:
  "\<exists>cs' d cs''. storage_put demo_env (demo_chunk 7) (demo_mem 10) = Some (True, cs')
    \<and> storage_get demo_env (demo_key 7) cs' = Some (Some d, cs'') \<and> chunk_data d = Some ([1, 2], [3])"
proof -
  have e: "cs_ttl (demo_mem 10) = 0" "chunk_size (demo_chunk 7) \<le> cs_l2_limit (demo_mem 10)"
    "om_find (cs_l2 (demo_mem 10)) (hash_key (ch_key (demo_chunk 7))) = None" "unat (ck_layer (ch_key (demo_chunk 7))) < 128"
    "alloc_ok demo_env n" for n
    by (simp_all add: demo_mem_def new_storage_def alloc_ok_def demo_env_ok, simp add: demo_key_def)
  have "l2_inv (demo_mem 10)" by (rule demo_mem_inv) simp
  from put_then_get [OF this demo_mem_inv(2,3) e(1) demo_chunk_ok(1) e(2-5,5)] show ?thesis by auto
qed

text \<open>(\<open>evict_one_l2_to_l3\<close>, second chance) With two chunks or more, the victim is the least recently used
  one whose frequency is not above the threshold, among the 8 that are scanned: the hot chunks
  behind it are kept, in order, at the front of the list, with their chunks unchanged.\<close>

theorem second_chance_victim:
  assumes "l2_inv cs" "memory_only cs" "om_wf (cs_freq cs)" "lru_keys (cs_l2_lru cs) = older @ v # hot" "2 \<le> length (older @ v # hot)"
    and "\<forall>k \<in> set hot. freq_of (cs_freq cs) (hash_key k) > cs_threshold cs" "freq_of (cs_freq cs) (hash_key v) \<le> cs_threshold cs"
    and "length hot < 8"
  shows "\<exists>n cs'. evict_one_l2_to_l3 e cs = Some (n, cs') \<and> l2_inv cs' \<and> lru_keys (cs_l2_lru cs') = hot @ older
    \<and> om_find (cs_l2 cs') (hash_key v) = None \<and> cs_l2_usage cs' + n = cs_l2_usage cs
    \<and> (\<forall>k \<in> set (hot @ older). om_find (cs_l2 cs') (hash_key k) = om_find (cs_l2 cs) (hash_key k))"
proof -
  note inv = l2_invD [OF assms(1)]
  let ?keys = "lru_keys (cs_l2_lru cs)" and ?f = "freq_of (cs_freq cs)" and ?h = "hash_key v"
  have size: "lru_size (cs_l2_lru cs) = length ?keys" "2 \<le> lru_size (cs_l2_lru cs)" using assms(4,5) by (simp_all add: lru_size_keys)
  have ne: "lr_nodes (cs_l2_lru cs) \<noteq> []" using size(2) by (auto simp: lru_size_def)
  have dist: "distinct (map hash_key ?keys)" using inv(2) by (simp add: lru_wf_def)
  obtain l freq saves where scan: "scan_lru (cs_threshold cs) (cs_l2_lru cs) (cs_freq cs) (cs_saves cs) = Some (lru_tail l, l, freq, saves)"
    "lru_wf l" "(lru_keys l, freq_of freq) = scan_spec (cs_threshold cs) (min (lru_size (cs_l2_lru cs)) 8) ?keys ?f"
    using scan_lru_spec [OF inv(2) size(2) assms(3)] by blast
  have "fst (scan_spec (cs_threshold cs) (min (lru_size (cs_l2_lru cs)) 8) ((older @ [v]) @ hot) ?f) = hot @ (older @ [v])"
    by (rule scan_spec_rotates) (use dist assms(4,6-8) size in auto)
  then have keys: "lru_keys l = (hot @ older) @ [v]" using scan(3) assms(4) by (metis append.assoc append_Cons append_Nil fst_conv)
  define cs0 where "cs0 = cs\<lparr>cs_l2_lru := l, cs_freq := freq, cs_saves := saves\<rparr>"
  have same: "hashes (lru_keys l) = hashes ?keys" by (auto simp: keys assms(4))
  have inv0: "l2_inv cs0" using assms(1) scan(2) same by (simp add: l2_inv_def cs0_def)
  obtain c l' where c: "om_find (cs_l2 cs0) ?h = Some c" "lru_wf l'" "lru_keys l' = hot @ older"
    and ev: "\<And>off cs1. write_to_disk e c cs0 = Some (off, cs1) \<Longrightarrow> same_l2 cs0 cs1 \<Longrightarrow>
      evict_one_l2_to_l3 e cs = Some (chunk_size c, drop_l2 ?h (chunk_size c) l'
          (case off of None \<Rightarrow> cs1 | Some off \<Rightarrow> add_to_l3 v ?h off (chunk_size c) cs1))"
    using evict_tail [of cs0 cs "hot @ older" v e] inv0 scan(1) ne keys by (auto simp: cs0_def)
  have "write_to_disk e c cs0 = Some (None, cs0)" using assms(2) by (simp add: write_to_disk_def memory_only_def cs0_def)
  from ev [OF this] have run: "evict_one_l2_to_l3 e cs = Some (chunk_size c, drop_l2 ?h (chunk_size c) l' cs0)"
    by (simp add: same_l2_def)
  have "distinct (map hash_key (lru_keys l))" using scan(2) by (simp add: lru_wf_def)
  then have new: "?h \<notin> hashes (hot @ older)" by (auto simp: keys hashes_def)
  have "l2_inv (drop_l2 ?h (chunk_size c) l' cs0)"
    using c new by (intro drop_l2_inv [OF inv0]) (auto simp: same_l2_def cs0_def keys)
  moreover have "om_find (om_erase ?h (cs_l2 cs)) (hash_key k) = om_find (cs_l2 cs) (hash_key k)" if "k \<in> set (hot @ older)" for k
  proof -
    have "hash_key k \<in> hashes (hot @ older)" using that by (simp only: hashes_def image_eqI)
    with new have "hash_key k \<noteq> ?h" by metis
    with inv(1) show ?thesis by simp
  qed
  moreover have "chunk_size c \<le> cs_l2_usage cs" using om_sum_ge [of "cs_l2 cs" ?h c chunk_size] c(1) by (simp add: inv(6) cs0_def)
  ultimately show ?thesis using run c(3) inv(1)
    by (intro exI [of _ "chunk_size c"] exI [of _ "drop_l2 ?h (chunk_size c) l' cs0"]) (simp add: drop_l2_def cs0_def)
qed

text \<open>Two chunks of which the older one is hot.\<close>

definition demo_two :: chunk_storage where
  "demo_two = (demo_mem 10)\<lparr>cs_l2 := [(7, demo_chunk 7), (8, demo_chunk 8)], cs_l2_usage := 6,
     cs_l2_lru := lru_push_front (demo_key 8) (lru_push_front (demo_key 7) lru_empty), cs_freq := [(7, 6)]\<rparr>"

lemma demo_two_lru:
  "lru_wf (cs_l2_lru demo_two)" "lru_keys (cs_l2_lru demo_two) = [demo_key 8, demo_key 7]"
  using lo.push_new [OF demo_lru(1) [of 7], of "demo_key 8"] by (simp_all add: demo_two_def demo_lru)

lemma demo_two_inv: "l2_inv demo_two" "memory_only demo_two"
  by (auto simp: l2_inv_def demo_two_lru)
    (auto simp: demo_two_def demo_mem_def new_storage_def memory_only_def split: if_splits)

theorem second_chance_victim_witness:
  "\<exists>n cs'. evict_one_l2_to_l3 demo_env demo_two = Some (n, cs') \<and> lru_keys (cs_l2_lru cs') = [demo_key 7]"
proof -
  have k: "lru_keys (cs_l2_lru demo_two) = [] @ demo_key 8 # [demo_key 7]" by (simp add: demo_two_lru)
  have f: "om_wf (cs_freq demo_two)" "\<forall>k \<in> set [demo_key 7]. freq_of (cs_freq demo_two) (hash_key k) > cs_threshold demo_two"
    "freq_of (cs_freq demo_two) (hash_key (demo_key 8)) \<le> cs_threshold demo_two"
    by (simp_all add: demo_two_def demo_mem_def new_storage_def freq_of_def)
  have l: "2 \<le> length ([] @ demo_key 8 # [demo_key 7])" "length [demo_key 7] < 8" by simp_all
  from second_chance_victim [OF demo_two_inv f(1) k l(1) f(2,3) l(2), of demo_env] show ?thesis by auto
qed

text \<open>(\<open>evict_one_l2_to_l3\<close>, a defect) When L2 holds a single chunk and that chunk is hot, evicting it
  dereferences the list iterator the scan has just erased: the eviction has undefined behaviour, and
  with it every \<open>put\<close> that needs the room.\<close>

theorem evict_single_hot_undefined:
  assumes "l2_inv cs" "lru_keys (cs_l2_lru cs) = [key]" "freq_of (cs_freq cs) (hash_key key) > cs_threshold cs"
  shows "evict_one_l2_to_l3 e cs = None
    \<and> (\<forall>n. u64 (cs_l2_usage cs + n) > cs_l2_limit cs \<longrightarrow> make_l2_room (l2_fuel cs) e n cs = None)"
proof -
  note inv = l2_invD [OF assms(1)]
  have ne: "lr_nodes (cs_l2_lru cs) \<noteq> []" using assms(2) by (auto simp: lru_keys_def)
  have "cs_l2 cs \<noteq> []" using inv(3) assms(2) by auto
  moreover have "evict_one_l2_to_l3 e cs = None"
    using scan_single_hot [OF inv(2) assms(2,3), of "cs_saves cs"] ne
    by (auto simp: evict_one_l2_to_l3_def evict_l2_victim_def)
  ultimately show ?thesis by (simp add: l2_fuel_def)
qed

theorem evict_single_hot_undefined_witness:
  "evict_one_l2_to_l3 demo_env (demo_disk\<lparr>cs_freq := [(7, 6)]\<rparr>) = None"
proof -
  have "l2_inv demo_disk" using demo_disk_inv(1) unfolding storage_inv_def by blast
  then have "l2_inv (demo_disk\<lparr>cs_freq := [(7, 6)]\<rparr>)" by (simp add: l2_inv_def)
  moreover have "lru_keys (cs_l2_lru (demo_disk\<lparr>cs_freq := [(7, 6)]\<rparr>)) = [demo_key 7]"
    "freq_of (cs_freq (demo_disk\<lparr>cs_freq := [(7, 6)]\<rparr>)) (hash_key (demo_key 7)) > cs_threshold (demo_disk\<lparr>cs_freq := [(7, 6)]\<rparr>)"
    by (simp_all add: demo_disk_def demo_lru freq_of_def new_storage_def)
  ultimately show ?thesis using evict_single_hot_undefined by blast
qed

section \<open>L3\<close>

text \<open>C22: (\<open>evict_one_l2_to_l3\<close> then \<open>get\<close>) A chunk evicted from L2 to the cache file is not lost: with room on
  disk and working system calls it is removed from L2, indexed in L3, and the next \<open>get\<close> moves it back
  to L2 with its key and the bytes of both tensors. Both tiers stay consistent, and every other record
  stays readable.\<close>

theorem evict_then_get:
  assumes "zlib_ok e" "io_ok e" "storage_inv e g cs" "cold cs" "lru_keys (cs_l2_lru cs) = ks @ [key]"
    and "om_find (cs_l2 cs) (hash_key key) = Some c" "l3_room e c r cs"
    and "chunk_bounds c" "en_malloc e (ch_k_size c)" "en_malloc e (ch_v_size c)"
  shows "\<exists>g' cs1 c' cs2. evict_one_l2_to_l3 e cs = Some (chunk_size c, cs1) \<and> storage_inv e g' cs1
    \<and> lru_keys (cs_l2_lru cs1) = ks \<and> om_find (cs_l2 cs1) (hash_key key) = None \<and> om_find (cs_l3 cs1) (hash_key key) \<noteq> None
    \<and> storage_get e key cs1 = Some (Some c', cs2) \<and> storage_inv e g' cs2 \<and> om_find (cs_l2 cs2) (hash_key key) = Some c'
    \<and> chunk_data c' = chunk_data c \<and> ch_key c' = ch_key c"
proof -
  let ?g = "g(cs_next cs := c)"
  obtain cs1 where ev: "evict_one_l2_to_l3 e cs = Some (chunk_size c, cs1)" "storage_inv e ?g cs1"
    "om_find (cs_l3 cs1) (hash_key key) = Some (cs_next cs)" "om_find (cs_l2 cs1) (hash_key key) = None"
    "lru_keys (cs_l2_lru cs1) = ks" "cs_l2_limit cs1 = cs_l2_limit cs" "cs_l2_usage cs1 + chunk_size c = cs_l2_usage cs"
    using evict_to_disk [OF assms(3,2,4-10)] by blast
  have "cs_l2_usage cs \<le> cs_l2_limit cs" using assms(3) by (simp add: storage_inv_def l2_inv_def)
  then have "cs_l2_usage cs1 + chunk_size (?g (cs_next cs)) \<le> cs_l2_limit cs1" using ev(6,7) by simp
  from get_from_disk [OF ev(2) assms(1) ev(3) this] obtain c' cs2 where
    "storage_get e key cs1 = Some (Some c', cs2)" "same_chunk c c'" "storage_inv e ?g cs2" "om_find (cs_l2 cs2) (hash_key key) = Some c'"
    unfolding fun_upd_same by blast
  with ev show ?thesis
    by (intro exI [of _ ?g] exI [of _ cs1] exI [of _ c'] exI [of _ cs2]) (simp add: same_chunk_def)
qed

theorem evict_then_get_witness:
  "\<exists>cs1 c' cs2. evict_one_l2_to_l3 demo_env demo_disk = Some (3, cs1) \<and> storage_get demo_env (demo_key 7) cs1 = Some (Some c', cs2)
    \<and> chunk_data c' = Some ([1, 2], [3])"
proof -
  obtain r where r: "pack_record demo_env (demo_chunk 7) = Some (Some r)" "length r = 75" using demo_pack by blast
  have room: "l3_room demo_env (demo_chunk 7) r demo_disk"
    using r by (simp add: l3_room_def demo_disk_def new_storage_def)
  have k: "lru_keys (cs_l2_lru demo_disk) = [] @ [demo_key 7]" "om_find (cs_l2 demo_disk) (hash_key (demo_key 7)) = Some (demo_chunk 7)"
    by (simp_all add: demo_disk_def demo_lru)
  from evict_then_get [OF demo_env_ok(1,2) demo_disk_inv k room demo_chunk_ok(2) demo_env_ok(3) demo_env_ok(3)]
  show ?thesis by auto
qed

text \<open>(\<open>ensure_disk_space\<close>, a defect) When the record does not fit below the L3 limit, although the
  byte counts do, \<open>ensure_disk_space\<close> caps the new size at the limit and still answers true; the write
  then runs past the end of the mapping.\<close>

theorem write_past_mapping:
  assumes "io_ok e" "l3_inv e g cs" "pack_record e c = Some (Some r)" "cs_l3_usage cs + chunk_size c \<le> cs_l3_limit cs"
    and "cs_next cs \<le> u64 (cs_l3_limit cs * 9) div 10" "cs_map_size cs < cs_l3_limit cs" "cs_l3_limit cs < cs_next cs + length r" "length r < 2 ^ 62"
  shows "fst (ensure_disk_space e (cs_next cs + length r) cs)
    \<and> cs_map_size (snd (ensure_disk_space e (cs_next cs + length r) cs)) = cs_l3_limit cs
    \<and> write_to_disk e c cs = None"
proof -
  note inv = l3_invD [OF assms(2)]
  let ?req = "cs_next cs + length r" and ?f = "truncate_file (cs_l3_limit cs) (cs_file cs)"
  have b: "cs_map_size cs < 4611686018427387904" "cs_l3_limit cs < 4611686018427387904" "length r < 4611686018427387904"
    using inv(7,13) assms(8) by simp_all
  have wrap: "u64 ?req = ?req" "u64 (cs_l3_usage cs + chunk_size c) = cs_l3_usage cs + chunk_size c"
    using b inv(6) assms(4) by (simp_all add: u64_def)
  have ens: "ensure_disk_space e ?req cs = (True, cs\<lparr>cs_file := ?f, cs_map_size := cs_l3_limit cs\<rparr>)"
    using assms(1,6,7) inv(2,3,5) by (simp add: ensure_disk_space_def Let_def io_ok_def mmap_ok_def)
  have "make_l3_room (lru_size (cs_l3_lru cs) + 1) e (chunk_size c) cs = Some cs" using assms(4) wrap(2) by simp
  then have "write_to_disk e c cs = None"
    using assms(3-5,7) wrap inv(1) by (simp add: write_to_disk_def ens write_bytes_def cs_view_def inv(2) check_def)
  with ens show ?thesis by simp
qed

theorem write_past_mapping_witness:
  "write_to_disk demo_env (demo_chunk 9) (demo_disk\<lparr>cs_l3_limit := 70, cs_map_size := 60, cs_file := replicate 60 0\<rparr>) = None"
proof -
  let ?cs = "demo_disk\<lparr>cs_l3_limit := 70, cs_map_size := 60, cs_file := replicate 60 0\<rparr>"
  obtain r where r: "pack_record demo_env (demo_chunk 9) = Some (Some r)" "length r = 75" using demo_pack by blast
  have inv: "l3_inv demo_env g ?cs" for g by (simp add: l3_inv_def demo_disk_def new_storage_def lru_wf_empty)
  show ?thesis
    using write_past_mapping [OF demo_env_ok(2) inv r(1)] r(2) by (simp add: demo_disk_def new_storage_def)
qed

text \<open>C12: (\<open>load_cache_from_disk\<close>) Opening a cache file that holds the records of chunks with distinct keys,
  followed by zeros, ends and rebuilds the L3 index completely: every chunk is found at its record and
  read back with its bytes, the LRU list has the order of the file, the byte count is exact, and new
  records are appended behind the last one.\<close>

theorem load_recovers:
  assumes "zlib_ok e" "l3_inv e g cs" "cs_l3 cs = []" "cs_next cs = 0"
    and "cs_file cs = concat (map (rec_of e) recs) @ replicate z 0" "\<forall>c \<in> set recs. storable e c"
    and "distinct (map (hash_key \<circ> ch_key) recs)" "sum_list (map chunk_size recs) \<le> cs_l3_limit cs"
  shows "\<exists>cs' g'. load_cache_from_disk cs = Some cs' \<and> l3_inv e g' cs'
    \<and> lru_keys (cs_l3_lru cs') = map ch_key recs \<and> cs_l3_usage cs' = sum_list (map chunk_size recs)
    \<and> cs_next cs' = length (concat (map (rec_of e) recs))
    \<and> (\<forall>c \<in> set recs. \<exists>off c'. om_find (cs_l3 cs') (hash_key (ch_key c)) = Some off
        \<and> storage_read e off cs' = Some (Some c') \<and> ch_key c' = ch_key c \<and> chunk_data c' = chunk_data c)"
proof -
  note inv = l3_invD [OF assms(2)]
  have k0: "lru_keys (cs_l3_lru cs) = []"
    using inv(10) assms(3) by (cases "lru_keys (cs_l3_lru cs)") auto
  have u0: "cs_l3_usage cs = 0" using inv(11) assms(3) by simp
  have "length recs \<le> length (concat (map (rec_of e) recs))" using assms(6)
    by (induction recs) (use storable_record(2) in fastforce)+
  then have fuel: "length recs < load_fuel cs" using inv(4) assms(5) by (simp add: load_fuel_def)
  let ?n = "length (concat (map (rec_of e) recs))"
  have inv0: "l3_inv e g (cs\<lparr>cs_next := length ([] :: bytes)\<rparr>)"
    by (rule l3_inv_part [OF _ assms(2)]) (simp add: l3_part_def assms(4))
  obtain cs1 g' where L: "load_loop (load_fuel cs) 0 cs = Some (?n, cs1)" "l3_inv e g' (cs1\<lparr>cs_next := ?n\<rparr>)"
    "lru_keys (cs_l3_lru cs1) = map ch_key recs" "cs_l3_usage cs1 = sum_list (map chunk_size recs)"
    "\<forall>c \<in> set recs. \<exists>p. om_find (cs_l3 cs1) (hash_key (ch_key c)) = Some p \<and> g' p = c"
    using load_loop_records [OF inv0, of recs z "load_fuel cs"] assms(3,5-8) k0 u0 fuel by auto
  let ?cs = "cs1\<lparr>cs_next := ?n\<rparr>"
  have "\<exists>off c'. om_find (cs_l3 ?cs) (hash_key (ch_key c)) = Some off
        \<and> storage_read e off ?cs = Some (Some c') \<and> ch_key c' = ch_key c \<and> chunk_data c' = chunk_data c"
    if c: "c \<in> set recs" for c
  proof -
    obtain p where p: "om_find (cs_l3 ?cs) (hash_key (ch_key c)) = Some p" "g' p = c" using L(5) c by auto
    note inv1 = l3_invD [OF L(2)]
    have st: "stored e (cs_file ?cs) (cs_next ?cs) p c" using inv1(14) [OF p(1)] p(2) by simp
    obtain k v where kv: "chunk_data c = Some (k, v)" "read_from_disk e (cs_file ?cs) p = Some (Some (fresh_copy c k v))"
      using stored_read(1) [OF assms(1) st] by blast
    have "p < cs_map_size ?cs" using stored_read(2) [OF assms(1) st] inv1(6) by simp
    then have "storage_read e p ?cs = Some (Some (fresh_copy c k v))"
      using inv1(2,4) kv(2) by (simp add: storage_read_def cs_view_def)
    with p(1) fresh_copy_same [OF kv(1)] show ?thesis by (auto simp: same_chunk_def)
  qed
  with L show ?thesis by (intro exI [of _ ?cs] exI [of _ g']) (simp add: load_cache_from_disk_def)
qed

theorem load_recovers_witness:
  "\<exists>cs cs' off c'. load_cache_from_disk cs = Some cs' \<and> om_find (cs_l3 cs') 8 = Some off
    \<and> storage_read demo_env off cs' = Some (Some c') \<and> chunk_data c' = Some ([1, 2], [3])"
proof -
  let ?recs = "[demo_chunk 7, demo_chunk 8]"
  have st: "storable demo_env (demo_chunk n) \<and> length (rec_of demo_env (demo_chunk n)) = 75" for n
    using demo_pack [of n] by (auto simp: storable_def rec_of_def demo_env_ok)
  let ?cs = "demo_disk\<lparr>cs_file := concat (map (rec_of demo_env) ?recs) @ replicate 100 0, cs_map_size := 250\<rparr>"
  have inv: "l3_inv demo_env g ?cs" for g
    using st by (simp add: l3_inv_def demo_disk_def new_storage_def lru_wf_empty)
  have "cs_l3 ?cs = []" "cs_next ?cs = 0" "cs_file ?cs = concat (map (rec_of demo_env) ?recs) @ replicate 100 0"
    "\<forall>c \<in> set ?recs. storable demo_env c" "distinct (map (hash_key \<circ> ch_key) ?recs)" "sum_list (map chunk_size ?recs) \<le> cs_l3_limit ?cs"
    using st by (simp_all add: demo_disk_def new_storage_def)
  from load_recovers [OF demo_env_ok(1) inv this] obtain cs' where
    "load_cache_from_disk ?cs = Some cs'" "\<forall>c \<in> set ?recs. \<exists>off c'. om_find (cs_l3 cs') (hash_key (ch_key c)) = Some off
        \<and> storage_read demo_env off cs' = Some (Some c') \<and> ch_key c' = ch_key c \<and> chunk_data c' = chunk_data c" by blast
  then show ?thesis by (intro exI [of _ ?cs] exI [of _ cs']) auto
qed

section \<open>Prefix matching\<close>

text \<open>C13: (\<open>find_prefix_match\<close>) Without external chunk hashes, the match is the longest prefix of whole
  256-token chunks each of which is cached, in L2 or L3, for every layer of the model, and no match
  when the first chunk is not. The chunk index only speeds the search up, as long as its bitmaps with
  enough bits cover the model's layers.\<close>

theorem prefix_match_longest:
  fixes xxh :: xxh64
  assumes "THUNDER_CHUNK_SIZE \<le> length tokens" "index_ok n_layers cs"
  defines "n \<equiv> length (takeWhile (has_chunk xxh tokens n_layers cs) [0..<length tokens div THUNDER_CHUNK_SIZE])"
  shows "find_prefix_match xxh sh tokens (int n_layers) None None cs
    = Some (if 0 < n then \<lparr>pm_tokens = n * THUNDER_CHUNK_SIZE, pm_layers = int n_layers, pm_found = True\<rparr> else no_match)"
proof -
  have "length tokens div THUNDER_CHUNK_SIZE * THUNDER_CHUNK_SIZE \<le> length tokens" by simp
  from match_prefixes_spec [OF this assms(2), of xxh] assms(1) show ?thesis
    by (simp add: find_prefix_match_def contextpilot_match_def n_def)
qed

theorem prefix_match_longest_witness:
  "find_prefix_match (en_xxh demo_env) (\<lambda>s. 0) (replicate 300 5) 2 None None (demo_mem 10) = Some no_match"
proof -
  have "takeWhile (has_chunk (en_xxh demo_env) (replicate 300 5) 2 (demo_mem 10)) [0..<1] = []"
    by (auto simp: has_chunk_def cached_def demo_mem_def new_storage_def intro!: exI [of _ 0])
  then show ?thesis
    using prefix_match_longest [of "replicate 300 5" 2 "demo_mem 10" "en_xxh demo_env" "\<lambda>s. 0"]
    by (simp add: THUNDER_CHUNK_SIZE_def index_ok_def demo_mem_def new_storage_def)
qed

text \<open>C40: (\<open>make_key\<close>, \<open>find_prefix_match\<close>, a defect) A chunk's key depends on its own 256 tokens and its
  position, not on the tokens before it. After the prompts \<open>a @ b\<close> and \<open>a' @ b'\<close> have been cached, the prompt
  \<open>a @ b'\<close>, which never ran, is reported as fully cached: the K and V of \<open>b'\<close> that will be used were
  computed with \<open>a'\<close> before them.\<close>

theorem prefix_match_mixes_prompts:
  assumes "length a = THUNDER_CHUNK_SIZE" "length b = THUNDER_CHUNK_SIZE" "length a' = THUNDER_CHUNK_SIZE" "length b' = THUNDER_CHUNK_SIZE"
    and "\<forall>c < 2. has_chunk xxh (a @ b) n_layers cs c" "\<forall>c < 2. has_chunk xxh (a' @ b') n_layers cs c" "index_ok n_layers cs"
  shows "find_prefix_match xxh sh (a @ b') (int n_layers) None None cs
    = Some \<lparr>pm_tokens = 2 * THUNDER_CHUNK_SIZE, pm_layers = int n_layers, pm_found = True\<rparr>"
proof -
  have "chunk_key_at xxh (a @ b') 0 il = chunk_key_at xxh (a @ b) 0 il"
    "chunk_key_at xxh (a @ b') 1 il = chunk_key_at xxh (a' @ b') 1 il" for il
    using chunk_key_at_append [of "[]" 0 a xxh _ il] chunk_key_at_append [of _ 1 b' xxh "[]" il] assms(1-4) by simp_all
  then have h: "has_chunk xxh (a @ b') n_layers cs 0" "has_chunk xxh (a @ b') n_layers cs 1"
    using assms(5,6) by (auto simp: has_chunk_def all_lt_2)
  have len: "length (a @ b') = 2 * THUNDER_CHUNK_SIZE" using assms(1,4) by simp
  then have "match_prefixes xxh (a @ b') n_layers cs 2 = Some (length (takeWhile (has_chunk xxh (a @ b') n_layers cs) [0..<2]))"
    by (intro match_prefixes_spec assms(7)) simp
  moreover have "[0..<2] = [0, 1 :: nat]" by (simp add: upt_rec)
  ultimately have "match_prefixes xxh (a @ b') n_layers cs 2 = Some 2" using h by simp
  with len show ?thesis
    by (simp add: find_prefix_match_def contextpilot_match_def THUNDER_CHUNK_SIZE_def)
qed

theorem prefix_match_mixes_prompts_witness:
  "\<exists>cs. find_prefix_match (en_xxh demo_env) (\<lambda>s. 0) (replicate 256 1 @ replicate 256 4) 1 None None cs
      = Some \<lparr>pm_tokens = 512, pm_layers = 1, pm_found = True\<rparr>"
proof -
  have main: "\<exists>cs. find_prefix_match x (\<lambda>s. 0) (a @ b') (int 1) None None cs
      = Some \<lparr>pm_tokens = 2 * THUNDER_CHUNK_SIZE, pm_layers = int 1, pm_found = True\<rparr>"
    if len: "length a = THUNDER_CHUNK_SIZE" "length b = THUNDER_CHUNK_SIZE" "length a' = THUNDER_CHUNK_SIZE" "length b' = THUNDER_CHUNK_SIZE"
    for x and a b a' b' :: "32 word list"
  proof -
    let ?h = "\<lambda>t c. hash_key (chunk_key_at x t c 0)"
    let ?l3 = "[(?h (a @ b) 0, 0), (?h (a @ b) 1, 0), (?h (a' @ b') 0, 0), (?h (a' @ b') 1, 0)]"
    let ?cs = "(demo_mem 10)\<lparr>cs_l3 := ?l3\<rparr>"
    have l3: "om_find (cs_l3 ?cs) h \<noteq> None" if "h \<in> {?h (a @ b) 0, ?h (a @ b) 1, ?h (a' @ b') 0, ?h (a' @ b') 1}" for h
      using that by (simp add: map_of_eq_None_iff del: map_of.simps)
    have c: "\<forall>c < 2. has_chunk x (a @ b) 1 ?cs c" "\<forall>c < 2. has_chunk x (a' @ b') 1 ?cs c"
      unfolding all_lt_2 has_chunk_def cached_def less_one using l3 by blast+
    have ix: "index_ok 1 ?cs" by (simp add: index_ok_def demo_mem_def new_storage_def)
    show ?thesis by (rule exI, rule prefix_match_mixes_prompts [OF len c ix])
  qed
  have "length (replicate 256 n) = THUNDER_CHUNK_SIZE" for n :: "32 word"
    by (simp only: length_replicate THUNDER_CHUNK_SIZE_def)
  note prompts = main [OF this this this this, of "en_xxh demo_env" 1 4]
  have "2 * THUNDER_CHUNK_SIZE = 512" by (simp add: THUNDER_CHUNK_SIZE_def)
  with prompts show ?thesis by (simp only: of_nat_1)
qed

end
