(* ===== verification/Utf8.thy ===== *)
theory Utf8
  imports Tl_Prelude "HOL-Library.Word"
begin

unbundle bit_operations_syntax

text \<open>
  UTF-8 helpers of the samplers and parsers (src/common/unicode.cpp, src/common/unicode.h): the
  parse of one code point out of a possibly truncated text, the encoder, and the test that a text
  ends with a complete sequence.

  A byte is a \<open>nat\<close> below 256, a \<^verbatim>\<open>uint32_t\<close> code point a \<open>nat\<close>; the masks and shifts are the bit
  operations of the code.
\<close>

type_synonym byte = nat

named_theorems utf8_arith \<open>masks and shifts as arithmetic\<close>

lemma and_masks [utf8_arith]:
  "(x::nat) AND 1 = x mod 2" "(x::nat) AND 3 = x mod 4" "(x::nat) AND 7 = x mod 8" "(x::nat) AND 15 = x mod 16" "(x::nat) AND 31 = x mod 32"
  "(x::nat) AND 63 = x mod 64" "(x::nat) AND 127 = x mod 128"
  using take_bit_eq_mask [of 1 x] take_bit_eq_mask [of 2 x] take_bit_eq_mask [of 3 x] take_bit_eq_mask [of 4 x] take_bit_eq_mask [of 5 x]
    take_bit_eq_mask [of 6 x] take_bit_eq_mask [of 7 x]
  by (simp_all add: mask_eq_exp_minus_1 take_bit_eq_mod)

lemma and_high: "(x::nat) AND push_bit n (mask m) = push_bit n (take_bit m (drop_bit n x))"
  by (rule bit_eqI) (auto simp: bit_simps)

lemma and_high_arith: "(x::nat) AND ((2 ^ m - 1) * 2 ^ n) = x div 2 ^ n mod 2 ^ m * 2 ^ n"
  using and_high [of x n m] unfolding mask_eq_exp_minus_1 take_bit_eq_mod drop_bit_eq_div push_bit_eq_mult .

lemma and_high_masks [utf8_arith]:
  "(x::nat) AND 8 = x div 8 mod 2 * 8" "(x::nat) AND 16 = x div 16 mod 2 * 16"
  "(x::nat) AND 32 = x div 32 mod 2 * 32" "(x::nat) AND 64 = x div 64 mod 2 * 64"
  "(x::nat) AND 128 = x div 128 mod 2 * 128" "(x::nat) AND 192 = x div 64 mod 4 * 64"
  subgoal using and_high_arith [of x 1 3] by simp
  subgoal using and_high_arith [of x 1 4] by simp
  subgoal using and_high_arith [of x 1 5] by simp
  subgoal using and_high_arith [of x 1 6] by simp
  subgoal using and_high_arith [of x 1 7] by simp
  subgoal using and_high_arith [of x 2 6] by simp
  done

lemma or_plus:
  assumes "(x::nat) < 2 ^ n"
  shows "push_bit n y OR x = push_bit n y + x"
proof -
  from assms have "take_bit n x = x" by (simp add: take_bit_nat_eq_self)
  then have "k < n" if "bit x k" for k using that by (metis bit_take_bit_iff)
  then have "push_bit n y AND x = 0" by (intro bit_eqI) (auto simp: bit_simps dest: leD)
  then show ?thesis by (simp add: disjunctive_add_eq_or)
qed

lemma or_marks [utf8_arith]:
  "(x::nat) < 64 \<Longrightarrow> 128 OR x = 128 + x" "(x::nat) < 32 \<Longrightarrow> 192 OR x = 192 + x"
  "(x::nat) < 16 \<Longrightarrow> 224 OR x = 224 + x" "(x::nat) < 8 \<Longrightarrow> 240 OR x = 240 + x"
  using or_plus [of x 6 2] or_plus [of x 5 6] or_plus [of x 4 14] or_plus [of x 3 30]
  by (simp_all add: push_bit_eq_mult)

lemma or_shifts [utf8_arith]:
  "(x::nat) < 64 \<Longrightarrow> push_bit 6 y OR x = y * 64 + x"
  "(x::nat) < 4096 \<Longrightarrow> push_bit 12 y OR x = y * 4096 + x"
  "(x::nat) < 262144 \<Longrightarrow> push_bit 18 y OR x = y * 262144 + x"
  using or_plus [of x 6 y] or_plus [of x 12 y] or_plus [of x 18 y]
  by (simp_all add: push_bit_eq_mult)

section \<open>Parsing and encoding\<close>

datatype utf8_status = SUCCESS | INCOMPLETE | INVALID

record utf8_parse_result =
  codepoint :: nat
  bytes_consumed :: nat
  status :: utf8_status

definition utf8_parse_result :: "utf8_status \<Rightarrow> nat \<Rightarrow> nat \<Rightarrow> utf8_parse_result" where
  "utf8_parse_result s cp n = \<lparr>codepoint = cp, bytes_consumed = n, status = s\<rparr>"

definition common_utf8_sequence_length :: "byte \<Rightarrow> nat" where
  "common_utf8_sequence_length first_byte =
     [1, 1, 1, 1, 1, 1, 1, 1, 1, 1, 1, 1, 2, 2, 3, 4] ! drop_bit 4 (first_byte mod 256)"

text \<open>\<open>cont\<close> is the test of a continuation byte that the parser repeats.\<close>

definition cont :: "byte \<Rightarrow> bool" where
  "cont b \<longleftrightarrow> b AND 0xC0 = 0x80"

definition common_parse_utf8_codepoint :: "byte list \<Rightarrow> nat \<Rightarrow> utf8_parse_result" where
  "common_parse_utf8_codepoint inp offset =
     (if offset \<ge> length inp then utf8_parse_result INCOMPLETE 0 0
      else if inp ! offset AND 0x80 = 0 then utf8_parse_result SUCCESS (inp ! offset) 1
      else if inp ! offset AND 0x40 = 0 then utf8_parse_result INVALID 0 0
      else if inp ! offset AND 0x20 = 0 then
        (if offset + 1 \<ge> length inp then utf8_parse_result INCOMPLETE 0 0
         else if \<not> cont (inp ! (offset + 1)) then utf8_parse_result INVALID 0 0
         else utf8_parse_result SUCCESS
           (push_bit 6 (inp ! offset AND 0x1F) OR (inp ! (offset + 1) AND 0x3F)) 2)
      else if inp ! offset AND 0x10 = 0 then
        (if offset + 2 \<ge> length inp then utf8_parse_result INCOMPLETE 0 0
         else if \<not> cont (inp ! (offset + 1)) \<or> \<not> cont (inp ! (offset + 2))
         then utf8_parse_result INVALID 0 0
         else utf8_parse_result SUCCESS
           (push_bit 12 (inp ! offset AND 0x0F) OR push_bit 6 (inp ! (offset + 1) AND 0x3F)
              OR (inp ! (offset + 2) AND 0x3F)) 3)
      else if inp ! offset AND 0x08 = 0 then
        (if offset + 3 \<ge> length inp then utf8_parse_result INCOMPLETE 0 0
         else if \<not> cont (inp ! (offset + 1)) \<or> \<not> cont (inp ! (offset + 2))
           \<or> \<not> cont (inp ! (offset + 3))
         then utf8_parse_result INVALID 0 0
         else utf8_parse_result SUCCESS
           (push_bit 18 (inp ! offset AND 0x07) OR push_bit 12 (inp ! (offset + 1) AND 0x3F)
              OR push_bit 6 (inp ! (offset + 2) AND 0x3F) OR (inp ! (offset + 3) AND 0x3F)) 4)
      else utf8_parse_result INVALID 0 0)"

text \<open>The loop of \<^verbatim>\<open>common_utf8_is_complete\<close> over the last bytes, the last one first.\<close>

fun complete_scan :: "nat \<Rightarrow> byte list \<Rightarrow> bool" where
  "complete_scan i [] = False"
| "complete_scan i (c # cs) =
     (if c AND 0xC0 \<noteq> 0x80
      then i \<ge> (if c \<ge> 0xF0 then 4 else if c \<ge> 0xE0 then 3 else if c \<ge> 0xC0 then 2 else 1)
      else complete_scan (i + 1) cs)"

definition common_utf8_is_complete :: "byte list \<Rightarrow> bool" where
  "common_utf8_is_complete s \<longleftrightarrow> s = [] \<or> complete_scan 1 (take (min 4 (length s)) (rev s))"

definition common_unicode_cpt_to_utf8 :: "nat \<Rightarrow> byte list option" where
  "common_unicode_cpt_to_utf8 cpt =
     (if cpt \<le> 0x7F then Some [cpt]
      else if cpt \<le> 0x7FF then
        Some [0xC0 OR (drop_bit 6 cpt AND 0x1F), 0x80 OR (cpt AND 0x3F)]
      else if cpt \<le> 0xFFFF then
        Some [0xE0 OR (drop_bit 12 cpt AND 0x0F), 0x80 OR (drop_bit 6 cpt AND 0x3F),
              0x80 OR (cpt AND 0x3F)]
      else if cpt \<le> 0x10FFFF then
        Some [0xF0 OR (drop_bit 18 cpt AND 0x07), 0x80 OR (drop_bit 12 cpt AND 0x3F),
              0x80 OR (drop_bit 6 cpt AND 0x3F), 0x80 OR (cpt AND 0x3F)]
      else None)"

fun common_unicode_cpts_to_utf8 :: "nat list \<Rightarrow> byte list option" where
  "common_unicode_cpts_to_utf8 [] = Some []"
| "common_unicode_cpts_to_utf8 (c # cs) = do {
     bs \<leftarrow> common_unicode_cpt_to_utf8 c;
     rest \<leftarrow> common_unicode_cpts_to_utf8 cs;
     Some (bs @ rest)
   }"

section \<open>The shape of an encoded code point\<close>

lemma cont_iff: "cont b \<longleftrightarrow> b div 64 mod 4 = 2"
  by (auto simp: cont_def utf8_arith)

lemma cpt_cases:
  assumes "common_unicode_cpt_to_utf8 c = Some bs"
  obtains (one) "c < 128" "bs = [c]"
  | (two) "128 \<le> c" "c < 2048" "bs = [192 + c div 64, 128 + c mod 64]"
  | (three) "2048 \<le> c" "c < 65536"
      "bs = [224 + c div 4096, 128 + c div 64 mod 64, 128 + c mod 64]"
  | (four) "65536 \<le> c" "c < 1114112"
      "bs = [240 + c div 262144, 128 + c div 4096 mod 64, 128 + c div 64 mod 64, 128 + c mod 64]"
proof -
  have "c \<le> 0x7F \<or> 0x7F < c \<and> c \<le> 0x7FF \<or> 0x7FF < c \<and> c \<le> 0xFFFF \<or> 0xFFFF < c \<and> c \<le> 0x10FFFF"
    using assms by (auto simp: common_unicode_cpt_to_utf8_def split: if_splits)
  then show ?thesis
    using assms that
    by (elim disjE)
       (auto simp: common_unicode_cpt_to_utf8_def utf8_arith drop_bit_eq_div)
qed


text \<open>What the parser and the completeness test see of a lead and of a continuation byte.\<close>

named_theorems byte_class

lemma lead_div:
  "a < 128 \<Longrightarrow> (a::nat) div 128 = 0"
  "a < 64 \<Longrightarrow> ((128::nat) + a) div 64 = 2"
  "a < 32 \<Longrightarrow> ((192::nat) + a) div 128 = 1" "a < 32 \<Longrightarrow> ((192::nat) + a) div 64 = 3"
  "a < 32 \<Longrightarrow> ((192::nat) + a) div 32 = 6"
  "a < 16 \<Longrightarrow> ((224::nat) + a) div 128 = 1" "a < 16 \<Longrightarrow> ((224::nat) + a) div 64 = 3"
  "a < 16 \<Longrightarrow> ((224::nat) + a) div 32 = 7" "a < 16 \<Longrightarrow> ((224::nat) + a) div 16 = 14"
  "a < 8 \<Longrightarrow> ((240::nat) + a) div 128 = 1" "a < 8 \<Longrightarrow> ((240::nat) + a) div 64 = 3"
  "a < 8 \<Longrightarrow> ((240::nat) + a) div 32 = 7" "a < 8 \<Longrightarrow> ((240::nat) + a) div 16 = 15"
  "a < 8 \<Longrightarrow> ((240::nat) + a) div 8 = 30"
  by (auto intro!: div_nat_eqI)

lemma lead_mod:
  "a < 64 \<Longrightarrow> ((128::nat) + a) mod 64 = a" "a < 32 \<Longrightarrow> ((192::nat) + a) mod 32 = a"
  "a < 16 \<Longrightarrow> ((224::nat) + a) mod 16 = a" "a < 8 \<Longrightarrow> ((240::nat) + a) mod 8 = a"
  using mod_mult_self3 [of 2 64 a] mod_mult_self3 [of 6 32 a] mod_mult_self3 [of 14 16 a]
    mod_mult_self3 [of 30 8 a]
  by simp_all

lemma cont_class [byte_class]:
  "a < 64 \<Longrightarrow> cont (128 + a)" "a < 32 \<Longrightarrow> \<not> cont (192 + a)" "a < 16 \<Longrightarrow> \<not> cont (224 + a)"
  "a < 8 \<Longrightarrow> \<not> cont (240 + a)"
  by (simp_all add: cont_iff lead_div)

lemma ascii_not_cont [byte_class]:
  assumes "a < 128"
  shows "\<not> cont a"
proof -
  from assms have "a div 64 < 2" by (simp add: div_less_iff_less_mult)
  then show ?thesis by (auto simp: cont_iff)
qed

lemma lead_bits [byte_class]:
  "a < 128 \<Longrightarrow> (a::nat) AND 128 = 0"
  "a < 32 \<Longrightarrow> ((192::nat) + a) AND 128 \<noteq> 0" "a < 32 \<Longrightarrow> ((192::nat) + a) AND 64 \<noteq> 0"
  "a < 32 \<Longrightarrow> ((192::nat) + a) AND 32 = 0" "a < 32 \<Longrightarrow> ((192::nat) + a) AND 31 = a"
  "a < 16 \<Longrightarrow> ((224::nat) + a) AND 128 \<noteq> 0" "a < 16 \<Longrightarrow> ((224::nat) + a) AND 64 \<noteq> 0"
  "a < 16 \<Longrightarrow> ((224::nat) + a) AND 32 \<noteq> 0" "a < 16 \<Longrightarrow> ((224::nat) + a) AND 16 = 0"
  "a < 16 \<Longrightarrow> ((224::nat) + a) AND 15 = a"
  "a < 8 \<Longrightarrow> ((240::nat) + a) AND 128 \<noteq> 0" "a < 8 \<Longrightarrow> ((240::nat) + a) AND 64 \<noteq> 0"
  "a < 8 \<Longrightarrow> ((240::nat) + a) AND 32 \<noteq> 0" "a < 8 \<Longrightarrow> ((240::nat) + a) AND 16 \<noteq> 0"
  "a < 8 \<Longrightarrow> ((240::nat) + a) AND 8 = 0" "a < 8 \<Longrightarrow> ((240::nat) + a) AND 7 = a"
  "a < 64 \<Longrightarrow> ((128::nat) + a) AND 63 = a"
  by (simp_all add: utf8_arith lead_div lead_mod)

lemma nth_past: "(pre @ bs) ! (length pre + k) = bs ! k" "(pre @ bs) ! length pre = bs ! 0"
  by (simp_all add: nth_append)

lemma join_bits:
  "c < 2048 \<Longrightarrow> push_bit 6 (c div 64) OR (c mod 64) = (c::nat)"
  "c < 65536 \<Longrightarrow> push_bit 12 (c div 4096) OR push_bit 6 (c div 64 mod 64) OR (c mod 64) = c"
  "c < 1114112 \<Longrightarrow> push_bit 18 (c div 262144) OR push_bit 12 (c div 4096 mod 64)
     OR push_bit 6 (c div 64 mod 64) OR (c mod 64) = c"
proof -
  have [simp]: "push_bit 6 (c div 64 mod 64) OR (c mod 64) = c mod 4096"
    using mod_mult2_eq [of c 64 64] by (simp add: utf8_arith)
  have [simp]: "push_bit 12 (c div 4096 mod 64) OR (c mod 4096) = c mod 262144"
    using mod_mult2_eq [of c 4096 64] by (simp add: utf8_arith)
  show "push_bit 6 (c div 64) OR (c mod 64) = (c::nat)" by (simp add: utf8_arith)
  show "push_bit 12 (c div 4096) OR push_bit 6 (c div 64 mod 64) OR (c mod 64) = c"
    by (simp add: utf8_arith)
  show "push_bit 18 (c div 262144) OR push_bit 12 (c div 4096 mod 64)
     OR push_bit 6 (c div 64 mod 64) OR (c mod 64) = c"
    by (simp add: utf8_arith)
qed

lemma parse_encoded:
  assumes "common_unicode_cpt_to_utf8 c = Some bs" and "n = length bs"
  shows "common_parse_utf8_codepoint (pre @ bs @ post) (length pre) = utf8_parse_result SUCCESS c n"
  using assms(1)
proof (cases rule: cpt_cases)
  case one
  with assms(2) show ?thesis
    by (simp add: common_parse_utf8_codepoint_def nth_append byte_class)
next
  case two
  then have "c div 64 < 32" "n = 2" using assms(2) by simp_all
  with two show ?thesis
    by (simp add: common_parse_utf8_codepoint_def nth_append byte_class join_bits)
next
  case three
  then have "c div 4096 < 16" "n = 3" using assms(2) by simp_all
  with three show ?thesis
    by (simp add: common_parse_utf8_codepoint_def nth_append byte_class join_bits)
next
  case four
  then have "c div 262144 < 8" "n = 4" using assms(2) by simp_all
  with four show ?thesis
    by (simp add: common_parse_utf8_codepoint_def nth_append byte_class join_bits)
qed

lemma parse_truncated:
  assumes "common_unicode_cpt_to_utf8 c = Some bs" and "k < length bs"
  shows "common_parse_utf8_codepoint (pre @ take k bs) (length pre) = utf8_parse_result INCOMPLETE 0 0"
  using assms(1)
proof (cases rule: cpt_cases)
  case one
  with assms(2) show ?thesis by (simp add: common_parse_utf8_codepoint_def)
next
  case two
  then have "c div 64 < 32" by simp
  with two assms(2) show ?thesis
    by (cases k) (simp_all add: common_parse_utf8_codepoint_def nth_append byte_class)
next
  case three
  then have "c div 4096 < 16" by simp
  with three assms(2) show ?thesis
    by (cases k) (simp_all add: common_parse_utf8_codepoint_def nth_append byte_class)
next
  case four
  then have "c div 262144 < 8" by simp
  with four assms(2) show ?thesis
    by (cases k) (simp_all add: common_parse_utf8_codepoint_def nth_append byte_class)
qed

lemma complete_ends:
  assumes "length bs \<le> 3" and "\<forall>b \<in> set bs. cont b" and "\<not> cont c"
  shows "common_utf8_is_complete (pre @ c # bs) \<longleftrightarrow>
    length bs + 1 \<ge> (if c \<ge> 0xF0 then 4 else if c \<ge> 0xE0 then 3 else if c \<ge> 0xC0 then 2 else (1::nat))"
proof -
  have scan: "complete_scan i (xs @ c # ys) \<longleftrightarrow> i + length xs \<ge>
      (if c \<ge> 0xF0 then 4 else if c \<ge> 0xE0 then 3 else if c \<ge> 0xC0 then 2 else 1)"
    if "\<forall>b \<in> set xs. cont b" for i xs ys
    using that
  proof (induction xs arbitrary: i)
    case Nil
    with assms(3) show ?case by (simp add: cont_def)
  next
    case (Cons x xs)
    then show ?case by (simp add: cont_def)
  qed
  define m where "m = min 4 (length (pre @ c # bs)) - length bs"
  have "m = Suc (m - 1)" using assms(1) by (auto simp: m_def min_def)
  then have "take m (c # rev pre) = c # take (m - 1) (rev pre)" by (metis take_Suc_Cons)
  then have "take (min 4 (length (pre @ c # bs))) (rev (pre @ c # bs)) = rev bs @ c # take (m - 1) (rev pre)"
    using assms(1) by (simp add: m_def)
  with scan [of "rev bs" 1 "take (m - 1) (rev pre)"] assms(2) show ?thesis
    by (simp add: common_utf8_is_complete_def)
qed

lemma complete_prefix:
  assumes "common_unicode_cpt_to_utf8 c = Some bs" and "0 < k" and "k \<le> length bs"
  shows "common_utf8_is_complete (pre @ take k bs) \<longleftrightarrow> k = length bs"
proof -
  have ks: "k = 1 \<or> k = 2 \<or> k = 3 \<or> k = 4"
    using assms by (cases rule: cpt_cases [OF assms(1)]) auto
  have ends: "common_utf8_is_complete (pre @ hd bs # take (k - 1) (tl bs)) \<longleftrightarrow>
      k \<ge> (if hd bs \<ge> 0xF0 then 4 else if hd bs \<ge> 0xE0 then 3 else if hd bs \<ge> 0xC0 then 2 else 1)"
    if "\<forall>b \<in> set (tl bs). cont b" "\<not> cont (hd bs)"
  proof -
    have "length (take (k - 1) (tl bs)) = k - 1" "k - 1 \<le> 3" using ks assms(2,3) by auto
    moreover have "\<forall>b \<in> set (take (k - 1) (tl bs)). cont b" using that by (auto dest: in_set_takeD)
    ultimately show ?thesis
      using complete_ends [of "take (k - 1) (tl bs)" "hd bs" pre] that(2) assms(2) by simp
  qed
  have split: "take k bs = hd bs # take (k - 1) (tl bs)"
    using assms(2,3) by (cases bs; cases k) auto
  show ?thesis
    unfolding split using assms(1)
  proof (cases rule: cpt_cases)
    case one
    with ends assms(2,3) show "common_utf8_is_complete (pre @ hd bs # take (k - 1) (tl bs)) \<longleftrightarrow> k = length bs"
      by (simp add: byte_class)
  next
    case two
    then have "c div 64 < 32" by simp
    with two ends assms(2,3) show "common_utf8_is_complete (pre @ hd bs # take (k - 1) (tl bs)) \<longleftrightarrow> k = length bs"
      by (auto simp: byte_class)
  next
    case three
    then have "c div 4096 < 16" by simp
    with three ends assms(2,3) show "common_utf8_is_complete (pre @ hd bs # take (k - 1) (tl bs)) \<longleftrightarrow> k = length bs"
      by (auto simp: byte_class)
  next
    case four
    then have "c div 262144 < 8" by simp
    with four ends assms(2,3) show "common_utf8_is_complete (pre @ hd bs # take (k - 1) (tl bs)) \<longleftrightarrow> k = length bs"
      by (auto simp: byte_class)
  qed
qed

end
