(* ===== verification/Reasoning_Budget.thy ===== *)
theory Reasoning_Budget
  imports Utf8 "HOL-Library.Sublist"
begin

text \<open>
  The sampler that bounds a reasoning block (src/common/reasoning-budget.cpp): the matcher of the
  start and end sequences, the context, and the callbacks \<open>accept\<close>, \<open>apply\<close>, \<open>reset\<close>, \<open>clone\<close> and
  \<open>init\<close> of the sampler.

  The vocabulary is a parameter of the context: \<open>None\<close> is the null pointer, \<open>Some f\<close> gives the
  bytes of a token (\<^verbatim>\<open>common_token_to_piece\<close>). A logit is \<open>Minus_Infinity\<close> or a finite value of any
  type. The result \<open>None\<close> of a callback is an access outside a vector.
\<close>

section \<open>Matching a token sequence\<close>

record token_matcher =
  tm_tokens :: "llama_token list"
  tm_pos :: nat

definition tm_advance :: "llama_token \<Rightarrow> token_matcher \<Rightarrow> (bool \<times> token_matcher) option" where
  "tm_advance token m =
     (if tm_tokens m = [] then Some (False, m)
      else do {
        t \<leftarrow> vget (tm_tokens m) (tm_pos m);
        if token = t then
          (if tm_pos m + 1 \<ge> length (tm_tokens m) then Some (True, m\<lparr>tm_pos := 0\<rparr>)
           else Some (False, m\<lparr>tm_pos := tm_pos m + 1\<rparr>))
        else do {
          t0 \<leftarrow> vget (tm_tokens m) 0;
          Some (False, m\<lparr>tm_pos := (if token = t0 then 1 else 0)\<rparr>)
        }
      })"

definition tm_reset :: "token_matcher \<Rightarrow> token_matcher" where
  "tm_reset m = m\<lparr>tm_pos := 0\<rparr>"

section \<open>The context and its callbacks\<close>

datatype common_reasoning_budget_state =
  REASONING_BUDGET_IDLE | REASONING_BUDGET_COUNTING | REASONING_BUDGET_FORCING
| REASONING_BUDGET_WAITING_UTF8 | REASONING_BUDGET_DONE

record common_reasoning_budget_ctx =
  rb_vocab :: "(llama_token \<Rightarrow> byte list) option"
  rb_start_matcher :: token_matcher
  rb_end_matcher :: token_matcher
  rb_forced_tokens :: "llama_token list"
  rb_budget :: int
  rb_remaining :: int
  rb_state :: common_reasoning_budget_state
  rb_force_pos :: nat

datatype 'f logit = Minus_Infinity | Finite 'f

type_synonym 'f token_data = "llama_token \<times> 'f logit"

definition common_reasoning_budget_init ::
  "(llama_token \<Rightarrow> byte list) option \<Rightarrow> llama_token list \<Rightarrow> llama_token list \<Rightarrow> llama_token list
    \<Rightarrow> int \<Rightarrow> common_reasoning_budget_state \<Rightarrow> common_reasoning_budget_ctx" where
  "common_reasoning_budget_init v start_tokens end_tokens forced b initial_state =
     \<lparr>rb_vocab = v,
      rb_start_matcher = \<lparr>tm_tokens = start_tokens, tm_pos = 0\<rparr>,
      rb_end_matcher = \<lparr>tm_tokens = end_tokens, tm_pos = 0\<rparr>,
      rb_forced_tokens = forced, rb_budget = b, rb_remaining = b,
      rb_state = (if initial_state = REASONING_BUDGET_COUNTING \<and> b \<le> 0
               then REASONING_BUDGET_FORCING else initial_state),
      rb_force_pos = 0\<rparr>"

definition piece_complete :: "common_reasoning_budget_ctx \<Rightarrow> llama_token \<Rightarrow> bool" where
  "piece_complete ctx token =
     (case rb_vocab ctx of None \<Rightarrow> True | Some piece \<Rightarrow> common_utf8_is_complete (piece token))"

text \<open>The transition to FORCING that three branches of \<^verbatim>\<open>accept\<close> share.\<close>

definition start_forcing :: "common_reasoning_budget_ctx \<Rightarrow> common_reasoning_budget_ctx" where
  "start_forcing ctx = ctx\<lparr>rb_state := REASONING_BUDGET_FORCING, rb_force_pos := 0\<rparr>"

definition accept_idle :: "common_reasoning_budget_ctx \<Rightarrow> llama_token \<Rightarrow> common_reasoning_budget_ctx option" where
  "accept_idle ctx token = do {
     (matched, sm) \<leftarrow> tm_advance token (rb_start_matcher ctx);
     let ctx = ctx\<lparr>rb_start_matcher := sm\<rparr>;
     Some (if matched then
             (let ctx = ctx\<lparr>rb_state := REASONING_BUDGET_COUNTING, rb_remaining := rb_budget ctx\<rparr> in
              if rb_remaining ctx \<le> 0 then start_forcing ctx else ctx)
           else ctx)
   }"

definition accept_counting :: "common_reasoning_budget_ctx \<Rightarrow> llama_token \<Rightarrow> common_reasoning_budget_ctx option" where
  "accept_counting ctx token = do {
     (matched, em) \<leftarrow> tm_advance token (rb_end_matcher ctx);
     let ctx = ctx\<lparr>rb_end_matcher := em\<rparr>;
     let utf8_complete = piece_complete ctx token;
     Some (if matched then ctx\<lparr>rb_state := REASONING_BUDGET_DONE\<rparr>
           else if rb_state ctx = REASONING_BUDGET_WAITING_UTF8 then
             (if utf8_complete then (start_forcing ctx)\<lparr>rb_end_matcher := tm_reset em\<rparr> else ctx)
           else
             (let ctx = ctx\<lparr>rb_remaining := rb_remaining ctx - 1\<rparr> in
              if rb_remaining ctx \<le> 0 then
                (if utf8_complete then (start_forcing ctx)\<lparr>rb_end_matcher := tm_reset em\<rparr>
                 else ctx\<lparr>rb_state := REASONING_BUDGET_WAITING_UTF8, rb_end_matcher := tm_reset em\<rparr>)
              else ctx))
   }"

definition common_reasoning_budget_accept ::
  "common_reasoning_budget_ctx \<Rightarrow> llama_token \<Rightarrow> common_reasoning_budget_ctx option" where
  "common_reasoning_budget_accept ctx token =
     (case rb_state ctx of
        REASONING_BUDGET_IDLE \<Rightarrow> accept_idle ctx token
      | REASONING_BUDGET_COUNTING \<Rightarrow> accept_counting ctx token
      | REASONING_BUDGET_WAITING_UTF8 \<Rightarrow> accept_counting ctx token
      | REASONING_BUDGET_FORCING \<Rightarrow> Some ctx
      | REASONING_BUDGET_DONE \<Rightarrow> Some ctx)"

definition keep_only :: "llama_token \<Rightarrow> 'f token_data list \<Rightarrow> 'f token_data list" where
  "keep_only forced cur = map (\<lambda>(id, l). (id, if id \<noteq> forced then Minus_Infinity else l)) cur"

definition common_reasoning_budget_apply ::
  "common_reasoning_budget_ctx \<Rightarrow> 'f token_data list \<Rightarrow> common_reasoning_budget_ctx \<times> 'f token_data list" where
  "common_reasoning_budget_apply ctx cur_p =
     (if rb_state ctx \<noteq> REASONING_BUDGET_FORCING then (ctx, cur_p)
      else if rb_force_pos ctx \<ge> length (rb_forced_tokens ctx) then (ctx, cur_p)
      else (let cur_p = keep_only (rb_forced_tokens ctx ! rb_force_pos ctx) cur_p;
                ctx = ctx\<lparr>rb_force_pos := rb_force_pos ctx + 1\<rparr> in
            (if rb_force_pos ctx \<ge> length (rb_forced_tokens ctx)
             then ctx\<lparr>rb_state := REASONING_BUDGET_DONE\<rparr> else ctx, cur_p)))"

definition common_reasoning_budget_reset :: "common_reasoning_budget_ctx \<Rightarrow> common_reasoning_budget_ctx" where
  "common_reasoning_budget_reset ctx =
     ctx\<lparr>rb_state := REASONING_BUDGET_IDLE, rb_remaining := rb_budget ctx,
         rb_start_matcher := tm_reset (rb_start_matcher ctx), rb_end_matcher := tm_reset (rb_end_matcher ctx),
         rb_force_pos := 0\<rparr>"

definition common_reasoning_budget_clone :: "common_reasoning_budget_ctx \<Rightarrow> common_reasoning_budget_ctx" where
  "common_reasoning_budget_clone ctx =
     common_reasoning_budget_init (rb_vocab ctx) (tm_tokens (rb_start_matcher ctx))
       (tm_tokens (rb_end_matcher ctx)) (rb_forced_tokens ctx) (rb_budget ctx) (rb_state ctx)"

section \<open>Steps and reachable contexts\<close>

inductive rb_step :: "common_reasoning_budget_ctx \<Rightarrow> common_reasoning_budget_ctx \<Rightarrow> bool" where
  accepted: "common_reasoning_budget_accept ctx token = Some ctx' \<Longrightarrow> rb_step ctx ctx'"
| applied: "common_reasoning_budget_apply ctx (cur_p :: int token_data list) = (ctx', cur_p') \<Longrightarrow> rb_step ctx ctx'"
| was_reset: "rb_step ctx (common_reasoning_budget_reset ctx)"
| cloned: "rb_step ctx (common_reasoning_budget_clone ctx)"

inductive rb_reachable :: "common_reasoning_budget_ctx \<Rightarrow> bool" where
  init: "rb_reachable (common_reasoning_budget_init v st en fo b s)"
| step: "rb_reachable ctx \<Longrightarrow> rb_step ctx ctx' \<Longrightarrow> rb_reachable ctx'"


section \<open>Invariant and the order of the states\<close>

definition tm_ok :: "token_matcher \<Rightarrow> bool" where
  "tm_ok m \<longleftrightarrow> tm_pos m < length (tm_tokens m) \<or> tm_tokens m = [] \<and> tm_pos m = 0"

definition rb_inv :: "common_reasoning_budget_ctx \<Rightarrow> bool" where
  "rb_inv ctx \<longleftrightarrow> tm_ok (rb_start_matcher ctx) \<and> tm_ok (rb_end_matcher ctx) \<and>
     (rb_state ctx = REASONING_BUDGET_COUNTING \<longrightarrow>
        0 < rb_remaining ctx \<and> rb_remaining ctx \<le> rb_budget ctx) \<and>
     (rb_state ctx = REASONING_BUDGET_FORCING \<longrightarrow>
        rb_force_pos ctx < length (rb_forced_tokens ctx) \<or> rb_forced_tokens ctx = [] \<and> rb_force_pos ctx = 0)"

text \<open>The order in which src/common/reasoning-budget.h gives the states.\<close>

fun state_rank :: "common_reasoning_budget_state \<Rightarrow> nat" where
  "state_rank REASONING_BUDGET_IDLE = 0"
| "state_rank REASONING_BUDGET_COUNTING = 1"
| "state_rank REASONING_BUDGET_WAITING_UTF8 = 2"
| "state_rank REASONING_BUDGET_FORCING = 3"
| "state_rank REASONING_BUDGET_DONE = 4"

lemma tm_advance_ok:
  assumes "tm_ok m"
  shows "\<exists>b m'. tm_advance t m = Some (b, m') \<and> tm_ok m' \<and> tm_tokens m' = tm_tokens m"
proof (cases "tm_tokens m = []")
  case True
  with assms show ?thesis by (intro exI [of _ False]) (simp add: tm_advance_def)
next
  case False
  with assms have "tm_pos m < length (tm_tokens m)" by (simp add: tm_ok_def)
  with False show ?thesis
    by (cases "tm_pos m") (auto simp: tm_advance_def tm_ok_def vget_def Suc_le_eq not_le)
qed

lemma tm_reset_ok [simp]: "tm_ok (tm_reset m)" "tm_tokens (tm_reset m) = tm_tokens m"
  by (auto simp: tm_ok_def tm_reset_def)

lemma rb_inv_init: "rb_inv (common_reasoning_budget_init v st en fo b s)"
  by (auto simp: rb_inv_def common_reasoning_budget_init_def tm_ok_def)

text \<open>The configuration of a context: what no callback changes.\<close>

definition rb_config :: "common_reasoning_budget_ctx \<Rightarrow> (llama_token \<Rightarrow> byte list) option \<times>
    llama_token list \<times> llama_token list \<times> llama_token list \<times> int" where
  "rb_config ctx = (rb_vocab ctx, tm_tokens (rb_start_matcher ctx), tm_tokens (rb_end_matcher ctx),
     rb_forced_tokens ctx, rb_budget ctx)"

lemma accept_ok:
  assumes "rb_inv ctx"
  obtains ctx' where "common_reasoning_budget_accept ctx t = Some ctx'" "rb_inv ctx'"
    "rb_config ctx' = rb_config ctx" "state_rank (rb_state ctx) \<le> state_rank (rb_state ctx')"
proof -
  obtain b1 sm where sm: "tm_advance t (rb_start_matcher ctx) = Some (b1, sm)" "tm_ok sm"
      "tm_tokens sm = tm_tokens (rb_start_matcher ctx)"
    using assms tm_advance_ok unfolding rb_inv_def by blast
  obtain b2 em where em: "tm_advance t (rb_end_matcher ctx) = Some (b2, em)" "tm_ok em"
      "tm_tokens em = tm_tokens (rb_end_matcher ctx)"
    using assms tm_advance_ok unfolding rb_inv_def by blast
  show ?thesis
    using that assms sm em
    by (cases "rb_state ctx")
       (simp_all add: common_reasoning_budget_accept_def accept_idle_def accept_counting_def
          start_forcing_def rb_inv_def rb_config_def Let_def split: if_splits)
qed

lemma apply_ok:
  assumes "rb_inv ctx" and "common_reasoning_budget_apply ctx cur = (ctx', cur')"
  shows "rb_inv ctx'" "rb_config ctx' = rb_config ctx"
    "state_rank (rb_state ctx) \<le> state_rank (rb_state ctx')"
  using assms
  by (auto simp: common_reasoning_budget_apply_def rb_inv_def rb_config_def Let_def split: if_splits)

lemma rb_step_inv: "rb_step ctx ctx' \<Longrightarrow> rb_inv ctx \<Longrightarrow> rb_inv ctx'"
proof (induction rule: rb_step.induct)
  case (accepted ctx t ctx')
  then show ?case by (metis accept_ok option.inject)
next
  case (applied ctx cur ctx' cur')
  then show ?case using apply_ok(1) by blast
next
  case (was_reset ctx)
  then show ?case by (simp add: rb_inv_def common_reasoning_budget_reset_def)
next
  case (cloned ctx)
  show ?case by (simp add: common_reasoning_budget_clone_def rb_inv_init)
qed

lemma rb_reachable_inv: "rb_reachable ctx \<Longrightarrow> rb_inv ctx"
  by (induction rule: rb_reachable.induct) (auto intro: rb_inv_init rb_step_inv)

section \<open>Rounds of generation\<close>

text \<open>
  One round is \<^verbatim>\<open>llama_sampler_apply\<close> on the candidates, the choice of a token by the rest of the
  chain, and \<^verbatim>\<open>llama_sampler_accept\<close> of it. The run returns the candidates of every round as the
  sampler leaves them.
\<close>

fun rb_rounds :: "common_reasoning_budget_ctx \<Rightarrow> ('f token_data list \<times> llama_token) list
    \<Rightarrow> (common_reasoning_budget_ctx \<times> 'f token_data list list) option" where
  "rb_rounds ctx [] = Some (ctx, [])"
| "rb_rounds ctx ((cur_p, token) # rs) =
     (let (ctx, cur_p) = common_reasoning_budget_apply ctx cur_p in do {
        ctx \<leftarrow> common_reasoning_budget_accept ctx token;
        (ctx, curs) \<leftarrow> rb_rounds ctx rs;
        Some (ctx, cur_p # curs)
      })"

text \<open>The number of rounds that are left before the sampler is done.\<close>

definition rounds_left :: "common_reasoning_budget_ctx \<Rightarrow> nat" where
  "rounds_left ctx =
     (case rb_state ctx of
        REASONING_BUDGET_IDLE \<Rightarrow> 0
      | REASONING_BUDGET_COUNTING \<Rightarrow> nat (rb_remaining ctx) + length (rb_forced_tokens ctx)
      | REASONING_BUDGET_WAITING_UTF8 \<Rightarrow> 1 + length (rb_forced_tokens ctx)
      | REASONING_BUDGET_FORCING \<Rightarrow> length (rb_forced_tokens ctx) - rb_force_pos ctx
      | REASONING_BUDGET_DONE \<Rightarrow> 0)"

lemma rounds_left_zero:
  assumes "rb_inv ctx" and "rb_forced_tokens ctx \<noteq> []" and "rb_state ctx \<noteq> REASONING_BUDGET_IDLE"
    and "rounds_left ctx = 0"
  shows "rb_state ctx = REASONING_BUDGET_DONE"
  using assms by (cases "rb_state ctx") (auto simp: rounds_left_def rb_inv_def)

lemma done_stays:
  assumes "rb_state ctx = REASONING_BUDGET_DONE"
  shows "common_reasoning_budget_accept ctx t = Some ctx" "common_reasoning_budget_apply ctx cur = (ctx, cur)"
  using assms by (simp_all add: common_reasoning_budget_accept_def common_reasoning_budget_apply_def)

lemma round_progress:
  assumes inv: "rb_inv ctx" and "rb_forced_tokens ctx \<noteq> []" and "rb_state ctx \<noteq> REASONING_BUDGET_IDLE"
    and "piece_complete ctx t"
  obtains ctx1 cur1 ctx2 where "common_reasoning_budget_apply ctx cur = (ctx1, cur1)"
    "common_reasoning_budget_accept ctx1 t = Some ctx2" "rb_inv ctx2" "rb_config ctx2 = rb_config ctx"
    "rb_state ctx2 \<noteq> REASONING_BUDGET_IDLE" "rounds_left ctx2 \<le> rounds_left ctx - 1"
proof -
  obtain ctx1 cur1 where app: "common_reasoning_budget_apply ctx cur = (ctx1, cur1)" by force
  note app' = apply_ok [OF inv app]
  obtain ctx2 where acc: "common_reasoning_budget_accept ctx1 t = Some ctx2" "rb_inv ctx2"
      "rb_config ctx2 = rb_config ctx1" "state_rank (rb_state ctx1) \<le> state_rank (rb_state ctx2)"
    using accept_ok [OF app'(1)] .
  have "state_rank (rb_state ctx) \<noteq> 0" using assms(3) by (cases "rb_state ctx") auto
  then have "rb_state ctx2 \<noteq> REASONING_BUDGET_IDLE" using app'(3) acc(4) by auto
  moreover have "rounds_left ctx2 \<le> rounds_left ctx - 1"
  proof (cases "rb_state ctx = REASONING_BUDGET_FORCING")
    case True
    with app acc(1) show ?thesis
      by (auto simp: common_reasoning_budget_apply_def common_reasoning_budget_accept_def
          rounds_left_def Let_def split: if_splits)
  next
    case False
    with app have "ctx1 = ctx" by (simp add: common_reasoning_budget_apply_def)
    with False assms acc(1) show ?thesis
      by (cases "rb_state ctx")
         (auto simp: common_reasoning_budget_accept_def accept_counting_def start_forcing_def
            piece_complete_def rounds_left_def rb_inv_def Let_def split: if_splits option.splits bind_splits)
  qed
  ultimately show ?thesis using that app app'(2) acc by metis
qed

lemma rounds_reach_done:
  assumes "rb_inv ctx" and "rb_forced_tokens ctx \<noteq> []" and "rb_state ctx \<noteq> REASONING_BUDGET_IDLE"
    and "\<forall>(cur, t) \<in> set rs. piece_complete ctx t" and "rounds_left ctx \<le> length rs"
  shows "\<exists>ctx' outs. rb_rounds ctx rs = Some (ctx', outs) \<and> rb_state ctx' = REASONING_BUDGET_DONE"
  using assms
proof (induction rs arbitrary: ctx)
  case Nil
  then show ?case using rounds_left_zero by simp
next
  case (Cons r rs)
  obtain cur t where r: "r = (cur, t)" by force
  with Cons.prems(4) have "piece_complete ctx t" by simp
  then obtain ctx1 cur1 ctx2 where rd: "common_reasoning_budget_apply ctx cur = (ctx1, cur1)"
    "common_reasoning_budget_accept ctx1 t = Some ctx2" "rb_inv ctx2" "rb_config ctx2 = rb_config ctx"
    "rb_state ctx2 \<noteq> REASONING_BUDGET_IDLE" "rounds_left ctx2 \<le> rounds_left ctx - 1"
    using round_progress [OF Cons.prems(1-3)] by blast
  have "\<exists>ctx' outs. rb_rounds ctx2 rs = Some (ctx', outs) \<and> rb_state ctx' = REASONING_BUDGET_DONE"
  proof (rule Cons.IH [OF rd(3) _ rd(5)])
    show "rb_forced_tokens ctx2 \<noteq> []" using rd(4) Cons.prems(2) by (simp add: rb_config_def)
    show "\<forall>(cur, t) \<in> set rs. piece_complete ctx2 t"
      using rd(4) Cons.prems(4) by (auto simp: rb_config_def piece_complete_def)
    show "rounds_left ctx2 \<le> length rs" using rd(6) Cons.prems(5) by simp
  qed
  then show ?case by (auto simp: r rd(1,2))
qed

text \<open>While it forces, a round emits the next forced token; afterwards nothing is changed.\<close>

lemma rounds_done: "rb_state ctx = REASONING_BUDGET_DONE \<Longrightarrow> rb_rounds ctx rs = Some (ctx, map fst rs)"
  by (induction rs) (auto simp: done_stays)

lemma rounds_forcing:
  assumes "rb_state ctx = REASONING_BUDGET_FORCING" and "rb_force_pos ctx < length (rb_forced_tokens ctx)"
  shows "\<exists>ctx'. rb_rounds ctx rs = Some (ctx',
     map2 (\<lambda>t (cur, _). keep_only t cur) (drop (rb_force_pos ctx) (rb_forced_tokens ctx)) rs
       @ map fst (drop (length (rb_forced_tokens ctx) - rb_force_pos ctx) rs))"
  using assms
proof (induction rs arbitrary: ctx)
  case (Cons r rs)
  obtain cur t where r: "r = (cur, t)" by force
  define ctx1 where "ctx1 = ctx\<lparr>rb_force_pos := rb_force_pos ctx + 1\<rparr>"
  define ctx2 where "ctx2 = (if rb_force_pos ctx + 1 \<ge> length (rb_forced_tokens ctx)
    then ctx1\<lparr>rb_state := REASONING_BUDGET_DONE\<rparr> else ctx1)"
  let ?k = "rb_forced_tokens ctx ! rb_force_pos ctx"
  have rd: "common_reasoning_budget_apply ctx cur = (ctx2, keep_only ?k cur)"
    "common_reasoning_budget_accept ctx2 t = Some ctx2"
    using Cons.prems
    by (auto simp: common_reasoning_budget_apply_def common_reasoning_budget_accept_def ctx1_def ctx2_def Let_def)
  have drop: "drop (rb_force_pos ctx) (rb_forced_tokens ctx)
      = ?k # drop (rb_force_pos ctx + 1) (rb_forced_tokens ctx)"
    using Cons.prems(2) by (simp add: Cons_nth_drop_Suc)
  show ?case
  proof (cases "rb_force_pos ctx + 1 \<ge> length (rb_forced_tokens ctx)")
    case True
    then have "rb_rounds ctx2 rs = Some (ctx2, map fst rs)"
      by (intro rounds_done) (simp add: ctx2_def)
    moreover have "length (rb_forced_tokens ctx) - rb_force_pos ctx = 1" using True Cons.prems(2) by simp
    ultimately show ?thesis using True by (simp add: r rd drop)
  next
    case False
    then have ctx2: "ctx2 = ctx1" by (simp add: ctx2_def)
    then have f: "rb_state ctx2 = REASONING_BUDGET_FORCING" "rb_force_pos ctx2 = rb_force_pos ctx + 1"
        "rb_forced_tokens ctx2 = rb_forced_tokens ctx"
      using Cons.prems(1) by (simp_all add: ctx1_def)
    have "length (rb_forced_tokens ctx) - rb_force_pos ctx
        = Suc (length (rb_forced_tokens ctx) - rb_force_pos ctx2)"
      using False f by simp
    then show ?thesis
      using Cons.IH [of ctx2] False f by (auto simp: r rd drop)
  qed
qed simp

lemma keep_only_forces: "(i, l) \<in> set (keep_only f cur) \<Longrightarrow> l \<noteq> Minus_Infinity \<Longrightarrow> i = f"
  by (auto simp: keep_only_def split: if_splits)


section \<open>The matcher against the definition of a match\<close>

definition tm_feed :: "llama_token list \<Rightarrow> token_matcher \<Rightarrow> token_matcher option" where
  "tm_feed ts m = foldM (\<lambda>t m. map_option snd (tm_advance t m)) ts m"

text \<open>
  When the first token of the sequence does not occur again in it, no two proper prefixes of the
  sequence end the same text, and the position of the matcher is the length of the only one.
\<close>

lemma border_unique:
  assumes "hd tk \<notin> set (tl tk)" and "suffix (take j tk) h" and "suffix (take k tk) h"
    and "0 < j" and "j < k" and "k \<le> length tk"
  shows False
proof -
  obtain x xs where tk: "tk = x # xs" using assms by (cases tk) auto
  obtain i where i: "j = Suc i" using assms(4) by (cases j) auto
  obtain l where l: "k = Suc l" using assms(5) by (cases k) auto
  have "suffix (take j tk) (take k tk)"
    using assms suffix_length_suffix [of "take j tk" h "take k tk"] by simp
  then obtain p where p: "x # take l xs = p @ x # take i xs" by (auto simp: suffix_def tk i l)
  have "p \<noteq> []" using p assms(5,6) by (auto simp: tk i l dest!: arg_cong [of _ _ length])
  then have "x \<in> set (take l xs)" using p by (cases p) auto
  with assms(1) show False by (auto simp: tk dest: in_set_takeD)
qed


lemma border_Suc:
  "Suc k \<le> length tk \<Longrightarrow> suffix (take (Suc k) tk) (h @ [t]) \<longleftrightarrow> suffix (take k tk) h \<and> t = tk ! k"
  by (auto simp: take_Suc_conv_app_nth suffix_def)

text \<open>The matcher stands at the longest prefix of the sequence that ends the text so far.\<close>

definition tm_at :: "llama_token list \<Rightarrow> token_matcher \<Rightarrow> bool" where
  "tm_at h m \<longleftrightarrow> tm_pos m < length (tm_tokens m) \<and> suffix (take (tm_pos m) (tm_tokens m)) h \<and>
     (\<forall>k. tm_pos m < k \<and> k < length (tm_tokens m) \<longrightarrow> \<not> suffix (take k (tm_tokens m)) h)"

lemma tm_advance_spec:
  assumes "tm_at h m" and uniq: "hd (tm_tokens m) \<notin> set (tl (tm_tokens m))"
  shows "\<exists>m'. tm_advance t m = Some (suffix (tm_tokens m) (h @ [t]), m') \<and> tm_at (h @ [t]) m' \<and>
    tm_tokens m' = tm_tokens m"
proof -
  define tk where "tk = tm_tokens m"
  define p where "p = tm_pos m"
  have p: "p < length tk" "suffix (take p tk) h" and longest: "\<And>k. p < k \<Longrightarrow> k < length tk \<Longrightarrow> \<not> suffix (take k tk) h"
    using assms(1) by (auto simp: tm_at_def tk_def p_def)
  have whole: "suffix tk (h @ [t]) \<longleftrightarrow> suffix (take (length tk - 1) tk) h \<and> t = tk ! (length tk - 1)"
    using border_Suc [of "length tk - 1" tk h t] p(1) by simp
  have beyond: "\<not> suffix (take k tk) (h @ [t])" if "Suc p < k" "k < length tk" for k
    using that longest [of "k - 1"] border_Suc [of "k - 1" tk h t] by (cases k) auto
  show ?thesis
  proof (cases "t = tk ! p")
    case hit: True
    show ?thesis
    proof (cases "p + 1 \<ge> length tk")
      case True
      then have p': "length tk - 1 = p" using p(1) by simp
      then have match: "suffix tk (h @ [t])" using whole hit p(2) by simp
      have "\<not> suffix (take k tk) (h @ [t])" if "0 < k" "k < length tk" for k
        using border_unique [of tk k "h @ [t]" "length tk"] that match uniq by (auto simp: tk_def)
      then show ?thesis
        using True hit match p by (auto simp: tm_advance_def tm_at_def tk_def p_def vget_def)
    next
      case False
      then have "\<not> suffix tk (h @ [t])" using whole longest [of "length tk - 1"] by auto
      moreover have "suffix (take (Suc p) tk) (h @ [t])" using border_Suc [of p tk h t] hit p by simp
      ultimately show ?thesis
        using False hit p beyond by (auto simp: tm_advance_def tm_at_def tk_def p_def vget_def)
    qed
  next
    case miss: False
    then have no: "\<not> suffix tk (h @ [t])"
    proof (cases "p < length tk - 1")
      case True
      then show ?thesis using whole longest [of "length tk - 1"] by auto
    next
      case False
      then have "length tk - 1 = p" using p(1) by simp
      with whole miss show ?thesis by simp
    qed
    have shorter: "\<not> suffix (take k tk) (h @ [t])" if "1 < k" "k < length tk" for k
    proof
      assume s: "suffix (take k tk) (h @ [t])"
      then have k: "suffix (take (k - 1) tk) h" "t = tk ! (k - 1)"
        using border_Suc [of "k - 1" tk h t] that by simp_all
      with longest [of "k - 1"] miss that have "k - 1 < p" by (cases "k - 1 = p") force+
      with border_unique [of tk "k - 1" h p] k(1) p that uniq show False by (auto simp: tk_def)
    qed
    have one: "suffix (take 1 tk) (h @ [t]) \<longleftrightarrow> t = tk ! 0"
      using border_Suc [of 0 tk h t] p(1) by simp
    have "1 < length tk" if "t = tk ! 0" using that miss p by (cases p) auto
    moreover have "\<not> suffix (take k tk) (h @ [t])" if "0 < k" "k < length tk" "t \<noteq> tk ! 0" for k
      using that one shorter [of k] by (cases "k = 1") (auto simp del: suffix_snoc)
    ultimately show ?thesis
      using no shorter one miss p
      by (auto simp: tm_advance_def tm_at_def tk_def [symmetric] p_def [symmetric] vget_def
          simp del: suffix_snoc)
  qed
qed

lemma tm_feed_spec:
  assumes "tm_tokens m \<noteq> []" and "hd (tm_tokens m) \<notin> set (tl (tm_tokens m))" and "tm_pos m = 0"
  shows "\<exists>m'. tm_feed ts m = Some m' \<and> tm_at ts m' \<and> tm_tokens m' = tm_tokens m"
proof (induction ts rule: rev_induct)
  case Nil
  from assms show ?case by (auto simp: tm_feed_def tm_at_def)
next
  case (snoc t ts)
  then obtain m' where m': "tm_feed ts m = Some m'" "tm_at ts m'" "tm_tokens m' = tm_tokens m" by blast
  then obtain m'' where "tm_advance t m' = Some (suffix (tm_tokens m') (ts @ [t]), m'')"
      "tm_at (ts @ [t]) m''" "tm_tokens m'' = tm_tokens m'"
    using tm_advance_spec [of ts m' t] assms(2) by auto
  with m' show ?case by (simp add: tm_feed_def foldM_append)
qed

end
