(* ===== verification/Ring_Buffer.thy ===== *)
theory Ring_Buffer
  imports Tl_Prelude
begin

text \<open>
  The fixed-capacity buffer in which a sampler keeps the last tokens (\<^verbatim>\<open>ring_buffer\<close> of
  src/common/sampling.cpp, which src/src/llama-sampler.cpp repeats): its operations over the vector
  and the three indices, and the contract \<open>bounded_history\<close> a client relies on, a list that keeps the
  last values. \<open>None\<close> is the exception of an empty buffer, an index outside the vector, or a
  remainder by a capacity of 0.
\<close>

record 'a ring_buffer =
  ring_capacity :: nat
  ring_sz :: nat
  ring_first :: nat
  ring_pos :: nat
  ring_data :: "'a list"

text \<open>\<open>d\<close> is the value-initialised element of \<^verbatim>\<open>std::vector<T> data(cap)\<close>.\<close>

definition ring_buffer_new :: "'a \<Rightarrow> nat \<Rightarrow> 'a ring_buffer" where
  "ring_buffer_new d cap =
     \<lparr>ring_capacity = cap, ring_sz = 0, ring_first = 0, ring_pos = 0, ring_data = replicate cap d\<rparr>"

definition cmod :: "nat \<Rightarrow> nat \<Rightarrow> nat option" where
  "cmod a b = (if b = 0 then None else Some (a mod b))"

definition ring_front :: "'a ring_buffer \<Rightarrow> 'a option" where
  "ring_front b = (if ring_sz b = 0 then None else vget (ring_data b) (ring_first b))"

definition ring_back :: "'a ring_buffer \<Rightarrow> 'a option" where
  "ring_back b = (if ring_sz b = 0 then None else vget (ring_data b) (ring_pos b))"

definition ring_push_back :: "'a \<Rightarrow> 'a ring_buffer \<Rightarrow> 'a ring_buffer option" where
  "ring_push_back value b = do {
     b \<leftarrow> (if ring_sz b = ring_capacity b then do {
             first \<leftarrow> cmod (ring_first b + 1) (ring_capacity b);
             Some (b\<lparr>ring_first := first\<rparr>)
           }
           else Some (b\<lparr>ring_sz := ring_sz b + 1\<rparr>));
     data \<leftarrow> vset (ring_data b) (ring_pos b) value;
     pos \<leftarrow> cmod (ring_pos b + 1) (ring_capacity b);
     Some (b\<lparr>ring_data := data, ring_pos := pos\<rparr>)
   }"

definition ring_pop_front :: "'a ring_buffer \<Rightarrow> ('a \<times> 'a ring_buffer) option" where
  "ring_pop_front b = (if ring_sz b = 0 then None else do {
     value \<leftarrow> vget (ring_data b) (ring_first b);
     first \<leftarrow> cmod (ring_first b + 1) (ring_capacity b);
     Some (value, b\<lparr>ring_first := first, ring_sz := ring_sz b - 1\<rparr>)
   })"

definition ring_rat :: "'a ring_buffer \<Rightarrow> nat \<Rightarrow> 'a option" where
  "ring_rat b i = (if i \<ge> ring_sz b then None else do {
     k \<leftarrow> cmod (ring_first b + ring_sz b - i - 1) (ring_capacity b);
     vget (ring_data b) k
   })"

definition ring_to_vector :: "'a ring_buffer \<Rightarrow> 'a list option" where
  "ring_to_vector b = foldM (\<lambda>i result. do {
       k \<leftarrow> cmod (ring_first b + i) (ring_capacity b);
       v \<leftarrow> vget (ring_data b) k;
       Some (result @ [v])
     }) [0..<ring_sz b] []"

definition ring_clear :: "'a ring_buffer \<Rightarrow> 'a ring_buffer" where
  "ring_clear b = b\<lparr>ring_sz := 0, ring_first := 0, ring_pos := 0\<rparr>"

definition ring_empty :: "'a ring_buffer \<Rightarrow> bool" where
  "ring_empty b \<longleftrightarrow> ring_sz b = 0"

definition ring_size :: "'a ring_buffer \<Rightarrow> nat" where
  "ring_size b = ring_sz b"

section \<open>The contract: a history of bounded length\<close>

definition last_n :: "nat \<Rightarrow> 'a list \<Rightarrow> 'a list" where
  "last_n n xs = drop (length xs - n) xs"

lemma last_n_short [simp]: "length xs \<le> n \<Longrightarrow> last_n n xs = xs"
  by (simp add: last_n_def)

lemma last_n_length [simp]: "length (last_n n xs) = min n (length xs)"
  by (simp add: last_n_def)

lemma last_n_append [simp]: "last_n n (last_n n xs @ ys) = last_n n (xs @ ys)"
  by (cases "length xs \<le> n") (auto simp: last_n_def add.commute)

lemma last_last_n [simp]: "0 < n \<Longrightarrow> xs \<noteq> [] \<Longrightarrow> last (last_n n xs) = last xs"
  by (simp add: last_n_def)

locale bounded_history =
  fixes wf :: "'b \<Rightarrow> bool" and capacity :: "'b \<Rightarrow> nat" and contents :: "'b \<Rightarrow> 'a list"
    and push :: "'a \<Rightarrow> 'b \<Rightarrow> 'b option" and rat :: "'b \<Rightarrow> nat \<Rightarrow> 'a option"
  assumes push_ok: "\<lbrakk>wf b; 0 < capacity b\<rbrakk> \<Longrightarrow> \<exists>b'. push v b = Some b' \<and> wf b' \<and>
      capacity b' = capacity b \<and> contents b' = last_n (capacity b) (contents b @ [v])"
    and rat_ok: "wf b \<Longrightarrow> rat b i = (if i < length (contents b) then Some (rev (contents b) ! i) else None)"
begin

lemma push_all:
  assumes "wf b" and "0 < capacity b" and "length (contents b) \<le> capacity b"
  shows "\<exists>b'. foldM push vs b = Some b' \<and> wf b' \<and> capacity b' = capacity b \<and>
    contents b' = last_n (capacity b) (contents b @ vs)"
  using assms
proof (induction vs arbitrary: b)
  case (Cons v vs)
  then obtain b1 where "push v b = Some b1" "wf b1" "capacity b1 = capacity b"
      "contents b1 = last_n (capacity b) (contents b @ [v])"
    using push_ok by blast
  with Cons.IH [of b1] Cons.prems(2) show ?case by simp
qed simp

text \<open>The most recent value is found at position 0 after every push.\<close>

lemma newest:
  assumes "wf b" and "0 < capacity b" and "push v b = Some b'"
  shows "rat b' 0 = Some v"
proof -
  from push_ok [OF assms(1,2), of v] assms(3)
  have b': "wf b'" "contents b' = last_n (capacity b) (contents b @ [v])" by simp_all
  then have "contents b' \<noteq> []" "last (contents b') = v"
    using assms(2) by (auto simp: last_n_def)
  then show ?thesis using b' rat_ok [of b' 0] by (simp add: assms(2) rev_nth last_conv_nth)
qed

end

section \<open>The ring buffer keeps the contract\<close>

definition ring_wf :: "'a ring_buffer \<Rightarrow> bool" where
  "ring_wf b \<longleftrightarrow> length (ring_data b) = ring_capacity b \<and> ring_sz b \<le> ring_capacity b \<and>
     (0 < ring_capacity b \<longrightarrow> ring_first b < ring_capacity b \<and>
        ring_pos b = (ring_first b + ring_sz b) mod ring_capacity b)"

definition ring_contents :: "'a ring_buffer \<Rightarrow> 'a list" where
  "ring_contents b = map (\<lambda>i. ring_data b ! ((ring_first b + i) mod ring_capacity b)) [0..<ring_sz b]"

lemma ring_new_wf [simp]: "ring_wf (ring_buffer_new d cap)" "ring_contents (ring_buffer_new d cap) = []"
    "ring_capacity (ring_buffer_new d cap) = cap"
  by (simp_all add: ring_wf_def ring_contents_def ring_buffer_new_def)

lemma ring_contents_length [simp]: "length (ring_contents b) = ring_sz b"
  by (simp add: ring_contents_def)

lemma ring_slots_distinct:
  assumes "i < j" and "j < (cap::nat)"
  shows "(a + i) mod cap \<noteq> (a + j) mod cap"
proof
  assume "(a + i) mod cap = (a + j) mod cap"
  then have "cap dvd j - i" using mod_eq_dvd_iff_nat [of "a + i" "a + j" cap] assms by simp
  with assms show False by (auto dest: dvd_imp_le)
qed

lemma ring_push_ok:
  assumes "ring_wf b" and "0 < ring_capacity b"
  shows "\<exists>b'. ring_push_back v b = Some b' \<and> ring_wf b' \<and> ring_capacity b' = ring_capacity b \<and>
    ring_contents b' = last_n (ring_capacity b) (ring_contents b @ [v])"
proof (cases "ring_sz b = ring_capacity b")
  case False
  let ?p = "(ring_first b + ring_sz b) mod ring_capacity b"
  let ?b' = "b\<lparr>ring_sz := ring_sz b + 1, ring_data := (ring_data b)[?p := v], ring_pos := (?p + 1) mod ring_capacity b\<rparr>"
  from assms False have sz: "ring_sz b < ring_capacity b" by (auto simp: ring_wf_def)
  then have "ring_push_back v b = Some ?b'" "ring_wf ?b'"
    using assms False by (auto simp: ring_push_back_def ring_wf_def cmod_def mod_Suc_eq vset_def)
  moreover have "(ring_data b)[?p := v] ! ((ring_first b + i) mod ring_capacity b)
      = ring_data b ! ((ring_first b + i) mod ring_capacity b)" if "i < ring_sz b" for i
    using ring_slots_distinct [OF that sz, of "ring_first b"] by simp
  then have "ring_contents ?b' = ring_contents b @ [v]"
    using assms sz by (simp add: ring_contents_def ring_wf_def)
  ultimately show ?thesis using sz by (intro exI [of _ ?b']) simp
next
  case True
  let ?f = "(ring_first b + 1) mod ring_capacity b"
  let ?b' = "b\<lparr>ring_first := ?f, ring_data := (ring_data b)[ring_first b := v], ring_pos := ?f\<rparr>"
  from assms True have push: "ring_push_back v b = Some ?b'" and wf: "ring_wf ?b'"
    by (auto simp: ring_push_back_def ring_wf_def cmod_def vset_def)
  have slot: "(?f + i) mod ring_capacity b = (ring_first b + Suc i) mod ring_capacity b" for i
    by (simp add: mod_add_left_eq)
  have "ring_contents ?b' = tl (ring_contents b) @ [v]"
  proof (rule nth_equalityI)
    show "length (ring_contents ?b') = length (tl (ring_contents b) @ [v])"
      using True assms by simp
    fix i assume "i < length (ring_contents ?b')"
    then have i: "i < ring_capacity b" using True by simp
    show "ring_contents ?b' ! i = (tl (ring_contents b) @ [v]) ! i"
    proof (cases "Suc i < ring_capacity b")
      case less: True
      have "(ring_first b + Suc i) mod ring_capacity b \<noteq> ring_first b"
        using ring_slots_distinct [of 0 "Suc i" "ring_capacity b" "ring_first b"] less assms
        by (simp add: ring_wf_def)
      with less True slot [of i] show ?thesis
        by (simp add: ring_contents_def nth_append nth_tl less_diff_conv)
    next
      case last: False
      with i have i: "Suc i = ring_capacity b" by simp
      then have "(?f + i) mod ring_capacity b = ring_first b"
        using assms unfolding slot by (simp add: ring_wf_def)
      then have "ring_contents ?b' ! i = v"
        using True assms i by (simp add: ring_contents_def ring_wf_def)
      moreover have "(tl (ring_contents b) @ [v]) ! i = v" using True i by (auto simp: nth_append)
      ultimately show ?thesis by simp
    qed
  qed
  moreover have "last_n (ring_capacity b) (ring_contents b @ [v]) = tl (ring_contents b) @ [v]"
    using True assms ring_contents_length [of b]
    by (cases "ring_contents b") (auto simp: last_n_def simp del: ring_contents_length)
  ultimately show ?thesis using push wf by (intro exI [of _ ?b']) simp
qed

lemma ring_rat_ok:
  assumes "ring_wf b"
  shows "ring_rat b i = (if i < length (ring_contents b) then Some (rev (ring_contents b) ! i) else None)"
  using assms by (auto simp: ring_rat_def ring_wf_def cmod_def ring_contents_def vget_def rev_nth)

interpretation ring: bounded_history ring_wf ring_capacity ring_contents ring_push_back ring_rat
  by unfold_locales (simp_all add: ring_push_ok ring_rat_ok)

lemma ring_to_vector_ok:
  assumes "ring_wf b"
  shows "ring_to_vector b = Some (ring_contents b)"
proof -
  have "foldM (\<lambda>i result. do {
       k \<leftarrow> cmod (ring_first b + i) (ring_capacity b);
       v \<leftarrow> vget (ring_data b) k;
       Some (result @ [v])
     }) [0..<n] [] = Some (map (\<lambda>i. ring_data b ! ((ring_first b + i) mod ring_capacity b)) [0..<n])"
    if "n \<le> ring_sz b" for n
    using that assms by (induction n) (auto simp: foldM_append ring_wf_def cmod_def vget_def)
  then show ?thesis by (simp add: ring_to_vector_def ring_contents_def)
qed

end
