(* ===== verification/Common_Sampler.thy ===== *)
theory Common_Sampler
  imports Reasoning_Budget Ring_Buffer
begin

text \<open>
  The sampler of a generation (src/common/sampling.cpp): the chain of samplers with the reasoning
  budget in it, the grammar, the history of the last tokens, and the operations that sample and
  accept a token, with and without a draft.

  The other samplers of the chain and the grammar sampler are a type \<open>'x\<close> with the callbacks of a
  record \<open>sampler_i\<close>; the logits that \<^verbatim>\<open>set_logits\<close> reads from the context, and the token a backend
  sampler has chosen, are arguments. No sampler of the chain runs in the backend.
\<close>

definition LLAMA_TOKEN_NULL :: llama_token where
  "LLAMA_TOKEN_NULL = - 1"

record 'f token_data_array =
  data :: "'f token_data list"
  selected :: int

record ('x, 'f) sampler_i =
  i_accept :: "'x \<Rightarrow> llama_token \<Rightarrow> 'x option"
  i_apply :: "'x \<Rightarrow> 'f token_data_array \<Rightarrow> ('x \<times> 'f token_data_array) option"
  i_reset :: "'x \<Rightarrow> 'x"
  i_clone :: "'x \<Rightarrow> 'x"

datatype 'x sampler = Reasoning_Budget common_reasoning_budget_ctx | Other 'x

fun llama_sampler_accept :: "('x, 'f) sampler_i \<Rightarrow> llama_token \<Rightarrow> 'x sampler \<Rightarrow> 'x sampler option" where
  "llama_sampler_accept io token (Reasoning_Budget ctx) =
     map_option Reasoning_Budget (common_reasoning_budget_accept ctx token)"
| "llama_sampler_accept io token (Other x) = map_option Other (i_accept io x token)"

fun llama_sampler_apply :: "('x, 'f) sampler_i \<Rightarrow> 'x sampler \<Rightarrow> 'f token_data_array
    \<Rightarrow> ('x sampler \<times> 'f token_data_array) option" where
  "llama_sampler_apply io (Reasoning_Budget ctx) cur_p =
     (let (ctx, d) = common_reasoning_budget_apply ctx (data cur_p) in
      Some (Reasoning_Budget ctx, cur_p\<lparr>data := d\<rparr>))"
| "llama_sampler_apply io (Other x) cur_p = do {
     (x, cur_p) \<leftarrow> i_apply io x cur_p;
     Some (Other x, cur_p)
   }"

fun llama_sampler_reset :: "('x, 'f) sampler_i \<Rightarrow> 'x sampler \<Rightarrow> 'x sampler" where
  "llama_sampler_reset io (Reasoning_Budget ctx) = Reasoning_Budget (common_reasoning_budget_reset ctx)"
| "llama_sampler_reset io (Other x) = Other (i_reset io x)"

fun llama_sampler_clone :: "('x, 'f) sampler_i \<Rightarrow> 'x sampler \<Rightarrow> 'x sampler" where
  "llama_sampler_clone io (Reasoning_Budget ctx) = Reasoning_Budget (common_reasoning_budget_clone ctx)"
| "llama_sampler_clone io (Other x) = Other (i_clone io x)"

fun llama_sampler_chain_accept :: "('x, 'f) sampler_i \<Rightarrow> llama_token \<Rightarrow> 'x sampler list \<Rightarrow> 'x sampler list option" where
  "llama_sampler_chain_accept io token [] = Some []"
| "llama_sampler_chain_accept io token (s # ss) = do {
     s \<leftarrow> llama_sampler_accept io token s;
     ss \<leftarrow> llama_sampler_chain_accept io token ss;
     Some (s # ss)
   }"

fun llama_sampler_chain_apply :: "('x, 'f) sampler_i \<Rightarrow> 'x sampler list \<Rightarrow> 'f token_data_array
    \<Rightarrow> ('x sampler list \<times> 'f token_data_array) option" where
  "llama_sampler_chain_apply io [] cur_p = Some ([], cur_p)"
| "llama_sampler_chain_apply io (s # ss) cur_p = do {
     (s, cur_p) \<leftarrow> llama_sampler_apply io s cur_p;
     (ss, cur_p) \<leftarrow> llama_sampler_chain_apply io ss cur_p;
     Some (s # ss, cur_p)
   }"

text \<open>The grammar sampler may be the null pointer, which every call passes over.\<close>

definition grammar_accept :: "('x, 'f) sampler_i \<Rightarrow> llama_token \<Rightarrow> 'x sampler option \<Rightarrow> 'x sampler option option" where
  "grammar_accept io token g = (case g of None \<Rightarrow> Some None
     | Some g \<Rightarrow> map_option Some (llama_sampler_accept io token g))"

definition grammar_apply :: "('x, 'f) sampler_i \<Rightarrow> 'x sampler option \<Rightarrow> 'f token_data_array
    \<Rightarrow> ('x sampler option \<times> 'f token_data_array) option" where
  "grammar_apply io g cur_p = (case g of None \<Rightarrow> Some (None, cur_p)
     | Some g \<Rightarrow> map_option (\<lambda>(g, cur_p). (Some g, cur_p)) (llama_sampler_apply io g cur_p))"

section \<open>The sampler and its operations\<close>

record ('x, 'f) common_sampler =
  grmr :: "'x sampler option"
  chain :: "'x sampler list"
  prev :: "llama_token ring_buffer"
  cur_p :: "'f token_data_array"

definition common_sampler_accept :: "('x, 'f) sampler_i \<Rightarrow> llama_token \<Rightarrow> bool
    \<Rightarrow> ('x, 'f) common_sampler \<Rightarrow> ('x, 'f) common_sampler option" where
  "common_sampler_accept io token accept_grammar gsmpl = do {
     g \<leftarrow> (if accept_grammar then grammar_accept io token (grmr gsmpl) else Some (grmr gsmpl));
     ch \<leftarrow> llama_sampler_chain_accept io token (chain gsmpl);
     p \<leftarrow> ring_push_back token (prev gsmpl);
     Some (gsmpl\<lparr>grmr := g, chain := ch, prev := p\<rparr>)
   }"

definition common_sampler_reset :: "('x, 'f) sampler_i \<Rightarrow> ('x, 'f) common_sampler \<Rightarrow> ('x, 'f) common_sampler" where
  "common_sampler_reset io gsmpl =
     gsmpl\<lparr>prev := ring_clear (prev gsmpl), chain := map (llama_sampler_reset io) (chain gsmpl)\<rparr>"

definition common_sampler_clone :: "('x, 'f) sampler_i \<Rightarrow> ('x, 'f) common_sampler \<Rightarrow> ('x, 'f) common_sampler" where
  "common_sampler_clone io gsmpl =
     gsmpl\<lparr>grmr := map_option (llama_sampler_clone io) (grmr gsmpl),
           chain := map (llama_sampler_clone io) (chain gsmpl)\<rparr>"

text \<open>\<^verbatim>\<open>cur_p.data[cur_p.selected].id\<close>\<close>

definition selected_id :: "'f token_data_array \<Rightarrow> llama_token option" where
  "selected_id a = (if selected a < 0 then None else map_option fst (vget (data a) (nat (selected a))))"

text \<open>The test of one token against the grammar.\<close>

definition fits_grammar :: "('x, 'f::{zero,one}) sampler_i \<Rightarrow> llama_token \<Rightarrow> 'x sampler option
    \<Rightarrow> (bool \<times> 'x sampler option) option" where
  "fits_grammar io tok g = do {
     (g, a) \<leftarrow> grammar_apply io g \<lparr>data = [(tok, Finite 1)], selected = - 1\<rparr>;
     (_, logit) \<leftarrow> vget (data a) 0;
     Some (case logit of Minus_Infinity \<Rightarrow> False | Finite _ \<Rightarrow> True, g)
   }"

definition common_sampler_sample :: "('x, 'f::{zero,one}) sampler_i \<Rightarrow> llama_token \<Rightarrow> 'f token_data_array \<Rightarrow> bool
    \<Rightarrow> ('x, 'f) common_sampler \<Rightarrow> (llama_token \<times> ('x, 'f) common_sampler) option" where
  "common_sampler_sample io backend_id logits grammar_first gsmpl =
     (if backend_id \<noteq> LLAMA_TOKEN_NULL then do {
        check (grmr gsmpl = None);
        Some (backend_id, gsmpl\<lparr>cur_p := \<lparr>data = [(backend_id, Finite 0)], selected = 0\<rparr>\<rparr>)
      }
      else do {
        (g, a) \<leftarrow> (if grammar_first then grammar_apply io (grmr gsmpl) logits
                   else Some (grmr gsmpl, logits));
        (ch, a) \<leftarrow> llama_sampler_chain_apply io (chain gsmpl) a;
        tok \<leftarrow> selected_id a;
        if grammar_first then Some (tok, gsmpl\<lparr>grmr := g, chain := ch, cur_p := a\<rparr>)
        else do {
          (is_valid, g) \<leftarrow> fits_grammar io tok g;
          if is_valid then Some (tok, gsmpl\<lparr>grmr := g, chain := ch, cur_p := a\<rparr>)
          else do {
            (g, a) \<leftarrow> grammar_apply io g logits;
            (ch, a) \<leftarrow> llama_sampler_chain_apply io ch a;
            tok \<leftarrow> selected_id a;
            Some (tok, gsmpl\<lparr>grmr := g, chain := ch, cur_p := a\<rparr>)
          }
        }
      })"


text \<open>
  \<^verbatim>\<open>common_sampler_sample_and_accept_n\<close>: one token is sampled and accepted for every draft token, up
  to the first that differs; when none differs, one more. \<open>inputs\<close> gives, for each of the
  \<open>length draft + 1\<close> output positions, what the context holds there.
\<close>

definition sample_and_accept :: "('x, 'f::{zero,one}) sampler_i \<Rightarrow> llama_token \<times> 'f token_data_array \<Rightarrow> bool
    \<Rightarrow> ('x, 'f) common_sampler \<Rightarrow> (llama_token \<times> ('x, 'f) common_sampler) option" where
  "sample_and_accept io inp grammar_first gsmpl = do {
     (tok, gsmpl) \<leftarrow> common_sampler_sample io (fst inp) (snd inp) grammar_first gsmpl;
     gsmpl \<leftarrow> common_sampler_accept io tok True gsmpl;
     Some (tok, gsmpl)
   }"

fun accept_draft :: "('x, 'f::{zero,one}) sampler_i \<Rightarrow> (llama_token \<times> 'f token_data_array) list \<Rightarrow> llama_token list
    \<Rightarrow> bool \<Rightarrow> ('x, 'f) common_sampler \<Rightarrow> (llama_token list \<times> ('x, 'f) common_sampler) option" where
  "accept_draft io (inp # inps) (d # draft) gf gsmpl = do {
     (tok, gsmpl) \<leftarrow> sample_and_accept io inp gf gsmpl;
     if d \<noteq> tok then Some ([tok], gsmpl)
     else do {
       (toks, gsmpl) \<leftarrow> accept_draft io inps draft gf gsmpl;
       Some (tok # toks, gsmpl)
     }
   }"
| "accept_draft io (inp # inps) [] gf gsmpl = do {
     (tok, gsmpl) \<leftarrow> sample_and_accept io inp gf gsmpl;
     Some ([tok], gsmpl)
   }"
| "accept_draft io [] draft gf gsmpl = None"

definition common_sampler_sample_and_accept_n :: "('x, 'f::{zero,one}) sampler_i
    \<Rightarrow> (llama_token \<times> 'f token_data_array) list \<Rightarrow> llama_token list
    \<Rightarrow> bool \<Rightarrow> ('x, 'f) common_sampler \<Rightarrow> (llama_token list \<times> ('x, 'f) common_sampler) option" where
  "common_sampler_sample_and_accept_n io inputs draft grammar_first gsmpl = do {
     check (length inputs = length draft + 1);
     accept_draft io inputs draft grammar_first gsmpl
   }"

definition common_sampler_last :: "('x, 'f) common_sampler \<Rightarrow> llama_token option" where
  "common_sampler_last gsmpl = ring_rat (prev gsmpl) 0"

definition common_sampler_prev_str :: "(llama_token \<Rightarrow> byte list) \<Rightarrow> int \<Rightarrow> ('x, 'f) common_sampler \<Rightarrow> byte list option" where
  "common_sampler_prev_str piece n gsmpl =
     (let n = min n (int (ring_size (prev gsmpl))) in
      if n \<le> 0 then Some []
      else foldM (\<lambda>i result. do {
          tok \<leftarrow> ring_rat (prev gsmpl) i;
          check (tok \<noteq> LLAMA_TOKEN_NULL);
          Some (result @ piece tok)
        }) (rev [0..<nat n]) [])"

section \<open>Generation without a draft\<close>

text \<open>The specification of speculative sampling: tokens sampled and accepted one after the other.\<close>

fun generate :: "('x, 'f::{zero,one}) sampler_i \<Rightarrow> (llama_token \<times> 'f token_data_array) list
    \<Rightarrow> bool \<Rightarrow> ('x, 'f) common_sampler \<Rightarrow> (llama_token list \<times> ('x, 'f) common_sampler) option" where
  "generate io [] gf gsmpl = Some ([], gsmpl)"
| "generate io (inp # inps) gf gsmpl = do {
     (tok, gsmpl) \<leftarrow> sample_and_accept io inp gf gsmpl;
     (toks, gsmpl) \<leftarrow> generate io inps gf gsmpl;
     Some (tok # toks, gsmpl)
   }"

text \<open>
  The tokens that a draft yields are those of the generation over the same outputs: the common
  prefix with the draft and one token more.
\<close>

lemma accept_draft_generate:
  assumes "length inps = length draft + 1" and "accept_draft io inps draft gf s = Some (toks, s')"
  shows "toks \<noteq> [] \<and> length toks \<le> length draft + 1 \<and> butlast toks = take (length toks - 1) draft \<and>
    (length toks \<le> length draft \<longrightarrow> draft ! (length toks - 1) \<noteq> last toks) \<and>
    generate io (take (length toks) inps) gf s = Some (toks, s')"
  using assms
proof (induction io inps draft gf s arbitrary: toks s' rule: accept_draft.induct)
  case (1 io inp inps d draft gf s)
  from "1.prems"(2) obtain t s1 where t: "sample_and_accept io inp gf s = Some (t, s1)"
    by (auto split: bind_splits)
  show ?case
  proof (cases "d = t")
    case False
    with "1.prems"(2) t show ?thesis by auto
  next
    case True
    with "1.prems"(2) t obtain ts where ts: "accept_draft io inps draft gf s1 = Some (ts, s')" "toks = t # ts"
      by (auto split: bind_splits)
    from "1.IH" [OF t refl _ _ ts(1)] True "1.prems"(1)
    have IH: "ts \<noteq> [] \<and> length ts \<le> length draft + 1 \<and> butlast ts = take (length ts - 1) draft \<and>
        (length ts \<le> length draft \<longrightarrow> draft ! (length ts - 1) \<noteq> last ts) \<and>
        generate io (take (length ts) inps) gf s1 = Some (ts, s')" by simp
    then obtain n where n: "length ts = Suc n" by (cases ts) auto
    with IH t ts(2) True show ?thesis by simp
  qed
next
  case (2 io inp inps gf s)
  then show ?case by (auto split: bind_splits)
next
  case (3 io draft gf s)
  then show ?case by simp
qed

lemma common_sampler_sample_prev:
  assumes "common_sampler_sample io b l gf s = Some (t, s')"
  shows "prev s' = prev s"
  using assms by (auto simp: common_sampler_sample_def Let_def split: if_splits bind_splits)

lemma generate_history:
  assumes "generate io inps gf s = Some (toks, s')" and "ring_wf (prev s)" and "0 < ring_capacity (prev s)"
  shows "ring_wf (prev s') \<and> ring_contents (prev s') = last_n (ring_capacity (prev s)) (ring_contents (prev s) @ toks)"
proof -
  have "foldM ring_push_back toks (prev s) = Some (prev s')"
    using assms(1)
  proof (induction io inps gf s arbitrary: toks rule: generate.induct)
    case (2 io inp inps gf s)
    then obtain t s1 s2 ts where t: "common_sampler_sample io (fst inp) (snd inp) gf s = Some (t, s1)"
      "common_sampler_accept io t True s1 = Some s2" "generate io inps gf s2 = Some (ts, s')" "toks = t # ts"
      by (auto simp: sample_and_accept_def split: bind_splits)
    then have "ring_push_back t (prev s) = Some (prev s2)"
      using common_sampler_sample_prev [OF t(1)]
      by (auto simp: common_sampler_accept_def split: bind_splits)
    then show ?case using "2.IH" [of "(t, s2)" t s2 ts] t by (simp add: sample_and_accept_def)
  qed simp
  moreover have "length (ring_contents (prev s)) \<le> ring_capacity (prev s)"
    using assms(2) by (simp add: ring_wf_def)
  ultimately show ?thesis using ring.push_all [OF assms(2,3), of toks] by auto
qed

end
