(* ===== verification/Sampler_Props.thy ===== *)
theory Sampler_Props
  imports Common_Sampler
begin

text \<open>
  Properties of the samplers: UTF-8 round trip, the matcher of the reasoning budget, the order and
  the end of a reasoning block, and sampling with a grammar and with a draft.
\<close>

section \<open>UTF-8\<close>

text \<open>C35: Encoding a code point and parsing it back gives the code point, wherever it stands in a
  text; a text cut inside the sequence is reported as incomplete by the parser at that offset and
  by the completeness test, and the whole sequence is complete.\<close>

theorem utf8_encode_parse:
  assumes "common_unicode_cpt_to_utf8 c = Some bs"
  shows "common_parse_utf8_codepoint (pre @ bs @ post) (length pre) = utf8_parse_result SUCCESS c (length bs)
    \<and> common_utf8_is_complete (pre @ bs)
    \<and> (\<forall>k < length bs. common_parse_utf8_codepoint (pre @ take k bs) (length pre) = utf8_parse_result INCOMPLETE 0 0
         \<and> (0 < k \<longrightarrow> \<not> common_utf8_is_complete (pre @ take k bs)))"
proof -
  have "0 < length bs" using assms by (cases rule: cpt_cases) auto
  then show ?thesis
    using parse_encoded [OF assms refl] parse_truncated [OF assms] complete_prefix [OF assms, of "length bs"]
      complete_prefix [OF assms] by auto
qed

lemma utf8_encode_parse_witness:
  "common_parse_utf8_codepoint ([65] @ [0xE2, 0x82, 0xAC] @ [66]) (length [65::byte])
     = utf8_parse_result SUCCESS 0x20AC (length [0xE2, 0x82, 0xAC::byte])
   \<and> \<not> common_utf8_is_complete ([65] @ take 2 [0xE2, 0x82, 0xAC])"
proof -
  have "common_unicode_cpt_to_utf8 0x20AC = Some [0xE2, 0x82, 0xAC]"
    by (simp add: common_unicode_cpt_to_utf8_def utf8_arith drop_bit_eq_div)
  moreover have "2 < length [0xE2, 0x82, 0xAC::byte]" by simp
  ultimately show ?thesis
    using utf8_encode_parse [of "0x20AC" "[0xE2, 0x82, 0xAC]" "[65]" "[66]"] zero_less_numeral by blast
qed

section \<open>The reasoning budget\<close>

text \<open>C30: When the first token of a start or end sequence does not occur again in it, the matcher
  reports a match exactly when the tokens fed so far end with the sequence.\<close>

theorem matcher_finds_sequence:
  assumes "tk \<noteq> []" and "hd tk \<notin> set (tl tk)"
  shows "\<exists>m m'. tm_feed ts \<lparr>tm_tokens = tk, tm_pos = 0\<rparr> = Some m \<and>
    tm_advance t m = Some (suffix tk (ts @ [t]), m')"
proof -
  obtain m where m: "tm_feed ts \<lparr>tm_tokens = tk, tm_pos = 0\<rparr> = Some m" "tm_at ts m" "tm_tokens m = tk"
    using tm_feed_spec [of "\<lparr>tm_tokens = tk, tm_pos = 0\<rparr>" ts] assms by auto
  with tm_advance_spec [OF m(2), of t] assms show ?thesis by auto
qed

lemma matcher_finds_sequence_witness:
  "\<exists>m m'. tm_feed [7, 1, 1] \<lparr>tm_tokens = [1, 2], tm_pos = 0\<rparr> = Some m \<and>
     tm_advance 2 m = Some (suffix [1, 2] ([7, 1, 1] @ [2::llama_token]), m')"
  using matcher_finds_sequence [of "[1, 2]" "[7, 1, 1]" 2] by simp

text \<open>Without that condition matches are missed: the sequence a a b after a a a b.\<close>

lemma matcher_misses_overlap:
  assumes "a \<noteq> b"
  shows "\<exists>m m'. tm_feed [a, a, a] \<lparr>tm_tokens = [a, a, b], tm_pos = 0\<rparr> = Some m \<and>
    tm_advance b m = Some (False, m') \<and> suffix [a, a, b] ([a, a, a] @ [b])"
  using assms by (auto simp: tm_feed_def tm_advance_def vget_def suffix_def)

text \<open>C25: In every reachable context no callback leaves a vector, the state only moves forward in
  the order idle, counting, waiting, forcing, done, the tokens that remain while counting are
  positive and at most the budget, and a sampler that is done changes nothing any more.\<close>

theorem reasoning_states_ordered:
  assumes "rb_reachable ctx"
  shows "(\<exists>ctx'. common_reasoning_budget_accept ctx t = Some ctx' \<and>
           state_rank (rb_state ctx) \<le> state_rank (rb_state ctx') \<and> rb_config ctx' = rb_config ctx)
    \<and> state_rank (rb_state ctx) \<le> state_rank (rb_state (fst (common_reasoning_budget_apply ctx cur)))
    \<and> (rb_state ctx = REASONING_BUDGET_COUNTING \<longrightarrow> 0 < rb_remaining ctx \<and> rb_remaining ctx \<le> rb_budget ctx)
    \<and> (rb_state ctx = REASONING_BUDGET_DONE \<longrightarrow>
         common_reasoning_budget_accept ctx t = Some ctx \<and> common_reasoning_budget_apply ctx cur = (ctx, cur))"
proof -
  have inv: "rb_inv ctx" using assms by (rule rb_reachable_inv)
  obtain ctx1 cur1 where app: "common_reasoning_budget_apply ctx cur = (ctx1, cur1)" by force
  obtain ctx' where "common_reasoning_budget_accept ctx t = Some ctx'" "rb_config ctx' = rb_config ctx"
      "state_rank (rb_state ctx) \<le> state_rank (rb_state ctx')"
    using accept_ok [OF inv] by metis
  then show ?thesis
    using apply_ok(3) [OF inv app] app inv by (auto simp: rb_inv_def done_stays)
qed

definition demo_budget :: "int \<Rightarrow> common_reasoning_budget_state \<Rightarrow> common_reasoning_budget_ctx" where
  "demo_budget b s = common_reasoning_budget_init None [1] [2] [8, 2] b s"

lemma reasoning_states_ordered_witness:
  "state_rank (rb_state (demo_budget 1 REASONING_BUDGET_COUNTING)) \<le>
     state_rank (rb_state (fst (common_reasoning_budget_apply (demo_budget 1 REASONING_BUDGET_COUNTING)
       [(5, Finite (0::int))])))"
  using reasoning_states_ordered [of "demo_budget 1 REASONING_BUDGET_COUNTING" 5 "[(5, Finite (0::int))]"]
  by (simp add: demo_budget_def rb_reachable.init)

text \<open>C24: A reasoning block ends. From a counting context, when every token is complete as a piece
  of UTF-8, as many rounds as there are remaining and forced tokens leave the sampler done, whatever
  the candidates and the tokens are.\<close>

theorem reasoning_ends:
  assumes "rb_reachable ctx" and "rb_state ctx = REASONING_BUDGET_COUNTING" and "rb_forced_tokens ctx \<noteq> []"
    and "\<forall>(cur, t) \<in> set rs. piece_complete ctx t"
    and "length rs \<ge> nat (rb_remaining ctx) + length (rb_forced_tokens ctx)"
  shows "\<exists>ctx' outs. rb_rounds ctx rs = Some (ctx', outs) \<and> rb_state ctx' = REASONING_BUDGET_DONE"
  using assms
  by (intro rounds_reach_done) (auto simp: rounds_left_def intro: rb_reachable_inv)

lemma reasoning_ends_witness:
  "\<exists>ctx' outs. rb_rounds (demo_budget 1 REASONING_BUDGET_COUNTING)
     [([(5, Finite (0::int))], 5), ([(5, Finite 0), (8, Finite 1)], 8), ([(2, Finite 0)], 2)] = Some (ctx', outs)
     \<and> rb_state ctx' = REASONING_BUDGET_DONE"
  by (rule reasoning_ends)
     (simp_all add: demo_budget_def rb_reachable.init,
      simp_all add: common_reasoning_budget_init_def piece_complete_def)

text \<open>While it forces, every round leaves one candidate possible, the next forced token, in
  order from the first; after the last the candidates pass unchanged.\<close>

theorem reasoning_forces_in_order:
  assumes "rb_state ctx = REASONING_BUDGET_FORCING" and "rb_force_pos ctx = 0" and "rb_forced_tokens ctx \<noteq> []"
  shows "\<exists>ctx' outs. rb_rounds ctx rs = Some (ctx', outs) \<and> length outs = length rs \<and>
    (\<forall>i < length rs.
       if i < length (rb_forced_tokens ctx)
       then (\<forall>(tok, l) \<in> set (outs ! i). l \<noteq> Minus_Infinity \<longrightarrow> tok = rb_forced_tokens ctx ! i)
         \<and> outs ! i = keep_only (rb_forced_tokens ctx ! i) (fst (rs ! i))
       else outs ! i = fst (rs ! i))"
proof -
  define fo where "fo = rb_forced_tokens ctx"
  define outs where "outs = map2 (\<lambda>t (cur, _). keep_only t cur) fo rs @ map fst (drop (length fo) rs)"
  have run: "\<exists>ctx'. rb_rounds ctx rs = Some (ctx', outs)"
    using rounds_forcing [OF assms(1), of rs] assms(2,3) by (simp add: outs_def fo_def)
  have "outs ! i = (if i < length fo then keep_only (fo ! i) (fst (rs ! i)) else fst (rs ! i))"
    if "i < length rs" for i
    using that by (auto simp: outs_def nth_append split: prod.splits)
  moreover have "length outs = length rs" by (auto simp: outs_def)
  ultimately show ?thesis
    using run unfolding fo_def by (fastforce dest: keep_only_forces)
qed

lemma reasoning_forces_in_order_witness:
  "\<exists>ctx' outs. rb_rounds (demo_budget 0 REASONING_BUDGET_COUNTING)
     [([(5, Finite (0::int)), (8, Finite 1)], 8)] = Some (ctx', outs) \<and> length outs = 1 \<and>
     outs ! 0 = [(5, Minus_Infinity), (8, Finite 1)]"
  using reasoning_forces_in_order [of "demo_budget 0 REASONING_BUDGET_COUNTING"
      "[([(5, Finite (0::int)), (8, Finite 1)], 8)]"]
  by (auto simp: demo_budget_def common_reasoning_budget_init_def keep_only_def)


text \<open>A token of one byte that is not ASCII is never complete as a piece.\<close>

lemma lone_byte_incomplete: "128 \<le> b \<Longrightarrow> b < 256 \<Longrightarrow> \<not> common_utf8_is_complete [b]"
proof -
  assume b: "128 \<le> b" "b < 256"
  then have "b < 192 \<Longrightarrow> b div 64 = 2" by (intro div_nat_eqI) auto
  with b show "\<not> common_utf8_is_complete [b]"
    by (cases "b < 192") (auto simp: common_utf8_is_complete_def utf8_arith)
qed

lemma encoded_bytes:
  assumes "common_unicode_cpts_to_utf8 cps = Some bs" and "\<forall>c \<in> set cps. 128 \<le> c"
  shows "\<forall>b \<in> set bs. 128 \<le> b \<and> b < 256"
  using assms
proof (induction cps arbitrary: bs)
  case (Cons c cps)
  then obtain bs1 bs2 where bs: "common_unicode_cpt_to_utf8 c = Some bs1"
      "common_unicode_cpts_to_utf8 cps = Some bs2" "bs = bs1 @ bs2"
    by (auto split: bind_splits)
  have m: "c mod 64 < 64" "c div 64 mod 64 < 64" "c div 4096 mod 64 < 64" by simp_all
  have "\<forall>b \<in> set bs1. 128 \<le> b \<and> b < 256"
    using bs(1)
  proof (cases rule: cpt_cases)
    case one
    with Cons.prems(2) show ?thesis by simp
  next
    case two
    then have "c div 64 < 32" by simp
    with two m show ?thesis by auto
  next
    case three
    then have "c div 4096 < 16" by simp
    with three m show ?thesis by auto
  next
    case four
    then have "c div 262144 < 8" by simp
    with four m show ?thesis by auto
  qed
  with Cons.IH [OF bs(2)] Cons.prems(2) bs(3) show ?case by auto
qed simp

lemma encoded_complete:
  assumes "common_unicode_cpts_to_utf8 cps = Some bs"
  shows "common_utf8_is_complete bs"
proof (cases cps rule: rev_cases)
  case Nil
  with assms show ?thesis by (simp add: common_utf8_is_complete_def)
next
  case (snoc cps1 c)
  have "\<exists>pre bs1. bs = pre @ bs1 \<and> common_unicode_cpt_to_utf8 c = Some bs1"
    using assms snoc
  proof (induction cps1 arbitrary: cps bs)
    case Nil
    then show ?case by (auto split: bind_splits)
  next
    case (Cons d cps1)
    then obtain bs1 bs2 where "common_unicode_cpts_to_utf8 (cps1 @ [c]) = Some bs2" "bs = bs1 @ bs2"
      by (auto split: bind_splits)
    with Cons.IH [OF this(1) refl] show ?case by (metis append.assoc)
  qed
  then obtain pre bs1 where bs: "bs = pre @ bs1" "common_unicode_cpt_to_utf8 c = Some bs1" by blast
  have "0 < length bs1" using bs(2) by (cases rule: cpt_cases) auto
  with complete_prefix [OF bs(2) this, of pre] bs(1) show ?thesis by simp
qed

lemma tm_advance_foreign:
  assumes "tm_ok m" and "t \<notin> set (tm_tokens m)"
  shows "\<exists>m'. tm_advance t m = Some (False, m') \<and> tm_ok m' \<and> tm_tokens m' = tm_tokens m"
  using tm_advance_ok [OF assms(1), of t] assms by (auto simp: tm_advance_def vget_def split: if_splits)

text \<open>The budget looks at the piece of a token alone: when the tokens are the single bytes of
  characters outside ASCII, every character is completed and the text is complete UTF-8, but a
  sampler that waits for the end of a character waits through the whole text and forces nothing.\<close>

theorem waiting_ignores_split_characters:
  assumes "rb_reachable ctx" and "rb_state ctx = REASONING_BUDGET_WAITING_UTF8"
    and "rb_vocab ctx = Some piece" and "common_unicode_cpts_to_utf8 cps = Some bs"
    and "\<forall>c \<in> set cps. 128 \<le> c" and "map piece ts = map (\<lambda>b. [b]) bs"
    and "\<forall>t \<in> set ts. t \<notin> set (tm_tokens (rb_end_matcher ctx))"
  shows "common_utf8_is_complete (concat (map piece ts)) \<and>
    (\<exists>ctx'. foldM (\<lambda>t c. common_reasoning_budget_accept c t) ts ctx = Some ctx' \<and>
       rb_state ctx' = REASONING_BUDGET_WAITING_UTF8)"
proof -
  have "concat (map piece ts) = bs" unfolding assms(6) by (induction bs) auto
  then have complete: "common_utf8_is_complete (concat (map piece ts))"
    using encoded_complete [OF assms(4)] by simp
  have lone: "\<not> common_utf8_is_complete (piece t)" if "t \<in> set ts" for t
  proof -
    from that assms(6) have "piece t \<in> (\<lambda>b. [b]) ` set bs" by (metis image_eqI list.set_map)
    then show ?thesis using encoded_bytes [OF assms(4,5)] lone_byte_incomplete by auto
  qed
  have "\<exists>ctx'. foldM (\<lambda>t c. common_reasoning_budget_accept c t) us c = Some ctx' \<and>
       rb_state ctx' = REASONING_BUDGET_WAITING_UTF8"
    if "set us \<subseteq> set ts" "rb_inv c" "rb_state c = REASONING_BUDGET_WAITING_UTF8"
      "rb_vocab c = Some piece" "tm_tokens (rb_end_matcher c) = tm_tokens (rb_end_matcher ctx)" for us c
    using that
  proof (induction us arbitrary: c)
    case (Cons u us)
    then have u: "\<not> common_utf8_is_complete (piece u)" "u \<notin> set (tm_tokens (rb_end_matcher c))"
      using lone assms(7) by auto
    obtain em where em: "tm_advance u (rb_end_matcher c) = Some (False, em)" "tm_ok em"
        "tm_tokens em = tm_tokens (rb_end_matcher c)"
      using tm_advance_foreign [of "rb_end_matcher c" u] u(2) Cons.prems(2) unfolding rb_inv_def by blast
    then have "common_reasoning_budget_accept c u = Some (c\<lparr>rb_end_matcher := em\<rparr>)"
      using Cons.prems u by (simp add: common_reasoning_budget_accept_def accept_counting_def piece_complete_def Let_def)
    then show ?case
      using Cons.IH [of "c\<lparr>rb_end_matcher := em\<rparr>"] Cons.prems em by (simp add: rb_inv_def)
  qed simp
  from this [OF subset_refl rb_reachable_inv [OF assms(1)] assms(2,3) refl] complete show ?thesis by simp
qed

definition demo_piece :: "llama_token \<Rightarrow> byte list" where
  "demo_piece t = [nat t]"

text \<open>A vocabulary of bytes: the budget of one token ends inside the first of two characters.\<close>

definition demo_waiting :: common_reasoning_budget_ctx where
  "demo_waiting = common_reasoning_budget_init (Some demo_piece) [1] [2] [8, 2] 1 REASONING_BUDGET_WAITING_UTF8"

lemma waiting_ignores_split_characters_witness:
  "common_utf8_is_complete (concat (map demo_piece [0xC3, 0xA9, 0xC3, 0xA8])) \<and>
   (\<exists>ctx'. foldM (\<lambda>t c. common_reasoning_budget_accept c t) [0xC3, 0xA9, 0xC3, 0xA8] demo_waiting = Some ctx' \<and>
      rb_state ctx' = REASONING_BUDGET_WAITING_UTF8)"
proof (rule waiting_ignores_split_characters [where cps = "[0xE9, 0xE8]" and bs = "[0xC3, 0xA9, 0xC3, 0xA8]"])
  show "rb_reachable demo_waiting" by (simp add: demo_waiting_def rb_reachable.init)
  show "common_unicode_cpts_to_utf8 [0xE9, 0xE8] = Some [0xC3, 0xA9, 0xC3, 0xA8]"
    by (simp add: common_unicode_cpt_to_utf8_def utf8_arith drop_bit_eq_div)
  show "map demo_piece [0xC3, 0xA9, 0xC3, 0xA8] = map (\<lambda>b. [b]) [0xC3, 0xA9, 0xC3, 0xA8]"
    by (simp add: demo_piece_def)
qed (simp_all add: demo_waiting_def common_reasoning_budget_init_def)

text \<open>A copy of the sampler made inside a block starts with the whole budget and an empty match.\<close>

lemma clone_restores_budget:
  "rb_remaining (common_reasoning_budget_clone ctx) = rb_budget ctx"
  "rb_force_pos (common_reasoning_budget_clone ctx) = 0"
  "tm_pos (rb_end_matcher (common_reasoning_budget_clone ctx)) = 0"
  by (simp_all add: common_reasoning_budget_clone_def common_reasoning_budget_init_def)


section \<open>Sampling with a grammar and with a draft\<close>

text \<open>The budget advances when it is applied, not when a token is accepted. When the grammar
  rejects the forced token, \<^verbatim>\<open>common_sampler_sample\<close> applies the chain again, and the second
  application forces the token after it: two forced tokens are used up for one token of output.\<close>

theorem resampling_skips_forced:
  assumes "chain gsmpl = Reasoning_Budget ctx # rest" and "rb_state ctx = REASONING_BUDGET_FORCING"
    and "rb_force_pos ctx + 2 < length (rb_forced_tokens ctx)"
    and "llama_sampler_chain_apply io (chain gsmpl) logits = Some (ch, a)" and "selected_id a = Some tok"
    and "fits_grammar io tok (grmr gsmpl) = Some (False, g)"
    and "common_sampler_sample io LLAMA_TOKEN_NULL logits False gsmpl = Some (tok', gsmpl')"
  shows "\<exists>ctx' rest'. chain gsmpl' = Reasoning_Budget ctx' # rest' \<and>
    rb_state ctx' = REASONING_BUDGET_FORCING \<and> rb_force_pos ctx' = rb_force_pos ctx + 2"
proof -
  have twice: "\<exists>ctx' rest'. ch' = Reasoning_Budget ctx' # rest' \<and>
      rb_state ctx' = REASONING_BUDGET_FORCING \<and> rb_force_pos ctx' = rb_force_pos c + 1 \<and>
      rb_forced_tokens ctx' = rb_forced_tokens c"
    if "llama_sampler_chain_apply io (Reasoning_Budget c # r) l = Some (ch', a')"
      "rb_state c = REASONING_BUDGET_FORCING" "rb_force_pos c + 1 < length (rb_forced_tokens c)" for c r l ch' a'
    using that by (auto simp: common_reasoning_budget_apply_def Let_def split: bind_splits)
  obtain ctx1 rest1 where c1: "ch = Reasoning_Budget ctx1 # rest1" "rb_state ctx1 = REASONING_BUDGET_FORCING"
      "rb_force_pos ctx1 = rb_force_pos ctx + 1" "rb_forced_tokens ctx1 = rb_forced_tokens ctx"
    using twice [of ctx rest logits ch a] assms(1-4) by auto
  from assms(4-7) obtain g2 l2 ch2 a2 where "llama_sampler_chain_apply io ch l2 = Some (ch2, a2)"
      "chain gsmpl' = ch2"
    by (auto simp: common_sampler_sample_def split: bind_splits)
  then show ?thesis using twice [of ctx1 rest1 l2 ch2 a2] c1 assms(3) by auto
qed

text \<open>C16: A draft does not change the text. The tokens that sampling against a draft accepts are the
  tokens that sampling one by one produces from the same outputs and state, with the same sampler
  afterwards; they agree with the draft up to the last, which differs from it unless the whole draft
  was accepted; and the history holds the last tokens in order.\<close>

theorem draft_equals_generation:
  assumes "common_sampler_sample_and_accept_n io inputs draft gf gsmpl = Some (toks, gsmpl')"
    and "ring_wf (prev gsmpl)" and "0 < ring_capacity (prev gsmpl)"
  shows "generate io (take (length toks) inputs) gf gsmpl = Some (toks, gsmpl')
    \<and> 1 \<le> length toks \<and> length toks \<le> length draft + 1
    \<and> butlast toks = take (length toks - 1) draft
    \<and> (length toks \<le> length draft \<longrightarrow> draft ! (length toks - 1) \<noteq> last toks)
    \<and> ring_to_vector (prev gsmpl') =
        Some (last_n (ring_capacity (prev gsmpl)) (ring_contents (prev gsmpl) @ toks))
    \<and> common_sampler_last gsmpl' = Some (last toks)"
proof -
  from assms(1) have "length inputs = length draft + 1" "accept_draft io inputs draft gf gsmpl = Some (toks, gsmpl')"
    by (auto simp: common_sampler_sample_and_accept_n_def)
  from accept_draft_generate [OF this] have d: "toks \<noteq> []" "length toks \<le> length draft + 1"
      "butlast toks = take (length toks - 1) draft"
      "length toks \<le> length draft \<longrightarrow> draft ! (length toks - 1) \<noteq> last toks"
      "generate io (take (length toks) inputs) gf gsmpl = Some (toks, gsmpl')" by auto
  from generate_history [OF d(5) assms(2,3)] have h: "ring_wf (prev gsmpl')"
      "ring_contents (prev gsmpl') = last_n (ring_capacity (prev gsmpl)) (ring_contents (prev gsmpl) @ toks)" by auto
  have "0 < length (ring_contents (prev gsmpl'))" using d(1) assms(3) unfolding h(2) by simp
  then have "ring_contents (prev gsmpl') \<noteq> []" by (metis list.size(3) less_irrefl)
  moreover have "last (ring_contents (prev gsmpl')) = last toks"
    using d(1) assms(3) by (simp add: h(2))
  ultimately have "common_sampler_last gsmpl' = Some (last toks)"
    using ring_rat_ok [OF h(1), of 0] by (simp add: common_sampler_last_def rev_nth last_conv_nth del: ring_contents_length)
  moreover have "1 \<le> length toks" using d(1) by (cases toks) auto
  ultimately show ?thesis using d h ring_to_vector_ok [OF h(1)] by simp
qed


text \<open>
  A concrete sampler for the examples: \<open>[]\<close> stands for greedy selection of the first candidate that
  is possible, a list of tokens for a grammar that allows these tokens.
\<close>

fun first_possible :: "int \<Rightarrow> 'f token_data list \<Rightarrow> int" where
  "first_possible i [] = - 1"
| "first_possible i ((_, l) # d) = (case l of Finite _ \<Rightarrow> i | Minus_Infinity \<Rightarrow> first_possible (i + 1) d)"

definition demo_apply :: "llama_token list \<Rightarrow> 'f token_data_array \<Rightarrow> (llama_token list \<times> 'f token_data_array) option" where
  "demo_apply x a = Some (x, if x = [] then a\<lparr>selected := first_possible 0 (data a)\<rparr>
     else a\<lparr>data := map (\<lambda>(t, l). (t, if t \<in> set x then l else Minus_Infinity)) (data a)\<rparr>)"

definition demo_io :: "(llama_token list, int) sampler_i" where
  "demo_io = \<lparr>i_accept = \<lambda>x t. Some x, i_apply = demo_apply, i_reset = id, i_clone = id\<rparr>"

definition demo_logits :: "int token_data_array" where
  "demo_logits = \<lparr>data = [(5, Finite 0), (8, Finite 1), (9, Finite 2)], selected = - 1\<rparr>"

definition demo_forcing :: common_reasoning_budget_ctx where
  "demo_forcing = common_reasoning_budget_init None [1] [2] [5, 9, 2] 0 REASONING_BUDGET_COUNTING"

definition demo_sampler :: "llama_token list sampler option \<Rightarrow> (llama_token list, int) common_sampler" where
  "demo_sampler g = \<lparr>grmr = g, chain = [Reasoning_Budget demo_forcing, Other []],
     prev = ring_buffer_new 0 2, cur_p = demo_logits\<rparr>"

lemmas demo_sampler_defs = demo_sampler_def demo_forcing_def demo_logits_def demo_io_def demo_apply_def
  common_reasoning_budget_init_def common_reasoning_budget_apply_def common_reasoning_budget_accept_def
  keep_only_def selected_id_def fits_grammar_def grammar_apply_def common_sampler_sample_def
  common_sampler_accept_def grammar_accept_def sample_and_accept_def
  common_sampler_sample_and_accept_n_def ring_buffer_new_def ring_push_back_def cmod_def vget_def vset_def

text \<open>The forced tokens are 5, 9, 2; the grammar allows 9 only, and 5 is never put out.\<close>

lemma resampling_skips_forced_witness:
  "\<exists>gsmpl' ctx' rest'. common_sampler_sample demo_io LLAMA_TOKEN_NULL demo_logits False
     (demo_sampler (Some (Other [9]))) = Some (9, gsmpl') \<and>
   chain gsmpl' = Reasoning_Budget ctx' # rest' \<and> rb_force_pos ctx' = 2"
proof -
  have ch: "chain (demo_sampler (Some (Other [9]))) = Reasoning_Budget demo_forcing # [Other []]"
    by (simp add: demo_sampler_def)
  obtain ch1 a where a: "llama_sampler_chain_apply demo_io (chain (demo_sampler (Some (Other [9])))) demo_logits = Some (ch1, a)"
      "selected_id a = Some 5"
    by (simp add: demo_sampler_defs)
  obtain g where g: "fits_grammar demo_io 5 (grmr (demo_sampler (Some (Other [9])))) = Some (False, g)"
    by (simp add: demo_sampler_defs)
  obtain s where s: "common_sampler_sample demo_io LLAMA_TOKEN_NULL demo_logits False
     (demo_sampler (Some (Other [9]))) = Some (9, s)"
    by (simp add: demo_sampler_defs)
  have f: "rb_state demo_forcing = REASONING_BUDGET_FORCING" "rb_force_pos demo_forcing = 0"
      "rb_force_pos demo_forcing + 2 < length (rb_forced_tokens demo_forcing)"
    by (simp_all add: demo_forcing_def common_reasoning_budget_init_def)
  from resampling_skips_forced [OF ch f(1) f(3) a g s] f(2) s show ?thesis by auto
qed

lemma draft_equals_generation_witness:
  "\<exists>s'. common_sampler_sample_and_accept_n demo_io (replicate 3 (LLAMA_TOKEN_NULL, demo_logits)) [5, 8] True
     (demo_sampler None) = Some ([5, 9], s') \<and>
   generate demo_io (take (length [5, 9 :: llama_token]) (replicate 3 (LLAMA_TOKEN_NULL, demo_logits))) True
     (demo_sampler None) = Some ([5, 9], s') \<and> common_sampler_last s' = Some (last [5, 9])"
proof -
  obtain s' where s': "common_sampler_sample_and_accept_n demo_io (replicate 3 (LLAMA_TOKEN_NULL, demo_logits)) [5, 8] True
     (demo_sampler None) = Some ([5, 9], s')"
    by (simp add: numeral_3_eq_3 demo_sampler_defs)
  have "ring_wf (prev (demo_sampler None))" "0 < ring_capacity (prev (demo_sampler None))"
    by (simp_all add: demo_sampler_def)
  from draft_equals_generation [OF s' this] s' show ?thesis by blast
qed

end
