(* ===== verification/Grammar_Rules.thy ===== *)
theory Grammar_Rules
  imports Tl_Prelude "HOL-Library.Word"
begin

unbundle bit_operations_syntax

text \<open>
  Grammar rules and the matching of one position (src/src/llama-grammar.h and the matching functions
  of src/src/llama-grammar.cpp).

  A rule is the vector of its elements. A pointer to an element is the pair of the index of its rule
  and its offset; \<open>deref\<close> reads it and is \<open>None\<close> outside the vector. A code point, a rule number and
  a token number are the \<^verbatim>\<open>uint32_t\<close> value of an element, a \<open>nat\<close>.
\<close>

datatype llama_gretype =
  LLAMA_GRETYPE_END | LLAMA_GRETYPE_ALT | LLAMA_GRETYPE_RULE_REF | LLAMA_GRETYPE_CHAR
| LLAMA_GRETYPE_CHAR_NOT | LLAMA_GRETYPE_CHAR_RNG_UPPER | LLAMA_GRETYPE_CHAR_ALT
| LLAMA_GRETYPE_CHAR_ANY | LLAMA_GRETYPE_TOKEN | LLAMA_GRETYPE_TOKEN_NOT

record llama_grammar_element =
  ge_type :: llama_gretype
  ge_value :: nat

definition elem :: "llama_gretype \<Rightarrow> nat \<Rightarrow> llama_grammar_element" where
  "elem t v = \<lparr>ge_type = t, ge_value = v\<rparr>"

lemma elem_simps [simp]: "ge_type (elem t v) = t" "ge_value (elem t v) = v"
  by (simp_all add: elem_def)

type_synonym llama_grammar_rule = "llama_grammar_element list"
type_synonym llama_grammar_rules = "llama_grammar_rule list"
type_synonym gpos = "nat \<times> nat"

definition deref :: "llama_grammar_rules \<Rightarrow> gpos \<Rightarrow> llama_grammar_element option" where
  "deref rules p = do {
     rule \<leftarrow> vget rules (fst p);
     vget rule (snd p)
   }"

definition next_pos :: "gpos \<Rightarrow> gpos" where
  "next_pos p = (fst p, snd p + 1)"

record llama_partial_utf8 =
  pu_value :: nat
  pu_n_remain :: int

definition is_char_element :: "llama_grammar_element \<Rightarrow> bool" where
  "is_char_element e \<longleftrightarrow> ge_type e \<in> {LLAMA_GRETYPE_CHAR, LLAMA_GRETYPE_CHAR_NOT,
     LLAMA_GRETYPE_CHAR_ALT, LLAMA_GRETYPE_CHAR_RNG_UPPER, LLAMA_GRETYPE_CHAR_ANY}"

definition is_end_type :: "llama_gretype \<Rightarrow> bool" where
  "is_end_type t \<longleftrightarrow> t = LLAMA_GRETYPE_END \<or> t = LLAMA_GRETYPE_ALT"

definition llama_grammar_is_end_of_sequence :: "llama_grammar_rules \<Rightarrow> gpos \<Rightarrow> bool option" where
  "llama_grammar_is_end_of_sequence rules p = do {
     e \<leftarrow> deref rules p;
     Some (is_end_type (ge_type e))
   }"

section \<open>Matching a character\<close>

definition is_positive_char :: "llama_gretype \<Rightarrow> bool" where
  "is_positive_char t \<longleftrightarrow> t = LLAMA_GRETYPE_CHAR \<or> t = LLAMA_GRETYPE_CHAR_ANY"

definition is_char_start :: "llama_gretype \<Rightarrow> bool" where
  "is_char_start t \<longleftrightarrow> is_positive_char t \<or> t = LLAMA_GRETYPE_CHAR_NOT"

text \<open>
  The loop of \<^verbatim>\<open>llama_grammar_match_char\<close> over the elements from the position on. \<open>n\<close> counts the
  elements that are passed; \<open>pos[1]\<close> and the element after the range are read, so that a rule that
  ends there gives \<open>None\<close>.
\<close>

fun match_loop :: "nat \<Rightarrow> llama_grammar_rule \<Rightarrow> bool \<Rightarrow> nat \<Rightarrow> (bool \<times> nat) option" where
  "match_loop chr (e0 # e1 # es) found n =
     (if ge_type e1 = LLAMA_GRETYPE_CHAR_RNG_UPPER then
        (let found = (found \<or> ge_value e0 \<le> chr \<and> chr \<le> ge_value e1) in
         case es of [] \<Rightarrow> None
         | e2 # es' \<Rightarrow> if ge_type e2 = LLAMA_GRETYPE_CHAR_ALT
                      then match_loop chr (e2 # es') found (n + 2) else Some (found, n + 2))
      else
        (let found = (if ge_type e0 = LLAMA_GRETYPE_CHAR_ANY then True else found \<or> ge_value e0 = chr) in
         if ge_type e1 = LLAMA_GRETYPE_CHAR_ALT then match_loop chr (e1 # es) found (n + 1)
         else Some (found, n + 1)))"
| "match_loop chr _ found n = None"

definition llama_grammar_match_char :: "llama_grammar_rules \<Rightarrow> gpos \<Rightarrow> nat \<Rightarrow> (bool \<times> gpos) option" where
  "llama_grammar_match_char rules p chr = do {
     e \<leftarrow> deref rules p;
     check (is_char_start (ge_type e));
     rule \<leftarrow> vget rules (fst p);
     (found, n) \<leftarrow> match_loop chr (drop (snd p) rule) False 0;
     Some (found = is_positive_char (ge_type e), (fst p, snd p + n))
   }"

text \<open>
  The loop of \<^verbatim>\<open>llama_grammar_match_partial_char\<close>: the code points from \<open>low\<close> to \<open>high\<close> are those the
  unfinished sequence may still become.
\<close>

fun match_partial_loop :: "bool \<Rightarrow> nat \<Rightarrow> nat \<Rightarrow> llama_grammar_rule \<Rightarrow> bool option" where
  "match_partial_loop positive low high (e0 # e1 # es) =
     (if ge_type e1 = LLAMA_GRETYPE_CHAR_RNG_UPPER then
        (if ge_value e0 \<le> high \<and> low \<le> ge_value e1 then Some positive
         else (case es of [] \<Rightarrow> None
               | e2 # es' \<Rightarrow> if ge_type e2 = LLAMA_GRETYPE_CHAR_ALT
                            then match_partial_loop positive low high (e2 # es') else Some (\<not> positive)))
      else if ge_type e0 = LLAMA_GRETYPE_CHAR_ANY then Some True
      else if low \<le> ge_value e0 \<and> ge_value e0 \<le> high then Some positive
      else if ge_type e1 = LLAMA_GRETYPE_CHAR_ALT then match_partial_loop positive low high (e1 # es)
      else Some (\<not> positive))"
| "match_partial_loop positive low high _ = None"

definition llama_grammar_match_partial_char ::
  "llama_grammar_rules \<Rightarrow> gpos \<Rightarrow> llama_partial_utf8 \<Rightarrow> bool option" where
  "llama_grammar_match_partial_char rules p partial = do {
     e \<leftarrow> deref rules p;
     check (is_char_start (ge_type e));
     let v = pu_value partial;
     let n = pu_n_remain partial;
     if n < 0 \<or> n = 1 \<and> v < 2 then Some False
     else do {
       let low = u32 (push_bit (nat n * 6) v);
       let high = low OR (push_bit (nat n * 6) 1 - 1);
       let low = (if low = 0 then (if n = 2 then push_bit 11 1 else if n = 3 then push_bit 16 1 else low) else low);
       rule \<leftarrow> vget rules (fst p);
       match_partial_loop (is_positive_char (ge_type e)) low high (drop (snd p) rule)
     }
   }"

definition llama_grammar_match_token :: "llama_grammar_rules \<Rightarrow> gpos \<Rightarrow> llama_token \<Rightarrow> bool option" where
  "llama_grammar_match_token rules p token = do {
     e \<leftarrow> deref rules p;
     check (ge_type e = LLAMA_GRETYPE_TOKEN \<or> ge_type e = LLAMA_GRETYPE_TOKEN_NOT);
     let t = nat (token mod 4294967296);
     Some (if ge_type e = LLAMA_GRETYPE_TOKEN then ge_value e = t else ge_value e \<noteq> t)
   }"

definition is_token_type :: "llama_gretype \<Rightarrow> bool" where
  "is_token_type t \<longleftrightarrow> t = LLAMA_GRETYPE_TOKEN \<or> t = LLAMA_GRETYPE_TOKEN_NOT"

section \<open>Well-formed rules\<close>

text \<open>
  A rule ends with its only END; an upper bound or an alternative follows a character it belongs to;
  a reference names a rule.
\<close>

definition may_follow :: "llama_gretype \<Rightarrow> llama_gretype \<Rightarrow> bool" where
  "may_follow t u \<longleftrightarrow>
     (u = LLAMA_GRETYPE_CHAR_RNG_UPPER \<longrightarrow>
        t \<in> {LLAMA_GRETYPE_CHAR, LLAMA_GRETYPE_CHAR_NOT, LLAMA_GRETYPE_CHAR_ALT}) \<and>
     (u = LLAMA_GRETYPE_CHAR_ALT \<longrightarrow>
        t \<in> {LLAMA_GRETYPE_CHAR, LLAMA_GRETYPE_CHAR_NOT, LLAMA_GRETYPE_CHAR_ALT, LLAMA_GRETYPE_CHAR_RNG_UPPER})"

text \<open>\<open>body_ok t es\<close>: the elements \<open>es\<close>, none of them END, may stand after an element of type \<open>t\<close>.\<close>

fun body_ok :: "llama_gretype \<Rightarrow> llama_grammar_rule \<Rightarrow> bool" where
  "body_ok t [] = True"
| "body_ok t (e # es) = (ge_type e \<noteq> LLAMA_GRETYPE_END \<and> may_follow t (ge_type e) \<and> body_ok (ge_type e) es)"

definition rule_ok :: "llama_grammar_rule \<Rightarrow> bool" where
  "rule_ok rule \<longleftrightarrow> (\<exists>body v. rule = body @ [elem LLAMA_GRETYPE_END v] \<and> body_ok LLAMA_GRETYPE_ALT body)"

definition refs_ok :: "nat \<Rightarrow> llama_grammar_rule \<Rightarrow> bool" where
  "refs_ok n rule \<longleftrightarrow> (\<forall>e \<in> set rule. ge_type e = LLAMA_GRETYPE_RULE_REF \<longrightarrow> ge_value e < n)"

definition wf_rules :: "llama_grammar_rules \<Rightarrow> bool" where
  "wf_rules rules \<longleftrightarrow> (\<forall>rule \<in> set rules. rule_ok rule \<and> refs_ok (length rules) rule)"

text \<open>A position a stack may hold: not inside a character class.\<close>

definition is_start_type :: "llama_gretype \<Rightarrow> bool" where
  "is_start_type t \<longleftrightarrow> t \<noteq> LLAMA_GRETYPE_CHAR_RNG_UPPER \<and> t \<noteq> LLAMA_GRETYPE_CHAR_ALT"

definition start_pos :: "llama_grammar_rules \<Rightarrow> gpos \<Rightarrow> bool" where
  "start_pos rules p \<longleftrightarrow> (\<exists>e. deref rules p = Some e \<and> is_start_type (ge_type e))"

lemmas gretype_defs = is_start_type_def is_end_type_def is_char_start_def is_positive_char_def is_token_type_def

text \<open>What the well-formedness of a rule says of a suffix of it.\<close>

fun suffix_ok :: "llama_gretype \<Rightarrow> llama_grammar_rule \<Rightarrow> bool" where
  "suffix_ok t [] = False"
| "suffix_ok t [e] = (ge_type e = LLAMA_GRETYPE_END)"
| "suffix_ok t (e # es) = (ge_type e \<noteq> LLAMA_GRETYPE_END \<and> may_follow t (ge_type e) \<and> suffix_ok (ge_type e) es)"

lemma suffix_ok_body: "body_ok t body \<Longrightarrow> suffix_ok t (body @ [elem LLAMA_GRETYPE_END v])"
proof (induction t body rule: body_ok.induct)
  case (2 t e es)
  then show ?case by (cases es) auto
qed simp

lemma suffix_ok_drop: "suffix_ok t es \<Longrightarrow> i < length es \<Longrightarrow> \<exists>t'. suffix_ok t' (drop i es)"
proof (induction t es arbitrary: i rule: suffix_ok.induct)
  case (3 t e e' es)
  then show ?case by (cases i) auto
qed auto

lemma wf_suffix:
  assumes "wf_rules rules" and "deref rules p = Some e"
  obtains rule t where "vget rules (fst p) = Some rule" "rule \<in> set rules" "suffix_ok t (drop (snd p) rule)"
    "drop (snd p) rule = e # drop (snd p + 1) rule"
proof -
  from assms(2) obtain rule where r: "vget rules (fst p) = Some rule" "snd p < length rule" "e = rule ! snd p"
    by (auto simp: deref_def split: bind_splits)
  then have "rule \<in> set rules" by auto
  moreover from this assms(1) have "suffix_ok LLAMA_GRETYPE_ALT rule"
    by (auto simp: wf_rules_def rule_ok_def intro: suffix_ok_body)
  then obtain t where "suffix_ok t (drop (snd p) rule)" using suffix_ok_drop r(2) by blast
  ultimately show ?thesis using that r by (simp add: Cons_nth_drop_Suc)
qed

text \<open>Matching from a start position stays in the rule and ends at a start position.\<close>

lemma match_loop_ok:
  assumes "suffix_ok t es" and "ge_type (hd es) \<in> {LLAMA_GRETYPE_CHAR, LLAMA_GRETYPE_CHAR_NOT,
      LLAMA_GRETYPE_CHAR_ANY, LLAMA_GRETYPE_CHAR_ALT}"
  shows "\<exists>b k. match_loop chr es found n = Some (b, n + k) \<and> 0 < k \<and> k < length es \<and>
    is_start_type (ge_type (es ! k))"
  using assms
proof (induction chr es found n arbitrary: t rule: match_loop.induct)
  case (1 chr e0 e1 es found n)
  from "1.prems" have e1: "suffix_ok (ge_type e0) (e1 # es)" by (cases es) auto
  show ?case
  proof (cases "ge_type e1 = LLAMA_GRETYPE_CHAR_RNG_UPPER")
    case True
    with e1 obtain e2 es' where es: "es = e2 # es'" by (cases es) auto
    with e1 have e2: "suffix_ok (ge_type e1) (e2 # es')" by simp
    show ?thesis
    proof (cases "ge_type e2 = LLAMA_GRETYPE_CHAR_ALT")
      case alt: True
      from "1.IH"(1) [OF True refl es alt e2] alt obtain b k
        where "match_loop chr (e2 # es') (found \<or> ge_value e0 \<le> chr \<and> chr \<le> ge_value e1) (n + 2) = Some (b, n + 2 + k)"
          "0 < k" "k < length (e2 # es')" "is_start_type (ge_type ((e2 # es') ! k))" by auto
      then show ?thesis using True alt es by (intro exI [of _ b] exI [of _ "k + 2"]) (simp add: add.commute)
    next
      case False
      have "may_follow (ge_type e1) (ge_type e2) \<or> ge_type e2 = LLAMA_GRETYPE_END" using e2 by (cases es') auto
      then have "is_start_type (ge_type e2)" using False True by (auto simp: is_start_type_def may_follow_def)
      then show ?thesis using True False es by (intro exI [of _ "found \<or> ge_value e0 \<le> chr \<and> chr \<le> ge_value e1"] exI [of _ 2]) simp
    qed
  next
    case False
    let ?f = "if ge_type e0 = LLAMA_GRETYPE_CHAR_ANY then True else found \<or> ge_value e0 = chr"
    show ?thesis
    proof (cases "ge_type e1 = LLAMA_GRETYPE_CHAR_ALT")
      case alt: True
      from "1.IH"(2) [OF False refl alt e1] alt obtain b k
        where "match_loop chr (e1 # es) ?f (n + 1) = Some (b, n + 1 + k)"
          "0 < k" "k < length (e1 # es)" "is_start_type (ge_type ((e1 # es) ! k))" by auto
      then show ?thesis using False alt by (intro exI [of _ b] exI [of _ "k + 1"]) (simp add: Let_def)
    next
      case no: False
      then show ?thesis using False by (intro exI [of _ ?f] exI [of _ 1]) (simp add: Let_def is_start_type_def)
    qed
  qed
qed auto

lemma match_char_ok:
  assumes "wf_rules rules" and "deref rules p = Some e" and "is_char_start (ge_type e)"
  shows "\<exists>b q. llama_grammar_match_char rules p chr = Some (b, q) \<and> start_pos rules q \<and> fst q = fst p \<and> snd p < snd q"
proof -
  obtain rule t where r: "vget rules (fst p) = Some rule" "suffix_ok t (drop (snd p) rule)"
      "drop (snd p) rule = e # drop (snd p + 1) rule"
    using wf_suffix [OF assms(1,2)] by metis
  with match_loop_ok [OF r(2), of chr False 0] assms(3) obtain b k where
    "match_loop chr (drop (snd p) rule) False 0 = Some (b, k)" "0 < k" "k < length (drop (snd p) rule)"
    "is_start_type (ge_type (drop (snd p) rule ! k))"
    by (auto simp: gretype_defs)
  with r(1) assms(2,3) show ?thesis
    by (auto simp: llama_grammar_match_char_def start_pos_def deref_def vget_def
        split: if_splits)
qed

lemma match_partial_char_ok:
  assumes "wf_rules rules" and "deref rules p = Some e" and "is_char_start (ge_type e)"
  shows "\<exists>b. llama_grammar_match_partial_char rules p u = Some b"
proof -
  have loop: "\<exists>b. match_partial_loop pos low high es = Some b"
    if "suffix_ok t es" "ge_type (hd es) \<in> {LLAMA_GRETYPE_CHAR, LLAMA_GRETYPE_CHAR_NOT,
      LLAMA_GRETYPE_CHAR_ANY, LLAMA_GRETYPE_CHAR_ALT}" for pos low high es t
    using that
  proof (induction pos low high es arbitrary: t rule: match_partial_loop.induct)
    case (1 pos low high e0 e1 es)
    from "1.prems" have e1: "suffix_ok (ge_type e0) (e1 # es)" by (cases es) auto
    show ?case
    proof (cases "ge_type e1 = LLAMA_GRETYPE_CHAR_RNG_UPPER")
      case True
      with e1 obtain e2 es' where es: "es = e2 # es'" by (cases es) auto
      with e1 have "suffix_ok (ge_type e1) (e2 # es')" by simp
      with "1.IH"(1) [OF True _ es] True es show ?thesis by auto
    next
      case False
      with "1.IH"(2) [OF False] e1 show ?thesis by auto
    qed
  qed auto
  obtain rule t where r: "vget rules (fst p) = Some rule" "suffix_ok t (drop (snd p) rule)"
      "drop (snd p) rule = e # drop (snd p + 1) rule"
    using wf_suffix [OF assms(1,2)] by metis
  have "\<exists>b. match_partial_loop pos low high (drop (snd p) rule) = Some b" for pos low high
    using loop [OF r(2)] r(3) assms(3) by (auto simp: gretype_defs)
  moreover have "Ex Not" by auto
  ultimately show ?thesis
    using r(1) assms(2,3) by (simp add: llama_grammar_match_partial_char_def Let_def vget_def)
qed

end
