(* ===== verification/Grammar_Stack.thy ===== *)
theory Grammar_Stack
  imports Grammar_Rules
begin

text \<open>
  The pushdown stacks of a grammar (src/src/llama-grammar.cpp): \<^verbatim>\<open>llama_grammar_advance_stack\<close>,
  \<^verbatim>\<open>llama_grammar_accept_chr\<close>, \<^verbatim>\<open>llama_grammar_accept\<close> and the initial stacks, against the language of
  the rules.

  A stack is the list of its pointers, the back of the vector first. The recursion of
  \<^verbatim>\<open>llama_grammar_advance_stack\<close> need not end: it has a bound on its depth, and \<open>None\<close> when the bound
  is reached, when \<^verbatim>\<open>GGML_ABORT\<close> is, or when an access leaves a rule.
\<close>

type_synonym llama_grammar_stack = "gpos list"
type_synonym llama_grammar_stacks = "llama_grammar_stack list"

definition add_stack :: "llama_grammar_stack \<Rightarrow> llama_grammar_stacks \<Rightarrow> llama_grammar_stacks" where
  "add_stack stack new_stacks = (if stack \<in> set new_stacks then new_stacks else new_stacks @ [stack])"

lemma set_add_stack [simp]: "set (add_stack s ns) = insert s (set ns)"
  by (auto simp: add_stack_def)

text \<open>\<open>push_pos\<close>: a position is pushed unless it ends its alternate.\<close>

definition push_pos :: "llama_grammar_rules \<Rightarrow> gpos \<Rightarrow> llama_grammar_stack \<Rightarrow> llama_grammar_stack option" where
  "push_pos rules p stack = do {
     b \<leftarrow> llama_grammar_is_end_of_sequence rules p;
     Some (if b then stack else p # stack)
   }"

text \<open>The offsets at which the alternates of a rule start; the scan goes up to the END.\<close>

fun alts_from :: "nat \<Rightarrow> nat \<Rightarrow> llama_grammar_rule \<Rightarrow> nat list option" where
  "alts_from s i [] = None"
| "alts_from s i (e # es) =
     (if ge_type e = LLAMA_GRETYPE_END then Some [s]
      else if ge_type e = LLAMA_GRETYPE_ALT then map_option ((#) s) (alts_from (i + 1) (i + 1) es)
      else alts_from s (i + 1) es)"

definition alternates :: "llama_grammar_rules \<Rightarrow> nat \<Rightarrow> nat list option" where
  "alternates rules v = Option.bind (vget rules v) (alts_from 0 0)"

text \<open>The stack with one alternate of the rule on top in place of the reference to it.\<close>

definition alternate_stack :: "llama_grammar_rules \<Rightarrow> gpos \<Rightarrow> llama_grammar_stack \<Rightarrow> nat \<Rightarrow> nat
    \<Rightarrow> llama_grammar_stack option" where
  "alternate_stack rules pos stack rule_id a = do {
     new_stack \<leftarrow> push_pos rules (next_pos pos) stack;
     push_pos rules (rule_id, a) new_stack
   }"

fun llama_grammar_advance_stack :: "nat \<Rightarrow> llama_grammar_rules \<Rightarrow> llama_grammar_stack
    \<Rightarrow> llama_grammar_stacks \<Rightarrow> llama_grammar_stacks option" where
  "llama_grammar_advance_stack 0 rules stack new_stacks = None"
| "llama_grammar_advance_stack (Suc fuel) rules [] new_stacks = Some (add_stack [] new_stacks)"
| "llama_grammar_advance_stack (Suc fuel) rules (pos # stack) new_stacks = do {
     e \<leftarrow> deref rules pos;
     if ge_type e = LLAMA_GRETYPE_RULE_REF then do {
       alts \<leftarrow> alternates rules (ge_value e);
       foldM (\<lambda>a new_stacks. do {
         new_stack \<leftarrow> alternate_stack rules pos stack (ge_value e) a;
         llama_grammar_advance_stack fuel rules new_stack new_stacks
       }) alts new_stacks
     }
     else if is_char_start (ge_type e) \<or> is_token_type (ge_type e)
     then Some (add_stack (pos # stack) new_stacks)
     else None
   }"

definition llama_grammar_accept_chr :: "nat \<Rightarrow> llama_grammar_rules \<Rightarrow> llama_grammar_stack \<Rightarrow> nat
    \<Rightarrow> llama_grammar_stacks \<Rightarrow> llama_grammar_stacks option" where
  "llama_grammar_accept_chr fuel rules stack chr new_stacks =
     (case stack of
        [] \<Rightarrow> Some new_stacks
      | pos # stk \<Rightarrow> do {
          e \<leftarrow> deref rules pos;
          if is_token_type (ge_type e) then Some new_stacks
          else do {
            (matched, q) \<leftarrow> llama_grammar_match_char rules pos chr;
            if matched then do {
              new_stack \<leftarrow> push_pos rules q stk;
              llama_grammar_advance_stack fuel rules new_stack new_stacks
            }
            else Some new_stacks
          }
        })"

definition accept_stacks :: "nat \<Rightarrow> llama_grammar_rules \<Rightarrow> llama_grammar_stacks \<Rightarrow> nat \<Rightarrow> llama_grammar_stacks option" where
  "accept_stacks fuel rules stacks chr =
     foldM (\<lambda>stack ns. llama_grammar_accept_chr fuel rules stack chr ns) stacks []"

text \<open>The loop of \<^verbatim>\<open>llama_grammar_init_impl\<close> over the alternates of the start rule.\<close>

definition initial_stacks :: "nat \<Rightarrow> llama_grammar_rules \<Rightarrow> nat \<Rightarrow> llama_grammar_stacks option" where
  "initial_stacks fuel rules start = do {
     alts \<leftarrow> alternates rules start;
     foldM (\<lambda>a stacks. do {
       stack \<leftarrow> push_pos rules (start, a) [];
       llama_grammar_advance_stack fuel rules stack stacks
     }) alts []
   }"

section \<open>The language of a grammar\<close>

text \<open>
  The words of code points that the elements from a position to the end of its alternate produce,
  and those of a rule. A token element produces no word of characters.
\<close>

inductive seq_lang :: "llama_grammar_rules \<Rightarrow> gpos \<Rightarrow> nat list \<Rightarrow> bool"
  and rule_lang :: "llama_grammar_rules \<Rightarrow> nat \<Rightarrow> nat list \<Rightarrow> bool"
  for rules :: llama_grammar_rules where
  seq_end: "llama_grammar_is_end_of_sequence rules p = Some True \<Longrightarrow> seq_lang rules p []"
| seq_chr: "\<lbrakk>llama_grammar_match_char rules p c = Some (True, q); seq_lang rules q w\<rbrakk>
    \<Longrightarrow> seq_lang rules p (c # w)"
| seq_ref: "\<lbrakk>deref rules p = Some e; ge_type e = LLAMA_GRETYPE_RULE_REF; rule_lang rules (ge_value e) u;
     seq_lang rules (next_pos p) w\<rbrakk> \<Longrightarrow> seq_lang rules p (u @ w)"
| rule: "\<lbrakk>alternates rules v = Some alts; a \<in> set alts; seq_lang rules (v, a) w\<rbrakk> \<Longrightarrow> rule_lang rules v w"

inductive_cases seq_langE: "seq_lang rules p w"
inductive_cases rule_langE: "rule_lang rules v w"

fun stack_lang :: "llama_grammar_rules \<Rightarrow> llama_grammar_stack \<Rightarrow> nat list \<Rightarrow> bool" where
  "stack_lang rules [] w \<longleftrightarrow> w = []"
| "stack_lang rules (p # stack) w \<longleftrightarrow> (\<exists>u v. w = u @ v \<and> seq_lang rules p u \<and> stack_lang rules stack v)"

definition stacks_lang :: "llama_grammar_rules \<Rightarrow> llama_grammar_stacks \<Rightarrow> nat list \<Rightarrow> bool" where
  "stacks_lang rules stacks w \<longleftrightarrow> (\<exists>s \<in> set stacks. stack_lang rules s w)"

lemma seq_lang_end:
  assumes "llama_grammar_is_end_of_sequence rules p = Some True"
  shows "seq_lang rules p w \<longleftrightarrow> w = []"
proof
  assume "seq_lang rules p w"
  then show "w = []"
    using assms
    by (cases rule: seq_langE)
       (auto simp: llama_grammar_is_end_of_sequence_def llama_grammar_match_char_def gretype_defs
          split: bind_splits)
qed (auto intro: seq_end [OF assms])

lemma seq_lang_char:
  assumes "deref rules p = Some e" and "is_char_start (ge_type e)"
    and "llama_grammar_match_char rules p c = Some (b, q)"
  shows "seq_lang rules p (c # w) \<longleftrightarrow> b \<and> seq_lang rules q w"
proof
  assume "seq_lang rules p (c # w)"
  then show "b \<and> seq_lang rules q w"
    using assms by (cases rule: seq_langE) (auto simp: gretype_defs)
next
  assume "b \<and> seq_lang rules q w"
  then show "seq_lang rules p (c # w)" using assms(3) by (auto intro: seq_chr)
qed

lemma seq_lang_char_Nil:
  assumes "deref rules p = Some e" and "is_char_start (ge_type e) \<or> is_token_type (ge_type e)"
  shows "\<not> seq_lang rules p []"
proof
  assume "seq_lang rules p []"
  then show False
    using assms
    by (cases rule: seq_langE) (auto simp: llama_grammar_is_end_of_sequence_def gretype_defs)
qed

lemma seq_lang_token:
  assumes "deref rules p = Some e" and "is_token_type (ge_type e)"
  shows "\<not> seq_lang rules p w"
proof
  assume "seq_lang rules p w"
  then show False
    using assms
    by (cases rule: seq_langE)
       (auto simp: llama_grammar_is_end_of_sequence_def llama_grammar_match_char_def gretype_defs)
qed

lemma seq_lang_ref:
  assumes "deref rules p = Some e" and "ge_type e = LLAMA_GRETYPE_RULE_REF"
  shows "seq_lang rules p w \<longleftrightarrow> (\<exists>u v. w = u @ v \<and> rule_lang rules (ge_value e) u \<and> seq_lang rules (next_pos p) v)"
proof
  assume "seq_lang rules p w"
  then show "\<exists>u v. w = u @ v \<and> rule_lang rules (ge_value e) u \<and> seq_lang rules (next_pos p) v"
    using assms
    by (cases rule: seq_langE)
       (auto simp: llama_grammar_is_end_of_sequence_def llama_grammar_match_char_def gretype_defs
          split: bind_splits, blast)
qed (auto intro: seq_ref [OF assms])

lemma rule_lang_alts:
  assumes "alternates rules v = Some alts"
  shows "rule_lang rules v w \<longleftrightarrow> (\<exists>a \<in> set alts. seq_lang rules (v, a) w)"
proof
  assume "rule_lang rules v w"
  then show "\<exists>a \<in> set alts. seq_lang rules (v, a) w" using assms by (cases rule: rule_langE) auto
qed (auto intro: rule [OF assms])

lemma push_pos_lang:
  assumes "push_pos rules p stack = Some stack'"
  shows "stack_lang rules stack' w \<longleftrightarrow> (\<exists>u v. w = u @ v \<and> seq_lang rules p u \<and> stack_lang rules stack v)"
proof -
  from assms obtain b where b: "llama_grammar_is_end_of_sequence rules p = Some b"
      "stack' = (if b then stack else p # stack)"
    by (auto simp: push_pos_def split: bind_splits)
  then show ?thesis by (cases b) (simp_all add: seq_lang_end)
qed

section \<open>The stacks represent the language\<close>

text \<open>A stack is ready when it is empty or its top is a character or a token.\<close>

definition ready :: "llama_grammar_rules \<Rightarrow> llama_grammar_stack \<Rightarrow> bool" where
  "ready rules stack \<longleftrightarrow> (case stack of [] \<Rightarrow> True | p # _ \<Rightarrow>
     \<exists>e. deref rules p = Some e \<and> (is_char_start (ge_type e) \<or> is_token_type (ge_type e)))"

text \<open>
  A loop that adds, for every element, stacks with a given language: the shape of
  \<^verbatim>\<open>advance_stack\<close>, \<^verbatim>\<open>accept\<close> and the initialisation.
\<close>

definition adds :: "llama_grammar_rules \<Rightarrow> (nat list \<Rightarrow> bool) \<Rightarrow> llama_grammar_stacks \<Rightarrow> llama_grammar_stacks \<Rightarrow> bool" where
  "adds rules L ns ns' \<longleftrightarrow> (\<forall>w. stacks_lang rules ns' w \<longleftrightarrow> stacks_lang rules ns w \<or> L w) \<and>
     (\<forall>s \<in> set ns'. s \<in> set ns \<or> ready rules s)"

lemma foldM_mono:
  assumes "foldM f xs s = Some t" and "\<And>x s t. x \<in> set xs \<Longrightarrow> f x s = Some t \<Longrightarrow> g x s = Some t"
  shows "foldM g xs s = Some t"
  using assms
proof (induction xs arbitrary: s)
  case (Cons x xs)
  then obtain u where "f x s = Some u" "foldM f xs u = Some t" by (auto dest: bind_SomeD)
  with Cons show ?case by simp
qed simp

lemma adds_foldM:
  assumes "foldM f xs ns = Some ns'"
    and "\<And>x ns ns'. x \<in> set xs \<Longrightarrow> f x ns = Some ns' \<Longrightarrow> adds rules (L x) ns ns'"
  shows "adds rules (\<lambda>w. \<exists>x \<in> set xs. L x w) ns ns'"
  using assms
proof (induction xs arbitrary: ns)
  case Nil
  then show ?case by (simp add: adds_def)
next
  case (Cons x xs)
  then obtain ns1 where ns1: "f x ns = Some ns1" "foldM f xs ns1 = Some ns'" by (auto dest: bind_SomeD)
  from Cons.IH [OF ns1(2)] Cons.prems(2) have "adds rules (\<lambda>w. \<exists>x \<in> set xs. L x w) ns1 ns'" by auto
  moreover from Cons.prems(2) [OF _ ns1(1)] have "adds rules (L x) ns ns1" by simp
  ultimately show ?case unfolding adds_def by (simp, blast)
qed

lemma advance_adds:
  assumes "llama_grammar_advance_stack fuel rules stack ns = Some ns'"
  shows "adds rules (stack_lang rules stack) ns ns'"
  using assms
proof (induction fuel rules stack ns arbitrary: ns' rule: llama_grammar_advance_stack.induct)
  case (1 rules stack ns)
  then show ?case by simp
next
  case (2 fuel rules ns)
  then show ?case by (auto simp: adds_def stacks_lang_def ready_def)
next
  case (3 fuel rules pos stack ns)
  from "3.prems" obtain e where e: "deref rules pos = Some e" by (auto split: bind_splits)
  show ?case
  proof (cases "ge_type e = LLAMA_GRETYPE_RULE_REF")
    case False
    with "3.prems" e have "ns' = add_stack (pos # stack) ns"
        "is_char_start (ge_type e) \<or> is_token_type (ge_type e)"
      by (auto split: if_splits)
    then show ?thesis using e by (auto simp: adds_def stacks_lang_def ready_def)
  next
    case True
    with "3.prems" e obtain alts where alts: "alternates rules (ge_value e) = Some alts"
      and loop: "foldM (\<lambda>a ns. do {
         s \<leftarrow> alternate_stack rules pos stack (ge_value e) a;
         llama_grammar_advance_stack fuel rules s ns }) alts ns = Some ns'"
      by (auto split: bind_splits)
    have "adds rules (\<lambda>w. \<exists>a \<in> set alts. \<exists>u v. w = u @ v \<and> seq_lang rules (ge_value e, a) u \<and>
        (\<exists>x y. v = x @ y \<and> seq_lang rules (next_pos pos) x \<and> stack_lang rules stack y)) ns ns'"
    proof (rule adds_foldM [OF loop])
      fix a ms ms'
      assume a: "a \<in> set alts" and "do {
         s \<leftarrow> alternate_stack rules pos stack (ge_value e) a;
         llama_grammar_advance_stack fuel rules s ms } = Some ms'"
      then obtain s where s: "alternate_stack rules pos stack (ge_value e) a = Some s"
          "llama_grammar_advance_stack fuel rules s ms = Some ms'"
        by (auto split: bind_splits)
      have "adds rules (stack_lang rules s) ms ms'"
        by (rule "3.IH" [OF e True alts a s])
      then show "adds rules (\<lambda>w. \<exists>u v. w = u @ v \<and> seq_lang rules (ge_value e, a) u \<and>
        (\<exists>x y. v = x @ y \<and> seq_lang rules (next_pos pos) x \<and> stack_lang rules stack y)) ms ms'"
        using s(1)
        by (auto simp: alternate_stack_def push_pos_lang adds_def split: bind_splits)
    qed
    moreover have "stack_lang rules (pos # stack) w \<longleftrightarrow> (\<exists>a \<in> set alts. \<exists>u v. w = u @ v \<and> seq_lang rules (ge_value e, a) u \<and>
        (\<exists>x y. v = x @ y \<and> seq_lang rules (next_pos pos) x \<and> stack_lang rules stack y))" for w
      by (simp add: seq_lang_ref [OF e True] rule_lang_alts [OF alts]) (metis append.assoc)
    ultimately show ?thesis by (simp add: adds_def)
  qed
qed


lemma accept_chr_adds:
  assumes "llama_grammar_accept_chr fuel rules stack c ns = Some ns'"
  shows "adds rules (\<lambda>w. stack_lang rules stack (c # w)) ns ns'"
proof (cases stack)
  case Nil
  with assms show ?thesis by (simp add: llama_grammar_accept_chr_def adds_def)
next
  case (Cons pos stk)
  with assms obtain e where e: "deref rules pos = Some e"
    by (auto simp: llama_grammar_accept_chr_def split: bind_splits)
  show ?thesis
  proof (cases "is_token_type (ge_type e)")
    case True
    with assms e Cons show ?thesis
      by (simp add: llama_grammar_accept_chr_def adds_def seq_lang_token)
  next
    case False
    with assms e Cons obtain b q where m: "llama_grammar_match_char rules pos c = Some (b, q)"
      by (auto simp: llama_grammar_accept_chr_def split: bind_splits)
    then have start: "is_char_start (ge_type e)"
      using e by (auto simp: llama_grammar_match_char_def split: bind_splits)
    have lang: "stack_lang rules stack (c # w) \<longleftrightarrow>
        b \<and> (\<exists>u v. w = u @ v \<and> seq_lang rules q u \<and> stack_lang rules stk v)" for w
    proof -
      have "stack_lang rules stack (c # w) \<longleftrightarrow>
          (\<exists>u v. w = u @ v \<and> seq_lang rules pos (c # u) \<and> stack_lang rules stk v)"
        using seq_lang_char_Nil [OF e] start by (auto simp: Cons Cons_eq_append_conv)
      then show ?thesis by (auto simp: seq_lang_char [OF e start m])
    qed
    show ?thesis
    proof (cases b)
      case True
      with assms e Cons False m obtain s where "push_pos rules q stk = Some s"
          "llama_grammar_advance_stack fuel rules s ns = Some ns'"
        by (auto simp: llama_grammar_accept_chr_def split: bind_splits)
      with advance_adds [OF this(2)] True show ?thesis by (simp add: adds_def lang push_pos_lang)
    next
      case no: False
      with assms e Cons False m have "ns' = ns" by (simp add: llama_grammar_accept_chr_def)
      with no show ?thesis by (simp add: adds_def lang)
    qed
  qed
qed

lemma accept_stacks_lang:
  assumes "accept_stacks fuel rules stacks c = Some stacks'"
  shows "stacks_lang rules stacks' w \<longleftrightarrow> stacks_lang rules stacks (c # w)"
    and "\<forall>s \<in> set stacks'. ready rules s"
  using adds_foldM [where L = "\<lambda>s w. stack_lang rules s (c # w)", OF assms [unfolded accept_stacks_def]]
    accept_chr_adds
  by (auto simp: adds_def stacks_lang_def)

definition accept_word :: "nat \<Rightarrow> llama_grammar_rules \<Rightarrow> nat list \<Rightarrow> llama_grammar_stacks \<Rightarrow> llama_grammar_stacks option" where
  "accept_word fuel rules w stacks = foldM (\<lambda>c stacks. accept_stacks fuel rules stacks c) w stacks"

lemma accept_word_simps [simp]:
  "accept_word fuel rules [] stacks = Some stacks"
  "accept_word fuel rules (c # w) stacks = Option.bind (accept_stacks fuel rules stacks c) (accept_word fuel rules w)"
  by (auto simp: accept_word_def fun_eq_iff intro: Option.bind_cong)

lemma accept_word_lang:
  assumes "accept_word fuel rules w stacks = Some stacks'" and "\<forall>s \<in> set stacks. ready rules s"
  shows "(\<forall>w'. stacks_lang rules stacks' w' \<longleftrightarrow> stacks_lang rules stacks (w @ w')) \<and>
    (\<forall>s \<in> set stacks'. ready rules s)"
  using assms
proof (induction w arbitrary: stacks)
  case (Cons c w)
  then obtain s1 where s1: "accept_stacks fuel rules stacks c = Some s1" "accept_word fuel rules w s1 = Some stacks'"
    by (auto dest: bind_SomeD)
  from Cons.IH [OF s1(2) accept_stacks_lang(2) [OF s1(1)]] accept_stacks_lang(1) [OF s1(1)]
  show ?case by simp
qed simp

lemma initial_stacks_lang:
  assumes "initial_stacks fuel rules start = Some stacks"
  shows "(\<forall>w. stacks_lang rules stacks w \<longleftrightarrow> rule_lang rules start w) \<and> (\<forall>s \<in> set stacks. ready rules s)"
proof -
  from assms obtain alts where alts: "alternates rules start = Some alts"
    and loop: "foldM (\<lambda>a stacks. do {
       stack \<leftarrow> push_pos rules (start, a) [];
       llama_grammar_advance_stack fuel rules stack stacks }) alts [] = Some stacks"
    by (auto simp: initial_stacks_def split: bind_splits)
  have "adds rules (\<lambda>w. \<exists>a \<in> set alts. seq_lang rules (start, a) w) [] stacks"
  proof (rule adds_foldM [OF loop])
    fix a ms ms'
    assume "do { stack \<leftarrow> push_pos rules (start, a) []; llama_grammar_advance_stack fuel rules stack ms } = Some ms'"
    then obtain s where "push_pos rules (start, a) [] = Some s" "llama_grammar_advance_stack fuel rules s ms = Some ms'"
      by (auto split: bind_splits)
    with advance_adds [OF this(2)] show "adds rules (seq_lang rules (start, a)) ms ms'"
      by (simp add: adds_def push_pos_lang)
  qed
  then show ?thesis by (simp add: adds_def rule_lang_alts [OF alts] stacks_lang_def)
qed

lemma ready_lang_Nil:
  assumes "ready rules s"
  shows "stack_lang rules s [] \<longleftrightarrow> s = []"
  using assms by (cases s) (auto simp: ready_def dest: seq_lang_char_Nil)

end
