(* ===== verification/Grammar_Total.thy ===== *)
theory Grammar_Total
  imports Grammar_Stack
begin

text \<open>
  When the recursion of \<^verbatim>\<open>llama_grammar_advance_stack\<close> ends: for well-formed rules in which no rule
  reaches itself at the left, every operation on stacks returns once its depth bound is large enough,
  and the result does not depend on the bound.
\<close>

section \<open>More depth gives the same result\<close>

lemma advance_mono:
  assumes "llama_grammar_advance_stack fuel rules stack ns = Some r" and "fuel \<le> fuel'"
  shows "llama_grammar_advance_stack fuel' rules stack ns = Some r"
  using assms
proof (induction fuel rules stack ns arbitrary: fuel' r rule: llama_grammar_advance_stack.induct)
  case (1 rules stack ns)
  then show ?case by simp
next
  case (2 fuel rules ns)
  then show ?case by (cases fuel') auto
next
  case (3 fuel rules pos stack ns)
  then obtain f where f: "fuel' = Suc f" "fuel \<le> f" by (cases fuel') auto
  from "3.prems"(1) obtain e where e: "deref rules pos = Some e" by (auto split: bind_splits)
  show ?case
  proof (cases "ge_type e = LLAMA_GRETYPE_RULE_REF")
    case False
    with "3.prems"(1) e f show ?thesis by (auto split: if_splits)
  next
    case True
    with "3.prems"(1) e obtain alts where alts: "alternates rules (ge_value e) = Some alts"
      by (auto split: bind_splits)
    with "3.prems"(1) e True have loop: "foldM (\<lambda>a ns. do {
         s \<leftarrow> alternate_stack rules pos stack (ge_value e) a;
         llama_grammar_advance_stack fuel rules s ns }) alts ns = Some r" by simp
    have "foldM (\<lambda>a ns. do {
         s \<leftarrow> alternate_stack rules pos stack (ge_value e) a;
         llama_grammar_advance_stack f rules s ns }) alts ns = Some r"
    proof (rule foldM_mono [OF loop])
      fix a ms ms'
      assume a: "a \<in> set alts" and "do {
         s \<leftarrow> alternate_stack rules pos stack (ge_value e) a;
         llama_grammar_advance_stack fuel rules s ms } = Some ms'"
      then obtain s where s: "alternate_stack rules pos stack (ge_value e) a = Some s"
          "llama_grammar_advance_stack fuel rules s ms = Some ms'"
        by (auto split: bind_splits)
      then show "do {
         s \<leftarrow> alternate_stack rules pos stack (ge_value e) a;
         llama_grammar_advance_stack f rules s ms } = Some ms'"
        using "3.IH" [OF e True alts a s f(2)] by simp
    qed
    with e True alts f show ?thesis by simp
  qed
qed

section \<open>Well-formed stacks\<close>

definition pos_ok :: "llama_grammar_rules \<Rightarrow> gpos \<Rightarrow> bool" where
  "pos_ok rules p \<longleftrightarrow> (\<exists>e. deref rules p = Some e \<and> is_start_type (ge_type e) \<and> \<not> is_end_type (ge_type e))"

abbreviation stack_ok :: "llama_grammar_rules \<Rightarrow> llama_grammar_stack \<Rightarrow> bool" where
  "stack_ok rules stack \<equiv> (\<forall>p \<in> set stack. pos_ok rules p)"

lemma push_pos_total:
  assumes "start_pos rules p"
  obtains stack' where "push_pos rules p stack = Some stack'"
    "\<forall>q \<in> set stack'. q \<in> set stack \<or> pos_ok rules q"
  using assms
  by (auto simp: push_pos_def start_pos_def pos_ok_def llama_grammar_is_end_of_sequence_def)

lemma vget_drop:
  assumes "drop n xs = x # ys"
  shows "vget xs n = Some x"
proof (cases "n < length xs")
  case True
  then show ?thesis using assms Cons_nth_drop_Suc [OF True] by simp
next
  case False
  with assms show ?thesis by simp
qed

lemma next_start_pos:
  assumes "wf_rules rules" and "deref rules p = Some e" and "ge_type e = LLAMA_GRETYPE_RULE_REF \<or> is_token_type (ge_type e)"
  shows "start_pos rules (next_pos p)"
proof -
  obtain rule t where r: "vget rules (fst p) = Some rule" "suffix_ok t (drop (snd p) rule)"
      "drop (snd p) rule = e # drop (snd p + 1) rule"
    using wf_suffix [OF assms(1,2)] by metis
  then obtain e' es where es: "drop (snd p + 1) rule = e' # es"
    using assms(3) by (cases "drop (snd p + 1) rule") (auto simp: is_token_type_def)
  have "suffix_ok t (e # e' # es)" using r(2) unfolding r(3) es .
  then have "may_follow (ge_type e) (ge_type e') \<or> ge_type e' = LLAMA_GRETYPE_END" by (cases es) auto
  then have "is_start_type (ge_type e')"
    using assms(3) unfolding is_start_type_def may_follow_def is_token_type_def by auto
  moreover have "deref rules (next_pos p) = Some e'"
    using r(1) vget_drop [OF es] by (simp add: deref_def next_pos_def vget_def)
  ultimately show ?thesis by (simp add: start_pos_def)
qed

lemma alts_from_starts:
  assumes "suffix_ok t es"
  shows "\<exists>alts. alts_from s i es = Some alts \<and> hd alts = s \<and> alts \<noteq> [] \<and>
    (\<forall>a \<in> set alts. a = s \<or> i \<le> a \<and> a - i < length es \<and> is_start_type (ge_type (es ! (a - i))))"
  using assms
proof (induction t es arbitrary: s i rule: suffix_ok.induct)
  case (2 t e)
  then show ?case by simp
next
  case (3 t e e' es)
  then have ok: "suffix_ok (ge_type e) (e' # es)" "ge_type e \<noteq> LLAMA_GRETYPE_END" by auto
  have shift: "i \<le> a \<and> a - i < length (e # e' # es) \<and> is_start_type (ge_type ((e # e' # es) ! (a - i)))"
    if "i + 1 \<le> a \<and> a - (i + 1) < length (e' # es) \<and> is_start_type (ge_type ((e' # es) ! (a - (i + 1))))" for a
  proof -
    from that have "a - i = Suc (a - (i + 1))" by arith
    with that show ?thesis by simp
  qed
  show ?case
  proof (cases "ge_type e = LLAMA_GRETYPE_ALT")
    case True
    with ok have "is_start_type (ge_type e')" by (cases es) (auto simp: is_start_type_def may_follow_def)
    then obtain alts where alts: "alts_from (i + 1) (i + 1) (e' # es) = Some alts" "alts \<noteq> []"
      "\<forall>a \<in> set alts. a = i + 1 \<or> i + 1 \<le> a \<and> a - (i + 1) < length (e' # es) \<and> is_start_type (ge_type ((e' # es) ! (a - (i + 1))))"
      using "3.IH" [OF ok(1), of "i + 1" "i + 1"] by auto
    have "i \<le> a \<and> a - i < length (e # e' # es) \<and> is_start_type (ge_type ((e # e' # es) ! (a - i)))"
      if "a \<in> set alts" for a
    proof (cases "a = i + 1")
      case True
      with \<open>is_start_type (ge_type e')\<close> show ?thesis by simp
    next
      case False
      with bspec [OF alts(3) that]
      have "i + 1 \<le> a \<and> a - (i + 1) < length (e' # es) \<and> is_start_type (ge_type ((e' # es) ! (a - (i + 1))))"
        by blast
      then show ?thesis by (rule shift)
    qed
    then show ?thesis using alts(1) True ok(2) by auto
  next
    case False
    from "3.IH" [OF ok(1), of s "i + 1"] obtain alts where alts: "alts_from s (i + 1) (e' # es) = Some alts"
      "hd alts = s" "alts \<noteq> []"
      "\<forall>a \<in> set alts. a = s \<or> i + 1 \<le> a \<and> a - (i + 1) < length (e' # es) \<and> is_start_type (ge_type ((e' # es) ! (a - (i + 1))))"
      by auto
    have "\<forall>a \<in> set alts. a = s \<or> i \<le> a \<and> a - i < length (e # e' # es) \<and> is_start_type (ge_type ((e # e' # es) ! (a - i)))"
    proof
      fix a assume "a \<in> set alts"
      from bspec [OF alts(4) this]
      show "a = s \<or> i \<le> a \<and> a - i < length (e # e' # es) \<and> is_start_type (ge_type ((e # e' # es) ! (a - i)))"
        by (rule disj_forward [OF _ _ shift])
    qed
    then show ?thesis using alts(1-3) False ok(2) by (intro exI [of _ alts]) simp
  qed
qed simp


lemma alternates_ok:
  assumes "wf_rules rules" and "v < length rules"
  obtains alts where "alternates rules v = Some alts" "alts \<noteq> []" "\<forall>a \<in> set alts. start_pos rules (v, a)"
proof -
  define rule where "rule = rules ! v"
  have "rule \<in> set rules" using assms(2) by (simp add: rule_def)
  then obtain body b where body: "rule = body @ [elem LLAMA_GRETYPE_END b]" "body_ok LLAMA_GRETYPE_ALT body"
    using assms(1) by (auto simp: wf_rules_def rule_ok_def)
  then have ok: "suffix_ok LLAMA_GRETYPE_ALT rule" by (simp add: suffix_ok_body)
  have first: "is_start_type (ge_type (rule ! 0))"
    using body by (cases body) (auto simp: is_start_type_def may_follow_def)
  have "rule \<noteq> []" using body by simp
  from alts_from_starts [OF ok, of 0 0] obtain alts where alts: "alts_from 0 0 rule = Some alts" "alts \<noteq> []"
    "\<forall>a \<in> set alts. a = 0 \<or> a < length rule \<and> is_start_type (ge_type (rule ! a))" by auto
  have "start_pos rules (v, a)" if "a \<in> set alts" for a
    using alts(3) that first assms(2) \<open>rule \<noteq> []\<close>
    by (cases "a = 0") (auto simp: start_pos_def deref_def vget_def rule_def)
  with alts that assms(2) show ?thesis by (simp add: alternates_def vget_def rule_def)
qed

lemma ref_in_range:
  assumes "wf_rules rules" and "deref rules p = Some e" and "ge_type e = LLAMA_GRETYPE_RULE_REF"
  shows "ge_value e < length rules"
proof -
  obtain rule t where "rule \<in> set rules" "drop (snd p) rule = e # drop (snd p + 1) rule"
    using wf_suffix [OF assms(1,2)] by metis
  moreover from this(2) have "e \<in> set rule" by (intro in_set_dropD [of e "snd p" rule]) simp
  ultimately show ?thesis using assms(1,3) by (auto simp: wf_rules_def refs_ok_def)
qed

lemma alternate_stack_total:
  assumes "wf_rules rules" and "deref rules p = Some e" and "ge_type e = LLAMA_GRETYPE_RULE_REF"
    and "start_pos rules (v, a)"
  shows "\<exists>s. alternate_stack rules p stack v a = Some s \<and> (\<forall>q \<in> set s. q \<in> set stack \<or> pos_ok rules q)"
proof -
  have "start_pos rules (next_pos p)" using next_start_pos [OF assms(1,2)] assms(3) by simp
  then obtain s1 where "push_pos rules (next_pos p) stack = Some s1" "\<forall>q \<in> set s1. q \<in> set stack \<or> pos_ok rules q"
    by (rule push_pos_total)
  moreover obtain s2 where "push_pos rules (v, a) s1 = Some s2" "\<forall>q \<in> set s2. q \<in> set s1 \<or> pos_ok rules q"
    using assms(4) by (rule push_pos_total)
  ultimately show ?thesis by (auto simp: alternate_stack_def)
qed

lemma add_stack_ne [simp]: "add_stack s ns \<noteq> []"
  by (auto simp: add_stack_def)

lemma advance_stack_ok:
  assumes "wf_rules rules" and "llama_grammar_advance_stack fuel rules stack ns = Some ns'"
    and "stack_ok rules stack" and "\<forall>s \<in> set ns. stack_ok rules s"
  shows "(\<forall>s \<in> set ns'. stack_ok rules s) \<and> ns' \<noteq> []"
  using assms
proof (induction fuel rules stack ns arbitrary: ns' rule: llama_grammar_advance_stack.induct)
  case (1 rules stack ns)
  then show ?case by simp
next
  case (2 fuel rules ns)
  then show ?case by auto
next
  case (3 fuel rules pos stack ns)
  from "3.prems"(2) obtain e where e: "deref rules pos = Some e" by (auto split: bind_splits)
  show ?case
  proof (cases "ge_type e = LLAMA_GRETYPE_RULE_REF")
    case False
    with "3.prems" e have "ns' = add_stack (pos # stack) ns" by (auto split: if_splits)
    with "3.prems" show ?thesis by auto
  next
    case True
    with "3.prems"(2) e obtain alts where alts: "alternates rules (ge_value e) = Some alts"
      and loop: "foldM (\<lambda>a ns. do {
         s \<leftarrow> alternate_stack rules pos stack (ge_value e) a;
         llama_grammar_advance_stack fuel rules s ns }) alts ns = Some ns'"
      by (auto split: bind_splits)
    have v: "ge_value e < length rules" by (rule ref_in_range [OF "3.prems"(1) e True])
    from alternates_ok [OF "3.prems"(1) v] alts
    have starts: "alts \<noteq> []" "\<forall>a \<in> set alts. start_pos rules (ge_value e, a)" by auto
    have step: "(\<forall>s \<in> set ms'. stack_ok rules s) \<and> ms' \<noteq> []"
      if a: "a \<in> set alts" and ms: "\<forall>s \<in> set ms. stack_ok rules s" and run: "do {
         s \<leftarrow> alternate_stack rules pos stack (ge_value e) a;
         llama_grammar_advance_stack fuel rules s ms } = Some ms'" for a ms ms'
    proof -
      obtain s where s: "alternate_stack rules pos stack (ge_value e) a = Some s"
          "\<forall>q \<in> set s. q \<in> set stack \<or> pos_ok rules q"
        using alternate_stack_total [OF "3.prems"(1) e True] starts(2) a by blast
      with run have "llama_grammar_advance_stack fuel rules s ms = Some ms'" by simp
      from "3.IH" [OF e True alts a s(1) "3.prems"(1) this _ ms] s(2) "3.prems"(3) show ?thesis by auto
    qed
    obtain a "as" where "as": "alts = a # as" using starts(1) by (cases alts) auto
    from bind_SomeD [OF loop [unfolded "as" foldM.simps]] obtain ns1 where ns1: "do {
         s \<leftarrow> alternate_stack rules pos stack (ge_value e) a;
         llama_grammar_advance_stack fuel rules s ns } = Some ns1" and rest: "foldM (\<lambda>a ns. do {
         s \<leftarrow> alternate_stack rules pos stack (ge_value e) a;
         llama_grammar_advance_stack fuel rules s ns }) as ns1 = Some ns'"
      by blast
    show ?thesis
    proof (rule foldM_invariant [OF rest])
      show "(\<forall>s \<in> set ns1. stack_ok rules s) \<and> ns1 \<noteq> []"
        by (rule step [OF _ "3.prems"(4) ns1]) (simp add: "as")
      fix b ms ms'
      assume "b \<in> set as" and I: "(\<forall>s \<in> set ms. stack_ok rules s) \<and> ms \<noteq> []" and run: "do {
         s \<leftarrow> alternate_stack rules pos stack (ge_value e) b;
         llama_grammar_advance_stack fuel rules s ms } = Some ms'"
      then have "b \<in> set alts" by (simp add: "as")
      from step [OF this conjunct1 [OF I] run] show "(\<forall>s \<in> set ms'. stack_ok rules s) \<and> ms' \<noteq> []" .
    qed
  qed
qed


section \<open>Left references and termination\<close>

text \<open>
  \<open>lead rules p u\<close>: from the position \<open>p\<close> the rule \<open>u\<close> may be the first that is expanded, after
  references to rules that produce the empty word. \<open>left_ref rules v u\<close>: so it is from an alternate
  of \<open>v\<close>.
\<close>

inductive lead :: "llama_grammar_rules \<Rightarrow> gpos \<Rightarrow> nat \<Rightarrow> bool" for rules :: llama_grammar_rules where
  here: "\<lbrakk>deref rules p = Some e; ge_type e = LLAMA_GRETYPE_RULE_REF\<rbrakk> \<Longrightarrow> lead rules p (ge_value e)"
| skip: "\<lbrakk>deref rules p = Some e; ge_type e = LLAMA_GRETYPE_RULE_REF; rule_lang rules (ge_value e) [];
     lead rules (next_pos p) u\<rbrakk> \<Longrightarrow> lead rules p u"

definition left_ref :: "llama_grammar_rules \<Rightarrow> nat \<Rightarrow> nat \<Rightarrow> bool" where
  "left_ref rules v u \<longleftrightarrow> (\<exists>alts a. alternates rules v = Some alts \<and> a \<in> set alts \<and> lead rules (v, a) u)"

text \<open>No rule starts an infinite chain of left references.\<close>

definition not_left_recursive :: "llama_grammar_rules \<Rightarrow> bool" where
  "not_left_recursive rules \<longleftrightarrow> (\<forall>v < length rules. Wellfounded.accp (\<lambda>u v. left_ref rules v u) v)"

definition advances :: "llama_grammar_rules \<Rightarrow> llama_grammar_stack \<Rightarrow> bool" where
  "advances rules stack \<longleftrightarrow> (\<exists>fuel. \<forall>ns. \<exists>ns'. llama_grammar_advance_stack fuel rules stack ns = Some ns')"

definition push_advances :: "llama_grammar_rules \<Rightarrow> gpos \<Rightarrow> llama_grammar_stack \<Rightarrow> bool" where
  "push_advances rules p stack \<longleftrightarrow> (\<exists>s. push_pos rules p stack = Some s \<and> advances rules s)"

lemma advances_Nil [simp]: "advances rules []"
  unfolding advances_def by (rule exI [of _ "Suc 0"]) simp

lemma advances_terminal:
  assumes "deref rules p = Some e" and "is_char_start (ge_type e) \<or> is_token_type (ge_type e)"
  shows "advances rules (p # stack)"
  unfolding advances_def using assms
  by (intro exI [of _ "Suc 0"]) (auto simp: gretype_defs)

lemma advance_total_mono:
  assumes "\<forall>ns. \<exists>ns'. llama_grammar_advance_stack fuel rules stack ns = Some ns'" and "fuel \<le> fuel'"
  shows "\<forall>ns. \<exists>ns'. llama_grammar_advance_stack fuel' rules stack ns = Some ns'"
  using assms advance_mono by blast

lemma advances_ref:
  assumes e: "deref rules p = Some e" "ge_type e = LLAMA_GRETYPE_RULE_REF"
    and alts: "alternates rules (ge_value e) = Some alts"
    and all: "\<forall>a \<in> set alts. \<exists>s. alternate_stack rules p stack (ge_value e) a = Some s \<and> advances rules s"
  shows "advances rules (p # stack)"
proof -
  have "\<exists>fuel. \<forall>a \<in> set as. \<exists>s. alternate_stack rules p stack (ge_value e) a = Some s \<and>
      (\<forall>ns. \<exists>ns'. llama_grammar_advance_stack fuel rules s ns = Some ns')"
    if "set as \<subseteq> set alts" for "as"
    using that
  proof (induction "as")
    case (Cons a as')
    then obtain f1 where f1: "\<forall>a \<in> set as'. \<exists>s. alternate_stack rules p stack (ge_value e) a = Some s \<and>
      (\<forall>ns. \<exists>ns'. llama_grammar_advance_stack f1 rules s ns = Some ns')" by auto
    from Cons.prems all obtain s f2 where "alternate_stack rules p stack (ge_value e) a = Some s"
        "\<forall>ns. \<exists>ns'. llama_grammar_advance_stack f2 rules s ns = Some ns'"
      by (auto simp: advances_def)
    then have "\<exists>s. alternate_stack rules p stack (ge_value e) a = Some s \<and>
        (\<forall>ns. \<exists>ns'. llama_grammar_advance_stack (max f1 f2) rules s ns = Some ns')"
      using advance_total_mono [OF _ max.cobounded2] by blast
    moreover have "\<forall>a \<in> set as'. \<exists>s. alternate_stack rules p stack (ge_value e) a = Some s \<and>
        (\<forall>ns. \<exists>ns'. llama_grammar_advance_stack (max f1 f2) rules s ns = Some ns')"
      using f1 advance_total_mono [OF _ max.cobounded1] by blast
    ultimately show ?case by (intro exI [of _ "max f1 f2"]) simp
  qed simp
  from this [OF subset_refl] obtain fuel where fuel: "\<forall>a \<in> set alts. \<exists>s.
      alternate_stack rules p stack (ge_value e) a = Some s \<and>
      (\<forall>ns. \<exists>ns'. llama_grammar_advance_stack fuel rules s ns = Some ns')" by blast
  have "\<exists>ns'. foldM (\<lambda>a ns. do {
         s \<leftarrow> alternate_stack rules p stack (ge_value e) a;
         llama_grammar_advance_stack fuel rules s ns }) alts ns = Some ns'" for ns
    using foldM_total [of "\<lambda>_. True" ns alts "\<lambda>a ns. do {
         s \<leftarrow> alternate_stack rules p stack (ge_value e) a;
         llama_grammar_advance_stack fuel rules s ns }"] fuel by fastforce
  then show ?thesis
    unfolding advances_def using e alts by (intro exI [of _ "Suc fuel"]) simp
qed


lemma alternate_stack_push:
  assumes "push_pos rules (next_pos p) stack = Some s1"
  shows "alternate_stack rules p stack v a = push_pos rules (v, a) s1"
  using assms by (simp add: alternate_stack_def)

text \<open>
  The walk along one alternate: the references at its left are expanded, the stack below is reached
  only when the rest of the alternate produces the empty word.
\<close>

lemma walk_advances:
  assumes "wf_rules rules" and "start_pos rules p"
    and IH: "\<And>u q stk e. \<lbrakk>lead rules p u; deref rules q = Some e; ge_type e = LLAMA_GRETYPE_RULE_REF;
        ge_value e = u; rule_lang rules u [] \<Longrightarrow> push_advances rules (next_pos q) stk\<rbrakk> \<Longrightarrow> advances rules (q # stk)"
    and below: "seq_lang rules p [] \<Longrightarrow> advances rules stack"
  shows "push_advances rules p stack"
  using assms
proof (induction "length (rules ! fst p) - snd p" arbitrary: p rule: less_induct)
  case less
  obtain e where e: "deref rules p = Some e" "is_start_type (ge_type e)"
    using less.prems(2) by (auto simp: start_pos_def)
  have inside: "snd p < length (rules ! fst p)" using e(1) by (auto simp: deref_def split: bind_splits)
  consider "is_end_type (ge_type e)" | "is_char_start (ge_type e) \<or> is_token_type (ge_type e)"
    | "ge_type e = LLAMA_GRETYPE_RULE_REF"
    using e(2) by (cases "ge_type e") (auto simp: gretype_defs)
  then show ?case
  proof cases
    case 1
    then have eos: "llama_grammar_is_end_of_sequence rules p = Some True"
      using e by (simp add: llama_grammar_is_end_of_sequence_def)
    then have "advances rules stack" using less.prems(4) by (simp add: seq_lang_end)
    then show ?thesis using eos by (simp add: push_advances_def push_pos_def)
  next
    case 2
    then have "push_pos rules p stack = Some (p # stack)"
      using e by (auto simp: push_pos_def llama_grammar_is_end_of_sequence_def gretype_defs)
    then show ?thesis using advances_terminal [OF e(1) 2] by (simp add: push_advances_def)
  next
    case 3
    then have push: "push_pos rules p stack = Some (p # stack)"
      using e by (auto simp: push_pos_def llama_grammar_is_end_of_sequence_def gretype_defs)
    have "advances rules (p # stack)"
    proof (rule less.prems(3) [OF lead.here [OF e(1) 3] e(1) 3 refl])
      assume null: "rule_lang rules (ge_value e) []"
      show "push_advances rules (next_pos p) stack"
      proof (rule less.hyps)
        show "length (rules ! fst (next_pos p)) - snd (next_pos p) < length (rules ! fst p) - snd p"
          using inside by (simp add: next_pos_def)
        show "start_pos rules (next_pos p)" using next_start_pos [OF less.prems(1) e(1)] 3 by simp
        show "advances rules stack" if "seq_lang rules (next_pos p) []"
          using less.prems(4) seq_ref [OF e(1) 3 null that] by simp
        show "advances rules (q # stk)"
          if "lead rules (next_pos p) u" "deref rules q = Some e'" "ge_type e' = LLAMA_GRETYPE_RULE_REF"
            "ge_value e' = u" "rule_lang rules u [] \<Longrightarrow> push_advances rules (next_pos q) stk" for u q stk e'
          using less.prems(3) [OF lead.skip [OF e(1) 3 null that(1)] that(2-5)] .
      qed (rule less.prems(1))
    qed
    then show ?thesis using push by (simp add: push_advances_def)
  qed
qed

lemma ref_advances:
  assumes "wf_rules rules" and "Wellfounded.accp (\<lambda>u v. left_ref rules v u) v"
  shows "\<lbrakk>deref rules q = Some e; ge_type e = LLAMA_GRETYPE_RULE_REF; ge_value e = v;
      rule_lang rules v [] \<Longrightarrow> push_advances rules (next_pos q) stk\<rbrakk> \<Longrightarrow> advances rules (q # stk)"
  using assms(2)
proof (induction arbitrary: q e stk rule: accp_induct_rule)
  case (1 v)
  have v: "v < length rules" using ref_in_range [OF assms(1) "1.prems"(1,2)] "1.prems"(3) by simp
  obtain alts where alts: "alternates rules v = Some alts" "\<forall>a \<in> set alts. start_pos rules (v, a)"
    using alternates_ok [OF assms(1) v] by metis
  have "start_pos rules (next_pos q)" using next_start_pos [OF assms(1) "1.prems"(1)] "1.prems"(2) by simp
  then obtain s1 where s1: "push_pos rules (next_pos q) stk = Some s1" by (rule push_pos_total)
  have "push_advances rules (v, a) s1" if a: "a \<in> set alts" for a
  proof (rule walk_advances [OF assms(1)])
    show "start_pos rules (v, a)" using alts(2) a by blast
    show "advances rules s1" if "seq_lang rules (v, a) []"
    proof -
      have "rule_lang rules v []" by (rule rule [OF alts(1) a that])
      from "1.prems"(4) [OF this] show ?thesis using s1 by (simp add: push_advances_def)
    qed
    show "advances rules (p # stk')"
      if "lead rules (v, a) u" "deref rules p = Some e'" "ge_type e' = LLAMA_GRETYPE_RULE_REF" "ge_value e' = u"
        "rule_lang rules u [] \<Longrightarrow> push_advances rules (next_pos p) stk'" for u p stk' e'
    proof -
      have "left_ref rules v u" using alts(1) a that(1) by (auto simp: left_ref_def)
      from "1.IH" [OF this that(2-5)] show ?thesis .
    qed
  qed
  then show ?case
    using advances_ref [OF "1.prems"(1,2), of alts stk] "1.prems"(3) alts(1) alternate_stack_push [OF s1]
    by (simp add: push_advances_def)
qed

theorem stack_advances:
  assumes "wf_rules rules" and "not_left_recursive rules" and "stack_ok rules stack"
  shows "advances rules stack"
  using assms(3)
proof (induction stack)
  case (Cons p stack)
  then obtain e where e: "deref rules p = Some e" "is_start_type (ge_type e)" "\<not> is_end_type (ge_type e)"
    by (auto simp: pos_ok_def)
  have "push_advances rules p stack"
  proof (rule walk_advances [OF assms(1)])
    show "start_pos rules p" using e by (simp add: start_pos_def)
    show "advances rules stack" using Cons by simp
    show "advances rules (q # stk)"
      if "lead rules p u" "deref rules q = Some e'" "ge_type e' = LLAMA_GRETYPE_RULE_REF" "ge_value e' = u"
        "rule_lang rules u [] \<Longrightarrow> push_advances rules (next_pos q) stk" for u q stk e'
    proof (rule ref_advances [OF assms(1) _ that(2-5)])
      show "Wellfounded.accp (\<lambda>u v. left_ref rules v u) u"
        using assms(2) ref_in_range [OF assms(1) that(2,3)] that(4) by (auto simp: not_left_recursive_def)
    qed
  qed
  moreover have "push_pos rules p stack = Some (p # stack)"
    using e by (simp add: push_pos_def llama_grammar_is_end_of_sequence_def)
  ultimately show ?case by (simp add: push_advances_def)
qed simp


section \<open>Accepting a word\<close>

definition stacks_ok :: "llama_grammar_rules \<Rightarrow> llama_grammar_stacks \<Rightarrow> bool" where
  "stacks_ok rules stacks \<longleftrightarrow> (\<forall>s \<in> set stacks. stack_ok rules s \<and> ready rules s)"

lemma accept_chr_mono:
  assumes "llama_grammar_accept_chr fuel rules stack c ns = Some r" and "fuel \<le> fuel'"
  shows "llama_grammar_accept_chr fuel' rules stack c ns = Some r"
  using assms by (auto simp: llama_grammar_accept_chr_def split: list.splits bind_splits if_splits intro: advance_mono)

lemma accept_stacks_mono:
  assumes "accept_stacks fuel rules stacks c = Some r" and "fuel \<le> fuel'"
  shows "accept_stacks fuel' rules stacks c = Some r"
  using assms(1) unfolding accept_stacks_def by (rule foldM_mono) (rule accept_chr_mono [OF _ assms(2)])

lemma accept_word_mono:
  assumes "accept_word fuel rules w stacks = Some r" and "fuel \<le> fuel'"
  shows "accept_word fuel' rules w stacks = Some r"
  using assms(1) unfolding accept_word_def by (rule foldM_mono) (rule accept_stacks_mono [OF _ assms(2)])

lemma initial_stacks_mono:
  assumes "initial_stacks fuel rules start = Some r" and "fuel \<le> fuel'"
  shows "initial_stacks fuel' rules start = Some r"
proof -
  from assms(1) obtain alts where alts: "alternates rules start = Some alts"
    and loop: "foldM (\<lambda>a stacks. do {
       stack \<leftarrow> push_pos rules (start, a) [];
       llama_grammar_advance_stack fuel rules stack stacks }) alts [] = Some r"
    by (auto simp: initial_stacks_def split: bind_splits)
  from loop have "foldM (\<lambda>a stacks. do {
       stack \<leftarrow> push_pos rules (start, a) [];
       llama_grammar_advance_stack fuel' rules stack stacks }) alts [] = Some r"
    by (rule foldM_mono) (auto split: bind_splits intro: advance_mono [OF _ assms(2)])
  with alts show ?thesis by (simp add: initial_stacks_def)
qed

text \<open>A loop whose steps return at some depth returns at some depth, keeping an invariant.\<close>

lemma foldM_some_depth:
  fixes f :: "nat \<Rightarrow> 'a \<Rightarrow> 's \<Rightarrow> 's option"
  assumes "\<And>x s. x \<in> set xs \<Longrightarrow> I s \<Longrightarrow> \<exists>fuel t. f fuel x s = Some t \<and> I t"
    and mono: "\<And>fuel fuel' x s t. f fuel x s = Some t \<Longrightarrow> fuel \<le> fuel' \<Longrightarrow> f fuel' x s = Some t"
    and "I s"
  shows "\<exists>fuel t. foldM (f fuel) xs s = Some t \<and> I t"
  using assms(1,3)
proof (induction xs arbitrary: s)
  case (Cons x xs)
  obtain f1 t where f1: "f f1 x s = Some t" "I t"
    using Cons.prems(1) [OF list.set_intros(1) Cons.prems(2)] by blast
  with Cons obtain f2 u where f2: "foldM (f f2) xs t = Some u" "I u" by (metis list.set_intros(2))
  have "f (max f1 f2) x s = Some t" by (rule mono [OF f1(1)]) simp
  moreover have "foldM (f (max f1 f2)) xs t = Some u"
    using f2(1) by (rule foldM_mono) (erule mono, simp)
  ultimately show ?case using f2(2) by (intro exI [of _ "max f1 f2"]) simp
qed auto

lemma accept_chr_total:
  assumes "wf_rules rules" and "not_left_recursive rules" and "stack_ok rules stack" and "ready rules stack"
    and "stacks_ok rules ns"
  shows "\<exists>fuel ns'. llama_grammar_accept_chr fuel rules stack c ns = Some ns' \<and> stacks_ok rules ns'"
proof (cases stack)
  case Nil
  with assms(5) show ?thesis by (simp add: llama_grammar_accept_chr_def)
next
  case (Cons p stk)
  with assms(4) obtain e where e: "deref rules p = Some e" "is_char_start (ge_type e) \<or> is_token_type (ge_type e)"
    by (auto simp: ready_def)
  show ?thesis
  proof (cases "is_token_type (ge_type e)")
    case True
    with e Cons assms(5) show ?thesis by (simp add: llama_grammar_accept_chr_def)
  next
    case False
    with e have start: "is_char_start (ge_type e)" by simp
    obtain b q where q: "llama_grammar_match_char rules p c = Some (b, q)" "start_pos rules q"
      using match_char_ok [OF assms(1) e(1) start] by blast
    obtain s where s: "push_pos rules q stk = Some s" "\<forall>r \<in> set s. r \<in> set stk \<or> pos_ok rules r"
      using q(2) by (rule push_pos_total)
    with assms(3) Cons have "stack_ok rules s" by auto
    then have "advances rules s" by (rule stack_advances [OF assms(1,2)])
    then obtain fuel ns' where adv: "llama_grammar_advance_stack fuel rules s ns = Some ns'"
      unfolding advances_def by blast
    have "stacks_ok rules ns'"
      using advance_stack_ok [OF assms(1) adv \<open>stack_ok rules s\<close>] advance_adds [OF adv] assms(5)
      unfolding stacks_ok_def adds_def by blast
    then show ?thesis
      using adv s(1) q(1) e(1) False Cons assms(5)
      by (cases b) (auto simp: llama_grammar_accept_chr_def)
  qed
qed

lemma accept_stacks_total:
  assumes "wf_rules rules" and "not_left_recursive rules" and "stacks_ok rules stacks"
  shows "\<exists>fuel stacks'. accept_stacks fuel rules stacks c = Some stacks' \<and> stacks_ok rules stacks'"
  unfolding accept_stacks_def
proof (rule foldM_some_depth)
  show "\<exists>fuel t. llama_grammar_accept_chr fuel rules s c ns = Some t \<and> stacks_ok rules t"
    if "s \<in> set stacks" "stacks_ok rules ns" for s ns
    using accept_chr_total [OF assms(1,2) _ _ that(2)] assms(3) that(1) by (auto simp: stacks_ok_def)
qed (auto intro: accept_chr_mono simp: stacks_ok_def)

lemma accept_word_total:
  assumes "wf_rules rules" and "not_left_recursive rules" and "stacks_ok rules stacks"
  shows "\<exists>fuel stacks'. accept_word fuel rules w stacks = Some stacks' \<and> stacks_ok rules stacks'"
  unfolding accept_word_def
  by (rule foldM_some_depth) (use assms in \<open>auto intro: accept_stacks_mono accept_stacks_total\<close>)

lemma initial_stacks_total:
  assumes "wf_rules rules" and "not_left_recursive rules" and "start < length rules"
  shows "\<exists>fuel stacks. initial_stacks fuel rules start = Some stacks \<and> stacks_ok rules stacks"
proof -
  obtain alts where alts: "alternates rules start = Some alts" "\<forall>a \<in> set alts. start_pos rules (start, a)"
    using alternates_ok [OF assms(1,3)] by metis
  have "\<exists>fuel stacks. foldM (\<lambda>a stacks. do {
       stack \<leftarrow> push_pos rules (start, a) [];
       llama_grammar_advance_stack fuel rules stack stacks }) alts [] = Some stacks \<and> stacks_ok rules stacks"
  proof (rule foldM_some_depth)
    fix a ns
    assume a: "a \<in> set alts" and ns: "stacks_ok rules ns"
    obtain s where s: "push_pos rules (start, a) [] = Some s" "\<forall>r \<in> set s. r \<in> set [] \<or> pos_ok rules r"
      using bspec [OF alts(2) a] by (rule push_pos_total)
    then have ok: "stack_ok rules s" by simp
    then obtain fuel ns' where adv: "llama_grammar_advance_stack fuel rules s ns = Some ns'"
      using stack_advances [OF assms(1,2)] unfolding advances_def by blast
    have "stacks_ok rules ns'"
      using advance_stack_ok [OF assms(1) adv ok] advance_adds [OF adv] ns
      unfolding stacks_ok_def adds_def by blast
    with adv s(1) show "\<exists>fuel t. do {
       stack \<leftarrow> push_pos rules (start, a) [];
       llama_grammar_advance_stack fuel rules stack ns } = Some t \<and> stacks_ok rules t" by auto
  qed (auto split: bind_splits intro: advance_mono simp: stacks_ok_def)
  with alts(1) show ?thesis by (simp add: initial_stacks_def)
qed

end
