(* ===== verification/Grammar_Reject.thy ===== *)
theory Grammar_Reject
  imports Grammar_Total
begin

text \<open>
  The filtering of candidate tokens (\<^verbatim>\<open>llama_grammar_reject_candidates\<close> and its helper for one stack,
  src/src/llama-grammar.cpp), against the acceptance of the candidates' code points.

  A candidate keeps its decoded code points, ended by 0, and the offset of the pointer into them.
\<close>

record llama_grammar_candidate =
  gc_index :: nat
  gc_code_points :: "nat list"
  gc_off :: nat
  gc_partial :: llama_partial_utf8
  gc_id :: llama_token

definition code_point :: "llama_grammar_candidate \<Rightarrow> nat option" where
  "code_point tok = vget (gc_code_points tok) (gc_off tok)"

definition shift_candidate :: "int \<Rightarrow> llama_grammar_candidate \<Rightarrow> llama_grammar_candidate" where
  "shift_candidate d tok = tok\<lparr>gc_off := nat (int (gc_off tok) + d)\<rparr>"

text \<open>A loop over the candidates that splits them; the two results are the rejected ones and the others.\<close>

fun split_candidates :: "('c \<Rightarrow> bool option) \<Rightarrow> 'c list \<Rightarrow> ('c list \<times> 'c list) option" where
  "split_candidates p [] = Some ([], [])"
| "split_candidates p (c # cs) = do {
     b \<leftarrow> p c;
     (ys, ns) \<leftarrow> split_candidates p cs;
     Some (if b then (c # ys, ns) else (ys, c # ns))
   }"

text \<open>The tests of the three kinds of top of the stack: \<open>Some True\<close> rejects.\<close>

definition reject_empty :: "llama_grammar_candidate \<Rightarrow> bool option" where
  "reject_empty tok = do {
     c \<leftarrow> code_point tok;
     Some (c \<noteq> 0 \<or> pu_n_remain (gc_partial tok) \<noteq> 0)
   }"

definition reject_token :: "llama_grammar_rules \<Rightarrow> gpos \<Rightarrow> llama_grammar_candidate \<Rightarrow> bool option" where
  "reject_token rules pos tok = do {
     c \<leftarrow> code_point tok;
     if c = 0 then Some (pu_n_remain (gc_partial tok) \<noteq> 0)
     else map_option Not (llama_grammar_match_token rules pos (gc_id tok))
   }"

text \<open>The loop for a character: the candidates that go on are those with a code point that matches.\<close>

datatype verdict = Reject | Keep | Continue

definition reject_char :: "llama_grammar_rules \<Rightarrow> gpos \<Rightarrow> llama_grammar_candidate \<Rightarrow> verdict option" where
  "reject_char rules pos tok = do {
     c \<leftarrow> code_point tok;
     if c = 0 then
       (if pu_n_remain (gc_partial tok) \<noteq> 0
        then map_option (\<lambda>b. if b then Keep else Reject) (llama_grammar_match_partial_char rules pos (gc_partial tok))
        else Some Keep)
     else do {
       (b, _) \<leftarrow> llama_grammar_match_char rules pos c;
       Some (if b then Continue else Reject)
     }
   }"

fun sort_candidates :: "(llama_grammar_candidate \<Rightarrow> verdict option) \<Rightarrow> llama_grammar_candidate list
    \<Rightarrow> (llama_grammar_candidate list \<times> llama_grammar_candidate list) option" where
  "sort_candidates p [] = Some ([], [])"
| "sort_candidates p (c # cs) = do {
     v \<leftarrow> p c;
     (rejects, next_candidates) \<leftarrow> sort_candidates p cs;
     Some (case v of Reject \<Rightarrow> (c # rejects, next_candidates) | Keep \<Rightarrow> (rejects, next_candidates)
           | Continue \<Rightarrow> (rejects, shift_candidate 1 c # next_candidates))
   }"

text \<open>
  The two functions call each other. \<open>depth\<close> bounds the nesting, one level per code point; \<open>fuel\<close>
  is the bound of \<^verbatim>\<open>llama_grammar_advance_stack\<close>.
\<close>

definition reject_candidates_with ::
  "(llama_grammar_stack \<Rightarrow> llama_grammar_candidate list \<Rightarrow> llama_grammar_candidate list option)
    \<Rightarrow> llama_grammar_stacks \<Rightarrow> llama_grammar_candidate list \<Rightarrow> llama_grammar_candidate list option" where
  "reject_candidates_with for_stack stacks candidates = do {
     check (stacks \<noteq> []);
     if candidates = [] then Some []
     else do {
       rejects \<leftarrow> for_stack (hd stacks) candidates;
       foldM for_stack (tl stacks) rejects
     }
   }"

fun reject_for_stack :: "nat \<Rightarrow> nat \<Rightarrow> llama_grammar_rules \<Rightarrow> llama_grammar_stack
    \<Rightarrow> llama_grammar_candidate list \<Rightarrow> llama_grammar_candidate list option" where
  "reject_for_stack 0 fuel rules stack candidates = None"
| "reject_for_stack (Suc depth) fuel rules [] candidates =
     map_option fst (split_candidates reject_empty candidates)"
| "reject_for_stack (Suc depth) fuel rules (pos # stk) candidates = do {
     e \<leftarrow> deref rules pos;
     if is_token_type (ge_type e) then map_option fst (split_candidates (reject_token rules pos) candidates)
     else do {
       (rejects, next_candidates) \<leftarrow> sort_candidates (reject_char rules pos) candidates;
       (_, after) \<leftarrow> llama_grammar_match_char rules pos 0;
       stack_after \<leftarrow> push_pos rules after stk;
       next_stacks \<leftarrow> llama_grammar_advance_stack fuel rules stack_after [];
       next_rejects \<leftarrow> reject_candidates_with (reject_for_stack depth fuel rules) next_stacks next_candidates;
       Some (rejects @ map (shift_candidate (- 1)) next_rejects)
     }
   }"

definition llama_grammar_reject_candidates :: "nat \<Rightarrow> nat \<Rightarrow> llama_grammar_rules \<Rightarrow> llama_grammar_stacks
    \<Rightarrow> llama_grammar_candidate list \<Rightarrow> llama_grammar_candidate list option" where
  "llama_grammar_reject_candidates depth fuel rules =
     reject_candidates_with (reject_for_stack depth fuel rules)"


section \<open>Acceptance, stack by stack\<close>

text \<open>What the accumulated stacks of a loop are: those before it and a set that depends on nothing else.\<close>

definition collects :: "('s list \<Rightarrow> 's list option) \<Rightarrow> bool" where
  "collects f \<longleftrightarrow> (\<forall>ns. \<exists>r. f ns = Some r \<and> set r = set ns \<union> set (the (f [])))"

lemma collectsI: "(\<And>ns. \<exists>r. f ns = Some r \<and> set r = set ns \<union> K) \<Longrightarrow> collects f"
proof -
  assume f: "\<And>ns. \<exists>r. f ns = Some r \<and> set r = set ns \<union> K"
  then have "set (the (f [])) = K" by (metis list.set(1) option.sel sup_bot_left)
  with f show "collects f" by (simp add: collects_def)
qed

lemma collectsD: "collects f \<Longrightarrow> \<exists>r. f ns = Some r \<and> set r = set ns \<union> set (the (f []))"
  by (simp add: collects_def)

lemma collects_foldM:
  assumes "foldM f xs ns = Some r" and "\<And>x ns r. x \<in> set xs \<Longrightarrow> f x ns = Some r \<Longrightarrow> collects (f x)"
  shows "collects (foldM f xs) \<and> set (the (foldM f xs [])) = (\<Union>x \<in> set xs. set (the (f x [])))"
  using assms
proof (induction xs arbitrary: ns)
  case Nil
  then show ?case by (simp add: collects_def)
next
  case (Cons x xs)
  then obtain u where u: "f x ns = Some u" "foldM f xs u = Some r" by (auto dest: bind_SomeD)
  have IH: "collects (foldM f xs)" "set (the (foldM f xs [])) = (\<Union>x \<in> set xs. set (the (f x [])))"
    using Cons.IH [OF u(2)] Cons.prems(2) by auto
  have x: "collects (f x)" using Cons.prems(2) [OF _ u(1)] by simp
  have all: "\<exists>m2. foldM f (x # xs) ms = Some m2 \<and>
      set m2 = set ms \<union> (\<Union>y \<in> set (x # xs). set (the (f y [])))" for ms
  proof -
    obtain m1 where m1: "f x ms = Some m1" "set m1 = set ms \<union> set (the (f x []))" using collectsD [OF x] by blast
    obtain m2 where m2: "foldM f xs m1 = Some m2" "set m2 = set m1 \<union> (\<Union>x \<in> set xs. set (the (f x [])))"
      using collectsD [OF IH(1)] IH(2) by metis
    then show ?thesis using m1 by auto
  qed
  have "collects (foldM f (x # xs))" by (rule collectsI) (rule all)
  moreover from all [of "[]"] have "set (the (foldM f (x # xs) [])) = (\<Union>y \<in> set (x # xs). set (the (f y [])))"
    by auto
  ultimately show ?case by blast
qed

lemma advance_collects:
  assumes "llama_grammar_advance_stack fuel rules stack ns = Some r"
  shows "collects (llama_grammar_advance_stack fuel rules stack)"
  using assms
proof (induction fuel arbitrary: stack ns r)
  case (Suc fuel)
  show ?case
  proof (cases stack)
    case Nil
    then show ?thesis by (intro collectsI [where K = "{[]}"]) auto
  next
    case (Cons pos stk)
    with Suc.prems obtain e where e: "deref rules pos = Some e" by (auto split: bind_splits)
    show ?thesis
    proof (cases "ge_type e = LLAMA_GRETYPE_RULE_REF")
      case False
      with Suc.prems e Cons show ?thesis
        by (intro collectsI [where K = "{pos # stk}"]) (auto split: if_splits)
    next
      case True
      let ?f = "\<lambda>a ns. do {
         s \<leftarrow> alternate_stack rules pos stk (ge_value e) a;
         llama_grammar_advance_stack fuel rules s ns }"
      from True Suc.prems e Cons obtain alts where alts: "alternates rules (ge_value e) = Some alts"
          "foldM ?f alts ns = Some r"
        by (auto split: bind_splits)
      have "collects (?f a)" if "?f a ms = Some r'" for a ms r'
      proof -
        from that obtain s where s: "alternate_stack rules pos stk (ge_value e) a = Some s"
            "llama_grammar_advance_stack fuel rules s ms = Some r'" by (auto split: bind_splits)
        from Suc.IH [OF s(2)] s(1) show ?thesis by simp
      qed
      with collects_foldM [OF alts(2)] have "collects (foldM ?f alts)" by blast
      moreover have "llama_grammar_advance_stack (Suc fuel) rules stack = foldM ?f alts"
        using e True alts(1) Cons by (simp add: fun_eq_iff)
      ultimately show ?thesis by simp
    qed
  qed
qed simp

lemma collects_Some [simp]: "collects Some"
  by (simp add: collects_def)

text \<open>A stack that accepts a code point is advanced from one new stack, or vanishes.\<close>

lemma accept_chr_cases:
  assumes "llama_grammar_accept_chr fuel rules stack c ns = Some r"
  shows "llama_grammar_accept_chr fuel rules stack c = Some \<or>
    (\<exists>s. llama_grammar_accept_chr fuel rules stack c = llama_grammar_advance_stack fuel rules s)"
proof (cases stack)
  case Nil
  then show ?thesis by (auto simp: llama_grammar_accept_chr_def)
next
  case (Cons pos stk)
  with assms obtain e where e: "deref rules pos = Some e"
    by (auto simp: llama_grammar_accept_chr_def split: bind_splits)
  show ?thesis
  proof (cases "is_token_type (ge_type e)")
    case True
    with Cons e show ?thesis by (auto simp: llama_grammar_accept_chr_def)
  next
    case False
    with assms Cons e obtain b q where m: "llama_grammar_match_char rules pos c = Some (b, q)"
      by (auto simp: llama_grammar_accept_chr_def split: bind_splits)
    show ?thesis
    proof (cases b)
      case True
      with assms Cons e False m obtain s where "push_pos rules q stk = Some s"
        by (auto simp: llama_grammar_accept_chr_def split: bind_splits)
      with True Cons e False m show ?thesis
        by (intro disjI2 exI [of _ s]) (simp add: llama_grammar_accept_chr_def fun_eq_iff)
    next
      case nb: False
      with Cons e False m show ?thesis by (intro disjI1) (simp add: llama_grammar_accept_chr_def fun_eq_iff)
    qed
  qed
qed

lemma accept_chr_collects:
  assumes "llama_grammar_accept_chr fuel rules stack c ns = Some r"
  shows "collects (llama_grammar_accept_chr fuel rules stack c)"
  using accept_chr_cases [OF assms]
proof
  assume "llama_grammar_accept_chr fuel rules stack c = Some"
  then show ?thesis by simp
next
  assume "\<exists>s. llama_grammar_accept_chr fuel rules stack c = llama_grammar_advance_stack fuel rules s"
  then obtain s where s: "llama_grammar_accept_chr fuel rules stack c = llama_grammar_advance_stack fuel rules s" ..
  from assms [unfolded s] show ?thesis unfolding s by (rule advance_collects)
qed

text \<open>\<open>after fuel rules s c\<close>: the stacks that one stack becomes when it accepts a code point.\<close>

definition after :: "nat \<Rightarrow> llama_grammar_rules \<Rightarrow> llama_grammar_stack \<Rightarrow> nat \<Rightarrow> llama_grammar_stacks" where
  "after fuel rules s c = the (llama_grammar_accept_chr fuel rules s c [])"

lemma accept_stacks_after:
  assumes "accept_stacks fuel rules stacks c = Some r"
  shows "set r = (\<Union>s \<in> set stacks. set (after fuel rules s c))"
proof -
  have "set (the (foldM (\<lambda>stack ns. llama_grammar_accept_chr fuel rules stack c ns) stacks []))
      = (\<Union>s \<in> set stacks. set (the (llama_grammar_accept_chr fuel rules s c [])))"
    by (rule conjunct2 [OF collects_foldM [OF assms [unfolded accept_stacks_def]]]) (rule accept_chr_collects)
  with assms show ?thesis by (simp add: after_def accept_stacks_def)
qed

text \<open>The stacks that one stack becomes over a word.\<close>

fun run_stack :: "nat \<Rightarrow> llama_grammar_rules \<Rightarrow> llama_grammar_stack \<Rightarrow> nat list \<Rightarrow> llama_grammar_stack set" where
  "run_stack fuel rules s [] = {s}"
| "run_stack fuel rules s (c # w) = (\<Union>s' \<in> set (after fuel rules s c). run_stack fuel rules s' w)"

lemma accept_word_run:
  assumes "accept_word fuel rules w stacks = Some r"
  shows "set r = (\<Union>s \<in> set stacks. run_stack fuel rules s w)"
  using assms
proof (induction w arbitrary: stacks)
  case (Cons c w)
  then obtain s1 where s1: "accept_stacks fuel rules stacks c = Some s1" "accept_word fuel rules w s1 = Some r"
    by (auto dest: bind_SomeD)
  from Cons.IH [OF s1(2)] accept_stacks_after [OF s1(1)] show ?case by simp
qed simp


section \<open>Rejection is failed acceptance\<close>

definition no_tokens :: "llama_grammar_rules \<Rightarrow> bool" where
  "no_tokens rules \<longleftrightarrow> (\<forall>rule \<in> set rules. \<forall>e \<in> set rule. \<not> is_token_type (ge_type e))"

text \<open>The code points of a candidate from its pointer up to the terminating 0.\<close>

definition pending :: "llama_grammar_candidate \<Rightarrow> nat list" where
  "pending tok = takeWhile (\<lambda>c. c \<noteq> 0) (drop (gc_off tok) (gc_code_points tok))"

text \<open>A stack may end a candidate when nothing of an unfinished character is left or its top can match it.\<close>

definition partial_fits :: "llama_grammar_rules \<Rightarrow> llama_partial_utf8 \<Rightarrow> llama_grammar_stack \<Rightarrow> bool" where
  "partial_fits rules u s \<longleftrightarrow> pu_n_remain u = 0 \<or>
     s \<noteq> [] \<and> llama_grammar_match_partial_char rules (hd s) u = Some True"

definition allowed :: "nat \<Rightarrow> llama_grammar_rules \<Rightarrow> llama_grammar_stack \<Rightarrow> llama_grammar_candidate \<Rightarrow> bool" where
  "allowed fuel rules s tok \<longleftrightarrow>
     (\<exists>s' \<in> run_stack fuel rules s (pending tok). partial_fits rules (gc_partial tok) s')"

lemma pending_zero: "code_point tok = Some 0 \<Longrightarrow> pending tok = []"
  by (auto simp: code_point_def pending_def vget_def takeWhile_eq_Nil_iff hd_drop_conv_nth split: if_splits)

lemma pending_step:
  assumes "code_point tok = Some c" and "c \<noteq> 0"
  shows "pending tok = c # pending (shift_candidate 1 tok)"
proof -
  from assms have "drop (gc_off tok) (gc_code_points tok) = c # drop (Suc (gc_off tok)) (gc_code_points tok)"
    by (auto simp: code_point_def Cons_nth_drop_Suc)
  moreover have "nat (int (gc_off tok) + 1) = Suc (gc_off tok)" by simp
  ultimately show ?thesis using assms(2) by (simp add: pending_def shift_candidate_def)
qed

lemma shift_back [simp]: "shift_candidate (- 1) (shift_candidate 1 tok) = tok"
  by (simp add: shift_candidate_def)

lemma shift_partial [simp]: "gc_partial (shift_candidate d tok) = gc_partial tok"
  by (simp add: shift_candidate_def)

lemma split_candidates_ok:
  assumes "split_candidates p cs = Some (ys, ns)"
  shows "set ys = {c \<in> set cs. p c = Some True} \<and> (\<forall>c \<in> set cs. p c \<noteq> None)"
  using assms
  by (induction cs arbitrary: ys ns) (auto split: bind_splits if_splits)

lemma sort_candidates_ok:
  assumes "sort_candidates p cs = Some (rs, ns)"
  shows "set rs = {c \<in> set cs. p c = Some Reject} \<and> set ns = shift_candidate 1 ` {c \<in> set cs. p c = Some Continue} \<and>
    (\<forall>c \<in> set cs. p c \<noteq> None)"
  using assms
  by (induction cs arbitrary: rs ns) (auto split: bind_splits verdict.splits)

lemma match_loop_count:
  "match_loop c es f n = Some (b, k) \<Longrightarrow> \<exists>b'. match_loop c' es f' n = Some (b', k)"
proof (induction c es f n arbitrary: f' b rule: match_loop.induct)
  case (1 chr e0 e1 es found n)
  then show ?case by (auto simp: Let_def split: if_splits list.splits)
qed auto

lemma match_char_after:
  assumes "llama_grammar_match_char rules p c = Some (b, q)" and "llama_grammar_match_char rules p c' = Some (b', q')"
  shows "q = q'"
proof -
  from assms obtain rule where r: "vget rules (fst p) = Some rule" by (auto simp: llama_grammar_match_char_def split: bind_splits)
  from assms r obtain f k f' k' where m: "match_loop c (drop (snd p) rule) False 0 = Some (f, k)" "q = (fst p, snd p + k)"
      "match_loop c' (drop (snd p) rule) False 0 = Some (f', k')" "q' = (fst p, snd p + k')"
    by (auto simp: llama_grammar_match_char_def split: bind_splits)
  from match_loop_count [OF m(1), of c' False] m show ?thesis by auto
qed

text \<open>The candidates that the loop over the stacks leaves are those every stack rejects.\<close>

lemma reject_with_ok:
  assumes "reject_candidates_with f stacks cands = Some rejects"
    and "\<And>s cs rs. s \<in> set stacks \<Longrightarrow> set cs \<subseteq> set cands \<Longrightarrow> f s cs = Some rs \<Longrightarrow> set rs = {c \<in> set cs. \<not> P s c}"
  shows "set rejects = {c \<in> set cands. \<forall>s \<in> set stacks. \<not> P s c}"
proof (cases "cands = []")
  case True
  with assms(1) show ?thesis by (simp add: reject_candidates_with_def)
next
  case False
  with assms(1) obtain s ss r where s: "stacks = s # ss" "f s cands = Some r" "foldM f ss r = Some rejects"
    by (cases stacks) (auto simp: reject_candidates_with_def split: bind_splits)
  have "set rejects = {c \<in> set r'. \<forall>s \<in> set ss'. \<not> P s c}"
    if "foldM f ss' r' = Some rejects" "set ss' \<subseteq> set stacks" "set r' \<subseteq> set cands" for ss' r'
    using that
  proof (induction ss' arbitrary: r')
    case (Cons x xs)
    then obtain r1 where r1: "f x r' = Some r1" "foldM f xs r1 = Some rejects" by (auto dest: bind_SomeD)
    from assms(2) [OF _ Cons.prems(3) r1(1)] Cons.prems(2) have "set r1 = {c \<in> set r'. \<not> P x c}" by simp
    with Cons.IH [OF r1(2)] Cons.prems show ?case by auto
  qed simp
  from this [OF s(3)] assms(2) [OF _ subset_refl s(2)] s(1) show ?thesis by auto
qed


lemma ready_char:
  assumes "no_tokens rules" and "ready rules (pos # stk)"
  obtains e where "deref rules pos = Some e" "is_char_start (ge_type e)" "\<not> is_token_type (ge_type e)"
proof -
  from assms(2) obtain e where e: "deref rules pos = Some e" "is_char_start (ge_type e) \<or> is_token_type (ge_type e)"
    by (auto simp: ready_def)
  then have "\<not> is_token_type (ge_type e)"
    using assms(1) unfolding no_tokens_def deref_def by (auto split: bind_splits dest: nth_mem)
  with e that show ?thesis by blast
qed

lemma after_char:
  assumes "deref rules pos = Some e" and "\<not> is_token_type (ge_type e)"
    and "llama_grammar_match_char rules pos c = Some (b, q)"
    and "push_pos rules q stk = Some s" and "llama_grammar_advance_stack fuel rules s [] = Some nxt"
  shows "after fuel rules (pos # stk) c = (if b then nxt else [])"
  using assms by (simp add: after_def llama_grammar_accept_chr_def)

lemma reject_for_stack_ok:
  assumes nt: "no_tokens rules"
  shows "\<lbrakk>ready rules stack; reject_for_stack depth fuel rules stack cands = Some rs\<rbrakk>
    \<Longrightarrow> set rs = {tok \<in> set cands. \<not> allowed fuel rules stack tok}"
proof (induction depth arbitrary: stack cands rs)
  case (Suc depth)
  show ?case
  proof (cases stack)
    case Nil
    with Suc.prems(2) obtain ns where "split_candidates reject_empty cands = Some (rs, ns)" by auto
    from split_candidates_ok [OF this] have rs: "set rs = {tok \<in> set cands. reject_empty tok = Some True}"
        "\<forall>tok \<in> set cands. reject_empty tok \<noteq> None" by auto
    have "reject_empty tok = Some True \<longleftrightarrow> \<not> allowed fuel rules [] tok" if "tok \<in> set cands" for tok
    proof -
      from rs(2) that obtain c where c: "code_point tok = Some c" by (cases "code_point tok") (auto simp: reject_empty_def)
      have "after fuel rules [] c' = []" for c' by (simp add: after_def llama_grammar_accept_chr_def)
      with c show ?thesis
        by (cases "c = 0") (auto simp: reject_empty_def allowed_def partial_fits_def pending_zero pending_step)
    qed
    with rs(1) Nil show ?thesis by auto
  next
    case (Cons pos stk)
    obtain e where e: "deref rules pos = Some e" "is_char_start (ge_type e)" "\<not> is_token_type (ge_type e)"
      using ready_char [OF nt] Suc.prems(1) Cons by blast
    from Suc.prems(2) Cons e obtain rejects nexts q b0 s nxt nrej where
      sort: "sort_candidates (reject_char rules pos) cands = Some (rejects, nexts)" and
      m0: "llama_grammar_match_char rules pos 0 = Some (b0, q)" and push: "push_pos rules q stk = Some s" and
      adv: "llama_grammar_advance_stack fuel rules s [] = Some nxt" and
      nrej: "reject_candidates_with (reject_for_stack depth fuel rules) nxt nexts = Some nrej" and
      rs: "rs = rejects @ map (shift_candidate (- 1)) nrej"
      by (auto split: bind_splits)
    have ready: "\<forall>s \<in> set nxt. ready rules s" using advance_adds [OF adv] by (simp add: adds_def)
    have nrej_set: "set nrej = {tok \<in> set nexts. \<forall>s \<in> set nxt. \<not> allowed fuel rules s tok}"
      by (rule reject_with_ok [OF nrej]) (use Suc.IH ready in blast)
    from sort_candidates_ok [OF sort] have
      rejects: "set rejects = {tok \<in> set cands. reject_char rules pos tok = Some Reject}" and
      nexts: "set nexts = shift_candidate 1 ` {tok \<in> set cands. reject_char rules pos tok = Some Continue}" and
      total: "\<forall>tok \<in> set cands. reject_char rules pos tok \<noteq> None" by auto
    have verdict: "\<not> allowed fuel rules stack tok \<longleftrightarrow> reject_char rules pos tok = Some Reject \<or>
        reject_char rules pos tok = Some Continue \<and> (\<forall>s \<in> set nxt. \<not> allowed fuel rules s (shift_candidate 1 tok))"
      if "tok \<in> set cands" for tok
    proof -
      from total that obtain v where v: "reject_char rules pos tok = Some v" by auto
      then obtain c where c: "code_point tok = Some c" by (cases "code_point tok") (auto simp: reject_char_def)
      show ?thesis
      proof (cases "c = 0")
        case True
        with c v show ?thesis
          by (auto simp: reject_char_def allowed_def partial_fits_def pending_zero Cons split: if_splits)
      next
        case False
        with c v obtain b q' where m: "llama_grammar_match_char rules pos c = Some (b, q')" "v = (if b then Continue else Reject)"
          by (auto simp: reject_char_def split: bind_splits)
        have "after fuel rules (pos # stk) c = (if b then nxt else [])"
          using after_char [OF e(1,3) m(1) _ adv] match_char_after [OF m(1) m0] push by simp
        with m(2) v show ?thesis
          by (auto simp: allowed_def pending_step [OF c False] Cons)
      qed
    qed
    have "set rs = set rejects \<union> shift_candidate (- 1) ` set nrej" by (simp add: rs)
    also have "shift_candidate (- 1) ` set nrej = {tok \<in> set cands. reject_char rules pos tok = Some Continue \<and>
        (\<forall>s \<in> set nxt. \<not> allowed fuel rules s (shift_candidate 1 tok))}"
      unfolding nrej_set nexts by (auto simp: image_iff) (metis shift_back)+
    finally show ?thesis using rejects verdict by auto
  qed
qed simp


section \<open>Rejection returns\<close>

text \<open>A candidate whose code points are ended by 0, with fewer than \<open>n\<close> of them left.\<close>

definition candidate_ok :: "nat \<Rightarrow> llama_grammar_candidate \<Rightarrow> bool" where
  "candidate_ok n tok \<longleftrightarrow> 0 \<in> set (drop (gc_off tok) (gc_code_points tok)) \<and> length (pending tok) < n"

lemma candidate_code_point:
  assumes "candidate_ok n tok"
  obtains c where "code_point tok = Some c"
proof -
  from assms have "drop (gc_off tok) (gc_code_points tok) \<noteq> []" by (auto simp: candidate_ok_def)
  with that show ?thesis by (simp add: code_point_def vget_def)
qed

lemma candidate_shift:
  assumes "candidate_ok (Suc n) tok" and "code_point tok = Some c" and "c \<noteq> 0"
  shows "candidate_ok n (shift_candidate 1 tok)"
proof -
  from assms(2) have d: "drop (gc_off tok) (gc_code_points tok) = c # drop (Suc (gc_off tok)) (gc_code_points tok)"
    by (auto simp: code_point_def Cons_nth_drop_Suc)
  have "nat (int (gc_off tok) + 1) = Suc (gc_off tok)" by simp
  then have "gc_off (shift_candidate 1 tok) = Suc (gc_off tok)" "gc_code_points (shift_candidate 1 tok) = gc_code_points tok"
    by (simp_all add: shift_candidate_def)
  with assms(1,3) d show ?thesis by (simp add: candidate_ok_def pending_step [OF assms(2,3)])
qed

lemma split_candidates_total:
  "\<forall>c \<in> set cs. p c \<noteq> None \<Longrightarrow> \<exists>ys ns. split_candidates p cs = Some (ys, ns)"
  by (induction cs) auto

lemma sort_candidates_total:
  "\<forall>c \<in> set cs. p c \<noteq> None \<Longrightarrow> \<exists>rs ns. sort_candidates p cs = Some (rs, ns)"
  by (induction cs) (auto split: verdict.splits)

lemma reject_with_total:
  assumes "stacks \<noteq> []"
    and "\<And>s cs. s \<in> set stacks \<Longrightarrow> set cs \<subseteq> set cands \<Longrightarrow> \<exists>rs. f s cs = Some rs \<and> set rs \<subseteq> set cs"
  shows "\<exists>rs. reject_candidates_with f stacks cands = Some rs"
proof (cases "cands = []")
  case True
  with assms(1) show ?thesis by (simp add: reject_candidates_with_def)
next
  case False
  obtain s ss where s: "stacks = s # ss" using assms(1) by (cases stacks) auto
  with assms(2) [of s cands] obtain r where r: "f s cands = Some r" "set r \<subseteq> set cands" by auto
  have "\<exists>t. foldM f ss r = Some t \<and> set t \<subseteq> set cands"
  proof (rule foldM_total [where I = "\<lambda>r. set r \<subseteq> set cands"], fact r(2))
    fix x u
    assume "x \<in> set ss" "set u \<subseteq> set cands"
    with assms(2) [of x u] s show "\<exists>v. f x u = Some v \<and> set v \<subseteq> set cands" by auto
  qed
  with s r(1) False show ?thesis by (auto simp: reject_candidates_with_def)
qed

lemma reject_char_total:
  assumes "wf_rules rules" and "deref rules pos = Some e" and "is_char_start (ge_type e)" and "candidate_ok n tok"
  shows "reject_char rules pos tok \<noteq> None"
proof -
  obtain c where "code_point tok = Some c" using assms(4) by (rule candidate_code_point)
  moreover obtain b q where "llama_grammar_match_char rules pos c = Some (b, q)"
    using match_char_ok [OF assms(1-3)] by blast
  moreover obtain b' where "llama_grammar_match_partial_char rules pos (gc_partial tok) = Some b'"
    using match_partial_char_ok [OF assms(1-3)] by blast
  ultimately show ?thesis by (simp add: reject_char_def)
qed

text \<open>A bound for finitely many stacks is a bound for all of them.\<close>

lemma common_bound:
  assumes "\<forall>x \<in> set xs. \<exists>n. \<forall>m \<ge> n. P x (m::nat)"
  shows "\<exists>n. \<forall>m \<ge> n. \<forall>x \<in> set xs. P x m"
  using assms
proof (induction xs)
  case (Cons x xs)
  then obtain n1 n2 where "\<forall>m \<ge> n1. P x m" "\<forall>m \<ge> n2. \<forall>x \<in> set xs. P x m" by auto
  then show ?case by (intro exI [of _ "max n1 n2"]) simp
qed simp

lemma reject_for_stack_total:
  assumes wf: "wf_rules rules" "not_left_recursive rules" and nt: "no_tokens rules"
  shows "\<lbrakk>stack_ok rules stack; ready rules stack\<rbrakk> \<Longrightarrow> \<exists>fuel. \<forall>fuel' \<ge> fuel. \<forall>cands.
    (\<forall>tok \<in> set cands. candidate_ok depth tok) \<longrightarrow> 0 < depth \<longrightarrow>
    (\<exists>rs. reject_for_stack depth fuel' rules stack cands = Some rs)"
proof (induction depth arbitrary: stack)
  case (Suc depth)
  show ?case
  proof (cases stack)
    case Nil
    have "reject_empty tok \<noteq> None" if "candidate_ok (Suc depth) tok" for tok
      using candidate_code_point [OF that] by (metis reject_empty_def bind.bind_lunit option.distinct(1))
    then have "\<exists>ys ns. split_candidates reject_empty cands = Some (ys, ns)"
      if "\<forall>tok \<in> set cands. candidate_ok (Suc depth) tok" for cands
      using that by (intro split_candidates_total) blast
    then show ?thesis unfolding Nil reject_for_stack.simps(2) by (intro exI [of _ 0]) (metis map_option_eq_Some)
  next
    case (Cons pos stk)
    obtain e where e: "deref rules pos = Some e" "is_char_start (ge_type e)" "\<not> is_token_type (ge_type e)"
      using ready_char [OF nt] Suc.prems(2) Cons by blast
    obtain b0 q where m0: "llama_grammar_match_char rules pos 0 = Some (b0, q)" "start_pos rules q"
      using match_char_ok [OF wf(1) e(1,2)] by blast
    obtain s where s: "push_pos rules q stk = Some s" "\<forall>r \<in> set s. r \<in> set stk \<or> pos_ok rules r"
      using m0(2) by (rule push_pos_total)
    with Suc.prems(1) Cons have sok: "stack_ok rules s" by auto
    obtain f1 nxt where adv: "llama_grammar_advance_stack f1 rules s [] = Some nxt"
      using stack_advances [OF wf sok] unfolding advances_def by blast
    have nxt: "\<forall>s \<in> set nxt. stack_ok rules s \<and> ready rules s" "nxt \<noteq> []"
      using advance_stack_ok [OF wf(1) adv sok] advance_adds [OF adv] by (auto simp: adds_def)
    have "\<exists>f2. \<forall>m \<ge> f2. \<forall>s' \<in> set nxt. \<forall>cands. (\<forall>tok \<in> set cands. candidate_ok depth tok) \<longrightarrow> 0 < depth \<longrightarrow>
        (\<exists>rs. reject_for_stack depth m rules s' cands = Some rs)"
      by (rule common_bound) (use Suc.IH nxt(1) in blast)
    then obtain f2 where f2: "\<And>m s' cands. \<lbrakk>m \<ge> f2; s' \<in> set nxt; \<forall>tok \<in> set cands. candidate_ok depth tok; 0 < depth\<rbrakk>
        \<Longrightarrow> \<exists>rs. reject_for_stack depth m rules s' cands = Some rs" by blast
    have "\<exists>rs. reject_for_stack (Suc depth) m rules stack cands = Some rs"
      if m: "m \<ge> max f1 f2" and cands: "\<forall>tok \<in> set cands. candidate_ok (Suc depth) tok" for m cands
    proof -
      have "\<forall>tok \<in> set cands. reject_char rules pos tok \<noteq> None"
        using reject_char_total [OF wf(1) e(1,2)] cands by blast
      then obtain rejects nexts where sort: "sort_candidates (reject_char rules pos) cands = Some (rejects, nexts)"
        using sort_candidates_total by blast
      have nexts: "\<forall>tok \<in> set nexts. candidate_ok depth tok"
      proof
        fix t assume "t \<in> set nexts"
        then obtain tok where tok: "tok \<in> set cands" "reject_char rules pos tok = Some Continue" "t = shift_candidate 1 tok"
          using sort_candidates_ok [OF sort] by auto
        then obtain c where "code_point tok = Some c" "c \<noteq> 0"
          by (auto simp: reject_char_def split: bind_splits if_splits)
        with candidate_shift [of depth tok c] cands tok show "candidate_ok depth t" by auto
      qed
      have "\<exists>nrej. reject_candidates_with (reject_for_stack depth m rules) nxt nexts = Some nrej"
      proof (cases "nexts = []")
        case True
        with nxt(2) show ?thesis by (simp add: reject_candidates_with_def)
      next
        case False
        then have "0 < depth" using nexts by (cases nexts; cases depth) (auto simp: candidate_ok_def)
        show ?thesis
        proof (rule reject_with_total [OF nxt(2)])
          fix s' cs
          assume s': "s' \<in> set nxt" and cs: "set cs \<subseteq> set nexts"
          then obtain rs where rs: "reject_for_stack depth m rules s' cs = Some rs"
            using f2 [of m s' cs] m nexts \<open>0 < depth\<close> by auto
          with reject_for_stack_ok [OF nt _ rs] nxt(1) s'
          show "\<exists>rs. reject_for_stack depth m rules s' cs = Some rs \<and> set rs \<subseteq> set cs" by auto
        qed
      qed
      then obtain nrej where "reject_candidates_with (reject_for_stack depth m rules) nxt nexts = Some nrej" by blast
      moreover have "llama_grammar_advance_stack m rules s [] = Some nxt" using advance_mono [OF adv] m by simp
      ultimately show ?thesis using e(1,3) sort m0(1) s(1) Cons by simp
    qed
    then show ?thesis by (intro exI [of _ "max f1 f2"]) blast
  qed
qed simp

end
