(* ===== verification/Grammar_Leftrec.thy ===== *)
theory Grammar_Leftrec
  imports Grammar_Total
begin

text \<open>
  \<^verbatim>\<open>llama_grammar_detect_left_recursion\<close> and the check of \<^verbatim>\<open>llama_grammar_init_impl\<close> over all rules
  (src/src/llama-grammar.cpp), against the left references of the language. The recursion has a bound
  on its depth; one more than the number of rules is enough, because the rules in progress differ.
\<close>

record lr_flags =
  rules_visited :: "bool list"
  rules_in_progress :: "bool list"
  rules_may_be_empty :: "bool list"

text \<open>The first loop of the function: an alternate with no element.\<close>

fun may_be_empty :: "bool \<Rightarrow> llama_grammar_rule \<Rightarrow> bool" where
  "may_be_empty at_rule_start [] = False"
| "may_be_empty at_rule_start (e # es) =
     (if is_end_type (ge_type e) then (if at_rule_start then True else may_be_empty True es)
      else may_be_empty False es)"

text \<open>The second loop; \<open>rec\<close> is the recursive call.\<close>

fun lr_scan :: "(nat \<Rightarrow> lr_flags \<Rightarrow> (bool \<times> lr_flags) option) \<Rightarrow> llama_grammar_rule \<Rightarrow> bool
    \<Rightarrow> lr_flags \<Rightarrow> (bool \<times> lr_flags) option" where
  "lr_scan rec [] recurse fl = Some (False, fl)"
| "lr_scan rec (e # es) recurse fl =
     (if ge_type e = LLAMA_GRETYPE_RULE_REF \<and> recurse then do {
        (found, fl) \<leftarrow> rec (ge_value e) fl;
        if found then Some (True, fl)
        else do {
          b \<leftarrow> vget (rules_may_be_empty fl) (ge_value e);
          lr_scan rec es b fl
        }
      }
      else lr_scan rec es (is_end_type (ge_type e)) fl)"

fun llama_grammar_detect_left_recursion :: "nat \<Rightarrow> llama_grammar_rules \<Rightarrow> nat \<Rightarrow> lr_flags
    \<Rightarrow> (bool \<times> lr_flags) option" where
  "llama_grammar_detect_left_recursion 0 rules rule_index fl = None"
| "llama_grammar_detect_left_recursion (Suc fuel) rules rule_index fl = do {
     busy \<leftarrow> vget (rules_in_progress fl) rule_index;
     if busy then Some (True, fl)
     else do {
       let fl = fl\<lparr>rules_in_progress := (rules_in_progress fl)[rule_index := True]\<rparr>;
       rule \<leftarrow> vget rules rule_index;
       let fl = (if may_be_empty True rule
                 then fl\<lparr>rules_may_be_empty := (rules_may_be_empty fl)[rule_index := True]\<rparr> else fl);
       (found, fl) \<leftarrow> lr_scan (llama_grammar_detect_left_recursion fuel rules) rule True fl;
       Some (if found then (True, fl)
             else (False, fl\<lparr>rules_in_progress := (rules_in_progress fl)[rule_index := False],
                             rules_visited := (rules_visited fl)[rule_index := True]\<rparr>))
     }
   }"

text \<open>The loop over the rules: \<open>True\<close> when some rule is left-recursive and the grammar is refused.\<close>

fun check_rules :: "nat \<Rightarrow> llama_grammar_rules \<Rightarrow> nat list \<Rightarrow> lr_flags \<Rightarrow> bool option" where
  "check_rules fuel rules [] fl = Some False"
| "check_rules fuel rules (i # is) fl = do {
     done \<leftarrow> vget (rules_visited fl) i;
     if done then check_rules fuel rules is fl
     else do {
       (found, fl) \<leftarrow> llama_grammar_detect_left_recursion fuel rules i fl;
       if found then Some True else check_rules fuel rules is fl
     }
   }"

definition left_recursive_check :: "nat \<Rightarrow> llama_grammar_rules \<Rightarrow> bool option" where
  "left_recursive_check fuel rules =
     (let n = length rules; fresh = replicate n False in
      check_rules fuel rules [0..<n]
        \<lparr>rules_visited = fresh, rules_in_progress = fresh, rules_may_be_empty = fresh\<rparr>)"

section \<open>Empty alternates\<close>

lemma may_be_empty_alternate:
  assumes "alts_from s i es = Some alts" and "may_be_empty b es" and "b \<Longrightarrow> s = i" and "suffix_ok t es"
  shows "\<exists>a \<in> set alts. i \<le> a \<and> a - i < length es \<and> is_end_type (ge_type (es ! (a - i)))"
  using assms
proof (induction t es arbitrary: s i b alts rule: suffix_ok.induct)
  case (2 t e)
  then show ?case by (auto simp: is_end_type_def split: if_splits)
next
  case (3 t e e' es)
  have shift: "i \<le> a \<and> a - i < length (e # e' # es) \<and> is_end_type (ge_type ((e # e' # es) ! (a - i)))"
    if "i + 1 \<le> a \<and> a - (i + 1) < length (e' # es) \<and> is_end_type (ge_type ((e' # es) ! (a - (i + 1))))" for a
  proof -
    from that have "a - i = Suc (a - (i + 1))" by arith
    with that show ?thesis by simp
  qed
  from "3.prems"(4) have ok: "suffix_ok (ge_type e) (e' # es)" "ge_type e \<noteq> LLAMA_GRETYPE_END" by auto
  show ?case
  proof (cases "ge_type e = LLAMA_GRETYPE_ALT")
    case True
    with "3.prems"(1) ok obtain alts' where alts': "alts_from (i + 1) (i + 1) (e' # es) = Some alts'" "alts = s # alts'"
      by (auto split: if_splits)
    show ?thesis
    proof (cases b)
      case b: True
      with "3.prems"(3) True alts'(2) show ?thesis by (simp add: is_end_type_def)
    next
      case False
      with True "3.prems"(2) have "may_be_empty True (e' # es)" by (simp add: is_end_type_def)
      from "3.IH" [OF alts'(1) this _ ok(1)] obtain a where "a \<in> set alts'"
        "i + 1 \<le> a \<and> a - (i + 1) < length (e' # es) \<and> is_end_type (ge_type ((e' # es) ! (a - (i + 1))))" by auto
      then show ?thesis using shift [of a] alts'(2) by (intro bexI [of _ a]) simp_all
    qed
  next
    case False
    with ok have "\<not> is_end_type (ge_type e)" by (simp add: is_end_type_def)
    with "3.prems"(1,2) ok False have "may_be_empty False (e' # es)" "alts_from s (i + 1) (e' # es) = Some alts"
      by auto
    from "3.IH" [OF this(2,1) _ ok(1)] obtain a where "a \<in> set alts"
      "i + 1 \<le> a \<and> a - (i + 1) < length (e' # es) \<and> is_end_type (ge_type ((e' # es) ! (a - (i + 1))))" by auto
    then show ?thesis using shift [of a] by blast
  qed
qed simp

lemma wf_rule:
  assumes "wf_rules rules" and "v < length rules"
  shows "suffix_ok LLAMA_GRETYPE_ALT (rules ! v)" and "refs_ok (length rules) (rules ! v)"
proof -
  have "rule_ok (rules ! v) \<and> refs_ok (length rules) (rules ! v)"
    using assms unfolding wf_rules_def by auto
  then show "suffix_ok LLAMA_GRETYPE_ALT (rules ! v)" and "refs_ok (length rules) (rules ! v)"
    unfolding rule_ok_def by (auto intro: suffix_ok_body)
qed

lemma may_be_empty_lang:
  assumes "wf_rules rules" and "v < length rules" and "may_be_empty True (rules ! v)"
  shows "rule_lang rules v []"
proof -
  obtain alts where alts: "alternates rules v = Some alts"
    using alternates_ok [OF assms(1,2)] by metis
  note ok = wf_rule(1) [OF assms(1,2)]
  from alts assms(2) have "alts_from 0 0 (rules ! v) = Some alts" by (simp add: alternates_def vget_def)
  from may_be_empty_alternate [OF this assms(3) _ ok] obtain a where a: "a \<in> set alts" "a < length (rules ! v)"
      "is_end_type (ge_type (rules ! v ! a))" by auto
  then have "llama_grammar_is_end_of_sequence rules (v, a) = Some True"
    using assms(2) by (simp add: llama_grammar_is_end_of_sequence_def deref_def vget_def)
  then show ?thesis using rule [OF alts a(1)] seq_end by blast
qed

section \<open>The recursion returns\<close>

definition flags_ok :: "llama_grammar_rules \<Rightarrow> lr_flags \<Rightarrow> bool" where
  "flags_ok rules fl \<longleftrightarrow> length (rules_visited fl) = length rules \<and>
     length (rules_in_progress fl) = length rules \<and> length (rules_may_be_empty fl) = length rules"

definition idle_rules :: "lr_flags \<Rightarrow> nat" where
  "idle_rules fl = length (filter Not (rules_in_progress fl))"

text \<open>What a call of the recursion gives: it returns, and when it finds nothing it restores the rules in progress.\<close>

definition lr_returns :: "llama_grammar_rules \<Rightarrow> lr_flags \<Rightarrow> (bool \<times> lr_flags) option \<Rightarrow> bool" where
  "lr_returns rules fl r \<longleftrightarrow> (\<exists>found fl'. r = Some (found, fl') \<and>
     (\<not> found \<longrightarrow> flags_ok rules fl' \<and> rules_in_progress fl' = rules_in_progress fl))"

lemma lr_returnsI:
  "r = Some (found, fl') \<Longrightarrow> (\<not> found \<Longrightarrow> flags_ok rules fl' \<and> rules_in_progress fl' = rules_in_progress fl)
    \<Longrightarrow> lr_returns rules fl r"
  unfolding lr_returns_def by blast

lemma lr_scan_returns:
  assumes "\<And>u fl'. u < length rules \<Longrightarrow> flags_ok rules fl' \<Longrightarrow> rules_in_progress fl' = rules_in_progress fl \<Longrightarrow>
      lr_returns rules fl' (rec u fl')"
    and "refs_ok (length rules) es" and "flags_ok rules fl"
  shows "lr_returns rules fl (lr_scan rec es b fl)"
  using assms
proof (induction es arbitrary: b fl)
  case Nil
  then show ?case by (intro lr_returnsI [of _ False fl]) simp_all
next
  case (Cons e es)
  have refs: "refs_ok (length rules) es" using Cons.prems(2) by (simp add: refs_ok_def)
  show ?case
  proof (cases "ge_type e = LLAMA_GRETYPE_RULE_REF \<and> b")
    case False
    then have "lr_scan rec (e # es) b fl = lr_scan rec es (is_end_type (ge_type e)) fl" by auto
    with Cons.IH [OF Cons.prems(1) refs Cons.prems(3)] show ?thesis by (simp only:)
  next
    case True
    then have u: "ge_value e < length rules" using Cons.prems(2) by (simp add: refs_ok_def)
    from Cons.prems(1) [OF u Cons.prems(3) refl] obtain found fl1 where r: "rec (ge_value e) fl = Some (found, fl1)"
      "\<not> found \<Longrightarrow> flags_ok rules fl1 \<and> rules_in_progress fl1 = rules_in_progress fl"
      unfolding lr_returns_def by blast
    show ?thesis
    proof (cases found)
      case found: True
      with True r(1) show ?thesis by (intro lr_returnsI [of _ True fl1]) simp_all
    next
      case no: False
      with r(2) have fl1: "flags_ok rules fl1" "rules_in_progress fl1 = rules_in_progress fl" by auto
      have "lr_returns rules fl1 (lr_scan rec es (rules_may_be_empty fl1 ! ge_value e) fl1)"
        by (rule Cons.IH [OF _ refs fl1(1)]) (use Cons.prems(1) fl1(2) in auto)
      then show ?thesis
        using True r(1) no u fl1 by (auto simp: lr_returns_def flags_ok_def vget_def)
    qed
  qed
qed

lemma idle_busy:
  assumes "i < length bs" and "\<not> bs ! i"
  shows "Suc (length (filter Not (bs[i := True]))) = length (filter Not bs)"
proof -
  have "bs = take i bs @ False # drop (Suc i) bs" using assms id_take_nth_drop [of i bs] by simp
  from arg_cong [OF this, of "\<lambda>xs. length (filter Not xs)"]
  have "length (filter Not bs) = Suc (length (filter Not (take i bs)) + length (filter Not (drop (Suc i) bs)))"
    by simp
  moreover from assms(1) have "bs[i := True] = take i bs @ True # drop (Suc i) bs"
    by (simp add: upd_conv_take_nth_drop)
  ultimately show ?thesis by simp
qed

lemma detect_returns:
  assumes "wf_rules rules" and "v < length rules" and "flags_ok rules fl" and "idle_rules fl < fuel"
  shows "lr_returns rules fl (llama_grammar_detect_left_recursion fuel rules v fl)"
  using assms(2-4)
proof (induction fuel arbitrary: v fl)
  case (Suc fuel)
  show ?case
  proof (cases "rules_in_progress fl ! v")
    case True
    with Suc.prems show ?thesis by (auto simp: lr_returns_def flags_ok_def vget_def)
  next
    case False
    define fl1 where "fl1 = fl\<lparr>rules_in_progress := (rules_in_progress fl)[v := True]\<rparr>"
    define fl2 where "fl2 = (if may_be_empty True (rules ! v)
      then fl1\<lparr>rules_may_be_empty := (rules_may_be_empty fl1)[v := True]\<rparr> else fl1)"
    have fl2: "flags_ok rules fl2" "rules_in_progress fl2 = (rules_in_progress fl)[v := True]"
      using Suc.prems(2) by (auto simp: fl2_def fl1_def flags_ok_def)
    have idle: "Suc (idle_rules fl2) = idle_rules fl"
      using idle_busy [of v "rules_in_progress fl"] False Suc.prems(1,2) fl2(2)
      by (simp add: idle_rules_def flags_ok_def)
    note refs = wf_rule(2) [OF assms(1) Suc.prems(1)]
    have "lr_returns rules fl2 (lr_scan (llama_grammar_detect_left_recursion fuel rules) (rules ! v) True fl2)"
    proof (rule lr_scan_returns [OF _ refs fl2(1)])
      show "lr_returns rules fl' (llama_grammar_detect_left_recursion fuel rules u fl')"
        if "u < length rules" "flags_ok rules fl'" "rules_in_progress fl' = rules_in_progress fl2" for u fl'
        by (rule Suc.IH [OF that(1,2)]) (use that(3) idle Suc.prems(3) in \<open>simp add: idle_rules_def\<close>)
    qed
    then obtain found fl3 where r: "lr_scan (llama_grammar_detect_left_recursion fuel rules) (rules ! v) True fl2 = Some (found, fl3)"
      "\<not> found \<Longrightarrow> flags_ok rules fl3 \<and> rules_in_progress fl3 = rules_in_progress fl2"
      unfolding lr_returns_def by blast
    have restore: "(rules_in_progress fl)[v := True, v := False] = rules_in_progress fl"
      using False by (simp add: list_update_same_conv) (metis list_update_id)
    have "llama_grammar_detect_left_recursion (Suc fuel) rules v fl = Some (if found then (True, fl3)
        else (False, fl3\<lparr>rules_in_progress := (rules_in_progress fl3)[v := False],
                         rules_visited := (rules_visited fl3)[v := True]\<rparr>))"
      using Suc.prems False r(1)
      by (cases "may_be_empty True (rules ! v)") (simp_all add: flags_ok_def vget_def fl2_def fl1_def Let_def)
    moreover have "flags_ok rules (fl3\<lparr>rules_in_progress := (rules_in_progress fl3)[v := False],
                         rules_visited := (rules_visited fl3)[v := True]\<rparr>) \<and>
        (rules_in_progress fl3)[v := False] = rules_in_progress fl" if "\<not> found"
    proof -
      from r(2) [OF that] fl2(2) have "flags_ok rules fl3" "rules_in_progress fl3 = (rules_in_progress fl)[v := True]"
        by simp_all
      with restore show ?thesis unfolding flags_ok_def by simp
    qed
    ultimately show ?thesis
      by (cases found) (auto intro: lr_returnsI [of _ True] lr_returnsI [of _ False])
  qed
qed simp


section \<open>What the recursion finds\<close>

abbreviation ends_left :: "llama_grammar_rules \<Rightarrow> nat \<Rightarrow> bool" where
  "ends_left rules v \<equiv> Wellfounded.accp (\<lambda>u v. left_ref rules v u) v"

text \<open>The flags are truthful: a visited rule starts no infinite chain, a rule marked empty is.\<close>

definition lr_inv :: "llama_grammar_rules \<Rightarrow> lr_flags \<Rightarrow> bool" where
  "lr_inv rules fl \<longleftrightarrow> flags_ok rules fl \<and>
     (\<forall>v < length rules. rules_visited fl ! v \<longrightarrow> ends_left rules v) \<and>
     (\<forall>v < length rules. rules_may_be_empty fl ! v \<longrightarrow> may_be_empty True (rules ! v))"

definition lr_more :: "llama_grammar_rules \<Rightarrow> lr_flags \<Rightarrow> lr_flags \<Rightarrow> bool" where
  "lr_more rules fl fl' \<longleftrightarrow> (\<forall>v < length rules. rules_may_be_empty fl ! v \<longrightarrow> rules_may_be_empty fl' ! v)"

lemma lr_more_trans: "lr_more rules fl fl' \<Longrightarrow> lr_more rules fl' fl'' \<Longrightarrow> lr_more rules fl fl''"
  by (simp add: lr_more_def)

text \<open>What a call that finds nothing establishes for its rule.\<close>

definition lr_clears :: "llama_grammar_rules \<Rightarrow> nat \<Rightarrow> lr_flags \<Rightarrow> lr_flags \<Rightarrow> bool" where
  "lr_clears rules u fl fl' \<longleftrightarrow> lr_inv rules fl' \<and> lr_more rules fl fl' \<and> ends_left rules u \<and>
     (may_be_empty True (rules ! u) \<longrightarrow> rules_may_be_empty fl' ! u)"

lemma lead_cases:
  assumes "lead rules p u" and "deref rules p = Some e"
  shows "ge_type e = LLAMA_GRETYPE_RULE_REF \<and>
    (u = ge_value e \<or> rule_lang rules (ge_value e) [] \<and> lead rules (next_pos p) u)"
  using assms by (cases rule: lead.cases) auto

lemma alts_from_hd: "alts_from s i es = Some alts \<Longrightarrow> \<exists>alts'. alts = s # alts'"
  by (induction s i es arbitrary: alts rule: alts_from.induct) (auto split: if_splits)

lemma lr_scan_clears:
  assumes v: "v < length rules" "refs_ok (length rules) (rules ! v)"
    and rec: "\<And>u fl fl'. u < length rules \<Longrightarrow> lr_inv rules fl \<Longrightarrow> rec u fl = Some (False, fl') \<Longrightarrow>
      lr_clears rules u fl fl'"
    and direct: "\<And>u. u < length rules \<Longrightarrow> rule_lang rules u [] \<Longrightarrow> may_be_empty True (rules ! u)"
  shows "\<lbrakk>es = drop i (rules ! v); suffix_ok t es; alts_from s i es = Some alts; lr_inv rules fl;
      lr_scan rec es rc fl = Some (False, fl')\<rbrakk> \<Longrightarrow>
    lr_inv rules fl' \<and> lr_more rules fl fl' \<and> (rc \<longrightarrow> (\<forall>u. lead rules (v, i) u \<longrightarrow> ends_left rules u)) \<and>
    (\<forall>a \<in> set (tl alts). \<forall>u. lead rules (v, a) u \<longrightarrow> ends_left rules u)"
proof (induction es arbitrary: i t s alts fl rc)
  case (Cons e es)
  have i: "deref rules (v, i) = Some e"
    using vget_drop [OF Cons.prems(1) [symmetric]] v(1) by (simp add: deref_def vget_def)
  have es: "es = drop (i + 1) (rules ! v)" using Cons.prems(1) by (metis Suc_eq_plus1 drop_Suc list.sel(3) tl_drop)
  have "e \<in> set (rules ! v)" using Cons.prems(1) by (metis in_set_dropD list.set_intros(1))
  then have ref: "ge_type e = LLAMA_GRETYPE_RULE_REF \<Longrightarrow> ge_value e < length rules"
    using v(2) by (auto simp: refs_ok_def)
  show ?case
  proof (cases es)
    case Nil
    with Cons.prems(2) have end_: "ge_type e = LLAMA_GRETYPE_END" by simp
    then have "alts = [s]" "fl' = fl" using Cons.prems(3,5) Nil by auto
    with Cons.prems(4) end_ show ?thesis using lead_cases [OF _ i] by (auto simp: lr_more_def)
  next
    case (Cons e' es')
    with Cons.prems(2) have ok: "suffix_ok (ge_type e) es" "ge_type e \<noteq> LLAMA_GRETYPE_END" by auto
    show ?thesis
    proof (cases "ge_type e = LLAMA_GRETYPE_ALT")
      case True
      with Cons.prems(3) obtain alts' where alts': "alts_from (i + 1) (i + 1) es = Some alts'" "alts = s # alts'"
        by (auto split: if_splits)
      from True Cons.prems(5) have run: "lr_scan rec es True fl = Some (False, fl')" by (simp add: is_end_type_def)
      from Cons.IH [OF es ok(1) alts'(1) Cons.prems(4) run] alts_from_hd [OF alts'(1)] True lead_cases [OF _ i] alts'(2)
      show ?thesis by auto
    next
      case not_alt: False
      with Cons.prems(3) ok have alts': "alts_from s (i + 1) es = Some alts" by auto
      show ?thesis
      proof (cases "ge_type e = LLAMA_GRETYPE_RULE_REF \<and> rc")
        case False
        then have "lr_scan rec es (is_end_type (ge_type e)) fl = Some (False, fl')" using Cons.prems(5) by auto
        from Cons.IH [OF es ok(1) alts' Cons.prems(4) this] False lead_cases [OF _ i] show ?thesis by auto
      next
        case True
        with Cons.prems(5) obtain fl1 where fl1: "rec (ge_value e) fl = Some (False, fl1)"
            "lr_scan rec es (rules_may_be_empty fl1 ! ge_value e) fl1 = Some (False, fl')"
          by (auto split: bind_splits if_splits)
        from rec [OF ref Cons.prems(4) fl1(1)] True have c: "lr_clears rules (ge_value e) fl fl1" by simp
        then have inv1: "lr_inv rules fl1" by (simp add: lr_clears_def)
        from Cons.IH [OF es ok(1) alts' inv1 fl1(2)]
        have IH: "lr_inv rules fl'" "lr_more rules fl1 fl'"
          "rules_may_be_empty fl1 ! ge_value e \<Longrightarrow> \<forall>u. lead rules (v, i + 1) u \<longrightarrow> ends_left rules u"
          "\<forall>a \<in> set (tl alts). \<forall>u. lead rules (v, a) u \<longrightarrow> ends_left rules u" by auto
        have "ends_left rules u" if u: "lead rules (v, i) u" for u
        proof (cases "u = ge_value e")
          case True
          with c show ?thesis by (simp add: lr_clears_def)
        next
          case False
          with lead_cases [OF u i] have "rule_lang rules (ge_value e) []" "lead rules (v, i + 1) u"
            by (auto simp: next_pos_def)
          with c direct [OF ref] IH(3) True show ?thesis by (auto simp: lr_clears_def)
        qed
        moreover have "lr_more rules fl fl'" using c IH(2) by (auto simp: lr_clears_def intro: lr_more_trans)
        ultimately show ?thesis using IH by blast
      qed
    qed
  qed
qed simp


text \<open>One call unfolded: the rule in progress is marked, scanned, and unmarked.\<close>

definition lr_enter :: "llama_grammar_rules \<Rightarrow> nat \<Rightarrow> lr_flags \<Rightarrow> lr_flags" where
  "lr_enter rules v fl =
     (let fl = fl\<lparr>rules_in_progress := (rules_in_progress fl)[v := True]\<rparr> in
      if may_be_empty True (rules ! v)
      then fl\<lparr>rules_may_be_empty := (rules_may_be_empty fl)[v := True]\<rparr> else fl)"

definition lr_leave :: "nat \<Rightarrow> lr_flags \<Rightarrow> lr_flags" where
  "lr_leave v fl = fl\<lparr>rules_in_progress := (rules_in_progress fl)[v := False],
     rules_visited := (rules_visited fl)[v := True]\<rparr>"

lemma detect_unfold:
  assumes "flags_ok rules fl" and "v < length rules"
  shows "llama_grammar_detect_left_recursion (Suc fuel) rules v fl =
    (if rules_in_progress fl ! v then Some (True, fl)
     else map_option (\<lambda>(found, fl). if found then (True, fl) else (False, lr_leave v fl))
       (lr_scan (llama_grammar_detect_left_recursion fuel rules) (rules ! v) True (lr_enter rules v fl)))"
  using assms
  by (cases "may_be_empty True (rules ! v)")
     (auto simp: flags_ok_def vget_def lr_enter_def lr_leave_def Let_def map_option_case
        split: option.splits bind_splits)

lemma lr_enter_simps:
  assumes "flags_ok rules fl" and "v < length rules"
  shows "flags_ok rules (lr_enter rules v fl)"
    and "rules_in_progress (lr_enter rules v fl) = (rules_in_progress fl)[v := True]"
    and "rules_visited (lr_enter rules v fl) = rules_visited fl"
    and "w < length rules \<Longrightarrow> rules_may_be_empty (lr_enter rules v fl) ! w \<longleftrightarrow>
      rules_may_be_empty fl ! w \<or> w = v \<and> may_be_empty True (rules ! v)"
  using assms by (auto simp: lr_enter_def flags_ok_def Let_def nth_list_update)

lemma detect_clears:
  assumes wf: "wf_rules rules"
    and direct: "\<And>u. u < length rules \<Longrightarrow> rule_lang rules u [] \<Longrightarrow> may_be_empty True (rules ! u)"
  shows "\<lbrakk>v < length rules; lr_inv rules fl; llama_grammar_detect_left_recursion fuel rules v fl = Some (False, fl')\<rbrakk>
    \<Longrightarrow> lr_clears rules v fl fl'"
proof (induction fuel arbitrary: v fl fl')
  case (Suc fuel)
  have fl: "flags_ok rules fl" using Suc.prems(2) by (simp add: lr_inv_def)
  note enter = lr_enter_simps [OF fl Suc.prems(1)]
  from Suc.prems(3) obtain fl2 where fl2: "lr_scan (llama_grammar_detect_left_recursion fuel rules) (rules ! v) True
      (lr_enter rules v fl) = Some (False, fl2)" "fl' = lr_leave v fl2"
    unfolding detect_unfold [OF fl Suc.prems(1)] by (auto split: if_splits)
  obtain alts where alts: "alternates rules v = Some alts"
    using alternates_ok [OF wf Suc.prems(1)] by metis
  then have from0: "alts_from 0 0 (rules ! v) = Some alts" using Suc.prems(1) by (simp add: alternates_def vget_def)
  have inv: "lr_inv rules (lr_enter rules v fl)"
    using Suc.prems(2) enter unfolding lr_inv_def by auto
  have "rules ! v = drop 0 (rules ! v)" by simp
  have scan_all: "lr_inv rules fl2 \<and> lr_more rules (lr_enter rules v fl) fl2 \<and>
      (True \<longrightarrow> (\<forall>u. lead rules (v, 0) u \<longrightarrow> ends_left rules u)) \<and>
      (\<forall>a \<in> set (tl alts). \<forall>u. lead rules (v, a) u \<longrightarrow> ends_left rules u)"
  proof (rule lr_scan_clears [OF Suc.prems(1) wf_rule(2) [OF wf Suc.prems(1)]])
    show "lr_clears rules u f f'" if "u < length rules" "lr_inv rules f"
      "llama_grammar_detect_left_recursion fuel rules u f = Some (False, f')" for u f f'
      using Suc.IH that by blast
    show "may_be_empty True (rules ! u)" if "u < length rules" "rule_lang rules u []" for u
      using direct that by blast
  qed (fact \<open>rules ! v = drop 0 (rules ! v)\<close> wf_rule(1) [OF wf Suc.prems(1)] from0 inv fl2(1))+
  have scan: "lr_inv rules fl2" "lr_more rules (lr_enter rules v fl) fl2"
      "\<forall>u. lead rules (v, 0) u \<longrightarrow> ends_left rules u"
      "\<forall>a \<in> set (tl alts). \<forall>u. lead rules (v, a) u \<longrightarrow> ends_left rules u"
    using scan_all by blast+
  obtain alts' where "alts = 0 # alts'"
    using alts_from_hd [OF from0] by blast
  with scan(3,4) alts have "ends_left rules u" if "left_ref rules v u" for u
    using that by (auto simp: left_ref_def)
  then have ends: "ends_left rules v" by (rule accpI)
  have "lr_inv rules fl'"
    using scan(1) ends Suc.prems(1) unfolding lr_inv_def fl2(2) lr_leave_def flags_ok_def
    by (auto simp: nth_list_update split: if_splits)
  moreover have "lr_more rules fl fl'" "may_be_empty True (rules ! v) \<longrightarrow> rules_may_be_empty fl' ! v"
    using scan(2) enter(4) Suc.prems(1) unfolding lr_more_def fl2(2) lr_leave_def by auto
  ultimately show ?case using ends by (simp add: lr_clears_def)
qed simp

lemma check_rules_clears:
  assumes wf: "wf_rules rules"
    and direct: "\<And>u. u < length rules \<Longrightarrow> rule_lang rules u [] \<Longrightarrow> may_be_empty True (rules ! u)"
  shows "\<lbrakk>\<forall>i \<in> set is. i < length rules; lr_inv rules fl; check_rules fuel rules is fl = Some False\<rbrakk>
    \<Longrightarrow> \<forall>i \<in> set is. ends_left rules i"
proof (induction "is" arbitrary: fl)
  case (Cons i "is")
  then have i: "i < length rules" by simp
  show ?case
  proof (cases "rules_visited fl ! i")
    case True
    with Cons.prems i have "ends_left rules i" "check_rules fuel rules is fl = Some False"
      by (auto simp: lr_inv_def flags_ok_def vget_def)
    with Cons.IH [OF _ Cons.prems(2)] Cons.prems(1) show ?thesis by auto
  next
    case False
    with Cons.prems i obtain fl' where fl': "llama_grammar_detect_left_recursion fuel rules i fl = Some (False, fl')"
        "check_rules fuel rules is fl' = Some False"
      by (auto simp: lr_inv_def flags_ok_def vget_def split: bind_splits if_splits)
    from detect_clears [OF wf direct i Cons.prems(2) fl'(1)] have "lr_inv rules fl'" "ends_left rules i"
      by (auto simp: lr_clears_def)
    with Cons.IH [OF _ _ fl'(2)] Cons.prems(1) show ?thesis by auto
  qed
qed simp

section \<open>What it refuses is left-recursive\<close>

abbreviation left_plus :: "llama_grammar_rules \<Rightarrow> nat \<Rightarrow> nat \<Rightarrow> bool" where
  "left_plus rules \<equiv> (left_ref rules)\<^sup>+\<^sup>+"

definition lr_truthful :: "llama_grammar_rules \<Rightarrow> lr_flags \<Rightarrow> bool" where
  "lr_truthful rules fl \<longleftrightarrow> flags_ok rules fl \<and>
     (\<forall>v < length rules. rules_may_be_empty fl ! v \<longrightarrow> rule_lang rules v [])"

text \<open>The rules in progress reach the rule at the left.\<close>

definition lr_path :: "llama_grammar_rules \<Rightarrow> nat \<Rightarrow> lr_flags \<Rightarrow> bool" where
  "lr_path rules u fl \<longleftrightarrow> (\<forall>w < length rules. rules_in_progress fl ! w \<longrightarrow> left_plus rules w u)"

definition lr_sound :: "llama_grammar_rules \<Rightarrow> bool \<Rightarrow> lr_flags \<Rightarrow> lr_flags \<Rightarrow> bool" where
  "lr_sound rules found fl fl' \<longleftrightarrow> (if found then \<exists>w. left_plus rules w w
     else lr_truthful rules fl' \<and> rules_in_progress fl' = rules_in_progress fl)"

lemma lr_scan_sound:
  assumes v: "v < length rules" "refs_ok (length rules) (rules ! v)"
    and alts0: "alternates rules v = Some alts0"
    and rec: "\<And>u fl found fl'. \<lbrakk>u < length rules; lr_truthful rules fl; lr_path rules u fl;
      rec u fl = Some (found, fl')\<rbrakk> \<Longrightarrow> lr_sound rules found fl fl'"
    and busy: "\<And>w. w < length rules \<Longrightarrow> ip ! w \<Longrightarrow> (left_ref rules)\<^sup>*\<^sup>* w v"
  shows "\<lbrakk>es = drop i (rules ! v); suffix_ok t es; alts_from s i es = Some alts; set alts \<subseteq> set alts0;
      lr_truthful rules fl; rules_in_progress fl = ip; rc \<Longrightarrow> \<forall>u. lead rules (v, i) u \<longrightarrow> left_ref rules v u;
      lr_scan rec es rc fl = Some (found, fl')\<rbrakk> \<Longrightarrow> lr_sound rules found fl fl'"
proof (induction es arbitrary: i t s alts fl rc)
  case (Cons e es)
  have i: "deref rules (v, i) = Some e"
    using vget_drop [OF Cons.prems(1) [symmetric]] v(1) by (simp add: deref_def vget_def)
  have es: "es = drop (i + 1) (rules ! v)" using Cons.prems(1) by (metis Suc_eq_plus1 drop_Suc list.sel(3) tl_drop)
  have "e \<in> set (rules ! v)" using Cons.prems(1) by (metis in_set_dropD list.set_intros(1))
  then have ref: "ge_type e = LLAMA_GRETYPE_RULE_REF \<Longrightarrow> ge_value e < length rules"
    using v(2) by (auto simp: refs_ok_def)
  show ?case
  proof (cases es)
    case Nil
    with Cons.prems(2) have "ge_type e = LLAMA_GRETYPE_END" by simp
    with Cons.prems(8) Nil have "\<not> found" "fl' = fl" by auto
    with Cons.prems(5) show ?thesis by (simp add: lr_sound_def)
  next
    case (Cons e' es')
    with Cons.prems(2) have ok: "suffix_ok (ge_type e) es" "ge_type e \<noteq> LLAMA_GRETYPE_END" by auto
    show ?thesis
    proof (cases "ge_type e = LLAMA_GRETYPE_ALT")
      case True
      with Cons.prems(3) obtain alts' where alts': "alts_from (i + 1) (i + 1) es = Some alts'" "alts = s # alts'"
        by (auto split: if_splits)
      have "i + 1 \<in> set alts0" using alts_from_hd [OF alts'(1)] alts'(2) Cons.prems(4) by auto
      then have lead: "\<forall>u. lead rules (v, i + 1) u \<longrightarrow> left_ref rules v u"
        using alts0 by (auto simp: left_ref_def)
      from True Cons.prems(8) have run: "lr_scan rec es True fl = Some (found, fl')" by (simp add: is_end_type_def)
      show ?thesis
        by (rule Cons.IH [OF es ok(1) alts'(1) _ Cons.prems(5,6) lead run]) (use alts'(2) Cons.prems(4) in auto)
    next
      case not_alt: False
      with Cons.prems(3) ok have alts': "alts_from s (i + 1) es = Some alts" by auto
      show ?thesis
      proof (cases "ge_type e = LLAMA_GRETYPE_RULE_REF \<and> rc")
        case False
        with not_alt ok(2) have "lr_scan rec es False fl = Some (found, fl')"
          using Cons.prems(8) by (auto simp: is_end_type_def)
        from Cons.IH [OF es ok(1) alts' Cons.prems(4-6) _ this] show ?thesis by simp
      next
        case True
        then have lead: "\<forall>u. lead rules (v, i) u \<longrightarrow> left_ref rules v u" using Cons.prems(7) by simp
        then have "left_ref rules v (ge_value e)" using lead.here [OF i] True by blast
        then have path: "lr_path rules (ge_value e) fl"
          using busy Cons.prems(6) by (auto simp: lr_path_def intro: rtranclp_into_tranclp1)
        from True Cons.prems(8) obtain f1 fl1 where fl1: "rec (ge_value e) fl = Some (f1, fl1)"
          by (auto split: bind_splits)
        have sound: "lr_sound rules f1 fl fl1"
          by (rule rec [OF _ Cons.prems(5) path fl1]) (use ref True in simp)
        show ?thesis
        proof (cases f1)
          case f1: True
          with True Cons.prems(8) fl1 sound show ?thesis by (auto simp: lr_sound_def)
        next
          case no: False
          with sound have t1: "lr_truthful rules fl1" "rules_in_progress fl1 = rules_in_progress fl"
            by (simp_all add: lr_sound_def)
          from no True Cons.prems(8) fl1
          have run: "lr_scan rec es (rules_may_be_empty fl1 ! ge_value e) fl1 = Some (found, fl')"
            by (auto split: bind_splits)
          have "\<forall>u. lead rules (v, i + 1) u \<longrightarrow> left_ref rules v u" if "rules_may_be_empty fl1 ! ge_value e"
          proof -
            from t1(1) that ref True have "rule_lang rules (ge_value e) []" by (auto simp: lr_truthful_def)
            then show ?thesis using lead lead.skip [OF i] True by (auto simp: next_pos_def)
          qed
          from Cons.IH [OF es ok(1) alts' Cons.prems(4) t1(1) _ this run] t1(2) Cons.prems(6)
          show ?thesis by (simp add: lr_sound_def)
        qed
      qed
    qed
  qed
qed (simp add: lr_sound_def)

lemma detect_sound:
  assumes wf: "wf_rules rules"
  shows "\<lbrakk>v < length rules; lr_truthful rules fl; lr_path rules v fl;
      llama_grammar_detect_left_recursion fuel rules v fl = Some (found, fl')\<rbrakk> \<Longrightarrow> lr_sound rules found fl fl'"
proof (induction fuel arbitrary: v fl found fl')
  case (Suc fuel)
  have fl: "flags_ok rules fl" using Suc.prems(2) by (simp add: lr_truthful_def)
  note enter = lr_enter_simps [OF fl Suc.prems(1)]
  show ?case
  proof (cases "rules_in_progress fl ! v")
    case True
    with Suc.prems(4) have "found" unfolding detect_unfold [OF fl Suc.prems(1)] by simp
    moreover from True Suc.prems(1,3) have "left_plus rules v v" by (simp add: lr_path_def)
    ultimately show ?thesis by (auto simp: lr_sound_def)
  next
    case False
    with Suc.prems(4) obtain fl2 where fl2: "lr_scan (llama_grammar_detect_left_recursion fuel rules) (rules ! v) True
        (lr_enter rules v fl) = Some (found, fl2)" "fl' = (if found then fl2 else lr_leave v fl2)"
      unfolding detect_unfold [OF fl Suc.prems(1)] by (auto split: if_splits)
    obtain alts where alts: "alternates rules v = Some alts"
      using alternates_ok [OF wf Suc.prems(1)] by metis
    then have from0: "alts_from 0 0 (rules ! v) = Some alts" using Suc.prems(1) by (simp add: alternates_def vget_def)
    have truth: "lr_truthful rules (lr_enter rules v fl)"
      using Suc.prems(1,2) enter may_be_empty_lang [OF wf Suc.prems(1)] unfolding lr_truthful_def by auto
    have busy: "(left_ref rules)\<^sup>*\<^sup>* w v" if "w < length rules" "(rules_in_progress fl)[v := True] ! w" for w
      using that Suc.prems(3) Suc.prems(1) fl
      by (cases "w = v") (auto simp: lr_path_def flags_ok_def dest: tranclp_into_rtranclp)
    have "0 \<in> set alts" using alts_from_hd [OF from0] by auto
    then have lead0: "\<forall>u. lead rules (v, 0) u \<longrightarrow> left_ref rules v u" using alts by (auto simp: left_ref_def)
    have "lr_sound rules found (lr_enter rules v fl) fl2"
      using lr_scan_sound [where rec = "llama_grammar_detect_left_recursion fuel rules" and es = "rules ! v"
          and i = 0 and t = LLAMA_GRETYPE_ALT and s = 0 and alts = alts and fl = "lr_enter rules v fl" and rc = True,
          OF Suc.prems(1) wf_rule(2) [OF wf Suc.prems(1)] alts Suc.IH busy]
        wf_rule(1) [OF wf Suc.prems(1)] from0 truth enter(2) lead0 fl2(1) by simp
    moreover have "(rules_in_progress fl)[v := True, v := False] = rules_in_progress fl"
      using False by (simp add: list_update_same_conv) (metis list_update_id)
    ultimately show ?thesis
      using fl2(2) enter(2) by (auto simp: lr_sound_def lr_leave_def lr_truthful_def flags_ok_def)
  qed
qed simp


lemma check_rules_sound:
  assumes wf: "wf_rules rules"
  shows "\<lbrakk>\<forall>i \<in> set is. i < length rules; lr_truthful rules fl; \<forall>w < length rules. \<not> rules_in_progress fl ! w;
      check_rules fuel rules is fl = Some True\<rbrakk> \<Longrightarrow> \<exists>w. left_plus rules w w"
proof (induction "is" arbitrary: fl)
  case (Cons i "is")
  then have i: "i < length rules" by simp
  show ?case
  proof (cases "rules_visited fl ! i")
    case True
    with Cons.prems i have "check_rules fuel rules is fl = Some True"
      by (auto simp: lr_truthful_def flags_ok_def vget_def)
    with Cons.IH [OF _ Cons.prems(2,3)] Cons.prems(1) show ?thesis by auto
  next
    case False
    with Cons.prems i obtain found fl' where fl': "llama_grammar_detect_left_recursion fuel rules i fl = Some (found, fl')"
        "found \<or> check_rules fuel rules is fl' = Some True"
      by (auto simp: lr_truthful_def flags_ok_def vget_def split: bind_splits if_splits)
    have "lr_path rules i fl" using Cons.prems(3) by (simp add: lr_path_def)
    from detect_sound [OF wf i Cons.prems(2) this fl'(1)] have sound: "lr_sound rules found fl fl'" .
    show ?thesis
    proof (cases found)
      case True
      with sound show ?thesis by (simp add: lr_sound_def)
    next
      case no: False
      with sound fl'(2) Cons.prems(1,3) show ?thesis
        using Cons.IH [of fl'] by (simp add: lr_sound_def)
    qed
  qed
qed simp

lemma check_rules_returns:
  assumes wf: "wf_rules rules"
  shows "\<lbrakk>\<forall>i \<in> set is. i < length rules; flags_ok rules fl; idle_rules fl < fuel\<rbrakk>
    \<Longrightarrow> \<exists>b. check_rules fuel rules is fl = Some b"
proof (induction "is" arbitrary: fl)
  case (Cons i "is")
  then have i: "i < length rules" by simp
  show ?case
  proof (cases "rules_visited fl ! i")
    case True
    with Cons i show ?thesis by (auto simp: flags_ok_def vget_def)
  next
    case False
    from detect_returns [OF wf i Cons.prems(2,3)] obtain found fl' where
      fl': "llama_grammar_detect_left_recursion fuel rules i fl = Some (found, fl')"
        "\<not> found \<Longrightarrow> flags_ok rules fl' \<and> rules_in_progress fl' = rules_in_progress fl"
      unfolding lr_returns_def by blast
    have step: "check_rules fuel rules (i # is) fl = (if found then Some True else check_rules fuel rules is fl')"
      using Cons.prems(2) i False fl'(1) by (simp add: flags_ok_def vget_def)
    show ?thesis
    proof (cases found)
      case True
      then show ?thesis unfolding step by auto
    next
      case no: False
      have "idle_rules fl' < fuel" using fl'(2) [OF no] Cons.prems(3) by (simp add: idle_rules_def)
      with Cons.IH [of fl'] fl'(2) [OF no] Cons.prems(1) no show ?thesis unfolding step by simp
    qed
  qed
qed auto

definition fresh_flags :: "llama_grammar_rules \<Rightarrow> lr_flags" where
  "fresh_flags rules = (let fresh = replicate (length rules) False in
     \<lparr>rules_visited = fresh, rules_in_progress = fresh, rules_may_be_empty = fresh\<rparr>)"

lemma left_recursive_check_fresh:
  "left_recursive_check fuel rules = check_rules fuel rules [0..<length rules] (fresh_flags rules)"
  by (simp add: left_recursive_check_def fresh_flags_def Let_def)

lemma fresh_flags_simps:
  "flags_ok rules (fresh_flags rules)" "lr_inv rules (fresh_flags rules)" "lr_truthful rules (fresh_flags rules)"
  "\<forall>w < length rules. \<not> rules_in_progress (fresh_flags rules) ! w" "idle_rules (fresh_flags rules) = length rules"
  by (simp_all add: fresh_flags_def flags_ok_def lr_inv_def lr_truthful_def idle_rules_def Let_def)

lemma left_recursive_check_returns:
  "wf_rules rules \<Longrightarrow> length rules < fuel \<Longrightarrow> \<exists>b. left_recursive_check fuel rules = Some b"
  unfolding left_recursive_check_fresh
  by (rule check_rules_returns) (simp_all add: fresh_flags_simps)

lemma left_recursive_check_True:
  assumes "wf_rules rules" and "left_recursive_check fuel rules = Some True"
  shows "\<exists>w. left_plus rules w w"
  using check_rules_sound [OF assms(1) _ fresh_flags_simps(3,4), of "[0..<length rules]"] assms(2)
  unfolding left_recursive_check_fresh by simp

lemma left_recursive_check_False:
  assumes "wf_rules rules" and "left_recursive_check fuel rules = Some False"
    and "\<And>u. u < length rules \<Longrightarrow> rule_lang rules u [] \<Longrightarrow> may_be_empty True (rules ! u)"
  shows "not_left_recursive rules"
proof -
  have "\<forall>i \<in> set [0..<length rules]. ends_left rules i"
    by (rule check_rules_clears [OF assms(1,3) _ fresh_flags_simps(2)])
       (use assms(2) in \<open>simp_all add: left_recursive_check_fresh\<close>)
  then show ?thesis by (simp add: not_left_recursive_def)
qed

text \<open>A rule that reaches itself at the left starts an infinite chain.\<close>

lemma cycle_not_ends:
  assumes "left_plus rules w w"
  shows "\<not> ends_left rules w"
proof
  assume "ends_left rules w"
  then show False
    using assms
  proof (induction rule: accp_induct_rule)
    case (1 v)
    then obtain u where u: "left_ref rules v u" "(left_ref rules)\<^sup>*\<^sup>* u v" by (auto dest: tranclpD)
    then have "left_plus rules u u" by (rule rtranclp_into_tranclp1 [rotated])
    with 1 u(1) show False by blast
  qed
qed

end
