(* ===== verification/Grammar_Decode.thy ===== *)
theory Grammar_Decode
  imports Grammar_Rules Utf8
begin

text \<open>
  The two \<^verbatim>\<open>decode_utf8\<close> of src/src/llama-grammar.cpp: the one of the grammar parser, and the one that
  decodes the text of tokens, which may stop inside a character and go on with the next token. The
  text is a C string: it ends with its last byte or at a byte 0.
\<close>

section \<open>Decoding one character of a grammar text\<close>

definition peek :: "byte list \<Rightarrow> byte" where
  "peek s = (case s of [] \<Rightarrow> 0 | b # _ \<Rightarrow> b)"

lemma peek_simps [simp]: "peek [] = 0" "peek (b # s) = b"
  by (simp_all add: peek_def)

text \<open>\<open>len\<close> counts the bytes that \<^verbatim>\<open>end - pos\<close> leaves.\<close>

fun decode_tail :: "nat \<Rightarrow> nat \<Rightarrow> byte list \<Rightarrow> nat \<times> byte list" where
  "decode_tail v n [] = (v, [])"
| "decode_tail v n (b # s) =
     (if n > 0 \<and> b \<noteq> 0 then decode_tail (u32 (u32 (push_bit 6 v) + (b AND 0x3F))) (n - 1) s else (v, b # s))"

definition decode_utf8 :: "byte list \<Rightarrow> nat \<times> byte list" where
  "decode_utf8 src =
     (let first_byte = peek src;
          len = [1, 1, 1, 1, 1, 1, 1, 1, 1, 1, 1, 1, 2, 2, 3, 4] ! drop_bit 4 (first_byte mod 256);
          mask = (push_bit (8 - len) 1 - 1) mod 256
      in decode_tail (first_byte AND mask) (len - 1) (tl src))"

section \<open>Decoding the text of tokens\<close>

text \<open>The loop that continues an unfinished character; \<open>None\<close> is an invalid byte.\<close>

fun decode_continue :: "nat \<Rightarrow> int \<Rightarrow> byte list \<Rightarrow> (nat \<times> int \<times> byte list) option" where
  "decode_continue v n [] = Some (v, n, [])"
| "decode_continue v n (b # s) =
     (if b \<noteq> 0 \<and> n > 0 then
        (if drop_bit 6 b \<noteq> 2 then None
         else decode_continue (u32 (u32 (push_bit 6 v) + (b AND 0x3F))) (n - 1) s)
      else Some (v, n, b # s))"

text \<open>The inner loop of the second one, which does not look at the high bits of the bytes.\<close>

fun decode_more :: "nat \<Rightarrow> int \<Rightarrow> byte list \<Rightarrow> nat \<times> int \<times> byte list" where
  "decode_more v n [] = (v, n, [])"
| "decode_more v n (b # s) =
     (if b \<noteq> 0 \<and> n > 0 then decode_more (u32 (u32 (push_bit 6 v) + (b AND 0x3F))) (n - 1) s else (v, n, b # s))"

lemma decode_more_length: "length (snd (snd (decode_more v n s))) \<le> length s"
  by (induction v n s rule: decode_more.induct) auto

lemma decode_more_shorter:
  assumes "decode_more v n (tl s) = (v', n', s')" and "peek s \<noteq> 0"
  shows "length s' < length s"
proof (cases s)
  case (Cons b s1)
  with decode_more_length [of v n "tl s"] assms(1) show ?thesis by simp
qed (use assms(2) in simp)

definition utf8_lookup :: "byte \<Rightarrow> int" where
  "utf8_lookup b = [1, 1, 1, 1, 1, 1, 1, 1, 0, 0, 0, 0, 2, 2, 3, 4] ! drop_bit 4 (b mod 256)"

text \<open>One character from its first byte on.\<close>

definition decode_char :: "byte list \<Rightarrow> nat \<times> int \<times> byte list" where
  "decode_char s =
     (let n = utf8_lookup (peek s) - 1; mask = push_bit (nat (7 - n)) 1 - 1 in
      decode_more (peek s AND mask) n (tl s))"

lemma decode_char_shorter:
  "peek s \<noteq> 0 \<Longrightarrow> (v, n, s') = decode_char s \<Longrightarrow> length s' < length s"
  using decode_more_shorter [of _ _ s v n s'] by (simp add: decode_char_def Let_def)

function decode_loop :: "byte list \<Rightarrow> nat list \<Rightarrow> nat \<Rightarrow> int \<Rightarrow> nat list \<times> llama_partial_utf8" where
  "decode_loop s code_points v n =
     (if peek s = 0 then (code_points @ [0], \<lparr>pu_value = v, pu_n_remain = n\<rparr>)
      else if utf8_lookup (peek s) < 1 then ([0], \<lparr>pu_value = 0, pu_n_remain = utf8_lookup (peek s) - 1\<rparr>)
      else (case decode_char s of (v, n, s') \<Rightarrow>
        decode_loop s' (if n = 0 then code_points @ [v] else code_points) v n))"
  by pat_completeness auto
termination
  by (relation "measure (\<lambda>(s, _). length s)")
     (auto intro: decode_char_shorter)

declare decode_loop.simps [simp del]

lemma decode_loop_Nil [simp]: "decode_loop [] code_points v n = (code_points @ [0], \<lparr>pu_value = v, pu_n_remain = n\<rparr>)"
  by (simp add: decode_loop.simps)

lemma decode_loop_Cons:
  assumes "b \<noteq> 0" and "utf8_lookup b - 1 = int k"
    and "decode_more (b AND (push_bit (nat (7 - int k)) 1 - 1)) (int k) s = (v', n', s')"
  shows "decode_loop (b # s) code_points v n
    = decode_loop s' (if n' = 0 then code_points @ [v'] else code_points) v' n'"
  using assms by (simp add: decode_loop.simps [of "b # s"] decode_char_def Let_def)

definition decode_utf8_partial :: "byte list \<Rightarrow> llama_partial_utf8 \<Rightarrow> nat list \<times> llama_partial_utf8" where
  "decode_utf8_partial src partial_start =
     (case decode_continue (pu_value partial_start) (pu_n_remain partial_start) src of
        None \<Rightarrow> ([0], \<lparr>pu_value = 0, pu_n_remain = - 1\<rparr>)
      | Some (v, n, s) \<Rightarrow>
          decode_loop s (if pu_n_remain partial_start > 0 \<and> n = 0 then [v] else []) v n)"


section \<open>Text in pieces\<close>

definition cont_step :: "nat \<Rightarrow> byte \<Rightarrow> nat" where
  "cont_step v b = u32 (u32 (push_bit 6 v) + (b AND 0x3F))"

definition cont_byte :: "byte \<Rightarrow> bool" where
  "cont_byte b \<longleftrightarrow> drop_bit 6 b = 2"

lemma cont_byte_nonzero: "cont_byte b \<Longrightarrow> b \<noteq> 0"
  by (cases b) (auto simp: cont_byte_def)

lemma decode_more_all:
  "\<forall>b \<in> set bs. cont_byte b \<Longrightarrow> decode_more v (int (length bs)) (bs @ s) = (foldl cont_step v bs, 0, s)"
proof (induction bs arbitrary: v)
  case Nil
  then show ?case by (cases s) auto
next
  case (Cons b bs)
  then show ?case using cont_byte_nonzero [of b] by (simp add: cont_step_def)
qed

lemma decode_more_some:
  "\<forall>b \<in> set bs. cont_byte b \<Longrightarrow> int (length bs) \<le> n \<Longrightarrow>
    decode_more v n bs = (foldl cont_step v bs, n - int (length bs), [])"
proof (induction bs arbitrary: v n)
  case (Cons b bs)
  then show ?case using cont_byte_nonzero [of b] by (simp add: cont_step_def)
qed simp

lemma decode_continue_all:
  "\<forall>b \<in> set bs. cont_byte b \<Longrightarrow> decode_continue v (int (length bs)) (bs @ s) = Some (foldl cont_step v bs, 0, s)"
proof (induction bs arbitrary: v)
  case Nil
  then show ?case by (cases s) auto
next
  case (Cons b bs)
  then show ?case using cont_byte_nonzero [of b] by (simp add: cont_step_def cont_byte_def)
qed

lemma decode_continue_some:
  "\<forall>b \<in> set bs. cont_byte b \<Longrightarrow> int (length bs) \<le> n \<Longrightarrow>
    decode_continue v n bs = Some (foldl cont_step v bs, n - int (length bs), [])"
proof (induction bs arbitrary: v n)
  case (Cons b bs)
  then show ?case using cont_byte_nonzero [of b] by (simp add: cont_step_def cont_byte_def)
qed simp

lemma lookup_drop: "utf8_lookup b = (if b mod 256 < 128 then 1 else if b mod 256 < 192 then 0
    else if b mod 256 < 224 then 2 else if b mod 256 < 240 then 3 else 4)"
proof -
  define h where "h = b mod 256 div 16"
  have "b mod 256 < 256" by simp
  then have "h < 16" by (simp add: h_def div_less_iff_less_mult)
  have "b mod 256 < 16 * k \<longleftrightarrow> h < k" for k by (simp add: h_def div_less_iff_less_mult mult.commute)
  from this [of 8] this [of 12] this [of 14] this [of 15]
  have cmp: "b mod 256 < 128 \<longleftrightarrow> h < 8" "b mod 256 < 192 \<longleftrightarrow> h < 12" "b mod 256 < 224 \<longleftrightarrow> h < 14"
      "b mod 256 < 240 \<longleftrightarrow> h < 15" by simp_all
  have "utf8_lookup b = [1, 1, 1, 1, 1, 1, 1, 1, 0, 0, 0, 0, 2, 2, 3, 4] ! h"
    by (simp add: utf8_lookup_def drop_bit_eq_div h_def)
  moreover have "h \<in> set [0..<16]" using \<open>h < 16\<close> by simp
  ultimately show ?thesis unfolding cmp by (auto simp: upt_rec)
qed

lemma cont_enc:
  assumes "a < 64"
  shows "cont_byte (128 + a)" and "v < 17408 \<Longrightarrow> cont_step v (128 + a) = v * 64 + a"
  using assms by (simp_all add: cont_byte_def cont_step_def utf8_arith lead_div lead_mod push_bit_eq_mult drop_bit_eq_div)

lemma lead_masks:
  "a < 64 \<Longrightarrow> ((192::nat) + a) mod 64 = a" "a < 32 \<Longrightarrow> ((224::nat) + a) mod 32 = a"
  "a < 16 \<Longrightarrow> ((240::nat) + a) mod 16 = a"
  using mod_mult_self3 [of 3 64 a] mod_mult_self3 [of 7 32 a] mod_mult_self3 [of 15 16 a] by simp_all

text \<open>An encoded code point is a lead byte and the continuation bytes it announces.\<close>

lemma encoded_shape:
  assumes "common_unicode_cpt_to_utf8 c = Some bs" and "c \<noteq> 0"
  obtains b0 cs where "bs = b0 # cs" "b0 \<noteq> 0" "utf8_lookup b0 - 1 = int (length cs)" "\<forall>b \<in> set cs. cont_byte b"
    "foldl cont_step (b0 AND (push_bit (nat (7 - int (length cs))) 1 - 1)) cs = c"
  using assms(1)
proof (cases rule: cpt_cases)
  case one
  show ?thesis
    by (rule that [of c "[]"]) (use one assms(2) in \<open>auto simp: lookup_drop utf8_arith push_bit_eq_mult\<close>)
next
  case two
  then have "c div 64 < 32" by simp
  with two show ?thesis
    by (intro that [of "192 + c div 64" "[128 + c mod 64]"])
       (simp_all add: lookup_drop utf8_arith push_bit_eq_mult lead_masks cont_enc)
next
  case three
  then have "c div 4096 < 16" by simp
  moreover have "c div 4096 * 64 + c div 64 mod 64 = c div 64" using div_mult2_eq [of c 64 64] by simp
  ultimately show ?thesis
    using three
    by (intro that [of "224 + c div 4096" "[128 + c div 64 mod 64, 128 + c mod 64]"])
       (simp_all add: lookup_drop utf8_arith push_bit_eq_mult lead_masks cont_enc)
next
  case four
  then have "c div 262144 < 8" by simp
  moreover have "c div 262144 * 64 + c div 4096 mod 64 = c div 4096" using div_mult2_eq [of c 4096 64] by simp
  moreover have "c div 4096 * 64 + c div 64 mod 64 = c div 64" using div_mult2_eq [of c 64 64] by simp
  moreover have "c div 4096 < 272" "c div 64 < 17408" using four by simp_all
  ultimately show ?thesis
    using four
    by (intro that [of "240 + c div 262144" "[128 + c div 4096 mod 64, 128 + c div 64 mod 64, 128 + c mod 64]"])
       (simp_all add: lookup_drop utf8_arith push_bit_eq_mult lead_masks cont_enc)
qed

text \<open>
  \<open>spells p bs cps\<close>: after a decoding that stopped with the partial character \<open>p\<close>, the bytes \<open>bs\<close> spell the
  code points \<open>cps\<close>, the first of them with the bytes that \<open>p\<close> still needs.
\<close>

definition spells :: "llama_partial_utf8 \<Rightarrow> byte list \<Rightarrow> nat list \<Rightarrow> bool" where
  "spells p bs cps \<longleftrightarrow>
     pu_n_remain p = 0 \<and> common_unicode_cpts_to_utf8 cps = Some bs \<or>
     (\<exists>conts rest cps'. conts \<noteq> [] \<and> pu_n_remain p = int (length conts) \<and> (\<forall>b \<in> set conts. cont_byte b) \<and>
        cps = foldl cont_step (pu_value p) conts # cps' \<and>
        common_unicode_cpts_to_utf8 cps' = Some rest \<and> bs = conts @ rest)"

lemma decode_loop_spells:
  assumes "common_unicode_cpts_to_utf8 cps = Some (s @ t)" and "\<forall>c \<in> set cps. c \<noteq> 0"
  shows "\<exists>cs cps' p. decode_loop s acc v 0 = (acc @ cs @ [0], p) \<and> cps = cs @ cps' \<and> spells p t cps'"
  using assms
proof (induction cps arbitrary: s acc v)
  case Nil
  then show ?case by (simp add: spells_def)
next
  case (Cons c cps)
  show ?case
  proof (cases s)
    case Nil
    with Cons.prems show ?thesis
      by (intro exI [of _ "[]"] exI [of _ "c # cps"]) (simp add: decode_loop.simps spells_def)
  next
    case (Cons x s1)
    from Cons.prems obtain bs rest where bs: "common_unicode_cpt_to_utf8 c = Some bs"
        "common_unicode_cpts_to_utf8 cps = Some rest" "s @ t = bs @ rest"
      by (auto split: bind_splits)
    obtain b0 conts where sh: "bs = b0 # conts" "b0 \<noteq> 0" "utf8_lookup b0 - 1 = int (length conts)"
        "\<forall>b \<in> set conts. cont_byte b"
        "foldl cont_step (b0 AND (push_bit (nat (7 - int (length conts))) 1 - 1)) conts = c"
      using encoded_shape [OF bs(1)] Cons.prems(2) by auto
    from bs(3) Cons sh(1) have x: "x = b0" "s1 @ t = conts @ rest" by auto
    let ?v = "b0 AND (push_bit (nat (7 - int (length conts))) 1 - 1)"
    show ?thesis
    proof (cases "length s1 < length conts")
      case True
      with x(2) obtain conts2 where c2: "conts = s1 @ conts2" "t = conts2 @ rest" "conts2 \<noteq> []"
        by (auto simp: append_eq_append_conv2)
      with sh(4) have "decode_more ?v (int (length conts)) s1 = (foldl cont_step ?v s1, int (length conts2), [])"
        using decode_more_some [of s1 "int (length conts)" ?v] by simp
      with sh c2 Cons x have "decode_loop s acc v 0 = (acc @ [0], \<lparr>pu_value = foldl cont_step ?v s1, pu_n_remain = int (length conts2)\<rparr>)"
        using decode_loop_Cons [OF sh(2,3), of s1 _ _ _ acc v 0] by simp
      moreover have "spells \<lparr>pu_value = foldl cont_step ?v s1, pu_n_remain = int (length conts2)\<rparr> t (c # cps)"
        using c2 sh(4,5) bs(2) unfolding spells_def
        by (intro disjI2 exI [of _ conts2] exI [of _ rest] exI [of _ cps]) simp
      ultimately show ?thesis by (intro exI [of _ "[]"] exI [of _ "c # cps"]) simp
    next
      case False
      with x(2) obtain s2 where s2: "s1 = conts @ s2" "s2 @ t = rest"
        by (auto simp: append_eq_append_conv2)
      have "decode_more ?v (int (length conts)) s1 = (c, 0, s2)"
        using decode_more_all [OF sh(4), of ?v s2] sh(5) s2(1) by simp
      with sh Cons x have step: "decode_loop s acc v 0 = decode_loop s2 (acc @ [c]) c 0"
        using decode_loop_Cons [OF sh(2,3), of s1 _ _ _ acc v 0] by simp
      from Cons.IH [of s2 "acc @ [c]" c] bs(2) s2(2) Cons.prems(2) obtain cs cps' p where
        "decode_loop s2 (acc @ [c]) c 0 = ((acc @ [c]) @ cs @ [0], p)" "cps = cs @ cps'" "spells p t cps'" by auto
      with step show ?thesis by (intro exI [of _ "c # cs"] exI [of _ cps'] exI [of _ p]) simp
    qed
  qed
qed

lemma decode_partial_spells:
  assumes "spells p (s @ t) cps" and "\<forall>c \<in> set cps. c \<noteq> 0"
  shows "\<exists>cs cps' p'. decode_utf8_partial s p = (cs @ [0], p') \<and> cps = cs @ cps' \<and> spells p' t cps'"
proof -
  consider "pu_n_remain p = 0 \<and> common_unicode_cpts_to_utf8 cps = Some (s @ t)"
    | "\<exists>conts rest cps'. conts \<noteq> [] \<and> pu_n_remain p = int (length conts) \<and> (\<forall>b \<in> set conts. cont_byte b) \<and>
        cps = foldl cont_step (pu_value p) conts # cps' \<and>
        common_unicode_cpts_to_utf8 cps' = Some rest \<and> s @ t = conts @ rest"
    using assms(1) unfolding spells_def by blast
  then show ?thesis
  proof cases
    case p: 1
    then have "decode_continue (pu_value p) (pu_n_remain p) s = Some (pu_value p, 0, s)" by (cases s) auto
    with decode_loop_spells [OF conjunct2 [OF p] assms(2), of "[]" "pu_value p"] p show ?thesis
      by (simp add: decode_utf8_partial_def)
  next
    case 2
    then obtain conts rest cps1 where p: "conts \<noteq> []" "pu_n_remain p = int (length conts)" "\<forall>b \<in> set conts. cont_byte b"
        "cps = foldl cont_step (pu_value p) conts # cps1" "common_unicode_cpts_to_utf8 cps1 = Some rest" "s @ t = conts @ rest"
      by blast
    show ?thesis
    proof (cases "length s < length conts")
      case True
      with p(6) obtain conts2 where c2: "conts = s @ conts2" "t = conts2 @ rest" "conts2 \<noteq> []"
        by (auto simp: append_eq_append_conv2)
      with p(2,3) have "decode_continue (pu_value p) (pu_n_remain p) s = Some (foldl cont_step (pu_value p) s, int (length conts2), [])"
        using decode_continue_some [of s "int (length conts)" "pu_value p"] by simp
      with c2 p(2) have "decode_utf8_partial s p = ([0], \<lparr>pu_value = foldl cont_step (pu_value p) s, pu_n_remain = int (length conts2)\<rparr>)"
        by (simp add: decode_utf8_partial_def)
      moreover have "spells \<lparr>pu_value = foldl cont_step (pu_value p) s, pu_n_remain = int (length conts2)\<rparr> t cps"
        using c2 p unfolding spells_def
        by (intro disjI2 exI [of _ conts2] exI [of _ rest] exI [of _ cps1]) simp
      ultimately show ?thesis by (intro exI [of _ "[]"] exI [of _ cps]) simp
    next
      case False
      with p(6) obtain s2 where s2: "s = conts @ s2" "s2 @ t = rest" by (auto simp: append_eq_append_conv2)
      let ?c = "foldl cont_step (pu_value p) conts"
      have "decode_continue (pu_value p) (pu_n_remain p) s = Some (?c, 0, s2)"
        using decode_continue_all [OF p(3), of "pu_value p" s2] p(2) s2(1) by simp
      with p(1,2) have dec: "decode_utf8_partial s p = decode_loop s2 [?c] ?c 0"
        by (simp add: decode_utf8_partial_def)
      from decode_loop_spells [of cps1 s2 t "[?c]" ?c] p(4,5) s2(2) assms(2) obtain cs cps' p' where
        "decode_loop s2 [?c] ?c 0 = ([?c] @ cs @ [0], p')" "cps1 = cs @ cps'" "spells p' t cps'" by auto
      with dec p(4) show ?thesis
        by (intro exI [of _ "?c # cs"] exI [of _ cps'] exI [of _ p']) simp
    qed
  qed
qed

end
