(* ===== verification/Grammar_Sampler.thy ===== *)
theory Grammar_Sampler
  imports Grammar_Reject Grammar_Leftrec Grammar_Decode Reasoning_Budget
begin

text \<open>
  The grammar of a sampler (\<^verbatim>\<open>struct llama_grammar\<close> and its \<^verbatim>\<open>_impl\<close> functions,
  src/src/llama-grammar.cpp): initialisation from rules, the masking of candidate tokens, the
  acceptance of a token or a text, and the lazy grammar that waits for a trigger.

  The vocabulary is a parameter: the bytes of a token and whether it ends the generation. So is the
  engine of the regular expressions of the trigger patterns; a match is the list of the positions and
  lengths of its groups, the whole match first. Since a position of a stack is a pair of indices,
  \<^verbatim>\<open>llama_grammar_clone_impl\<close>, which redirects pointers, copies the record.
\<close>

record llama_vocab =
  token_to_piece :: "llama_token \<Rightarrow> byte list"
  is_eog :: "llama_token \<Rightarrow> bool"

record regex_engine =
  regex_match :: "byte list \<Rightarrow> byte list \<Rightarrow> (nat \<times> nat) list option"
  regex_search :: "byte list \<Rightarrow> byte list \<Rightarrow> (nat \<times> nat) list option"

record llama_grammar =
  gr_rules :: llama_grammar_rules
  gr_stacks :: llama_grammar_stacks
  gr_partial :: llama_partial_utf8
  gr_lazy :: bool
  gr_awaiting_trigger :: bool
  gr_trigger_buffer :: "byte list"
  gr_trigger_positions :: "(llama_token \<times> nat \<times> nat) list"
  gr_trigger_tokens :: "llama_token list"
  gr_trigger_patterns :: "byte list list"

section \<open>Initialisation\<close>

definition copy_rule :: "llama_grammar_rule \<Rightarrow> llama_grammar_rule" where
  "copy_rule r = takeWhile (\<lambda>e. ge_type e \<noteq> LLAMA_GRETYPE_END) r @ [elem LLAMA_GRETYPE_END 0]"

text \<open>\<open>Some None\<close> is the null pointer of a refused grammar.\<close>

definition llama_grammar_init_impl :: "nat \<Rightarrow> llama_grammar_rules \<Rightarrow> nat \<Rightarrow> llama_grammar option option" where
  "llama_grammar_init_impl fuel rules start_rule_index = do {
     let vec_rules = map copy_rule rules;
     refused \<leftarrow> left_recursive_check fuel vec_rules;
     if refused then Some None
     else do {
       stacks \<leftarrow> initial_stacks fuel vec_rules start_rule_index;
       Some (Some \<lparr>gr_rules = vec_rules, gr_stacks = stacks, gr_partial = \<lparr>pu_value = 0, pu_n_remain = 0\<rparr>,
         gr_lazy = False, gr_awaiting_trigger = False, gr_trigger_buffer = [], gr_trigger_positions = [],
         gr_trigger_tokens = [], gr_trigger_patterns = []\<rparr>)
     }
   }"

section \<open>Masking the candidates\<close>

text \<open>The loop over the candidate tokens: their logits, and those that the stacks have to judge.\<close>

fun apply_scan :: "llama_vocab \<Rightarrow> llama_partial_utf8 \<Rightarrow> bool \<Rightarrow> nat \<Rightarrow> 'f token_data list
    \<Rightarrow> 'f token_data list \<times> llama_grammar_candidate list" where
  "apply_scan vocab partial allow_eog i [] = ([], [])"
| "apply_scan vocab partial allow_eog i ((tok, logit) # ds) =
     (let (ds, cands) = apply_scan vocab partial allow_eog (i + 1) ds; piece = token_to_piece vocab tok in
      if is_eog vocab tok then ((tok, if allow_eog then logit else Minus_Infinity) # ds, cands)
      else if piece = [] \<or> hd piece = 0 then ((tok, Minus_Infinity) # ds, cands)
      else (let (cps, u) = decode_utf8_partial piece partial in
        ((tok, logit) # ds, \<lparr>gc_index = i, gc_code_points = cps, gc_off = 0, gc_partial = u, gc_id = tok\<rparr> # cands)))"

definition mask_candidate :: "nat \<Rightarrow> 'f token_data list \<Rightarrow> 'f token_data list" where
  "mask_candidate i d = d[i := (fst (d ! i), Minus_Infinity)]"

definition llama_grammar_apply_impl :: "nat \<Rightarrow> nat \<Rightarrow> llama_vocab \<Rightarrow> llama_grammar \<Rightarrow> 'f token_data list
    \<Rightarrow> 'f token_data list option" where
  "llama_grammar_apply_impl depth fuel vocab g cur_p =
     (if gr_awaiting_trigger g then Some cur_p
      else do {
        let allow_eog = ([] \<in> set (gr_stacks g));
        let (d, cands) = apply_scan vocab (gr_partial g) allow_eog 0 cur_p;
        rejects \<leftarrow> llama_grammar_reject_candidates depth fuel (gr_rules g) (gr_stacks g) cands;
        Some (foldl (\<lambda>d r. mask_candidate (gc_index r) d) d rejects)
      })"

section \<open>Accepting\<close>

definition llama_grammar_accept :: "nat \<Rightarrow> nat \<Rightarrow> llama_grammar \<Rightarrow> llama_grammar option" where
  "llama_grammar_accept fuel chr g = do {
     stacks \<leftarrow> accept_stacks fuel (gr_rules g) (gr_stacks g) chr;
     Some (g\<lparr>gr_stacks := stacks\<rparr>)
   }"

text \<open>\<open>None\<close> is also the exception for an empty set of stacks.\<close>

definition llama_grammar_accept_str :: "nat \<Rightarrow> byte list \<Rightarrow> llama_grammar \<Rightarrow> llama_grammar option" where
  "llama_grammar_accept_str fuel piece g = do {
     let (code_points, u) = decode_utf8_partial piece (gr_partial g);
     g \<leftarrow> foldM (llama_grammar_accept fuel) (butlast code_points) g;
     let g = g\<lparr>gr_partial := u\<rparr>;
     check (gr_stacks g \<noteq> []);
     Some g
   }"

text \<open>The code points of a token over the stacks that one stack becomes; it stops when none is left.\<close>

fun accept_points :: "nat \<Rightarrow> llama_grammar_rules \<Rightarrow> nat list \<Rightarrow> llama_grammar_stacks \<Rightarrow> llama_grammar_stacks option" where
  "accept_points fuel rules [] current_stacks = Some current_stacks"
| "accept_points fuel rules (c # cs) current_stacks = do {
     next_stacks \<leftarrow> accept_stacks fuel rules current_stacks c;
     if next_stacks = [] then Some [] else accept_points fuel rules cs next_stacks
   }"

definition token_step :: "nat \<Rightarrow> llama_grammar_rules \<Rightarrow> llama_token \<Rightarrow> nat list \<Rightarrow> llama_grammar_stack
    \<Rightarrow> llama_grammar_stacks \<Rightarrow> llama_grammar_stacks option" where
  "token_step fuel rules token chars stack stacks_new =
     (case stack of
        [] \<Rightarrow> Some stacks_new
      | pos # stk \<Rightarrow> do {
          e \<leftarrow> deref rules pos;
          if is_token_type (ge_type e) then do {
            matched \<leftarrow> llama_grammar_match_token rules pos token;
            if matched then do {
              new_stack \<leftarrow> push_pos rules (next_pos pos) stk;
              llama_grammar_advance_stack fuel rules new_stack stacks_new
            }
            else Some stacks_new
          }
          else do {
            surviving \<leftarrow> accept_points fuel rules chars [stack];
            Some (foldl (\<lambda>acc s. add_stack s acc) stacks_new surviving)
          }
        })"

definition llama_grammar_accept_token :: "nat \<Rightarrow> llama_token \<Rightarrow> byte list \<Rightarrow> llama_grammar \<Rightarrow> llama_grammar option" where
  "llama_grammar_accept_token fuel token piece g = do {
     let (code_points, u) = decode_utf8_partial piece (gr_partial g);
     stacks_new \<leftarrow> foldM (token_step fuel (gr_rules g) token (butlast code_points)) (gr_stacks g) [];
     let g = g\<lparr>gr_stacks := stacks_new, gr_partial := u\<rparr>;
     check (gr_stacks g \<noteq> []);
     Some g
   }"

section \<open>Triggers\<close>

definition find_start_pos :: "(nat \<times> nat) list \<Rightarrow> nat option" where
  "find_start_pos groups = (case find (\<lambda>(p, n). n > 0) (tl groups) of
       Some (p, _) \<Rightarrow> Some p
     | None \<Rightarrow> map_option fst (vget groups 0))"

text \<open>\<open>pattern_find\<close>: \<^verbatim>\<open>llama_grammar_trigger_pattern::find\<close>; the outer \<open>None\<close> cannot happen for a match.\<close>

definition pattern_find :: "regex_engine \<Rightarrow> byte list \<Rightarrow> byte list \<Rightarrow> nat option option" where
  "pattern_find rx pattern input =
     (let search = (case regex_search rx pattern input of
            Some m \<Rightarrow> map_option Some (find_start_pos m) | None \<Rightarrow> Some None) in
      if pattern \<noteq> [] \<and> hd pattern = 94 \<and> last pattern = 36
      then (case regex_match rx pattern input of
              Some m \<Rightarrow> map_option Some (find_start_pos m) | None \<Rightarrow> search)
      else search)"

fun first_trigger :: "regex_engine \<Rightarrow> byte list list \<Rightarrow> byte list \<Rightarrow> nat option option" where
  "first_trigger rx [] input = Some None"
| "first_trigger rx (p # ps) input = do {
     start \<leftarrow> pattern_find rx p input;
     case start of Some s \<Rightarrow> Some (Some s) | None \<Rightarrow> first_trigger rx ps input
   }"

text \<open>The part of a buffered token from the start of the match on; \<open>None\<close> when it ends before.\<close>

definition overlap :: "byte list \<Rightarrow> nat \<Rightarrow> llama_token \<times> nat \<times> nat \<Rightarrow> (llama_token \<times> byte list) option" where
  "overlap buffer start = (\<lambda>(tok, tok_start, tok_end).
     if tok_end \<le> start then None
     else let piece_start = (if tok_start < start then start else tok_start) in
          Some (tok, take (tok_end - piece_start) (drop piece_start buffer)))"

definition replay :: "nat \<Rightarrow> byte list \<Rightarrow> nat \<Rightarrow> (llama_token \<times> nat \<times> nat) list \<Rightarrow> llama_grammar \<Rightarrow> llama_grammar option" where
  "replay fuel buffer start positions =
     foldM (\<lambda>(tok, piece). llama_grammar_accept_token fuel tok piece)
       (List.map_filter (overlap buffer start) positions)"

definition await_trigger :: "nat \<Rightarrow> regex_engine \<Rightarrow> llama_token \<Rightarrow> byte list \<Rightarrow> llama_grammar \<Rightarrow> llama_grammar option" where
  "await_trigger fuel rx token piece g =
     (if token \<in> set (gr_trigger_tokens g)
      then llama_grammar_accept_token fuel token piece (g\<lparr>gr_awaiting_trigger := False, gr_trigger_buffer := []\<rparr>)
      else do {
        let n = length (gr_trigger_buffer g);
        let g = g\<lparr>gr_trigger_positions := gr_trigger_positions g @ [(token, n, n + length piece)],
                  gr_trigger_buffer := gr_trigger_buffer g @ piece\<rparr>;
        start \<leftarrow> first_trigger rx (gr_trigger_patterns g) (gr_trigger_buffer g);
        case start of
          None \<Rightarrow> Some g
        | Some s \<Rightarrow> do {
            let buffer = gr_trigger_buffer g;
            g \<leftarrow> replay fuel buffer s (gr_trigger_positions g) (g\<lparr>gr_awaiting_trigger := False\<rparr>);
            check (s \<le> length buffer);
            Some (g\<lparr>gr_trigger_buffer := [], gr_trigger_positions := []\<rparr>)
          }
      })"

definition llama_grammar_accept_impl :: "nat \<Rightarrow> llama_vocab \<Rightarrow> regex_engine \<Rightarrow> llama_token \<Rightarrow> llama_grammar \<Rightarrow> llama_grammar option" where
  "llama_grammar_accept_impl fuel vocab rx token g =
     (let piece = token_to_piece vocab token in
      if gr_awaiting_trigger g then await_trigger fuel rx token piece g
      else if is_eog vocab token then (if [] \<in> set (gr_stacks g) then Some g else None)
      else llama_grammar_accept_token fuel token piece g)"

end
