(* ===== verification/Grammar_Masking.thy ===== *)
theory Grammar_Masking
  imports Grammar_Sampler
begin

text \<open>
  What the masking of the candidates and the acceptance of a token have in common: both follow the
  stacks over the code points of the token.
\<close>

definition grammar_ok :: "llama_grammar \<Rightarrow> bool" where
  "grammar_ok g \<longleftrightarrow> wf_rules (gr_rules g) \<and> not_left_recursive (gr_rules g) \<and> no_tokens (gr_rules g) \<and>
     stacks_ok (gr_rules g) (gr_stacks g) \<and> gr_stacks g \<noteq> []"

section \<open>Decoding\<close>

lemma decode_loop_ends: "\<exists>cs. fst (decode_loop s acc v n) = cs @ [0]"
  by (induction s acc v n rule: decode_loop.induct) (subst decode_loop.simps, simp split: prod.split)

lemma decode_partial_ends: "\<exists>cs. fst (decode_utf8_partial s p) = cs @ [0]"
  using decode_loop_ends by (auto simp: decode_utf8_partial_def split: option.split prod.split)

lemma decode_loop_progress:
  "\<lbrakk>peek s \<noteq> 0 \<or> acc \<noteq> [] \<or> n \<noteq> 0; decode_loop s acc v n = ([0], u)\<rbrakk> \<Longrightarrow> pu_n_remain u \<noteq> 0"
proof (induction s acc v n rule: decode_loop.induct)
  case (1 s acc v n)
  consider "peek s = 0" | "peek s \<noteq> 0" "utf8_lookup (peek s) < 1" | "peek s \<noteq> 0" "\<not> utf8_lookup (peek s) < 1" by blast
  then show ?case
  proof cases
    case 3
    obtain v' n' s' where d: "decode_char s = (v', n', s')" by (cases "decode_char s")
    with 3 "1.prems"(2) have "decode_loop s' (if n' = 0 then acc @ [v'] else acc) v' n' = ([0], u)"
      by (simp add: decode_loop.simps [of s])
    moreover have "peek s' \<noteq> 0 \<or> (if n' = 0 then acc @ [v'] else acc) \<noteq> [] \<or> n' \<noteq> 0" by simp
    ultimately show ?thesis using "1.IH" [OF 3 d [symmetric] refl] by blast
  qed (use "1.prems" in \<open>auto simp: decode_loop.simps [of s]\<close>)
qed

lemma decode_continue_stops:
  "decode_continue v n s = Some (v', n', s') \<Longrightarrow> n' \<le> 0 \<or> peek s' = 0"
  by (induction v n s rule: decode_continue.induct) (auto split: if_splits)

text \<open>A token that yields no code point leaves something to be read.\<close>

lemma decode_partial_progress:
  assumes "decode_utf8_partial s p = ([0], u)" and "s \<noteq> []" and "hd s \<noteq> 0"
  shows "pu_n_remain u \<noteq> 0"
proof (cases "decode_continue (pu_value p) (pu_n_remain p) s")
  case None
  with assms(1) show ?thesis by (auto simp: decode_utf8_partial_def)
next
  case (Some t)
  then obtain v n s' where t: "decode_continue (pu_value p) (pu_n_remain p) s = Some (v, n, s')" by (cases t) auto
  with assms(1) have loop: "decode_loop s' (if pu_n_remain p > 0 \<and> n = 0 then [v] else []) v n = ([0], u)"
    by (simp add: decode_utf8_partial_def)
  show ?thesis
  proof (cases "pu_n_remain p > 0")
    case True
    then show ?thesis using decode_loop_progress [OF _ loop] by auto
  next
    case False
    with t assms(2) have "s' = s" by (cases s) auto
    then have "peek s' \<noteq> 0" using assms(2,3) by (cases s) auto
    then show ?thesis using decode_loop_progress [OF _ loop] by auto
  qed
qed

section \<open>Accepting a token\<close>

lemma accept_word_none [simp]: "accept_word fuel rules w [] = Some []"
  by (induction w) (simp_all add: accept_stacks_def)

lemma accept_points_word: "accept_points fuel rules w stacks = accept_word fuel rules w stacks"
  by (induction w arbitrary: stacks) (auto intro!: Option.bind_cong)

lemma foldl_add_stack: "set (foldl (\<lambda>acc s. add_stack s acc) acc ss) = set acc \<union> set ss"
  by (induction ss arbitrary: acc) auto

definition token_stacks :: "nat \<Rightarrow> llama_grammar_rules \<Rightarrow> llama_grammar_stacks \<Rightarrow> nat list \<Rightarrow> llama_grammar_stack set" where
  "token_stacks fuel rules stacks w = (\<Union>s \<in> set stacks - {[]}. run_stack fuel rules s w)"

lemma token_steps:
  assumes "no_tokens rules" and "\<forall>s \<in> set ss. ready rules s"
    and "\<forall>s \<in> set ss. \<exists>r. accept_word fuel rules w [s] = Some r"
  shows "\<exists>t. foldM (token_step fuel rules token w) ss acc = Some t \<and> set t = set acc \<union> token_stacks fuel rules ss w"
  using assms(2,3)
proof (induction ss arbitrary: acc)
  case Nil
  then show ?case by (simp add: token_stacks_def)
next
  case (Cons s ss)
  show ?case
  proof (cases s)
    case Nil
    with Cons show ?thesis by (simp add: token_step_def token_stacks_def)
  next
    case s: (Cons pos stk)
    obtain e where e: "deref rules pos = Some e" "\<not> is_token_type (ge_type e)"
      using ready_char [OF assms(1), of pos stk] Cons.prems(1) s by auto
    obtain r where r: "accept_word fuel rules w [s] = Some r" using Cons.prems(2) by auto
    let ?acc = "foldl (\<lambda>acc s. add_stack s acc) acc r"
    have step: "token_step fuel rules token w s acc = Some ?acc"
      using e r s by (simp add: token_step_def accept_points_word)
    obtain t where t: "foldM (token_step fuel rules token w) ss ?acc = Some t"
        "set t = set ?acc \<union> token_stacks fuel rules ss w"
      using Cons.IH [of ?acc] Cons.prems by auto
    have "set ?acc = set acc \<union> run_stack fuel rules s w"
      using accept_word_run [OF r] by (simp add: foldl_add_stack)
    moreover have "token_stacks fuel rules (s # ss) w = run_stack fuel rules s w \<union> token_stacks fuel rules ss w"
      using s by (auto simp: token_stacks_def)
    ultimately show ?thesis using step t by auto
  qed
qed

text \<open>With enough fuel every stack follows the word.\<close>

lemma stacks_follow:
  assumes "wf_rules rules" and "not_left_recursive rules" and "stacks_ok rules stacks"
  shows "\<exists>fuel0. \<forall>fuel \<ge> fuel0. \<forall>s \<in> set stacks. \<exists>r. accept_word fuel rules w [s] = Some r \<and> stacks_ok rules r"
proof (rule common_bound, rule ballI)
  fix s
  assume "s \<in> set stacks"
  with assms(3) have "stacks_ok rules [s]" by (simp add: stacks_ok_def)
  from accept_word_total [OF assms(1,2) this] obtain fuel r where
    "accept_word fuel rules w [s] = Some r" "stacks_ok rules r" by blast
  then show "\<exists>n. \<forall>m \<ge> n. \<exists>r. accept_word m rules w [s] = Some r \<and> stacks_ok rules r"
    using accept_word_mono by blast
qed

text \<open>
  The fuel is enough for a token: each stack follows its code points, and the token is accepted exactly when
  some stack survives.
\<close>

definition enough :: "nat \<Rightarrow> llama_grammar \<Rightarrow> byte list \<Rightarrow> bool" where
  "enough fuel g piece \<longleftrightarrow> (\<forall>s \<in> set (gr_stacks g). \<exists>r.
     accept_word fuel (gr_rules g) (butlast (fst (decode_utf8_partial piece (gr_partial g)))) [s] = Some r \<and>
     stacks_ok (gr_rules g) r)"

lemma accept_token_ok:
  assumes "grammar_ok g" and "enough fuel g piece" and "decode_utf8_partial piece (gr_partial g) = (cps, u)"
  shows "if token_stacks fuel (gr_rules g) (gr_stacks g) (butlast cps) = {}
    then llama_grammar_accept_token fuel token piece g = None
    else \<exists>g'. llama_grammar_accept_token fuel token piece g = Some g' \<and> grammar_ok g' \<and> gr_partial g' = u \<and>
      set (gr_stacks g') = token_stacks fuel (gr_rules g) (gr_stacks g) (butlast cps)"
proof -
  let ?R = "gr_rules g" and ?w = "butlast cps"
  have ok: "no_tokens ?R" "stacks_ok ?R (gr_stacks g)" using assms(1) by (auto simp: grammar_ok_def)
  have run: "\<forall>s \<in> set (gr_stacks g). \<exists>r. accept_word fuel ?R ?w [s] = Some r \<and> stacks_ok ?R r"
    using assms(2,3) by (simp add: enough_def)
  obtain t where t: "foldM (token_step fuel ?R token ?w) (gr_stacks g) [] = Some t"
      "set t = token_stacks fuel ?R (gr_stacks g) ?w"
    using token_steps [OF ok(1), of "gr_stacks g" fuel ?w token "[]"] ok(2) run unfolding stacks_ok_def by fastforce
  have "stacks_ok ?R t"
    unfolding stacks_ok_def
  proof
    fix s' assume "s' \<in> set t"
    then obtain s where s: "s \<in> set (gr_stacks g)" "s' \<in> run_stack fuel ?R s ?w"
      by (auto simp: t(2) token_stacks_def)
    with run obtain r where r: "accept_word fuel ?R ?w [s] = Some r" "stacks_ok ?R r" by blast
    with accept_word_run [OF r(1)] s(2) show "stack_ok ?R s' \<and> ready ?R s'" by (simp add: stacks_ok_def)
  qed
  with t assms show ?thesis
    by (simp add: llama_grammar_accept_token_def check_def grammar_ok_def flip: set_empty)
qed

lemma enough_exists:
  assumes "grammar_ok g"
  shows "\<exists>fuel0. \<forall>fuel \<ge> fuel0. enough fuel g piece"
  unfolding enough_def
  by (rule stacks_follow) (use assms in \<open>simp_all add: grammar_ok_def\<close>)

section \<open>Rejecting\<close>

lemma reject_candidates_ok:
  assumes "grammar_ok g" and "0 < depth"
  shows "\<exists>fuel0. \<forall>fuel \<ge> fuel0. \<forall>cands. (\<forall>tok \<in> set cands. candidate_ok depth tok) \<longrightarrow>
    (\<exists>rejects. llama_grammar_reject_candidates depth fuel (gr_rules g) (gr_stacks g) cands = Some rejects \<and>
      set rejects = {tok \<in> set cands. \<forall>s \<in> set (gr_stacks g). \<not> allowed fuel (gr_rules g) s tok})"
proof -
  let ?R = "gr_rules g" and ?S = "gr_stacks g"
  have ok: "wf_rules ?R" "not_left_recursive ?R" "no_tokens ?R" "?S \<noteq> []" "\<forall>s \<in> set ?S. stack_ok ?R s \<and> ready ?R s"
    using assms(1) by (auto simp: grammar_ok_def stacks_ok_def)
  have "\<exists>n. \<forall>m \<ge> n. \<forall>s \<in> set ?S. \<forall>cands. (\<forall>tok \<in> set cands. candidate_ok depth tok) \<longrightarrow> 0 < depth \<longrightarrow>
      (\<exists>rs. reject_for_stack depth m ?R s cands = Some rs)"
    by (rule common_bound) (use reject_for_stack_total [OF ok(1-3)] ok(5) in blast)
  then obtain n where n: "\<And>m s cands. \<lbrakk>m \<ge> n; s \<in> set ?S; \<forall>tok \<in> set cands. candidate_ok depth tok\<rbrakk>
      \<Longrightarrow> \<exists>rs. reject_for_stack depth m ?R s cands = Some rs" using assms(2) by blast
  have one: "set rs = {tok \<in> set cs. \<not> allowed m ?R s tok}"
    if "s \<in> set ?S" "reject_for_stack depth m ?R s cs = Some rs" for m s cs rs
    using reject_for_stack_ok [OF ok(3) _ that(2)] ok(5) that(1) by blast
  have "\<exists>rejects. llama_grammar_reject_candidates depth m ?R ?S cands = Some rejects \<and>
      set rejects = {tok \<in> set cands. \<forall>s \<in> set ?S. \<not> allowed m ?R s tok}"
    if m: "m \<ge> n" and cands: "\<forall>tok \<in> set cands. candidate_ok depth tok" for m cands
  proof -
    have "\<exists>rejects. reject_candidates_with (reject_for_stack depth m ?R) ?S cands = Some rejects"
    proof (rule reject_with_total [OF ok(4)])
      fix s cs
      assume s: "s \<in> set ?S" and cs: "set cs \<subseteq> set cands"
      then obtain rs where rs: "reject_for_stack depth m ?R s cs = Some rs" using n [OF m s, of cs] cands by auto
      with one [OF s rs] show "\<exists>rs. reject_for_stack depth m ?R s cs = Some rs \<and> set rs \<subseteq> set cs" by auto
    qed
    then obtain rejects where r: "reject_candidates_with (reject_for_stack depth m ?R) ?S cands = Some rejects" ..
    from reject_with_ok [OF r one] have "set rejects = {tok \<in> set cands. \<forall>s \<in> set ?S. \<not> allowed m ?R s tok}" by simp
    with r show ?thesis by (simp add: llama_grammar_reject_candidates_def)
  qed
  then show ?thesis by (intro exI [of _ n]) blast
qed

section \<open>The candidates of the scan\<close>

definition judged :: "llama_vocab \<Rightarrow> llama_token \<Rightarrow> bool" where
  "judged vocab tok \<longleftrightarrow> \<not> is_eog vocab tok \<and> token_to_piece vocab tok \<noteq> [] \<and> hd (token_to_piece vocab tok) \<noteq> 0"

definition candidate_of :: "llama_vocab \<Rightarrow> llama_partial_utf8 \<Rightarrow> nat \<Rightarrow> llama_token \<Rightarrow> llama_grammar_candidate" where
  "candidate_of vocab partial i tok =
     (let (cps, u) = decode_utf8_partial (token_to_piece vocab tok) partial in
      \<lparr>gc_index = i, gc_code_points = cps, gc_off = 0, gc_partial = u, gc_id = tok\<rparr>)"

definition scanned :: "llama_vocab \<Rightarrow> bool \<Rightarrow> 'f token_data \<Rightarrow> 'f token_data" where
  "scanned vocab allow_eog d =
     (if judged vocab (fst d) \<or> is_eog vocab (fst d) \<and> allow_eog then d else (fst d, Minus_Infinity))"

lemma apply_scan_ok:
  "apply_scan vocab partial allow_eog i ds =
     (map (scanned vocab allow_eog) ds,
      map (\<lambda>(k, d). candidate_of vocab partial k (fst d))
        (filter (\<lambda>(k, d). judged vocab (fst d)) (zip [i..<i + length ds] ds)))"
proof (induction ds arbitrary: i)
  case (Cons d ds)
  obtain tok l where d: "d = (tok, l)" by (cases d)
  have "[i..<i + length (d # ds)] = i # [Suc i..<Suc i + length ds]" by (simp add: upt_conv_Cons del: upt_Suc)
  with Cons [of "i + 1"] d show ?case
    by (auto simp: judged_def scanned_def candidate_of_def split: prod.split)
qed simp

lemma foldl_mask:
  "length (foldl (\<lambda>d r. mask_candidate (gc_index r) d) d rs) = length d \<and>
   (\<forall>i < length d. foldl (\<lambda>d r. mask_candidate (gc_index r) d) d rs ! i =
      (if \<exists>r \<in> set rs. gc_index r = i then (fst (d ! i), Minus_Infinity) else d ! i))"
proof (induction rs arbitrary: d)
  case (Cons r rs)
  have "length (mask_candidate (gc_index r) d) = length d"
    and "fst (mask_candidate (gc_index r) d ! i) = fst (d ! i)"
    and "i < length d \<Longrightarrow> mask_candidate (gc_index r) d ! i = (if gc_index r = i then (fst (d ! i), Minus_Infinity) else d ! i)" for i
    by (auto simp: mask_candidate_def nth_list_update list_update_beyond)
      (metis fst_conv linorder_not_less list_update_beyond nth_list_update)
  with Cons [of "mask_candidate (gc_index r) d"] show ?case by (simp split: if_splits)
qed simp

end
