(* ===== verification/Grammar_Props.thy ===== *)
theory Grammar_Props
  imports Grammar_Masking
begin

text \<open>The properties of the grammar: masking, acceptance of a text in pieces, left recursion, triggers.\<close>

section \<open>A grammar for the witnesses\<close>

text \<open>The rule \<open>root\<close> is \<open>"\u00e9" root | ""\<close>.\<close>

definition demo_rules :: llama_grammar_rules where
  "demo_rules = [[elem LLAMA_GRETYPE_CHAR 233, elem LLAMA_GRETYPE_RULE_REF 0, elem LLAMA_GRETYPE_ALT 0,
     elem LLAMA_GRETYPE_END 0]]"

lemma copy_demo: "map copy_rule demo_rules = demo_rules"
  by (simp add: demo_rules_def copy_rule_def)

lemma rule_okI: "\<lbrakk>r \<noteq> []; last r = elem LLAMA_GRETYPE_END v; body_ok LLAMA_GRETYPE_ALT (butlast r)\<rbrakk> \<Longrightarrow> rule_ok r"
  unfolding rule_ok_def by (intro exI [of _ "butlast r"] exI [of _ v]) (use append_butlast_last_id [of r] in simp)

lemma wf_demo: "wf_rules demo_rules"
  unfolding wf_rules_def
proof
  fix r assume "r \<in> set demo_rules"
  then have r: "r = [elem LLAMA_GRETYPE_CHAR 233, elem LLAMA_GRETYPE_RULE_REF 0, elem LLAMA_GRETYPE_ALT 0, elem LLAMA_GRETYPE_END 0]"
    by (simp add: demo_rules_def)
  have "rule_ok r" by (rule rule_okI [where v = 0]) (simp_all add: r may_follow_def)
  then show "rule_ok r \<and> refs_ok (length demo_rules) r" by (simp add: r refs_ok_def demo_rules_def)
qed

lemma no_tokens_demo: "no_tokens demo_rules"
  by (simp add: no_tokens_def demo_rules_def is_token_type_def)

lemma nlr_demo: "not_left_recursive demo_rules"
proof -
  have "\<not> lead demo_rules (0, a) u" if "a \<in> {0, 3}" for a u
  proof
    assume "lead demo_rules (0, a) u"
    then obtain e where "deref demo_rules (0, a) = Some e" "ge_type e = LLAMA_GRETYPE_RULE_REF"
      by (cases rule: lead.cases) simp_all
    with that show False by (auto simp: demo_rules_def deref_def vget_def)
  qed
  then have "\<not> left_ref demo_rules v u" for u v
    by (auto simp: left_ref_def alternates_def vget_def demo_rules_def split: if_splits)
  then show ?thesis by (auto simp: not_left_recursive_def intro: accp.accI)
qed

text \<open>The grammar after the initialisation, and a vocabulary of single bytes with token 0 as its end.\<close>

definition demo_grammar :: llama_grammar where
  "demo_grammar = \<lparr>gr_rules = demo_rules, gr_stacks = [[(0, 0)], []], gr_partial = \<lparr>pu_value = 0, pu_n_remain = 0\<rparr>,
     gr_lazy = False, gr_awaiting_trigger = False, gr_trigger_buffer = [], gr_trigger_positions = [],
     gr_trigger_tokens = [], gr_trigger_patterns = []\<rparr>"

definition demo_vocab :: llama_vocab where
  "demo_vocab = \<lparr>token_to_piece = (\<lambda>t. if t = 1 then [195, 169] else if t = 2 then [97] else []), is_eog = (\<lambda>t. t = 0)\<rparr>"

definition demo_rx :: regex_engine where
  "demo_rx = \<lparr>regex_match = (\<lambda>_ _. None), regex_search = (\<lambda>p s. if p = s then Some [(0, length s)] else None)\<rparr>"

lemma grammar_ok_demo: "grammar_ok demo_grammar"
  using wf_demo nlr_demo no_tokens_demo
  by (simp add: grammar_ok_def demo_grammar_def stacks_ok_def ready_def pos_ok_def)
    (simp add: demo_rules_def deref_def vget_def gretype_defs)

section \<open>Masking\<close>

text \<open>A token that ends the generation, or whose text ends with a whole character.\<close>

definition ends_whole :: "llama_vocab \<Rightarrow> llama_partial_utf8 \<Rightarrow> llama_token \<Rightarrow> bool" where
  "ends_whole vocab partial tok \<longleftrightarrow> is_eog vocab tok \<or>
     judged vocab tok \<and> pu_n_remain (snd (decode_utf8_partial (token_to_piece vocab tok) partial)) = 0"

text \<open>The text of a token spells no code point 0.\<close>

definition no_nul :: "llama_vocab \<Rightarrow> llama_partial_utf8 \<Rightarrow> llama_token \<Rightarrow> bool" where
  "no_nul vocab partial tok \<longleftrightarrow> 0 \<notin> set (butlast (fst (decode_utf8_partial (token_to_piece vocab tok) partial)))"

lemma candidate_of_props:
  assumes "no_nul vocab partial tok"
  shows "pending (candidate_of vocab partial i tok) = butlast (fst (decode_utf8_partial (token_to_piece vocab tok) partial))"
    and "candidate_ok (Suc (length (fst (decode_utf8_partial (token_to_piece vocab tok) partial)))) (candidate_of vocab partial i tok)"
    and "gc_partial (candidate_of vocab partial i tok) = snd (decode_utf8_partial (token_to_piece vocab tok) partial)"
    and "gc_index (candidate_of vocab partial i tok) = i"
proof -
  obtain cs u where d: "decode_utf8_partial (token_to_piece vocab tok) partial = (cs @ [0], u)"
    using decode_partial_ends [of "token_to_piece vocab tok" partial] by (metis prod.collapse)
  with assms have "0 \<notin> set cs" by (simp add: no_nul_def)
  then have "\<forall>c \<in> set cs. c \<noteq> 0" by metis
  then have "takeWhile (\<lambda>c. c \<noteq> 0) (cs @ [0]) = cs" by (simp add: takeWhile_append2)
  with d show "pending (candidate_of vocab partial i tok) = butlast (fst (decode_utf8_partial (token_to_piece vocab tok) partial))"
    and "candidate_ok (Suc (length (fst (decode_utf8_partial (token_to_piece vocab tok) partial)))) (candidate_of vocab partial i tok)"
    and "gc_partial (candidate_of vocab partial i tok) = snd (decode_utf8_partial (token_to_piece vocab tok) partial)"
    and "gc_index (candidate_of vocab partial i tok) = i"
    by (simp_all add: candidate_of_def pending_def candidate_ok_def)
qed

lemma candidate_ok_mono: "candidate_ok n tok \<Longrightarrow> n \<le> m \<Longrightarrow> candidate_ok m tok"
  by (auto simp: candidate_ok_def)

text \<open>What the masking leaves of one token and what the acceptance does with it.\<close>

lemma judged_accept:
  assumes "grammar_ok g" and "judged vocab tok" and "no_nul vocab (gr_partial g) tok"
    and "enough fuel g (token_to_piece vocab tok)"
  shows "s \<in> set (gr_stacks g) \<Longrightarrow> allowed fuel (gr_rules g) s (candidate_of vocab (gr_partial g) i tok)
      \<Longrightarrow> \<exists>g'. llama_grammar_accept_token fuel tok (token_to_piece vocab tok) g = Some g' \<and> grammar_ok g'"
    and "llama_grammar_accept_token fuel tok (token_to_piece vocab tok) g \<noteq> None \<Longrightarrow>
      pu_n_remain (snd (decode_utf8_partial (token_to_piece vocab tok) (gr_partial g))) = 0 \<Longrightarrow>
      \<exists>s \<in> set (gr_stacks g). allowed fuel (gr_rules g) s (candidate_of vocab (gr_partial g) i tok)"
proof -
  let ?piece = "token_to_piece vocab tok"
  obtain cs u where d: "decode_utf8_partial ?piece (gr_partial g) = (cs @ [0], u)"
    using decode_partial_ends [of ?piece "gr_partial g"] by (metis prod.collapse)
  note acc = accept_token_ok [OF assms(1,4) d, of tok]
  note cand = candidate_of_props [OF assms(3), of i]
  have allowed: "allowed fuel (gr_rules g) s (candidate_of vocab (gr_partial g) i tok) \<longleftrightarrow>
      (\<exists>s' \<in> run_stack fuel (gr_rules g) s cs. partial_fits (gr_rules g) u s')" for s
    using d cand by (simp add: allowed_def)
  show "\<exists>g'. llama_grammar_accept_token fuel tok ?piece g = Some g' \<and> grammar_ok g'"
    if s: "s \<in> set (gr_stacks g)" and a: "allowed fuel (gr_rules g) s (candidate_of vocab (gr_partial g) i tok)"
  proof -
    from a allowed obtain s' where s': "s' \<in> run_stack fuel (gr_rules g) s cs" "partial_fits (gr_rules g) u s'" by auto
    have "s \<noteq> []"
    proof
      assume nil: "s = []"
      have "run_stack fuel (gr_rules g) [] (c # w) = {}" for c w
        by (simp add: after_def llama_grammar_accept_chr_def)
      with s'(1) nil have cs: "cs = []" by (cases cs) auto
      with s' nil have "pu_n_remain u = 0" by (auto simp: partial_fits_def)
      moreover have "pu_n_remain u \<noteq> 0"
        using decode_partial_progress [of ?piece "gr_partial g" u] d cs assms(2) by (simp add: judged_def)
      ultimately show False by simp
    qed
    with s s'(1) have "s' \<in> token_stacks fuel (gr_rules g) (gr_stacks g) cs" by (auto simp: token_stacks_def)
    with acc show ?thesis by (auto split: if_splits)
  qed
  show "\<exists>s \<in> set (gr_stacks g). allowed fuel (gr_rules g) s (candidate_of vocab (gr_partial g) i tok)"
    if "llama_grammar_accept_token fuel tok ?piece g \<noteq> None" "pu_n_remain (snd (decode_utf8_partial ?piece (gr_partial g))) = 0"
  proof -
    from that(1) acc obtain s' where "s' \<in> token_stacks fuel (gr_rules g) (gr_stacks g) cs" by (auto split: if_splits)
    then obtain s where "s \<in> set (gr_stacks g)" "s' \<in> run_stack fuel (gr_rules g) s cs" by (auto simp: token_stacks_def)
    with that(2) d show ?thesis unfolding allowed by (intro bexI [of _ s] bexI [of _ s']) (simp_all add: partial_fits_def)
  qed
qed

lemma set_indexed:
  "set (map (\<lambda>(k, d). f k d) (filter (\<lambda>(k, d). P d) (zip [0..<length xs] xs))) = {f k (xs ! k) |k. k < length xs \<and> P (xs ! k)}"
proof -
  have "\<exists>a b. (\<exists>i. a = [0..<length xs] ! i \<and> b = xs ! i \<and> i < length xs) \<and> P b \<and> f k (xs ! k) = f a b"
    if "k < length xs" "P (xs ! k)" for k
    using that by (intro exI [of _ k] exI [of _ "xs ! k"] conjI refl) simp_all
  then show ?thesis by (auto simp: set_zip image_iff)
qed

text \<open>A candidate that the masking leaves alone.\<close>

definition kept :: "nat \<Rightarrow> llama_vocab \<Rightarrow> llama_grammar \<Rightarrow> nat \<Rightarrow> llama_token \<Rightarrow> bool" where
  "kept fuel vocab g i tok \<longleftrightarrow>
     (if judged vocab tok
      then \<exists>s \<in> set (gr_stacks g). allowed fuel (gr_rules g) s (candidate_of vocab (gr_partial g) i tok)
      else is_eog vocab tok \<and> [] \<in> set (gr_stacks g))"

text \<open>The masked list, index by index.\<close>

lemma apply_impl_ok:
  assumes "grammar_ok g" and "\<not> gr_awaiting_trigger g"
    and "\<forall>d \<in> set cur_p. judged vocab (fst d) \<longrightarrow> no_nul vocab (gr_partial g) (fst d)"
  shows "\<exists>depth fuel0. \<forall>fuel \<ge> fuel0. \<exists>cur_p'.
    llama_grammar_apply_impl depth fuel vocab g cur_p = Some cur_p' \<and> length cur_p' = length cur_p \<and>
    (\<forall>i < length cur_p. cur_p' ! i =
       (if kept fuel vocab g i (fst (cur_p ! i)) then cur_p ! i else (fst (cur_p ! i), Minus_Infinity)))"
proof -
  let ?cands = "map (\<lambda>(k, d). candidate_of vocab (gr_partial g) k (fst d))
        (filter (\<lambda>(k, d). judged vocab (fst d)) (zip [0..<length cur_p] cur_p))"
  let ?d = "map (scanned vocab ([] \<in> set (gr_stacks g))) cur_p"
  define depth where "depth = Suc (sum_list (map (\<lambda>d. Suc (length (fst (decode_utf8_partial (token_to_piece vocab (fst d)) (gr_partial g))))) cur_p))"
  have cands_set: "set ?cands = {candidate_of vocab (gr_partial g) k (fst (cur_p ! k)) |k. k < length cur_p \<and> judged vocab (fst (cur_p ! k))}"
    by (rule set_indexed)
  have depth: "candidate_ok depth tok" if "tok \<in> set ?cands" for tok
  proof -
    from that obtain k where k: "k < length cur_p" "judged vocab (fst (cur_p ! k))"
        "tok = candidate_of vocab (gr_partial g) k (fst (cur_p ! k))" unfolding cands_set by auto
    let ?n = "\<lambda>d. Suc (length (fst (decode_utf8_partial (token_to_piece vocab (fst d)) (gr_partial g))))"
    have "?n (cur_p ! k) \<le> depth"
      using member_le_sum_list [of "?n (cur_p ! k)" "map ?n cur_p"] k(1) by (simp add: depth_def)
    with candidate_ok_mono [OF candidate_of_props(2)] k assms(3) show ?thesis by (auto dest: nth_mem)
  qed
  obtain fuel0 where fuel0: "\<And>fuel. fuel \<ge> fuel0 \<Longrightarrow>
      \<exists>rejects. llama_grammar_reject_candidates depth fuel (gr_rules g) (gr_stacks g) ?cands = Some rejects \<and>
      set rejects = {tok \<in> set ?cands. \<forall>s \<in> set (gr_stacks g). \<not> allowed fuel (gr_rules g) s tok}"
  proof -
    have "0 < depth" by (simp add: depth_def)
    from reject_candidates_ok [OF assms(1) this] obtain fuel0 where f: "\<forall>fuel \<ge> fuel0. \<forall>cands.
      (\<forall>tok \<in> set cands. candidate_ok depth tok) \<longrightarrow>
      (\<exists>rejects. llama_grammar_reject_candidates depth fuel (gr_rules g) (gr_stacks g) cands = Some rejects \<and>
      set rejects = {tok \<in> set cands. \<forall>s \<in> set (gr_stacks g). \<not> allowed fuel (gr_rules g) s tok})" ..
    have "\<forall>tok \<in> set ?cands. candidate_ok depth tok" using depth by (rule ballI)
    with f show ?thesis by (intro that) blast
  qed
  show ?thesis
  proof (rule exI [of _ depth], rule exI [of _ fuel0], intro allI impI)
    fix fuel assume "fuel \<ge> fuel0"
    then obtain rejects where r: "llama_grammar_reject_candidates depth fuel (gr_rules g) (gr_stacks g) ?cands = Some rejects"
      "set rejects = {tok \<in> set ?cands. \<forall>s \<in> set (gr_stacks g). \<not> allowed fuel (gr_rules g) s tok}"
      using fuel0 by blast
    let ?d' = "foldl (\<lambda>d r. mask_candidate (gc_index r) d) ?d rejects"
    have res: "llama_grammar_apply_impl depth fuel vocab g cur_p = Some ?d'"
      using assms(2) r(1) by (simp add: llama_grammar_apply_impl_def apply_scan_ok)
    have idx: "(\<exists>r \<in> set rejects. gc_index r = i) \<longleftrightarrow> judged vocab (fst (cur_p ! i)) \<and>
        \<not> (\<exists>s \<in> set (gr_stacks g). allowed fuel (gr_rules g) s (candidate_of vocab (gr_partial g) i (fst (cur_p ! i))))"
      if "i < length cur_p" for i
    proof -
      have index: "gc_index (candidate_of vocab (gr_partial g) k t) = k" for k t
        by (simp add: candidate_of_def split: prod.split)
      have "(\<exists>r \<in> set rejects. gc_index r = i) \<longleftrightarrow> (\<exists>k. k < length cur_p \<and> judged vocab (fst (cur_p ! k)) \<and>
          (\<forall>s \<in> set (gr_stacks g). \<not> allowed fuel (gr_rules g) s (candidate_of vocab (gr_partial g) k (fst (cur_p ! k)))) \<and> k = i)"
        unfolding r(2) cands_set by (fastforce simp: index)
      with that show ?thesis by blast
    qed
    have "?d' ! i = (if kept fuel vocab g i (fst (cur_p ! i)) then cur_p ! i else (fst (cur_p ! i), Minus_Infinity))" if "i < length cur_p" for i
      using foldl_mask [of ?d rejects] idx [OF that] that by (auto simp: scanned_def judged_def kept_def)
    with res foldl_mask [of ?d rejects] show "\<exists>cur_p'.
      llama_grammar_apply_impl depth fuel vocab g cur_p = Some cur_p' \<and> length cur_p' = length cur_p \<and>
      (\<forall>i < length cur_p. cur_p' ! i =
       (if kept fuel vocab g i (fst (cur_p ! i)) then cur_p ! i else (fst (cur_p ! i), Minus_Infinity)))" by auto
  qed
qed

text \<open>C6: \<^verbatim>\<open>llama_grammar_apply_impl\<close> and \<^verbatim>\<open>llama_grammar_accept_impl\<close> agree. For a well-formed grammar
  without left recursion and token elements, the masking returns; it leaves a candidate alone or sets its logit
  to minus infinity; a candidate that keeps a finite logit is accepted without an exception, and the grammar is
  well-formed again; and a candidate that would be accepted and whose text ends with a whole character is never
  masked.\<close>

theorem masking_agrees_with_acceptance:
  assumes "grammar_ok g" and "\<not> gr_awaiting_trigger g"
    and "\<forall>d \<in> set cur_p. judged vocab (fst d) \<longrightarrow> no_nul vocab (gr_partial g) (fst d)"
  shows "\<exists>depth fuel0. \<forall>fuel \<ge> fuel0. \<exists>cur_p'.
    llama_grammar_apply_impl depth fuel vocab g cur_p = Some cur_p' \<and> length cur_p' = length cur_p \<and>
    (\<forall>i < length cur_p. let tok = fst (cur_p ! i); accepted = llama_grammar_accept_impl fuel vocab rx tok g in
       cur_p' ! i \<in> {cur_p ! i, (tok, Minus_Infinity)} \<and>
       (snd (cur_p' ! i) \<noteq> Minus_Infinity \<longrightarrow> (\<exists>g'. accepted = Some g' \<and> grammar_ok g')) \<and>
       (accepted \<noteq> None \<and> ends_whole vocab (gr_partial g) tok \<longrightarrow> cur_p' ! i = cur_p ! i))"
proof -
  obtain depth fuel1 where masked: "\<And>fuel. fuel \<ge> fuel1 \<Longrightarrow> \<exists>cur_p'.
    llama_grammar_apply_impl depth fuel vocab g cur_p = Some cur_p' \<and> length cur_p' = length cur_p \<and>
    (\<forall>i < length cur_p. cur_p' ! i =
       (if kept fuel vocab g i (fst (cur_p ! i)) then cur_p ! i else (fst (cur_p ! i), Minus_Infinity)))"
    using apply_impl_ok [OF assms] by blast
  obtain fuel2 where enough: "\<And>fuel d. fuel \<ge> fuel2 \<Longrightarrow> d \<in> set cur_p \<Longrightarrow> enough fuel g (token_to_piece vocab (fst d))"
    using common_bound [of cur_p "\<lambda>d n. enough n g (token_to_piece vocab (fst d))"] enough_exists [OF assms(1)] by blast
  show ?thesis
  proof (rule exI [of _ depth], rule exI [of _ "max fuel1 fuel2"], intro allI impI)
    fix fuel assume fuel: "fuel \<ge> max fuel1 fuel2"
    then obtain cur_p' where c: "llama_grammar_apply_impl depth fuel vocab g cur_p = Some cur_p'" "length cur_p' = length cur_p"
      "\<And>i. i < length cur_p \<Longrightarrow> cur_p' ! i =
       (if kept fuel vocab g i (fst (cur_p ! i)) then cur_p ! i else (fst (cur_p ! i), Minus_Infinity))" using masked [of fuel] by auto
    have "let tok = fst (cur_p ! i); accepted = llama_grammar_accept_impl fuel vocab rx tok g in
       cur_p' ! i \<in> {cur_p ! i, (tok, Minus_Infinity)} \<and>
       (snd (cur_p' ! i) \<noteq> Minus_Infinity \<longrightarrow> (\<exists>g'. accepted = Some g' \<and> grammar_ok g')) \<and>
       (accepted \<noteq> None \<and> ends_whole vocab (gr_partial g) tok \<longrightarrow> cur_p' ! i = cur_p ! i)" if i: "i < length cur_p" for i
    proof (cases "judged vocab (fst (cur_p ! i))")
      case True
      have mem: "cur_p ! i \<in> set cur_p" using i by simp
      note acc = judged_accept [OF assms(1) True _ enough [OF _ mem], of fuel]
      have nn: "no_nul vocab (gr_partial g) (fst (cur_p ! i))" using assms(3) mem True by blast
      from True have "\<not> is_eog vocab (fst (cur_p ! i))" by (simp add: judged_def)
      then show ?thesis
        using acc [OF nn] fuel c(3) [OF i] True assms(2)
        by (auto simp: llama_grammar_accept_impl_def ends_whole_def kept_def Let_def split: if_splits)
    next
      case False
      with c(3) [OF i] assms(1,2) show ?thesis
        by (auto simp: llama_grammar_accept_impl_def ends_whole_def kept_def Let_def split: if_splits)
    qed
    with c(1,2) show "\<exists>cur_p'.
    llama_grammar_apply_impl depth fuel vocab g cur_p = Some cur_p' \<and> length cur_p' = length cur_p \<and>
    (\<forall>i < length cur_p. let tok = fst (cur_p ! i); accepted = llama_grammar_accept_impl fuel vocab rx tok g in
       cur_p' ! i \<in> {cur_p ! i, (tok, Minus_Infinity)} \<and>
       (snd (cur_p' ! i) \<noteq> Minus_Infinity \<longrightarrow> (\<exists>g'. accepted = Some g' \<and> grammar_ok g')) \<and>
       (accepted \<noteq> None \<and> ends_whole vocab (gr_partial g) tok \<longrightarrow> cur_p' ! i = cur_p ! i))" by blast
  qed
qed


section \<open>Witnesses of the masking\<close>

lemma masking_agrees_with_acceptance_witness:
  "\<exists>depth fuel0. \<forall>fuel \<ge> fuel0. \<exists>cur_p'.
    llama_grammar_apply_impl depth fuel demo_vocab demo_grammar [(0, Finite 7), (1, Finite 8), (2, Finite (9::int))] = Some cur_p' \<and>
    length cur_p' = 3"
proof -
  have "decode_loop [195, 169] [] 0 0 = ([233, 0], \<lparr>pu_value = 233, pu_n_remain = 0\<rparr>)"
    by (subst decode_loop_Cons [of 195 1 "[169]" 233 0 "[]"]) (simp_all add: lookup_drop utf8_arith push_bit_eq_mult)
  moreover have "decode_loop [97] [] 0 0 = ([97, 0], \<lparr>pu_value = 97, pu_n_remain = 0\<rparr>)"
    by (subst decode_loop_Cons [of 97 0 "[]" 97 0 "[]"]) (simp_all add: lookup_drop utf8_arith push_bit_eq_mult)
  ultimately have nn: "\<forall>d \<in> set [(0, Finite 7), (1, Finite 8), (2, Finite (9::int))].
      judged demo_vocab (fst d) \<longrightarrow> no_nul demo_vocab (gr_partial demo_grammar) (fst d)"
    by (simp add: judged_def no_nul_def demo_vocab_def demo_grammar_def decode_utf8_partial_def)
  have "\<not> gr_awaiting_trigger demo_grammar" by (simp add: demo_grammar_def)
  from masking_agrees_with_acceptance [OF grammar_ok_demo this nn, of demo_rx]
  show ?thesis by (elim ex_forward all_forward imp_forward) simp_all
qed

section \<open>A text in pieces\<close>

lemma accept_all_word:
  "foldM (llama_grammar_accept fuel) w g = map_option (\<lambda>st. g\<lparr>gr_stacks := st\<rparr>) (accept_word fuel (gr_rules g) w (gr_stacks g))"
proof (induction w arbitrary: g)
  case (Cons c w)
  then show ?case
    by (cases "accept_stacks fuel (gr_rules g) (gr_stacks g) c") (simp_all add: llama_grammar_accept_def)
qed simp

lemma accept_word_append:
  "accept_word fuel rules (u @ w) st = Option.bind (accept_word fuel rules u st) (accept_word fuel rules w)"
  by (induction u arbitrary: st) (auto intro!: Option.bind_cong)

lemma spells_Nil: "spells p [] cps \<Longrightarrow> \<forall>c \<in> set cps. c \<noteq> 0 \<Longrightarrow> cps = [] \<and> pu_n_remain p = 0"
proof -
  assume sp: "spells p [] cps" and nz: "\<forall>c \<in> set cps. c \<noteq> 0"
  then have "pu_n_remain p = 0" "common_unicode_cpts_to_utf8 cps = Some []" by (auto simp: spells_def)
  moreover have "cps = []"
  proof (cases cps)
    case (Cons c cs)
    with calculation(2) have "common_unicode_cpt_to_utf8 c = Some []" by (auto split: bind_splits)
    moreover have "c \<noteq> 0" using nz Cons by simp
    ultimately show ?thesis by (metis encoded_shape list.distinct(1))
  qed simp
  ultimately show ?thesis by simp
qed

lemma pieces_follow:
  assumes "spells (gr_partial g) (concat pieces) cps" and "\<forall>c \<in> set cps. c \<noteq> 0"
    and "accept_word fuel (gr_rules g) cps (gr_stacks g) = Some st"
  shows "foldM (llama_grammar_accept_str fuel) pieces g = None \<and> st = [] \<or>
    (\<exists>g'. foldM (llama_grammar_accept_str fuel) pieces g = Some g' \<and> gr_stacks g' = st \<and> pu_n_remain (gr_partial g') = 0)"
  using assms
proof (induction pieces arbitrary: g cps)
  case Nil
  then show ?case using spells_Nil [of "gr_partial g" cps] by simp
next
  case (Cons piece pieces)
  from decode_partial_spells [of "gr_partial g" piece "concat pieces" cps] Cons.prems obtain cs cps' p' where
    d: "decode_utf8_partial piece (gr_partial g) = (cs @ [0], p')" "cps = cs @ cps'" "spells p' (concat pieces) cps'" by auto
  from Cons.prems(3) d(2) obtain m where m: "accept_word fuel (gr_rules g) cs (gr_stacks g) = Some m"
    "accept_word fuel (gr_rules g) cps' m = Some st" by (auto simp: accept_word_append split: bind_splits)
  let ?g = "g\<lparr>gr_stacks := m, gr_partial := p'\<rparr>"
  have step: "llama_grammar_accept_str fuel piece g = (if m = [] then None else Some ?g)"
    using d(1) m(1) by (simp add: llama_grammar_accept_str_def accept_all_word check_def)
  show ?case
  proof (cases "m = []")
    case True
    with step m(2) show ?thesis by simp
  next
    case False
    from Cons.IH [of ?g cps'] d m(2) Cons.prems(2) False step show ?thesis by simp
  qed
qed

lemma not_left_recursive_check:
  assumes "wf_rules rules" and "not_left_recursive rules" and "length rules < fuel"
  shows "left_recursive_check fuel rules = Some False"
proof -
  obtain b where b: "left_recursive_check fuel rules = Some b"
    using left_recursive_check_returns [OF assms(1,3)] by blast
  moreover have "\<not> b"
  proof
    assume b
    with b left_recursive_check_True [OF assms(1)] obtain w where w: "left_plus rules w w" by auto
    then have "w < length rules"
      by (auto dest!: tranclpD simp: left_ref_def alternates_def vget_def split: bind_splits if_splits)
    with assms(2) cycle_not_ends [OF w] show False by (simp add: not_left_recursive_def)
  qed
  ultimately show ?thesis by simp
qed

lemma init_ok:
  assumes "wf_rules (map copy_rule rules)" and "not_left_recursive (map copy_rule rules)" and "start < length rules"
  shows "\<exists>fuel0. \<forall>fuel \<ge> fuel0. \<exists>stacks g. initial_stacks fuel (map copy_rule rules) start = Some stacks \<and>
    stacks_ok (map copy_rule rules) stacks \<and> llama_grammar_init_impl fuel rules start = Some (Some g) \<and>
    gr_rules g = map copy_rule rules \<and> gr_stacks g = stacks \<and> gr_partial g = \<lparr>pu_value = 0, pu_n_remain = 0\<rparr> \<and>
    \<not> gr_awaiting_trigger g"
proof -
  obtain f stacks where f: "initial_stacks f (map copy_rule rules) start = Some stacks" "stacks_ok (map copy_rule rules) stacks"
    using initial_stacks_total [OF assms(1,2), of start] assms(3) by auto
  show ?thesis
    by (rule exI [of _ "max f (Suc (length rules))"])
      (use f initial_stacks_mono [OF f(1)] not_left_recursive_check [OF assms(1,2)] in
        \<open>simp add: llama_grammar_init_impl_def Let_def\<close>)
qed

text \<open>C7: A grammar built from rules follows the language of the rules: for a text cut anywhere into pieces,
  also inside a character, accepting the pieces one after the other raises an exception only when no word of the
  start rule begins with the text; otherwise no character is left unfinished, the stacks represent exactly the
  words that can follow, and an empty stack is there exactly when the text is a word of the grammar.\<close>

theorem text_in_pieces:
  assumes "wf_rules (map copy_rule rules)" and "not_left_recursive (map copy_rule rules)" and "start < length rules"
    and "common_unicode_cpts_to_utf8 w = Some (concat pieces)" and "0 \<notin> set w"
  shows "\<exists>fuel0. \<forall>fuel \<ge> fuel0. \<exists>g. llama_grammar_init_impl fuel rules start = Some (Some g) \<and>
    (case foldM (llama_grammar_accept_str fuel) pieces g of
       None \<Rightarrow> \<forall>v. \<not> rule_lang (map copy_rule rules) start (w @ v)
     | Some g' \<Rightarrow> pu_n_remain (gr_partial g') = 0 \<and>
         (\<forall>v. stacks_lang (map copy_rule rules) (gr_stacks g') v \<longleftrightarrow> rule_lang (map copy_rule rules) start (w @ v)) \<and>
         ([] \<in> set (gr_stacks g') \<longleftrightarrow> rule_lang (map copy_rule rules) start w))"
proof -
  let ?R = "map copy_rule rules"
  obtain f1 where f1: "\<And>fuel. fuel \<ge> f1 \<Longrightarrow> \<exists>stacks g. initial_stacks fuel ?R start = Some stacks \<and> stacks_ok ?R stacks \<and>
      llama_grammar_init_impl fuel rules start = Some (Some g) \<and> gr_rules g = ?R \<and> gr_stacks g = stacks \<and>
      gr_partial g = \<lparr>pu_value = 0, pu_n_remain = 0\<rparr>"
    using init_ok [OF assms(1-3)] by blast
  then obtain st0 where st0: "initial_stacks f1 ?R start = Some st0" "stacks_ok ?R st0" by blast
  obtain f2 st where st: "accept_word f2 ?R w st0 = Some st"
    using accept_word_total [OF assms(1,2) st0(2), of w] by blast
  have lang: "\<forall>v. stacks_lang ?R st v \<longleftrightarrow> rule_lang ?R start (w @ v)" and ready: "\<forall>s \<in> set st. ready ?R s"
    using accept_word_lang [OF st] initial_stacks_lang [OF st0(1)] by auto
  have last: "[] \<in> set st \<longleftrightarrow> rule_lang ?R start w"
    using lang [THEN spec, of "[]"] ready by (auto simp: stacks_lang_def ready_lang_Nil)
  have nz: "\<forall>c \<in> set w. c \<noteq> 0" using assms(5) by metis
  show ?thesis
  proof (rule exI [of _ "max f1 f2"], intro allI impI)
    fix fuel assume fuel: "fuel \<ge> max f1 f2"
    with f1 [of fuel] initial_stacks_mono [OF st0(1), of fuel] obtain g where
      g: "llama_grammar_init_impl fuel rules start = Some (Some g)" "gr_rules g = ?R" "gr_stacks g = st0"
        "gr_partial g = \<lparr>pu_value = 0, pu_n_remain = 0\<rparr>" by auto
    have "accept_word fuel (gr_rules g) w (gr_stacks g) = Some st" using accept_word_mono [OF st] fuel g by simp
    moreover have "spells (gr_partial g) (concat pieces) w" using g(4) assms(4) by (simp add: spells_def)
    ultimately have "foldM (llama_grammar_accept_str fuel) pieces g = None \<and> st = [] \<or>
        (\<exists>g'. foldM (llama_grammar_accept_str fuel) pieces g = Some g' \<and> gr_stacks g' = st \<and> pu_n_remain (gr_partial g') = 0)"
      using pieces_follow nz by blast
    then have "case foldM (llama_grammar_accept_str fuel) pieces g of
       None \<Rightarrow> \<forall>v. \<not> rule_lang ?R start (w @ v)
     | Some g' \<Rightarrow> pu_n_remain (gr_partial g') = 0 \<and>
         (\<forall>v. stacks_lang ?R (gr_stacks g') v \<longleftrightarrow> rule_lang ?R start (w @ v)) \<and>
         ([] \<in> set (gr_stacks g') \<longleftrightarrow> rule_lang ?R start w)"
      using lang last by (auto simp: stacks_lang_def)
    with g(1) show "\<exists>g. llama_grammar_init_impl fuel rules start = Some (Some g) \<and>
    (case foldM (llama_grammar_accept_str fuel) pieces g of
       None \<Rightarrow> \<forall>v. \<not> rule_lang ?R start (w @ v)
     | Some g' \<Rightarrow> pu_n_remain (gr_partial g') = 0 \<and>
         (\<forall>v. stacks_lang ?R (gr_stacks g') v \<longleftrightarrow> rule_lang ?R start (w @ v)) \<and>
         ([] \<in> set (gr_stacks g') \<longleftrightarrow> rule_lang ?R start w))" by blast
  qed
qed

lemma text_in_pieces_witness:
  "\<exists>fuel0. \<forall>fuel \<ge> fuel0. \<exists>g. llama_grammar_init_impl fuel demo_rules 0 = Some (Some g) \<and>
    (case foldM (llama_grammar_accept_str fuel) [[195], [169, 195], [169]] g of
       None \<Rightarrow> \<forall>v. \<not> rule_lang demo_rules 0 ([233, 233] @ v)
     | Some g' \<Rightarrow> pu_n_remain (gr_partial g') = 0 \<and>
         (\<forall>v. stacks_lang demo_rules (gr_stacks g') v \<longleftrightarrow> rule_lang demo_rules 0 ([233, 233] @ v)) \<and>
         ([] \<in> set (gr_stacks g') \<longleftrightarrow> rule_lang demo_rules 0 [233, 233]))"
proof -
  have "common_unicode_cpts_to_utf8 [233, 233] = Some (concat [[195], [169, 195], [169]])"
    by (simp add: common_unicode_cpt_to_utf8_def utf8_arith drop_bit_eq_div)
  moreover have "0 < length demo_rules" by (simp add: demo_rules_def)
  ultimately show ?thesis by (intro text_in_pieces [of demo_rules, unfolded copy_demo, OF wf_demo nlr_demo]) simp_all
qed

text \<open>
  The inner loop of \<^verbatim>\<open>decode_utf8\<close> does not look whether the bytes that follow a lead byte are continuation
  bytes: the invalid text C3 61 is the code point 225 in one token and invalid in two.
\<close>

lemma decoding_depends_on_tokens:
  "decode_utf8_partial [195, 97] \<lparr>pu_value = 0, pu_n_remain = 0\<rparr> = ([225, 0], \<lparr>pu_value = 225, pu_n_remain = 0\<rparr>)"
  "decode_utf8_partial [195] \<lparr>pu_value = 0, pu_n_remain = 0\<rparr> = ([0], \<lparr>pu_value = 3, pu_n_remain = 1\<rparr>)"
  "decode_utf8_partial [97] \<lparr>pu_value = 3, pu_n_remain = 1\<rparr> = ([0], \<lparr>pu_value = 0, pu_n_remain = - 1\<rparr>)"
  by (simp_all add: decode_utf8_partial_def decode_loop_Cons [of 195 1 "[97]" 225 0 "[]"]
      decode_loop_Cons [of 195 1 "[]" 3 1 "[]"] lookup_drop utf8_arith push_bit_eq_mult drop_bit_eq_div)

section \<open>Left recursion\<close>

text \<open>C26: The check for left recursion returns, with a depth of one more than the number of rules; a grammar it
  refuses is left-recursive; and a grammar it lets pass is not left-recursive, provided that every rule that can
  be empty has an empty alternate of its own.\<close>

theorem left_recursion_check:
  assumes "wf_rules rules" and "length rules < fuel"
  shows "\<exists>refused. left_recursive_check fuel rules = Some refused \<and>
    (refused \<longrightarrow> \<not> not_left_recursive rules) \<and>
    (\<not> refused \<and> (\<forall>u < length rules. rule_lang rules u [] \<longrightarrow> may_be_empty True (rules ! u)) \<longrightarrow> not_left_recursive rules)"
proof -
  obtain b where b: "left_recursive_check fuel rules = Some b"
    using left_recursive_check_returns [OF assms] by blast
  moreover have "\<not> not_left_recursive rules" if b
    using not_left_recursive_check [OF assms(1) _ assms(2)] b that by auto
  moreover have "not_left_recursive rules"
    if "\<not> b" "\<forall>u < length rules. rule_lang rules u [] \<longrightarrow> may_be_empty True (rules ! u)"
    using left_recursive_check_False [OF assms(1), of fuel] b that by auto
  ultimately show ?thesis by blast
qed

lemma left_recursion_check_witness:
  "\<exists>refused. left_recursive_check 2 demo_rules = Some refused \<and>
    (refused \<longrightarrow> \<not> not_left_recursive demo_rules) \<and>
    (\<not> refused \<and> (\<forall>u < length demo_rules. rule_lang demo_rules u [] \<longrightarrow> may_be_empty True (demo_rules ! u))
      \<longrightarrow> not_left_recursive demo_rules)"
  by (rule left_recursion_check [OF wf_demo]) (simp add: demo_rules_def)

text \<open>The rules \<open>root ::= a root | "a"\<close>, \<open>a ::= b\<close>, \<open>b ::= ""\<close>.\<close>

definition hidden_rules :: llama_grammar_rules where
  "hidden_rules =
     [[elem LLAMA_GRETYPE_RULE_REF 1, elem LLAMA_GRETYPE_RULE_REF 0, elem LLAMA_GRETYPE_ALT 0,
       elem LLAMA_GRETYPE_CHAR 97, elem LLAMA_GRETYPE_END 0],
      [elem LLAMA_GRETYPE_RULE_REF 2, elem LLAMA_GRETYPE_END 0],
      [elem LLAMA_GRETYPE_END 0]]"

lemmas hidden_simps = hidden_rules_def alternates_def alternate_stack_def push_pos_def deref_def vget_def
  next_pos_def llama_grammar_is_end_of_sequence_def is_end_type_def

lemma hidden_alternates:
  "alternates hidden_rules 0 = Some [0, 3]" "alternates hidden_rules (Suc 0) = Some [0]" "alternates hidden_rules 2 = Some [0]"
  by (simp_all add: alternates_def hidden_rules_def vget_def)

lemma hidden_deref:
  "deref hidden_rules (0, 0) = Some (elem LLAMA_GRETYPE_RULE_REF 1)" "deref hidden_rules (Suc 0, 0) = Some (elem LLAMA_GRETYPE_RULE_REF 2)"
  "deref hidden_rules (0, Suc 0) = Some (elem LLAMA_GRETYPE_RULE_REF 0)"
  by (simp_all add: hidden_rules_def deref_def vget_def)

lemma hidden_stacks:
  "alternate_stack hidden_rules (0, 0) s (Suc 0) 0 = Some ((Suc 0, 0) # (0, Suc 0) # s)"
  "alternate_stack hidden_rules (Suc 0, 0) s 2 0 = Some s"
  "alternate_stack hidden_rules (0, Suc 0) s 0 0 = Some ((0, 0) # s)"
  by (simp_all add: alternate_stack_def push_pos_def next_pos_def llama_grammar_is_end_of_sequence_def is_end_type_def
      hidden_rules_def deref_def vget_def)

lemma hidden_loops: "llama_grammar_advance_stack fuel hidden_rules [(0, 0)] ns = None"
proof (induction fuel arbitrary: ns rule: less_induct)
  case (less fuel)
  consider "fuel = 0" | "fuel = Suc 0" | "fuel = Suc (Suc 0)" | f where "fuel = Suc (Suc (Suc f))"
    by (metis not0_implies_Suc)
  then show ?case
  proof cases
    case 4
    then show ?thesis using less [of f] by (simp add: hidden_deref hidden_alternates hidden_stacks)
  qed (simp_all add: hidden_deref hidden_alternates hidden_stacks)
qed

lemma hidden_passes: "left_recursive_check (Suc (Suc (Suc (Suc f)))) hidden_rules = Some False"
  by (simp add: left_recursive_check_def hidden_rules_def Let_def upt_rec vget_def is_end_type_def)

lemma hidden_check: "left_recursive_check fuel hidden_rules \<noteq> Some True"
proof -
  consider "fuel = 0" | "fuel = 1" | "fuel = 2" | "fuel = 3" | f where "fuel = Suc (Suc (Suc (Suc f)))"
    by (metis One_nat_def Suc_1 not0_implies_Suc numeral_3_eq_3)
  then show ?thesis
  proof cases
    case 5
    then show ?thesis using hidden_passes by simp
  qed (simp_all add: left_recursive_check_def hidden_rules_def Let_def upt_rec vget_def is_end_type_def
      numeral_2_eq_2 numeral_3_eq_3)
qed

text \<open>C27: The check misses left recursion behind a rule that is empty only through another rule. The rules
  \<open>root ::= a root | "a"\<close>, \<open>a ::= b\<close>, \<open>b ::= ""\<close> are well-formed and pass the check, and the initialisation
  does not return for any depth of the recursion of \<^verbatim>\<open>llama_grammar_advance_stack\<close>.\<close>

theorem undetected_left_recursion:
  "wf_rules (map copy_rule hidden_rules) \<and>
   left_recursive_check 4 (map copy_rule hidden_rules) = Some False \<and>
   (\<forall>fuel. llama_grammar_init_impl fuel hidden_rules 0 = None)"
proof (intro conjI allI)
  have copy: "map copy_rule hidden_rules = hidden_rules" by (simp add: hidden_rules_def copy_rule_def)
  show "wf_rules (map copy_rule hidden_rules)"
    unfolding copy by (simp add: wf_rules_def hidden_rules_def refs_ok_def rule_okI [where v = 0] may_follow_def)
  show "left_recursive_check 4 (map copy_rule hidden_rules) = Some False"
    unfolding copy using hidden_passes [of 0] by (simp add: numeral_eq_Suc)
  show "llama_grammar_init_impl fuel hidden_rules 0 = None" for fuel
  proof -
    have "push_pos hidden_rules (0, 0) [] = Some [(0, 0)]"
      by (simp add: push_pos_def llama_grammar_is_end_of_sequence_def is_end_type_def hidden_deref)
    then have "initial_stacks fuel hidden_rules 0 = None"
      by (simp add: initial_stacks_def hidden_alternates hidden_loops)
    moreover have "left_recursive_check fuel hidden_rules \<noteq> Some True"
      by (rule hidden_check)
    ultimately show ?thesis
      by (cases "left_recursive_check fuel hidden_rules") (auto simp: llama_grammar_init_impl_def copy Let_def)
  qed
qed

section \<open>Triggers\<close>

text \<open>
  The buffered tokens with their texts: \<open>spans\<close> are the positions that the grammar records for them, and
  \<open>cut_tokens start\<close> drops the first \<open>start\<close> bytes of their joint text, cutting the token they end in.
\<close>

fun spans :: "nat \<Rightarrow> (llama_token \<times> byte list) list \<Rightarrow> (llama_token \<times> nat \<times> nat) list" where
  "spans a [] = []"
| "spans a ((tok, piece) # ts) = (tok, a, a + length piece) # spans (a + length piece) ts"

fun cut_tokens :: "nat \<Rightarrow> (llama_token \<times> byte list) list \<Rightarrow> (llama_token \<times> byte list) list" where
  "cut_tokens start [] = []"
| "cut_tokens start ((tok, piece) # ts) =
     (if length piece \<le> start then cut_tokens (start - length piece) ts else (tok, drop start piece) # ts)"

abbreviation tokens_text :: "(llama_token \<times> byte list) list \<Rightarrow> byte list" where
  "tokens_text ts \<equiv> concat (map snd ts)"

definition holds :: "llama_grammar \<Rightarrow> (llama_token \<times> byte list) list \<Rightarrow> bool" where
  "holds g ts \<longleftrightarrow> gr_trigger_buffer g = tokens_text ts \<and> gr_trigger_positions g = spans 0 ts"

lemma spans_snoc: "spans a (ts @ [(tok, piece)]) =
    spans a ts @ [(tok, a + length (tokens_text ts), a + length (tokens_text ts) + length piece)]"
  by (induction a ts rule: spans.induct) (auto simp: add.assoc)

lemma cut_tokens_text: "tokens_text (cut_tokens start ts) = drop start (tokens_text ts)"
  by (induction start ts rule: cut_tokens.induct) auto

text \<open>The pieces that the code replays are these tokens.\<close>

lemma overlap_whole:
  assumes "start < length pre"
  shows "List.map_filter (overlap (pre @ tokens_text ts) start) (spans (length pre) ts) = ts"
  using assms
proof (induction ts arbitrary: pre)
  case (Cons t ts)
  obtain tok piece where t: "t = (tok, piece)" by (cases t)
  have "List.map_filter (overlap ((pre @ piece) @ tokens_text ts) start) (spans (length (pre @ piece)) ts) = ts"
    by (rule Cons.IH) (use Cons.prems t in auto)
  moreover have "overlap (pre @ tokens_text (t # ts)) start (tok, length pre, length pre + length piece) = Some (tok, piece)"
    using Cons.prems by (simp add: overlap_def t Let_def)
  ultimately show ?case by (simp add: t map_filter_simps)
qed (simp add: map_filter_simps)

lemma overlap_cut:
  assumes "length pre \<le> start"
  shows "List.map_filter (overlap (pre @ tokens_text ts) start) (spans (length pre) ts) = cut_tokens (start - length pre) ts"
  using assms
proof (induction ts arbitrary: pre)
  case (Cons t ts)
  obtain tok piece where t: "t = (tok, piece)" by (cases t)
  show ?case
  proof (cases "length pre + length piece \<le> start")
    case True
    have "List.map_filter (overlap ((pre @ piece) @ tokens_text ts) start) (spans (length (pre @ piece)) ts)
        = cut_tokens (start - length (pre @ piece)) ts"
      by (rule Cons.IH) (use True in simp)
    moreover have "length piece \<le> start - length pre" using True by arith
    ultimately show ?thesis using True by (simp add: t map_filter_simps overlap_def)
  next
    case False
    have "List.map_filter (overlap ((pre @ piece) @ tokens_text ts) start) (spans (length (pre @ piece)) ts) = ts"
      by (rule overlap_whole) (use False in auto)
    moreover have "overlap (pre @ tokens_text (t # ts)) start (tok, length pre, length pre + length piece)
        = Some (tok, drop (start - length pre) piece)"
      using False Cons.prems by (auto simp: overlap_def t Let_def)
    moreover have "\<not> length piece \<le> start - length pre" using False Cons.prems by arith
    ultimately show ?thesis by (simp add: t map_filter_simps)
  qed
qed (simp add: map_filter_simps)

text \<open>Accepting a token does not read the buffer.\<close>

definition set_buffer :: "byte list \<Rightarrow> (llama_token \<times> nat \<times> nat) list \<Rightarrow> llama_grammar \<Rightarrow> llama_grammar" where
  "set_buffer b ps g = g\<lparr>gr_trigger_buffer := b, gr_trigger_positions := ps\<rparr>"

lemma set_buffer_sel [simp]:
  "gr_rules (set_buffer b ps g) = gr_rules g" "gr_stacks (set_buffer b ps g) = gr_stacks g"
  "gr_partial (set_buffer b ps g) = gr_partial g" "set_buffer c qs (set_buffer b ps g) = set_buffer c qs g"
  by (simp_all add: set_buffer_def)

lemma accept_token_buffer:
  "llama_grammar_accept_token fuel tok piece (set_buffer b ps g)
     = map_option (set_buffer b ps) (llama_grammar_accept_token fuel tok piece g)"
  by (auto simp: llama_grammar_accept_token_def check_def set_buffer_def map_option_bind split: prod.splits intro!: Option.bind_cong)

lemma accept_tokens_buffer:
  "foldM (\<lambda>(t, piece). llama_grammar_accept_token fuel t piece) ts (set_buffer b ps g)
     = map_option (set_buffer b ps) (foldM (\<lambda>(t, piece). llama_grammar_accept_token fuel t piece) ts g)"
proof (induction ts arbitrary: g)
  case (Cons t ts)
  then show ?case by (cases t) (simp add: accept_token_buffer map_option_bind bind_map_option comp_def)
qed simp

text \<open>
  What is relied on of \<^verbatim>\<open>std::regex\<close>: a match lists the whole match first, and its groups lie in the text.
  \<open>trigger_match\<close>: a pattern that is anchored on both sides is tried against the whole text first, any other
  (and, after a failure, this one too) anywhere in it. The text of interest begins at the first non-empty
  capture group, or at the match when every group is empty.
\<close>

definition rx_ok :: "regex_engine \<Rightarrow> bool" where
  "rx_ok rx \<longleftrightarrow> (\<forall>p s m. regex_match rx p s = Some m \<or> regex_search rx p s = Some m \<longrightarrow>
     m \<noteq> [] \<and> fst (hd m) \<le> length s \<and> (\<forall>(q, n) \<in> set m. n > 0 \<longrightarrow> q + n \<le> length s))"

definition trigger_match :: "regex_engine \<Rightarrow> byte list \<Rightarrow> byte list \<Rightarrow> (nat \<times> nat) list option" where
  "trigger_match rx p s =
     (if p \<noteq> [] \<and> hd p = 94 \<and> last p = 36 \<and> regex_match rx p s \<noteq> None then regex_match rx p s else regex_search rx p s)"

definition group_start :: "(nat \<times> nat) list \<Rightarrow> nat" where
  "group_start m = (case filter (\<lambda>(q, n). 0 < n) (tl m) of (q, _) # _ \<Rightarrow> q | [] \<Rightarrow> fst (hd m))"

lemma find_start_group: "m \<noteq> [] \<Longrightarrow> find_start_pos m = Some (group_start m)"
proof -
  have "List.find P xs = (case filter P xs of x # _ \<Rightarrow> Some x | [] \<Rightarrow> None)" for P and xs :: "(nat \<times> nat) list"
    by (induction xs) auto
  then show "m \<noteq> [] \<Longrightarrow> find_start_pos m = Some (group_start m)"
    by (auto simp: find_start_pos_def group_start_def vget_def hd_conv_nth split: list.splits)
qed

lemma pattern_find_match: "rx_ok rx \<Longrightarrow> pattern_find rx p s = Some (map_option group_start (trigger_match rx p s))"
  unfolding rx_ok_def
  by (auto simp: pattern_find_def trigger_match_def Let_def find_start_group split: option.splits)

lemma group_start_le:
  assumes "rx_ok rx" "trigger_match rx p s = Some m"
  shows "group_start m \<le> length s"
proof -
  have m: "m \<noteq> []" "fst (hd m) \<le> length s" "\<forall>(q, n) \<in> set m. n > 0 \<longrightarrow> q + n \<le> length s"
    using assms unfolding rx_ok_def trigger_match_def by (auto split: if_splits)
  show ?thesis
  proof (cases "filter (\<lambda>(q, n). 0 < n) (tl m)")
    case (Cons x xs)
    then have "x \<in> set (filter (\<lambda>(q, n). 0 < n) (tl m))" by simp
    then have "x \<in> set m" "0 < snd x" using m(1) by (auto dest: list.set_sel(2))
    then show ?thesis using m(3) Cons by (auto simp: group_start_def split: prod.splits)
  qed (simp add: group_start_def m(2))
qed

lemma first_trigger_none:
  "rx_ok rx \<Longrightarrow> \<forall>p \<in> set ps. trigger_match rx p s = None \<Longrightarrow> first_trigger rx ps s = Some None"
  by (induction ps) (auto simp: pattern_find_match)

lemma first_trigger_some:
  "rx_ok rx \<Longrightarrow> \<forall>q \<in> set earlier. trigger_match rx q s = None \<Longrightarrow> trigger_match rx p s = Some m
     \<Longrightarrow> first_trigger rx (earlier @ p # later) s = Some (Some (group_start m))"
  by (induction earlier) (auto simp: pattern_find_match)

text \<open>C28: A lazy grammar that waits masks nothing. A trigger token starts the grammar, with the text of that token.
  Any other token is buffered; while no pattern matches the buffered text, nothing else changes and the
  grammar goes on waiting. When a pattern matches, the first such pattern decides: the grammar takes up the
  buffered tokens from the first non-empty capture group of the match on (from the start of the match when
  every group is empty), each under its own token id, the one in which that position lies cut
  to the rest of its text, and the buffer is emptied.\<close>

theorem lazy_trigger:
  fixes tok :: llama_token and vocab :: llama_vocab
  assumes "gr_awaiting_trigger g" "holds g ts" "rx_ok rx"
  defines "ts' \<equiv> ts @ [(tok, token_to_piece vocab tok)]"
  shows "llama_grammar_apply_impl depth fuel vocab g cur_p = Some cur_p \<and>
    (tok \<in> set (gr_trigger_tokens g) \<longrightarrow>
       llama_grammar_accept_impl fuel vocab rx tok g = llama_grammar_accept_token fuel tok (token_to_piece vocab tok)
         (g\<lparr>gr_awaiting_trigger := False, gr_trigger_buffer := []\<rparr>)) \<and>
    (tok \<notin> set (gr_trigger_tokens g) \<longrightarrow>
       ((\<forall>p \<in> set (gr_trigger_patterns g). trigger_match rx p (tokens_text ts') = None) \<longrightarrow>
          (\<exists>g'. llama_grammar_accept_impl fuel vocab rx tok g = Some g' \<and> holds g' ts' \<and> gr_awaiting_trigger g' \<and>
             gr_stacks g' = gr_stacks g \<and> gr_rules g' = gr_rules g \<and> gr_partial g' = gr_partial g)) \<and>
       (\<forall>earlier p later m. gr_trigger_patterns g = earlier @ p # later \<longrightarrow>
          (\<forall>q \<in> set earlier. trigger_match rx q (tokens_text ts') = None) \<longrightarrow>
          trigger_match rx p (tokens_text ts') = Some m \<longrightarrow>
          tokens_text (cut_tokens (group_start m) ts') = drop (group_start m) (tokens_text ts') \<and>
          llama_grammar_accept_impl fuel vocab rx tok g =
            foldM (\<lambda>(t, piece). llama_grammar_accept_token fuel t piece) (cut_tokens (group_start m) ts')
              (g\<lparr>gr_awaiting_trigger := False, gr_trigger_buffer := [], gr_trigger_positions := []\<rparr>)))"
proof (intro conjI impI allI)
  let ?piece = "token_to_piece vocab tok"
  have buf: "tokens_text ts' = gr_trigger_buffer g @ ?piece" using assms(2) by (simp add: ts'_def holds_def)
  have ps: "gr_trigger_positions g @ [(tok, length (gr_trigger_buffer g), length (gr_trigger_buffer g) + length ?piece)] = spans 0 ts'"
    using assms(2) by (simp add: ts'_def holds_def spans_snoc)
  show "llama_grammar_apply_impl depth fuel vocab g cur_p = Some cur_p"
    using assms(1) by (simp add: llama_grammar_apply_impl_def)
  show "llama_grammar_accept_impl fuel vocab rx tok g = llama_grammar_accept_token fuel tok ?piece
         (g\<lparr>gr_awaiting_trigger := False, gr_trigger_buffer := []\<rparr>)" if "tok \<in> set (gr_trigger_tokens g)"
    using that assms(1) by (simp add: llama_grammar_accept_impl_def await_trigger_def)
  assume tok: "tok \<notin> set (gr_trigger_tokens g)"
  have run: "llama_grammar_accept_impl fuel vocab rx tok g = await_trigger fuel rx tok ?piece g"
    using assms(1) by (simp add: llama_grammar_accept_impl_def)
  show "\<exists>g'. llama_grammar_accept_impl fuel vocab rx tok g = Some g' \<and> holds g' ts' \<and> gr_awaiting_trigger g' \<and>
      gr_stacks g' = gr_stacks g \<and> gr_rules g' = gr_rules g \<and> gr_partial g' = gr_partial g"
    if "\<forall>p \<in> set (gr_trigger_patterns g). trigger_match rx p (tokens_text ts') = None"
    using first_trigger_none [OF assms(3) that] tok assms(1) unfolding run
    by (simp add: await_trigger_def Let_def buf ps holds_def)
  fix earlier p later m
  assume m: "gr_trigger_patterns g = earlier @ p # later" "\<forall>q \<in> set earlier. trigger_match rx q (tokens_text ts') = None"
    "trigger_match rx p (tokens_text ts') = Some m"
  show "tokens_text (cut_tokens (group_start m) ts') = drop (group_start m) (tokens_text ts')" by (rule cut_tokens_text)
  let ?g1 = "g\<lparr>gr_awaiting_trigger := False\<rparr>" and ?toks = "cut_tokens (group_start m) ts'"
  let ?fold = "foldM (\<lambda>(t, piece). llama_grammar_accept_token fuel t piece) ?toks"
  have replay: "replay fuel (tokens_text ts') (group_start m) (spans 0 ts') u = ?fold u" for u
    using overlap_cut [of "[]" "group_start m" ts'] by (simp add: replay_def)
  have "first_trigger rx (gr_trigger_patterns g) (tokens_text ts') = Some (Some (group_start m))"
    unfolding m(1) by (rule first_trigger_some [OF assms(3) m(2,3)])
  moreover have "g\<lparr>gr_trigger_positions := x, gr_trigger_buffer := y, gr_awaiting_trigger := False\<rparr> = set_buffer y x ?g1" for x y
    by (cases g) (simp add: set_buffer_def)
  ultimately have "await_trigger fuel rx tok ?piece g = map_option (set_buffer [] []) (?fold (set_buffer (tokens_text ts') (spans 0 ts') ?g1))"
    using tok group_start_le [OF assms(3) m(3)]
    by (simp add: await_trigger_def Let_def buf [symmetric] ps replay check_def map_conv_bind_option comp_def flip: set_buffer_def)
  also have "\<dots> = ?fold (set_buffer [] [] ?g1)"
    by (simp add: accept_tokens_buffer option.map_comp comp_def)
  finally show "llama_grammar_accept_impl fuel vocab rx tok g =
      ?fold (g\<lparr>gr_awaiting_trigger := False, gr_trigger_buffer := [], gr_trigger_positions := []\<rparr>)"
    unfolding run by (simp add: set_buffer_def)
qed

text \<open>Tokens 3 and 4 are the bytes of \<open>"a\u00e9"\<close>, cut inside the second character; the only pattern captures that character.\<close>

definition lazy_vocab :: llama_vocab where
  "lazy_vocab = \<lparr>token_to_piece = (\<lambda>t. if t = 3 then [97, 195] else if t = 4 then [169] else []), is_eog = (\<lambda>t. t = 0)\<rparr>"

definition lazy_rx :: regex_engine where
  "lazy_rx = \<lparr>regex_match = (\<lambda>_ _. None), regex_search = (\<lambda>p s. if s = [97, 195, 169] then Some [(0, 3), (1, 0), (1, 2)] else None)\<rparr>"

definition lazy_grammar :: llama_grammar where
  "lazy_grammar = demo_grammar\<lparr>gr_lazy := True, gr_awaiting_trigger := True, gr_trigger_buffer := [97, 195],
     gr_trigger_positions := [(3, 0, 2)], gr_trigger_patterns := [[97]]\<rparr>"

lemma lazy_decode:
  "decode_utf8_partial [195] \<lparr>pu_value = 0, pu_n_remain = 0\<rparr> = ([0], \<lparr>pu_value = 3, pu_n_remain = 1\<rparr>)"
  "decode_utf8_partial [169] \<lparr>pu_value = 3, pu_n_remain = 1\<rparr> = ([233, 0], \<lparr>pu_value = 233, pu_n_remain = 0\<rparr>)"
proof -
  show "decode_utf8_partial [195] \<lparr>pu_value = 0, pu_n_remain = 0\<rparr> = ([0], \<lparr>pu_value = 3, pu_n_remain = 1\<rparr>)" by code_simp
  have "(169 AND 63 :: nat) = 41" "drop_bit 6 (169 :: nat) = 2" "push_bit 6 (3 :: nat) = 192" by code_simp+
  then have "decode_continue 3 1 [169] = Some (233, 0, [])" by simp
  then show "decode_utf8_partial [169] \<lparr>pu_value = 3, pu_n_remain = 1\<rparr> = ([233, 0], \<lparr>pu_value = 233, pu_n_remain = 0\<rparr>)"
    by (simp add: decode_utf8_partial_def)
qed

lemma lazy_steps:
  "foldM (token_step 5 demo_rules 3 []) [[(0, 0)], []] [] = Some [[(0, 0)]]"
  "foldM (token_step 5 demo_rules 4 [233]) [[(0, 0)]] [] = Some [[(0, 0)], []]"
proof -
  show "foldM (token_step 5 demo_rules 3 []) [[(0, 0)], []] [] = Some [[(0, 0)]]"
    by (simp add: token_step_def demo_rules_def deref_def vget_def is_token_type_def add_stack_def)
  show "foldM (token_step 5 demo_rules 4 [233]) [[(0, 0)]] [] = Some [[(0, 0)], []]" by code_simp
qed

lemma lazy_trigger_witness:
  "\<exists>g'. llama_grammar_accept_impl 5 lazy_vocab lazy_rx 4 lazy_grammar = Some g' \<and> gr_stacks g' = gr_stacks demo_grammar
     \<and> \<not> gr_awaiting_trigger g'"
proof -
  have l: "gr_awaiting_trigger lazy_grammar" "holds lazy_grammar [(3, [97, 195])]" "gr_trigger_tokens lazy_grammar = []"
    "gr_trigger_patterns lazy_grammar = [] @ [97] # []" "rx_ok lazy_rx" "token_to_piece lazy_vocab 4 = [169]"
    "trigger_match lazy_rx [97] [97, 195, 169] = Some [(0, 3), (1, 0), (1, 2)]"
    by (auto simp: lazy_grammar_def demo_grammar_def holds_def rx_ok_def lazy_rx_def lazy_vocab_def trigger_match_def)
  have "llama_grammar_accept_impl 5 lazy_vocab lazy_rx 4 lazy_grammar =
      foldM (\<lambda>(t, piece). llama_grammar_accept_token 5 t piece) [(3, [195]), (4, [169])]
        (lazy_grammar\<lparr>gr_awaiting_trigger := False, gr_trigger_buffer := [], gr_trigger_positions := []\<rparr>)"
    using lazy_trigger [OF l(1,2,5), of 0 5 lazy_vocab "[] :: int token_data list" 4, THEN conjunct2, THEN conjunct2,
        THEN mp, THEN conjunct2, rule_format, OF _ l(4)] l(3,6,7) by (simp add: group_start_def)
  moreover let ?g = "\<lambda>stacks partial. lazy_grammar\<lparr>gr_awaiting_trigger := False, gr_trigger_buffer := [], gr_trigger_positions := [],
      gr_stacks := stacks, gr_partial := partial\<rparr>"
  have "llama_grammar_accept_token 5 3 [195]
        (lazy_grammar\<lparr>gr_awaiting_trigger := False, gr_trigger_buffer := [], gr_trigger_positions := []\<rparr>)
      = Some (?g [[(0, 0)]] \<lparr>pu_value = 3, pu_n_remain = 1\<rparr>)"
    by (simp add: llama_grammar_accept_token_def lazy_grammar_def demo_grammar_def lazy_decode lazy_steps del: foldM.simps)
  moreover have "llama_grammar_accept_token 5 4 [169] (?g [[(0, 0)]] \<lparr>pu_value = 3, pu_n_remain = 1\<rparr>)
      = Some (?g [[(0, 0)], []] \<lparr>pu_value = 233, pu_n_remain = 0\<rparr>)"
    by (simp add: llama_grammar_accept_token_def lazy_grammar_def demo_grammar_def lazy_decode lazy_steps del: foldM.simps)
  ultimately show ?thesis by (simp add: demo_grammar_def)
qed

end
