(* ===== verification/Grammar_Parser.thy ===== *)
theory Grammar_Parser
  imports Grammar_Sampler "HOL-Library.AList"
begin

text \<open>
  The parser of grammar texts (\<^verbatim>\<open>llama_grammar_parser\<close> and its helpers, src/src/llama-grammar.cpp).

  A pointer into the text is the rest of the text from it on; the text ends with its last byte or at a
  byte 0. An exception is \<open>None\<close>, which \<^verbatim>\<open>parse\<close> catches. The vocabulary, for tokens written by their
  text, is a parameter: \<open>None\<close> is the null pointer, a function gives the tokens of a text.

  The functions \<^verbatim>\<open>parse_alternates\<close> and \<^verbatim>\<open>parse_sequence\<close> call each other for a group in parentheses: the
  depth of the recursion is bounded by \<open>fuel\<close>. The loops have one round for every byte of the text left.
\<close>

abbreviation (input) DQUOTE :: byte where "DQUOTE \<equiv> 34"
abbreviation (input) LBRACKET :: byte where "LBRACKET \<equiv> 91"
abbreviation (input) RBRACKET :: byte where "RBRACKET \<equiv> 93"
abbreviation (input) BACKSLASH :: byte where "BACKSLASH \<equiv> 92"

definition is_digit_char :: "byte \<Rightarrow> bool" where
  "is_digit_char c \<longleftrightarrow> 48 \<le> c \<and> c \<le> 57"

definition is_word_char :: "byte \<Rightarrow> bool" where
  "is_word_char c \<longleftrightarrow> 97 \<le> c \<and> c \<le> 122 \<or> 65 \<le> c \<and> c \<le> 90 \<or> c = 45 \<or> is_digit_char c"

section \<open>Lexical elements\<close>

definition hex_digit :: "byte \<Rightarrow> nat option" where
  "hex_digit c = (if 97 \<le> c \<and> c \<le> 102 then Some (c - 97 + 10)
     else if 65 \<le> c \<and> c \<le> 70 then Some (c - 65 + 10)
     else if 48 \<le> c \<and> c \<le> 57 then Some (c - 48) else None)"

fun parse_hex_loop :: "nat \<Rightarrow> nat \<Rightarrow> byte list \<Rightarrow> (nat \<times> byte list) option" where
  "parse_hex_loop 0 v s = Some (v, s)"
| "parse_hex_loop (Suc n) v [] = None"
| "parse_hex_loop (Suc n) v (c # s) = do {
     d \<leftarrow> hex_digit c;
     parse_hex_loop n (u32 (u32 (push_bit 4 v) + d)) s
   }"

definition parse_hex :: "byte list \<Rightarrow> nat \<Rightarrow> (nat \<times> byte list) option" where
  "parse_hex src n = parse_hex_loop n 0 src"

fun skip_comment :: "byte list \<Rightarrow> byte list" where
  "skip_comment [] = []"
| "skip_comment (c # s) = (if c \<noteq> 0 \<and> c \<noteq> 13 \<and> c \<noteq> 10 then skip_comment s else c # s)"

lemma skip_comment_length: "length (skip_comment s) \<le> length s"
  by (induction s) auto

function parse_space :: "byte list \<Rightarrow> bool \<Rightarrow> byte list" where
  "parse_space [] newline_ok = []"
| "parse_space (c # s) newline_ok =
     (if c = 32 \<or> c = 9 \<or> c = 35 \<or> newline_ok \<and> (c = 13 \<or> c = 10) then
        (if c = 35 then parse_space (skip_comment s) newline_ok else parse_space s newline_ok)
      else c # s)"
  by pat_completeness auto
termination
  by (relation "measure (\<lambda>(s, _). length s)") (auto simp: skip_comment_length le_imp_less_Suc)

definition parse_name :: "byte list \<Rightarrow> (byte list \<times> byte list) option" where
  "parse_name src = (let name = takeWhile is_word_char src in
     if name = [] then None else Some (name, dropWhile is_word_char src))"

definition parse_int :: "byte list \<Rightarrow> (byte list \<times> byte list) option" where
  "parse_int src = (let ds = takeWhile is_digit_char src in
     if ds = [] then None else Some (ds, dropWhile is_digit_char src))"

text \<open>\<^verbatim>\<open>std::stoull\<close> (and \<^verbatim>\<open>std::stoul\<close>, of the same width) of digits.\<close>

definition stoull :: "byte list \<Rightarrow> nat option" where
  "stoull ds = (let v = foldl (\<lambda>v d. v * 10 + (d - 48)) 0 ds in
     if v < 2 ^ 64 then Some v else None)"

definition parse_char :: "byte list \<Rightarrow> (nat \<times> byte list) option" where
  "parse_char src =
     (if peek src = BACKSLASH then
        (let c = peek (tl src); rest = drop 2 src in
         if c = 120 then parse_hex rest 2
         else if c = 117 then parse_hex rest 4
         else if c = 85 then parse_hex rest 8
         else if c = 116 then Some (9, rest)
         else if c = 114 then Some (13, rest)
         else if c = 110 then Some (10, rest)
         else if c = BACKSLASH \<or> c = DQUOTE \<or> c = LBRACKET \<or> c = RBRACKET then Some (c, rest)
         else None)
      else if peek src \<noteq> 0 then Some (decode_utf8 src)
      else None)"

text \<open>A byte that must come next.\<close>

definition expect :: "byte \<Rightarrow> byte list \<Rightarrow> byte list option" where
  "expect c s = (if peek s = c then Some (tl s) else None)"

definition parse_token :: "(byte list \<Rightarrow> llama_token list) option \<Rightarrow> byte list \<Rightarrow> (nat \<times> byte list) option" where
  "parse_token vocab src = do {
     s \<leftarrow> expect 60 src;
     if peek s = LBRACKET then do {
       (ds, s) \<leftarrow> parse_int (tl s);
       v \<leftarrow> stoull ds;
       s \<leftarrow> expect RBRACKET s;
       s \<leftarrow> expect 62 s;
       Some (u32 v, s)
     }
     else do {
       tokenize \<leftarrow> vocab;
       let inner = takeWhile (\<lambda>c. c \<noteq> 0 \<and> c \<noteq> 62) s;
       s \<leftarrow> expect 62 (dropWhile (\<lambda>c. c \<noteq> 0 \<and> c \<noteq> 62) s);
       case tokenize (60 # inner @ [62]) of
         [t] \<Rightarrow> Some (nat (t mod 4294967296), s)
       | _ \<Rightarrow> None
     }
   }"

section \<open>Symbols and rules\<close>

record llama_grammar_parser =
  symbol_ids :: "(byte list \<times> nat) list"
  gp_rules :: llama_grammar_rules

definition get_symbol_id :: "byte list \<Rightarrow> llama_grammar_parser \<Rightarrow> nat \<times> llama_grammar_parser" where
  "get_symbol_id name P =
     (case map_of (symbol_ids P) name of
        Some i \<Rightarrow> (i, P)
      | None \<Rightarrow> (let i = u32 (length (symbol_ids P)) in (i, P\<lparr>symbol_ids := symbol_ids P @ [(name, i)]\<rparr>)))"

fun decimal :: "nat \<Rightarrow> byte list" where
  "decimal n = (if n < 10 then [48 + n] else decimal (n div 10) @ [48 + n mod 10])"

declare decimal.simps [simp del]

definition generate_symbol_id :: "byte list \<Rightarrow> llama_grammar_parser \<Rightarrow> nat \<times> llama_grammar_parser" where
  "generate_symbol_id base_name P =
     (let next_id = u32 (length (symbol_ids P)) in
      (next_id, P\<lparr>symbol_ids := AList.update (base_name @ 95 # decimal next_id) next_id (symbol_ids P)\<rparr>))"

definition add_rule :: "nat \<Rightarrow> llama_grammar_rule \<Rightarrow> llama_grammar_parser \<Rightarrow> llama_grammar_parser" where
  "add_rule rule_id rule P =
     (let rs = gp_rules P; rs = rs @ replicate (rule_id + 1 - length rs) [] in
      P\<lparr>gp_rules := rs[rule_id := rule]\<rparr>)"

section \<open>Repetitions\<close>

definition UINT64_MAX :: nat where
  "UINT64_MAX = 18446744073709551615"

definition MAX_REPETITION_THRESHOLD :: nat where
  "MAX_REPETITION_THRESHOLD = 2000"

text \<open>One round of the loop that adds the rules \<open>S'\<close>; the first component is \<^verbatim>\<open>last_rec_rule_id\<close>.\<close>

definition rec_step :: "byte list \<Rightarrow> llama_grammar_rule \<Rightarrow> bool \<Rightarrow> nat \<Rightarrow> nat \<times> llama_grammar_parser
    \<Rightarrow> nat \<times> llama_grammar_parser" where
  "rec_step rule_name prev_rule no_max i = (\<lambda>(last_id, P).
     (let (rec_id, P) = generate_symbol_id rule_name P;
          rec_rule = prev_rule @
            (if i > 0 \<or> no_max then [elem LLAMA_GRETYPE_RULE_REF (if no_max then rec_id else last_id)] else []) @
            [elem LLAMA_GRETYPE_ALT 0, elem LLAMA_GRETYPE_END 0]
      in (rec_id, add_rule rec_id rec_rule P)))"

text \<open>The number of rounds, in 64-bit arithmetic.\<close>

definition n_optional :: "nat \<Rightarrow> nat \<Rightarrow> nat" where
  "n_optional min_times max_times =
     (if max_times = UINT64_MAX then 1 else (max_times + 2 ^ 64 - min_times) mod 2 ^ 64)"

definition handle_repetitions :: "byte list \<Rightarrow> nat \<Rightarrow> nat \<Rightarrow> nat \<Rightarrow> llama_grammar_rule \<Rightarrow> llama_grammar_parser
    \<Rightarrow> (llama_grammar_rule \<times> llama_grammar_parser) option" where
  "handle_repetitions rule_name last_sym_start min_times max_times rule P = do {
     check (last_sym_start \<noteq> length rule);
     let no_max = (max_times = UINT64_MAX);
     let prev_rule = drop last_sym_start rule;
     let rule = (if min_times = 0 then take last_sym_start rule
                 else rule @ concat (replicate (min_times - 1) prev_rule));
     let n_opt = n_optional min_times max_times;
     let (last_id, P) = fold (rec_step rule_name prev_rule no_max) [0..<n_opt] (0, P);
     Some (if n_opt > 0 then rule @ [elem LLAMA_GRETYPE_RULE_REF last_id] else rule, P)
   }"


section \<open>Sequences\<close>

text \<open>The characters of a literal up to the closing quote; \<open>n\<close> bounds the rounds.\<close>

fun literal_loop :: "nat \<Rightarrow> byte list \<Rightarrow> llama_grammar_rule \<Rightarrow> (byte list \<times> llama_grammar_rule) option" where
  "literal_loop 0 s rule = None"
| "literal_loop (Suc n) s rule =
     (if peek s = DQUOTE then Some (s, rule)
      else if peek s = 0 then None
      else do {
        (c, s) \<leftarrow> parse_char s;
        literal_loop n s (rule @ [elem LLAMA_GRETYPE_CHAR c])
      })"

text \<open>The characters and ranges of a class up to the closing bracket.\<close>

fun class_loop :: "nat \<Rightarrow> llama_gretype \<Rightarrow> nat \<Rightarrow> byte list \<Rightarrow> llama_grammar_rule
    \<Rightarrow> (byte list \<times> llama_grammar_rule) option" where
  "class_loop 0 start_type last_sym_start s rule = None"
| "class_loop (Suc n) start_type last_sym_start s rule =
     (if peek s = RBRACKET then Some (s, rule)
      else if peek s = 0 then None
      else do {
        (c, s) \<leftarrow> parse_char s;
        let rule = rule @ [elem (if last_sym_start < length rule then LLAMA_GRETYPE_CHAR_ALT else start_type) c];
        if peek s = 45 \<and> peek (tl s) \<noteq> RBRACKET then do {
          check (peek (tl s) \<noteq> 0);
          (c2, s) \<leftarrow> parse_char (tl s);
          class_loop n start_type last_sym_start s (rule @ [elem LLAMA_GRETYPE_CHAR_RNG_UPPER c2])
        }
        else class_loop n start_type last_sym_start s rule
      })"

text \<open>The bounds of a repetition in braces.\<close>

definition parse_bounds :: "byte list \<Rightarrow> bool \<Rightarrow> (nat \<times> nat \<times> byte list) option" where
  "parse_bounds s nested = do {
     check (is_digit_char (peek s));
     (ds, s) \<leftarrow> parse_int s;
     min_times \<leftarrow> stoull ds;
     let s = parse_space s nested;
     (max_times, s) \<leftarrow>
       (if peek s = 125 then Some (min_times, parse_space (tl s) nested)
        else if peek s = 44 then do {
          let s = parse_space (tl s) nested;
          (max_times, s) \<leftarrow>
            (if is_digit_char (peek s) then do {
               (ds, s) \<leftarrow> parse_int s;
               m \<leftarrow> stoull ds;
               Some (m, parse_space s nested)
             }
             else Some (UINT64_MAX, s));
          s \<leftarrow> expect 125 s;
          Some (max_times, parse_space s nested)
        }
        else None);
     check (\<not> (min_times > MAX_REPETITION_THRESHOLD \<or> max_times \<noteq> UINT64_MAX \<and> max_times > MAX_REPETITION_THRESHOLD));
     Some (min_times, max_times, s)
   }"

text \<open>
  One round of \<^verbatim>\<open>parse_sequence\<close>. The state of the loop is the rest of the text, the rule, \<^verbatim>\<open>last_sym_start\<close>
  and the parser; \<open>Some None\<close> leaves the loop. \<open>alt\<close> is the call of \<^verbatim>\<open>parse_alternates\<close> for a group.
\<close>

type_synonym seq_state = "byte list \<times> llama_grammar_rule \<times> nat \<times> llama_grammar_parser"

definition repeat_last :: "byte list \<Rightarrow> nat \<Rightarrow> nat \<Rightarrow> seq_state \<Rightarrow> seq_state option option" where
  "repeat_last rule_name min_times max_times = (\<lambda>(s, rule, last_sym_start, P).
     map_option (\<lambda>(rule, P). Some (s, rule, last_sym_start, P))
       (handle_repetitions rule_name last_sym_start min_times max_times rule P))"

definition push_element :: "byte list \<Rightarrow> llama_gretype \<Rightarrow> nat \<Rightarrow> llama_grammar_rule \<Rightarrow> llama_grammar_parser
    \<Rightarrow> seq_state option option" where
  "push_element s t v rule P = Some (Some (s, rule @ [elem t v], length rule, P))"

definition parse_item :: "(byte list \<Rightarrow> nat \<Rightarrow> llama_grammar_parser \<Rightarrow> (byte list \<times> llama_grammar_parser) option)
    \<Rightarrow> (byte list \<Rightarrow> llama_token list) option \<Rightarrow> byte list \<Rightarrow> bool \<Rightarrow> seq_state \<Rightarrow> seq_state option option" where
  "parse_item alt vocab rule_name is_nested = (\<lambda>(s, rule, last_sym_start, P).
     (if peek s = DQUOTE then do {
        (s, rule') \<leftarrow> literal_loop (Suc (length s)) (tl s) rule;
        Some (Some (parse_space (tl s) is_nested, rule', length rule, P))
      }
      else if peek s = LBRACKET then do {
        let s = tl s;
        let (start_type, s) = (if peek s = 94 then (LLAMA_GRETYPE_CHAR_NOT, tl s) else (LLAMA_GRETYPE_CHAR, s));
        (s, rule') \<leftarrow> class_loop (Suc (length s)) start_type (length rule) s rule;
        Some (Some (parse_space (tl s) is_nested, rule', length rule, P))
      }
      else if peek s = 60 \<or> peek s = 33 then do {
        let (t, s) = (if peek s = 33 then (LLAMA_GRETYPE_TOKEN_NOT, tl s) else (LLAMA_GRETYPE_TOKEN, s));
        (v, s) \<leftarrow> parse_token vocab s;
        push_element (parse_space s is_nested) t v rule P
      }
      else if is_word_char (peek s) then do {
        (name, s) \<leftarrow> parse_name s;
        let (ref_rule_id, P) = get_symbol_id name P;
        push_element (parse_space s is_nested) LLAMA_GRETYPE_RULE_REF ref_rule_id rule P
      }
      else if peek s = 40 then do {
        let s = parse_space (tl s) True;
        let (sub_rule_id, P) = generate_symbol_id rule_name P;
        (s, P) \<leftarrow> alt s sub_rule_id P;
        s \<leftarrow> expect 41 s;
        push_element (parse_space s is_nested) LLAMA_GRETYPE_RULE_REF sub_rule_id rule P
      }
      else if peek s = 46 then push_element (parse_space (tl s) is_nested) LLAMA_GRETYPE_CHAR_ANY 0 rule P
      else if peek s = 42 then repeat_last rule_name 0 UINT64_MAX (parse_space (tl s) is_nested, rule, last_sym_start, P)
      else if peek s = 43 then repeat_last rule_name 1 UINT64_MAX (parse_space (tl s) is_nested, rule, last_sym_start, P)
      else if peek s = 63 then repeat_last rule_name 0 1 (parse_space (tl s) is_nested, rule, last_sym_start, P)
      else if peek s = 123 then do {
        (min_times, max_times, s) \<leftarrow> parse_bounds (parse_space (tl s) is_nested) is_nested;
        repeat_last rule_name min_times max_times (s, rule, last_sym_start, P)
      }
      else Some None))"

fun sequence_loop :: "(seq_state \<Rightarrow> seq_state option option) \<Rightarrow> nat \<Rightarrow> seq_state \<Rightarrow> seq_state option" where
  "sequence_loop item 0 st = None"
| "sequence_loop item (Suc n) st =
     (if peek (fst st) = 0 then Some st
      else do {
        next_st \<leftarrow> item st;
        case next_st of None \<Rightarrow> Some st | Some st \<Rightarrow> sequence_loop item n st
      })"

definition parse_sequence :: "(byte list \<Rightarrow> nat \<Rightarrow> llama_grammar_parser \<Rightarrow> (byte list \<times> llama_grammar_parser) option)
    \<Rightarrow> (byte list \<Rightarrow> llama_token list) option \<Rightarrow> byte list \<Rightarrow> bool \<Rightarrow> byte list \<Rightarrow> llama_grammar_rule
    \<Rightarrow> llama_grammar_parser \<Rightarrow> (byte list \<times> llama_grammar_rule \<times> llama_grammar_parser) option" where
  "parse_sequence alt vocab rule_name is_nested src rule P =
     map_option (\<lambda>(s, rule, _, P). (s, rule, P))
       (sequence_loop (parse_item alt vocab rule_name is_nested) (Suc (length src)) (src, rule, length rule, P))"

section \<open>Alternates, rules, the whole text\<close>

fun alternates_loop :: "(byte list \<Rightarrow> llama_grammar_rule \<Rightarrow> llama_grammar_parser
      \<Rightarrow> (byte list \<times> llama_grammar_rule \<times> llama_grammar_parser) option)
    \<Rightarrow> nat \<Rightarrow> byte list \<times> llama_grammar_rule \<times> llama_grammar_parser
    \<Rightarrow> (byte list \<times> llama_grammar_rule \<times> llama_grammar_parser) option" where
  "alternates_loop sequence 0 st = None"
| "alternates_loop sequence (Suc n) (s, rule, P) =
     (if peek s = 124 then do {
        st \<leftarrow> sequence (parse_space (tl s) True) (rule @ [elem LLAMA_GRETYPE_ALT 0]) P;
        alternates_loop sequence n st
      }
      else Some (s, rule, P))"

fun parse_alternates :: "nat \<Rightarrow> (byte list \<Rightarrow> llama_token list) option \<Rightarrow> byte list \<Rightarrow> bool \<Rightarrow> byte list \<Rightarrow> nat
    \<Rightarrow> llama_grammar_parser \<Rightarrow> (byte list \<times> llama_grammar_parser) option" where
  "parse_alternates 0 vocab rule_name is_nested src rule_id P = None"
| "parse_alternates (Suc fuel) vocab rule_name is_nested src rule_id P = do {
     let sequence = parse_sequence (parse_alternates fuel vocab rule_name True) vocab rule_name is_nested;
     (s, rule, P) \<leftarrow> sequence src [] P;
     (s, rule, P) \<leftarrow> alternates_loop sequence (Suc (length s)) (s, rule, P);
     Some (s, add_rule rule_id (rule @ [elem LLAMA_GRETYPE_END 0]) P)
   }"

definition parse_rule :: "(byte list \<Rightarrow> llama_token list) option \<Rightarrow> byte list \<Rightarrow> llama_grammar_parser
    \<Rightarrow> (byte list \<times> llama_grammar_parser) option" where
  "parse_rule vocab src P = do {
     (name, s) \<leftarrow> parse_name src;
     let s = parse_space s False;
     let (rule_id, P) = get_symbol_id name P;
     s \<leftarrow> expect 58 s;
     s \<leftarrow> expect 58 s;
     s \<leftarrow> expect 61 s;
     let s = parse_space s True;
     (s, P) \<leftarrow> parse_alternates (Suc (length s)) vocab name False s rule_id P;
     s \<leftarrow> (if peek s = 13 then Some (if peek (tl s) = 10 then drop 2 s else tl s)
          else if peek s = 10 then Some (tl s)
          else if peek s \<noteq> 0 then None
          else Some s);
     Some (parse_space s True, P)
   }"

fun rules_loop :: "nat \<Rightarrow> (byte list \<Rightarrow> llama_token list) option \<Rightarrow> byte list \<times> llama_grammar_parser
    \<Rightarrow> llama_grammar_parser option" where
  "rules_loop 0 vocab (s, P) = None"
| "rules_loop (Suc n) vocab (s, P) =
     (if peek s = 0 then Some P
      else do {
        st \<leftarrow> parse_rule vocab s P;
        rules_loop n vocab st
      })"

text \<open>The check that all rules are defined.\<close>

definition undefined_ref :: "llama_grammar_parser \<Rightarrow> llama_grammar_element \<Rightarrow> bool" where
  "undefined_ref P e \<longleftrightarrow> ge_type e = LLAMA_GRETYPE_RULE_REF \<and>
     (ge_value e \<ge> length (gp_rules P) \<or> gp_rules P ! ge_value e = []) \<and> ge_value e \<in> snd ` set (symbol_ids P)"

definition rules_defined :: "llama_grammar_parser \<Rightarrow> bool" where
  "rules_defined P \<longleftrightarrow> list_all (\<lambda>rule. rule \<noteq> [] \<and> list_all (\<lambda>e. \<not> undefined_ref P e) rule) (gp_rules P)"

text \<open>\<open>None\<close> is the result \<open>false\<close>, after an exception.\<close>

definition parse :: "(byte list \<Rightarrow> llama_token list) option \<Rightarrow> byte list \<Rightarrow> llama_grammar_parser option" where
  "parse vocab src = do {
     let s = parse_space src True;
     P \<leftarrow> rules_loop (Suc (length s)) vocab (s, \<lparr>symbol_ids = [], gp_rules = []\<rparr>);
     check (rules_defined P);
     Some P
   }"

text \<open>The initialisation from a grammar text.\<close>

definition llama_grammar_init_str :: "nat \<Rightarrow> (byte list \<Rightarrow> llama_token list) option \<Rightarrow> byte list \<Rightarrow> byte list
    \<Rightarrow> bool \<Rightarrow> byte list list \<Rightarrow> llama_token list \<Rightarrow> llama_grammar option option" where
  "llama_grammar_init_str fuel vocab grammar_str grammar_root lazy patterns tokens =
     (case parse vocab grammar_str of
        None \<Rightarrow> Some None
      | Some P \<Rightarrow>
          (if gp_rules P = [] then Some None
           else case map_of (symbol_ids P) grammar_root of
             None \<Rightarrow> Some None
           | Some start \<Rightarrow> do {
               g \<leftarrow> llama_grammar_init_impl fuel (gp_rules P) start;
               Some (map_option (\<lambda>g. g\<lparr>gr_lazy := lazy, gr_awaiting_trigger := lazy,
                 gr_trigger_tokens := tokens, gr_trigger_patterns := patterns\<rparr>) g)
             }))"

end
