(* ===== verification/Grammar_Parse_Ok.thy ===== *)
theory Grammar_Parse_Ok
  imports Grammar_Parser
begin

text \<open>
  The rules of a text that is parsed are well-formed, and the bounds on the loops and on the recursion of
  the parser are enough: every round consumes a byte.
\<close>

section \<open>Every round consumes text\<close>

named_theorems consumes \<open>what a function leaves of the text\<close>

lemma parse_space_length [consumes]: "length (parse_space s b) \<le> length s"
proof (induction s b rule: parse_space.induct)
  case (2 c s b)
  then show ?case using skip_comment_length [of s] by (auto intro: le_SucI order_trans)
qed simp

lemma tl_less: "peek s \<noteq> 0 \<Longrightarrow> length (tl s) < length s"
  by (cases s) auto

lemma expect_less: "expect c s = Some s' \<Longrightarrow> c \<noteq> 0 \<Longrightarrow> length s' < length s"
  by (cases s) (auto simp: expect_def split: if_splits)

lemma decode_tail_length: "length (snd (decode_tail v n s)) \<le> length s"
  by (induction v n s rule: decode_tail.induct) auto

lemma parse_hex_loop_length: "parse_hex_loop n v s = Some (w, s') \<Longrightarrow> length s' \<le> length s"
  by (induction n v s rule: parse_hex_loop.induct) (auto split: bind_splits)

lemma parse_char_less:
  assumes "parse_char s = Some (c, s')"
  shows "length s' < length s"
proof (cases "peek s = 92")
  case True
  then have "s \<noteq> []" by (cases s) auto
  then have "length (drop 2 s) < length s" by simp
  moreover have "length s' \<le> length (drop 2 s)"
    using assms True
    by (auto simp: parse_char_def parse_hex_def Let_def split: if_splits dest!: parse_hex_loop_length)
  ultimately show ?thesis by simp
next
  case False
  with assms have "peek s \<noteq> 0" and d: "decode_utf8 s = (c, s')" by (auto simp: parse_char_def split: if_splits)
  then have "length (tl s) < length s" by (intro tl_less) simp
  moreover have "length s' \<le> length (tl s)"
    using d decode_tail_length by (metis decode_utf8_def snd_conv)
  ultimately show ?thesis by simp
qed

lemma dropWhile_length: "length (dropWhile P s) \<le> length s"
  by (induction s) auto

lemma parse_name_less: "parse_name s = Some (n, s') \<Longrightarrow> length s' < length s"
  by (cases s) (auto simp: parse_name_def Let_def le_imp_less_Suc dropWhile_length split: if_splits)

lemma parse_int_less: "parse_int s = Some (n, s') \<Longrightarrow> length s' < length s"
  by (cases s) (auto simp: parse_int_def Let_def le_imp_less_Suc dropWhile_length split: if_splits)

lemma parse_token_less:
  assumes "parse_token vocab s = Some (v, s')"
  shows "length s' < length s"
proof -
  from assms obtain s1 where s1: "expect 60 s = Some s1" by (auto simp: parse_token_def split: bind_splits)
  then have "length s1 < length s" by (simp add: expect_less)
  moreover have "length s' \<le> length s1"
  proof (cases "peek s1 = 91")
    case True
    with assms s1 obtain ds s2 s3 s4 where
      "parse_int (tl s1) = Some (ds, s2)" "expect 93 s2 = Some s3" "expect 62 s3 = Some s4" "s' = s4"
      by (auto simp: parse_token_def split: bind_splits)
    then show ?thesis using parse_int_less expect_less [of 93 s2] expect_less [of 62 s3]
      by (metis length_tl diff_le_self less_imp_le order_trans zero_neq_numeral)
  next
    case False
    with assms s1 obtain ts where
      "expect 62 (dropWhile (\<lambda>c. c \<noteq> 0 \<and> c \<noteq> 62) s1) = Some ts" "s' = ts"
      by (auto simp: parse_token_def Let_def split: bind_splits list.splits)
    then show ?thesis using expect_less [of 62 "dropWhile (\<lambda>c. c \<noteq> 0 \<and> c \<noteq> 62) s1" ts]
        dropWhile_length [of "\<lambda>c. c \<noteq> 0 \<and> c \<noteq> 62" s1] by simp
  qed
  ultimately show ?thesis by simp
qed

lemma literal_loop_length: "literal_loop n s rule = Some (s', rule') \<Longrightarrow> length s' \<le> length s"
proof (induction n s rule rule: literal_loop.induct)
  case (2 n s rule)
  then show ?case by (auto split: if_splits bind_splits dest!: parse_char_less) (metis le_trans less_imp_le)
qed simp

lemma class_loop_length: "class_loop n t l s rule = Some (s', rule') \<Longrightarrow> length s' \<le> length s"
proof (induction n arbitrary: s rule)
  case (Suc n)
  consider "peek s = 93" "s' = s"
    | c s1 rule1 where "parse_char s = Some (c, s1)" "class_loop n t l s1 rule1 = Some (s', rule')"
    | c s1 c2 s2 rule1 where "parse_char s = Some (c, s1)" "peek s1 = 45" "parse_char (tl s1) = Some (c2, s2)" "class_loop n t l s2 rule1 = Some (s', rule')"
    using Suc.prems by (auto simp: Let_def split: if_splits bind_splits)
  then show ?case
  proof cases
    case 2
    with Suc.IH [OF 2(2)] parse_char_less [OF 2(1)] show ?thesis by simp
  next
    case 3
    from Suc.IH [OF 3(4)] parse_char_less [OF 3(1)] parse_char_less [OF 3(3)] show ?thesis by simp
  qed simp
qed simp

lemma parse_bounds_length:
  assumes "parse_bounds s nested = Some (a, b, s')"
  shows "length s' \<le> length s"
proof -
  from assms obtain ds s1 m where s1: "parse_int s = Some (ds, s1)" "stoull ds = Some m"
    by (auto simp: parse_bounds_def split: bind_splits)
  let ?s2 = "parse_space s1 nested"
  have "length s1 \<le> length s" using parse_int_less [OF s1(1)] by simp
  then have s2: "length ?s2 \<le> length s" using parse_space_length [of s1 nested] by simp
  consider "s' = parse_space (tl ?s2) nested"
    | s3 where "expect 125 (parse_space (tl ?s2) nested) = Some s3" "s' = parse_space s3 nested"
    | s3 ds4 s4 where "parse_int (parse_space (tl ?s2) nested) = Some (ds4, s4)" "expect 125 (parse_space s4 nested) = Some s3" "s' = parse_space s3 nested"
    using assms s1 by (auto simp: parse_bounds_def Let_def split: bind_splits if_splits)
  then show ?thesis
  proof cases
    case 1
    then show ?thesis using parse_space_length [of "tl ?s2" nested] s2 by simp
  next
    case 2
    then show ?thesis using parse_space_length [of "tl ?s2" nested] parse_space_length [of s3 nested]
        expect_less [OF 2(1)] s2 by simp
  next
    case 3
    then show ?thesis using parse_space_length [of "tl ?s2" nested] parse_space_length [of s3 nested]
        parse_space_length [of s4 nested] parse_int_less [OF 3(1)] expect_less [OF 3(2)] s2 by simp
  qed
qed

text \<open>A call for a group that leaves no more text than it gets.\<close>

definition consuming :: "(byte list \<Rightarrow> nat \<Rightarrow> llama_grammar_parser \<Rightarrow> (byte list \<times> llama_grammar_parser) option) \<Rightarrow> bool" where
  "consuming alt \<longleftrightarrow> (\<forall>s i P s' P'. alt s i P = Some (s', P') \<longrightarrow> length s' \<le> length s)"

lemma parse_item_less:
  assumes "consuming alt" and "peek s \<noteq> 0"
    and "parse_item alt vocab name nested (s, rule, l, P) = Some (Some (s', rule', l', P'))"
  shows "length s' < length s"
proof -
  have tl: "length (tl s) < length s" using assms(2) by (rule tl_less)
  consider
      "peek s = 34" | "peek s = 91" | "peek s = 60 \<or> peek s = 33" | "is_word_char (peek s)" "\<not> (peek s = 34 \<or> peek s = 91 \<or> peek s = 60 \<or> peek s = 33)"
    | "peek s = 40" | "peek s = 46" | "peek s = 42" | "peek s = 43" | "peek s = 63" | "peek s = 123"
    using assms(3) by (auto simp: parse_item_def split: if_splits)
  then show ?thesis
  proof cases
    case 1
    with assms(3) obtain s1 r1 where "literal_loop (Suc (length s)) (tl s) rule = Some (s1, r1)" "s' = parse_space (tl s1) nested"
      by (auto simp: parse_item_def simp del: literal_loop.simps split: bind_splits)
    then show ?thesis using literal_loop_length parse_space_length [of "tl s1" nested] tl by fastforce
  next
    case 2
    obtain t s0 where t: "(if peek (tl s) = 94 then (LLAMA_GRETYPE_CHAR_NOT, tl (tl s)) else (LLAMA_GRETYPE_CHAR, tl s)) = (t, s0)" by fastforce
    then have s0: "length s0 \<le> length (tl s)" by (auto split: if_splits)
    from 2 t assms(3) obtain s1 r1 where "class_loop (Suc (length s0)) t (length rule) s0 rule = Some (s1, r1)" "s' = parse_space (tl s1) nested"
      by (auto simp: parse_item_def Let_def simp del: class_loop.simps split: bind_splits)
    then show ?thesis using class_loop_length parse_space_length [of "tl s1" nested] tl s0 by fastforce
  next
    case 3
    obtain t s0 where t: "(if peek s = 33 then (LLAMA_GRETYPE_TOKEN_NOT, tl s) else (LLAMA_GRETYPE_TOKEN, s)) = (t, s0)" by fastforce
    then have s0: "length s0 \<le> length s" using tl by (auto split: if_splits)
    from 3 t assms(3) obtain v s1 where "parse_token vocab s0 = Some (v, s1)" "s' = parse_space s1 nested"
      by (auto simp: parse_item_def push_element_def split: bind_splits)
    then show ?thesis using parse_token_less [of vocab s0 v s1] parse_space_length [of s1 nested] s0 by simp
  next
    case 4
    then have "peek s \<noteq> 40" "peek s \<noteq> 46" by (auto simp: is_word_char_def is_digit_char_def)
    with 4 assms(3) obtain n s1 where "parse_name s = Some (n, s1)" "s' = parse_space s1 nested"
      by (auto simp: parse_item_def push_element_def split: bind_splits prod.splits)
    then show ?thesis using parse_name_less [of s n s1] parse_space_length [of s1 nested] by simp
  next
    case 5
    then have "\<not> is_word_char (peek s)" by (auto simp: is_word_char_def is_digit_char_def)
    with 5 assms(3) obtain i P1 s1 P2 s2 where "alt (parse_space (tl s) True) i P1 = Some (s1, P2)" "expect 41 s1 = Some s2" "s' = parse_space s2 nested"
      by (auto simp: parse_item_def push_element_def Let_def split: bind_splits prod.splits)
    then show ?thesis using assms(1) expect_less [of 41 s1 s2] parse_space_length [of s2 nested] parse_space_length [of "tl s" True] tl
      unfolding consuming_def by fastforce
  next
    case 10
    then have "\<not> is_word_char (peek s)" by (auto simp: is_word_char_def is_digit_char_def)
    with 10 assms(3) obtain a b s1 where "parse_bounds (parse_space (tl s) nested) nested = Some (a, b, s1)" "s' = s1"
      by (auto simp: parse_item_def repeat_last_def split: bind_splits prod.splits)
    then show ?thesis using parse_bounds_length [of "parse_space (tl s) nested" nested a b s1] parse_space_length [of "tl s" nested] tl by simp
  qed (use assms(3) tl parse_space_length [of "tl s" nested] in
    \<open>auto simp: parse_item_def repeat_last_def push_element_def is_word_char_def is_digit_char_def split: prod.splits\<close>)
qed


lemma sequence_loop_consumes:
  assumes "\<And>st st'. peek (fst st) \<noteq> 0 \<Longrightarrow> item st = Some (Some st') \<Longrightarrow> length (fst st') < length (fst st)"
    and "sequence_loop item n st = Some st'"
  shows "length (fst st') \<le> length (fst st)"
  using assms(2)
proof (induction n arbitrary: st)
  case (Suc n)
  show ?case
  proof (cases "peek (fst st) = 0")
    case False
    with Suc.prems obtain o1 where o1: "item st = Some o1" by (auto split: bind_splits)
    show ?thesis
    proof (cases o1)
      case (Some st1)
      with Suc.prems False o1 have "sequence_loop item n st1 = Some st'" by simp
      from Suc.IH [OF this] assms(1) [OF False] o1 Some show ?thesis by fastforce
    qed (use Suc.prems False o1 in simp)
  qed (use Suc.prems in simp)
qed simp

lemma parse_sequence_consumes:
  assumes "consuming alt" and "parse_sequence alt vocab name nested s rule P = Some (s', rule', P')"
  shows "length s' \<le> length s"
proof -
  from assms(2) obtain l where "sequence_loop (parse_item alt vocab name nested) (Suc (length s)) (s, rule, length rule, P)
      = Some (s', rule', l, P')" by (auto simp: parse_sequence_def)
  from sequence_loop_consumes [OF _ this] parse_item_less [OF assms(1)] show ?thesis
    by (metis fst_conv prod.exhaust_sel)
qed

lemma alternates_loop_consumes:
  assumes "\<And>s r P s' r' P'. sequence s r P = Some (s', r', P') \<Longrightarrow> length s' \<le> length s"
    and "alternates_loop sequence n (s, r, P) = Some (s', r', P')"
  shows "length s' \<le> length s"
  using assms(2)
proof (induction n arbitrary: s r P)
  case (Suc n)
  show ?case
  proof (cases "peek s = 124")
    case True
    with Suc.prems obtain s1 r1 P1 where s1: "sequence (parse_space (tl s) True) (r @ [elem LLAMA_GRETYPE_ALT 0]) P = Some (s1, r1, P1)"
      "alternates_loop sequence n (s1, r1, P1) = Some (s', r', P')" by (auto split: bind_splits)
    from Suc.IH [OF s1(2)] assms(1) [OF s1(1)] parse_space_length [of "tl s" True] show ?thesis by simp
  qed (use Suc.prems in simp)
qed simp

lemma parse_alternates_consuming: "consuming (parse_alternates fuel vocab name nested)"
proof (induction fuel arbitrary: nested)
  case 0
  then show ?case by (simp add: consuming_def)
next
  case (Suc fuel)
  show ?case
    unfolding consuming_def
  proof (intro allI impI)
    fix s i P s' P'
    let ?seq = "parse_sequence (parse_alternates fuel vocab name True) vocab name nested"
    assume "parse_alternates (Suc fuel) vocab name nested s i P = Some (s', P')"
    then obtain s1 r1 P1 r2 P2 where s1: "?seq s [] P = Some (s1, r1, P1)"
      "alternates_loop ?seq (Suc (length s1)) (s1, r1, P1) = Some (s', r2, P2)"
      by (auto simp: Let_def simp del: alternates_loop.simps split: bind_splits)
    have seq: "length s' \<le> length s" if "?seq s r P = Some (s', r', P')" for s r P s' r' P'
      using parse_sequence_consumes [OF Suc.IH that] .
    have "length s' \<le> length s1" by (rule alternates_loop_consumes [OF _ s1(2)]) (erule seq)
    with seq [OF s1(1)] show "length s' \<le> length s" by simp
  qed
qed

section \<open>The bounds are enough\<close>

text \<open>More rounds do not change the result of a loop.\<close>

lemma literal_loop_enough:
  "length s < n \<Longrightarrow> length s < m \<Longrightarrow> literal_loop n s rule = literal_loop m s rule"
proof (induction n arbitrary: m s rule)
  case (Suc n)
  obtain k where m: "m = Suc k" using Suc.prems by (cases m) auto
  have "literal_loop n s1 r = literal_loop k s1 r" if "parse_char s = Some (c, s1)" for c s1 r
    using Suc.IH [of s1 k r] Suc.prems parse_char_less [OF that] m by simp
  then show ?case using m by (auto intro!: Option.bind_cong)
qed simp

lemma class_loop_enough:
  "length s < n \<Longrightarrow> length s < m \<Longrightarrow> class_loop n t l s rule = class_loop m t l s rule"
proof (induction n arbitrary: m s rule)
  case (Suc n)
  obtain k where m: "m = Suc k" using Suc.prems by (cases m) auto
  have "class_loop n t l s1 r = class_loop k t l s1 r" if "parse_char s = Some (c, s1)" for c s1 r
    using Suc.IH [of s1 k r] Suc.prems parse_char_less [OF that] m by simp
  moreover have "class_loop n t l s2 r = class_loop k t l s2 r"
    if "parse_char s = Some (c, s1)" "parse_char (tl s1) = Some (c2, s2)" for c s1 c2 s2 r
    using Suc.IH [of s2 k r] Suc.prems parse_char_less [OF that(1)] parse_char_less [OF that(2)] m by simp
  ultimately show ?case using m by (auto simp: Let_def intro!: Option.bind_cong)
qed simp

lemma sequence_loop_enough:
  assumes "\<And>st st'. peek (fst st) \<noteq> 0 \<Longrightarrow> item st = Some (Some st') \<Longrightarrow> length (fst st') < length (fst st)"
  shows "length (fst st) < n \<Longrightarrow> length (fst st) < m \<Longrightarrow> sequence_loop item n st = sequence_loop item m st"
proof (induction n arbitrary: m st)
  case (Suc n)
  obtain k where m: "m = Suc k" using Suc.prems by (cases m) auto
  have "sequence_loop item n st' = sequence_loop item k st'" if "peek (fst st) \<noteq> 0" "item st = Some (Some st')" for st'
    using Suc.IH [of st' k] Suc.prems assms [OF that] m by simp
  then show ?case using m by (auto intro!: Option.bind_cong split: option.splits)
qed simp

lemma alternates_loop_enough:
  assumes "\<And>s r P s' r' P'. sequence s r P = Some (s', r', P') \<Longrightarrow> length s' \<le> length s"
  shows "length s < n \<Longrightarrow> length s < m \<Longrightarrow> alternates_loop sequence n (s, r, P) = alternates_loop sequence m (s, r, P)"
proof (induction n arbitrary: m s r P)
  case (Suc n)
  obtain k where m: "m = Suc k" using Suc.prems by (cases m) auto
  show ?case
  proof (cases "peek s = 124")
    case True
    then have "length (tl s) < length s" by (intro tl_less) simp
    then have "alternates_loop sequence n st = alternates_loop sequence k st"
      if "sequence (parse_space (tl s) True) (r @ [elem LLAMA_GRETYPE_ALT 0]) P = Some st" for st
      using Suc.IH [of "fst st" k "fst (snd st)" "snd (snd st)"] Suc.prems m parse_space_length [of "tl s" True]
        assms [of _ _ _ "fst st" "fst (snd st)" "snd (snd st)"] that by fastforce
    then show ?thesis using m True by (auto intro!: Option.bind_cong)
  qed (simp add: m)
qed simp

text \<open>A group is a shorter text: calls that agree on shorter texts give the same round.\<close>

lemma parse_item_cong:
  assumes "peek s \<noteq> 0" and "\<And>s1 i P. length s1 < length s \<Longrightarrow> alt s1 i P = alt' s1 i P"
  shows "parse_item alt vocab name nested (s, rule, l, P) = parse_item alt' vocab name nested (s, rule, l, P)"
proof -
  have "length (parse_space (tl s) True) < length s"
    using parse_space_length [of "tl s" True] tl_less [OF assms(1)] by simp
  from assms(2) [OF this] show ?thesis by (simp add: parse_item_def Let_def split: prod.split)
qed

lemma sequence_loop_cong:
  assumes "consuming alt" and "\<And>s1 i P. length s1 < b \<Longrightarrow> alt s1 i P = alt' s1 i P"
  shows "length (fst st) \<le> b \<Longrightarrow>
    sequence_loop (parse_item alt vocab name nested) n st = sequence_loop (parse_item alt' vocab name nested) n st"
proof (induction n arbitrary: st)
  case (Suc n)
  obtain s r l P where st: "st = (s, r, l, P)" by (cases st)
  show ?case
  proof (cases "peek s = 0")
    case False
    have "parse_item alt vocab name nested (s, r, l, P) = parse_item alt' vocab name nested (s, r, l, P)"
      by (rule parse_item_cong [OF False assms(2)]) (use Suc.prems st in simp)
    moreover have "sequence_loop (parse_item alt vocab name nested) n st' = sequence_loop (parse_item alt' vocab name nested) n st'"
      if "parse_item alt vocab name nested (s, r, l, P) = Some (Some st')" for st'
    proof -
      obtain s1 r1 l1 P1 where st': "st' = (s1, r1, l1, P1)" by (cases st')
      with parse_item_less [OF assms(1) False] that have "length s1 < length s" by blast
      with Suc.IH [of st'] Suc.prems st st' show ?thesis by simp
    qed
    ultimately show ?thesis by (auto simp: st intro!: Option.bind_cong split: option.splits)
  qed (simp add: st)
qed simp

lemma alternates_loop_cong:
  assumes "\<And>s1 r P. length s1 \<le> b \<Longrightarrow> sequence s1 r P = sequence' s1 r P"
    and "\<And>s r P s' r' P'. sequence s r P = Some (s', r', P') \<Longrightarrow> length s' \<le> length s"
  shows "length s \<le> b \<Longrightarrow> alternates_loop sequence n (s, r, P) = alternates_loop sequence' n (s, r, P)"
proof (induction n arbitrary: s r P)
  case (Suc n)
  have short: "length (parse_space (tl s) True) \<le> b" using parse_space_length [of "tl s" True] Suc.prems by simp
  have "alternates_loop sequence n st = alternates_loop sequence' n st"
    if "sequence (parse_space (tl s) True) (r @ [elem LLAMA_GRETYPE_ALT 0]) P = Some st" for st
    using Suc.IH [of "fst st" "fst (snd st)" "snd (snd st)"] short
      assms(2) [of _ _ _ "fst st" "fst (snd st)" "snd (snd st)"] that by fastforce
  with assms(1) [OF short] show ?case by (auto intro!: Option.bind_cong)
qed simp

theorem parse_alternates_enough:
  "length s < fuel \<Longrightarrow> length s < fuel' \<Longrightarrow>
    parse_alternates fuel vocab name nested s i P = parse_alternates fuel' vocab name nested s i P"
proof (induction fuel arbitrary: fuel' nested s i P)
  case (Suc fuel)
  obtain f where f: "fuel' = Suc f" using Suc.prems by (cases fuel') auto
  let ?alt = "parse_alternates fuel vocab name True" and ?alt' = "parse_alternates f vocab name True"
  let ?seq = "parse_sequence ?alt vocab name nested" and ?seq' = "parse_sequence ?alt' vocab name nested"
  have agree: "?alt s1 j P1 = ?alt' s1 j P1" if "length s1 < length s" for s1 j P1
    using Suc.IH [of s1 f True j P1] that Suc.prems f by simp
  have seq: "?seq s1 r P1 = ?seq' s1 r P1" if "length s1 \<le> length s" for s1 r P1
    unfolding parse_sequence_def
    by (subst sequence_loop_cong [OF parse_alternates_consuming agree, where b = "length s"]) (simp_all add: that)
  have consumes: "length s' \<le> length s" if "?seq s r P = Some (s', r', P')" for s r P s' r' P'
    using parse_sequence_consumes [OF parse_alternates_consuming that] .
  have "alternates_loop ?seq n (s1, r, P1) = alternates_loop ?seq' n (s1, r, P1)" if "length s1 \<le> length s" for n s1 r P1
    by (rule alternates_loop_cong [OF seq consumes that])
  moreover have "length s1 \<le> length s" if "?seq s r P = Some (s1, r1, P1)" for s1 r r1 P1
    using consumes [OF that] .
  ultimately show ?case
    using seq [of s "[]" P] by (auto simp: f Let_def simp del: alternates_loop.simps intro!: Option.bind_cong)
qed simp


text \<open>The text of a grammar: every rule consumes text, so that the loop over the rules ends by itself.\<close>

lemma parse_rule_less: "parse_rule vocab s P = Some (s', P') \<Longrightarrow> length s' < length s"
proof -
  assume "parse_rule vocab s P = Some (s', P')"
  then obtain n s1 i P1 s2 s3 s4 s5 P5 where p: "parse_name s = Some (n, s1)"
      "expect 58 (parse_space s1 False) = Some s2" "expect 58 s2 = Some s3" "expect 61 s3 = Some s4"
      "parse_alternates (Suc (length (parse_space s4 True))) vocab n False (parse_space s4 True) i P1 = Some (s5, P5)"
      "s' \<in> {parse_space (drop 2 s5) True, parse_space (tl s5) True, parse_space s5 True}"
    by (auto simp: parse_rule_def Let_def simp del: parse_alternates.simps split: bind_splits prod.splits if_splits)
  have "length s5 \<le> length (parse_space s4 True)"
    using parse_alternates_consuming p(5) unfolding consuming_def by blast
  moreover have "length s' \<le> length s5"
    using p(6) parse_space_length [of "drop 2 s5" True] parse_space_length [of "tl s5" True] parse_space_length [of s5 True]
    by auto
  ultimately show ?thesis
    using parse_name_less [OF p(1)] expect_less [OF p(2)] expect_less [OF p(3)] expect_less [OF p(4)]
      parse_space_length [of s1 False] parse_space_length [of s4 True] by simp
qed

lemma rules_loop_enough:
  "length s < n \<Longrightarrow> length s < m \<Longrightarrow> rules_loop n vocab (s, P) = rules_loop m vocab (s, P)"
proof (induction n arbitrary: m s P)
  case (Suc n)
  obtain k where m: "m = Suc k" using Suc.prems by (cases m) auto
  have "rules_loop n vocab st = rules_loop k vocab st" if "parse_rule vocab s P = Some st" for st
    using Suc.IH [of "fst st" k "snd st"] Suc.prems m parse_rule_less [of vocab s P "fst st" "snd st"] that by simp
  then show ?case using m by (auto intro!: Option.bind_cong)
qed simp

end
