(* ===== verification/Grammar_Parse_Wf.thy ===== *)
theory Grammar_Parse_Wf
  imports Grammar_Parse_Ok
begin

text \<open>
  The rules of a parsed grammar are well-formed: the elements of every rule follow each other as the matching
  functions expect, every rule ends with its only END, and every reference names a rule.
\<close>

section \<open>Blocks of elements\<close>

text \<open>A block may stand after any element: it does not start inside a character class.\<close>

definition block_ok :: "llama_grammar_rule \<Rightarrow> bool" where
  "block_ok es \<longleftrightarrow> body_ok LLAMA_GRETYPE_ALT es \<and> (es \<noteq> [] \<longrightarrow> is_start_type (ge_type (hd es)))"

definition last_type :: "llama_gretype \<Rightarrow> llama_grammar_rule \<Rightarrow> llama_gretype" where
  "last_type t es = (if es = [] then t else ge_type (last es))"

lemma body_ok_append: "body_ok t (xs @ ys) \<longleftrightarrow> body_ok t xs \<and> body_ok (last_type t xs) ys"
  by (induction t xs rule: body_ok.induct) (auto simp: last_type_def)

lemma may_follow_start: "is_start_type u \<Longrightarrow> may_follow t u"
  by (auto simp: may_follow_def is_start_type_def)

lemma block_ok_Nil [simp]: "block_ok []"
  by (simp add: block_ok_def)

lemma block_ok_append: "block_ok xs \<Longrightarrow> block_ok ys \<Longrightarrow> block_ok (xs @ ys)"
  by (cases ys) (auto simp: block_ok_def body_ok_append may_follow_start hd_append split: list.splits)

lemma block_ok_single: "is_start_type t \<Longrightarrow> t \<noteq> LLAMA_GRETYPE_END \<Longrightarrow> block_ok [elem t v]"
  by (simp add: block_ok_def may_follow_def is_start_type_def)

lemma block_ok_concat: "block_ok es \<Longrightarrow> block_ok (concat (replicate n es))"
  by (induction n) (auto intro: block_ok_append)

lemma block_rule_ok: "block_ok es \<Longrightarrow> rule_ok (es @ [elem LLAMA_GRETYPE_END v])"
  by (auto simp: block_ok_def rule_ok_def)

text \<open>A character class that is being read: its last element may be followed by another character.\<close>

definition class_open :: "llama_grammar_rule \<Rightarrow> bool" where
  "class_open es \<longleftrightarrow> es = [] \<or> block_ok es \<and> ge_type (last es) \<in> {LLAMA_GRETYPE_CHAR, LLAMA_GRETYPE_CHAR_NOT,
     LLAMA_GRETYPE_CHAR_ALT, LLAMA_GRETYPE_CHAR_RNG_UPPER}"

lemma class_open_block: "class_open es \<Longrightarrow> block_ok es"
  by (auto simp: class_open_def)

lemma class_open_first: "t = LLAMA_GRETYPE_CHAR \<or> t = LLAMA_GRETYPE_CHAR_NOT \<Longrightarrow> class_open [elem t v]"
  by (auto simp: class_open_def block_ok_def may_follow_def is_start_type_def)

lemma class_open_alt: "class_open es \<Longrightarrow> es \<noteq> [] \<Longrightarrow> class_open (es @ [elem LLAMA_GRETYPE_CHAR_ALT v])"
  by (auto simp: class_open_def block_ok_def body_ok_append last_type_def may_follow_def)

lemma class_open_rng:
  "block_ok es \<Longrightarrow> es \<noteq> [] \<Longrightarrow> ge_type (last es) \<in> {LLAMA_GRETYPE_CHAR, LLAMA_GRETYPE_CHAR_NOT, LLAMA_GRETYPE_CHAR_ALT}
    \<Longrightarrow> class_open (es @ [elem LLAMA_GRETYPE_CHAR_RNG_UPPER v])"
  by (auto simp: class_open_def block_ok_def body_ok_append last_type_def may_follow_def)

section \<open>References\<close>

text \<open>A rule number that has a rule, or that a name written in the text stands for.\<close>

definition known :: "llama_grammar_parser \<Rightarrow> nat \<Rightarrow> bool" where
  "known P v \<longleftrightarrow> v < length (gp_rules P) \<and> gp_rules P ! v \<noteq> [] \<or>
     (\<exists>name. 95 \<notin> set name \<and> (name, v) \<in> set (symbol_ids P))"

definition refs_known :: "llama_grammar_parser \<Rightarrow> llama_grammar_rule \<Rightarrow> bool" where
  "refs_known P es \<longleftrightarrow> (\<forall>e \<in> set es. ge_type e = LLAMA_GRETYPE_RULE_REF \<longrightarrow> known P (ge_value e))"

definition extends :: "llama_grammar_parser \<Rightarrow> llama_grammar_parser \<Rightarrow> bool" where
  "extends P P' \<longleftrightarrow> (\<forall>v. known P v \<longrightarrow> known P' v)"

definition parser_ok :: "llama_grammar_parser \<Rightarrow> bool" where
  "parser_ok P \<longleftrightarrow> (\<forall>rule \<in> set (gp_rules P). rule \<noteq> [] \<longrightarrow> rule_ok rule \<and> refs_known P rule)"

lemma extends_refl [simp]: "extends P P"
  by (simp add: extends_def)

lemma extends_trans: "extends P Q \<Longrightarrow> extends Q R \<Longrightarrow> extends P R"
  by (simp add: extends_def)

lemma refs_known_extends: "refs_known P es \<Longrightarrow> extends P P' \<Longrightarrow> refs_known P' es"
  by (auto simp: refs_known_def extends_def)

lemma refs_known_append [simp]: "refs_known P (xs @ ys) \<longleftrightarrow> refs_known P xs \<and> refs_known P ys"
  by (auto simp: refs_known_def)

lemma refs_known_Nil [simp]: "refs_known P []"
  by (simp add: refs_known_def)

lemma refs_known_Cons [simp]:
  "refs_known P (e # es) \<longleftrightarrow> (ge_type e = LLAMA_GRETYPE_RULE_REF \<longrightarrow> known P (ge_value e)) \<and> refs_known P es"
  by (simp add: refs_known_def)

lemma refs_known_single: "t \<noteq> LLAMA_GRETYPE_RULE_REF \<Longrightarrow> refs_known P [elem t v]"
  by (simp add: refs_known_def)

lemma refs_known_ref: "known P v \<Longrightarrow> refs_known P [elem LLAMA_GRETYPE_RULE_REF v]"
  by (simp add: refs_known_def)

lemma parser_ok_same_rules: "parser_ok P \<Longrightarrow> extends P P' \<Longrightarrow> gp_rules P' = gp_rules P \<Longrightarrow> parser_ok P'"
  using refs_known_extends by (auto simp: parser_ok_def)

lemma get_symbol_id_ok:
  assumes "get_symbol_id name P = (i, P')" and "95 \<notin> set name" and "parser_ok P"
  shows "known P' i" "extends P P'" "parser_ok P'" "gp_rules P' = gp_rules P"
proof -
  show ext: "extends P P'" and same: "gp_rules P' = gp_rules P"
    using assms(1) by (auto simp: get_symbol_id_def extends_def known_def Let_def split: option.splits)
  show "known P' i"
    using assms(1,2) by (auto simp: get_symbol_id_def known_def Let_def dest!: map_of_SomeD split: option.splits)
  show "parser_ok P'" using parser_ok_same_rules [OF assms(3) ext same] .
qed

lemma update_other: "k' \<noteq> k \<Longrightarrow> (k', v) \<in> set xs \<Longrightarrow> (k', v) \<in> set (AList.update k w xs)"
  by (induction xs) auto

lemma generate_symbol_id_ok:
  assumes "generate_symbol_id name P = (i, P')" and "parser_ok P"
  shows "extends P P'" "parser_ok P'" "gp_rules P' = gp_rules P"
proof -
  show same: "gp_rules P' = gp_rules P"
    using assms(1) by (auto simp: generate_symbol_id_def Let_def)
  show ext: "extends P P'"
    unfolding extends_def known_def
  proof (intro allI impI)
    fix v
    assume "v < length (gp_rules P) \<and> gp_rules P ! v \<noteq> [] \<or> (\<exists>nm. 95 \<notin> set nm \<and> (nm, v) \<in> set (symbol_ids P))"
    then show "v < length (gp_rules P') \<and> gp_rules P' ! v \<noteq> [] \<or> (\<exists>nm. 95 \<notin> set nm \<and> (nm, v) \<in> set (symbol_ids P'))"
    proof
      assume "\<exists>nm. 95 \<notin> set nm \<and> (nm, v) \<in> set (symbol_ids P)"
      then obtain nm where nm: "95 \<notin> set nm" "(nm, v) \<in> set (symbol_ids P)" by blast
      then have "nm \<noteq> name @ 95 # decimal i" by auto
      from update_other [OF this nm(2)] assms(1) nm(1) show ?thesis
        by (auto simp: generate_symbol_id_def Let_def)
    qed (simp add: same)
  qed
  show "parser_ok P'" using parser_ok_same_rules [OF assms(2) ext same] .
qed

lemma add_rule_rules:
  "gp_rules (add_rule i rule P) = (gp_rules P @ replicate (i + 1 - length (gp_rules P)) [])[i := rule]"
  "symbol_ids (add_rule i rule P) = symbol_ids P"
  by (simp_all add: add_rule_def Let_def)

lemma add_rule_known: "rule \<noteq> [] \<Longrightarrow> known (add_rule i rule P) i"
  unfolding known_def by (rule disjI1) (auto simp: add_rule_rules)

lemma add_rule_extends: "rule \<noteq> [] \<Longrightarrow> extends P (add_rule i rule P)"
  by (auto simp: extends_def known_def add_rule_rules nth_list_update nth_append)

lemma add_rule_ok:
  assumes "parser_ok P" and "rule_ok rule" and "refs_known (add_rule i rule P) rule"
  shows "parser_ok (add_rule i rule P)"
  unfolding parser_ok_def
proof (intro ballI impI)
  fix r
  assume "r \<in> set (gp_rules (add_rule i rule P))" and "r \<noteq> []"
  then have "r = rule \<or> r \<in> set (gp_rules P)"
    using set_update_subset_insert [of "gp_rules P @ replicate (i + 1 - length (gp_rules P)) []" i rule]
    by (auto simp: add_rule_rules)
  moreover have "rule \<noteq> []" using assms(2) by (auto simp: rule_ok_def)
  ultimately show "rule_ok r \<and> refs_known (add_rule i rule P) r"
    using assms \<open>r \<noteq> []\<close> refs_known_extends [OF _ add_rule_extends] by (auto simp: parser_ok_def)
qed


section \<open>Repetitions\<close>

lemma rec_step_ok:
  assumes "rec_step name prev no_max i (last_id, P) = (r, P')" and "parser_ok P" and "block_ok prev" and "refs_known P prev"
    and "0 < i \<Longrightarrow> known P last_id"
  shows "parser_ok P'" "extends P P'" "known P' r"
proof -
  obtain rid P1 where g: "generate_symbol_id name P = (rid, P1)" by fastforce
  let ?ref = "if i > 0 \<or> no_max then [elem LLAMA_GRETYPE_RULE_REF (if no_max then rid else last_id)] else []"
  let ?body = "prev @ ?ref @ [elem LLAMA_GRETYPE_ALT 0]"
  let ?rule = "?body @ [elem LLAMA_GRETYPE_END 0]"
  from g assms(1) have r: "r = rid" "P' = add_rule rid ?rule P1" by (auto simp: rec_step_def Let_def)
  note P1 = generate_symbol_id_ok [OF g assms(2)]
  have ext: "extends P1 P'" unfolding r(2) by (rule add_rule_extends) simp
  show kn: "known P' r" unfolding r by (rule add_rule_known) simp
  show "extends P P'" using extends_trans [OF P1(1) ext] .
  have "block_ok ?ref" by (simp add: block_ok_single is_start_type_def)
  then have "rule_ok ?rule"
    by (intro block_rule_ok block_ok_append assms(3) block_ok_single) (simp_all add: is_start_type_def)
  moreover have "refs_known P' ?rule"
    using kn r(1) refs_known_extends [OF assms(4) \<open>extends P P'\<close>] assms(5) \<open>extends P P'\<close>
    by (simp add: refs_known_single refs_known_ref extends_def)
  ultimately show "parser_ok P'" unfolding r(2) by (intro add_rule_ok P1(2)) simp_all
qed

lemma rec_rules_ok:
  assumes "parser_ok P" and "block_ok prev" and "refs_known P prev"
  shows "fold (rec_step name prev no_max) [0..<n] (0, P) = (r, P') \<Longrightarrow>
    parser_ok P' \<and> extends P P' \<and> (0 < n \<longrightarrow> known P' r)"
proof (induction n arbitrary: r P')
  case 0
  then show ?case using assms(1) by simp
next
  case (Suc n)
  obtain r1 P1 where f: "fold (rec_step name prev no_max) [0..<n] (0, P) = (r1, P1)" by fastforce
  with Suc.prems have step: "rec_step name prev no_max n (r1, P1) = (r, P')" by simp
  from Suc.IH [OF f] have P1: "parser_ok P1" "extends P P1" "0 < n \<Longrightarrow> known P1 r1" by auto
  note st = rec_step_ok [OF step P1(1) assms(2) refs_known_extends [OF assms(3) P1(2)] P1(3)]
  from st extends_trans [OF P1(2) st(2)] show ?case by simp
qed

definition last_ok :: "llama_grammar_parser \<Rightarrow> llama_grammar_rule \<Rightarrow> nat \<Rightarrow> bool" where
  "last_ok P rule l \<longleftrightarrow> parser_ok P \<and> refs_known P rule \<and> block_ok (take l rule) \<and> block_ok (drop l rule) \<and> l \<le> length rule"

lemma last_okI: "\<lbrakk>parser_ok P; refs_known P rule; block_ok rule; refs_known P es; block_ok es\<rbrakk> \<Longrightarrow> last_ok P (rule @ es) (length rule)"
  by (simp add: last_ok_def)

lemma last_ok_block: "last_ok P rule l \<Longrightarrow> block_ok rule"
  using block_ok_append [of "take l rule" "drop l rule"] by (simp add: last_ok_def)

lemma handle_repetitions_ok:
  assumes "handle_repetitions name l min_times max_times rule P = Some (rule', P')" and "last_ok P rule l"
  shows "last_ok P' rule' l" "extends P P'"
proof -
  let ?prev = "drop l rule" and ?no_max = "max_times = UINT64_MAX"
  let ?mid = "if min_times = 0 then [] else ?prev @ concat (replicate (min_times - 1) ?prev)"
  define n where "n = n_optional min_times max_times"
  obtain r P1 where f: "fold (rec_step name ?prev ?no_max) [0..<n] (0, P) = (r, P1)" by fastforce
  have known: "refs_known P ?prev" using assms(2) by (auto simp: last_ok_def refs_known_def dest: in_set_dropD)
  have ok: "parser_ok P1 \<and> extends P P1 \<and> (0 < n \<longrightarrow> known P1 r)"
    using rec_rules_ok [OF _ _ known f] assms(2) by (simp add: last_ok_def)
  let ?opt = "if 0 < n then [elem LLAMA_GRETYPE_RULE_REF r] else []"
  have res: "rule' = take l rule @ ?mid @ ?opt" "P' = P1"
    using assms(1) f by (auto simp: handle_repetitions_def n_def Let_def split: bind_splits if_splits)
  show "extends P P'" using ok res by simp
  have "block_ok (?mid @ ?opt)"
    using assms(2) by (intro block_ok_append) (auto simp: last_ok_def is_start_type_def intro!: block_ok_append block_ok_concat block_ok_single)
  moreover have "refs_known P1 (take l rule @ ?mid @ ?opt)"
  proof -
    have "refs_known P1 ?prev" "refs_known P1 (take l rule)"
      using refs_known_extends [OF known] ok assms(2) refs_known_extends [of P rule P1]
      by (auto simp: last_ok_def refs_known_def dest: in_set_takeD)
    moreover from this(1) have "refs_known P1 (concat (replicate k ?prev))" for k by (auto simp: refs_known_def)
    ultimately show ?thesis using ok by (simp add: refs_known_ref)
  qed
  ultimately show "last_ok P' rule' l" using ok assms(2) unfolding res by (simp add: last_ok_def)
qed

section \<open>Items, sequences, alternates\<close>

lemma literal_loop_ok:
  "literal_loop n s (rule @ es) = Some (s', rule') \<Longrightarrow> block_ok es \<Longrightarrow> refs_known P es
    \<Longrightarrow> \<exists>es'. rule' = rule @ es' \<and> block_ok es' \<and> refs_known P es'"
proof (induction n arbitrary: s es)
  case (Suc n)
  show ?case
  proof (cases "peek s = 34")
    case False
    with Suc.prems(1) obtain c s1 where "literal_loop n s1 (rule @ es @ [elem LLAMA_GRETYPE_CHAR c]) = Some (s', rule')"
      by (auto split: bind_splits if_splits)
    from Suc.IH [OF this] Suc.prems(2,3) show ?thesis
      by (simp add: block_ok_append block_ok_single is_start_type_def refs_known_single)
  qed (use Suc.prems in auto)
qed simp

lemma class_loop_ok:
  assumes "t = LLAMA_GRETYPE_CHAR \<or> t = LLAMA_GRETYPE_CHAR_NOT"
  shows "class_loop n t (length rule) s (rule @ es) = Some (s', rule') \<Longrightarrow> class_open es \<Longrightarrow> refs_known P es
    \<Longrightarrow> \<exists>es'. rule' = rule @ es' \<and> block_ok es' \<and> refs_known P es'"
proof (induction n arbitrary: s es)
  case (Suc n)
  show ?case
  proof (cases "peek s = 93")
    case False
    with Suc.prems(1) obtain c s1 where c: "parse_char s = Some (c, s1)" by (auto split: bind_splits if_splits)
    let ?t = "if length rule < length (rule @ es) then LLAMA_GRETYPE_CHAR_ALT else t"
    let ?es = "es @ [elem ?t c]"
    have last: "ge_type (last ?es) \<in> {LLAMA_GRETYPE_CHAR, LLAMA_GRETYPE_CHAR_NOT, LLAMA_GRETYPE_CHAR_ALT}" using assms by auto
    have op: "class_open ?es"
      using class_open_first [OF assms, of c] class_open_alt [OF Suc.prems(2), of c] by (cases "es = []") simp_all
    have refs: "refs_known P ?es" using Suc.prems(3) assms by auto
    from False Suc.prems(1) c consider
        "class_loop n t (length rule) s1 (rule @ ?es) = Some (s', rule')"
      | c2 s2 where "class_loop n t (length rule) s2 (rule @ (?es @ [elem LLAMA_GRETYPE_CHAR_RNG_UPPER c2])) = Some (s', rule')"
      by (auto simp: Let_def split: bind_splits if_splits)
    then show ?thesis
    proof cases
      case 1
      from Suc.IH [OF 1 op refs] show ?thesis .
    next
      case 2
      have "class_open (?es @ [elem LLAMA_GRETYPE_CHAR_RNG_UPPER c2])"
        by (rule class_open_rng [OF class_open_block [OF op] _ last]) simp
      from Suc.IH [OF 2 this] refs show ?thesis by simp
    qed
  qed (use Suc.prems class_open_block in auto)
qed simp

text \<open>A call for a group keeps the parser well-formed and defines the rule it is given.\<close>

definition alt_ok :: "(byte list \<Rightarrow> nat \<Rightarrow> llama_grammar_parser \<Rightarrow> (byte list \<times> llama_grammar_parser) option) \<Rightarrow> bool" where
  "alt_ok alt \<longleftrightarrow> (\<forall>s i P s' P'. alt s i P = Some (s', P') \<longrightarrow> parser_ok P \<longrightarrow> parser_ok P' \<and> extends P P' \<and> known P' i)"

lemma push_element_ok:
  assumes "push_element s t v rule P = Some (Some (s', rule', l', P'))" and "parser_ok P" and "refs_known P rule" and "block_ok rule"
    and "is_start_type t" and "t \<noteq> LLAMA_GRETYPE_END" and "t = LLAMA_GRETYPE_RULE_REF \<Longrightarrow> known P v"
  shows "last_ok P' rule' l' \<and> P' = P"
proof -
  have "refs_known P [elem t v]" using assms(7) by (simp add: refs_known_def)
  with assms show ?thesis by (auto simp: push_element_def intro!: last_okI block_ok_single)
qed

lemma repeat_last_ok:
  assumes "repeat_last name a b (s, rule, l, P) = Some (Some (s', rule', l', P'))" and "last_ok P rule l"
  shows "last_ok P' rule' l' \<and> extends P P'"
  using assms handle_repetitions_ok by (auto simp: repeat_last_def)


lemma parse_name_plain: "parse_name s = Some (n, s') \<Longrightarrow> 95 \<notin> set n"
  by (auto simp: parse_name_def Let_def is_word_char_def is_digit_char_def dest: set_takeWhileD split: if_splits)

lemma last_ok_extends: "\<lbrakk>last_ok P rule l; extends P P'; parser_ok P'\<rbrakk> \<Longrightarrow> last_ok P' rule l"
  by (auto simp: last_ok_def intro: refs_known_extends)

lemma parse_item_ok:
  assumes "alt_ok alt" and "last_ok P rule l"
    and "parse_item alt vocab name nested (s, rule, l, P) = Some (Some (s', rule', l', P'))"
  shows "last_ok P' rule' l' \<and> extends P P'"
proof -
  have ok: "parser_ok P" "refs_known P rule" "block_ok rule"
    using assms(2) last_ok_block [OF assms(2)] by (simp_all add: last_ok_def)
  consider
      "peek s = 34" | "peek s = 91" | "peek s = 60 \<or> peek s = 33" | "is_word_char (peek s)" "\<not> (peek s = 34 \<or> peek s = 91 \<or> peek s = 60 \<or> peek s = 33)"
    | "peek s = 40" | "peek s = 46" | "peek s = 42" | "peek s = 43" | "peek s = 63" | "peek s = 123"
    using assms(3) by (auto simp: parse_item_def split: if_splits)
  then show ?thesis
  proof cases
    case 1
    with assms(3) obtain s1 where "literal_loop (Suc (length s)) (tl s) (rule @ []) = Some (s1, rule')" "l' = length rule" "P' = P"
      by (auto simp: parse_item_def simp del: literal_loop.simps split: bind_splits)
    with literal_loop_ok [OF this(1), of P] show ?thesis by (auto intro: last_okI [OF ok])
  next
    case 2
    obtain t s0 where t: "(if peek (tl s) = 94 then (LLAMA_GRETYPE_CHAR_NOT, tl (tl s)) else (LLAMA_GRETYPE_CHAR, tl s)) = (t, s0)" by fastforce
    then have ty: "t = LLAMA_GRETYPE_CHAR \<or> t = LLAMA_GRETYPE_CHAR_NOT" by (auto split: if_splits)
    from 2 t assms(3) obtain s1 where "class_loop (Suc (length s0)) t (length rule) s0 (rule @ []) = Some (s1, rule')" "l' = length rule" "P' = P"
      by (auto simp: parse_item_def Let_def simp del: class_loop.simps split: bind_splits)
    with class_loop_ok [OF ty this(1), of P] show ?thesis by (auto intro: last_okI [OF ok] simp: class_open_def)
  next
    case 3
    obtain t s0 where t: "(if peek s = 33 then (LLAMA_GRETYPE_TOKEN_NOT, tl s) else (LLAMA_GRETYPE_TOKEN, s)) = (t, s0)" by fastforce
    from 3 t assms(3) obtain v s1 where "push_element s1 t v rule P = Some (Some (s', rule', l', P'))"
      by (auto simp: parse_item_def split: bind_splits)
    from push_element_ok [OF this ok] t show ?thesis by (auto simp: is_start_type_def split: if_splits)
  next
    case 4
    then have "peek s \<noteq> 40" "peek s \<noteq> 46" by (auto simp: is_word_char_def is_digit_char_def)
    with 4 assms(3) obtain n s0 i P1 s1 where n: "parse_name s = Some (n, s0)" "get_symbol_id n P = (i, P1)"
        "push_element s1 LLAMA_GRETYPE_RULE_REF i rule P1 = Some (Some (s', rule', l', P'))"
      by (auto simp: parse_item_def split: bind_splits prod.splits)
    note P1 = get_symbol_id_ok [OF n(2) parse_name_plain [OF n(1)] ok(1)]
    from push_element_ok [OF n(3) P1(3) refs_known_extends [OF ok(2) P1(2)] ok(3)] P1(1,2)
    show ?thesis by (auto simp: is_start_type_def)
  next
    case 5
    then have "\<not> is_word_char (peek s)" by (auto simp: is_word_char_def is_digit_char_def)
    with 5 assms(3) obtain i P1 s1 P2 s2 where n: "generate_symbol_id name P = (i, P1)"
        "alt (parse_space (tl s) True) i P1 = Some (s1, P2)"
        "push_element s2 LLAMA_GRETYPE_RULE_REF i rule P2 = Some (Some (s', rule', l', P'))"
      by (auto simp: parse_item_def Let_def split: bind_splits prod.splits)
    note P1 = generate_symbol_id_ok [OF n(1) ok(1)]
    have P2: "parser_ok P2" "extends P1 P2" "known P2 i" using assms(1) n(2) P1(2) by (auto simp: alt_ok_def)
    from push_element_ok [OF n(3) P2(1) refs_known_extends [OF ok(2) extends_trans [OF P1(1) P2(2)]] ok(3)] P2(3)
      extends_trans [OF P1(1) P2(2)]
    show ?thesis by (auto simp: is_start_type_def)
  next
    case 6
    then have "\<not> is_word_char (peek s)" by (auto simp: is_word_char_def is_digit_char_def)
    with 6 assms(3) have "push_element (parse_space (tl s) nested) LLAMA_GRETYPE_CHAR_ANY 0 rule P = Some (Some (s', rule', l', P'))"
      by (simp add: parse_item_def)
    from push_element_ok [OF this ok] show ?thesis by (auto simp: is_start_type_def)
  next
    case 10
    then have "\<not> is_word_char (peek s)" by (auto simp: is_word_char_def is_digit_char_def)
    with 10 assms(3) obtain a b s1 where "repeat_last name a b (s1, rule, l, P) = Some (Some (s', rule', l', P'))"
      by (auto simp: parse_item_def split: bind_splits prod.splits)
    from repeat_last_ok [OF this assms(2)] show ?thesis .
  qed (use assms(3) repeat_last_ok [OF _ assms(2)] in \<open>auto simp: parse_item_def is_word_char_def is_digit_char_def\<close>)
qed

lemma sequence_loop_ok:
  assumes "alt_ok alt" and "last_ok P rule l"
    and "sequence_loop (parse_item alt vocab name nested) n (s, rule, l, P) = Some (s', rule', l', P')"
  shows "last_ok P' rule' l' \<and> extends P P'"
  using assms(2,3)
proof (induction n arbitrary: s rule l P)
  case (Suc n)
  show ?case
  proof (cases "peek s = 0")
    case False
    with Suc.prems(2) obtain o1 where o1: "parse_item alt vocab name nested (s, rule, l, P) = Some o1" by (auto split: bind_splits)
    show ?thesis
    proof (cases o1)
      case (Some st)
      obtain s1 r1 l1 P1 where st: "st = (s1, r1, l1, P1)" by (cases st)
      have ok: "last_ok P1 r1 l1 \<and> extends P P1"
        by (rule parse_item_ok [OF assms(1) Suc.prems(1)]) (use o1 Some st in blast)
      from Suc.prems(2) False o1 Some st
      have "sequence_loop (parse_item alt vocab name nested) n (s1, r1, l1, P1) = Some (s', rule', l', P')" by simp
      from Suc.IH [OF conjunct1 [OF ok] this] ok show ?thesis by (auto intro: extends_trans)
    qed (use Suc.prems False o1 in simp)
  qed (use Suc.prems in simp)
qed simp

lemma parse_sequence_ok:
  assumes "alt_ok alt" and "parser_ok P" and "block_ok rule" and "refs_known P rule"
    and "parse_sequence alt vocab name nested s rule P = Some (s', rule', P')"
  shows "parser_ok P' \<and> block_ok rule' \<and> refs_known P' rule' \<and> extends P P'"
proof -
  from assms(5) obtain l' where "sequence_loop (parse_item alt vocab name nested) (Suc (length s)) (s, rule, length rule, P)
      = Some (s', rule', l', P')" by (auto simp: parse_sequence_def)
  from sequence_loop_ok [OF assms(1) _ this] have ok: "last_ok P' rule' l'" "extends P P'"
    using assms(2-4) by (simp_all add: last_ok_def)
  from last_ok_block [OF ok(1)] ok show ?thesis by (simp add: last_ok_def)
qed

lemma alternates_loop_ok:
  assumes "alt_ok alt" and "parser_ok P" and "block_ok rule" and "refs_known P rule"
    and "alternates_loop (parse_sequence alt vocab name nested) n (s, rule, P) = Some (s', rule', P')"
  shows "parser_ok P' \<and> block_ok rule' \<and> refs_known P' rule' \<and> extends P P'"
  using assms(2-)
proof (induction n arbitrary: s rule P)
  case (Suc n)
  show ?case
  proof (cases "peek s = 124")
    case True
    with Suc.prems(4) obtain s1 r1 P1 where s1: "parse_sequence alt vocab name nested (parse_space (tl s) True) (rule @ [elem LLAMA_GRETYPE_ALT 0]) P = Some (s1, r1, P1)"
      "alternates_loop (parse_sequence alt vocab name nested) n (s1, r1, P1) = Some (s', rule', P')"
      by (auto split: bind_splits)
    have "parser_ok P1 \<and> block_ok r1 \<and> refs_known P1 r1 \<and> extends P P1"
      by (rule parse_sequence_ok [OF assms(1) Suc.prems(1) _ _ s1(1)])
        (use Suc.prems in \<open>auto simp: is_start_type_def intro!: block_ok_append block_ok_single\<close>)
    with Suc.IH [OF _ _ _ s1(2)] extends_trans show ?thesis by blast
  qed (use Suc.prems in simp)
qed simp

lemma parse_alternates_ok: "alt_ok (parse_alternates fuel vocab name nested)"
proof (induction fuel arbitrary: nested)
  case 0
  then show ?case by (simp add: alt_ok_def)
next
  case (Suc fuel)
  show ?case
    unfolding alt_ok_def
  proof (intro allI impI)
    fix s i P s' P'
    let ?seq = "parse_sequence (parse_alternates fuel vocab name True) vocab name nested"
    assume "parse_alternates (Suc fuel) vocab name nested s i P = Some (s', P')" and P: "parser_ok P"
    then obtain s1 r1 P1 r2 P2 where s1: "?seq s [] P = Some (s1, r1, P1)"
      "alternates_loop ?seq (Suc (length s1)) (s1, r1, P1) = Some (s', r2, P2)"
      "P' = add_rule i (r2 @ [elem LLAMA_GRETYPE_END 0]) P2"
      by (auto simp: Let_def simp del: alternates_loop.simps split: bind_splits)
    from parse_sequence_ok [OF Suc.IH P _ _ s1(1)]
    have r1: "parser_ok P1" "block_ok r1" "refs_known P1 r1" "extends P P1" by auto
    from alternates_loop_ok [OF Suc.IH r1(1-3) s1(2)]
    have r2: "parser_ok P2" "block_ok r2" "refs_known P2 r2" "extends P1 P2" by auto
    have ext: "extends P2 P'" unfolding s1(3) by (rule add_rule_extends) simp
    have "parser_ok P'" unfolding s1(3)
      by (rule add_rule_ok [OF r2(1) block_rule_ok [OF r2(2)]])
        (use refs_known_extends [OF r2(3) ext] s1(3) in simp)
    moreover have "known P' i" unfolding s1(3) by (rule add_rule_known) simp
    ultimately show "parser_ok P' \<and> extends P P' \<and> known P' i"
      using extends_trans [OF extends_trans [OF r1(4) r2(4)] ext] by blast
  qed
qed

section \<open>The whole text\<close>

lemma parse_rule_ok:
  assumes "parse_rule vocab s P = Some (s', P')" and "parser_ok P"
  shows "parser_ok P'"
proof -
  from assms(1) obtain n s1 i P1 s4 s5 where p: "parse_name s = Some (n, s1)" "get_symbol_id n P = (i, P1)"
      "parse_alternates (Suc (length (parse_space s4 True))) vocab n False (parse_space s4 True) i P1 = Some (s5, P')"
    by (auto simp: parse_rule_def Let_def simp del: parse_alternates.simps split: bind_splits prod.splits)
  have "parser_ok P1" using get_symbol_id_ok(3) [OF p(2) parse_name_plain [OF p(1)] assms(2)] .
  with parse_alternates_ok p(3) show ?thesis unfolding alt_ok_def by blast
qed

lemma rules_loop_ok: "rules_loop n vocab (s, P) = Some P' \<Longrightarrow> parser_ok P \<Longrightarrow> parser_ok P'"
proof (induction n arbitrary: s P)
  case (Suc n)
  show ?case
  proof (cases "peek s = 0")
    case False
    with Suc.prems obtain s1 P1 where "parse_rule vocab s P = Some (s1, P1)" "rules_loop n vocab (s1, P1) = Some P'"
      by (auto split: bind_splits)
    with Suc.IH parse_rule_ok [OF this(1) Suc.prems(2)] show ?thesis by blast
  qed (use Suc.prems in simp)
qed simp

lemma parse_wf:
  assumes "parse vocab src = Some P"
  shows "wf_rules (gp_rules P)"
proof -
  from assms have P: "parser_ok P" and def: "rules_defined P"
    using rules_loop_ok [of _ vocab "parse_space src True" "\<lparr>symbol_ids = [], gp_rules = []\<rparr>" P]
    by (auto simp: parse_def Let_def parser_ok_def simp del: rules_loop.simps split: bind_splits)
  show ?thesis
    unfolding wf_rules_def
  proof
    fix rule assume r: "rule \<in> set (gp_rules P)"
    with def have ne: "rule \<noteq> []" and refs: "\<forall>e \<in> set rule. \<not> undefined_ref P e"
      by (auto simp: rules_defined_def list_all_iff)
    with P r have ok: "rule_ok rule" "refs_known P rule" by (auto simp: parser_ok_def)
    have "ge_value e < length (gp_rules P)" if e: "e \<in> set rule" "ge_type e = LLAMA_GRETYPE_RULE_REF" for e
      using refs e ok(2) by (force simp: undefined_ref_def refs_known_def known_def)
    with ok(1) show "rule_ok rule \<and> refs_ok (length (gp_rules P)) rule" by (simp add: refs_ok_def)
  qed
qed

end
