(* ===== verification/Grammar_Repeat.thy ===== *)
theory Grammar_Repeat
  imports Grammar_Parse_Wf
begin

text \<open>
  What the rewriting of repetitions means: the elements and rules that \<^verbatim>\<open>handle_repetitions\<close> produces
  for \<open>S{m,n}\<close> have the words of \<open>m\<close> to \<open>n\<close> words of \<open>S\<close>.
\<close>

section \<open>The language of a list of elements\<close>

definition conc :: "(nat list \<Rightarrow> bool) \<Rightarrow> (nat list \<Rightarrow> bool) \<Rightarrow> nat list \<Rightarrow> bool" where
  "conc A B w \<longleftrightarrow> (\<exists>u x. w = u @ x \<and> A u \<and> B x)"

lemma conc_Cons: "\<not> A [] \<Longrightarrow> conc A B (c # w) \<longleftrightarrow> conc (\<lambda>u. A (c # u)) B w"
  by (auto simp: conc_def Cons_eq_append_conv)

lemma conc_Nil: "\<not> A [] \<Longrightarrow> \<not> conc A B []"
  by (simp add: conc_def)

lemma conc_assoc: "conc (conc A B) C w \<longleftrightarrow> conc A (conc B C) w"
  unfolding conc_def by (metis append_assoc)

lemma conc_empty [simp]: "conc (\<lambda>u. u = []) B w \<longleftrightarrow> B w" "conc A (\<lambda>u. u = []) w \<longleftrightarrow> A w"
  by (simp_all add: conc_def)

lemma conc_fun: "conc (conc A B) C = conc A (conc B C)" "conc (\<lambda>u. u = []) B = B" "conc A (\<lambda>u. u = []) = A"
  by (simp_all add: fun_eq_iff conc_assoc)

lemma conc_cong: "\<lbrakk>\<And>u. A u \<longleftrightarrow> A' u; \<And>u. B u \<longleftrightarrow> B' u\<rbrakk> \<Longrightarrow> conc A B w \<longleftrightarrow> conc A' B' w"
  by (simp add: conc_def)

lemma conc_const: "conc (\<lambda>u. b \<and> A u) B w \<longleftrightarrow> b \<and> conc A B w"
  by (auto simp: conc_def)

inductive elems_lang :: "llama_grammar_rules \<Rightarrow> llama_grammar_rule \<Rightarrow> nat list \<Rightarrow> bool" for rules where
  Nil: "elems_lang rules [] []"
| chr: "\<lbrakk>is_char_start (ge_type e); match_loop c (e # es @ [elem LLAMA_GRETYPE_END 0]) False 0 = Some (f, n);
     f = is_positive_char (ge_type e); elems_lang rules (drop n (e # es)) w\<rbrakk> \<Longrightarrow> elems_lang rules (e # es) (c # w)"
| ref: "\<lbrakk>ge_type e = LLAMA_GRETYPE_RULE_REF; rule_lang rules (ge_value e) u; elems_lang rules es w\<rbrakk>
     \<Longrightarrow> elems_lang rules (e # es) (u @ w)"

inductive_simps elems_Nil: "elems_lang rules [] w"
inductive_cases elems_ConsE: "elems_lang rules (e # es) w"

text \<open>The elements of one symbol or of several: no alternatives, and whole character classes.\<close>

definition flat :: "llama_grammar_rule \<Rightarrow> bool" where
  "flat es \<longleftrightarrow> block_ok es \<and> (\<forall>e \<in> set es. ge_type e \<noteq> LLAMA_GRETYPE_ALT)"

lemma body_not_end: "body_ok t es \<Longrightarrow> e \<in> set es \<Longrightarrow> ge_type e \<noteq> LLAMA_GRETYPE_END"
  by (induction t es rule: body_ok.induct) auto

lemma flat_not_end: "flat es \<Longrightarrow> e \<in> set es \<Longrightarrow> \<not> is_end_type (ge_type e)"
  using body_not_end by (auto simp: flat_def block_ok_def is_end_type_def)

lemma flat_Nil [simp]: "flat []"
  by (simp add: flat_def)

lemma flat_append: "flat xs \<Longrightarrow> flat ys \<Longrightarrow> flat (xs @ ys)"
  by (auto simp: flat_def block_ok_append)

lemma flat_drop:
  assumes "flat es" and "n < length es \<Longrightarrow> is_start_type (ge_type (es ! n))"
  shows "flat (drop n es)"
proof (cases "n < length es")
  case True
  have "body_ok LLAMA_GRETYPE_ALT (take n es @ drop n es)" using assms(1) by (simp add: flat_def block_ok_def)
  then have "body_ok (last_type LLAMA_GRETYPE_ALT (take n es)) (drop n es)" by (simp only: body_ok_append)
  moreover have d: "drop n es = es ! n # drop (Suc n) es" using True by (simp add: Cons_nth_drop_Suc)
  ultimately have "body_ok LLAMA_GRETYPE_ALT (drop n es)" using assms(2) True by (simp add: may_follow_start)
  with assms True d show ?thesis by (auto simp: flat_def block_ok_def dest: in_set_dropD)
qed simp

text \<open>Matching stops at the element after a character class, whatever it is.\<close>

lemma match_loop_rest:
  assumes "is_start_type (ge_type e)" and "es \<noteq> []"
  shows "match_loop c (es @ e # post) f n = match_loop c (es @ [elem LLAMA_GRETYPE_END 0]) f n"
  using assms(2)
proof (induction es arbitrary: f n rule: length_induct)
  case (1 es)
  have e: "ge_type e \<noteq> LLAMA_GRETYPE_CHAR_RNG_UPPER" "ge_type e \<noteq> LLAMA_GRETYPE_CHAR_ALT"
    using assms(1) by (auto simp: is_start_type_def)
  have IH: "match_loop c (ys @ e # post) f n = match_loop c (ys @ [elem LLAMA_GRETYPE_END 0]) f n"
    if "length ys < length es" "ys \<noteq> []" for ys f n using 1(1) that by blast
  obtain x xs where es: "es = x # xs" using 1(2) by (cases es) auto
  show ?case
  proof (cases xs)
    case Nil
    with es e show ?thesis by (simp add: Let_def)
  next
    case (Cons y ys)
    show ?thesis
    proof (cases ys)
      case Nil
      with es Cons e IH [of "[y]"] show ?thesis by (simp add: Let_def)
    next
      case (Cons z zs)
      with es \<open>xs = y # ys\<close> e IH [of "y # ys"] IH [of "z # zs"] show ?thesis by (simp add: Let_def)
    qed
  qed
qed

lemma match_flat:
  assumes "flat (e # es)" and "is_char_start (ge_type e)"
  obtains f n where "match_loop c (e # es @ [elem LLAMA_GRETYPE_END 0]) False 0 = Some (f, n)"
    "0 < n" "n \<le> length (e # es)" "flat (drop n (e # es))"
proof -
  have "suffix_ok LLAMA_GRETYPE_ALT ((e # es) @ [elem LLAMA_GRETYPE_END 0])"
    using assms(1) by (intro suffix_ok_body) (simp add: flat_def block_ok_def)
  from match_loop_ok [OF this, of c False 0] assms(2) obtain f n where
    n: "match_loop c (e # es @ [elem LLAMA_GRETYPE_END 0]) False 0 = Some (f, n)" "0 < n" "n \<le> length (e # es)"
      "is_start_type (ge_type (((e # es) @ [elem LLAMA_GRETYPE_END 0]) ! n))"
    by (auto simp: gretype_defs less_Suc_eq_le)
  have "flat (drop n (e # es))"
  proof (rule flat_drop [OF assms(1)])
    assume "n < length (e # es)"
    then have "((e # es) @ [elem LLAMA_GRETYPE_END 0]) ! n = (e # es) ! n" by (rule nth_append_left)
    with n(4) show "is_start_type (ge_type ((e # es) ! n))" by (simp only:)
  qed
  with n that show ?thesis by blast
qed

lemma elems_char:
  assumes "flat (e # es)" and "is_char_start (ge_type e)"
    and "match_loop c (e # es @ [elem LLAMA_GRETYPE_END 0]) False 0 = Some (f, n)"
  shows "elems_lang rules (e # es) (c # w) \<longleftrightarrow> f = is_positive_char (ge_type e) \<and> elems_lang rules (drop n (e # es)) w"
proof
  assume "elems_lang rules (e # es) (c # w)"
  then show "f = is_positive_char (ge_type e) \<and> elems_lang rules (drop n (e # es)) w"
    using assms(2,3) by (cases rule: elems_ConsE) (auto simp: gretype_defs)
qed (use elems_lang.chr assms(2,3) in blast)

lemma elems_char_Nil: "is_char_start (ge_type e) \<Longrightarrow> \<not> elems_lang rules (e # es) []"
  by (auto simp: gretype_defs elim: elems_ConsE)

lemma elems_ref:
  assumes "ge_type e = LLAMA_GRETYPE_RULE_REF"
  shows "elems_lang rules (e # es) w \<longleftrightarrow> conc (rule_lang rules (ge_value e)) (elems_lang rules es) w"
  unfolding conc_def
proof
  assume "elems_lang rules (e # es) w"
  then show "\<exists>u x. w = u @ x \<and> rule_lang rules (ge_value e) u \<and> elems_lang rules es x"
    using assms by (cases rule: elems_ConsE) (auto simp: gretype_defs)
qed (use elems_lang.ref assms in blast)

lemma elems_token: "is_token_type (ge_type e) \<Longrightarrow> \<not> elems_lang rules (e # es) w"
  by (auto simp: gretype_defs elim: elems_ConsE)

lemma flat_cases:
  assumes "flat (e # es)"
  obtains "is_char_start (ge_type e)" | "ge_type e = LLAMA_GRETYPE_RULE_REF" "flat es" | "is_token_type (ge_type e)"
proof -
  have "is_start_type (ge_type e)" "\<not> is_end_type (ge_type e)"
    using assms flat_not_end [OF assms] by (auto simp: flat_def block_ok_def)
  moreover have "flat es" if "ge_type e = LLAMA_GRETYPE_RULE_REF"
    using flat_drop [OF assms, of 1] assms that
    by (cases es) (auto simp: flat_def block_ok_def may_follow_def is_start_type_def)
  ultimately show ?thesis using that by (cases "ge_type e") (auto simp: gretype_defs)
qed

text \<open>A list of elements in a rule: its words, then those of what follows.\<close>

lemma seq_split:
  assumes "v < length rules" and "is_start_type (ge_type e)"
  shows "\<lbrakk>flat es; rules ! v = pre @ es @ e # post\<rbrakk> \<Longrightarrow> seq_lang rules (v, length pre) w \<longleftrightarrow>
    conc (elems_lang rules es) (seq_lang rules (v, length pre + length es)) w"
proof (induction es arbitrary: pre w rule: length_induct)
  case (1 es)
  note rv = 1(3)
  let ?after = "seq_lang rules (v, length pre + length es)"
  show ?case
  proof (cases es)
    case Nil
    then show ?thesis by (simp add: elems_Nil)
  next
    case (Cons y ys)
    have d: "deref rules (v, length pre) = Some y" "drop (length pre) (rules ! v) = y # ys @ e # post"
      using assms(1) rv Cons by (simp_all add: deref_def vget_def)
    from 1(2) Cons have "flat (y # ys)" by simp
    then show ?thesis
    proof (cases rule: flat_cases)
      case 1
      show ?thesis
      proof (cases w)
        case Nil
        then show ?thesis using seq_lang_char_Nil [OF d(1)] conc_Nil elems_char_Nil 1 Cons by blast
      next
        case w: (Cons c w')
        obtain f n where n: "match_loop c (y # ys @ [elem LLAMA_GRETYPE_END 0]) False 0 = Some (f, n)"
            "0 < n" "n \<le> length (y # ys)" "flat (drop n (y # ys))"
          using match_flat [OF \<open>flat (y # ys)\<close> 1] by blast
        have "match_loop c (drop (length pre) (rules ! v)) False 0 = Some (f, n)"
          using match_loop_rest [OF assms(2), of "y # ys"] n(1) d(2) by simp
        then have m: "llama_grammar_match_char rules (v, length pre) c = Some (f = is_positive_char (ge_type y), (v, length pre + n))"
          using d(1) 1 assms(1) by (simp add: llama_grammar_match_char_def vget_def)
        have "rules ! v = pre @ (take n (y # ys) @ drop n (y # ys)) @ e # post"
          unfolding append_take_drop_id using rv Cons by simp
        then have "rules ! v = (pre @ take n (y # ys)) @ drop n (y # ys) @ e # post" by (simp only: append_assoc)
        moreover have "length (drop n (y # ys)) < length es" using n(2) Cons by simp
        ultimately have "seq_lang rules (v, length (pre @ take n (y # ys))) w' \<longleftrightarrow>
            conc (elems_lang rules (drop n (y # ys)))
              (seq_lang rules (v, length (pre @ take n (y # ys)) + length (drop n (y # ys)))) w'"
          using "1.IH" n(4) by blast
        moreover have "length (pre @ take n (y # ys)) = length pre + n" using n(3) by simp
        moreover have "length pre + n + length (drop n (y # ys)) = length pre + length es" using n(3) Cons by simp
        ultimately have IH: "seq_lang rules (v, length pre + n) w' \<longleftrightarrow> conc (elems_lang rules (drop n (y # ys))) ?after w'"
          by (simp only:)
        have "conc (elems_lang rules (y # ys)) ?after (c # w') \<longleftrightarrow>
            f = is_positive_char (ge_type y) \<and> conc (elems_lang rules (drop n (y # ys))) ?after w'"
          unfolding conc_Cons [where A = "elems_lang rules (y # ys)", OF elems_char_Nil [OF 1]] elems_char [OF \<open>flat (y # ys)\<close> 1 n(1)] by (rule conc_const)
        then show ?thesis unfolding w seq_lang_char [OF d(1) 1 m] IH unfolding Cons by blast
      qed
    next
      case 2
      have "rules ! v = (pre @ [y]) @ ys @ e # post" using rv Cons by simp
      moreover have "length ys < length es" using Cons by simp
      ultimately have "seq_lang rules (v, length (pre @ [y])) x \<longleftrightarrow>
          conc (elems_lang rules ys) (seq_lang rules (v, length (pre @ [y]) + length ys)) x" for x
        using "1.IH" 2(2) by blast
      then have IH: "seq_lang rules (next_pos (v, length pre)) x \<longleftrightarrow> conc (elems_lang rules ys) ?after x" for x
        using Cons by (simp add: next_pos_def)
      have "seq_lang rules (v, length pre) w \<longleftrightarrow> conc (rule_lang rules (ge_value y)) (conc (elems_lang rules ys) ?after) w"
        unfolding seq_lang_ref [OF d(1) 2(1)] IH conc_def by blast
      also have "\<dots> \<longleftrightarrow> conc (elems_lang rules (y # ys)) ?after w"
        unfolding conc_assoc [symmetric] by (rule conc_cong) (simp_all add: elems_ref [OF 2(1)])
      finally show ?thesis unfolding Cons .
    next
      case 3
      then show ?thesis using seq_lang_token [OF d(1)] elems_token Cons by (auto simp: conc_def)
    qed
  qed
qed


lemma elems_append: "\<lbrakk>flat xs; flat ys\<rbrakk> \<Longrightarrow> elems_lang rules (xs @ ys) w \<longleftrightarrow> conc (elems_lang rules xs) (elems_lang rules ys) w"
proof (induction xs arbitrary: w rule: length_induct)
  case (1 xs)
  note IH = 1(1) and fl = 1(2,3)
  show ?case
  proof (cases xs)
    case Nil
    then show ?thesis by (simp add: elems_Nil)
  next
    case (Cons y zs)
    have all: "flat (y # zs @ ys)" using flat_append [OF fl] Cons by simp
    from fl(1) Cons have "flat (y # zs)" by simp
    then show ?thesis
    proof (cases rule: flat_cases)
      case 1
      show ?thesis
      proof (cases w)
        case Nil
        then show ?thesis using elems_char_Nil [OF 1] conc_Nil Cons by auto
      next
        case w: (Cons c w')
        obtain f n where n: "match_loop c (y # zs @ [elem LLAMA_GRETYPE_END 0]) False 0 = Some (f, n)"
            "0 < n" "n \<le> length (y # zs)" "flat (drop n (y # zs))"
          using match_flat [OF \<open>flat (y # zs)\<close> 1] by blast
        have long: "match_loop c (y # (zs @ ys) @ [elem LLAMA_GRETYPE_END 0]) False 0 = Some (f, n)"
        proof (cases ys)
          case Nil
          with n(1) show ?thesis by simp
        next
          case ys: (Cons e es)
          with fl(2) have "is_start_type (ge_type e)" by (simp add: flat_def block_ok_def)
          from match_loop_rest [OF this, of "y # zs"] n(1) ys show ?thesis by simp
        qed
        have "length (drop n (y # zs)) < length xs" using n(2) Cons by simp
        moreover have "drop n (y # zs @ ys) = drop n (y # zs) @ ys"
          using n(3) drop_append [of n "y # zs" ys] by simp
        ultimately have "elems_lang rules (drop n (y # zs @ ys)) w' \<longleftrightarrow> conc (elems_lang rules (drop n (y # zs))) (elems_lang rules ys) w'"
          using IH n(4) fl(2) by simp
        then show ?thesis
          unfolding Cons w append_Cons elems_char [OF all 1 long]
            conc_Cons [where A = "elems_lang rules (y # zs)", OF elems_char_Nil [OF 1]] elems_char [OF \<open>flat (y # zs)\<close> 1 n(1)]
            conc_const by blast
      qed
    next
      case 2
      have "length zs < length xs" using Cons by simp
      then have "elems_lang rules (zs @ ys) x \<longleftrightarrow> conc (elems_lang rules zs) (elems_lang rules ys) x" for x
        using IH 2(2) fl(2) by blast
      then show ?thesis
        unfolding Cons append_Cons elems_ref [OF 2(1)] conc_assoc [symmetric]
        by (simp add: conc_assoc elems_ref [OF 2(1)] cong: conc_cong)
    next
      case 3
      then show ?thesis using elems_token Cons by (auto simp: conc_def)
    qed
  qed
qed

text \<open>The words of \<open>k\<close> words of the elements, one after the other.\<close>

fun copies :: "llama_grammar_rules \<Rightarrow> llama_grammar_rule \<Rightarrow> nat \<Rightarrow> nat list \<Rightarrow> bool" where
  "copies rules es 0 = (\<lambda>w. w = [])"
| "copies rules es (Suc k) = conc (elems_lang rules es) (copies rules es k)"

lemma copies_add: "copies rules es (j + k) = conc (copies rules es j) (copies rules es k)"
  by (induction j) (simp_all add: conc_fun)

lemma elems_append_fun: "\<lbrakk>flat xs; flat ys\<rbrakk> \<Longrightarrow> elems_lang rules (xs @ ys) = conc (elems_lang rules xs) (elems_lang rules ys)"
  by (simp add: fun_eq_iff elems_append)

lemma elems_Nil_fun: "elems_lang rules [] = (\<lambda>w. w = [])"
  by (simp add: fun_eq_iff elems_Nil)

lemma elems_copies:
  "flat es \<Longrightarrow> flat (concat (replicate k es)) \<and> elems_lang rules (concat (replicate k es)) = copies rules es k"
  by (induction k) (simp_all add: elems_Nil_fun flat_append elems_append_fun)

section \<open>The rules of a repetition\<close>

lemma alts_from_flat:
  "\<forall>e \<in> set es. \<not> is_end_type (ge_type e) \<Longrightarrow> alts_from s i (es @ rest) = alts_from s (i + length es) rest"
  by (induction es arbitrary: i) (auto simp: is_end_type_def)

lemma rec_alternates:
  assumes "r < length rules" and "flat es" and "rules ! r = es @ [elem LLAMA_GRETYPE_ALT 0, elem LLAMA_GRETYPE_END 0]"
  shows "alternates rules r = Some [0, length es + 1]"
  using assms alts_from_flat [of es 0 0 "[elem LLAMA_GRETYPE_ALT 0, elem LLAMA_GRETYPE_END 0]"] flat_not_end [OF assms(2)]
  by (simp add: alternates_def vget_def)

lemma rec_ends:
  assumes "r < length rules" and "rules ! r = es @ [elem LLAMA_GRETYPE_ALT 0, elem LLAMA_GRETYPE_END 0]"
  shows "seq_lang rules (r, length es) w \<longleftrightarrow> w = []" "seq_lang rules (r, length es + 1) w \<longleftrightarrow> w = []"
  using assms
  by (auto intro!: seq_lang_end simp: llama_grammar_is_end_of_sequence_def deref_def vget_def is_end_type_def nth_append)

text \<open>A rule that has the elements as one alternate and the empty one as the other.\<close>

lemma rec_rule_lang:
  assumes "r < length rules" and "flat es" and "rules ! r = es @ [elem LLAMA_GRETYPE_ALT 0, elem LLAMA_GRETYPE_END 0]"
  shows "rule_lang rules r w \<longleftrightarrow> elems_lang rules es w \<or> w = []"
proof -
  have "seq_lang rules (r, 0) w \<longleftrightarrow> conc (elems_lang rules es) (seq_lang rules (r, length es)) w"
    using seq_split [OF assms(1) _ assms(2), of "elem LLAMA_GRETYPE_ALT 0" "[]" "[elem LLAMA_GRETYPE_END 0]" w] assms(3)
    by (simp add: is_start_type_def)
  also have "\<dots> \<longleftrightarrow> elems_lang rules es w"
    using rec_ends(1) [OF assms(1,3)] by (simp cong: conc_cong)
  finally show ?thesis
    using rule_lang_alts [OF rec_alternates [OF assms]] rec_ends(2) [OF assms(1,3)] by simp
qed

lemma flat_ref: "flat [elem LLAMA_GRETYPE_RULE_REF q]"
  by (simp add: flat_def block_ok_single is_start_type_def)

lemma elems_ref_last: "elems_lang rules [elem LLAMA_GRETYPE_RULE_REF q] = rule_lang rules q"
  by (simp add: fun_eq_iff elems_ref elems_Nil_fun)

lemma rec_rule_step:
  assumes "r < length rules" and "flat es"
    and "rules ! r = es @ [elem LLAMA_GRETYPE_RULE_REF q, elem LLAMA_GRETYPE_ALT 0, elem LLAMA_GRETYPE_END 0]"
  shows "rule_lang rules r w \<longleftrightarrow> conc (elems_lang rules es) (rule_lang rules q) w \<or> w = []"
proof -
  have "rules ! r = (es @ [elem LLAMA_GRETYPE_RULE_REF q]) @ [elem LLAMA_GRETYPE_ALT 0, elem LLAMA_GRETYPE_END 0]"
    using assms(3) by simp
  from rec_rule_lang [OF assms(1) flat_append [OF assms(2) flat_ref] this]
  show ?thesis by (simp add: elems_append_fun [OF assms(2) flat_ref] elems_ref_last)
qed

text \<open>The chain of rules of a bounded repetition.\<close>

lemma ex_le_Suc: "(\<exists>k \<le> Suc n. P k) \<longleftrightarrow> P 0 \<or> (\<exists>k \<le> n. P (Suc k))"
  by (metis Suc_le_mono le0 not0_implies_Suc)

lemma bounded_chain:
  assumes "flat es" and "\<And>i. i < n \<Longrightarrow> b + i < length rules \<and> rules ! (b + i) =
      es @ (if i > 0 then [elem LLAMA_GRETYPE_RULE_REF (b + i - 1)] else []) @ [elem LLAMA_GRETYPE_ALT 0, elem LLAMA_GRETYPE_END 0]"
  shows "i < n \<Longrightarrow> rule_lang rules (b + i) w \<longleftrightarrow> (\<exists>k \<le> i + 1. copies rules es k w)"
proof (induction i arbitrary: w)
  case 0
  have "rule_lang rules b w \<longleftrightarrow> elems_lang rules es w \<or> w = []"
    using rec_rule_lang [OF _ assms(1), of b rules w] assms(2) [OF 0] by simp
  then show ?case using ex_le_Suc [of 0 "\<lambda>k. copies rules es k w"] by (auto simp: conc_fun)
next
  case (Suc i)
  have "rule_lang rules (b + Suc i) w \<longleftrightarrow> conc (elems_lang rules es) (rule_lang rules (b + i)) w \<or> w = []"
    using rec_rule_step [OF _ assms(1), of "b + Suc i" rules "b + i" w] assms(2) [OF Suc.prems] by simp
  also have "conc (elems_lang rules es) (rule_lang rules (b + i)) w \<longleftrightarrow> (\<exists>k \<le> i + 1. copies rules es (Suc k) w)"
    using Suc by (auto simp: conc_def)
  also have "(\<exists>k \<le> i + 1. copies rules es (Suc k) w) \<or> w = [] \<longleftrightarrow> (\<exists>k \<le> Suc i + 1. copies rules es k w)"
    using ex_le_Suc [of "i + 1" "\<lambda>k. copies rules es k w"] by auto
  finally show ?case .
qed


text \<open>The rule of an unbounded repetition, which refers to itself.\<close>

lemma loop_sound:
  assumes "r < length rules" and "flat es"
    and "rules ! r = es @ [elem LLAMA_GRETYPE_RULE_REF r, elem LLAMA_GRETYPE_ALT 0, elem LLAMA_GRETYPE_END 0]"
  shows "seq_lang rules p w \<Longrightarrow> fst p = r \<and> snd p \<le> length es \<and> flat (drop (snd p) es) \<longrightarrow>
      conc (elems_lang rules (drop (snd p) es)) (\<lambda>x. \<exists>k. copies rules es k x) w"
    and "rule_lang rules v w \<Longrightarrow> v = r \<longrightarrow> (\<exists>k. copies rules es k w)"
proof (induction rule: seq_lang_rule_lang.inducts)
  case (seq_end p)
  show ?case
  proof
    assume p: "fst p = r \<and> snd p \<le> length es \<and> flat (drop (snd p) es)"
    with seq_end assms(1,3) have e: "is_end_type (ge_type ((es @ [elem LLAMA_GRETYPE_RULE_REF r]) ! snd p))"
      by (cases p) (auto simp: llama_grammar_is_end_of_sequence_def deref_def vget_def nth_append split: if_splits)
    have "\<not> is_end_type (ge_type x)" if "x \<in> set (es @ [elem LLAMA_GRETYPE_RULE_REF r])" for x
      using flat_not_end [OF flat_append [OF assms(2) flat_ref] that] .
    moreover have "(es @ [elem LLAMA_GRETYPE_RULE_REF r]) ! snd p \<in> set (es @ [elem LLAMA_GRETYPE_RULE_REF r])"
      using p by (intro nth_mem) simp
    ultimately show "conc (elems_lang rules (drop (snd p) es)) (\<lambda>x. \<exists>k. copies rules es k x) []" using e by blast
  qed
next
  case (seq_chr p c q w)
  show ?case
  proof
    assume p: "fst p = r \<and> snd p \<le> length es \<and> flat (drop (snd p) es)"
    from seq_chr(1) obtain e where e: "deref rules p = Some e" "is_char_start (ge_type e)"
      by (auto simp: llama_grammar_match_char_def split: bind_splits)
    have i: "snd p < length es"
    proof (rule ccontr)
      assume "\<not> snd p < length es"
      with p have "snd p = length es" by simp
      with p e(1) assms(1,3) have "e = elem LLAMA_GRETYPE_RULE_REF r"
        by (cases p) (auto simp: deref_def vget_def)
      with e(2) show False by (simp add: gretype_defs)
    qed
    have d: "drop (snd p) es = es ! snd p # drop (Suc (snd p)) es" using i by (simp add: Cons_nth_drop_Suc)
    have "e = es ! snd p" using e(1) p i assms(1,3) by (cases p) (auto simp: deref_def vget_def nth_append)
    with d have d: "drop (snd p) es = e # drop (Suc (snd p)) es" by simp
    let ?zs = "drop (Suc (snd p)) es"
    obtain f n where n: "match_loop c (e # ?zs @ [elem LLAMA_GRETYPE_END 0]) False 0 = Some (f, n)"
        "0 < n" "n \<le> length (e # ?zs)" "flat (drop n (e # ?zs))"
      using match_flat [of e ?zs] p d e(2) by auto
    have "drop (snd p) (rules ! r) = (e # ?zs) @ [elem LLAMA_GRETYPE_RULE_REF r, elem LLAMA_GRETYPE_ALT 0, elem LLAMA_GRETYPE_END 0]"
      unfolding assms(3) drop_append d [symmetric] using i by simp
    then have "match_loop c (drop (snd p) (rules ! r)) False 0 = Some (f, n)"
      using match_loop_rest [of "elem LLAMA_GRETYPE_RULE_REF r" "e # ?zs" c "[elem LLAMA_GRETYPE_ALT 0, elem LLAMA_GRETYPE_END 0]" False 0] n(1)
      by (simp add: is_start_type_def)
    with seq_chr(1) e p assms(1) have q: "f = is_positive_char (ge_type e)" "q = (r, snd p + n)"
      by (auto simp: llama_grammar_match_char_def vget_def)
    have dq: "drop (snd q) es = drop n (e # ?zs)" unfolding d [symmetric] q(2) by (simp add: add.commute)
    have "length (e # ?zs) = length es - snd p" using d by (metis length_drop)
    with n(3) i have "snd q \<le> length es" using q(2) by simp
    with seq_chr(3) q(2) dq n(4) have "conc (elems_lang rules (drop n (e # ?zs))) (\<lambda>x. \<exists>k. copies rules es k x) w" by simp
    then obtain u x where u: "w = u @ x" "elems_lang rules (drop n (e # ?zs)) u" "\<exists>k. copies rules es k x" by (auto simp: conc_def)
    from elems_lang.chr [OF e(2) n(1) q(1) u(2)] u(1,3)
    show "conc (elems_lang rules (drop (snd p) es)) (\<lambda>x. \<exists>k. copies rules es k x) (c # w)"
      unfolding d conc_def by (intro exI [of _ "c # u"] exI [of _ x]) simp
  qed
next
  case (seq_ref p e u w)
  show ?case
  proof
    assume p: "fst p = r \<and> snd p \<le> length es \<and> flat (drop (snd p) es)"
    show "conc (elems_lang rules (drop (snd p) es)) (\<lambda>x. \<exists>k. copies rules es k x) (u @ w)"
    proof (cases "snd p < length es")
      case True
      have "e = es ! snd p" using seq_ref(1) p True assms(1,3) by (cases p) (auto simp: deref_def vget_def nth_append)
      with True have d: "drop (snd p) es = e # drop (Suc (snd p)) es" by (simp add: Cons_nth_drop_Suc)
      from p d have "flat (e # drop (Suc (snd p)) es)" by simp
      then have "flat (drop (Suc (snd p)) es)"
        by (cases rule: flat_cases) (use seq_ref(6) in \<open>simp_all add: gretype_defs\<close>)
      with seq_ref(5) p True obtain y x where y: "w = y @ x" "elems_lang rules (drop (Suc (snd p)) es) y" "\<exists>k. copies rules es k x"
        by (auto simp: next_pos_def conc_def)
      from elems_lang.ref [OF seq_ref(6,2) y(2)] y(1,3) show ?thesis
        unfolding d conc_def by (intro exI [of _ "u @ y"] exI [of _ x]) simp
    next
      case False
      with p have l: "p = (r, length es)" by (cases p) auto
      with seq_ref(1) assms(1,3) have "e = elem LLAMA_GRETYPE_RULE_REF r" by (auto simp: deref_def vget_def)
      with seq_ref(3) have "\<exists>k. copies rules es k u" by simp
      moreover have "seq_lang rules (next_pos p) w" by fact
      then have "w = []"
        using seq_lang_end [of rules "next_pos p" w] l assms(1,3)
        by (simp add: next_pos_def llama_grammar_is_end_of_sequence_def deref_def vget_def nth_append is_end_type_def)
      ultimately show ?thesis using l by (simp add: elems_Nil_fun conc_fun)
    qed
  qed
next
  case (rule v alts a w)
  show ?case
  proof
    assume v: "v = r"
    have es: "flat (es @ [elem LLAMA_GRETYPE_RULE_REF r])" by (rule flat_append [OF assms(2) flat_ref])
    have rr: "rules ! r = (es @ [elem LLAMA_GRETYPE_RULE_REF r]) @ [elem LLAMA_GRETYPE_ALT 0, elem LLAMA_GRETYPE_END 0]"
      using assms(3) by simp
    from rec_alternates [OF assms(1) es rr] rule(1,4) v consider "a = 0" | "a = length (es @ [elem LLAMA_GRETYPE_RULE_REF r]) + 1" by auto
    then show "\<exists>k. copies rules es k w"
    proof cases
      case 1
      with rule(3) v assms(2) have "conc (elems_lang rules es) (\<lambda>x. \<exists>k. copies rules es k x) w" by simp
      then obtain k where "copies rules es (Suc k) w" by (auto simp: conc_def)
      then show ?thesis ..
    next
      case 2
      with rule(2) v rec_ends(2) [OF assms(1) rr] have "w = []" by simp
      then show ?thesis by (intro exI [of _ 0]) simp
    qed
  qed
qed

lemma loop_lang:
  assumes "r < length rules" and "flat es"
    and "rules ! r = es @ [elem LLAMA_GRETYPE_RULE_REF r, elem LLAMA_GRETYPE_ALT 0, elem LLAMA_GRETYPE_END 0]"
  shows "rule_lang rules r w \<longleftrightarrow> (\<exists>k. copies rules es k w)"
proof
  assume "\<exists>k. copies rules es k w"
  then obtain k where "copies rules es k w" ..
  then show "rule_lang rules r w"
  proof (induction k arbitrary: w)
    case 0
    then show ?case using rec_rule_step [OF assms] by simp
  next
    case (Suc k)
    then have "conc (elems_lang rules es) (rule_lang rules r) w" by (auto simp: conc_def)
    then show ?case using rec_rule_step [OF assms] by simp
  qed
qed (use loop_sound(2) [OF assms] in blast)

section \<open>What the loop of the rewriting adds\<close>

lemma decimal_value: "foldl (\<lambda>v d. v * 10 + (d - 48)) 0 (decimal n) = n"
proof (induction n rule: decimal.induct)
  case (1 n)
  then show ?case by (subst decimal.simps) simp
qed

lemma decimal_inj: "decimal m = decimal n \<longleftrightarrow> m = n"
  by (metis decimal_value)

lemma update_fresh: "k \<notin> fst ` set xs \<Longrightarrow> AList.update k v xs = xs @ [(k, v)]"
  by (induction xs) auto

lemma rec_rules_fold:
  assumes "\<forall>k \<ge> length (symbol_ids P). name @ 95 # decimal k \<notin> fst ` set (symbol_ids P)"
    and "es \<noteq> []"
  shows "\<lbrakk>length (symbol_ids P) + n < 2 ^ 32; fold (rec_step name es no_max) [0..<n] (0, P) = (last_id, P')\<rbrakk> \<Longrightarrow>
    length (symbol_ids P') = length (symbol_ids P) + n \<and>
    (\<forall>k \<ge> length (symbol_ids P'). name @ 95 # decimal k \<notin> fst ` set (symbol_ids P')) \<and>
    (0 < n \<longrightarrow> last_id = length (symbol_ids P) + n - 1) \<and>
    (\<forall>i < n. length (symbol_ids P) + i < length (gp_rules P') \<and> gp_rules P' ! (length (symbol_ids P) + i) =
      es @ (if i > 0 \<or> no_max then [elem LLAMA_GRETYPE_RULE_REF (length (symbol_ids P) + (if no_max then i else i - 1))] else []) @
      [elem LLAMA_GRETYPE_ALT 0, elem LLAMA_GRETYPE_END 0])"
proof (induction n arbitrary: last_id P')
  case 0
  then show ?case using assms(1) by simp
next
  case (Suc n)
  let ?m = "length (symbol_ids P)"
  obtain l1 P1 where f: "fold (rec_step name es no_max) [0..<n] (0, P) = (l1, P1)" by fastforce
  from Suc.IH [OF _ f] Suc.prems(1) have P1: "length (symbol_ids P1) = ?m + n"
    "\<forall>k \<ge> ?m + n. name @ 95 # decimal k \<notin> fst ` set (symbol_ids P1)"
    "0 < n \<Longrightarrow> l1 = ?m + n - 1"
    "\<forall>i < n. ?m + i < length (gp_rules P1) \<and> gp_rules P1 ! (?m + i) =
      es @ (if i > 0 \<or> no_max then [elem LLAMA_GRETYPE_RULE_REF (?m + (if no_max then i else i - 1))] else []) @
      [elem LLAMA_GRETYPE_ALT 0, elem LLAMA_GRETYPE_END 0]" by auto
  have small: "u32 (?m + n) = ?m + n" using Suc.prems(1) by (intro u32_small) simp
  let ?new = "es @ (if n > 0 \<or> no_max then [elem LLAMA_GRETYPE_RULE_REF (?m + (if no_max then n else n - 1))] else []) @
      [elem LLAMA_GRETYPE_ALT 0, elem LLAMA_GRETYPE_END 0]"
  have ref: "(if n > 0 \<or> no_max then [elem LLAMA_GRETYPE_RULE_REF (if no_max then ?m + n else l1)] else [])
      = (if n > 0 \<or> no_max then [elem LLAMA_GRETYPE_RULE_REF (?m + (if no_max then n else n - 1))] else [])"
    using P1(3) by auto
  have "rec_step name es no_max n (l1, P1) = (last_id, P')" using Suc.prems(2) f by simp
  then have res: "last_id = ?m + n" "P' = add_rule (?m + n) ?new (P1\<lparr>symbol_ids := symbol_ids P1 @ [(name @ 95 # decimal (?m + n), ?m + n)]\<rparr>)"
    using P1(1-3) small
    by (auto simp: rec_step_def generate_symbol_id_def update_fresh ref Let_def)
  have "length (symbol_ids P') = ?m + Suc n" using P1(1) by (simp add: res(2) add_rule_rules)
  moreover have "\<forall>k \<ge> ?m + Suc n. name @ 95 # decimal k \<notin> fst ` set (symbol_ids P')"
    using P1(2) by (auto simp: res(2) add_rule_rules decimal_inj)
  moreover have "?m + i < length (gp_rules P') \<and> gp_rules P' ! (?m + i) =
      es @ (if i > 0 \<or> no_max then [elem LLAMA_GRETYPE_RULE_REF (?m + (if no_max then i else i - 1))] else []) @
      [elem LLAMA_GRETYPE_ALT 0, elem LLAMA_GRETYPE_END 0]" if "i < Suc n" for i
    using P1(4) that by (cases "i = n") (auto simp: res(2) add_rule_rules nth_append nth_list_update)
  ultimately show ?case using res(1) by auto
qed

end
