(* ===== verification/Parser_Props.thy ===== *)
theory Parser_Props
  imports Grammar_Repeat Grammar_Props
begin

text \<open>The properties of the grammar parser: well-formed rules, the meaning of repetitions.\<close>

section \<open>Repetitions\<close>

lemma n_optional_le: "\<lbrakk>a \<le> b; b < UINT64_MAX\<rbrakk> \<Longrightarrow> n_optional a b = b - a"
proof -
  assume ab: "a \<le> b" "b < UINT64_MAX"
  then have "b + 2 ^ 64 - a = (b - a) + 2 ^ 64" by simp
  moreover have "b - a < 2 ^ 64" using ab(2) by (simp add: UINT64_MAX_def)
  ultimately have "(b + 2 ^ 64 - a) mod 2 ^ 64 = b - a" by (metis mod_add_self2 mod_less)
  with ab(2) show ?thesis by (simp add: n_optional_def)
qed

text \<open>With the bounds in the wrong order the 64-bit difference wraps around.\<close>

lemma n_optional_wraps: "n_optional 3 1 = 18446744073709551614"
  by (simp add: n_optional_def UINT64_MAX_def)

lemma at_least:
  "conc (copies rules es a) (\<lambda>x. \<exists>k. P k \<and> copies rules es k x) w \<longleftrightarrow> (\<exists>k. a \<le> k \<and> P (k - a) \<and> copies rules es k w)"
proof
  assume "conc (copies rules es a) (\<lambda>x. \<exists>k. P k \<and> copies rules es k x) w"
  then obtain k where "P k" "conc (copies rules es a) (copies rules es k) w" by (auto simp: conc_def)
  then show "\<exists>k. a \<le> k \<and> P (k - a) \<and> copies rules es k w"
    by (intro exI [of _ "a + k"]) (simp add: copies_add)
next
  assume "\<exists>k. a \<le> k \<and> P (k - a) \<and> copies rules es k w"
  then obtain k where k: "a \<le> k" "P (k - a)" "copies rules es k w" by blast
  then have "copies rules es (a + (k - a)) w" by simp
  with k(2) show "conc (copies rules es a) (\<lambda>x. \<exists>k. P k \<and> copies rules es k x) w"
    unfolding copies_add by (auto simp: conc_def)
qed

text \<open>The words of the optional part that \<open>handle_repetitions\<close> appends.\<close>

lemma optional_part:
  assumes "n = n_optional a b" and "flat es" and "es \<noteq> []" and "b = UINT64_MAX \<or> a \<le> b \<and> b < UINT64_MAX"
    and "\<forall>k \<ge> length (symbol_ids P). name @ 95 # decimal k \<notin> fst ` set (symbol_ids P)"
    and "length (symbol_ids P) + n < 2 ^ 32"
    and f: "fold (rec_step name es (b = UINT64_MAX)) [0..<n] (0, P) = (last_id, P')"
    and agree: "\<forall>i. length (symbol_ids P) \<le> i \<and> i < length (symbol_ids P') \<longrightarrow> i < length rules \<and> rules ! i = gp_rules P' ! i"
  shows "elems_lang rules (if n > 0 then [elem LLAMA_GRETYPE_RULE_REF last_id] else []) w \<longleftrightarrow>
    (\<exists>k. (b = UINT64_MAX \<or> k \<le> b - a) \<and> copies rules es k w)"
proof -
  let ?m = "length (symbol_ids P)"
  from rec_rules_fold [OF assms(5,3,6) f] have r: "length (symbol_ids P') = ?m + n" "0 < n \<Longrightarrow> last_id = ?m + n - 1"
    "\<And>i. i < n \<Longrightarrow> gp_rules P' ! (?m + i) =
      es @ (if i > 0 \<or> b = UINT64_MAX then [elem LLAMA_GRETYPE_RULE_REF (?m + (if b = UINT64_MAX then i else i - 1))] else []) @
      [elem LLAMA_GRETYPE_ALT 0, elem LLAMA_GRETYPE_END 0]" by auto
  show ?thesis
  proof (cases "b = UINT64_MAX")
    case True
    then have n: "n = 1" using assms(1) by (simp add: n_optional_def)
    have "?m < length rules" "rules ! ?m = gp_rules P' ! ?m" using agree r(1) n by auto
    then have "rule_lang rules ?m w \<longleftrightarrow> (\<exists>k. copies rules es k w)" for w
      by (intro loop_lang [OF _ assms(2)]) (use r(3) [of 0] n True in simp_all)
    with n r(2) True show ?thesis by (simp add: elems_ref_last)
  next
    case False
    with assms(1,4) have n: "n = b - a" by (simp add: n_optional_le)
    show ?thesis
    proof (cases "n = 0")
      case True
      with n False show ?thesis by (simp add: elems_Nil)
    next
      case pos: False
      have "rule_lang rules (?m + (n - 1)) w \<longleftrightarrow> (\<exists>k \<le> n - 1 + 1. copies rules es k w)" (is "?L \<longleftrightarrow> _")
      proof (rule bounded_chain [OF assms(2), where n = n])
        fix i assume "i < n"
        then show "?m + i < length rules \<and> rules ! (?m + i) =
          es @ (if i > 0 then [elem LLAMA_GRETYPE_RULE_REF (?m + i - 1)] else []) @ [elem LLAMA_GRETYPE_ALT 0, elem LLAMA_GRETYPE_END 0]"
          using agree r(1) r(3) [of i] False by (cases i) auto
      qed (use pos in simp)
      moreover have "n - 1 + 1 = b - a" "last_id = ?m + (n - 1)" using pos r(2) n by simp_all
      ultimately show ?thesis using pos False by (simp only: elems_ref_last if_True neq0_conv simp_thms)
    qed
  qed
qed

text \<open>C14: The rewriting of a repetition \<open>S{m,n}\<close> (and of \<open>*\<close>, \<open>+\<close>, \<open>?\<close>) keeps its meaning: in a grammar that
  contains the rules it adds, the elements it puts in place of the last symbol accept exactly the words of \<open>m\<close> to
  \<open>n\<close> words of the symbol, or of \<open>m\<close> or more when there is no upper bound.\<close>

theorem repetition_language:
  assumes "handle_repetitions name l a b rule P = Some (rule', P')" and "l \<le> length rule" and "flat (drop l rule)"
    and "b = UINT64_MAX \<or> a \<le> b \<and> b < UINT64_MAX"
    and "\<forall>k \<ge> length (symbol_ids P). name @ 95 # decimal k \<notin> fst ` set (symbol_ids P)"
    and "length (symbol_ids P) + n_optional a b < 2 ^ 32"
    and "\<forall>i. length (symbol_ids P) \<le> i \<and> i < length (symbol_ids P') \<longrightarrow> i < length rules \<and> rules ! i = gp_rules P' ! i"
    and "v < length rules" and "rules ! v = rule' @ e # post" and "is_start_type (ge_type e)"
  shows "seq_lang rules (v, l) w \<longleftrightarrow>
    (\<exists>u x k. w = u @ x \<and> a \<le> k \<and> (b = UINT64_MAX \<or> k \<le> b) \<and> copies rules (drop l rule) k u \<and>
      seq_lang rules (v, length rule') x)"
proof -
  let ?es = "drop l rule"
  define n where "n = n_optional a b"
  obtain r P1 where f: "fold (rec_step name ?es (b = UINT64_MAX)) [0..<n] (0, P) = (r, P1)" by fastforce
  let ?opt = "if n > 0 then [elem LLAMA_GRETYPE_RULE_REF r] else []"
  have mid: "(if a = 0 then take l rule else rule @ concat (replicate (a - 1) ?es)) = take l rule @ concat (replicate a ?es)"
    by (cases a) (simp_all add: append_assoc [symmetric] del: append_assoc)
  have ne: "?es \<noteq> []" and rule': "rule' = take l rule @ concat (replicate a ?es) @ ?opt" and P': "P' = P1"
    using assms(1,2) f
    by (auto simp: handle_repetitions_def n_def [symmetric] mid [symmetric] Let_def check_def split: if_splits)
  have flats: "flat (concat (replicate a ?es))" "elems_lang rules (concat (replicate a ?es)) = copies rules ?es a"
    using elems_copies [OF assms(3)] by auto
  have fopt: "flat ?opt" by (simp add: flat_ref)
  have opt: "elems_lang rules ?opt = (\<lambda>x. \<exists>k. (b = UINT64_MAX \<or> k \<le> b - a) \<and> copies rules ?es k x)"
    using optional_part [OF n_def assms(3) ne assms(4,5) _ f] assms(6,7) P' by (simp add: n_def fun_eq_iff)
  have len: "length (take l rule) = l" using assms(2) by simp
  have "seq_lang rules (v, l) w \<longleftrightarrow> conc (elems_lang rules (concat (replicate a ?es) @ ?opt)) (seq_lang rules (v, length rule')) w"
    using seq_split [OF assms(8,10) flat_append [OF flats(1) fopt], of "take l rule" post w] assms(9) rule' len
    by (simp only: append_assoc length_append)
  also have "elems_lang rules (concat (replicate a ?es) @ ?opt) =
      (\<lambda>u. \<exists>k. a \<le> k \<and> (b = UINT64_MAX \<or> k - a \<le> b - a) \<and> copies rules ?es k u)"
    unfolding elems_append_fun [OF flats(1) fopt] flats(2) opt by (simp add: fun_eq_iff at_least)
  also have "\<dots> = (\<lambda>u. \<exists>k. a \<le> k \<and> (b = UINT64_MAX \<or> k \<le> b) \<and> copies rules ?es k u)"
    using assms(4) by (intro ext arg_cong [where f = Ex]) auto
  finally show ?thesis by (simp add: conc_def) blast
qed


text \<open>The repetition \<open>"b"{1,2}\<close> in the rule \<open>a\<close>.\<close>

definition demo_b :: llama_grammar_rules where
  "demo_b = [[elem LLAMA_GRETYPE_CHAR 98, elem LLAMA_GRETYPE_RULE_REF 1, elem LLAMA_GRETYPE_END 0],
     [elem LLAMA_GRETYPE_CHAR 98, elem LLAMA_GRETYPE_ALT 0, elem LLAMA_GRETYPE_END 0]]"

lemma repetition_language_witness:
  "seq_lang demo_b (0, 0) [98, 98] \<longleftrightarrow>
    (\<exists>u x k. [98, 98] = u @ x \<and> 1 \<le> k \<and> (2 = UINT64_MAX \<or> k \<le> 2) \<and>
      copies demo_b (drop 0 [elem LLAMA_GRETYPE_CHAR 98]) k u \<and>
      seq_lang demo_b (0, length [elem LLAMA_GRETYPE_CHAR 98, elem LLAMA_GRETYPE_RULE_REF 1]) x)"
proof -
  let ?P = "\<lparr>symbol_ids = [([97], 0)], gp_rules = []\<rparr>"
  let ?P' = "\<lparr>symbol_ids = [([97], 0), ([97, 95, 49], 1)],
    gp_rules = [[], [elem LLAMA_GRETYPE_CHAR 98, elem LLAMA_GRETYPE_ALT 0, elem LLAMA_GRETYPE_END 0]]\<rparr>"
  have n: "n_optional (Suc 0) 2 = Suc 0" by (simp add: n_optional_def UINT64_MAX_def)
  have h: "handle_repetitions [97] 0 1 2 [elem LLAMA_GRETYPE_CHAR 98] ?P
      = Some ([elem LLAMA_GRETYPE_CHAR 98, elem LLAMA_GRETYPE_RULE_REF 1], ?P')"
    by (simp add: handle_repetitions_def n rec_step_def generate_symbol_id_def add_rule_def decimal.simps Let_def
        UINT64_MAX_def check_def u32_def)
  show ?thesis
    by (rule repetition_language [OF h, where e = "elem LLAMA_GRETYPE_END 0" and post = "[]"])
      (auto simp: n is_start_type_def UINT64_MAX_def flat_def block_ok_single demo_b_def less_Suc_eq)
qed

section \<open>A parsed grammar\<close>

lemma copy_rule_ok: "rule_ok r \<Longrightarrow> rule_ok (copy_rule r)"
proof -
  assume "rule_ok r"
  then obtain body v where r: "r = body @ [elem LLAMA_GRETYPE_END v]" "body_ok LLAMA_GRETYPE_ALT body"
    by (auto simp: rule_ok_def)
  then have "takeWhile (\<lambda>e. ge_type e \<noteq> LLAMA_GRETYPE_END) r = body"
    using body_not_end by (simp add: takeWhile_append)
  with r show ?thesis by (auto simp: copy_rule_def rule_ok_def)
qed

lemma refs_ok_copy: "refs_ok n r \<Longrightarrow> refs_ok n (copy_rule r)"
  by (auto simp: refs_ok_def copy_rule_def dest!: set_takeWhileD)

lemma wf_copy: "wf_rules rules \<Longrightarrow> wf_rules (map copy_rule rules)"
  by (auto simp: wf_rules_def copy_rule_ok refs_ok_copy)

text \<open>C15: A grammar text that the parser accepts gives well-formed rules: every rule ends with its only END, the
  elements of a character class follow each other as the matching functions expect, and every reference names a
  rule. If the rules are not left-recursive and the start symbol is one of them, the initialisation from the text
  returns a grammar, and its stacks represent the words of the start symbol.\<close>

theorem parsed_grammar:
  assumes "parse vocab text = Some P" and "map_of (symbol_ids P) root = Some start" and "start < length (gp_rules P)"
    and "not_left_recursive (map copy_rule (gp_rules P))"
  shows "wf_rules (gp_rules P) \<and>
    (\<exists>fuel0. \<forall>fuel \<ge> fuel0. \<exists>g. llama_grammar_init_str fuel vocab text root lazy patterns tokens = Some (Some g) \<and>
      gr_rules g = map copy_rule (gp_rules P) \<and> wf_rules (gr_rules g) \<and> gr_awaiting_trigger g = lazy \<and>
      (\<forall>w. stacks_lang (gr_rules g) (gr_stacks g) w \<longleftrightarrow> rule_lang (gr_rules g) start w))"
proof
  show wf: "wf_rules (gp_rules P)" by (rule parse_wf [OF assms(1)])
  obtain fuel0 where init: "\<And>fuel. fuel \<ge> fuel0 \<Longrightarrow> \<exists>stacks g. initial_stacks fuel (map copy_rule (gp_rules P)) start = Some stacks \<and>
    llama_grammar_init_impl fuel (gp_rules P) start = Some (Some g) \<and>
    gr_rules g = map copy_rule (gp_rules P) \<and> gr_stacks g = stacks"
    using init_ok [OF wf_copy [OF wf] assms(4,3)] by blast
  show "\<exists>fuel0. \<forall>fuel \<ge> fuel0. \<exists>g. llama_grammar_init_str fuel vocab text root lazy patterns tokens = Some (Some g) \<and>
      gr_rules g = map copy_rule (gp_rules P) \<and> wf_rules (gr_rules g) \<and> gr_awaiting_trigger g = lazy \<and>
      (\<forall>w. stacks_lang (gr_rules g) (gr_stacks g) w \<longleftrightarrow> rule_lang (gr_rules g) start w)"
  proof (rule exI [of _ fuel0], intro allI impI)
    fix fuel assume "fuel \<ge> fuel0"
    from init [OF this] obtain g where g: "initial_stacks fuel (map copy_rule (gp_rules P)) start = Some (gr_stacks g)"
      "llama_grammar_init_impl fuel (gp_rules P) start = Some (Some g)" "gr_rules g = map copy_rule (gp_rules P)" by blast
    let ?g = "g\<lparr>gr_lazy := lazy, gr_awaiting_trigger := lazy, gr_trigger_tokens := tokens, gr_trigger_patterns := patterns\<rparr>"
    have "gp_rules P \<noteq> []" using assms(3) by auto
    then have "llama_grammar_init_str fuel vocab text root lazy patterns tokens = Some (Some ?g)"
      using assms(1,2) g(2) by (simp add: llama_grammar_init_str_def)
    with g(3) wf_copy [OF wf] initial_stacks_lang [OF g(1)]
    show "\<exists>g. llama_grammar_init_str fuel vocab text root lazy patterns tokens = Some (Some g) \<and>
      gr_rules g = map copy_rule (gp_rules P) \<and> wf_rules (gr_rules g) \<and> gr_awaiting_trigger g = lazy \<and>
      (\<forall>w. stacks_lang (gr_rules g) (gr_stacks g) w \<longleftrightarrow> rule_lang (gr_rules g) start w)"
      by (intro exI [of _ ?g]) simp
  qed
qed

text \<open>The text \<open>r::="a"r|""\<close>.\<close>

definition demo_text :: "byte list" where
  "demo_text = [114, 58, 58, 61, 34, 97, 34, 114, 124, 34, 34]"

lemma bind_weak_cong: "m = m' \<Longrightarrow> Option.bind m f = Option.bind m' f"
  by simp

lemma decode_a: "decode_utf8 (97 # s) = (97, s)"
  by (cases s) (simp_all add: decode_utf8_def Let_def)

lemma parse_demo: "parse None demo_text = Some \<lparr>symbol_ids = [([114], 0)],
    gp_rules = [[elem LLAMA_GRETYPE_CHAR 97, elem LLAMA_GRETYPE_RULE_REF 0, elem LLAMA_GRETYPE_ALT 0, elem LLAMA_GRETYPE_END 0]]\<rparr>"
  by (simp add: parse_def demo_text_def parse_rule_def parse_name_def get_symbol_id_def expect_def Let_def u32_def
      is_word_char_def is_digit_char_def parse_sequence_def parse_item_def [THEN fun_cong, of _ _ _ _ "(a, b)" for a b]
      parse_char_def check_def rules_defined_def undefined_ref_def add_rule_def push_element_def decode_a
      cong: bind_weak_cong)

definition demo_parsed :: llama_grammar_parser where
  "demo_parsed = \<lparr>symbol_ids = [([114], 0)],
     gp_rules = [[elem LLAMA_GRETYPE_CHAR 97, elem LLAMA_GRETYPE_RULE_REF 0, elem LLAMA_GRETYPE_ALT 0, elem LLAMA_GRETYPE_END 0]]\<rparr>"

lemma nlr_demo_parsed: "not_left_recursive (map copy_rule (gp_rules demo_parsed))"
proof -
  let ?r = "map copy_rule (gp_rules demo_parsed)"
  have "\<not> lead ?r (0, a) u" if "a \<in> {0, 3}" for a u
  proof
    assume "lead ?r (0, a) u"
    then obtain e where "deref ?r (0, a) = Some e" "ge_type e = LLAMA_GRETYPE_RULE_REF"
      by (cases rule: lead.cases) simp_all
    with that show False by (auto simp: demo_parsed_def copy_rule_def deref_def vget_def)
  qed
  then have "\<not> left_ref ?r v u" for u v
    by (auto simp: left_ref_def alternates_def vget_def demo_parsed_def copy_rule_def split: if_splits)
  then show ?thesis by (auto simp: not_left_recursive_def intro: accp.accI)
qed

lemma parsed_grammar_witness: "wf_rules (gp_rules demo_parsed) \<and>
    (\<exists>fuel0. \<forall>fuel \<ge> fuel0. \<exists>g. llama_grammar_init_str fuel None demo_text [114] False [] [] = Some (Some g) \<and>
      gr_rules g = map copy_rule (gp_rules demo_parsed) \<and> wf_rules (gr_rules g) \<and> gr_awaiting_trigger g = False \<and>
      (\<forall>w. stacks_lang (gr_rules g) (gr_stacks g) w \<longleftrightarrow> rule_lang (gr_rules g) 0 w))"
  using parse_demo nlr_demo_parsed
  by (intro parsed_grammar) (simp_all add: demo_parsed_def)

text \<open>
  The check that all rules are defined looks at the references that are left: a symbol whose only use is repeated
  zero times has no rule, and the text \<open>a::=b{0}\<close> is accepted with the root \<open>b\<close>, whose index is past the last rule.
\<close>

lemma undefined_root: "parse None [97, 58, 58, 61, 98, 123, 48, 125] =
    Some \<lparr>symbol_ids = [([97], 0), ([98], 1)], gp_rules = [[elem LLAMA_GRETYPE_END 0]]\<rparr>"
  by (simp add: parse_def parse_rule_def parse_name_def get_symbol_id_def expect_def Let_def u32_def
      is_word_char_def is_digit_char_def parse_sequence_def parse_item_def [THEN fun_cong, of _ _ _ _ "(a, b)" for a b]
      check_def rules_defined_def undefined_ref_def add_rule_def push_element_def repeat_last_def handle_repetitions_def
      parse_bounds_def parse_int_def stoull_def n_optional_def UINT64_MAX_def MAX_REPETITION_THRESHOLD_def
      cong: bind_weak_cong)

end
