(* ===== verification/Spec2Isabelle.thy ===== *)
theory Spec2Isabelle
  imports Kv_Cache_Props Block_Pool Alloc_Props Kv_Mask Batch_Props Kv_Init_Batch Kv_Purge Chunk_Props Sampler_Props Grammar_Props Parser_Props
begin

text \<open>
  ThunderLLAMA is llama.cpp with a paged KV cache and a persistent cache of KV chunks (LMCache). This
  development models the parts that decide which token's K and V are where, and proves the properties
  that make them correct; tensors, backends and model graphs are left aside.

  \<^bold>\<open>How the parts interact.\<close> A micro-batch of tokens is given cells of the KV cache: \<^verbatim>\<open>find_slot\<close>
  picks them, \<^verbatim>\<open>apply_ubatch\<close> records the position and the sequences of each, \<^verbatim>\<open>set_input_*\<close> turn them
  into row indices for the graph. The operations on sequences (\<^verbatim>\<open>seq_rm\<close>, \<^verbatim>\<open>seq_cp\<close>, \<^verbatim>\<open>seq_keep\<close>,
  \<^verbatim>\<open>seq_add\<close>, \<^verbatim>\<open>seq_div\<close>) work on the same cells; with paged attention the cells are replaced by block
  tables over a pool. The chunk storage keeps the K and V of 256-token chunks in memory and in a file
  and answers how long a prefix of a new prompt it already holds.

  \<^bold>\<open>Theories.\<close>
  \<^item> \<open>Tl_Prelude\<close>: undefined behaviour as \<open>None\<close>, checked vector access, \<open>foldM\<close> loops. \<open>Ord_Map\<close>:
    \<^verbatim>\<open>std::map\<close> as an ordered association list; the locale \<open>pos_counter\<close> of the position counters.
  \<^item> \<open>Kv_Cells\<close>, \<open>Kv_Cells_Inv\<close>, \<open>Kv_Cells_Ops\<close>, \<open>Kv_Cells_Query\<close>: \<^verbatim>\<open>llama_kv_cells\<close>
    (src/src/llama-kv-cells.h), its invariant (the used set and the counters agree with the cells), and
    the effect of every operation on the list of cells.
  \<^item> \<open>Block_Pool\<close>: \<^verbatim>\<open>llama_block_pool\<close> (src/src/llama-block-pool.cpp): free set, reference counts,
    block tables.
  \<^item> \<open>Ubatch\<close>, \<open>Kv_Cache\<close>, \<open>Kv_Slots\<close>: \<^verbatim>\<open>llama_kv_cache\<close> (src/src/llama-kv-cache.cpp): the first the
    sequence operations, the second placement, the dry run \<^verbatim>\<open>prepare\<close> and the graph inputs.
    \<open>Kv_Cache_Inv\<close>, \<open>Kv_Cache_Ops\<close>, \<open>Kv_Find_Slot\<close>: invariant and functional specifications;
    \<open>Memory_Interface\<close>, \<open>Kv_Cache_Mem\<close>: the locale \<open>llama_memory\<close> of a sequence memory as a set of
    positions, and its interpretation by the cache; \<open>Kv_Cache_Props\<close>, \<open>Kv_Place\<close>, \<open>Kv_Inputs\<close>: the
    properties.
  \<^item> \<open>Chunk_Key\<close>, \<open>Chunk_Disk\<close>: keys and hashes (src/src/thunder-lmcache-hash.cpp) and the record format.
    \<open>Lru_List\<close>: the LRU lists, with the locale \<open>lru_order\<close>. \<open>Chunk_Storage\<close>, \<open>Chunk_Lifecycle\<close>:
    \<^verbatim>\<open>ThunderChunkStorage\<close> (src/src/thunder-lmcache-storage.cpp). \<open>Chunk_Scan\<close>, \<open>Chunk_Inv\<close>, \<open>Chunk_Put\<close>,
    \<open>Chunk_L3\<close>, \<open>Chunk_Load\<close>, \<open>Chunk_Prefix\<close>: second chance, the invariants of the two tiers, put and get,
    the disk tier, the start-up scan, prefix matching; \<open>Chunk_Props\<close>: the properties.

  \<^bold>\<open>Conventions.\<close> \<open>None\<close> is a failed assertion, an access out of range, a use of freed memory, an uncaught
  exception, or fuel that ran out. Positions and sequence ids are \<open>int\<close>s, 32-bit counters \<open>nat\<close>s with
  \<open>u32\<close>, \<^verbatim>\<open>size_t\<close> \<open>nat\<close>s with \<open>u64\<close> where they can wrap, hashes \<open>64 word\<close>s.

  \<^bold>\<open>Fuel.\<close> \<open>find_fuel\<close> is two passes over the cells and is proved to be enough in \<open>Kv_Find_Slot\<close>. The
  eviction loops of the chunk storage have one step more than the LRU list has keys; each step removes a
  key, so that running out means a loop that does not end. \<open>load_fuel\<close> is one more than the size of the
  mapping: the next offset is a function of the offset, so that a run that ends visits each at most once.

  \<^bold>\<open>Not modelled.\<close> Tensors and the ggml back ends, the model architectures, sampling with floating-point
  scores, tokenisation, the attention masks and the K-shift graph, state files of the KV cache, mutexes
  and threads (an operation that holds the lock is one step), zlib, xxHash and the system calls, which
  are parameters with their documented contracts.
\<close>

end
